(* ===== verification/Prelude.thy ===== *)
theory Prelude
  imports Main "HOL-Library.Word"
begin

unbundle bit_operations_syntax

text \<open>
  Shared vocabulary of the development: the names of Rust's integer types, results as sums,
  little- and big-endian byte strings, the reader of a fixed number of bytes and of a
  counted run of elements, and the interface (locale \<open>prefix_codec\<close>) that every
  serializer with a matching deserializer of this repository satisfies.
\<close>

section \<open>Types and results\<close>

type_synonym byte = "8 word"
type_synonym u16 = "16 word"
type_synonym u32 = "32 word"
type_synonym u64 = "64 word"

text \<open>A Rust \<open>Result<T, E>\<close> is a sum: \<open>Inl\<close> is \<open>Err\<close>, \<open>Inr\<close> is \<open>Ok\<close>.\<close>

type_synonym ('a, 'e) result = "'e + 'a"

named_theorems codec_simps \<open>round-trip equations of the serializers\<close>
named_theorems len_simps \<open>lengths of serialized values\<close>

text \<open>The \<open>?\<close> operator of Rust: stop at the first error.\<close>

definition rbind :: "('a, 'e) result \<Rightarrow> ('a \<Rightarrow> ('b, 'e) result) \<Rightarrow> ('b, 'e) result" where
  "rbind r f = (case r of Inl e \<Rightarrow> Inl e | Inr x \<Rightarrow> f x)"

lemma rbind_simps [simp]:
  "rbind (Inl e) f = Inl e"
  "rbind (Inr x) f = f x"
  by (simp_all add: rbind_def)

lemma rbind_eq_Inr [simp]: "rbind r f = Inr y \<longleftrightarrow> (\<exists>x. r = Inr x \<and> f x = Inr y)"
  by (cases r) simp_all

lemma rbind_eq_Inl: "rbind r f = Inl e \<longleftrightarrow> r = Inl e \<or> (\<exists>x. r = Inr x \<and> f x = Inl e)"
  by (cases r) simp_all

lemma rbind_split:
  "P (rbind r f) \<longleftrightarrow> (\<forall>e. r = Inl e \<longrightarrow> P (Inl e)) \<and> (\<forall>x. r = Inr x \<longrightarrow> P (f x))"
  by (cases r) simp_all

definition map_err :: "('e \<Rightarrow> 'f) \<Rightarrow> ('a, 'e) result \<Rightarrow> ('a, 'f) result" where
  "map_err g r = (case r of Inl e \<Rightarrow> Inl (g e) | Inr x \<Rightarrow> Inr x)"

lemma map_err_simps [simp]:
  "map_err g (Inl e) = Inl (g e)"
  "map_err g (Inr x) = Inr x"
  by (simp_all add: map_err_def)

lemma map_err_eq_Inr [simp]: "map_err g r = Inr x \<longleftrightarrow> r = Inr x"
  by (cases r) simp_all

fun is_ok :: "('a, 'e) result \<Rightarrow> bool" where
  "is_ok (Inl e) = False"
| "is_ok (Inr x) = True"

lemma is_ok_iff: "is_ok r \<longleftrightarrow> (\<exists>x. r = Inr x)"
  by (cases r) simp_all

section \<open>Bytes\<close>

lemma unat_byte_less [simp]: "unat (b :: byte) < 256"
  using unsigned_less[of b, where 'a = nat] by simp

lemma byte_exhaust:
  assumes "\<And>n. n < 256 \<Longrightarrow> P (of_nat n :: byte)"
  shows "P b"
  using assms[of "unat b"] by simp

text \<open>All 256 bytes, for identities that are checked value by value.\<close>

definition nibbles :: "byte list" where
  "nibbles = [0, 1, 2, 3, 4, 5, 6, 7, 8, 9, 10, 11, 12, 13, 14, 15]"

definition all_bytes :: "byte list" where
  "all_bytes = concat (map (\<lambda>h. map (\<lambda>l. 16 * h + l) nibbles) nibbles)"

lemma nibbles_complete: "n < 16 \<Longrightarrow> (of_nat n :: byte) \<in> set nibbles"
  by (auto simp: nibbles_def less_Suc_eq numeral_eq_Suc)

lemma all_bytes_complete: "b \<in> set all_bytes"
proof -
  have "unat b < 16 * 16" by simp
  then have h: "(of_nat (unat b div 16) :: byte) \<in> set nibbles"
    by (intro nibbles_complete less_mult_imp_div_less)
  have l: "(of_nat (unat b mod 16) :: byte) \<in> set nibbles" by (intro nibbles_complete) simp
  have "b = of_nat (16 * (unat b div 16) + unat b mod 16)" by simp
  then have "b = 16 * of_nat (unat b div 16) + of_nat (unat b mod 16)"
    by (simp only: of_nat_add of_nat_mult) simp
  then show ?thesis unfolding all_bytes_def using h l by (auto simp: image_iff)
qed

lemma byte_check: "list_all P all_bytes \<Longrightarrow> P b"
  using all_bytes_complete[of b] by (auto simp: list_all_iff)

lemma unat_shr: "unat (drop_bit n x) = unat x div 2 ^ n" for x :: "'a::len word"
  using unat_drop_bit_eq[of n x] by (simp only: drop_bit_eq_div[of n "unat x"])

lemma unat_ucast: "unat (ucast (x :: 'a::len word) :: 'b::len word) = unat x mod 2 ^ LENGTH('b)"
  by (simp only: unsigned_ucast_eq take_bit_eq_mod)

lemma byte_of_unat:
  assumes "unat (x :: 'a::len word) < 256" "8 \<le> LENGTH('a)"
  shows "ucast (ucast x :: byte) = x"
proof -
  have "(2::nat) ^ 8 \<le> 2 ^ LENGTH('a)" using assms(2) by (rule power_increasing) simp
  then have "unat x < 2 ^ LENGTH('a)" using assms(1) by simp
  then have "unat (ucast (ucast x :: byte) :: 'a word) = unat x"
    using assms(1) by (simp add: unat_ucast)
  then show ?thesis by (simp add: word_unat_eq_iff)
qed

text \<open>\<open>le_bytes n x\<close> is the \<open>n\<close>-byte little-endian encoding of \<open>x\<close>;
  \<open>be_bytes\<close> the big-endian one (Rust: \<open>to_le_bytes\<close>, \<open>to_be_bytes\<close>).\<close>

fun le_bytes :: "nat \<Rightarrow> nat \<Rightarrow> byte list" where
  "le_bytes 0 x = []"
| "le_bytes (Suc n) x = of_nat (x mod 256) # le_bytes n (x div 256)"

fun le_val :: "byte list \<Rightarrow> nat" where
  "le_val [] = 0"
| "le_val (b # bs) = unat b + 256 * le_val bs"

definition be_bytes :: "nat \<Rightarrow> nat \<Rightarrow> byte list" where
  "be_bytes n x = rev (le_bytes n x)"

definition be_val :: "byte list \<Rightarrow> nat" where
  "be_val bs = le_val (rev bs)"

lemma length_le_bytes [simp, len_simps]: "length (le_bytes n x) = n"
  by (induction n arbitrary: x) auto

lemma length_be_bytes [simp, len_simps]: "length (be_bytes n x) = n"
  by (simp add: be_bytes_def)

lemma unat_of_nat_byte: "unat (of_nat n :: byte) = n mod 256"
  by (simp add: unat_of_nat)

lemma le_val_le_bytes: "le_val (le_bytes n x) = x mod 256 ^ n"
proof (induction n arbitrary: x)
  case 0
  then show ?case by simp
next
  case (Suc n)
  then show ?case
    by (simp add: unat_of_nat_byte mod_mult2_eq mult.commute)
qed

lemma le_bytes_le_val: "length bs = n \<Longrightarrow> le_bytes n (le_val bs) = bs"
  by (induction bs arbitrary: n) (auto simp: unat_of_nat_byte)

lemma le_val_less: "le_val bs < 256 ^ length bs"
proof (induction bs)
  case Nil
  then show ?case by simp
next
  case (Cons b bs)
  have "unat b + 256 * le_val bs < 256 + 256 * le_val bs" by simp
  also have "\<dots> = 256 * Suc (le_val bs)" by simp
  also have "\<dots> \<le> 256 * 256 ^ length bs" using Cons by (intro mult_le_mono2) simp
  finally show ?case by simp
qed

lemma le_val_append: "le_val (xs @ ys) = le_val xs + 256 ^ length xs * le_val ys"
  by (induction xs) (auto simp: algebra_simps)

lemma le_val_zeros [simp]: "le_val (replicate n 0) = 0"
  by (induction n) auto

lemma be_val_be_bytes: "be_val (be_bytes n x) = x mod 256 ^ n"
  by (simp add: be_val_def be_bytes_def le_val_le_bytes)

lemma be_bytes_be_val: "length bs = n \<Longrightarrow> be_bytes n (be_val bs) = bs"
  by (simp add: be_val_def be_bytes_def le_bytes_le_val)

lemma be_val_less: "be_val bs < 256 ^ length bs"
  using le_val_less[of "rev bs"] by (simp add: be_val_def)

lemma be_val_append: "be_val (xs @ ys) = be_val xs * 256 ^ length ys + be_val ys"
  by (simp add: be_val_def le_val_append mult.commute)

lemma take_le_bytes: "take n (le_bytes (n + m) x) = le_bytes n x"
  by (induction n arbitrary: x) auto

lemma drop_be_bytes: "drop m (be_bytes (m + n) x) = be_bytes n x"
  using take_le_bytes[of n m x] by (simp add: be_bytes_def drop_rev add.commute)

text \<open>\<open>to_be_bytes\<close>/\<open>from_be_bytes\<close> of \<open>u16\<close>, \<open>u32\<close>, \<open>u64\<close>.\<close>

definition u16_be :: "u16 \<Rightarrow> byte list" where "u16_be w = be_bytes 2 (unat w)"
definition u32_be :: "u32 \<Rightarrow> byte list" where "u32_be w = be_bytes 4 (unat w)"
definition u64_be :: "u64 \<Rightarrow> byte list" where "u64_be w = be_bytes 8 (unat w)"
definition be_u16 :: "byte list \<Rightarrow> u16" where "be_u16 bs = of_nat (be_val bs)"
definition be_u32 :: "byte list \<Rightarrow> u32" where "be_u32 bs = of_nat (be_val bs)"
definition be_u64 :: "byte list \<Rightarrow> u64" where "be_u64 bs = of_nat (be_val bs)"

lemma length_uN_be [simp, len_simps]:
  "length (u16_be a) = 2" "length (u32_be b) = 4" "length (u64_be c) = 8"
  by (simp_all add: u16_be_def u32_be_def u64_be_def)

lemma be_uN_round [simp, codec_simps]:
  "be_u16 (u16_be a) = a" "be_u32 (u32_be b) = b" "be_u64 (u64_be c) = c"
  using unsigned_less[of a, where 'a = nat] unsigned_less[of b, where 'a = nat]
    unsigned_less[of c, where 'a = nat]
  by (simp_all add: u16_be_def u32_be_def u64_be_def be_u16_def be_u32_def be_u64_def
      be_val_be_bytes)

lemma uN_be_round:
  "length bs = 2 \<Longrightarrow> u16_be (be_u16 bs) = bs"
  "length bs = 4 \<Longrightarrow> u32_be (be_u32 bs) = bs"
  "length bs = 8 \<Longrightarrow> u64_be (be_u64 bs) = bs"
  using be_val_less[of bs]
  by (auto simp: u16_be_def u32_be_def u64_be_def be_u16_def be_u32_def be_u64_def
      be_bytes_be_val unat_of_nat)

section \<open>Slices and bit tests\<close>

text \<open>\<open>slice a b xs\<close> is \<open>xs[a..b]\<close>.\<close>

definition slice :: "nat \<Rightarrow> nat \<Rightarrow> 'a list \<Rightarrow> 'a list" where
  "slice a b xs = take (b - a) (drop a xs)"

lemma length_slice [simp, len_simps]: "b \<le> length xs \<Longrightarrow> length (slice a b xs) = b - a"
  by (simp add: slice_def)

lemma slice_append_slice:
  assumes "a \<le> b" "b \<le> c"
  shows "slice a b xs @ slice b c xs = slice a c xs"
proof -
  have "take (b - a) (drop a xs) @ take (c - b) (drop (b - a) (drop a xs)) = take ((b - a) + (c - b)) (drop a xs)"
    by (rule take_add[symmetric])
  then show ?thesis using assms by (simp add: slice_def)
qed

lemma and_pow2_gt_0: "(x AND push_bit n 1 > 0) = bit x n" for x :: "'a::len word"
  by (simp add: bit_iff_and_push_bit_not_eq_0 word_gt_0)

lemma bit_less_pow2: "bit x n \<Longrightarrow> unat x < 2 ^ k \<Longrightarrow> n < k" for x :: "'a::len word"
proof (rule ccontr)
  assume b: "bit x n" and l: "unat x < 2 ^ k" and "\<not> n < k"
  then have "unat x < 2 ^ n"
    by (meson less_le_trans not_less power_increasing one_le_numeral)
  then have "\<not> bit (unat x) n" by (simp add: bit_iff_odd)
  with b show False by (simp add: bit_unsigned_iff)
qed

section \<open>Readers\<close>

text \<open>A counted run of elements: the \<open>for _ in 0..count\<close> loops of the deserializers.\<close>

fun read_n :: "(byte list \<Rightarrow> ('a \<times> byte list, 'e) result) \<Rightarrow> nat \<Rightarrow> byte list
    \<Rightarrow> ('a list \<times> byte list, 'e) result" where
  "read_n d 0 r = Inr ([], r)"
| "read_n d (Suc n) r = rbind (d r) (\<lambda>(x, r1). rbind (read_n d n r1) (\<lambda>(xs, r2). Inr (x # xs, r2)))"

text \<open>
  The interface of every serializer of the repository: a decoder that reads a value off the
  front of a buffer and returns the rest inverts the encoder on the values that satisfy
  \<open>ok\<close>, whatever follows.
\<close>

locale prefix_codec =
  fixes enc :: "'a \<Rightarrow> byte list"
    and dec :: "byte list \<Rightarrow> ('a \<times> byte list, 'e) result"
    and ok :: "'a \<Rightarrow> bool"
  assumes dec_enc: "ok x \<Longrightarrow> dec (enc x @ rest) = Inr (x, rest)"
begin

lemma enc_prefix_free:
  assumes "ok x" "ok y" "enc x @ r = enc y @ s"
  shows "x = y \<and> r = s"
proof -
  have "Inr (x, r) = dec (enc y @ s)"
    using dec_enc[OF assms(1), of r] unfolding assms(3) by (rule sym)
  also have "\<dots> = Inr (y, s)" by (rule dec_enc[OF assms(2)])
  finally show ?thesis by simp
qed

lemma enc_inj_on: "inj_on enc (Collect ok)"
proof (rule inj_onI)
  fix x y assume "x \<in> Collect ok" "y \<in> Collect ok" "enc x = enc y"
  then show "x = y" using enc_prefix_free[of x y "[]" "[]"] by simp
qed

lemma read_n_concat:
  "\<forall>x\<in>set xs. ok x \<Longrightarrow> read_n dec (length xs) (concat (map enc xs) @ rest) = Inr (xs, rest)"
  by (induction xs) (simp_all add: dec_enc)

lemma concat_enc_inj:
  assumes "\<forall>x\<in>set xs. ok x" "\<forall>x\<in>set ys. ok x" "length xs = length ys"
    and "concat (map enc xs) @ r = concat (map enc ys) @ s"
  shows "xs = ys \<and> r = s"
proof -
  have "Inr (xs, r) = read_n dec (length xs) (concat (map enc ys) @ s)"
    using read_n_concat[OF assms(1), of r] unfolding assms(4) by (rule sym)
  also have "\<dots> = Inr (ys, s)" unfolding assms(3) by (rule read_n_concat[OF assms(2)])
  finally show ?thesis by simp
qed

end

end
