(* ===== verification/Rc4.thy ===== *)
theory Rc4
  imports Prelude "HOL-Library.Multiset"
begin

text \<open>
  The RC4 cipher of AstroBWTv3 (\<open>astrobwt/src/rc4.rs\<close>): the key schedule \<open>Rc4::new\<close>
  (whose key-size assertion is the \<open>None\<close> result) and the in-place \<open>xor_key_stream\<close>.
  The box is a list of 256 bytes; \<open>i\<close> and \<open>j\<close> are bytes, so they wrap as in the source.
\<close>

section \<open>State and operations\<close>

record rc4 =
  rc4_s :: "byte list"
  rc4_i :: byte
  rc4_j :: byte

text \<open>\<open>s.swap(a, b)\<close>\<close>

definition swap :: "nat \<Rightarrow> nat \<Rightarrow> 'a list \<Rightarrow> 'a list" where
  "swap a b xs = xs[a := xs ! b, b := xs ! a]"

definition ksa_step :: "byte list \<Rightarrow> byte list \<times> byte \<Rightarrow> nat \<Rightarrow> byte list \<times> byte" where
  "ksa_step key sj i =
     (let (s, j) = sj; j' = j + s ! i + key ! (i mod length key) in (swap i (unat j') s, j'))"

definition rc4_new :: "byte list \<Rightarrow> rc4 option" where
  "rc4_new key =
     (if 1 \<le> length key \<and> length key \<le> 256 then
        Some \<lparr>rc4_s = fst (foldl (ksa_step key) (map of_nat [0..<256], 0) [0..<256]),
              rc4_i = 0, rc4_j = 0\<rparr>
      else None)"

text \<open>One round of the generator: the new state and the key byte.\<close>

definition prga :: "rc4 \<Rightarrow> rc4 \<times> byte" where
  "prga c =
     (let i = rc4_i c + 1; x = rc4_s c ! unat i;
          j = rc4_j c + x; y = rc4_s c ! unat j;
          s = (rc4_s c)[unat i := y, unat j := x]
      in (\<lparr>rc4_s = s, rc4_i = i, rc4_j = j\<rparr>, s ! unat (x + y)))"

fun xor_key_stream :: "rc4 \<Rightarrow> byte list \<Rightarrow> rc4 \<times> byte list" where
  "xor_key_stream c [] = (c, [])"
| "xor_key_stream c (b # bs) =
     (let (c1, k) = prga c; (c2, bs') = xor_key_stream c1 bs in (c2, (b XOR k) # bs'))"

lemma xor_key_stream_Cons:
  "xor_key_stream c (b # bs) =
     (fst (xor_key_stream (fst (prga c)) bs),
      (b XOR snd (prga c)) # snd (xor_key_stream (fst (prga c)) bs))"
  by (simp split: prod.splits)

declare xor_key_stream.simps(2) [simp del]
declare xor_key_stream_Cons [simp]

section \<open>The box stays a permutation\<close>

definition rc4_inv :: "rc4 \<Rightarrow> bool" where
  "rc4_inv c \<longleftrightarrow> length (rc4_s c) = 256 \<and> distinct (rc4_s c)"

lemma length_swap [simp, len_simps]: "length (swap a b xs) = length xs"
  by (simp add: swap_def)

lemma mset_swap_list [simp]: "a < length xs \<Longrightarrow> b < length xs \<Longrightarrow> mset (swap a b xs) = mset xs"
  by (simp add: swap_def mset_swap)

lemma distinct_swap_list [simp]:
  "a < length xs \<Longrightarrow> b < length xs \<Longrightarrow> distinct (swap a b xs) = distinct xs"
  by (simp add: swap_def distinct_swap)

lemma swap_eq_updates: "a < length s \<Longrightarrow> b < length s \<Longrightarrow> s[a := s ! b, b := s ! a] = swap a b s"
  by (simp add: swap_def)

lemma distinct_all_bytes: "distinct (map (of_nat :: nat \<Rightarrow> byte) [0..<256])"
proof -
  have "inj_on (of_nat :: nat \<Rightarrow> byte) {0..<256}"
  proof (rule inj_onI)
    fix a b assume ab: "a \<in> {0..<256::nat}" "b \<in> {0..<256}" and eq: "(of_nat a :: byte) = of_nat b"
    have "unat (of_nat a :: byte) = unat (of_nat b :: byte)" unfolding eq ..
    with ab show "a = b" by (simp only: unat_of_nat_byte) simp
  qed
  then show ?thesis by (simp add: distinct_map)
qed

lemma ksa_step_inv:
  assumes "length (fst sj) = 256" "distinct (fst sj)" "i < 256"
  shows "length (fst (ksa_step key sj i)) = 256 \<and> distinct (fst (ksa_step key sj i))"
  using assms by (cases sj) (simp add: ksa_step_def Let_def)

lemma ksa_inv:
  assumes "length (fst sj) = 256" "distinct (fst sj)" "\<forall>i\<in>set is. i < 256"
  shows "length (fst (foldl (ksa_step key) sj is)) = 256 \<and> distinct (fst (foldl (ksa_step key) sj is))"
  using assms
proof (induction "is" arbitrary: sj)
  case (Cons i "is")
  from Cons.prems have "length (fst (ksa_step key sj i)) = 256 \<and> distinct (fst (ksa_step key sj i))"
    by (intro ksa_step_inv) simp_all
  then show ?case using Cons by simp
qed simp

lemma rc4_new_inv: "rc4_new key = Some c \<Longrightarrow> rc4_inv c"
  using ksa_inv[of "(map of_nat [0..<256], 0)" "[0..<256]" key] distinct_all_bytes
  by (auto simp: rc4_new_def rc4_inv_def split: if_splits)

lemma prga_inv: "rc4_inv c \<Longrightarrow> rc4_inv (fst (prga c))"
  by (simp add: prga_def rc4_inv_def Let_def swap_eq_updates)

lemma xor_key_stream_inv: "rc4_inv c \<Longrightarrow> rc4_inv (fst (xor_key_stream c bs))"
  by (induction bs arbitrary: c) (simp_all add: prga_inv)

lemma rc4_box_set:
  assumes "rc4_inv c"
  shows "set (rc4_s c) = UNIV"
proof -
  have "card (set (rc4_s c)) = card (UNIV :: byte set)"
    using assms by (simp add: rc4_inv_def distinct_card card_word)
  then show ?thesis by (intro card_subset_eq) simp_all
qed

section \<open>The key stream\<close>

fun keystream :: "rc4 \<Rightarrow> nat \<Rightarrow> byte list" where
  "keystream c 0 = []"
| "keystream c (Suc n) = snd (prga c) # keystream (fst (prga c)) n"

lemma length_keystream [simp]: "length (keystream c n) = n"
  by (induction n arbitrary: c) auto

lemma xor_key_stream_keystream:
  "snd (xor_key_stream c bs) = map2 (XOR) bs (keystream c (length bs))"
  by (induction bs arbitrary: c) simp_all

lemma xor_key_stream_state: "fst (xor_key_stream c bs) = ((fst \<circ> prga) ^^ length bs) c"
  by (induction bs arbitrary: c) (simp_all add: funpow_swap1)

lemma xor_key_stream_length [simp, len_simps]: "length (snd (xor_key_stream c bs)) = length bs"
  by (simp add: xor_key_stream_keystream)

lemma map2_xor_twice: "length ks = length bs \<Longrightarrow> map2 (XOR) (map2 (XOR) bs ks) ks = (bs :: byte list)"
  by (induction bs ks rule: list_induct2') (simp_all add: xor.assoc)

text \<open>After the key schedule and after any amount of key stream the RC4 box is a permutation of
  all 256 byte values, so no index computed from the state is ever out of range.\<close>

theorem rc4_box_permutation:
  assumes "rc4_new key = Some c"
  shows "length (rc4_s (fst (xor_key_stream c bs))) = 256 \<and> distinct (rc4_s (fst (xor_key_stream c bs)))
    \<and> set (rc4_s (fst (xor_key_stream c bs))) = UNIV"
  using xor_key_stream_inv[OF rc4_new_inv[OF assms], of bs] rc4_box_set
  by (simp add: rc4_inv_def)

theorem rc4_box_permutation_witness:
  "distinct (rc4_s (fst (xor_key_stream (the (rc4_new [1, 2, 3])) [5, 6])))"
proof -
  have "rc4_new [1, 2, 3] = Some (the (rc4_new [1, 2, 3]))" by (simp add: rc4_new_def)
  from rc4_box_permutation[OF this, of "[5, 6]"] show ?thesis by blast
qed

text \<open>Applying the key stream twice from the same cipher state restores the data, the state reached
  does not depend on the data, and streaming in two pieces equals streaming at once.\<close>

theorem rc4_stream_cipher:
  "snd (xor_key_stream c (snd (xor_key_stream c bs))) = bs
   \<and> fst (xor_key_stream c (snd (xor_key_stream c bs))) = fst (xor_key_stream c bs)
   \<and> xor_key_stream c (xs @ ys) =
       (fst (xor_key_stream (fst (xor_key_stream c xs)) ys),
        snd (xor_key_stream c xs) @ snd (xor_key_stream (fst (xor_key_stream c xs)) ys))"
proof (intro conjI)
  show "snd (xor_key_stream c (snd (xor_key_stream c bs))) = bs"
    by (simp add: xor_key_stream_keystream map2_xor_twice)
  show "fst (xor_key_stream c (snd (xor_key_stream c bs))) = fst (xor_key_stream c bs)"
    by (simp add: xor_key_stream_state)
  show "xor_key_stream c (xs @ ys) =
       (fst (xor_key_stream (fst (xor_key_stream c xs)) ys),
        snd (xor_key_stream c xs) @ snd (xor_key_stream (fst (xor_key_stream c xs)) ys))"
    by (induction xs arbitrary: c) simp_all
qed

end
