(* ===== verification/Ops.thy ===== *)
theory Ops
  imports Rc4
begin

text \<open>
  The 256 byte transforms of the AstroBWTv3 loop (\<open>astrobwt/src/ops_generated.rs\<close>). Every
  arm of \<open>apply_op\<close> runs four primitive steps on each byte of \<open>s[pos1..pos2]\<close>; the
  primitives are the constructors of \<open>bop\<close> and the arms are the rows of the tables
  below, in the order of the source. Arm 0 also exchanges the reversed bytes at the two
  positions, arm 253 also rehashes, arms 254 and 255 rekey the cipher first.
  XXH64 is an external crate and a parameter.
\<close>

section \<open>Primitive steps\<close>

datatype bop =
    BXorPop       \<comment> \<open>\<open>s[ii] ^ (s[ii].count_ones() as u8)\<close>\<close>
  | BRotl nat     \<comment> \<open>\<open>s[ii].rotate_left(n)\<close>\<close>
  | BMul          \<comment> \<open>\<open>s[ii].wrapping_mul(s[ii])\<close>\<close>
  | BRotlSelf     \<comment> \<open>\<open>s[ii].rotate_left(s[ii] as u32)\<close>\<close>
  | BShl          \<comment> \<open>\<open>s[ii] << (s[ii] & 3)\<close>\<close>
  | BShr          \<comment> \<open>\<open>s[ii] >> (s[ii] & 3)\<close>\<close>
  | BAndP2        \<comment> \<open>\<open>s[ii] & s[p2]\<close>\<close>
  | BXorP2        \<comment> \<open>\<open>s[ii] ^ s[p2]\<close>\<close>
  | BNot          \<comment> \<open>\<open>!s[ii]\<close>\<close>
  | BAdd          \<comment> \<open>\<open>s[ii].wrapping_add(s[ii])\<close>\<close>
  | BSub97        \<comment> \<open>\<open>s[ii].wrapping_sub(s[ii] ^ 97)\<close>\<close>
  | BRev          \<comment> \<open>\<open>s[ii].reverse_bits()\<close>\<close>
  | BXorRotl nat  \<comment> \<open>\<open>s[ii] ^ s[ii].rotate_left(n)\<close>\<close>

definition count_ones :: "byte \<Rightarrow> nat" where
  "count_ones x = length (filter (bit x) [0..<8])"

fun bop_eval :: "bop \<Rightarrow> byte \<Rightarrow> byte \<Rightarrow> byte" where
  "bop_eval BXorPop x p = x XOR of_nat (count_ones x)"
| "bop_eval (BRotl n) x p = word_rotl n x"
| "bop_eval BMul x p = x * x"
| "bop_eval BRotlSelf x p = word_rotl (unat x) x"
| "bop_eval BShl x p = push_bit (unat (x AND 3)) x"
| "bop_eval BShr x p = drop_bit (unat (x AND 3)) x"
| "bop_eval BAndP2 x p = x AND p"
| "bop_eval BXorP2 x p = x XOR p"
| "bop_eval BNot x p = NOT x"
| "bop_eval BAdd x p = x + x"
| "bop_eval BSub97 x p = x - (x XOR 97)"
| "bop_eval BRev x p = word_reverse x"
| "bop_eval (BXorRotl n) x p = x XOR word_rotl n x"

text \<open>One assignment \<open>s[ii] = ...\<close>, reading the current \<open>s[ii]\<close> and \<open>s[p2]\<close>.\<close>

definition bop_step :: "nat \<Rightarrow> nat \<Rightarrow> byte list \<Rightarrow> bop \<Rightarrow> byte list" where
  "bop_step ii p2 s b = s[ii := bop_eval b (s ! ii) (s ! p2)]"

section \<open>The arms\<close>

definition ops_0_15 :: "bop list list" where
  "ops_0_15 = [
     [BXorPop, BRotl 5, BMul, BRotlSelf],
     [BShl, BRotl 1, BAndP2, BAdd],
     [BXorPop, BRev, BShl, BXorPop],
     [BRotlSelf, BRotl 3, BXorP2, BRotl 1],
     [BNot, BShr, BRotlSelf, BSub97],
     [BXorPop, BXorP2, BShl, BShr],
     [BShl, BRotl 3, BNot, BSub97],
     [BAdd, BRotlSelf, BXorPop, BNot],
     [BNot, BRotl 5, BRotl 5, BShl],
     [BXorP2, BXorRotl 4, BShr, BXorRotl 2],
     [BNot, BMul, BRotl 3, BMul],
     [BRotl 1, BRotl 5, BAndP2, BRotlSelf],
     [BXorRotl 2, BMul, BXorRotl 2, BNot],
     [BRotl 1, BXorP2, BShr, BRotl 5],
     [BShr, BShl, BMul, BShl],
     [BXorRotl 2, BShl, BAndP2, BSub97]]"

definition ops_16_31 :: "bop list list" where
  "ops_16_31 = [
     [BXorRotl 4, BMul, BRotl 1, BNot],
     [BXorP2, BMul, BRotl 5, BNot],
     [BXorRotl 4, BRotl 3, BRotl 1, BRotl 5],
     [BSub97, BRotl 5, BShl, BAdd],
     [BAndP2, BXorP2, BRev, BXorRotl 2],
     [BRotl 1, BXorP2, BAdd, BAndP2],
     [BShl, BRev, BMul, BRotl 1],
     [BRotl 3, BRotl 1, BXorPop, BAndP2],
     [BAdd, BShr, BXorRotl 4, BRotl 5],
     [BXorPop, BRotl 3, BRotlSelf, BSub97],
     [BMul, BXorPop, BAdd, BRev],
     [BRotl 5, BAndP2, BXorRotl 4, BRotl 5],
     [BShl, BAdd, BAdd, BRotl 5],
     [BMul, BXorP2, BShr, BAdd],
     [BAndP2, BXorRotl 4, BRotl 5, BShl],
     [BNot, BXorRotl 2, BShl, BMul]]"

definition ops_32_47 :: "bop list list" where
  "ops_32_47 = [
     [BXorRotl 2, BRev, BRotl 3, BXorRotl 2],
     [BRotlSelf, BXorRotl 4, BRev, BMul],
     [BSub97, BShl, BShl, BSub97],
     [BAdd, BNot, BRotl 1, BXorP2],
     [BXorPop, BRotl 1, BXorRotl 2, BRotl 1],
     [BRotlSelf, BShr, BShr, BMul],
     [BShr, BRotl 3, BXorPop, BRotlSelf],
     [BXorRotl 2, BXorP2, BShr, BAndP2],
     [BRotlSelf, BXorP2, BXorPop, BXorP2],
     [BRotl 5, BSub97, BRotl 3, BXorRotl 4],
     [BRotl 1, BRotl 3, BXorRotl 2, BRotlSelf],
     [BAndP2, BAdd, BAndP2, BSub97],
     [BXorPop, BXorPop, BRotl 3, BRotlSelf],
     [BRotl 5, BRotl 5, BAndP2, BXorPop],
     [BXorPop, BAdd, BRotl 5, BXorRotl 4],
     [BRotl 5, BAndP2, BRotl 5, BShl]]"

definition ops_48_63 :: "bop list list" where
  "ops_48_63 = [
     [BRotlSelf, BNot, BNot, BRotl 5],
     [BXorPop, BAdd, BRev, BXorRotl 4],
     [BRev, BRotl 3, BAdd, BRotl 1],
     [BXorP2, BXorRotl 4, BXorRotl 4, BRotl 5],
     [BRotlSelf, BShr, BNot, BXorPop],
     [BAdd, BXorPop, BXorRotl 4, BXorRotl 4],
     [BRev, BXorP2, BNot, BNot],
     [BRev, BXorRotl 4, BXorRotl 4, BRotl 1],
     [BXorRotl 2, BMul, BNot, BRotl 1],
     [BRotlSelf, BRotl 5, BRotl 3, BRev],
     [BRev, BXorRotl 2, BAndP2, BAdd],
     [BRotl 1, BMul, BRotlSelf, BNot],
     [BXorP2, BNot, BMul, BRotl 3],
     [BRotl 5, BShl, BRotl 3, BRotl 5],
     [BAndP2, BNot, BXorRotl 2, BAdd],
     [BRotl 5, BXorPop, BSub97, BAdd]]"

definition ops_64_79 :: "bop list list" where
  "ops_64_79 = [
     [BXorP2, BRev, BXorRotl 4, BMul],
     [BRotl 5, BRotl 3, BXorRotl 2, BMul],
     [BXorRotl 2, BRev, BXorRotl 4, BRotl 1],
     [BRotl 1, BXorPop, BXorRotl 2, BRotl 5],
     [BAndP2, BNot, BXorRotl 4, BXorP2],
     [BAdd, BMul, BRev, BShr],
     [BXorP2, BMul, BShr, BXorRotl 4],
     [BRotl 5, BNot, BMul, BShl],
     [BRev, BXorPop, BXorP2, BShl],
     [BXorPop, BRev, BRotl 5, BSub97],
     [BMul, BRotl 3, BRev, BAndP2],
     [BMul, BXorPop, BAndP2, BXorRotl 4],
     [BRotlSelf, BXorRotl 2, BRotl 5, BShr],
     [BRotl 3, BAdd, BShl, BXorPop],
     [BRotlSelf, BRev, BMul, BSub97],
     [BXorRotl 4, BXorRotl 2, BAdd, BMul]]"

definition ops_80_95 :: "bop list list" where
  "ops_80_95 = [
     [BRotlSelf, BShl, BAdd, BAndP2],
     [BXorRotl 4, BShl, BRotlSelf, BXorPop],
     [BXorP2, BNot, BNot, BShr],
     [BShl, BRev, BRotl 3, BRev],
     [BSub97, BRotl 1, BShl, BAdd],
     [BShr, BXorP2, BRotlSelf, BShl],
     [BXorRotl 4, BRotlSelf, BXorRotl 4, BNot],
     [BAdd, BRotl 3, BXorRotl 4, BAdd],
     [BXorRotl 2, BRotl 1, BMul, BNot],
     [BAdd, BMul, BNot, BXorRotl 2],
     [BRev, BRotl 5, BRotl 1, BShr],
     [BXorPop, BAndP2, BXorRotl 4, BRev],
     [BXorPop, BNot, BXorPop, BAndP2],
     [BXorRotl 2, BMul, BAndP2, BAdd],
     [BRotl 1, BRotlSelf, BAndP2, BShl],
     [BRotl 1, BNot, BRotl 5, BRotl 5]]"

definition ops_96_111 :: "bop list list" where
  "ops_96_111 = [
     [BXorRotl 2, BXorRotl 2, BXorPop, BRotl 1],
     [BRotl 1, BShl, BXorPop, BShr],
     [BXorRotl 4, BShl, BShr, BXorRotl 4],
     [BXorRotl 4, BSub97, BRev, BShr],
     [BRotlSelf, BShl, BRev, BXorPop],
     [BShr, BXorPop, BShr, BNot],
     [BRotl 3, BSub97, BAdd, BRotl 3],
     [BRotl 1, BRev, BXorP2, BRotlSelf],
     [BRev, BXorPop, BRotl 5, BAdd],
     [BShl, BRotl 3, BRotlSelf, BXorRotl 2],
     [BRev, BXorRotl 4, BRotl 1, BMul],
     [BShr, BXorRotl 2, BRotl 5, BRotl 1],
     [BXorP2, BNot, BAndP2, BXorRotl 2],
     [BMul, BRotlSelf, BXorP2, BXorRotl 2],
     [BAdd, BXorRotl 2, BXorRotl 2, BShr],
     [BMul, BRev, BMul, BShr]]"

definition ops_112_127 :: "bop list list" where
  "ops_112_127 = [
     [BRotl 3, BNot, BRotl 5, BSub97],
     [BRotl 5, BRotl 1, BXorPop, BNot],
     [BRotl 1, BRev, BRotlSelf, BNot],
     [BRotlSelf, BRotl 5, BAndP2, BRotl 3],
     [BAndP2, BXorP2, BXorPop, BShl],
     [BShl, BRotl 3, BShl, BAndP2],
     [BShr, BAdd, BShl, BRotl 5],
     [BRev, BXorRotl 2, BNot, BXorP2],
     [BXorRotl 2, BMul, BXorP2, BRev],
     [BShr, BAdd, BXorPop, BMul],
     [BXorRotl 4, BRotlSelf, BRotl 5, BXorRotl 2],
     [BAndP2, BNot, BRotl 3, BRotl 3],
     [BXorRotl 2, BXorRotl 2, BXorP2, BNot],
     [BRev, BXorRotl 2, BAdd, BShr],
     [BRotl 3, BRotl 1, BRotl 5, BRev],
     [BShl, BMul, BAndP2, BXorP2]]"

definition ops_128_143 :: "bop list list" where
  "ops_128_143 = [
     [BRotlSelf, BXorRotl 2, BXorRotl 2, BRotl 5],
     [BNot, BXorPop, BXorPop, BShr],
     [BShr, BRotlSelf, BRotl 1, BXorRotl 4],
     [BSub97, BRotl 1, BXorPop, BMul],
     [BAndP2, BRev, BRotl 5, BXorRotl 2],
     [BXorP2, BRotl 5, BXorRotl 2, BShl],
     [BNot, BXorRotl 4, BRotl 1, BAndP2],
     [BShr, BXorRotl 2, BAdd, BRev],
     [BShr, BSub97, BXorP2, BRotl 5],
     [BRotl 5, BShr, BRev, BRotlSelf],
     [BXorP2, BXorP2, BAdd, BSub97],
     [BRotl 5, BRotl 3, BXorRotl 2, BRotl 3],
     [BRotl 1, BXorRotl 2, BXorP2, BRotl 5],
     [BRotl 1, BSub97, BXorPop, BAdd],
     [BAndP2, BRotl 5, BRev, BXorRotl 2],
     [BAndP2, BRotl 3, BShr, BShl]]"

definition ops_144_159 :: "bop list list" where
  "ops_144_159 = [
     [BRotlSelf, BShl, BNot, BRotlSelf],
     [BRev, BXorRotl 4, BXorRotl 2, BXorRotl 4],
     [BAndP2, BShl, BAndP2, BXorPop],
     [BNot, BShl, BXorRotl 4, BMul],
     [BAndP2, BRotl 5, BShl, BSub97],
     [BXorP2, BRev, BSub97, BAdd],
     [BShl, BShl, BShl, BAndP2],
     [BAdd, BShl, BMul, BShl],
     [BShr, BNot, BShl, BXorRotl 2],
     [BRotl 1, BRotl 3, BNot, BNot],
     [BRotl 5, BNot, BXorP2, BXorPop],
     [BSub97, BXorP2, BXorPop, BXorP2],
     [BShr, BShr, BRotl 3, BRotl 1],
     [BShr, BShl, BRotlSelf, BRotl 1],
     [BXorPop, BRotl 3, BAdd, BRotl 1],
     [BSub97, BXorP2, BRotlSelf, BXorP2]]"

definition ops_160_175 :: "bop list list" where
  "ops_160_175 = [
     [BShr, BRev, BRotl 1, BRotl 3],
     [BXorP2, BXorP2, BRotl 5, BRotlSelf],
     [BMul, BRev, BXorRotl 2, BSub97],
     [BShl, BSub97, BXorRotl 4, BRotl 1],
     [BMul, BXorPop, BSub97, BNot],
     [BXorRotl 4, BXorP2, BShl, BAdd],
     [BRotl 3, BAdd, BXorRotl 2, BNot],
     [BNot, BNot, BMul, BShr],
     [BRotlSelf, BAndP2, BRotlSelf, BRotl 1],
     [BRotl 1, BShl, BXorRotl 4, BAndP2],
     [BSub97, BRev, BSub97, BMul],
     [BRotl 3, BSub97, BXorPop, BRev],
     [BXorRotl 4, BSub97, BShl, BRotl 1],
     [BNot, BShl, BMul, BAdd],
     [BNot, BRotlSelf, BXorPop, BXorPop],
     [BRotl 3, BSub97, BMul, BRotl 5]]"

definition ops_176_191 :: "bop list list" where
  "ops_176_191 = [
     [BXorP2, BMul, BXorP2, BRotl 5],
     [BXorPop, BXorRotl 2, BXorRotl 2, BAndP2],
     [BAndP2, BAdd, BNot, BRotl 1],
     [BXorRotl 2, BAdd, BShr, BRev],
     [BShr, BXorRotl 4, BXorP2, BSub97],
     [BNot, BShl, BXorRotl 2, BRotl 5],
     [BXorP2, BRotl 1, BRotl 5, BXorRotl 4],
     [BAdd, BSub97, BSub97, BMul],
     [BShl, BMul, BRotl 5, BXorP2],
     [BNot, BXorRotl 4, BRotl 5, BShr],
     [BXorRotl 2, BXorRotl 4, BSub97, BShr],
     [BXorP2, BNot, BAdd, BRotl 3],
     [BXorRotl 4, BXorPop, BXorRotl 4, BXorRotl 4],
     [BRotl 5, BXorRotl 4, BXorP2, BSub97],
     [BRotl 5, BShr, BAndP2, BXorRotl 2],
     [BAdd, BRotl 3, BRotlSelf, BShr]]"

definition ops_192_207 :: "bop list list" where
  "ops_192_207 = [
     [BAdd, BShl, BAdd, BMul],
     [BAndP2, BShl, BRotlSelf, BRotl 1],
     [BAndP2, BRotlSelf, BShl, BAndP2],
     [BXorPop, BXorRotl 2, BXorP2, BXorRotl 4],
     [BRotl 3, BRev, BShl, BRotl 1],
     [BXorRotl 4, BRotlSelf, BMul, BMul],
     [BShr, BShr, BRev, BRotl 1],
     [BNot, BAdd, BMul, BXorP2],
     [BShr, BXorPop, BRev, BRev],
     [BRotl 3, BXorRotl 2, BXorRotl 4, BNot],
     [BXorP2, BNot, BRotlSelf, BRotl 5],
     [BXorP2, BAndP2, BRotl 1, BRotlSelf],
     [BRotl 5, BXorRotl 2, BRotlSelf, BXorP2],
     [BXorPop, BXorRotl 4, BShl, BAdd],
     [BXorRotl 4, BRev, BRev, BXorPop],
     [BRotl 5, BRotl 3, BXorPop, BXorPop]]"

definition ops_208_223 :: "bop list list" where
  "ops_208_223 = [
     [BAdd, BAdd, BShr, BRotl 3],
     [BRotl 5, BRev, BXorPop, BSub97],
     [BXorRotl 2, BRotlSelf, BRotl 5, BNot],
     [BXorRotl 4, BAdd, BSub97, BRotlSelf],
     [BRotlSelf, BXorRotl 2, BXorP2, BXorP2],
     [BAdd, BShl, BRotl 3, BSub97],
     [BXorP2, BSub97, BShr, BNot],
     [BXorP2, BAndP2, BShl, BMul],
     [BRotlSelf, BNot, BSub97, BAndP2],
     [BRotl 5, BAdd, BRotl 1, BXorRotl 4],
     [BRev, BNot, BMul, BSub97],
     [BXorRotl 4, BRotl 3, BAndP2, BRev],
     [BRotl 1, BShl, BRev, BShl],
     [BRotl 5, BXorP2, BNot, BRev],
     [BShr, BShl, BXorP2, BMul],
     [BRotl 3, BXorP2, BRotlSelf, BSub97]]"

definition ops_224_239 :: "bop list list" where
  "ops_224_239 = [
     [BXorRotl 2, BRotl 1, BRotl 3, BShl],
     [BNot, BShr, BRev, BRotl 3],
     [BRev, BSub97, BMul, BXorP2],
     [BNot, BShl, BSub97, BAndP2],
     [BAdd, BShr, BAdd, BXorPop],
     [BRotl 3, BRotlSelf, BXorRotl 2, BXorPop],
     [BMul, BAndP2, BRotlSelf, BRotlSelf],
     [BRotl 3, BShr, BXorP2, BRev],
     [BMul, BMul, BXorRotl 4, BRotl 5],
     [BRotl 1, BXorPop, BRotl 3, BXorPop],
     [BAndP2, BMul, BShr, BXorP2],
     [BXorRotl 2, BMul, BRotl 3, BNot],
     [BXorP2, BAdd, BAndP2, BSub97],
     [BRotl 5, BShl, BXorRotl 2, BRotl 3],
     [BAdd, BAdd, BRotl 3, BSub97],
     [BRotl 5, BRotl 1, BMul, BAndP2]]"

definition ops_240_255 :: "bop list list" where
  "ops_240_255 = [
     [BNot, BAdd, BAndP2, BShl],
     [BXorRotl 4, BXorPop, BXorP2, BRotl 1],
     [BAdd, BAdd, BSub97, BXorP2],
     [BRotl 5, BXorRotl 2, BXorPop, BRotl 1],
     [BNot, BXorRotl 2, BRev, BRotl 5],
     [BSub97, BRotl 5, BXorRotl 2, BShr],
     [BAdd, BRotl 1, BShr, BAdd],
     [BRotl 5, BXorRotl 2, BRotl 5, BNot],
     [BNot, BSub97, BXorPop, BRotl 5],
     [BRev, BXorRotl 4, BXorRotl 4, BRotlSelf],
     [BAndP2, BRotlSelf, BXorPop, BXorRotl 4],
     [BAdd, BXorPop, BRev, BXorRotl 2],
     [BRev, BXorRotl 4, BXorRotl 2, BShl],
     [BRotl 3, BXorRotl 2, BXorP2, BRotl 3],
     [BXorPop, BRotl 3, BXorRotl 2, BRotl 3],
     [BXorPop, BRotl 3, BXorRotl 2, BRotl 3]]"

definition op_table :: "bop list list" where
  "op_table =
     ops_0_15 @ ops_16_31 @ ops_32_47 @ ops_48_63 @
     ops_64_79 @ ops_80_95 @ ops_96_111 @ ops_112_127 @
     ops_128_143 @ ops_144_159 @ ops_160_175 @ ops_176_191 @
     ops_192_207 @ ops_208_223 @ ops_224_239 @ ops_240_255"

section \<open>apply\_op\<close>

text \<open>What \<open>apply_op\<close> borrows mutably.\<close>

record opst =
  o_s :: "byte list"
  o_lhash :: u64
  o_prev :: u64
  o_rc4 :: rc4

text \<open>The loop body for one index \<open>ii\<close>.\<close>

definition op_iter :: "(byte list \<Rightarrow> u64) \<Rightarrow> byte \<Rightarrow> nat \<Rightarrow> nat \<Rightarrow> opst \<Rightarrow> nat \<Rightarrow> opst" where
  "op_iter xxh64 op p1 p2 st ii =
     (let s = foldl (bop_step ii p2) (o_s st) (op_table ! unat op) in
      if op = 0 then
        (let a = word_reverse (s ! p1); b = word_reverse (s ! p2) in st\<lparr>o_s := s[p2 := a, p1 := b]\<rparr>)
      else if op = 253 then
        st\<lparr>o_s := s, o_prev := o_lhash st + o_prev st, o_lhash := xxh64 (take p2 s)\<rparr>
      else st\<lparr>o_s := s\<rparr>)"

text \<open>\<open>*rc4 = Rc4::new(&s[..])\<close>; \<open>None\<close> is the panic of the key-size assertion.\<close>

definition rekey :: "opst \<Rightarrow> opst option" where
  "rekey st = map_option (\<lambda>c. st\<lparr>o_rc4 := c\<rparr>) (rc4_new (o_s st))"

definition apply_op :: "(byte list \<Rightarrow> u64) \<Rightarrow> byte \<Rightarrow> byte \<Rightarrow> byte \<Rightarrow> opst \<Rightarrow> opst option" where
  "apply_op xxh64 op pos1 pos2 st =
     map_option (\<lambda>st. foldl (op_iter xxh64 op (unat pos1) (unat pos2)) st [unat pos1..<unat pos2])
       (if op = 254 \<or> op = 255 then rekey st else Some st)"

section \<open>What an arm does\<close>

definition bop_run :: "bop list \<Rightarrow> byte \<Rightarrow> byte \<Rightarrow> byte" where
  "bop_run bs x p = foldl (\<lambda>x b. bop_eval b x p) x bs"

lemma bop_run_simps [simp]:
  "bop_run [] x p = x" "bop_run (b # bs) x p = bop_run bs (bop_eval b x p) p"
  by (simp_all add: bop_run_def)

lemma length_foldl_bop_step [simp, len_simps]: "length (foldl (bop_step ii p2) s bs) = length s"
  by (induction bs arbitrary: s) (simp_all add: bop_step_def)

lemma foldl_bop_step:
  assumes "ii \<noteq> p2" "ii < length s"
  shows "foldl (bop_step ii p2) s bs = s[ii := bop_run bs (s ! ii) (s ! p2)]"
  using assms(2)
proof (induction bs arbitrary: s)
  case (Cons b bs)
  then show ?case using assms(1) by (simp add: bop_step_def)
qed simp

lemma length_op_iter [simp, len_simps]: "length (o_s (op_iter xxh64 op p1 p2 st ii)) = length (o_s st)"
  by (simp add: op_iter_def Let_def)

lemma length_foldl_op_iter [simp, len_simps]:
  "length (o_s (foldl (op_iter xxh64 op p1 p2) st is)) = length (o_s st)"
  by (induction "is" arbitrary: st) simp_all

text \<open>The bytes of a window transformed in place.\<close>

definition window_map :: "nat \<Rightarrow> nat \<Rightarrow> (byte \<Rightarrow> byte) \<Rightarrow> byte list \<Rightarrow> byte list" where
  "window_map a b f s = map (\<lambda>k. if a \<le> k \<and> k < b then f (s ! k) else s ! k) [0..<length s]"

lemma length_window_map [simp, len_simps]: "length (window_map a b f s) = length s"
  by (simp add: window_map_def)

lemma window_map_nth: "k < length s \<Longrightarrow> window_map a b f s ! k = (if a \<le> k \<and> k < b then f (s ! k) else s ! k)"
  by (simp add: window_map_def)

lemma window_map_empty [simp]: "window_map a a f s = s"
  by (rule nth_equalityI) (auto simp: window_map_nth)

lemma plain_op_loop:
  assumes "op \<noteq> 0" "op \<noteq> 253" "p1 \<le> q" "q \<le> p2" "p2 < length (o_s st)"
  shows "foldl (op_iter xxh64 op p1 p2) st [p1..<q]
     = st\<lparr>o_s := window_map p1 q (\<lambda>x. bop_run (op_table ! unat op) x (o_s st ! p2)) (o_s st)\<rparr>"
  using assms(3,4)
proof (induction q rule: dec_induct)
  case base
  show ?case by simp
next
  case (step q)
  let ?f = "\<lambda>x. bop_run (op_table ! unat op) x (o_s st ! p2)"
  let ?w = "window_map p1 q ?f (o_s st)"
  have q: "q < p2" "q < length (o_s st)" using step.prems assms(5) by simp_all
  have "?w[q := ?f (o_s st ! q)] = window_map p1 (Suc q) ?f (o_s st)"
    using step.hyps q by (intro nth_equalityI) (auto simp: nth_list_update window_map_nth)
  moreover have "?w ! q = o_s st ! q" "?w ! p2 = o_s st ! p2"
    using q assms(5) by (simp_all add: window_map_nth)
  ultimately show ?case
    using step q assms(1,2) by (simp add: op_iter_def Let_def foldl_bop_step)
qed

lemma op_table_length: "length op_table = 256"
  by (simp add: op_table_def ops_0_15_def ops_16_31_def ops_32_47_def ops_48_63_def ops_64_79_def ops_80_95_def ops_96_111_def ops_112_127_def ops_128_143_def ops_144_159_def ops_160_175_def ops_176_191_def ops_192_207_def ops_208_223_def ops_224_239_def ops_240_255_def)

lemma apply_op_defined: "length (o_s st) = 256 \<Longrightarrow> \<exists>st'. apply_op xxh64 op pos1 pos2 st = Some st'"
  by (simp add: apply_op_def rekey_def rc4_new_def)

lemma apply_op_length: "apply_op xxh64 op pos1 pos2 st = Some st' \<Longrightarrow> length (o_s st') = length (o_s st)"
  by (auto simp: apply_op_def rekey_def split: if_splits)

lemma op_iter_rc4 [simp]: "o_rc4 (op_iter xxh64 op p1 p2 st ii) = o_rc4 st"
  by (simp add: op_iter_def Let_def)

lemma foldl_op_iter_rc4 [simp]: "o_rc4 (foldl (op_iter xxh64 op p1 p2) st is) = o_rc4 st"
  by (induction "is" arbitrary: st) simp_all

lemma apply_op_rc4_inv:
  "apply_op xxh64 op pos1 pos2 st = Some st' \<Longrightarrow> rc4_inv (o_rc4 st) \<Longrightarrow> rc4_inv (o_rc4 st')"
  by (auto simp: apply_op_def rekey_def rc4_new_inv split: if_splits)

end
