(* ===== verification/OpsAvx2.thy ===== *)
theory OpsAvx2
  imports Ops
begin

text \<open>
  The AVX2 implementation of the byte transforms (\<open>astrobwt/src/ops_avx2.rs\<close>). A
  \<open>__m256i\<close> is a list of 32 bytes; the intrinsics the code uses are defined on it from
  their documentation (the \<open>epi16\<close> ones on pairs of bytes, low byte first). The result of
  the file is that, on every window the hash loop can produce, \<open>apply_op_avx2\<close> and the
  scalar \<open>apply_op\<close> compute the same state for all 256 operations.
\<close>

section \<open>Intrinsics\<close>

type_synonym m256 = "byte list"

definition set1_epi8 :: "byte \<Rightarrow> m256" where "set1_epi8 b = replicate 32 b"

fun map16 :: "(u16 \<Rightarrow> u16) \<Rightarrow> m256 \<Rightarrow> m256" where
  "map16 f (lo # hi # r) =
     (let w = f (ucast lo OR push_bit 8 (ucast hi)) in ucast w # ucast (drop_bit 8 w) # map16 f r)"
| "map16 f _ = []"

fun map16_2 :: "(u16 \<Rightarrow> u16 \<Rightarrow> u16) \<Rightarrow> m256 \<Rightarrow> m256 \<Rightarrow> m256" where
  "map16_2 f (lo # hi # r) (lo' # hi' # r') =
     (let w = f (ucast lo OR push_bit 8 (ucast hi)) (ucast lo' OR push_bit 8 (ucast hi'))
      in ucast w # ucast (drop_bit 8 w) # map16_2 f r r')"
| "map16_2 f _ _ = []"

definition slli_epi16 :: "nat \<Rightarrow> m256 \<Rightarrow> m256" where "slli_epi16 n = map16 (push_bit n)"
definition srli_epi16 :: "nat \<Rightarrow> m256 \<Rightarrow> m256" where "srli_epi16 n = map16 (drop_bit n)"
definition set1_epi16 :: "u16 \<Rightarrow> m256" where
  "set1_epi16 w = concat (replicate 16 [ucast w, ucast (drop_bit 8 w)])"
definition mullo_epi16 :: "m256 \<Rightarrow> m256 \<Rightarrow> m256" where "mullo_epi16 = map16_2 (*)"
definition and_si256 :: "m256 \<Rightarrow> m256 \<Rightarrow> m256" where "and_si256 = map2 (AND)"
definition or_si256 :: "m256 \<Rightarrow> m256 \<Rightarrow> m256" where "or_si256 = map2 (OR)"
definition xor_si256 :: "m256 \<Rightarrow> m256 \<Rightarrow> m256" where "xor_si256 = map2 (XOR)"
definition add_epi8 :: "m256 \<Rightarrow> m256 \<Rightarrow> m256" where "add_epi8 = map2 (+)"
definition sub_epi8 :: "m256 \<Rightarrow> m256 \<Rightarrow> m256" where "sub_epi8 = map2 (-)"
definition cmpeq_epi8 :: "m256 \<Rightarrow> m256 \<Rightarrow> m256" where
  "cmpeq_epi8 = map2 (\<lambda>a b. if a = b then 0xff else 0)"
definition cmpgt_epi8 :: "m256 \<Rightarrow> m256 \<Rightarrow> m256" where
  "cmpgt_epi8 = map2 (\<lambda>a b. if sint a > sint b then 0xff else 0)"

text \<open>\<open>_mm256_blendv_epi8(a, b, mask)\<close>: the byte of \<open>b\<close> where the mask's top bit is set.\<close>

definition blendv_epi8 :: "m256 \<Rightarrow> m256 \<Rightarrow> m256 \<Rightarrow> m256" where
  "blendv_epi8 a b m = map (\<lambda>(a, b, m). if bit m 7 then b else a) (zip a (zip b m))"

section \<open>The code\<close>

definition OPS :: "u16 list" where
  "OPS = [
     0x0000, 0x7654, 0x0480, 0x5a93, 0xd3cb, 0xc4a0, 0xdb94, 0xb037, 0x411b, 0xfcea, 0x292b, 0x3615,
     0xbf2f, 0x1ca5, 0x424c, 0xd64f, 0xb52e, 0xb12a, 0x159e, 0x741d, 0xf8a6, 0x67a5, 0x5284, 0x6059,
     0x1ec7, 0xd390, 0x8702, 0x1e61, 0x1774, 0x7ca2, 0x41e6, 0x24fb, 0xf98f, 0x28e3, 0xd44d, 0xa5b7,
     0x5f50, 0x2cc3, 0x309c, 0x6caf, 0xa0a3, 0xe9d1, 0x3f95, 0xd676, 0x3900, 0x0611, 0xe170, 0x4161,
     0x1bb3, 0xe870, 0x5798, 0x1eea, 0x0bc3, 0xee07, 0xbba8, 0x5ee8, 0x5b2f, 0x8913, 0x76f8, 0xb325,
     0x92ba, 0x1941, 0x7fb6, 0x7d01, 0x2e8a, 0x2f91, 0x5e8f, 0x1f05, 0xaeb6, 0xc827, 0xec2a, 0x42b1,
     0x4a08, 0xd180, 0x6892, 0xe602, 0xc1f3, 0x0479, 0xd283, 0x27fe, 0x6743, 0x034e, 0xcbba, 0x8984,
     0x745d, 0x43ac, 0xbe3e, 0x7e97, 0xb25f, 0xfb27, 0xc518, 0x8e60, 0x60b0, 0x762f, 0x4635, 0x11b5,
     0x50ff, 0xc045, 0xec4e, 0xc8de, 0x0843, 0xbc0c, 0x97d9, 0x3a85, 0x7108, 0xf394, 0x25e8, 0x51fc,
     0xf6ba, 0xfa32, 0xcff7, 0xc282, 0xd1b9, 0xb051, 0xb385, 0x9613, 0x40a6, 0x6494, 0x147c, 0xabf8,
     0x8a2f, 0x207c, 0xf13e, 0x99b6, 0xbaff, 0xc7f8, 0x8159, 0xa624, 0x1ff3, 0xc00b, 0xe53c, 0x205d,
     0xf186, 0x4f1a, 0x65eb, 0x87fc, 0x1adc, 0x38c1, 0xd7aa, 0x9f91, 0x1af5, 0x70d5, 0xf816, 0x4c96,
     0x3b43, 0xefe8, 0x0646, 0x2e4b, 0xd416, 0x7d8a, 0x6444, 0x4247, 0xf4bc, 0xbb95, 0x0ab1, 0xa0ad,
     0x59cc, 0x534c, 0x5790, 0xa3ad, 0x958c, 0x31aa, 0xdf82, 0x5ed4, 0xbd02, 0x74ae, 0xbf79, 0xc2bb,
     0x5363, 0x6e45, 0x2d8d, 0x80d9, 0x54de, 0x724b, 0x003b, 0x12d9, 0x1a2a, 0x6ff0, 0x5b76, 0x8c7f,
     0xdaec, 0x1f4b, 0xe15a, 0x2dd7, 0xa124, 0xc1eb, 0xcdef, 0x97ba, 0xee0e, 0xdae1, 0xf6c1, 0xc397,
     0x2747, 0x5346, 0x6436, 0xeaf0, 0x5489, 0x223e, 0x58cc, 0xa27b, 0x880c, 0xbef9, 0x13ba, 0x356a,
     0xa3f1, 0x74e0, 0x088e, 0x0091, 0x9c77, 0xd081, 0xb13f, 0x3d7e, 0xaaf3, 0xd947, 0xbcda, 0x246a,
     0x6db3, 0xe571, 0xd2b8, 0x869e, 0x4845, 0x8ba1, 0x2a4c, 0xd3a9, 0x495f, 0x98cb, 0xa2d8, 0x6d4b,
     0x07c7, 0x0f39, 0x3362, 0x8ac9, 0x1e22, 0x0905, 0xac26, 0xb92f, 0xd67a, 0x9f41, 0xd977, 0x6251,
     0x467b, 0x5a0e, 0xad77, 0x50f1, 0x18fb, 0xcf1d, 0x7c57, 0xb1f1, 0x10db, 0x3ee8, 0xe036, 0xf807,
     0x4fe8, 0x0000, 0x9f90, 0x9f90]"

definition shl_v :: "nat \<Rightarrow> m256 \<Rightarrow> m256" where
  "shl_v n x = and_si256 (slli_epi16 n x) (set1_epi8 (push_bit n 0xff))"

definition shr_v :: "nat \<Rightarrow> m256 \<Rightarrow> m256" where
  "shr_v n x = and_si256 (srli_epi16 n x) (set1_epi8 (drop_bit n 0xff))"

text \<open>\<open>rot::<N>\<close> for \<open>N\<close> from 1 to 5, the only instances.\<close>

definition rot_v :: "nat \<Rightarrow> m256 \<Rightarrow> m256" where
  "rot_v n x = or_si256 (shl_v n x) (shr_v (8 - n) x)"

definition select_v :: "m256 \<Rightarrow> m256 \<Rightarrow> m256 \<Rightarrow> m256" where
  "select_v msk no yes = blendv_epi8 no yes msk"

definition variable_shift :: "m256 \<Rightarrow> bool \<Rightarrow> m256" where
  "variable_shift x right =
     (let count = and_si256 x (set1_epi8 3) in
      foldl (\<lambda>out n.
          let shifted = (if right then shr_v n x else shl_v n x)
          in select_v (cmpeq_epi8 count (set1_epi8 (of_nat n))) out shifted)
        x [1, 2, 3])"

definition rotate_self :: "m256 \<Rightarrow> m256" where
  "rotate_self x =
     (let out = x;
          out = select_v (cmpeq_epi8 (and_si256 x (set1_epi8 1)) (set1_epi8 1)) out (rot_v 1 out);
          out = select_v (cmpeq_epi8 (and_si256 x (set1_epi8 2)) (set1_epi8 2)) out (rot_v 2 out)
      in select_v (cmpeq_epi8 (and_si256 x (set1_epi8 4)) (set1_epi8 4)) out (rot_v 4 out))"

definition popcount_v :: "m256 \<Rightarrow> m256" where
  "popcount_v x =
     (let a = sub_epi8 x (and_si256 (shr_v 1 x) (set1_epi8 0x55));
          b = add_epi8 (and_si256 a (set1_epi8 0x33)) (and_si256 (shr_v 2 a) (set1_epi8 0x33))
      in and_si256 (add_epi8 b (shr_v 4 b)) (set1_epi8 0x0f))"

definition reverse_bits_v :: "m256 \<Rightarrow> m256" where
  "reverse_bits_v x =
     (let a = or_si256 (and_si256 (shr_v 1 x) (set1_epi8 0x55)) (shl_v 1 (and_si256 x (set1_epi8 0x55)));
          b = or_si256 (and_si256 (shr_v 2 a) (set1_epi8 0x33)) (shl_v 2 (and_si256 a (set1_epi8 0x33)))
      in rot_v 4 b)"

definition square_v :: "m256 \<Rightarrow> m256" where
  "square_v x =
     (let lo = and_si256 x (set1_epi16 0xff); hi = srli_epi16 8 x
      in or_si256 (and_si256 (mullo_epi16 lo lo) (set1_epi16 0xff))
           (slli_epi16 8 (and_si256 (mullo_epi16 hi hi) (set1_epi16 0xff))))"

text \<open>The last arm stands for 15 and for the \<open>unreachable!\<close> arm: the argument is masked
  with 15.\<close>

definition primitive :: "u16 \<Rightarrow> m256 \<Rightarrow> m256 \<Rightarrow> m256" where
  "primitive op x p2 =
     (if op = 0 then xor_si256 x (popcount_v x)
      else if op = 1 then rot_v 5 x
      else if op = 2 then square_v x
      else if op = 3 then rotate_self x
      else if op = 4 then variable_shift x False
      else if op = 5 then rot_v 1 x
      else if op = 6 then and_si256 x p2
      else if op = 7 then add_epi8 x x
      else if op = 8 then reverse_bits_v x
      else if op = 9 then rot_v 3 x
      else if op = 10 then xor_si256 x p2
      else if op = 11 then xor_si256 x (set1_epi8 (- 1))
      else if op = 12 then variable_shift x True
      else if op = 13 then sub_epi8 x (xor_si256 x (set1_epi8 97))
      else if op = 14 then xor_si256 x (rot_v 4 x)
      else xor_si256 x (rot_v 2 x))"

text \<open>\<open>apply\<close>: rekey, the early return, the masked read-modify-write of 32 bytes.\<close>

definition apply_vec :: "byte \<Rightarrow> byte \<Rightarrow> byte \<Rightarrow> opst \<Rightarrow> opst option" where
  "apply_vec op pos1 pos2 st =
     (case (if op \<ge> 254 then rekey st else Some st) of None \<Rightarrow> None | Some st \<Rightarrow>
      if pos1 = pos2 then Some st
      else
        (let p1 = unat pos1; p2 = unat pos2; s = o_s st;
             start = min p1 224;
             lanes = map of_nat [0..<32];
             low = set1_epi8 (of_nat (p1 - start) - 1);
             high = set1_epi8 (of_nat (p2 - start));
             msk = and_si256 (cmpgt_epi8 lanes low) (cmpgt_epi8 high lanes);
             old = slice start (start + 32) s;
             p2v = set1_epi8 (s ! p2);
             (x, code) = ((\<lambda>(x, code). (primitive (code AND 15) x p2v, drop_bit 4 code)) ^^ 4)
                           (old, OPS ! unat op)
         in Some (st\<lparr>o_s := take start s @ blendv_epi8 old x msk @ drop (start + 32) s\<rparr>)))"

definition apply_op_avx2 :: "(byte list \<Rightarrow> u64) \<Rightarrow> bool \<Rightarrow> byte \<Rightarrow> byte \<Rightarrow> byte \<Rightarrow> opst \<Rightarrow> opst option" where
  "apply_op_avx2 xxh64 has_avx2 op pos1 pos2 st =
     (if op = 0 \<or> op = 253 \<or> \<not> has_avx2 then apply_op xxh64 op pos1 pos2 st
      else apply_vec op pos1 pos2 st)"

section \<open>Vector operations are byte-wise\<close>

named_theorems lanes \<open>a vector operation as a map over the 32 bytes\<close>

lemma map2_replicate: "length xs = n \<Longrightarrow> map2 f xs (replicate n c) = map (\<lambda>x. f x c) xs"
  by (induction xs arbitrary: n) auto

lemma byte_minus_1: "(0xff :: byte) = - 1" by simp

lemma shl_pair:
  fixes lo hi :: byte
  shows "ucast (push_bit n (ucast lo OR push_bit 8 (ucast hi) :: u16)) AND push_bit n 0xff = push_bit n lo"
    and "ucast (drop_bit 8 (push_bit n (ucast lo OR push_bit 8 (ucast hi) :: u16))) AND push_bit n 0xff = push_bit n hi"
  unfolding byte_minus_1
  by (rule bit_word_eqI, auto simp: bit_simps dest: bit_imp_le_length)+

lemma shr_pair:
  fixes lo hi :: byte
  shows "ucast (drop_bit n (ucast lo OR push_bit 8 (ucast hi) :: u16)) AND drop_bit n 0xff = drop_bit n lo"
    and "ucast (drop_bit 8 (drop_bit n (ucast lo OR push_bit 8 (ucast hi) :: u16))) AND drop_bit n 0xff = drop_bit n hi"
  unfolding byte_minus_1
  by (rule bit_word_eqI, auto simp: bit_simps dest: bit_imp_le_length)+

lemma shl_lanes_aux:
  "even (length x) \<Longrightarrow> map2 (AND) (map16 (push_bit n) x) (replicate (length x) (push_bit n 0xff)) = map (push_bit n) x"
proof (induction "push_bit n :: u16 \<Rightarrow> u16" x rule: map16.induct)
  case (1 lo hi r)
  then show ?case using shl_pair[of n lo hi] by (simp add: Let_def)
qed simp_all

lemma shr_lanes_aux:
  "even (length x) \<Longrightarrow> map2 (AND) (map16 (drop_bit n) x) (replicate (length x) (drop_bit n 0xff)) = map (drop_bit n) x"
proof (induction "drop_bit n :: u16 \<Rightarrow> u16" x rule: map16.induct)
  case (1 lo hi r)
  then show ?case using shr_pair[of n lo hi] by (simp add: Let_def)
qed simp_all

lemma shl_lanes [lanes]: "length x = 32 \<Longrightarrow> shl_v n x = map (push_bit n) x"
  using shl_lanes_aux[of x n] by (simp add: shl_v_def and_si256_def slli_epi16_def set1_epi8_def)

lemma shr_lanes [lanes]: "length x = 32 \<Longrightarrow> shr_v n x = map (drop_bit n) x"
  using shr_lanes_aux[of x n] by (simp add: shr_v_def and_si256_def srli_epi16_def set1_epi8_def)

lemma const_lanes [lanes]:
  assumes "length x = 32"
  shows "and_si256 x (set1_epi8 c) = map (\<lambda>b. b AND c) x"
    and "xor_si256 x (set1_epi8 c) = map (\<lambda>b. b XOR c) x"
    and "cmpeq_epi8 x (set1_epi8 c) = map (\<lambda>b. if b = c then 0xff else 0) x"
  using assms
  by (simp_all add: and_si256_def xor_si256_def cmpeq_epi8_def set1_epi8_def map2_replicate)

lemma map2_lanes [lanes]:
  "or_si256 (map f x) (map g x) = map (\<lambda>b. f b OR g b) x"
  "xor_si256 (map f x) (map g x) = map (\<lambda>b. f b XOR g b) x"
  "add_epi8 (map f x) (map g x) = map (\<lambda>b. f b + g b) x"
  "sub_epi8 (map f x) (map g x) = map (\<lambda>b. f b - g b) x"
  by (simp_all add: or_si256_def xor_si256_def add_epi8_def sub_epi8_def map2_map_map)

lemma self_lanes [lanes]:
  "xor_si256 x (map g x) = map (\<lambda>b. b XOR g b) x"
  "add_epi8 x x = map (\<lambda>b. b + b) x"
  "sub_epi8 x (map g x) = map (\<lambda>b. b - g b) x"
  using map2_lanes(2)[of "\<lambda>b. b" x g] map2_lanes(3)[of "\<lambda>b. b" x "\<lambda>b. b"] map2_lanes(4)[of "\<lambda>b. b" x g]
  by simp_all

lemma select_lanes [lanes]:
  "select_v (map (\<lambda>b. if P b then 0xff else 0) x) (map f x) (map g x) = map (\<lambda>b. if P b then g b else f b) x"
  by (induction x) (simp_all add: select_v_def blendv_epi8_def byte_minus_1)

lemma rot_lanes [lanes]:
  assumes "length x = 32"
  shows "rot_v n x = map (\<lambda>b. push_bit n b OR drop_bit (8 - n) b) x"
  using assms by (simp add: rot_v_def lanes)

section \<open>Byte identities\<close>

lemma bit_rotl_byte: "k < 8 \<Longrightarrow> bit (word_rotl n b) k = bit b ((k + (8 - n mod 8)) mod 8)" for b :: byte
  by (simp add: bit_word_rotl_iff)

lemma rotl_shifts:
  fixes b :: byte
  assumes "n < 8"
  shows "push_bit n b OR drop_bit (8 - n) b = word_rotl n b"
proof (rule bit_word_eqI)
  fix k assume "k < LENGTH(8)"
  then have k: "k < 8" by simp
  have "(k + (8 - n mod 8)) mod 8 = (if n \<le> k then k - n else 8 - n + k)"
    using k assms by (auto simp: mod_if)
  moreover have "\<not> bit b (8 - n + k)" if "n \<le> k"
    using that assms by (auto dest: bit_imp_le_length)
  ultimately show "bit (push_bit n b OR drop_bit (8 - n) b) k = bit (word_rotl n b) k"
    using k by (auto simp: bit_rotl_byte bit_or_iff bit_push_bit_iff bit_drop_bit_eq)
qed

lemma and_3_unat: "unat (b AND 3) = unat b mod 4" for b :: byte
proof -
  have "b AND 3 = take_bit 2 b" by (simp add: take_bit_eq_mask mask_eq_exp_minus_1)
  then have "unat (b AND 3) = take_bit 2 (unat b)" by (simp only: unsigned_take_bit_eq)
  then show ?thesis by (simp add: take_bit_eq_mod)
qed

lemma variable_shift_byte:
  "(if b AND 3 = 3 then f 3 else if b AND 3 = 2 then f 2 else if b AND 3 = 1 then f 1 else f 0)
     = f (unat (b AND 3))" for b :: byte and f :: "nat \<Rightarrow> byte"
proof -
  have "unat (b AND 3) < 4" by (simp add: and_3_unat)
  then consider "unat (b AND 3) = 0" | "unat (b AND 3) = 1" | "unat (b AND 3) = 2" | "unat (b AND 3) = 3"
    by linarith
  then show ?thesis by cases (auto simp: word_unat_eq_iff)
qed

lemma popcount_byte:
  "(let a = x - (drop_bit 1 x AND 0x55); b = (a AND 0x33) + (drop_bit 2 a AND 0x33)
    in (b + drop_bit 4 b) AND 0x0f) = of_nat (count_ones x)"
  by (rule byte_check[where b = x]) code_simp

lemma reverse_byte:
  "(let a = (drop_bit 1 x AND 0x55) OR push_bit 1 (x AND 0x55);
        b = (drop_bit 2 a AND 0x33) OR push_bit 2 (a AND 0x33)
    in word_rotl 4 b) = word_reverse (x :: byte)"
  by (rule byte_check[where b = x]) code_simp

lemma rotate_self_byte:
  "(let o1 = (if x AND 1 = 1 then word_rotl 1 x else x);
        o2 = (if x AND 2 = 2 then word_rotl 2 o1 else o1)
    in (if x AND 4 = 4 then word_rotl 4 o2 else o2)) = word_rotl (unat x) (x :: byte)"
  by (rule byte_check[where b = x]) code_simp

section \<open>Every primitive is its scalar counterpart on each byte\<close>

lemma variable_shl_byte:
  "(if b AND 3 = 3 then push_bit 3 b else if b AND 3 = 2 then push_bit 2 b
    else if b AND 3 = 1 then push_bit 1 b else b) = push_bit (unat (b AND 3)) b" for b :: byte
  using variable_shift_byte[of b "\<lambda>n. push_bit n b"] by (simp only: push_bit_0_id id_apply)

lemma variable_shr_byte:
  "(if b AND 3 = 3 then drop_bit 3 b else if b AND 3 = 2 then drop_bit 2 b
    else if b AND 3 = 1 then drop_bit 1 b else b) = drop_bit (unat (b AND 3)) b" for b :: byte
  using variable_shift_byte[of b "\<lambda>n. drop_bit n b"] by (simp only: drop_bit_0 id_apply)

lemma variable_shift_lanes [lanes]:
  assumes "length x = 32"
  shows "variable_shift x False = map (\<lambda>b. bop_eval BShl b p) x"
    and "variable_shift x True = map (\<lambda>b. bop_eval BShr b p) x"
proof -
  have id: "x = map (\<lambda>b. b) x" by simp
  have l: "variable_shift x r = map (\<lambda>b. if b AND 3 = 3 then g 3 b else if b AND 3 = 2 then g 2 b
      else if b AND 3 = 1 then g 1 b else b) x"
    if "\<And>n. (if r then shr_v n x else shl_v n x) = map (g n) x" for r g
  proof -
    have c: "cmpeq_epi8 (map (\<lambda>b. b AND 3) x) (set1_epi8 k) = map (\<lambda>b. if b AND 3 = k then 0xff else 0) x" for k
      using const_lanes(3)[of "map (\<lambda>b. b AND 3) x" k] assms by (simp add: comp_def)
    have s1: "select_v (map (\<lambda>b. if P b then 0xff else 0) x) x (map h x) = map (\<lambda>b. if P b then h b else b) x" for P h
      using select_lanes[of P x "\<lambda>b. b" h] by simp
    show ?thesis
      using assms by (simp add: variable_shift_def Let_def const_lanes(1) that c s1 select_lanes)
  qed
  show "variable_shift x False = map (\<lambda>b. bop_eval BShl b p) x"
    using l[of False push_bit] assms by (simp add: shl_lanes variable_shl_byte)
  show "variable_shift x True = map (\<lambda>b. bop_eval BShr b p) x"
    using l[of True drop_bit] assms by (simp add: shr_lanes variable_shr_byte)
qed

lemma rotate_self_lanes [lanes]:
  assumes "length x = 32"
  shows "rotate_self x = map (\<lambda>b. bop_eval BRotlSelf b p) x"
proof -
  have c: "cmpeq_epi8 (map (\<lambda>b. b AND k) x) (set1_epi8 k) = map (\<lambda>b. if b AND k = k then 0xff else 0) x" for k
    using const_lanes(3)[of "map (\<lambda>b. b AND k) x" k] assms by (simp add: comp_def)
  have r: "rot_v n (map f x) = map (\<lambda>b. word_rotl n (f b)) x" if "n < 8" for n f
    using that assms by (simp add: rot_lanes comp_def rotl_shifts)
  have r1: "rot_v n x = map (\<lambda>b. word_rotl n b) x" if "n < 8" for n
    using that assms by (simp add: rot_lanes rotl_shifts)
  have s1: "select_v (map (\<lambda>b. if P b then 0xff else 0) x) x (map h x) = map (\<lambda>b. if P b then h b else b) x" for P h
    using select_lanes[of P x "\<lambda>b. b" h] by simp
  have "rotate_self x = map (\<lambda>x. let o1 = (if x AND 1 = 1 then word_rotl 1 x else x);
        o2 = (if x AND 2 = 2 then word_rotl 2 o1 else o1)
    in (if x AND 4 = 4 then word_rotl 4 o2 else o2)) x"
    using assms by (simp add: rotate_self_def Let_def const_lanes(1) c r1 s1 r select_lanes cong: if_cong split del: if_split)
  then show ?thesis by (simp only: rotate_self_byte bop_eval.simps)
qed

lemma popcount_lanes [lanes]:
  assumes "length x = 32"
  shows "popcount_v x = map (\<lambda>b. of_nat (count_ones b)) x"
  using assms popcount_byte by (simp add: popcount_v_def Let_def lanes comp_def)

lemma reverse_lanes [lanes]:
  assumes "length x = 32"
  shows "reverse_bits_v x = map word_reverse x"
proof -
  have r: "rot_v n (map f x) = map (\<lambda>b. word_rotl n (f b)) x" if "n < 8" for n f
    using that assms by (simp add: rot_lanes comp_def rotl_shifts)
  show ?thesis
    using assms reverse_byte
    by (simp add: reverse_bits_v_def Let_def shl_lanes shr_lanes const_lanes map2_lanes comp_def r)
qed

lemma ucast_square: "ucast (ucast b * ucast b :: u16) = b * b" for b :: byte
proof -
  have "unat (ucast (ucast b * ucast b :: u16) :: byte) = (unat b * unat b) mod 65536 mod 256"
    by (simp only: unat_ucast unat_word_ariths(2)) (simp add: mod_mult_eq)
  also have "\<dots> = unat (b * b)"
    by (simp add: unat_word_ariths(2) mod_mod_cancel)
  finally show ?thesis by (simp only: word_unat_eq_iff)
qed

lemma pair_halves:
  fixes lo hi :: byte
  shows "ucast (ucast lo OR push_bit 8 (ucast hi) :: u16) = lo"
    and "drop_bit 8 (ucast lo OR push_bit 8 (ucast hi) :: u16) = ucast hi"
    and "drop_bit 8 (ucast hi :: u16) = 0"
    and "ucast (ucast hi :: u16) = hi"
    and "ucast (push_bit 8 (ucast hi :: u16)) = (0 :: byte)"
    and "drop_bit 8 (push_bit 8 (ucast hi :: u16)) = ucast hi"
  by (rule bit_word_eqI, auto simp: bit_simps dest: bit_imp_le_length)+

lemma square_aux:
  assumes "length x = 2 * k" and m: "m = concat (replicate k [0xff, 0 :: byte])"
  shows "map2 (OR) (map2 (AND) (map16_2 (*) (map2 (AND) x m) (map2 (AND) x m)) m)
      (map16 (push_bit 8) (map2 (AND) (map16_2 (*) (map16 (drop_bit 8) x) (map16 (drop_bit 8) x)) m))
    = map (\<lambda>b. b * b) x"
  using assms
proof (induction k arbitrary: x m)
  case (Suc k)
  then obtain lo hi r where x: "x = lo # hi # r" "length r = 2 * k"
    by (auto simp: length_Suc_conv)
  note IH = Suc.IH[OF x(2) refl]
  show ?case
    unfolding Suc.prems(2) x
    using IH by (simp add: Let_def pair_halves ucast_square byte_minus_1)
qed simp

lemma square_lanes [lanes]: "length x = 32 \<Longrightarrow> square_v x = map (\<lambda>b. b * b) x"
  using square_aux[of x 16 "set1_epi16 0xff"]
  by (simp add: square_v_def Let_def and_si256_def or_si256_def mullo_epi16_def slli_epi16_def
      srli_epi16_def set1_epi16_def)

text \<open>The scalar step a primitive ID stands for.\<close>

definition prim_of :: "u16 \<Rightarrow> bop" where
  "prim_of op =
     (if op = 0 then BXorPop else if op = 1 then BRotl 5 else if op = 2 then BMul
      else if op = 3 then BRotlSelf else if op = 4 then BShl else if op = 5 then BRotl 1
      else if op = 6 then BAndP2 else if op = 7 then BAdd else if op = 8 then BRev
      else if op = 9 then BRotl 3 else if op = 10 then BXorP2 else if op = 11 then BNot
      else if op = 12 then BShr else if op = 13 then BSub97 else if op = 14 then BXorRotl 4
      else BXorRotl 2)"

lemma primitive_lanes:
  assumes "length x = 32"
  shows "primitive op x (set1_epi8 p) = map (\<lambda>b. bop_eval (prim_of op) b p) x"
proof -
  have r: "rot_v n x = map (word_rotl n) x" if "n < 8" for n
    using that assms by (simp add: rot_lanes rotl_shifts)
  show ?thesis
    using assms
    by (simp add: primitive_def prim_of_def popcount_lanes square_lanes rotate_self_lanes[of x p]
        variable_shift_lanes[of x p] reverse_lanes const_lanes self_lanes r word_bitwise_m1_simps)
qed

text \<open>The packed table agrees with the scalar one, except for the two arms that fall back.\<close>

definition unpack :: "u16 \<Rightarrow> bop list" where
  "unpack w = [prim_of (w AND 15), prim_of (drop_bit 4 w AND 15),
     prim_of (drop_bit 4 (drop_bit 4 w) AND 15), prim_of (drop_bit 4 (drop_bit 4 (drop_bit 4 w)) AND 15)]"

lemma ops_tables_agree: "map unpack OPS = op_table[0 := unpack 0, 253 := unpack 0]"
  by code_simp

section \<open>The window and the whole operation\<close>

lemma sint_byte_small: "n < 128 \<Longrightarrow> sint (of_nat n :: byte) = int n"
proof -
  assume n: "n < 128"
  have "\<forall>b. (b :: byte) < 128 \<longrightarrow> sint b = uint b"
    by (intro allI byte_check[where P = "\<lambda>b. b < 128 \<longrightarrow> sint b = uint b"]) code_simp
  moreover have "(of_nat n :: byte) < 128" using n by (simp add: word_less_nat_alt unat_of_nat_byte)
  moreover have "uint (of_nat n :: byte) = int n" using n by (simp only: uint_nat unat_of_nat_byte) simp
  ultimately show ?thesis by simp
qed

lemma sint_low: "n < 128 \<Longrightarrow> sint (of_nat n - 1 :: byte) = int n - 1"
proof (cases n)
  case (Suc m)
  assume "n < 128"
  then show ?thesis using Suc sint_byte_small[of m] by simp
qed simp

lemma four_primitives:
  assumes "length x = 32"
  shows "((\<lambda>(x, code). (primitive (code AND 15) x (set1_epi8 p), drop_bit 4 code)) ^^ 4) (x, code)
    = (map (\<lambda>b. bop_run (unpack code) b p) x, drop_bit 4 (drop_bit 4 (drop_bit 4 (drop_bit 4 code))))"
  using assms by (simp add: numeral_eq_Suc primitive_lanes unpack_def comp_def)

definition window_mask :: "nat \<Rightarrow> nat \<Rightarrow> m256" where
  "window_mask a b = and_si256 (cmpgt_epi8 (map of_nat [0..<32]) (set1_epi8 (of_nat a - 1)))
     (cmpgt_epi8 (set1_epi8 (of_nat b)) (map of_nat [0..<32]))"

lemma window_mask_nth:
  assumes "a < 128" "b < 128" "k < 32"
  shows "window_mask a b ! k = (if a \<le> k \<and> k < b then 0xff else 0)" "length (window_mask a b) = 32"
  using assms
  by (auto simp: window_mask_def and_si256_def cmpgt_epi8_def set1_epi8_def sint_byte_small sint_low)

lemma blend_window:
  assumes "length s = 256" "start + 32 \<le> 256" "start \<le> p1" "p1 \<le> p2" "p2 \<le> start + 32"
  shows "take start s @ blendv_epi8 (slice start (start + 32) s) (map f (slice start (start + 32) s))
           (window_mask (p1 - start) (p2 - start)) @ drop (start + 32) s = window_map p1 p2 f s"
proof (rule nth_equalityI)
  let ?old = "slice start (start + 32) s"
  let ?m = "window_mask (p1 - start) (p2 - start)"
  have lo: "length ?old = 32" using assms by simp
  have lm: "length ?m = 32" using window_mask_nth(2)[of _ _ 0] assms by simp
  have lb: "length (blendv_epi8 ?old (map f ?old) ?m) = 32"
    using lo lm by (simp add: blendv_epi8_def)
  show "length (take start s @ blendv_epi8 ?old (map f ?old) ?m @ drop (start + 32) s) = length (window_map p1 p2 f s)"
    using assms lb by simp
  fix i assume "i < length (take start s @ blendv_epi8 ?old (map f ?old) ?m @ drop (start + 32) s)"
  then have i: "i < 256" using assms lb by simp
  have nth: "blendv_epi8 ?old (map f ?old) ?m ! k =
      (if p1 - start \<le> k \<and> k < p2 - start then f (s ! (start + k)) else s ! (start + k))" if "k < 32" for k
    using that assms lo lm window_mask_nth(1)[of "p1 - start" "p2 - start" k]
    by (simp add: blendv_epi8_def slice_def)
  consider "i < start" | "start \<le> i" "i < start + 32" | "start + 32 \<le> i" by linarith
  then show "(take start s @ blendv_epi8 ?old (map f ?old) ?m @ drop (start + 32) s) ! i = window_map p1 p2 f s ! i"
  proof cases
    case 1
    then show ?thesis using assms i by (simp add: nth_append window_map_nth)
  next
    case 2
    then show ?thesis using assms i lb nth[of "i - start"] by (auto simp: nth_append window_map_nth)
  next
    case 3
    then have "\<not> i - start < 32" "i - start - 32 + (start + 32) = i" by simp_all
    with 3 show ?thesis using assms i lb by (auto simp: nth_append window_map_nth)
  qed
qed

lemma OPS_row:
  fixes op :: byte
  assumes "op \<noteq> 0" "op \<noteq> 253"
  shows "unpack (OPS ! unat op) = op_table ! unat op"
proof -
  have l: "length OPS = 256" using arg_cong[OF ops_tables_agree, of length] op_table_length by simp
  have "unat op \<noteq> 0" "unat op \<noteq> 253" using assms by (auto simp: word_unat_eq_iff)
  then have "map unpack OPS ! unat op = op_table ! unat op"
    unfolding ops_tables_agree by simp
  then show ?thesis using l by simp
qed

lemma apply_vec_eq:
  assumes "length (o_s st) = 256" "pos1 \<le> pos2" "unat pos2 - unat pos1 \<le> 32" "op \<noteq> 0" "op \<noteq> 253"
  shows "apply_vec op pos1 pos2 st = apply_op xxh64 op pos1 pos2 st"
proof -
  let ?st = "if op = 254 \<or> op = 255 then rekey st else Some st"
  have ge: "op \<ge> 254 \<longleftrightarrow> op = 254 \<or> op = 255"
  proof -
    have "unat op < 256" by (rule unat_byte_less)
    then have "254 \<le> unat op \<longleftrightarrow> unat op = 254 \<or> unat op = 255" by arith
    then show ?thesis by (simp add: word_le_nat_alt word_unat_eq_iff)
  qed
  have "\<exists>st1. ?st = Some st1 \<and> o_s st1 = o_s st"
    using assms(1) by (simp add: rekey_def rc4_new_def)
  then obtain st1 where st1: "?st = Some st1" and s: "o_s st1 = o_s st" by blast
  let ?p1 = "unat pos1" and ?p2 = "unat pos2" and ?s = "o_s st"
  let ?f = "\<lambda>x. bop_run (op_table ! unat op) x (?s ! ?p2)"
  have p: "?p1 \<le> ?p2" using assms(2) by (simp add: word_le_nat_alt)
  have scalar: "apply_op xxh64 op pos1 pos2 st = Some (st1\<lparr>o_s := window_map ?p1 ?p2 ?f ?s\<rparr>)"
    using plain_op_loop[OF assms(4,5) p order_refl, of st1 xxh64] assms(1)
    by (simp add: apply_op_def st1 s)
  show ?thesis
  proof (cases "pos1 = pos2")
    case True
    then show ?thesis unfolding scalar using st1 s by (simp add: apply_vec_def ge)
  next
    case False
    let ?start = "min ?p1 224"
    have w: "?start + 32 \<le> 256" "?start \<le> ?p1" "?p2 \<le> ?start + 32"
      using assms(3) less_imp_le[OF unat_byte_less[of pos2]] by (auto simp: min_def)
    have old: "length (slice ?start (?start + 32) ?s) = 32" using w assms(1) by simp
    show ?thesis
      unfolding scalar
      using False st1 blend_window[OF assms(1) w(1,2) p w(3), of ?f] four_primitives[OF old]
      by (simp add: apply_vec_def ge s Let_def OPS_row[OF assms(4,5)] window_mask_def)
  qed
qed

text \<open>C3: on every window the hash loop produces (at most 32 bytes, the lower bound first), the AVX2
  implementation returns the same bytes, hashes and cipher state as the scalar one, for all
  256 operations and whether or not the CPU has AVX2.\<close>

theorem avx2_equals_scalar:
  assumes "length (o_s st) = 256" "pos1 \<le> pos2" "unat pos2 - unat pos1 \<le> 32"
  shows "apply_op_avx2 xxh64 has_avx2 op pos1 pos2 st = apply_op xxh64 op pos1 pos2 st"
  using apply_vec_eq[OF assms, of op] by (simp add: apply_op_avx2_def)

theorem avx2_equals_scalar_witness:
  "apply_op_avx2 (\<lambda>_. 0) True 66 10 40 \<lparr>o_s = replicate 256 7, o_lhash = 1, o_prev = 2, o_rc4 = \<lparr>rc4_s = [], rc4_i = 0, rc4_j = 0\<rparr>\<rparr>
   = apply_op (\<lambda>_. 0) 66 10 40 \<lparr>o_s = replicate 256 7, o_lhash = 1, o_prev = 2, o_rc4 = \<lparr>rc4_s = [], rc4_i = 0, rc4_j = 0\<rparr>\<rparr>"
  by (rule avx2_equals_scalar) (simp_all add: word_le_nat_alt)

end
