(* ===== verification/AstroBwt.thy ===== *)
theory AstroBwt
  imports OpsAvx2
begin

text \<open>
  The AstroBWTv3 hash (\<open>astrobwt/src/lib.rs\<close>): the prologue, the data-dependent loop, the
  verifier's \<open>astrobwtv3_full\<close> and the miner's \<open>astrobwtv3_prepare\<close> /
  \<open>astrobwtv3_with_scratch\<close> / \<open>astrobwtv3_x2\<close>. SHA-256, Salsa20, XXH64 and SipHash-2-4 are
  external crates and the fields of \<open>prims\<close>; a panic is \<open>None\<close>. The suffix-array backends
  are the fields of \<open>backends\<close>. Lemmas: the loop always ends after 261 to 277 rounds, the
  hashed prefix lies inside the stream, and the miner's stream is the verifier's stream.
\<close>

section \<open>Parameters\<close>

text \<open>The external primitives: the crates \<open>sha2\<close>, \<open>salsa20\<close> (key, nonce, the buffer that
  \<open>apply_keystream\<close> updates), \<open>xxhash_rust\<close> (seed 0) and \<open>siphasher\<close>.\<close>

record prims =
  sha256 :: "byte list \<Rightarrow> byte list"
  salsa20 :: "byte list \<Rightarrow> byte list \<Rightarrow> byte list \<Rightarrow> byte list"
  xxh64 :: "byte list \<Rightarrow> u64"
  siphash24 :: "u64 \<Rightarrow> u64 \<Rightarrow> byte list \<Rightarrow> u64"

text \<open>What the code relies on: a stream cipher keeps the length of the buffer.\<close>

definition prims_ok :: "prims \<Rightarrow> bool" where
  "prims_ok P \<longleftrightarrow> (\<forall>key nonce buf. length (salsa20 P key nonce buf) = length buf)"

section \<open>Prologue\<close>

definition FNV64_OFFSET :: u64 where
  "FNV64_OFFSET = 0xcbf29ce484222325"

definition FNV64_PRIME :: u64 where
  "FNV64_PRIME = 0x100000001b3"

definition ASTROBWT_DATA_CAPACITY :: nat where
  "ASTROBWT_DATA_CAPACITY = 280 * 256"

definition fnv1a_64 :: "byte list \<Rightarrow> u64" where
  "fnv1a_64 data = foldl (\<lambda>h b. (h XOR ucast b) * FNV64_PRIME) FNV64_OFFSET data"

definition salsa20_keystream_256 :: "prims \<Rightarrow> byte list \<Rightarrow> byte list" where
  "salsa20_keystream_256 P key = salsa20 P key (replicate 8 0) (replicate 256 0)"

record prologue_state =
  pl_sha_key :: "byte list"
  pl_post_salsa :: "byte list"
  pl_post_rc4 :: "byte list"
  pl_lhash :: u64

definition prologue :: "prims \<Rightarrow> byte list \<Rightarrow> prologue_state option" where
  "prologue P input =
     (let sha_key = sha256 P input; post_salsa = salsa20_keystream_256 P sha_key in
      case rc4_new post_salsa of
        None \<Rightarrow> None
      | Some cipher \<Rightarrow>
          (let post_rc4 = snd (xor_key_stream cipher post_salsa) in
           Some \<lparr>pl_sha_key = sha_key, pl_post_salsa = post_salsa, pl_post_rc4 = post_rc4,
                 pl_lhash = fnv1a_64 post_rc4\<rparr>))"

text \<open>The locals \<open>step_3\<close>, \<open>lhash\<close>, \<open>prev_lhash\<close> and \<open>rc4\<close> when the loop starts.\<close>

definition loop_start :: "prims \<Rightarrow> byte list \<Rightarrow> opst option" where
  "loop_start P input =
     (let step_3 = salsa20_keystream_256 P (sha256 P input) in
      case rc4_new step_3 of
        None \<Rightarrow> None
      | Some c \<Rightarrow>
          (let (c', s) = xor_key_stream c step_3; lhash = fnv1a_64 s in
           Some \<lparr>o_s = s, o_lhash = lhash, o_prev = lhash, o_rc4 = c'\<rparr>))"

section \<open>One round\<close>

text \<open>The window: the smaller position first, at most 32 bytes.\<close>

definition loop_pos :: "u64 \<Rightarrow> byte \<times> byte" where
  "loop_pos r =
     (let a = ucast (drop_bit 8 r); b = ucast (drop_bit 16 r);
          (pos1, pos2) = (if a > b then (b, a) else (a, b))
      in (pos1, if pos2 - pos1 > 32 then pos1 + ((pos2 - pos1) AND 0x1f) else pos2))"

definition mix_hashes :: "prims \<Rightarrow> nat \<Rightarrow> nat \<Rightarrow> byte \<Rightarrow> opst \<Rightarrow> opst" where
  "mix_hashes P tries p2 diff st =
     (let st = (if diff < 0x10 then
                  st\<lparr>o_prev := o_lhash st + o_prev st, o_lhash := xxh64 P (take p2 (o_s st))\<rparr>
                else st);
          st = (if diff < 0x20 then
                  st\<lparr>o_prev := o_lhash st + o_prev st, o_lhash := fnv1a_64 (take p2 (o_s st))\<rparr>
                else st)
      in if diff < 0x30 then
           (let prev = o_lhash st + o_prev st in
            st\<lparr>o_prev := prev, o_lhash := siphash24 P (of_nat tries) prev (take p2 (o_s st))\<rparr>)
         else st)"

definition stream_step :: "opst \<Rightarrow> opst" where
  "stream_step st =
     (let (c, s) = xor_key_stream (o_rc4 st) (o_s st) in st\<lparr>o_s := s, o_rc4 := c\<rparr>)"

text \<open>One round of the loop with \<open>app\<close> for the call of \<open>apply_op\<close>: the new locals and whether
  the cipher was run over the whole buffer (\<open>diff <= 0x40\<close>).\<close>

definition loop_body ::
  "(byte \<Rightarrow> byte \<Rightarrow> byte \<Rightarrow> opst \<Rightarrow> opst option) \<Rightarrow> prims \<Rightarrow> nat \<Rightarrow> opst \<Rightarrow> (opst \<times> bool) option" where
  "loop_body app P tries st =
     (let r = o_prev st XOR o_lhash st XOR of_nat tries; op = ucast r; (pos1, pos2) = loop_pos r in
      case app op pos1 pos2 st of
        None \<Rightarrow> None
      | Some st1 \<Rightarrow>
          (let p1 = unat pos1; p2 = unat pos2;
               diff = o_s st1 ! p1 - o_s st1 ! p2;
               st2 = mix_hashes P tries p2 diff st1;
               reset = (diff \<le> 0x40);
               st3 = (if reset then stream_step st2 else st2);
               s = o_s st3
           in Some (st3\<lparr>o_s := s[255 := (s ! 255 XOR s ! p1) XOR s ! p2]\<rparr>, reset)))"

definition loop_exit :: "nat \<Rightarrow> opst \<Rightarrow> bool" where
  "loop_exit tries st \<longleftrightarrow> tries > 260 + 16 \<or> (o_s st ! 255 \<ge> 0xf0 \<and> tries > 260)"

section \<open>The verifier: astrobwtv3\_full\<close>

record loopst =
  l_op :: opst
  l_tries :: nat
  l_data :: "byte list"

function op_loop :: "prims \<Rightarrow> loopst \<Rightarrow> loopst option" where
  "op_loop P st =
     (let tries = Suc (l_tries st) in
      case loop_body (apply_op (xxh64 P)) P tries (l_op st) of
        None \<Rightarrow> None
      | Some (o', _) \<Rightarrow>
          (let st' = \<lparr>l_op = o', l_tries = tries, l_data = l_data st @ o_s o'\<rparr> in
           if loop_exit tries o' then Some st' else op_loop P st'))"
  by pat_completeness auto
termination
  by (relation "measure (\<lambda>(P, st). 277 - l_tries st)") (auto simp: loop_exit_def)

declare op_loop.simps [simp del]

definition data_len_of :: "nat \<Rightarrow> byte list \<Rightarrow> nat" where
  "data_len_of tries s =
     (tries - 4) * 256 + unat ((push_bit 8 (ucast (s ! 253) :: u64) OR ucast (s ! 254)) AND 0x3ff)"

record debug =
  d_tries :: nat
  d_data_len :: nat
  d_lhash :: u64
  d_prev_lhash :: u64
  d_step3 :: "byte list"
  d_data_hash :: "byte list"
  d_output :: "byte list"

definition sha256_sa_i32_le :: "prims \<Rightarrow> u32 list \<Rightarrow> byte list" where
  "sha256_sa_i32_le P sa = sha256 P (concat (map (\<lambda>v. le_bytes 4 (unat v)) sa))"

text \<open>\<open>sa32\<close> is the suffix-array engine that the build selects; \<open>None\<close> is a panic (of the key
  schedule or of the slice \<open>data[..dl]\<close>).\<close>

definition astrobwtv3_full ::
  "prims \<Rightarrow> (byte list \<Rightarrow> u32 list) \<Rightarrow> byte list \<Rightarrow> (byte list \<times> debug) option" where
  "astrobwtv3_full P sa32 input =
     (case loop_start P input of
        None \<Rightarrow> None
      | Some o0 \<Rightarrow>
          (case op_loop P \<lparr>l_op = o0, l_tries = 0, l_data = []\<rparr> of
             None \<Rightarrow> None
           | Some st \<Rightarrow>
               (let o1 = l_op st; dl = data_len_of (l_tries st) (o_s o1) in
                if length (l_data st) < dl then None
                else
                  (let text = take dl (l_data st); output = sha256_sa_i32_le P (sa32 text) in
                   Some (output,
                     \<lparr>d_tries = l_tries st, d_data_len = dl, d_lhash = o_lhash o1,
                      d_prev_lhash = o_prev o1, d_step3 = o_s o1, d_data_hash = sha256 P text,
                      d_output = output\<rparr>)))))"

section \<open>The miner: build configuration, scratch and backends\<close>

text \<open>The Cargo features and environment switches that \<open>lib.rs\<close> and \<open>sais32.rs\<close> consult.\<close>

record cfg =
  c_v114 :: bool       \<comment> \<open>feature \<open>v114\<close>\<close>
  c_libsais :: bool    \<comment> \<open>feature \<open>libsais\<close>\<close>
  c_avx2ops :: bool    \<comment> \<open>feature \<open>avx2ops\<close> on x86\_64 and \<open>AVX2OPS\<close> is set\<close>
  c_cpu_avx2 :: bool   \<comment> \<open>the CPU reports AVX2\<close>
  c_fuse :: bool       \<comment> \<open>\<open>DERO_MATERIALIZE\<close> is not set\<close>
  c_no_fuse :: bool    \<comment> \<open>\<open>DERO_NO_FUSE\<close> is set\<close>
  c_little :: bool     \<comment> \<open>little-endian target\<close>
  c_v114_cpp :: bool   \<comment> \<open>feature \<open>v114-cpp\<close>\<close>
  c_env_cpp :: bool    \<comment> \<open>\<open>DERO_V114_CPP\<close> is set\<close>

text \<open>Whether the vendored C++ engine is compiled in and selected.\<close>

definition use_cpp_backend :: "cfg \<Rightarrow> bool" where
  "use_cpp_backend C \<longleftrightarrow> c_v114_cpp C \<and> c_env_cpp C"

text \<open>The suffix-array engines: \<open>sais32::suffix_array\<close>, the C library behind feature
  \<open>libsais\<close>, the two entry points of the descriptor engine of \<open>v114.rs\<close> (stream with tail, logical
  length, flags and, for the first, the output buffer; whether it accepted, and the buffer), and the two
  entry points of the vendored C++ engine with the arguments of their C signatures (stream, the two
  lengths as \<open>u32\<close>, flags and their number, then the output buffer and its capacity in bytes: the return
  code, the bytes written and the buffer; or the return code and the 32 bytes of the hash).\<close>

record backends =
  be_sais :: "byte list \<Rightarrow> u32 list"
  be_libsais :: "byte list \<Rightarrow> u32 list"
  be_v114_sa :: "byte list \<Rightarrow> nat \<Rightarrow> byte list \<Rightarrow> u32 list \<Rightarrow> bool \<times> u32 list"
  be_v114_hash :: "byte list \<Rightarrow> nat \<Rightarrow> byte list \<Rightarrow> byte list option"
  v114_sa_build_fused :: "byte list \<Rightarrow> u32 \<Rightarrow> u32 \<Rightarrow> byte list \<Rightarrow> u32 \<Rightarrow> u32 list \<Rightarrow> nat \<Rightarrow> int \<times> nat \<times> u32 list"
  v114_hash_fused :: "byte list \<Rightarrow> u32 \<Rightarrow> u32 \<Rightarrow> byte list \<Rightarrow> u32 \<Rightarrow> int \<times> byte list"
  be_sha256_x2 :: "byte list \<Rightarrow> byte list \<Rightarrow> byte list \<times> byte list"

record scratch =
  s_data :: "byte list"
  s_sa :: "u32 list"
  s_markers :: "u16 list"
  s_flags :: "byte list"

definition scratch_new :: scratch where
  "scratch_new = \<lparr>s_data = [], s_sa = [], s_markers = [], s_flags = []\<rparr>"

definition sa32 :: "cfg \<Rightarrow> backends \<Rightarrow> byte list \<Rightarrow> u32 list" where
  "sa32 C B text = (if c_libsais C then be_libsais B text else be_sais B text)"

section \<open>astrobwtv3\_prepare\<close>

definition write_v114_marker :: "u16 list \<Rightarrow> nat \<Rightarrow> u32 \<Rightarrow> u32 \<Rightarrow> u16 list option" where
  "write_v114_marker markers index first_chunk chunk_count =
     (let marker = ucast (push_bit 7 first_chunk OR chunk_count) in
      if index = length markers then Some (markers @ [marker])
      else if index < length markers then Some (markers[index := marker])
      else None)"

text \<open>The locals of the template tracking.\<close>

record marks =
  m_markers :: "u16 list"
  m_idx :: nat
  m_first :: u32
  m_count :: u32

definition mark_round :: "cfg \<Rightarrow> nat \<Rightarrow> bool \<Rightarrow> marks \<Rightarrow> marks option" where
  "mark_round C tries reset m =
     (if \<not> c_v114 C then Some m
      else if reset then
        (case write_v114_marker (m_markers m) (m_idx m) (m_first m) (m_count m) of
           None \<Rightarrow> None
         | Some ms \<Rightarrow>
             Some \<lparr>m_markers = ms, m_idx = (if tries > 1 then Suc (m_idx m) else m_idx m),
                   m_first = of_nat tries - 1, m_count = 1\<rparr>)
      else Some (m\<lparr>m_count := m_count m + 1\<rparr>))"

definition mark_finish :: "cfg \<Rightarrow> marks \<Rightarrow> u16 list option" where
  "mark_finish C m =
     (if \<not> c_v114 C then Some (m_markers m)
      else map_option (take (Suc (m_idx m)))
             (write_v114_marker (m_markers m) (m_idx m) (m_first m) (m_count m)))"

definition miner_op :: "cfg \<Rightarrow> prims \<Rightarrow> byte \<Rightarrow> byte \<Rightarrow> byte \<Rightarrow> opst \<Rightarrow> opst option" where
  "miner_op C P =
     (if c_avx2ops C then apply_op_avx2 (xxh64 P) (c_cpu_avx2 C) else apply_op (xxh64 P))"

function prepare_loop :: "cfg \<Rightarrow> prims \<Rightarrow> loopst \<Rightarrow> marks \<Rightarrow> (loopst \<times> marks) option" where
  "prepare_loop C P st m =
     (let tries = Suc (l_tries st) in
      case loop_body (miner_op C P) P tries (l_op st) of
        None \<Rightarrow> None
      | Some (o', reset) \<Rightarrow>
          (case mark_round C tries reset m of
             None \<Rightarrow> None
           | Some m' \<Rightarrow>
               (let st' = \<lparr>l_op = o', l_tries = tries, l_data = l_data st @ o_s o'\<rparr> in
                if loop_exit tries o' then Some (st', m') else prepare_loop C P st' m')))"
  by pat_completeness auto
termination
  by (relation "measure (\<lambda>(C, P, st, m). 277 - l_tries st)") (auto simp: loop_exit_def)

declare prepare_loop.simps [simp del]

text \<open>\<open>data.resize(tail_end, 0)\<close> when too short, then \<open>data[data_len..tail_end].fill(0)\<close>.\<close>

definition zero_tail :: "nat \<Rightarrow> byte list \<Rightarrow> byte list" where
  "zero_tail data_len data =
     (let tail_end = data_len + 16;
          data' = (if length data < tail_end then data @ replicate (tail_end - length data) 0 else data)
      in take data_len data' @ replicate 16 0 @ drop tail_end data')"

definition astrobwtv3_prepare :: "cfg \<Rightarrow> prims \<Rightarrow> byte list \<Rightarrow> scratch \<Rightarrow> (nat \<times> scratch) option" where
  "astrobwtv3_prepare C P input scr =
     (case loop_start P input of
        None \<Rightarrow> None
      | Some o0 \<Rightarrow>
          (let ms0 = (if c_v114 C then [] else s_markers scr) in
           case prepare_loop C P \<lparr>l_op = o0, l_tries = 0, l_data = []\<rparr>
                  \<lparr>m_markers = ms0, m_idx = 0, m_first = 0, m_count = 1\<rparr> of
             None \<Rightarrow> None
           | Some (st, m) \<Rightarrow>
               (case mark_finish C m of
                  None \<Rightarrow> None
                | Some ms \<Rightarrow>
                    (let data_len = data_len_of (l_tries st) (o_s (l_op st)) in
                     Some (data_len,
                       scr\<lparr>s_data := (if c_v114 C then zero_tail data_len (l_data st) else l_data st),
                           s_markers := ms\<rparr>)))))"

section \<open>The v114 dispatch of sais32.rs\<close>

definition flag_marker :: "u32 \<Rightarrow> byte list \<Rightarrow> u16 \<Rightarrow> byte list" where
  "flag_marker flags_len flags marker =
     (let pos_data = ucast marker :: u32; start_group = drop_bit 7 pos_data;
          group_count = pos_data AND 0x7f; boundary = start_group + group_count
      in if group_count \<noteq> 0 \<and> boundary > 0 \<and> boundary < flags_len then flags[unat boundary := 1] else flags)"

text \<open>\<open>usize::MAX\<close> on the 64-bit targets.\<close>

definition usize_max :: nat where
  "usize_max = 2 ^ 64 - 1"

definition u32_max :: nat where
  "u32_max = 2 ^ 32 - 1"

text \<open>\<open>Vec::resize(n, 0)\<close>\<close>

definition vec_resize :: "nat \<Rightarrow> 'a \<Rightarrow> 'a list \<Rightarrow> 'a list" where
  "vec_resize n v xs = take n xs @ replicate (n - length xs) v"

text \<open>The new flags and, unless refused, their number.\<close>

definition build_v114_stage5_flags :: "u16 list \<Rightarrow> nat \<Rightarrow> byte list \<Rightarrow> nat option \<times> byte list" where
  "build_v114_stage5_flags markers logical_len flags =
     (if logical_len = 0 \<or> logical_len > u32_max then (None, flags)
      else
        (let flags_len = drop_bit 8 (of_nat logical_len :: u32) + 1; n = unat flags_len;
             flags1 = vec_resize n 0 flags;
             flags2 = (replicate n 0 @ drop n flags1)[0 := 1];
             limit = min (length markers) 277
         in (Some n, foldl (flag_marker flags_len) flags2 (take limit markers))))"

definition MATERIALIZED_SA_TAIL_WORDS :: nat where
  "MATERIALIZED_SA_TAIL_WORDS = 7"

text \<open>The calls of the C++ engine.\<close>

definition suffix_array_v114_cpp_into ::
  "backends \<Rightarrow> byte list \<Rightarrow> nat \<Rightarrow> byte list \<Rightarrow> u32 \<Rightarrow> u32 list \<Rightarrow> bool \<times> u32 list" where
  "suffix_array_v114_cpp_into B data logical_len flags flag_len sa =
     (let out_cap = logical_len * 4;
          (rc, out_len, out) =
            v114_sa_build_fused B data (of_nat logical_len) (of_nat (logical_len + 3)) flags flag_len sa out_cap
      in (rc = 1 \<and> out_len = out_cap, out))"

definition hash_v114_cpp_fused_into :: "backends \<Rightarrow> byte list \<Rightarrow> nat \<Rightarrow> byte list \<Rightarrow> u32 \<Rightarrow> byte list option" where
  "hash_v114_cpp_fused_into B data logical_len flags flag_len =
     (let (rc, out) = v114_hash_fused B data (of_nat logical_len) (of_nat (logical_len + 3)) flags flag_len
      in if rc = 1 then Some out else None)"

text \<open>Whether the array was built, the flags and the buffer. With the Rust engine the buffer keeps its
  high-water length; the C++ engine gets it at the logical length.\<close>

definition suffix_array_v114_into ::
  "cfg \<Rightarrow> backends \<Rightarrow> byte list \<Rightarrow> nat \<Rightarrow> u16 list \<Rightarrow> byte list \<Rightarrow> u32 list \<Rightarrow> bool \<times> byte list \<times> u32 list" where
  "suffix_array_v114_into C B data logical_len markers flags sa =
     (if \<not> c_little C then (False, flags, sa)
      else if logical_len = 0 then (True, flags, [])
      else if logical_len > u32_max then (False, flags, sa)
      else if logical_len + 3 > usize_max then (False, flags, sa)
      else if length data < logical_len + 3 then (False, flags, sa)
      else
        (case build_v114_stage5_flags markers logical_len flags of
           (None, flags1) \<Rightarrow> (False, flags1, sa)
         | (Some flag_len, flags1) \<Rightarrow>
             (if logical_len * 4 > usize_max then (False, flags1, sa)
              else if use_cpp_backend C then
                (let (built, out) =
                   suffix_array_v114_cpp_into B data logical_len flags1 (of_nat flag_len) (vec_resize logical_len 0 sa)
                 in (built, flags1, out))
              else
                (let padded_len = logical_len + MATERIALIZED_SA_TAIL_WORDS in
                 if padded_len > usize_max \<or> padded_len * 4 > usize_max then (False, flags1, sa)
                 else
                   (let sa1 = (if length sa < padded_len then vec_resize padded_len 0 sa else sa);
                        (built, out) = be_v114_sa B data logical_len (take flag_len flags1) (take padded_len sa1)
                    in (built, flags1, out @ drop padded_len sa1))))))"

definition hash_v114_fused_into ::
  "cfg \<Rightarrow> backends \<Rightarrow> byte list \<Rightarrow> nat \<Rightarrow> u16 list \<Rightarrow> byte list \<Rightarrow> byte list option \<times> byte list" where
  "hash_v114_fused_into C B data logical_len markers flags =
     (if \<not> c_little C then (None, flags)
      else if c_no_fuse C then (None, flags)
      else if logical_len = 0 then (None, flags)
      else if logical_len > u32_max then (None, flags)
      else if logical_len + 3 > usize_max then (None, flags)
      else if length data < logical_len + 3 then (None, flags)
      else
        (case build_v114_stage5_flags markers logical_len flags of
           (None, flags1) \<Rightarrow> (None, flags1)
         | (Some flag_len, flags1) \<Rightarrow>
             (if use_cpp_backend C then (hash_v114_cpp_fused_into B data logical_len flags1 (of_nat flag_len), flags1)
              else (be_v114_hash B data logical_len (take flag_len flags1), flags1))))"

section \<open>astrobwtv3\_with\_scratch, astrobwtv3\_x2\<close>

text \<open>The materialized path: build into \<open>scratch.sa\<close>, hash the first \<open>data_len\<close> entries, or fall
  back to the portable engine. \<open>None\<close> is the panic of the slice \<open>sa[..data_len]\<close>.\<close>

definition hash_sa_buffer :: "prims \<Rightarrow> backends \<Rightarrow> nat \<Rightarrow> byte list \<Rightarrow> bool \<Rightarrow> u32 list \<Rightarrow> byte list option" where
  "hash_sa_buffer P B data_len data used sa =
     (if used then (if length sa < data_len then None else Some (sha256_sa_i32_le P (take data_len sa)))
      else if length data < data_len then None
      else Some (sha256_sa_i32_le P (be_sais B (take data_len data))))"

definition build_into :: "cfg \<Rightarrow> backends \<Rightarrow> nat \<Rightarrow> scratch \<Rightarrow> bool \<times> scratch" where
  "build_into C B data_len scr =
     (let (used, flags, sa) =
        suffix_array_v114_into C B (s_data scr) data_len (s_markers scr) (s_flags scr) (s_sa scr)
      in (used, scr\<lparr>s_flags := flags, s_sa := sa\<rparr>))"

definition materialized_hash :: "cfg \<Rightarrow> prims \<Rightarrow> backends \<Rightarrow> nat \<Rightarrow> scratch \<Rightarrow> (byte list \<times> scratch) option" where
  "materialized_hash C P B data_len scr =
     (let (used, scr1) = build_into C B data_len scr in
      map_option (\<lambda>h. (h, scr1)) (hash_sa_buffer P B data_len (s_data scr1) used (s_sa scr1)))"

definition astrobwtv3_with_scratch ::
  "cfg \<Rightarrow> prims \<Rightarrow> backends \<Rightarrow> byte list \<Rightarrow> scratch \<Rightarrow> (byte list \<times> scratch) option" where
  "astrobwtv3_with_scratch C P B input scr =
     (case astrobwtv3_prepare C P input scr of
        None \<Rightarrow> None
      | Some (data_len, scr1) \<Rightarrow>
          (if c_v114 C then
             (if c_fuse C then
                (case hash_v114_fused_into C B (s_data scr1) data_len (s_markers scr1) (s_flags scr1) of
                   (Some h, flags) \<Rightarrow> Some (h, scr1\<lparr>s_flags := flags\<rparr>)
                 | (None, flags) \<Rightarrow> materialized_hash C P B data_len (scr1\<lparr>s_flags := flags\<rparr>))
              else materialized_hash C P B data_len scr1)
           else if length (s_data scr1) < data_len then None
           else if c_libsais C then
             (let sa = be_libsais B (take data_len (s_data scr1)) in
              Some (sha256_sa_i32_le P sa, scr1\<lparr>s_sa := sa\<rparr>))
           else Some (sha256_sa_i32_le P (be_sais B (take data_len (s_data scr1))), scr1)))"

definition astrobwtv3_x2 ::
  "cfg \<Rightarrow> prims \<Rightarrow> backends \<Rightarrow> byte list \<Rightarrow> byte list \<Rightarrow> scratch \<Rightarrow> scratch
     \<Rightarrow> ((byte list \<times> byte list) \<times> scratch \<times> scratch) option" where
  "astrobwtv3_x2 C P B input_a input_b sa sb =
     (if \<not> c_v114 C then
        (case astrobwtv3_with_scratch C P B input_a sa of
           None \<Rightarrow> None
         | Some (ha, sa1) \<Rightarrow>
             map_option (\<lambda>(hb, sb1). ((ha, hb), sa1, sb1)) (astrobwtv3_with_scratch C P B input_b sb))
      else
        (case (astrobwtv3_prepare C P input_a sa, astrobwtv3_prepare C P input_b sb) of
           (Some (len_a, sa1), Some (len_b, sb1)) \<Rightarrow>
             (let (used_a, sa2) = build_into C B len_a sa1; (used_b, sb2) = build_into C B len_b sb1 in
              if used_a \<and> used_b then
                (if length (s_sa sa2) < len_a \<or> length (s_sa sb2) < len_b then None
                 else Some (be_sha256_x2 B
                        (concat (map (\<lambda>v. le_bytes 4 (unat v)) (take len_a (s_sa sa2))))
                        (concat (map (\<lambda>v. le_bytes 4 (unat v)) (take len_b (s_sa sb2)))), sa2, sb2))
              else
                (case (hash_sa_buffer P B len_a (s_data sa2) used_a (s_sa sa2),
                       hash_sa_buffer P B len_b (s_data sb2) used_b (s_sa sb2)) of
                   (Some ha, Some hb) \<Rightarrow> Some ((ha, hb), sa2, sb2)
                 | _ \<Rightarrow> None))
         | _ \<Rightarrow> None))"

definition astrobwtv3_hash_only :: "cfg \<Rightarrow> prims \<Rightarrow> backends \<Rightarrow> byte list \<Rightarrow> byte list option" where
  "astrobwtv3_hash_only C P B input = map_option fst (astrobwtv3_with_scratch C P B input scratch_new)"

section \<open>The window\<close>

lemma and_1f_le: "unat (x AND 0x1f) \<le> 31" for x :: byte
proof -
  have "x AND 0x1f \<le> 0x1f" by (rule word_and_le1)
  then show ?thesis by (simp add: word_le_nat_alt)
qed

lemma loop_pos_window:
  "fst (loop_pos r) \<le> snd (loop_pos r) \<and> unat (snd (loop_pos r)) - unat (fst (loop_pos r)) \<le> 32"
proof -
  define a b :: byte where "a = (if (ucast (drop_bit 8 r) :: byte) > ucast (drop_bit 16 r) then ucast (drop_bit 16 r) else ucast (drop_bit 8 r))"
    and "b = (if (ucast (drop_bit 8 r) :: byte) > ucast (drop_bit 16 r) then ucast (drop_bit 8 r) else (ucast (drop_bit 16 r) :: byte))"
  have ab: "a \<le> b" by (auto simp: a_def b_def not_less intro: less_imp_le)
  have lp: "loop_pos r = (a, if b - a > 32 then a + ((b - a) AND 0x1f) else b)"
    by (simp only: loop_pos_def a_def b_def Let_def split: if_split) simp
  have d: "unat (b - a) = unat b - unat a" by (rule unat_sub[OF ab])
  show ?thesis
  proof (cases "b - a > 32")
    case True
    let ?x = "(b - a) AND 0x1f"
    have x: "unat ?x \<le> 31" by (rule and_1f_le)
    have g: "32 < unat b - unat a" using True d by (simp add: word_less_nat_alt)
    have "unat a + unat ?x < 256"
      using x g less_imp_le[OF unat_byte_less[of b]] unat_byte_less[of b] by linarith
    then have "unat (a + ?x) = unat a + unat ?x" by (simp add: unat_word_ariths)
    then show ?thesis using True lp x by (simp add: word_le_nat_alt)
  next
    case False
    then show ?thesis using lp ab d by (simp add: word_le_nat_alt word_less_nat_alt)
  qed
qed

section \<open>One round keeps the buffer\<close>

lemma mix_hashes_s [simp]: "o_s (mix_hashes P tries p2 diff st) = o_s st"
  by (simp add: mix_hashes_def Let_def)

lemma stream_step_length [simp]: "length (o_s (stream_step st)) = length (o_s st)"
  by (simp add: stream_step_def split: prod.splits)
    (metis snd_conv xor_key_stream_length)

abbreviation switcher :: "nat \<Rightarrow> opst \<Rightarrow> u64" where
  "switcher tries st \<equiv> o_prev st XOR o_lhash st XOR of_nat tries"

lemma loop_body_cong:
  assumes "app (ucast (switcher tries st)) (fst (loop_pos (switcher tries st))) (snd (loop_pos (switcher tries st))) st
    = app' (ucast (switcher tries st)) (fst (loop_pos (switcher tries st))) (snd (loop_pos (switcher tries st))) st"
  shows "loop_body app P tries st = loop_body app' P tries st"
  using assms by (simp add: loop_body_def Let_def split_beta)

lemma loop_body_eq_Some:
  assumes "loop_body app P tries st = Some (st', reset)"
  obtains st1 where
    "app (ucast (switcher tries st)) (fst (loop_pos (switcher tries st))) (snd (loop_pos (switcher tries st))) st = Some st1"
    "length (o_s st') = length (o_s st1)"
  using assms that by (auto simp: loop_body_def Let_def split_beta split: option.splits if_splits)

lemma loop_body_some:
  assumes "length (o_s st) = 256"
  obtains st' reset where "loop_body (apply_op (xxh64 P)) P tries st = Some (st', reset)" "length (o_s st') = 256"
proof -
  let ?r = "switcher tries st"
  obtain st1 where st1: "apply_op (xxh64 P) (ucast ?r) (fst (loop_pos ?r)) (snd (loop_pos ?r)) st = Some st1"
    using apply_op_defined[OF assms] by blast
  then obtain st' reset where b: "loop_body (apply_op (xxh64 P)) P tries st = Some (st', reset)"
    by (simp add: loop_body_def Let_def split_beta)
  from b have "length (o_s st') = 256"
    by (elim loop_body_eq_Some) (simp add: apply_op_length assms)
  with b show thesis by (rule that)
qed

text \<open>The AVX2 and the scalar loop bodies agree because the window is narrow.\<close>

lemma loop_body_miner:
  assumes "length (o_s st) = 256"
  shows "loop_body (miner_op C P) P tries st = loop_body (apply_op (xxh64 P)) P tries st"
proof (rule loop_body_cong)
  let ?r = "switcher tries st"
  show "miner_op C P (ucast ?r) (fst (loop_pos ?r)) (snd (loop_pos ?r)) st
    = apply_op (xxh64 P) (ucast ?r) (fst (loop_pos ?r)) (snd (loop_pos ?r)) st"
    using apply_vec_eq[OF assms] loop_pos_window[of ?r]
    by (simp add: miner_op_def apply_op_avx2_def)
qed

lemma loop_start_some:
  assumes "prims_ok P"
  obtains o0 where "loop_start P input = Some o0" "length (o_s o0) = 256" "rc4_inv (o_rc4 o0)"
proof -
  let ?k = "salsa20_keystream_256 P (sha256 P input)"
  have k: "length ?k = 256" using assms by (simp add: prims_ok_def salsa20_keystream_256_def)
  obtain c where c: "rc4_new ?k = Some c" using k by (simp add: rc4_new_def)
  have "loop_start P input = Some \<lparr>o_s = snd (xor_key_stream c ?k), o_lhash = fnv1a_64 (snd (xor_key_stream c ?k)),
      o_prev = fnv1a_64 (snd (xor_key_stream c ?k)), o_rc4 = fst (xor_key_stream c ?k)\<rparr>"
    by (simp add: loop_start_def c Let_def split_beta)
  from that[OF this] show thesis by (simp add: k xor_key_stream_inv rc4_new_inv[OF c])
qed

section \<open>The loop ends, inside the buffer\<close>

definition loop_inv :: "loopst \<Rightarrow> bool" where
  "loop_inv st \<longleftrightarrow> length (o_s (l_op st)) = 256 \<and> length (l_data st) = 256 * l_tries st \<and> l_tries st \<le> 277"

lemma op_loop_some:
  assumes "loop_inv st" "l_tries st \<le> 276"
  shows "\<exists>st'. op_loop P st = Some st' \<and> loop_inv st' \<and> loop_exit (l_tries st') (l_op st')"
  using assms
proof (induction P st rule: op_loop.induct)
  case (1 P st)
  let ?tries = "Suc (l_tries st)"
  obtain o' reset where b: "loop_body (apply_op (xxh64 P)) P ?tries (l_op st) = Some (o', reset)"
    and l: "length (o_s o') = 256"
    using loop_body_some "1.prems" unfolding loop_inv_def by blast
  let ?st' = "\<lparr>l_op = o', l_tries = ?tries, l_data = l_data st @ o_s o'\<rparr>"
  have inv: "loop_inv ?st'" using "1.prems" l by (simp add: loop_inv_def)
  show ?case
  proof (cases "loop_exit ?tries o'")
    case True
    then show ?thesis using b inv by (simp add: op_loop.simps[of P st] Let_def)
  next
    case False
    then have "l_tries ?st' \<le> 276" by (simp add: loop_exit_def)
    then show ?thesis
      using "1.IH"[OF refl b refl refl False inv] b False by (simp add: op_loop.simps[of P st] Let_def)
  qed
qed

lemma loop_exit_tries: "loop_exit tries st \<Longrightarrow> 260 < tries"
  by (auto simp: loop_exit_def)

lemma and_3ff_less: "unat (x AND 0x3ff) < 1024" for x :: u64
proof -
  have "x AND 0x3ff \<le> 0x3ff" by (rule word_and_le1)
  then have "unat (x AND 0x3ff) \<le> 1023" by (simp add: word_le_nat_alt)
  then show ?thesis by simp
qed

lemma data_len_bounds:
  assumes "4 \<le> tries"
  shows "256 * tries - 1024 \<le> data_len_of tries s" "data_len_of tries s < 256 * tries"
proof -
  let ?x = "(push_bit 8 (ucast (s ! 253)) OR ucast (s ! 254)) AND 0x3ff :: u64"
  have d: "data_len_of tries s = (tries - 4) * 256 + unat ?x" by (simp only: data_len_of_def)
  show "256 * tries - 1024 \<le> data_len_of tries s" "data_len_of tries s < 256 * tries"
    unfolding d using and_3ff_less[of "push_bit 8 (ucast (s ! 253)) OR ucast (s ! 254)"] assms by linarith+
qed

section \<open>The miner's stream is the verifier's\<close>

definition marks_inv :: "marks \<Rightarrow> bool" where
  "marks_inv m \<longleftrightarrow> m_idx m \<le> length (m_markers m)"

lemma write_v114_marker_some:
  "i \<le> length ms \<Longrightarrow> \<exists>ms'. write_v114_marker ms i f c = Some ms' \<and> Suc i \<le> length ms'"
  by (simp add: write_v114_marker_def Let_def)

lemma mark_round_some:
  assumes "c_v114 C \<Longrightarrow> marks_inv m"
  shows "\<exists>m'. mark_round C tries reset m = Some m' \<and> (c_v114 C \<longrightarrow> marks_inv m')"
  using assms write_v114_marker_some[of "m_idx m" "m_markers m" "m_first m" "m_count m"]
  by (auto simp: mark_round_def marks_inv_def)

lemma mark_finish_some:
  assumes "c_v114 C \<Longrightarrow> marks_inv m"
  shows "\<exists>ms. mark_finish C m = Some ms"
  using assms write_v114_marker_some[of "m_idx m" "m_markers m" "m_first m" "m_count m"]
  by (auto simp: mark_finish_def marks_inv_def)

lemma prepare_loop_sim:
  assumes "loop_inv st" "l_tries st \<le> 276" "c_v114 C \<Longrightarrow> marks_inv m" "op_loop P st = Some st'"
  shows "\<exists>m'. prepare_loop C P st m = Some (st', m') \<and> (c_v114 C \<longrightarrow> marks_inv m')"
  using assms
proof (induction C P st m rule: prepare_loop.induct)
  case (1 C P st m)
  let ?tries = "Suc (l_tries st)"
  have l0: "length (o_s (l_op st)) = 256" using "1.prems" by (simp add: loop_inv_def)
  obtain o' reset where b: "loop_body (apply_op (xxh64 P)) P ?tries (l_op st) = Some (o', reset)"
    and l: "length (o_s o') = 256"
    using loop_body_some[OF l0] by blast
  have b': "loop_body (miner_op C P) P ?tries (l_op st) = Some (o', reset)"
    using loop_body_miner[OF l0] b by simp
  obtain m' where m': "mark_round C ?tries reset m = Some m'" "c_v114 C \<longrightarrow> marks_inv m'"
    using mark_round_some "1.prems"(3) by blast
  let ?st' = "\<lparr>l_op = o', l_tries = ?tries, l_data = l_data st @ o_s o'\<rparr>"
  have inv: "loop_inv ?st'" using "1.prems" l by (simp add: loop_inv_def)
  show ?case
  proof (cases "loop_exit ?tries o'")
    case True
    then show ?thesis
      using b b' m' "1.prems"(4) by (simp add: op_loop.simps[of P st] prepare_loop.simps[of C P st] Let_def)
  next
    case False
    then have t: "l_tries ?st' \<le> 276" by (simp add: loop_exit_def)
    have "op_loop P ?st' = Some st'" using "1.prems"(4) b False by (simp add: op_loop.simps[of P st] Let_def)
    then show ?thesis
      using "1.IH"[OF refl b' refl m'(1) refl False inv t] m'(2) b' False
      by (simp add: prepare_loop.simps[of C P st] Let_def m'(1))
  qed
qed

lemma zero_tail_props:
  assumes "dl \<le> length data"
  shows "take dl (zero_tail dl data) = take dl data"
    "slice dl (dl + 16) (zero_tail dl data) = replicate 16 0"
    "length (zero_tail dl data) = max (length data) (dl + 16)"
  using assms by (auto simp: zero_tail_def Let_def slice_def)

text \<open>What both pipelines compute: the stream's state at the end of the loop.\<close>

lemma astrobwtv3_stream:
  assumes "prims_ok P"
  obtains o0 st where "loop_start P input = Some o0"
    "op_loop P \<lparr>l_op = o0, l_tries = 0, l_data = []\<rparr> = Some st"
    "loop_inv st" "260 < l_tries st"
proof -
  obtain o0 where o0: "loop_start P input = Some o0" "length (o_s o0) = 256"
    using loop_start_some[OF assms] by blast
  then have "loop_inv \<lparr>l_op = o0, l_tries = 0, l_data = []\<rparr>" by (simp add: loop_inv_def)
  from op_loop_some[OF this, of P] obtain st where
    "op_loop P \<lparr>l_op = o0, l_tries = 0, l_data = []\<rparr> = Some st" "loop_inv st" "260 < l_tries st"
    using loop_exit_tries by auto
  with o0 show thesis by (auto intro: that)
qed

section \<open>Properties of the pipelines\<close>

text \<open>C4: if Salsa20 keeps the length of its buffer, the hash is total: no branch panics, the loop
  stops after 261 to 277 rounds, and the hashed prefix lies strictly inside the stream, less than
  1024 bytes from its end, so its length fits the \<open>u32\<close> it is cast to and the preallocated capacity.\<close>

theorem astrobwtv3_full_total:
  assumes "prims_ok P"
  shows "\<exists>output dbg. astrobwtv3_full P sa input = Some (output, dbg)
    \<and> 261 \<le> d_tries dbg \<and> d_tries dbg \<le> 277 \<and> length (d_step3 dbg) = 256
    \<and> 256 * d_tries dbg - 1024 \<le> d_data_len dbg \<and> d_data_len dbg < 256 * d_tries dbg
    \<and> d_data_len dbg < 2 ^ 32 \<and> 256 * d_tries dbg \<le> ASTROBWT_DATA_CAPACITY"
proof -
  obtain o0 st where run: "loop_start P input = Some o0"
      "op_loop P \<lparr>l_op = o0, l_tries = 0, l_data = []\<rparr> = Some st"
    and st: "loop_inv st" "260 < l_tries st"
    using astrobwtv3_stream[OF assms] .
  let ?dl = "data_len_of (l_tries st) (o_s (l_op st))"
  have t: "4 \<le> l_tries st" "l_tries st \<le> 277" using st by (simp_all add: loop_inv_def)
  note dl = data_len_bounds[OF t(1), of "o_s (l_op st)"]
  have "\<not> length (l_data st) < ?dl" using st dl by (simp add: loop_inv_def)
  then show ?thesis
    using run st t dl by (simp add: astrobwtv3_full_def Let_def loop_inv_def ASTROBWT_DATA_CAPACITY_def)
qed

text \<open>Concrete parameters for the witnesses: constant functions and the identity on buffers.\<close>

definition demo_prims :: prims where
  "demo_prims = \<lparr>sha256 = (\<lambda>_. replicate 32 0), salsa20 = (\<lambda>key nonce buf. buf),
     xxh64 = (\<lambda>_. 0), siphash24 = (\<lambda>_ _ _. 0)\<rparr>"

lemma demo_prims_ok: "prims_ok demo_prims"
  by (simp add: prims_ok_def demo_prims_def)

theorem astrobwtv3_full_total_witness:
  "\<exists>output dbg. astrobwtv3_full demo_prims (\<lambda>_. []) [1, 2, 3] = Some (output, dbg) \<and> d_tries dbg \<le> 277"
  using astrobwtv3_full_total[OF demo_prims_ok, of "\<lambda>_. []" "[1, 2, 3]"] by blast

lemma prepare_full:
  assumes "prims_ok P"
  obtains dl scr' dbg where "astrobwtv3_prepare C P input scr = Some (dl, scr')"
    "\<And>sa. astrobwtv3_full P sa input
        = Some (sha256_sa_i32_le P (sa (take dl (s_data scr'))), dbg\<lparr>d_output := sha256_sa_i32_le P (sa (take dl (s_data scr')))\<rparr>)"
    "d_data_len dbg = dl" "dl \<le> length (s_data scr')" "256 \<le> dl" "dl \<le> u32_max - 100"
    "length (s_data scr') \<le> ASTROBWT_DATA_CAPACITY"
    "c_v114 C \<Longrightarrow> slice dl (dl + 16) (s_data scr') = replicate 16 0 \<and> dl + 16 \<le> length (s_data scr')"
    "s_sa scr' = s_sa scr" "s_flags scr' = s_flags scr"
proof -
  obtain o0 st where run: "loop_start P input = Some o0"
      "op_loop P \<lparr>l_op = o0, l_tries = 0, l_data = []\<rparr> = Some st"
    and st: "loop_inv st" "260 < l_tries st"
    using astrobwtv3_stream[OF assms] .
  let ?m0 = "\<lparr>m_markers = (if c_v114 C then [] else s_markers scr), m_idx = 0, m_first = 0, m_count = 1\<rparr>"
  have o0: "loop_inv \<lparr>l_op = o0, l_tries = 0, l_data = []\<rparr>"
    using loop_start_some[OF assms, of input] run by (auto simp: loop_inv_def)
  obtain m' where m': "prepare_loop C P \<lparr>l_op = o0, l_tries = 0, l_data = []\<rparr> ?m0 = Some (st, m')"
      "c_v114 C \<longrightarrow> marks_inv m'"
    using prepare_loop_sim[OF o0 _ _ run(2), of C ?m0] by (auto simp: marks_inv_def)
  obtain ms where ms: "mark_finish C m' = Some ms" using mark_finish_some m'(2) by blast
  define dl where "dl = data_len_of (l_tries st) (o_s (l_op st))"
  define data where "data = (if c_v114 C then zero_tail dl (l_data st) else l_data st)"
  have t: "4 \<le> l_tries st" "l_tries st \<le> 277" using st by (simp_all add: loop_inv_def)
  have dl: "256 * l_tries st - 1024 \<le> dl" "dl < 256 * l_tries st" "length (l_data st) = 256 * l_tries st"
    using data_len_bounds[OF t(1), of "o_s (l_op st)"] st unfolding dl_def loop_inv_def by simp_all
  have tk: "take dl data = take dl (l_data st)" using dl by (simp add: data_def zero_tail_props)
  have prep: "astrobwtv3_prepare C P input scr = Some (dl, scr\<lparr>s_data := data, s_markers := ms\<rparr>)"
    using m'(1) ms run(1) by (simp add: astrobwtv3_prepare_def Let_def dl_def data_def)
  show thesis
  proof (rule that[OF prep])
    fix sa
    let ?out = "sha256_sa_i32_le P (sa (take dl (s_data (scr\<lparr>s_data := data, s_markers := ms\<rparr>))))"
    let ?dbg = "\<lparr>d_tries = l_tries st, d_data_len = dl, d_lhash = o_lhash (l_op st), d_prev_lhash = o_prev (l_op st),
       d_step3 = o_s (l_op st), d_data_hash = sha256 P (take dl (l_data st)), d_output = []\<rparr>"
    show "astrobwtv3_full P sa input = Some (?out, ?dbg\<lparr>d_output := ?out\<rparr>)"
      using run dl by (simp add: astrobwtv3_full_def Let_def dl_def[symmetric] tk)
    show "d_data_len ?dbg = dl" by simp
  qed (use dl t st in \<open>simp_all add: data_def zero_tail_props u32_max_def ASTROBWT_DATA_CAPACITY_def le_max_iff_disj\<close>)
qed

text \<open>C2: for every build configuration and whatever the scratch held before, the miner's preparation
  succeeds and leaves in the buffer exactly the stream that the verifier hashes: the verifier's result
  is the hash of the suffix array of that prefix, for every suffix-array engine; the buffer stays
  within its preallocated capacity and, for the descriptor engine, is followed by 16 zero bytes.\<close>

theorem prepare_matches_full:
  assumes "prims_ok P"
  shows "\<exists>dl scr'. astrobwtv3_prepare C P input scr = Some (dl, scr')
    \<and> (\<exists>dbg. astrobwtv3_full P sa input = Some (sha256_sa_i32_le P (sa (take dl (s_data scr'))), dbg)
        \<and> d_data_len dbg = dl)
    \<and> dl \<le> length (s_data scr') \<and> length (s_data scr') \<le> ASTROBWT_DATA_CAPACITY
    \<and> (c_v114 C \<longrightarrow> slice dl (dl + 16) (s_data scr') = replicate 16 0)"
  by (rule prepare_full[OF assms, of C input scr]) auto

definition demo_cfg :: cfg where
  "demo_cfg = \<lparr>c_v114 = True, c_libsais = False, c_avx2ops = True, c_cpu_avx2 = True,
     c_fuse = True, c_no_fuse = False, c_little = True, c_v114_cpp = False, c_env_cpp = False\<rparr>"

theorem prepare_matches_full_witness:
  "\<exists>dl scr'. astrobwtv3_prepare demo_cfg demo_prims [7] scratch_new = Some (dl, scr')
    \<and> slice dl (dl + 16) (s_data scr') = replicate 16 0"
  using prepare_matches_full[OF demo_prims_ok, of demo_cfg "[7]" scratch_new "\<lambda>_. []"]
  by (auto simp: demo_cfg_def)

text \<open>What the dispatch relies on, as the sources of the engines document it. Each clause binds only the
  builds that call the engine, so that a build without \<open>v114\<close> and \<open>libsais\<close> relies on none: the C
  library returns the portable engine's array; on a stream followed by three zero bytes, with one flag per
  group, the descriptor engine (the Rust one, or the C++ one where it is selected) keeps the length of the
  buffer it fills and, when it accepts the input, is byte-identical to the portable engine; the two-lane
  SHA-256 is SHA-256 on each lane. The suffix sorting inside these engines is not modelled.\<close>

definition v114_ok :: "prims \<Rightarrow> backends \<Rightarrow> bool" where
  "v114_ok P B \<longleftrightarrow>
     (\<forall>data n flags sa. n + 3 \<le> length data \<longrightarrow> slice n (n + 3) data = [0, 0, 0] \<longrightarrow> length flags = n div 256 + 1 \<longrightarrow>
        length (snd (be_v114_sa B data n flags sa)) = length sa \<and>
        (fst (be_v114_sa B data n flags sa) \<longrightarrow> take n (snd (be_v114_sa B data n flags sa)) = be_sais B (take n data)) \<and>
        (\<forall>h. be_v114_hash B data n flags = Some h \<longrightarrow> h = sha256_sa_i32_le P (be_sais B (take n data))))"

definition v114_cpp_ok :: "prims \<Rightarrow> backends \<Rightarrow> bool" where
  "v114_cpp_ok P B \<longleftrightarrow>
     (\<forall>data n flags sa rc out_len out. n + 3 \<le> u32_max \<longrightarrow> n + 3 \<le> length data \<longrightarrow> slice n (n + 3) data = [0, 0, 0] \<longrightarrow>
        length flags = n div 256 + 1 \<longrightarrow> length sa = n \<longrightarrow>
        v114_sa_build_fused B data (of_nat n) (of_nat (n + 3)) flags (of_nat (length flags)) sa (n * 4) = (rc, out_len, out) \<longrightarrow>
        length out = n \<and> (rc = 1 \<longrightarrow> out_len = n * 4 \<longrightarrow> out = be_sais B (take n data))) \<and>
     (\<forall>data n flags out. n + 3 \<le> u32_max \<longrightarrow> n + 3 \<le> length data \<longrightarrow> slice n (n + 3) data = [0, 0, 0] \<longrightarrow>
        length flags = n div 256 + 1 \<longrightarrow>
        v114_hash_fused B data (of_nat n) (of_nat (n + 3)) flags (of_nat (length flags)) = (1, out) \<longrightarrow>
        out = sha256_sa_i32_le P (be_sais B (take n data)))"

definition backends_ok :: "cfg \<Rightarrow> prims \<Rightarrow> backends \<Rightarrow> bool" where
  "backends_ok C P B \<longleftrightarrow>
     (c_libsais C \<longrightarrow> (\<forall>text. be_libsais B text = be_sais B text)) \<and>
     (c_v114 C \<longrightarrow> \<not> use_cpp_backend C \<longrightarrow> v114_ok P B) \<and>
     (c_v114 C \<longrightarrow> use_cpp_backend C \<longrightarrow> v114_cpp_ok P B) \<and>
     (c_v114 C \<longrightarrow> (\<forall>a b. be_sha256_x2 B a b = (sha256 P a, sha256 P b)))"

text \<open>A plain build has no contract to keep.\<close>

lemma backends_ok_plain: "\<not> c_v114 C \<Longrightarrow> \<not> c_libsais C \<Longrightarrow> backends_ok C P B"
  by (simp add: backends_ok_def)

lemma backends_okD:
  assumes "backends_ok C P B"
  shows "c_libsais C \<Longrightarrow> be_libsais B text = be_sais B text"
    "c_v114 C \<Longrightarrow> be_sha256_x2 B a b = (sha256 P a, sha256 P b)"
  using assms by (simp_all add: backends_ok_def)

lemma sa32_sais: "backends_ok C P B \<Longrightarrow> sa32 C B = be_sais B"
  by (auto simp: sa32_def fun_eq_iff backends_okD(1))

lemma backends_ok_v114:
  assumes "backends_ok C P B" "c_v114 C" "\<not> use_cpp_backend C"
    "n + 3 \<le> length data" "slice n (n + 3) data = [0, 0, 0]" "length flags = n div 256 + 1"
  shows "length (snd (be_v114_sa B data n flags sa)) = length sa"
    "fst (be_v114_sa B data n flags sa) \<Longrightarrow> take n (snd (be_v114_sa B data n flags sa)) = be_sais B (take n data)"
    "be_v114_hash B data n flags = Some h \<Longrightarrow> h = sha256_sa_i32_le P (be_sais B (take n data))"
  using assms by (simp_all add: backends_ok_def v114_ok_def)

lemma backends_ok_cpp:
  assumes "backends_ok C P B" "c_v114 C" "use_cpp_backend C" "n + 3 \<le> u32_max"
    "n + 3 \<le> length data" "slice n (n + 3) data = [0, 0, 0]" "length flags = n div 256 + 1"
  shows "length sa = n \<Longrightarrow> suffix_array_v114_cpp_into B data n flags (of_nat (length flags)) sa = (built, out)
      \<Longrightarrow> length out = n \<and> (built \<longrightarrow> out = be_sais B (take n data))"
    "hash_v114_cpp_fused_into B data n flags (of_nat (length flags)) = Some h \<Longrightarrow> h = sha256_sa_i32_le P (be_sais B (take n data))"
proof -
  have ok: "v114_cpp_ok P B" using assms(1-3) by (simp add: backends_ok_def)
  note sa_ok = ok[unfolded v114_cpp_ok_def, THEN conjunct1, rule_format, OF assms(4-7)]
  note hash_ok = ok[unfolded v114_cpp_ok_def, THEN conjunct2, rule_format, OF assms(4-7)]
  show "length out = n \<and> (built \<longrightarrow> out = be_sais B (take n data))"
    if "length sa = n" "suffix_array_v114_cpp_into B data n flags (of_nat (length flags)) sa = (built, out)"
  proof -
    obtain rc out_len out' where
      c: "v114_sa_build_fused B data (of_nat n) (of_nat (n + 3)) flags (of_nat (length flags)) sa (n * 4) = (rc, out_len, out')"
      by (rule prod_cases3)
    then have "built = (rc = 1 \<and> out_len = n * 4)" "out = out'"
      using that(2) by (auto simp: suffix_array_v114_cpp_into_def Let_def)
    then show ?thesis using sa_ok[OF that(1) c] by simp
  qed
  show "h = sha256_sa_i32_le P (be_sais B (take n data))"
    if "hash_v114_cpp_fused_into B data n flags (of_nat (length flags)) = Some h"
  proof -
    obtain rc out where c: "v114_hash_fused B data (of_nat n) (of_nat (n + 3)) flags (of_nat (length flags)) = (rc, out)"
      by force
    then have "rc = 1" "h = out" using that by (simp_all add: hash_v114_cpp_fused_into_def split: if_splits)
    then show ?thesis using hash_ok c by simp
  qed
qed

lemma length_flag_marker [simp]: "length (flag_marker n flags m) = length flags"
  by (simp add: flag_marker_def Let_def)

lemma length_foldl_flag_marker [simp]: "length (foldl (flag_marker n) flags ms) = length flags"
  by (induction ms arbitrary: flags) simp_all

lemma length_vec_resize [simp]: "length (vec_resize n v xs) = n"
  by (simp add: vec_resize_def)

lemma flags_len_unat:
  assumes "n \<le> u32_max"
  shows "unat (drop_bit 8 (of_nat n :: u32) + 1) = n div 256 + 1"
proof -
  have n: "unat (of_nat n :: u32) = n" using assms by (simp add: unat_of_nat u32_max_def)
  have "unat (drop_bit 8 (of_nat n :: u32)) = n div 256" by (simp add: unat_shr n)
  moreover have "n div 256 < 2 ^ 24" using assms by (simp add: u32_max_def)
  ultimately show ?thesis by (simp add: unat_word_ariths)
qed

lemma build_flags_some:
  assumes "0 < n" "n \<le> u32_max"
  obtains fl where "build_v114_stage5_flags ms n flags = (Some (n div 256 + 1), fl)" "length fl = n div 256 + 1"
  using assms that flags_len_unat[OF assms(2)]
  by (simp add: build_v114_stage5_flags_def Let_def)

text \<open>A scratch that \<open>astrobwtv3_prepare\<close> filled for the descriptor engine.\<close>

definition prepared :: "nat \<Rightarrow> scratch \<Rightarrow> bool" where
  "prepared dl scr \<longleftrightarrow> 0 < dl \<and> dl \<le> u32_max - 100 \<and> dl + 16 \<le> length (s_data scr)
     \<and> slice dl (dl + 16) (s_data scr) = replicate 16 0"

lemma prepared_tail:
  assumes "prepared dl scr"
  shows "dl + 3 \<le> length (s_data scr)" "slice dl (dl + 3) (s_data scr) = [0, 0, 0]"
proof -
  show "dl + 3 \<le> length (s_data scr)" using assms by (simp add: prepared_def)
  have "slice dl (dl + 3) (s_data scr) = take 3 (slice dl (dl + 16) (s_data scr))"
    by (simp add: slice_def min_def)
  also have "\<dots> = [0, 0, 0]" using assms by (simp add: prepared_def numeral_eq_Suc)
  finally show "slice dl (dl + 3) (s_data scr) = [0, 0, 0]" .
qed

lemma build_into_sound:
  assumes "backends_ok C P B" "c_v114 C" "prepared dl scr"
  shows "s_data (snd (build_into C B dl scr)) = s_data scr"
    "fst (build_into C B dl scr) \<Longrightarrow> dl \<le> length (s_sa (snd (build_into C B dl scr)))
       \<and> take dl (s_sa (snd (build_into C B dl scr))) = be_sais B (take dl (s_data scr))"
proof -
  show "s_data (snd (build_into C B dl scr)) = s_data scr"
    by (simp add: build_into_def split_beta)
  have dl: "0 < dl" "dl \<le> u32_max" "dl + 3 \<le> u32_max" "dl + 7 \<le> u32_max"
    using assms(3) by (simp_all add: prepared_def u32_max_def)
  obtain fl where fl: "build_v114_stage5_flags (s_markers scr) dl (s_flags scr) = (Some (dl div 256 + 1), fl)"
      "length fl = dl div 256 + 1"
    using build_flags_some[OF dl(1,2)] .
  note tail = prepared_tail[OF assms(3)]
  assume used: "fst (build_into C B dl scr)"
  show "dl \<le> length (s_sa (snd (build_into C B dl scr)))
       \<and> take dl (s_sa (snd (build_into C B dl scr))) = be_sais B (take dl (s_data scr))"
  proof (cases "use_cpp_backend C")
    case True
    obtain built out where c: "suffix_array_v114_cpp_into B (s_data scr) dl fl (of_nat (length fl)) (vec_resize dl 0 (s_sa scr)) = (built, out)"
      by force
    have o: "length out = dl \<and> (built \<longrightarrow> out = be_sais B (take dl (s_data scr)))"
      by (rule backends_ok_cpp(1)[OF assms(1,2) True dl(3) tail fl(2) length_vec_resize c])
    have c': "suffix_array_v114_cpp_into B (s_data scr) dl fl (of_nat (dl div 256 + 1)) (vec_resize dl 0 (s_sa scr)) = (built, out)"
      using c by (simp only: fl(2))
    have "suffix_array_v114_into C B (s_data scr) dl (s_markers scr) (s_flags scr) (s_sa scr)
        \<in> {(built, fl, out), (False, s_flags scr, s_sa scr), (False, fl, s_sa scr)}"
      using dl tail c' fl(1) True by (simp add: suffix_array_v114_into_def del: of_nat_add of_nat_Suc)
    then show ?thesis using used o by (auto simp: build_into_def)
  next
    case False
    let ?sa = "if length (s_sa scr) < dl + 7 then vec_resize (dl + 7) 0 (s_sa scr) else s_sa scr"
    have sa: "length (take (dl + 7) ?sa) = dl + 7" by simp
    note be = backends_ok_v114(1,2)[OF assms(1,2) False tail fl(2), where sa = "take (dl + 7) ?sa"]
    show ?thesis
      using used False dl fl tail be(1,2) sa
      by (simp add: build_into_def suffix_array_v114_into_def u32_max_def usize_max_def
          MATERIALIZED_SA_TAIL_WORDS_def Let_def split_beta split: if_splits)
  qed
qed

lemma hash_sa_buffer_sound:
  assumes "backends_ok C P B" "c_v114 C" "prepared dl scr" "build_into C B dl scr = (used, scr1)"
  shows "hash_sa_buffer P B dl (s_data scr1) used (s_sa scr1)
    = Some (sha256_sa_i32_le P (be_sais B (take dl (s_data scr))))"
  using build_into_sound[OF assms(1-3)] assms(3,4)
  by (auto simp: hash_sa_buffer_def prepared_def)

lemma hash_fused_sound:
  assumes "backends_ok C P B" "c_v114 C" "prepared dl scr"
    "hash_v114_fused_into C B (s_data scr) dl ms fl0 = (Some h, fl1)"
  shows "h = sha256_sa_i32_le P (be_sais B (take dl (s_data scr)))"
proof -
  have dl: "0 < dl" "dl \<le> u32_max" "dl + 3 \<le> u32_max" using assms(3) by (simp_all add: prepared_def u32_max_def)
  obtain fl where fl: "build_v114_stage5_flags ms dl fl0 = (Some (dl div 256 + 1), fl)"
      "length fl = dl div 256 + 1"
    using build_flags_some[OF dl(1,2)] .
  note tail = prepared_tail[OF assms(3)]
  show ?thesis
  proof (cases "use_cpp_backend C")
    case True
    from assms(4) fl dl True have "hash_v114_cpp_fused_into B (s_data scr) dl fl (of_nat (dl div 256 + 1)) = Some h"
      by (auto simp: hash_v114_fused_into_def split: if_splits)
    then show ?thesis using backends_ok_cpp(2)[OF assms(1,2) True dl(3) tail fl(2)] unfolding fl(2) by blast
  next
    case False
    from assms(4) fl dl False have "be_v114_hash B (s_data scr) dl fl = Some h"
      by (auto simp: hash_v114_fused_into_def split: if_splits)
    then show ?thesis using backends_ok_v114(3)[OF assms(1,2) False tail fl(2)] by simp
  qed
qed

lemma materialized_hash_sound:
  assumes "backends_ok C P B" "c_v114 C" "prepared dl scr"
  shows "map_option fst (materialized_hash C P B dl scr) = Some (sha256_sa_i32_le P (be_sais B (take dl (s_data scr))))"
proof -
  obtain used scr1 where b: "build_into C B dl scr = (used, scr1)" by force
  show ?thesis using hash_sa_buffer_sound[OF assms b] by (simp add: materialized_hash_def b)
qed

lemma with_scratch_sound:
  assumes "prims_ok P" "backends_ok C P B"
  shows "map_option fst (astrobwtv3_with_scratch C P B input scr) = map_option fst (astrobwtv3_full P (be_sais B) input)"
proof (rule prepare_full[OF assms(1), of C input scr])
  fix dl scr' dbg
  assume prep: "astrobwtv3_prepare C P input scr = Some (dl, scr')"
    and full: "\<And>sa. astrobwtv3_full P sa input
        = Some (sha256_sa_i32_le P (sa (take dl (s_data scr'))), dbg\<lparr>d_output := sha256_sa_i32_le P (sa (take dl (s_data scr')))\<rparr>)"
    and dl: "dl \<le> length (s_data scr')" "256 \<le> dl" "dl \<le> u32_max - 100"
    and tail: "c_v114 C \<Longrightarrow> slice dl (dl + 16) (s_data scr') = replicate 16 0 \<and> dl + 16 \<le> length (s_data scr')"
  show ?thesis
  proof (cases "c_v114 C")
    case False
    then show ?thesis using prep full dl backends_okD(1)[OF assms(2)]
      by (auto simp: astrobwtv3_with_scratch_def Let_def)
  next
    case True
    then have p: "prepared dl (scr'\<lparr>s_flags := fl\<rparr>)" "prepared dl scr'" for fl
      using tail dl by (simp_all add: prepared_def)
    note m = materialized_hash_sound[OF assms(2) True p(1)] materialized_hash_sound[OF assms(2) True p(2)]
    obtain h fl where f: "hash_v114_fused_into C B (s_data scr') dl (s_markers scr') (s_flags scr') = (h, fl)"
      by force
    show ?thesis
      using True prep full m f hash_fused_sound[OF assms(2) True p(2), of "s_markers scr'" "s_flags scr'"]
      by (cases h) (auto simp: astrobwtv3_with_scratch_def)
  qed
qed

lemma astrobwtv3_full_some: "prims_ok P \<Longrightarrow> \<exists>r. astrobwtv3_full P sa input = Some r"
  by (rule prepare_full[of P demo_cfg input scratch_new]) auto

text \<open>C1: in every build configuration (plain, \<open>libsais\<close>, \<open>v114\<close> with the Rust or the C++ engine;
  fused or materialized; AVX2 or scalar; any reused scratch), the mining hash always returns and equals the
  verifier's hash with that build's suffix-array engine, and so does hashing with a fresh scratch. Assumed
  and not proved: the engines' own contract, only for the engines the build calls (\<open>libsais\<close> and an
  accepting descriptor engine return the portable engine's array); a plain build assumes nothing of them.\<close>

theorem with_scratch_matches_full:
  assumes "prims_ok P" "backends_ok C P B"
  shows "map_option fst (astrobwtv3_with_scratch C P B input scr) = map_option fst (astrobwtv3_full P (sa32 C B) input)
    \<and> astrobwtv3_hash_only C P B input = map_option fst (astrobwtv3_full P (sa32 C B) input)
    \<and> astrobwtv3_hash_only C P B input \<noteq> None"
  using with_scratch_sound[OF assms] astrobwtv3_full_some[OF assms(1), of "be_sais B" input]
  unfolding sa32_sais[OF assms(2)] by (auto simp: astrobwtv3_hash_only_def)

definition demo_backends :: backends where
  "demo_backends = \<lparr>be_sais = (\<lambda>text. map of_nat [0..<length text]), be_libsais = (\<lambda>text. map of_nat [0..<length text]),
     be_v114_sa = (\<lambda>data n flags sa. (n \<le> length sa, if n \<le> length sa then map of_nat [0..<n] @ drop n sa else sa)),
     be_v114_hash = (\<lambda>data n flags. Some (replicate 32 0)),
     v114_sa_build_fused = (\<lambda>data n m flags k sa cap. (1, cap, map of_nat [0..<length sa])),
     v114_hash_fused = (\<lambda>data n m flags k. (1, replicate 32 0)),
     be_sha256_x2 = (\<lambda>a b. (replicate 32 0, replicate 32 0))\<rparr>"

lemma demo_backends_ok: "backends_ok C demo_prims demo_backends"
  by (simp add: backends_ok_def v114_ok_def v114_cpp_ok_def demo_backends_def demo_prims_def sha256_sa_i32_le_def min_def)

theorem with_scratch_matches_full_witness:
  "astrobwtv3_hash_only (demo_cfg\<lparr>c_v114_cpp := True, c_env_cpp := True\<rparr>) demo_prims demo_backends [1] \<noteq> None
    \<and> astrobwtv3_hash_only demo_cfg demo_prims demo_backends [1] \<noteq> None"
  using with_scratch_matches_full[OF demo_prims_ok demo_backends_ok, of demo_cfg "[1]" scratch_new]
    with_scratch_matches_full[OF demo_prims_ok demo_backends_ok, of "demo_cfg\<lparr>c_v114_cpp := True, c_env_cpp := True\<rparr>" "[1]" scratch_new]
  by blast

lemma build_prepared:
  assumes "prims_ok P" "backends_ok C P B" "c_v114 C"
  obtains dl scr1 used scr2 h where "astrobwtv3_prepare C P input scr = Some (dl, scr1)"
    "build_into C B dl scr1 = (used, scr2)" "astrobwtv3_hash_only C P B input = Some h"
    "hash_sa_buffer P B dl (s_data scr2) used (s_sa scr2) = Some h"
proof (rule prepare_full[OF assms(1), of C input scr])
  fix dl scr' dbg
  assume prep: "astrobwtv3_prepare C P input scr = Some (dl, scr')"
    and full: "\<And>sa. astrobwtv3_full P sa input
        = Some (sha256_sa_i32_le P (sa (take dl (s_data scr'))), dbg\<lparr>d_output := sha256_sa_i32_le P (sa (take dl (s_data scr')))\<rparr>)"
    and dl: "256 \<le> dl" "dl \<le> u32_max - 100"
    and tail: "c_v114 C \<Longrightarrow> slice dl (dl + 16) (s_data scr') = replicate 16 0 \<and> dl + 16 \<le> length (s_data scr')"
  have p: "prepared dl scr'" using tail[OF assms(3)] dl by (simp add: prepared_def)
  obtain used scr2 where b: "build_into C B dl scr' = (used, scr2)" by force
  have "astrobwtv3_hash_only C P B input = Some (sha256_sa_i32_le P (be_sais B (take dl (s_data scr'))))"
    using with_scratch_sound[OF assms(1,2), of input scratch_new] full by (simp add: astrobwtv3_hash_only_def)
  from that[OF prep b this] show thesis using hash_sa_buffer_sound[OF assms(2,3) p b] by simp
qed

lemma x2_sound:
  assumes "prims_ok P" "backends_ok C P B"
  shows "\<exists>ha hb. map_option fst (astrobwtv3_x2 C P B input_a input_b sa sb) = Some (ha, hb)
    \<and> astrobwtv3_hash_only C P B input_a = Some ha \<and> astrobwtv3_hash_only C P B input_b = Some hb"
proof (cases "c_v114 C")
  case False
  have h: "\<exists>h scr'. astrobwtv3_with_scratch C P B i s = Some (h, scr') \<and> astrobwtv3_hash_only C P B i = Some h" for i s
    using with_scratch_sound[OF assms, of i] astrobwtv3_full_some[OF assms(1), of "be_sais B" i]
    by (fastforce simp: astrobwtv3_hash_only_def)
  show ?thesis using h[of input_a sa] h[of input_b sb] False by (auto simp: astrobwtv3_x2_def)
next
  case True
  obtain da a1 ua a2 ha where a: "astrobwtv3_prepare C P input_a sa = Some (da, a1)"
    "build_into C B da a1 = (ua, a2)" "astrobwtv3_hash_only C P B input_a = Some ha"
    "hash_sa_buffer P B da (s_data a2) ua (s_sa a2) = Some ha"
    by (rule build_prepared[OF assms True])
  obtain db b1 ub b2 hb where b: "astrobwtv3_prepare C P input_b sb = Some (db, b1)"
    "build_into C B db b1 = (ub, b2)" "astrobwtv3_hash_only C P B input_b = Some hb"
    "hash_sa_buffer P B db (s_data b2) ub (s_sa b2) = Some hb"
    by (rule build_prepared[OF assms True])
  show ?thesis
    using True a b backends_okD(2)[OF assms(2) True]
    by (auto simp: astrobwtv3_x2_def hash_sa_buffer_def sha256_sa_i32_le_def split: if_splits)
qed

text \<open>Hashing two inputs with the two-lane final SHA-256 gives the two one-lane hashes.\<close>

theorem x2_matches_two_hashes:
  assumes "prims_ok P" "backends_ok C P B"
  shows "\<exists>ha hb. map_option fst (astrobwtv3_x2 C P B input_a input_b sa sb) = Some (ha, hb)
    \<and> astrobwtv3_hash_only C P B input_a = Some ha \<and> astrobwtv3_hash_only C P B input_b = Some hb"
  by (rule x2_sound[OF assms])

theorem x2_matches_two_hashes_witness:
  "\<exists>ha hb. map_option fst (astrobwtv3_x2 demo_cfg demo_prims demo_backends [1] [2] scratch_new scratch_new) = Some (ha, hb)"
  using x2_matches_two_hashes[OF demo_prims_ok demo_backends_ok, of demo_cfg "[1]" "[2]" scratch_new scratch_new] by blast

end
