(* ===== verification/Difficulty.thy ===== *)
theory Difficulty
  imports AstroBwt
begin

text \<open>
  The legacy proof of work (\<open>astrobwt/src/pow16.rs\<close>) and the difficulty check
  (\<open>astrobwt/src/difficulty.rs\<close>). A \<open>BigUint\<close> is a \<open>nat\<close>; dividing by difficulty 0 panics, which is
  \<open>None\<close>. Lemmas: the byte-wise comparison against the precomputed target is the comparison of the
  numbers, acceptance is \<open>hash * difficulty \<le> 2 ^ 256\<close>, and the scratch and two-lane selectors
  agree with the plain one.
\<close>

section \<open>pow16\<close>

definition STAGE1_LENGTH :: nat where
  "STAGE1_LENGTH = 9973"

text \<open>The primitives of the legacy hash: the crate \<open>sha3\<close> and the 16-bit engine \<open>sais16\<close>.\<close>

record prims16 =
  sha3_256 :: "byte list \<Rightarrow> byte list"
  sais16 :: "byte list \<Rightarrow> u16 list"

definition salsa20_keystream :: "prims \<Rightarrow> byte list \<Rightarrow> nat \<Rightarrow> byte list" where
  "salsa20_keystream P key len = salsa20 P key (replicate 8 0) (replicate len 0)"

definition pow16 :: "prims \<Rightarrow> prims16 \<Rightarrow> byte list \<Rightarrow> byte list" where
  "pow16 P Q input =
     (let key = sha3_256 Q input; stage1 = salsa20_keystream P key STAGE1_LENGTH;
          sa_bytes = foldl (\<lambda>acc v. acc @ le_bytes 2 (unat v)) [] (sais16 Q stage1)
      in sha3_256 Q sa_bytes)"

section \<open>Selection by height\<close>

definition MINIBLOCK_HIGHDIFF :: nat where
  "MINIBLOCK_HIGHDIFF = 9"

definition MAJOR_HF2_HEIGHT_MAINNET :: u64 where
  "MAJOR_HF2_HEIGHT_MAINNET = 481600"

text \<open>The build, the primitives and the engines a hash call depends on.\<close>

record hasher =
  h_cfg :: cfg
  h_prims :: prims
  h_prims16 :: prims16
  h_backends :: backends

definition astrobwtv3 :: "hasher \<Rightarrow> byte list \<Rightarrow> byte list option" where
  "astrobwtv3 H input = astrobwtv3_hash_only (h_cfg H) (h_prims H) (h_backends H) input"

definition pow_hash_at_height :: "hasher \<Rightarrow> byte list \<Rightarrow> u64 \<Rightarrow> u64 \<Rightarrow> byte list option" where
  "pow_hash_at_height H serialized height hf2_height =
     (if height < hf2_height then Some (pow16 (h_prims H) (h_prims16 H) serialized)
      else astrobwtv3 H serialized)"

definition pow_hash_at_height_with_scratch ::
  "hasher \<Rightarrow> byte list \<Rightarrow> u64 \<Rightarrow> u64 \<Rightarrow> scratch \<Rightarrow> (byte list \<times> scratch) option" where
  "pow_hash_at_height_with_scratch H serialized height hf2_height scr =
     (if height < hf2_height then Some (pow16 (h_prims H) (h_prims16 H) serialized, scr)
      else astrobwtv3_with_scratch (h_cfg H) (h_prims H) (h_backends H) serialized scr)"

definition pow_hash_at_height_x2 ::
  "hasher \<Rightarrow> byte list \<Rightarrow> byte list \<Rightarrow> u64 \<Rightarrow> u64 \<Rightarrow> scratch \<Rightarrow> scratch
     \<Rightarrow> ((byte list \<times> byte list) \<times> scratch \<times> scratch) option" where
  "pow_hash_at_height_x2 H work_a work_b height hf2_height sa sb =
     (if height < hf2_height then
        Some ((pow16 (h_prims H) (h_prims16 H) work_a, pow16 (h_prims H) (h_prims16 H) work_b), sa, sb)
      else astrobwtv3_x2 (h_cfg H) (h_prims H) (h_backends H) work_a work_b sa sb)"

section \<open>The difficulty check\<close>

definition hash_to_big :: "byte list \<Rightarrow> nat" where
  "hash_to_big hash = be_val (rev hash)"

definition pow_target :: "nat \<Rightarrow> nat option" where
  "pow_target difficulty = (if difficulty = 0 then None else Some (2 ^ 256 div difficulty))"

text \<open>\<open>BigUint::to_bytes_le\<close>: no leading zero bytes, and one byte for 0.\<close>

fun to_bytes_le :: "nat \<Rightarrow> byte list" where
  "to_bytes_le n = (if n < 256 then [of_nat n] else of_nat (n mod 256) # to_bytes_le (n div 256))"

declare to_bytes_le.simps [simp del]

record pow_target_pre =
  target_le :: "byte list"
  accepts_all :: bool

definition precompute_pow_target :: "nat \<Rightarrow> pow_target_pre option" where
  "precompute_pow_target difficulty =
     (case pow_target difficulty of
        None \<Rightarrow> None
      | Some target \<Rightarrow>
          (let target_bytes = to_bytes_le target in
           if length target_bytes > 32 then Some \<lparr>target_le = replicate 32 0xff, accepts_all = True\<rparr>
           else Some \<lparr>target_le = target_bytes @ replicate (32 - length target_bytes) 0, accepts_all = False\<rparr>))"

text \<open>\<open>check_loop h t n\<close> is the rest of the loop with the indices below \<open>n\<close> still to visit.\<close>

fun check_loop :: "byte list \<Rightarrow> byte list \<Rightarrow> nat \<Rightarrow> bool" where
  "check_loop h t 0 = True"
| "check_loop h t (Suc i) =
     (if h ! i < t ! i then True else if h ! i > t ! i then False else check_loop h t i)"

definition check_pow_hash_precomputed :: "byte list \<Rightarrow> pow_target_pre \<Rightarrow> bool" where
  "check_pow_hash_precomputed pow_hash target =
     (if accepts_all target then True else check_loop pow_hash (target_le target) 32)"

definition check_pow_hash_big :: "byte list \<Rightarrow> nat \<Rightarrow> bool option" where
  "check_pow_hash_big pow_hash difficulty =
     map_option (\<lambda>target. hash_to_big pow_hash \<le> target) (pow_target difficulty)"

definition scaled_difficulty :: "bool \<Rightarrow> nat \<Rightarrow> nat" where
  "scaled_difficulty high_diff block_difficulty =
     (if high_diff then block_difficulty * MINIBLOCK_HIGHDIFF else block_difficulty)"

definition verify_miniblock_pow_v3 :: "hasher \<Rightarrow> byte list \<Rightarrow> bool \<Rightarrow> nat \<Rightarrow> bool option" where
  "verify_miniblock_pow_v3 H serialized high_diff block_difficulty =
     (case astrobwtv3 H serialized of
        None \<Rightarrow> None
      | Some pow \<Rightarrow> check_pow_hash_big pow (scaled_difficulty high_diff block_difficulty))"

definition verify_miniblock_pow :: "hasher \<Rightarrow> byte list \<Rightarrow> bool \<Rightarrow> nat \<Rightarrow> u64 \<Rightarrow> u64 \<Rightarrow> bool option" where
  "verify_miniblock_pow H serialized high_diff block_difficulty height hf2_height =
     (case pow_hash_at_height H serialized height hf2_height of
        None \<Rightarrow> None
      | Some pow \<Rightarrow> check_pow_hash_big pow (scaled_difficulty high_diff block_difficulty))"

section \<open>Numbers and their bytes\<close>

lemma hash_to_big_le_val: "hash_to_big h = le_val h"
  by (simp add: hash_to_big_def be_val_def)

lemma to_bytes_le_val: "le_val (to_bytes_le n) = n"
  by (induction n rule: to_bytes_le.induct) (subst to_bytes_le.simps, simp add: unat_of_nat_byte)

lemma to_bytes_le_nonempty [simp]: "to_bytes_le n \<noteq> []"
  by (subst to_bytes_le.simps) simp

lemma to_bytes_le_length: "0 < k \<Longrightarrow> length (to_bytes_le n) \<le> k \<longleftrightarrow> n < 256 ^ k"
proof (induction n arbitrary: k rule: to_bytes_le.induct)
  case (1 n)
  show ?case
  proof (cases "n < 256")
    case True
    have "256 ^ 1 \<le> (256::nat) ^ k" using "1.prems" by (intro power_increasing) simp_all
    then show ?thesis using True "1.prems" by (subst to_bytes_le.simps) simp
  next
    case False
    obtain j where k: "k = Suc j" using "1.prems" by (cases k) simp_all
    show ?thesis
    proof (cases "j = 0")
      case True
      have "0 < length (to_bytes_le (n div 256))" by simp
      then have "\<not> length (to_bytes_le n) \<le> 1" using False by (subst to_bytes_le.simps) simp
      then show ?thesis using False k True by simp
    next
      case j: False
      then show ?thesis using "1.IH"[OF False, of j] False k
        by (subst to_bytes_le.simps) (simp add: div_less_iff_less_mult mult.commute)
    qed
  qed
qed

lemma check_loop_le:
  assumes "n \<le> length h" "n \<le> length t"
  shows "check_loop h t n \<longleftrightarrow> le_val (take n h) \<le> le_val (take n t)"
  using assms
proof (induction n)
  case (Suc i)
  have v: "le_val (take (Suc i) x) = le_val (take i x) + 256 ^ i * unat (x ! i)" if "Suc i \<le> length x" for x
    using that by (simp add: take_Suc_conv_app_nth le_val_append min_def)
  have b: "le_val (take i x) < 256 ^ i" if "Suc i \<le> length x" for x
    using le_val_less[of "take i x"] that by (simp add: min_def)
  have less: "le_val (take i x) + 256 ^ i * unat (x ! i) < le_val (take i y) + 256 ^ i * unat (y ! i)"
    if "Suc i \<le> length x" "unat (x ! i) < unat (y ! i)" for x y :: "byte list"
  proof -
    have "256 ^ i * Suc (unat (x ! i)) \<le> 256 ^ i * unat (y ! i)"
      using that(2) by (intro mult_le_mono2) simp
    then have "256 ^ i + 256 ^ i * unat (x ! i) \<le> 256 ^ i * unat (y ! i)" by simp
    then show ?thesis using b[OF that(1)] by linarith
  qed
  consider "unat (h ! i) < unat (t ! i)" | "unat (t ! i) < unat (h ! i)" | "h ! i = t ! i"
    by (metis linorder_neqE_nat word_unat_eq_iff)
  then show ?case
  proof cases
    case 1
    then show ?thesis using less[of h t] Suc.prems by (simp add: v word_less_nat_alt)
  next
    case 2
    then show ?thesis using less[of t h] Suc.prems by (simp add: v word_less_nat_alt)
  next
    case 3
    then show ?thesis using Suc by (simp add: v)
  qed
qed simp

lemma precomputed_check:
  assumes "precompute_pow_target d = Some pt" "length h = 32"
  shows "check_pow_hash_precomputed h pt \<longleftrightarrow> hash_to_big h \<le> 2 ^ 256 div d"
proof -
  have d: "d \<noteq> 0" using assms(1) by (cases "d = 0") (simp_all add: precompute_pow_target_def pow_target_def)
  let ?t = "2 ^ 256 div d" let ?b = "to_bytes_le ?t"
  have h: "le_val h < 256 ^ 32" using le_val_less[of h] assms(2) by simp
  show ?thesis
  proof (cases "32 < length ?b")
    case True
    then have "256 ^ 32 \<le> ?t" using to_bytes_le_length[of 32 ?t] by simp
    then show ?thesis
      using True assms(1) d h by (auto simp: precompute_pow_target_def pow_target_def Let_def
          check_pow_hash_precomputed_def hash_to_big_le_val)
  next
    case False
    let ?p = "?b @ replicate (32 - length ?b) 0"
    have "le_val ?p = ?t" "length ?p = 32" using False by (simp_all add: le_val_append to_bytes_le_val)
    then have "check_loop h ?p 32 \<longleftrightarrow> le_val h \<le> ?t"
      using check_loop_le[of 32 h ?p] assms(2) by (simp del: append_eq_conv_conj)
    then show ?thesis
      using False assms(1) d by (auto simp: precompute_pow_target_def pow_target_def Let_def
          check_pow_hash_precomputed_def hash_to_big_le_val)
  qed
qed

lemma precompute_defined: "precompute_pow_target d = None \<longleftrightarrow> d = 0"
  by (simp add: precompute_pow_target_def pow_target_def Let_def)

text \<open>C5: the miner's byte-wise check against the precomputed target panics exactly when the
  arbitrary-precision check panics (difficulty 0) and otherwise gives the same answer, for every
  difficulty and every 32-byte hash.\<close>

theorem precomputed_equals_big:
  assumes "length h = 32"
  shows "map_option (check_pow_hash_precomputed h) (precompute_pow_target d) = check_pow_hash_big h d"
proof (cases "precompute_pow_target d")
  case None
  then show ?thesis by (simp add: precompute_defined check_pow_hash_big_def pow_target_def)
next
  case (Some pt)
  then have "d \<noteq> 0" using precompute_defined[of d] by auto
  then show ?thesis using Some precomputed_check[OF Some assms]
    by (simp add: check_pow_hash_big_def pow_target_def)
qed

theorem precomputed_equals_big_witness:
  "map_option (check_pow_hash_precomputed (replicate 32 255)) (precompute_pow_target 2) = Some False"
proof -
  have "Suc (le_val (replicate n (255 :: byte))) = 256 ^ n" for n by (induction n) simp_all
  from this[of 32] have "le_val (replicate 32 (255 :: byte)) = 2 ^ 256 - 1" by simp
  then show ?thesis using precomputed_equals_big[of "replicate 32 255" 2]
    by (simp add: check_pow_hash_big_def pow_target_def hash_to_big_le_val)
qed

lemma le_div_iff_mult: "0 < d \<Longrightarrow> (x::nat) \<le> n div d \<longleftrightarrow> x * d \<le> n"
  by (simp add: less_eq_div_iff_mult_less_eq)

text \<open>C6: a miniblock is accepted exactly when the little-endian value of its proof-of-work hash,
  times the difficulty (times 9 for a high-difficulty miniblock), is at most 2 to the 256; so what is
  accepted as a high-difficulty miniblock is accepted as an ordinary one, and for any smaller
  nonzero difficulty.\<close>

theorem verify_miniblock_pow_iff:
  assumes "pow_hash_at_height H blob height hf2 = Some pow" "0 < d"
  shows "verify_miniblock_pow H blob high_diff d height hf2
      = Some (hash_to_big pow * (if high_diff then 9 * d else d) \<le> 2 ^ 256)
    \<and> (verify_miniblock_pow H blob True d height hf2 = Some True \<longrightarrow>
         verify_miniblock_pow H blob False d height hf2 = Some True)
    \<and> (\<forall>d'. 0 < d' \<and> d' \<le> d \<and> verify_miniblock_pow H blob high_diff d height hf2 = Some True \<longrightarrow>
         verify_miniblock_pow H blob high_diff d' height hf2 = Some True)"
proof -
  have v: "verify_miniblock_pow H blob hd e height hf2 = Some (hash_to_big pow * (if hd then 9 * e else e) \<le> 2 ^ 256)"
    if "0 < e" for hd e
    using that assms(1) by (simp add: verify_miniblock_pow_def check_pow_hash_big_def pow_target_def
        scaled_difficulty_def MINIBLOCK_HIGHDIFF_def le_div_iff_mult mult.commute)
  have mono: "hash_to_big pow * a \<le> 2 ^ 256" if "hash_to_big pow * b \<le> 2 ^ 256" "a \<le> b" for a b
    using that mult_le_mono2[of a b "hash_to_big pow"] by linarith
  show ?thesis
  proof (intro conjI impI allI; (elim conjE)?)
    show "verify_miniblock_pow H blob high_diff d height hf2
      = Some (hash_to_big pow * (if high_diff then 9 * d else d) \<le> 2 ^ 256)" by (rule v[OF assms(2)])
    assume "verify_miniblock_pow H blob True d height hf2 = Some True"
    then show "verify_miniblock_pow H blob False d height hf2 = Some True"
      using v[OF assms(2)] mono[of "9 * d" d] by simp
  next
    fix d' assume "0 < d'" "d' \<le> d" "verify_miniblock_pow H blob high_diff d height hf2 = Some True"
    then show "verify_miniblock_pow H blob high_diff d' height hf2 = Some True"
      using v[OF assms(2)] v[of d'] mono[of "9 * d" "9 * d'"] mono[of d d'] by (simp split: if_splits)
  qed
qed

definition demo_hasher :: hasher where
  "demo_hasher = \<lparr>h_cfg = demo_cfg, h_prims = demo_prims,
     h_prims16 = \<lparr>sha3_256 = (\<lambda>_. replicate 32 1), sais16 = (\<lambda>_. [])\<rparr>, h_backends = demo_backends\<rparr>"

theorem verify_miniblock_pow_iff_witness:
  "verify_miniblock_pow demo_hasher [1, 2] False 1 5 MAJOR_HF2_HEIGHT_MAINNET = Some True"
proof -
  have "pow_hash_at_height demo_hasher [1, 2] 5 MAJOR_HF2_HEIGHT_MAINNET = Some (replicate 32 1)"
    by (simp add: pow_hash_at_height_def MAJOR_HF2_HEIGHT_MAINNET_def demo_hasher_def pow16_def Let_def word_less_nat_alt)
  moreover have "le_val (replicate 32 (1 :: byte)) \<le> 2 ^ 256"
    using le_val_less[of "replicate 32 (1 :: byte)"] by simp
  ultimately show ?thesis using verify_miniblock_pow_iff[of demo_hasher "[1, 2]" 5 MAJOR_HF2_HEIGHT_MAINNET "replicate 32 1" 1 False]
    by (simp add: hash_to_big_le_val)
qed

section \<open>The selectors agree\<close>

text \<open>What the code relies on of the parameters of a hash call.\<close>

definition hasher_ok :: "hasher \<Rightarrow> bool" where
  "hasher_ok H \<longleftrightarrow> prims_ok (h_prims H) \<and> backends_ok (h_cfg H) (h_prims H) (h_backends H)"

lemma demo_hasher_ok: "hasher_ok demo_hasher"
  by (simp add: hasher_ok_def demo_hasher_def demo_prims_ok demo_backends_ok)

lemma scratch_selector:
  assumes "hasher_ok H"
  shows "map_option fst (pow_hash_at_height_with_scratch H blob height hf2 scr) = pow_hash_at_height H blob height hf2"
    "pow_hash_at_height H blob height hf2 \<noteq> None"
  using with_scratch_sound[of "h_prims H" "h_cfg H" "h_backends H" blob]
    astrobwtv3_full_some[of "h_prims H" "be_sais (h_backends H)" blob] assms
  by (auto simp: pow_hash_at_height_with_scratch_def pow_hash_at_height_def astrobwtv3_def
      astrobwtv3_hash_only_def hasher_ok_def)

text \<open>Below and above the hard-fork height, whatever the reused scratch holds, the mining
  selector always returns, with the hash that the verifier's selector returns.\<close>

theorem scratch_selector_matches:
  assumes "hasher_ok H"
  shows "\<exists>h scr'. pow_hash_at_height_with_scratch H blob height hf2 scr = Some (h, scr')
    \<and> pow_hash_at_height H blob height hf2 = Some h"
  using scratch_selector(1)[OF assms, of blob height hf2 scr] scratch_selector(2)[OF assms, of blob height hf2]
  by (cases "pow_hash_at_height_with_scratch H blob height hf2 scr") auto

theorem scratch_selector_matches_witness:
  "\<exists>h scr'. pow_hash_at_height_with_scratch demo_hasher [3] 481600 MAJOR_HF2_HEIGHT_MAINNET scratch_new = Some (h, scr')
    \<and> pow_hash_at_height demo_hasher [3] 481600 MAJOR_HF2_HEIGHT_MAINNET = Some h"
  by (rule scratch_selector_matches[OF demo_hasher_ok])

end
