(* ===== verification/MiniBlock.thy ===== *)
theory MiniBlock
  imports Prelude
begin

text \<open>
  Miniblocks (\<open>block/src/miniblock.rs\<close>): the 48-byte layout with its packed first byte,
  the sanity check, and the collection that groups the non-final miniblocks of a block by
  their key (height and past tips). A Rust array of fixed length is a tuple (\<open>past\<close>,
  \<open>nonce\<close>) or a byte list of that length (\<open>key_hash\<close>); the \<open>HashMap\<close> is an
  association list, whose order nothing observes.
\<close>

section \<open>Data\<close>

definition MINIBLOCK_SIZE :: nat where "MINIBLOCK_SIZE = 48"

record miniblock =
  mbl_version :: byte
  mbl_high_diff :: bool
  mbl_final :: bool
  mbl_past_count :: byte
  mbl_timestamp :: u16
  mbl_height :: u64
  mbl_past :: "u32 \<times> u32"
  mbl_key_hash :: "byte list"
  mbl_flags :: u32
  mbl_nonce :: "u32 \<times> u32 \<times> u32"

record miniblock_key =
  mbk_height :: u64
  mbk_past0 :: u32
  mbk_past1 :: u32

type_synonym mbl_collection = "(miniblock_key \<times> miniblock list) list"

text \<open>The array length Rust's type \<open>[u8; 16]\<close> guarantees.\<close>

definition mbl_typed :: "miniblock \<Rightarrow> bool" where
  "mbl_typed m \<longleftrightarrow> length (mbl_key_hash m) = 16"

section \<open>Operations\<close>

definition get_key :: "miniblock \<Rightarrow> miniblock_key" where
  "get_key m = \<lparr>mbk_height = mbl_height m, mbk_past0 = fst (mbl_past m), mbk_past1 = snd (mbl_past m)\<rparr>"

definition sanity_check :: "miniblock \<Rightarrow> (unit, string) result" where
  "sanity_check m =
     (if mbl_version m \<ge> 16 then Inl ''version not supported''
      else if mbl_past_count m > 2 then Inl ''tips cannot be more than 2''
      else if mbl_past_count m = 0 then Inl ''miniblock must have tips''
      else if mbl_height m \<ge> 0xffffffffff then Inl ''miniblock height not possible''
      else if mbl_past_count m = 2 \<and> fst (mbl_past m) = snd (mbl_past m)
        then Inl ''tips cannot collide''
      else Inr ())"

definition version_byte :: "miniblock \<Rightarrow> byte" where
  "version_byte m =
     (let vb = mbl_version m OR push_bit 6 (mbl_past_count m);
          vb = (if mbl_high_diff m then vb OR 0x10 else vb)
      in if mbl_final m then vb OR 0x20 else vb)"

definition mbl_serialize :: "miniblock \<Rightarrow> byte list" where
  "mbl_serialize m =
     (let (past0, past1) = mbl_past m; (nonce0, nonce1, nonce2) = mbl_nonce m in
      [version_byte m]
      @ u16_be (mbl_timestamp m)
      @ drop 3 (u64_be (mbl_height m))
      @ u32_be past0 @ u32_be past1
      @ mbl_key_hash m
      @ u32_be (mbl_flags m)
      @ u32_be nonce0 @ u32_be nonce1 @ u32_be nonce2)"

definition mbl_deserialize :: "byte list \<Rightarrow> (miniblock, string) result" where
  "mbl_deserialize buf =
     (if length buf < MINIBLOCK_SIZE then Inl ''miniblock: short buffer''
      else let version = buf ! 0 AND 0x0f in
        if version \<noteq> 1 then Inl ''miniblock: unknown version''
        else
          let m = \<lparr>mbl_version = version,
                   mbl_high_diff = (buf ! 0 AND 0x10 > 0),
                   mbl_final = (buf ! 0 AND 0x20 > 0),
                   mbl_past_count = drop_bit 6 (buf ! 0),
                   mbl_timestamp = be_u16 [buf ! 1, buf ! 2],
                   mbl_height = be_u64 (slice 0 8 buf) AND 0x000000ffffffffff,
                   mbl_past = (be_u32 (slice 8 12 buf), be_u32 (slice 12 16 buf)),
                   mbl_key_hash = slice 16 32 buf,
                   mbl_flags = be_u32 (slice 32 36 buf),
                   mbl_nonce = (be_u32 (slice 36 40 buf), be_u32 (slice 40 44 buf),
                                be_u32 (slice 44 48 buf))\<rparr>
          in rbind (sanity_check m) (\<lambda>_. Inr m))"

text \<open>\<open>MiniBlock::get_hash\<close>, over the SHA3-256 of the crypto crate.\<close>

definition mbl_get_hash :: "(byte list \<Rightarrow> byte list) \<Rightarrow> miniblock \<Rightarrow> byte list" where
  "mbl_get_hash sha3_256 m = sha3_256 (mbl_serialize m)"

subsection \<open>The collection\<close>

definition collection_new :: mbl_collection where
  "collection_new = []"

definition collection_count :: "mbl_collection \<Rightarrow> nat" where
  "collection_count c = sum_list (map (\<lambda>(k, v). length v) c)"

definition is_collision :: "mbl_collection \<Rightarrow> miniblock \<Rightarrow> bool" where
  "is_collision c m = (case map_of c (get_key m) of None \<Rightarrow> False | Some v \<Rightarrow> list_ex (\<lambda>x. x = m) v)"

text \<open>\<open>entry(k).or_default().push(m)\<close>\<close>

fun entry_push :: "'k \<Rightarrow> 'v \<Rightarrow> ('k \<times> 'v list) list \<Rightarrow> ('k \<times> 'v list) list" where
  "entry_push k m [] = [(k, [m])]"
| "entry_push k m ((k', v) # c) = (if k = k' then (k', v @ [m]) # c else (k', v) # entry_push k m c)"

definition insert_miniblock :: "mbl_collection \<Rightarrow> miniblock \<Rightarrow> (mbl_collection, string) result" where
  "insert_miniblock c m =
     (if mbl_final m then Inl ''Final cannot be inserted''
      else if is_collision c m then Inl ''collision''
      else Inr (entry_push (get_key m) m c))"

text \<open>\<open>let _ = collection.insert_miniblock(mbl.clone())\<close>: the error is dropped
  (\<open>verify_miniblocks\<close>).\<close>

definition insert_ignore :: "mbl_collection \<Rightarrow> miniblock \<Rightarrow> mbl_collection" where
  "insert_ignore c m = (case insert_miniblock c m of Inl e \<Rightarrow> c | Inr c' \<Rightarrow> c')"

section \<open>The 48-byte layout\<close>

lemma mbl_serialize_length [simp, len_simps]:
  "mbl_typed m \<Longrightarrow> length (mbl_serialize m) = 48"
  by (simp add: mbl_serialize_def mbl_typed_def split: prod.splits)

lemma slice_serialize:
  assumes "mbl_typed m"
  shows "mbl_serialize m = [version_byte m] @ u16_be (mbl_timestamp m) @ be_bytes 5 (unat (mbl_height m))
     @ u32_be (fst (mbl_past m)) @ u32_be (snd (mbl_past m)) @ mbl_key_hash m @ u32_be (mbl_flags m)
     @ u32_be (fst (mbl_nonce m)) @ u32_be (fst (snd (mbl_nonce m))) @ u32_be (snd (snd (mbl_nonce m)))"
  using drop_be_bytes[of 3 5 "unat (mbl_height m)"]
  by (simp add: mbl_serialize_def u64_be_def split: prod.splits)

subsection \<open>The packed first byte\<close>

lemma version_byte_unpack:
  assumes "mbl_version m < 16" "mbl_past_count m \<le> 3"
  shows "version_byte m AND 0x0f = mbl_version m"
    and "drop_bit 6 (version_byte m) = mbl_past_count m"
    and "(version_byte m AND 0x10 > 0) = mbl_high_diff m"
    and "(version_byte m AND 0x20 > 0) = mbl_final m"
proof -
  have v: "n < 4" if "bit (mbl_version m) n" for n
    using bit_less_pow2[OF that, of 4] assms(1) by (simp add: word_less_nat_alt)
  have p: "n < 2" if "bit (mbl_past_count m) n" for n
    using bit_less_pow2[OF that, of 2] assms(2) by (simp add: word_le_nat_alt)
  have bits: "bit (version_byte m) n =
      (n < 8 \<and> (bit (mbl_version m) n \<or> (6 \<le> n \<and> bit (mbl_past_count m) (n - 6))
        \<or> (n = 4 \<and> mbl_high_diff m) \<or> (n = 5 \<and> mbl_final m)))" for n
    using bit_push_bit_iff[of 4 "1::byte" n] bit_push_bit_iff[of 5 "1::byte" n] v[of n]
    by (auto simp: version_byte_def Let_def bit_simps)
  have f: "bit (0x0f :: int) n = (n < 4)" for n
    using bit_mask_iff[of 4 n, where 'a = int] by (simp add: mask_eq_exp_minus_1)
  show "version_byte m AND 0x0f = mbl_version m"
    by (rule bit_word_eqI) (use v in \<open>auto simp: bits bit_and_iff f\<close>)
  show "drop_bit 6 (version_byte m) = mbl_past_count m"
    by (rule bit_word_eqI) (use v p in \<open>force simp: bits bit_simps\<close>)
  show "(version_byte m AND 0x10 > 0) = mbl_high_diff m"
    using and_pow2_gt_0[of "version_byte m" 4] v[of 4] by (auto simp: bits)
  show "(version_byte m AND 0x20 > 0) = mbl_final m"
    using and_pow2_gt_0[of "version_byte m" 5] v[of 5] by (auto simp: bits)
qed

subsection \<open>Round trips\<close>

lemma height_mask:
  assumes "length xs = 3" "unat h < 2 ^ 40"
  shows "be_u64 (xs @ be_bytes 5 (unat h)) AND 0x000000ffffffffff = h"
proof -
  have "(0x000000ffffffffff :: u64) = mask 40" by (simp add: mask_eq_exp_minus_1)
  then have "be_u64 (xs @ be_bytes 5 (unat h)) AND 0x000000ffffffffff
      = take_bit 40 (of_nat (be_val xs * 2 ^ 40 + unat h))"
    using assms(2) by (simp add: be_u64_def be_val_append be_val_be_bytes take_bit_eq_mask)
  also have "\<dots> = h"
  proof (rule word_unat_eq_iff[THEN iffD2])
    have "unat (take_bit 40 (of_nat (be_val xs * 2 ^ 40 + unat h) :: u64))
        = (be_val xs * 2 ^ 40 + unat h) mod 2 ^ 64 mod 2 ^ 40"
      by (subst unsigned_take_bit_eq) (simp add: unat_of_nat take_bit_eq_mod del: of_nat_add of_nat_mult)
    also have "\<dots> = (be_val xs * 2 ^ 40 + unat h) mod 2 ^ 40"
      by (rule mod_mod_cancel) (simp add: le_imp_power_dvd)
    finally show "unat (take_bit 40 (of_nat (be_val xs * 2 ^ 40 + unat h) :: u64)) = unat h"
      using assms(2) by simp
  qed
  finally show ?thesis .
qed

lemma sanity_check_Inr:
  "sanity_check m = Inr u \<Longrightarrow>
     mbl_version m < 16 \<and> mbl_past_count m \<le> 3 \<and> unat (mbl_height m) < 2 ^ 40"
  by (auto simp: sanity_check_def not_le word_less_nat_alt word_le_nat_alt split: if_splits)

lemma mbl_deserialize_serialize:
  assumes "mbl_typed m" "sanity_check m = Inr ()" "mbl_version m = 1"
  shows "mbl_deserialize (mbl_serialize m @ rest) = Inr m"
proof -
  note s = sanity_check_Inr[OF assms(2)]
  note vb = version_byte_unpack[of m]
  have kh: "length (mbl_key_hash m) = 16" using assms(1) by (simp add: mbl_typed_def)
  obtain a b where ts: "u16_be (mbl_timestamp m) = [a, b]"
    using length_uN_be(1)[of "mbl_timestamp m"] by (auto simp: numeral_2_eq_2 length_Suc_conv simp del: length_uN_be)
  then have ts': "be_u16 [a, b] = mbl_timestamp m" using be_uN_round(1) by metis
  have h: "be_u64 (version_byte m # a # b # be_bytes 5 (unat (mbl_height m))) AND 0x000000ffffffffff
      = mbl_height m"
    using height_mask[of "[version_byte m, a, b]"] s by simp
  have e: "\<lparr>mbl_version = 1, mbl_high_diff = mbl_high_diff m, mbl_final = mbl_final m,
      mbl_past_count = mbl_past_count m, mbl_timestamp = mbl_timestamp m, mbl_height = mbl_height m,
      mbl_past = mbl_past m, mbl_key_hash = mbl_key_hash m, mbl_flags = mbl_flags m,
      mbl_nonce = mbl_nonce m\<rparr> = m"
    by (rule miniblock.equality) (simp_all add: assms(3))
  show ?thesis
    using s vb assms kh ts'
    by (simp add: mbl_deserialize_def slice_serialize ts MINIBLOCK_SIZE_def slice_def h Let_def e)
qed

lemma version_byte_repack:
  assumes "mbl_version m = b AND 0x0f" "mbl_past_count m = drop_bit 6 b"
    and "mbl_high_diff m = (b AND 0x10 > 0)" "mbl_final m = (b AND 0x20 > 0)"
  shows "version_byte m = b"
proof (rule bit_word_eqI)
  fix n assume "n < LENGTH(8)"
  then have n: "n < 8" by simp
  have f: "bit (0x0f :: byte) n = (n < 4)"
    using bit_mask_iff[of 4 n, where 'a = byte] n
    by (simp add: mask_eq_exp_minus_1 min_def del: bit_numeral_word_iff)
  have cs: "n < 4 \<or> n = 4 \<or> n = 5 \<or> 6 \<le> n" by arith
  have hd: "mbl_high_diff m = bit b 4" using and_pow2_gt_0[of b 4] assms(3) by simp
  have fi: "mbl_final m = bit b 5" using and_pow2_gt_0[of b 5] assms(4) by simp
  have b16: "bit (16 :: byte) n = (n = 4)" "bit (32 :: byte) n = (n = 5)"
    using bit_push_bit_iff[of 4 "1::byte" n] bit_push_bit_iff[of 5 "1::byte" n] n
    by (auto simp: bit_1_iff simp del: bit_numeral_word_iff)
  show "bit (version_byte m) n = bit b n"
    using n cs
    by (auto simp: version_byte_def Let_def assms(1,2) hd fi bit_or_iff bit_and_iff
        bit_push_bit_iff bit_drop_bit_eq b16 f
        simp del: bit_numeral_word_iff)
qed

lemma height_repack:
  assumes "length xs = 3" "length ys = 5"
  shows "be_bytes 5 (unat (be_u64 (xs @ ys) AND 0x000000ffffffffff)) = ys"
proof -
  have m: "(0x000000ffffffffff :: u64) = mask 40" by (simp add: mask_eq_exp_minus_1)
  have l: "be_val ys < 2 ^ 40" using be_val_less[of ys] assms(2) by simp
  have "unat (be_u64 (xs @ ys) AND 0x000000ffffffffff) = be_val (xs @ ys) mod 2 ^ 64 mod 2 ^ 40"
    unfolding m take_bit_eq_mask[symmetric]
    by (subst unsigned_take_bit_eq) (simp add: be_u64_def unat_of_nat take_bit_eq_mod del: of_nat_add of_nat_mult)
  also have "\<dots> = be_val (xs @ ys) mod 2 ^ 40"
    by (rule mod_mod_cancel) (simp add: le_imp_power_dvd)
  also have "\<dots> = be_val ys" using assms l by (simp add: be_val_append)
  finally show ?thesis using assms(2) by (simp add: be_bytes_be_val)
qed

lemma mbl_serialize_deserialize:
  assumes "mbl_deserialize buf = Inr m"
  shows "mbl_serialize m = take 48 buf" "mbl_typed m" "sanity_check m = Inr ()" "mbl_version m = 1"
proof -
  have len: "48 \<le> length buf" and v: "buf ! 0 AND 0x0f = 1"
    and m: "m = \<lparr>mbl_version = buf ! 0 AND 0x0f,
                   mbl_high_diff = (buf ! 0 AND 0x10 > 0),
                   mbl_final = (buf ! 0 AND 0x20 > 0),
                   mbl_past_count = drop_bit 6 (buf ! 0),
                   mbl_timestamp = be_u16 [buf ! 1, buf ! 2],
                   mbl_height = be_u64 (slice 0 8 buf) AND 0x000000ffffffffff,
                   mbl_past = (be_u32 (slice 8 12 buf), be_u32 (slice 12 16 buf)),
                   mbl_key_hash = slice 16 32 buf,
                   mbl_flags = be_u32 (slice 32 36 buf),
                   mbl_nonce = (be_u32 (slice 36 40 buf), be_u32 (slice 40 44 buf),
                                be_u32 (slice 44 48 buf))\<rparr>"
    and sc: "sanity_check m = Inr ()"
    using assms by (auto simp: mbl_deserialize_def MINIBLOCK_SIZE_def Let_def split: if_splits)
  show ty: "mbl_typed m" using len by (simp add: m mbl_typed_def)
  show "sanity_check m = Inr ()" by (rule sc)
  show "mbl_version m = 1" using v by (simp add: m)
  have b0: "slice 0 1 buf = [buf ! 0]" and b12: "slice 1 3 buf = [buf ! 1, buf ! 2]"
    using len by (cases buf; cases "tl buf"; cases "tl (tl buf)"; auto simp: slice_def)+
  have h: "be_bytes 5 (unat (mbl_height m)) = slice 3 8 buf"
    using len slice_append_slice[of 0 3 8 buf] height_repack[of "slice 0 3 buf" "slice 3 8 buf"]
    by (simp add: m)
  have vb: "version_byte m = buf ! 0" by (rule version_byte_repack) (simp_all add: m)
  have ts: "u16_be (mbl_timestamp m) = [buf ! 1, buf ! 2]" by (simp add: m uN_be_round)
  have "mbl_serialize m = slice 0 1 buf @ slice 1 3 buf @ slice 3 8 buf @ slice 8 12 buf @ slice 12 16 buf
      @ slice 16 32 buf @ slice 32 36 buf @ slice 36 40 buf @ slice 40 44 buf @ slice 44 48 buf"
    unfolding slice_serialize[OF ty] h vb b0 b12 ts
    using len by (simp add: uN_be_round m)
  also have "\<dots> = slice 0 48 buf" by (simp add: slice_append_slice)
  finally show "mbl_serialize m = take 48 buf" by (simp add: slice_def)
qed

section \<open>The collection\<close>

text \<open>
  Every key occurs once, its run is non-empty, holds no duplicates and only non-final
  miniblocks with that key.
\<close>

definition coll_inv :: "mbl_collection \<Rightarrow> bool" where
  "coll_inv c \<longleftrightarrow> distinct (map fst c) \<and>
     (\<forall>(k, v) \<in> set c. v \<noteq> [] \<and> distinct v \<and> (\<forall>m \<in> set v. get_key m = k \<and> \<not> mbl_final m))"

definition members :: "mbl_collection \<Rightarrow> miniblock set" where
  "members c = (\<Union>(k, v) \<in> set c. set v)"

lemma coll_inv_new [simp]: "coll_inv collection_new" "members collection_new = {}"
    "collection_count collection_new = 0"
  by (simp_all add: coll_inv_def collection_new_def members_def collection_count_def)

lemma fst_entry_push: "fst ` set (entry_push k m c) = insert k (fst ` set c)"
  by (induction k m c rule: entry_push.induct) auto

lemma distinct_entry_push: "distinct (map fst c) \<Longrightarrow> distinct (map fst (entry_push k m c))"
proof (induction k m c rule: entry_push.induct)
  case (2 k m k' v c)
  then show ?case using fst_entry_push[of k m c] by (auto simp: image_iff)
qed simp

lemma set_entry_push:
  "distinct (map fst c) \<Longrightarrow>
   set (entry_push k m c) = {(k', v) \<in> set c. k' \<noteq> k} \<union>
     {(k, (case map_of c k of None \<Rightarrow> [] | Some v \<Rightarrow> v) @ [m])}"
proof (induction k m c rule: entry_push.induct)
  case (2 k m k' v c)
  show ?case
  proof (cases "k = k'")
    case True
    then have "k \<notin> fst ` set c" using "2.prems" by simp
    then have "{(k'', w) \<in> set c. k'' \<noteq> k} = set c" by force
    with True show ?thesis by auto
  next
    case False
    then show ?thesis using "2.IH" "2.prems" by auto
  qed
qed simp

lemma count_entry_push: "collection_count (entry_push k m c) = Suc (collection_count c)"
  by (induction k m c rule: entry_push.induct) (auto simp: collection_count_def)

lemma is_collision_iff:
  assumes "coll_inv c"
  shows "is_collision c m \<longleftrightarrow> m \<in> members c"
proof (cases "map_of c (get_key m)")
  case None
  then have "get_key m \<notin> fst ` set c" by (simp add: map_of_eq_None_iff)
  then have "m \<notin> members c" using assms by (force simp: coll_inv_def members_def)
  with None show ?thesis by (simp add: is_collision_def)
next
  case (Some v)
  then have v: "(get_key m, v) \<in> set c" by (rule map_of_SomeD)
  have "m \<in> set v" if "(k, w) \<in> set c" "m \<in> set w" for k w
  proof -
    have "k = get_key m" using assms that by (auto simp: coll_inv_def)
    then show ?thesis using that v assms Some by (auto simp: coll_inv_def)
  qed
  then have "m \<in> members c \<longleftrightarrow> m \<in> set v" using v by (auto simp: members_def)
  with Some show ?thesis by (simp add: is_collision_def list_ex_iff)
qed

lemma insert_miniblock_ok_iff:
  "coll_inv c \<Longrightarrow> is_ok (insert_miniblock c m) \<longleftrightarrow> \<not> mbl_final m \<and> m \<notin> members c"
  by (simp add: insert_miniblock_def is_collision_iff)

lemma insert_miniblock_ok:
  assumes "coll_inv c" "insert_miniblock c m = Inr c'"
  shows "coll_inv c'" "members c' = insert m (members c)" "collection_count c' = Suc (collection_count c)"
proof -
  have nf: "\<not> mbl_final m" and nc: "\<not> is_collision c m" and c': "c' = entry_push (get_key m) m c"
    using assms(2) by (auto simp: insert_miniblock_def split: if_splits)
  have d: "distinct (map fst c)" using assms(1) by (simp add: coll_inv_def)
  have old: "v \<noteq> [] \<and> distinct v \<and> (\<forall>x \<in> set v. get_key x = k \<and> \<not> mbl_final x)"
    if "(k, v) \<in> set c" for k v using assms(1) that by (auto simp: coll_inv_def)
  have old2: "get_key x = k \<and> \<not> mbl_final x" if "map_of c k = Some v" "x \<in> set v" for k v x
    using old[OF map_of_SomeD[OF that(1)]] that(2) by blast
  show "collection_count c' = Suc (collection_count c)" by (simp add: c' count_entry_push)
  show "members c' = insert m (members c)"
    unfolding c' members_def set_entry_push[OF d]
    using d by (force split: option.splits dest: map_of_SomeD simp: map_of_eq_None_iff)
  have "m \<notin> set v" if "map_of c (get_key m) = Some v" for v
    using nc that by (simp add: is_collision_def list_ex_iff)
  then show "coll_inv c'"
    unfolding c' coll_inv_def set_entry_push[OF d]
    using distinct_entry_push[OF d] nf
    by (auto split: option.splits dest: map_of_SomeD old old2)
qed

lemma insert_ignore_step:
  assumes "coll_inv c"
  shows "coll_inv (insert_ignore c m)"
    and "members (insert_ignore c m) = members c \<union> (if mbl_final m then {} else {m})"
    and "collection_count (insert_ignore c m) =
      collection_count c + (if mbl_final m \<or> m \<in> members c then 0 else 1)"
  using assms insert_miniblock_ok_iff[OF assms, of m] insert_miniblock_ok[OF assms, of m]
  by (auto simp: insert_ignore_def split: sum.splits if_splits)

lemma insert_ignore_all:
  assumes "coll_inv c" "collection_count c = card (members c)" "finite (members c)"
  shows "coll_inv (foldl insert_ignore c ms) \<and>
     members (foldl insert_ignore c ms) = members c \<union> {m \<in> set ms. \<not> mbl_final m} \<and>
     collection_count (foldl insert_ignore c ms) = card (members c \<union> {m \<in> set ms. \<not> mbl_final m})"
  using assms
proof (induction ms arbitrary: c)
  case Nil
  then show ?case by simp
next
  case (Cons m ms)
  note step = insert_ignore_step[OF Cons.prems(1), of m]
  have "collection_count (insert_ignore c m) = card (members (insert_ignore c m))"
    using step Cons.prems(2,3) by (auto simp: insert_absorb)
  moreover have "finite (members (insert_ignore c m))" using step(2) Cons.prems(3) by simp
  ultimately have IH: "coll_inv (foldl insert_ignore (insert_ignore c m) ms) \<and>
     members (foldl insert_ignore (insert_ignore c m) ms) = members (insert_ignore c m) \<union> {m \<in> set ms. \<not> mbl_final m} \<and>
     collection_count (foldl insert_ignore (insert_ignore c m) ms)
       = card (members (insert_ignore c m) \<union> {m \<in> set ms. \<not> mbl_final m})"
    by (rule Cons.IH[OF step(1)])
  have "members (insert_ignore c m) \<union> {m \<in> set ms. \<not> mbl_final m}
      = members c \<union> {x \<in> set (m # ms). \<not> mbl_final x}"
    using step(2) by auto
  with IH show ?case by simp
qed

text \<open>C7: a miniblock that passes the sanity check and has the network version 1 is recovered from its
  48-byte serialization, whatever follows it in the buffer; and a buffer that deserializes
  is reproduced by serializing the result (its first 48 bytes), so the encoding is canonical.\<close>

theorem miniblock_roundtrip:
  "(mbl_typed m \<and> sanity_check m = Inr () \<and> mbl_version m = 1 \<longrightarrow>
      length (mbl_serialize m) = MINIBLOCK_SIZE \<and> mbl_deserialize (mbl_serialize m @ rest) = Inr m) \<and>
   (mbl_deserialize buf = Inr m' \<longrightarrow>
      mbl_serialize m' = take MINIBLOCK_SIZE buf \<and> mbl_typed m' \<and> sanity_check m' = Inr () \<and> mbl_version m' = 1)"
  using mbl_deserialize_serialize[of m rest] mbl_serialize_deserialize[of buf m']
  by (auto simp: MINIBLOCK_SIZE_def)

definition sample_miniblock :: miniblock where
  "sample_miniblock = \<lparr>mbl_version = 1, mbl_high_diff = True, mbl_final = False, mbl_past_count = 1,
     mbl_timestamp = 0x1234, mbl_height = 7000000, mbl_past = (0xAABBCCDD, 0),
     mbl_key_hash = replicate 16 7, mbl_flags = 5, mbl_nonce = (1, 2, 3)\<rparr>"

theorem miniblock_roundtrip_witness:
  "mbl_typed sample_miniblock \<and> sanity_check sample_miniblock = Inr () \<and>
   mbl_deserialize (mbl_serialize sample_miniblock @ [9]) = Inr sample_miniblock \<and>
   mbl_serialize sample_miniblock = take MINIBLOCK_SIZE (mbl_serialize sample_miniblock @ [9])"
proof -
  have h: "mbl_typed sample_miniblock" "sanity_check sample_miniblock = Inr ()" "mbl_version sample_miniblock = 1"
    by (simp_all add: sample_miniblock_def mbl_typed_def sanity_check_def word_le_nat_alt)
  have d: "mbl_deserialize (mbl_serialize sample_miniblock @ [9]) = Inr sample_miniblock"
    using h miniblock_roundtrip[of sample_miniblock "[9]" "[]" sample_miniblock] by blast
  show ?thesis
    using h d miniblock_roundtrip[of sample_miniblock "[9]" "mbl_serialize sample_miniblock @ [9]" sample_miniblock]
    by blast
qed

end
