(* ===== verification/Worker.thy ===== *)
theory Worker
  imports Difficulty MiniBlock
begin

text \<open>
  The mining loop (\<open>src/worker.rs\<close>) and its messages (\<open>src/job.rs\<close>): stamping a job with random
  bytes and the thread number, the nonce counter, the hash counter that is flushed in batches, and
  the one-lane and two-lane grinding loops with their error results. Other threads change the job
  counter and the exit flag at any time, so every load of them is an input of the model: the loop
  consumes a list of observations and is \<open>Running\<close> when the list ends. Strings are their bytes.
  The crates \<open>hex\<close> and \<open>num_bigint\<close> are parameters.
\<close>

section \<open>Messages\<close>

record get_block_template_result =
  j_jobid :: "byte list"
  j_blocktemplate_blob :: "byte list"
  j_blockhashing_blob :: "byte list"
  j_difficulty :: "byte list"
  j_difficultyuint64 :: u64
  j_height :: u64
  j_prev_hash :: "byte list"
  j_epochmilli :: u64
  j_blocks :: u64
  j_miniblocks :: u64
  j_rejected :: u64
  j_lasterror :: "byte list"
  j_status :: "byte list"

record submit_block_params =
  sb_jobid :: "byte list"
  sb_mbl_blob :: "byte list"

text \<open>\<open>hex::decode_to_slice\<close>, \<open>hex::encode\<close> and \<open>BigUint::parse_bytes(_, 10)\<close>.\<close>

record ext =
  hex_decode :: "byte list \<Rightarrow> byte list option"
  hex_encode :: "byte list \<Rightarrow> byte list"
  parse_decimal :: "byte list \<Rightarrow> nat option"

text \<open>What the code relies on: decoding succeeds only for twice the bytes, and inverts encoding.\<close>

definition ext_ok :: "ext \<Rightarrow> bool" where
  "ext_ok X \<longleftrightarrow> (\<forall>s w. hex_decode X s = Some w \<longrightarrow> length s = 2 * length w)
     \<and> (\<forall>w. hex_decode X (hex_encode X w) = Some w)"

section \<open>The work buffer\<close>

definition HASH_COUNTER_FLUSH_INTERVAL :: nat where
  "HASH_COUNTER_FLUSH_INTERVAL = 64"

definition work_height :: "byte list \<Rightarrow> u64" where
  "work_height work = be_u64 (take 8 work) AND 0x000000ffffffffff"

definition stamp_job :: "byte list \<Rightarrow> byte list \<Rightarrow> byte \<Rightarrow> byte list" where
  "stamp_job work random12 tid =
     (take (MINIBLOCK_SIZE - 12) work @ random12)[MINIBLOCK_SIZE - 1 := tid]"

definition put_counter :: "byte list \<Rightarrow> u32 \<Rightarrow> byte list" where
  "put_counter work i =
     take (MINIBLOCK_SIZE - 5) work @ u32_be i @ drop (MINIBLOCK_SIZE - 1) work"

section \<open>Grinding\<close>

datatype grind_error = BadBlob | BadVersion byte | BadDifficulty

text \<open>The variables of a grinding call: the buffer, the thread's counter, the unflushed hashes, the
  shared hash counter, the scratch, and the buffers handed to \<open>on_share\<close> so far.\<close>

record gst =
  g_work :: "byte list"
  g_i :: u32
  g_pending :: u64
  g_counter :: u64
  g_scratch :: scratch
  g_shares :: "byte list list"

definition flush_hashes :: "'a gst_scheme \<Rightarrow> 'a gst_scheme" where
  "flush_hashes st =
     (if g_pending st \<noteq> 0 then st\<lparr>g_counter := g_counter st + g_pending st, g_pending := 0\<rparr> else st)"

definition record_hash :: "'a gst_scheme \<Rightarrow> 'a gst_scheme" where
  "record_hash st =
     (let st1 = st\<lparr>g_pending := g_pending st + 1\<rparr> in
      if g_pending st1 \<ge> of_nat HASH_COUNTER_FLUSH_INTERVAL then flush_hashes st1 else st1)"

text \<open>Preparation of a job: the buffer, the height and the target, or an error.\<close>

definition grind_setup ::
  "ext \<Rightarrow> get_block_template_result \<Rightarrow> byte list \<Rightarrow> byte
     \<Rightarrow> (byte list \<times> u64 \<times> pow_target_pre, grind_error) result" where
  "grind_setup X job random12 tid =
     (let blob = j_blockhashing_blob job in
      if length blob \<noteq> MINIBLOCK_SIZE * 2 then Inl BadBlob
      else
        (case hex_decode X blob of
           None \<Rightarrow> Inl BadBlob
         | Some work0 \<Rightarrow>
             (let height = work_height work0; work = stamp_job work0 random12 tid in
              case parse_decimal X (j_difficulty job) of
                None \<Rightarrow> Inl BadDifficulty
              | Some diff \<Rightarrow>
                  (if diff = 0 then Inl BadDifficulty
                   else
                     (let target = the (precompute_pow_target diff) in
                      if work ! 0 AND 0xf \<noteq> 1 then Inl (BadVersion (work ! 0 AND 0x1f))
                      else Inr (work, height, target))))))"

text \<open>A nonce that clears the target is hashed again with the canonical pipeline before it is
  handed out; \<open>None\<close> is a panic of that pipeline.\<close>

definition canonical_ok :: "hasher \<Rightarrow> u64 \<Rightarrow> u64 \<Rightarrow> pow_target_pre \<Rightarrow> byte list \<Rightarrow> bool option" where
  "canonical_ok H height hf2_height target work =
     (if height \<ge> hf2_height then
        map_option (\<lambda>(canon, _). check_pow_hash_precomputed canon target)
          (astrobwtv3_full (h_prims H) (sa32 (h_cfg H) (h_backends H)) work)
      else Some True)"

definition submit_if_canonical ::
  "hasher \<Rightarrow> u64 \<Rightarrow> u64 \<Rightarrow> pow_target_pre \<Rightarrow> byte list \<Rightarrow> 'a gst_scheme \<Rightarrow> 'a gst_scheme option" where
  "submit_if_canonical H height hf2_height target work st =
     map_option (\<lambda>ok. if ok then st\<lparr>g_shares := g_shares st @ [work]\<rparr> else st)
       (canonical_ok H height hf2_height target work)"

text \<open>One iteration: the new state and whether the nonce cleared the target (only then is the exit
  flag loaded).\<close>

definition grind_iter :: "hasher \<Rightarrow> u64 \<Rightarrow> u64 \<Rightarrow> pow_target_pre \<Rightarrow> gst \<Rightarrow> (gst \<times> bool) option" where
  "grind_iter H height hf2_height target st =
     (let i = g_i st + 1; work = put_counter (g_work st) i in
      case pow_hash_at_height_with_scratch H work height hf2_height (g_scratch st) of
        None \<Rightarrow> None
      | Some (pow, scr) \<Rightarrow>
          (let st1 = record_hash (st\<lparr>g_i := i, g_work := work, g_scratch := scr\<rparr>) in
           if check_pow_hash_precomputed pow target
           then map_option (\<lambda>st2. (st2, True)) (submit_if_canonical H height hf2_height target work st1)
           else Some (st1, False)))"

text \<open>The \<open>for\<close> loop with \<open>n\<close> iterations left; \<open>ex k\<close> is what a load of the exit flag with \<open>k\<close>
  iterations left would return.\<close>

fun grind_for :: "hasher \<Rightarrow> u64 \<Rightarrow> u64 \<Rightarrow> pow_target_pre \<Rightarrow> (nat \<Rightarrow> bool) \<Rightarrow> nat \<Rightarrow> gst \<Rightarrow> gst option" where
  "grind_for H height hf2_height target ex 0 st = Some st"
| "grind_for H height hf2_height target ex (Suc n) st =
     (case grind_iter H height hf2_height target st of
        None \<Rightarrow> None
      | Some (st1, found) \<Rightarrow>
          (if found \<and> ex n then Some st1 else grind_for H height hf2_height target ex n st1))"

text \<open>What the loads of one pass of the \<open>while\<close> loop see: the job counter and the exit flag of the
  condition, and the exit flag inside the \<open>for\<close> loop.\<close>

record obs =
  ob_job_counter :: u64
  ob_exit :: bool
  ob_inner_exit :: "nat \<Rightarrow> bool"

datatype 'a outcome = Panicked | Failed grind_error | Running 'a | Finished 'a

fun grind_while :: "(obs \<Rightarrow> 'a gst_scheme \<Rightarrow> 'a gst_scheme option) \<Rightarrow> u64 \<Rightarrow> obs list \<Rightarrow> 'a gst_scheme \<Rightarrow> 'a gst_scheme outcome" where
  "grind_while pass local_job_counter [] st = Running st"
| "grind_while pass local_job_counter (ob # obs) st =
     (if local_job_counter = ob_job_counter ob \<and> \<not> ob_exit ob then
        (case pass ob st of
           None \<Rightarrow> Panicked
         | Some st1 \<Rightarrow> grind_while pass local_job_counter obs st1)
      else Finished (flush_hashes st))"

definition grind_job_with_scratch ::
  "ext \<Rightarrow> hasher \<Rightarrow> get_block_template_result \<Rightarrow> u64 \<Rightarrow> byte list \<Rightarrow> byte \<Rightarrow> u64 \<Rightarrow> obs list
     \<Rightarrow> u32 \<Rightarrow> u64 \<Rightarrow> scratch \<Rightarrow> gst outcome" where
  "grind_job_with_scratch X H job local_job_counter random12 tid hf2_height obs i counter scr =
     (case grind_setup X job random12 tid of
        Inl e \<Rightarrow> Failed e
      | Inr (work, height, target) \<Rightarrow>
          grind_while
            (\<lambda>ob. grind_for H height hf2_height target (ob_inner_exit ob) HASH_COUNTER_FLUSH_INTERVAL)
            local_job_counter obs
            \<lparr>g_work = work, g_i = i, g_pending = 0, g_counter = counter, g_scratch = scr, g_shares = []\<rparr>)"

section \<open>Two lanes\<close>

record gst2 = gst +
  g_work_b :: "byte list"
  g_scratch_b :: scratch

definition submit_lane ::
  "hasher \<Rightarrow> u64 \<Rightarrow> u64 \<Rightarrow> pow_target_pre \<Rightarrow> byte list \<times> byte list \<Rightarrow> gst2 \<Rightarrow> gst2 option" where
  "submit_lane H height hf2_height target wp st =
     (let (work, pow) = wp in
      if check_pow_hash_precomputed pow target then submit_if_canonical H height hf2_height target work st
      else Some st)"

definition grind_iter_x2 :: "hasher \<Rightarrow> u64 \<Rightarrow> u64 \<Rightarrow> pow_target_pre \<Rightarrow> gst2 \<Rightarrow> gst2 option" where
  "grind_iter_x2 H height hf2_height target st =
     (let i = g_i st + 1; work_a = put_counter (g_work st) i; work_b = put_counter (g_work_b st) (i + 1) in
      case pow_hash_at_height_x2 H work_a work_b height hf2_height (g_scratch st) (g_scratch_b st) of
        None \<Rightarrow> None
      | Some ((pow_a, pow_b), sa, sb) \<Rightarrow>
          (let st1 = record_hash (record_hash
                 (st\<lparr>g_i := i + 1, g_work := work_a, g_work_b := work_b, g_scratch := sa, g_scratch_b := sb\<rparr>)) in
           case submit_lane H height hf2_height target (work_a, pow_a) st1 of
             None \<Rightarrow> None
           | Some st2 \<Rightarrow> submit_lane H height hf2_height target (work_b, pow_b) st2))"

text \<open>Here the exit flag is loaded after every iteration.\<close>

fun grind_for_x2 :: "hasher \<Rightarrow> u64 \<Rightarrow> u64 \<Rightarrow> pow_target_pre \<Rightarrow> (nat \<Rightarrow> bool) \<Rightarrow> nat \<Rightarrow> gst2 \<Rightarrow> gst2 option" where
  "grind_for_x2 H height hf2_height target ex 0 st = Some st"
| "grind_for_x2 H height hf2_height target ex (Suc n) st =
     (case grind_iter_x2 H height hf2_height target st of
        None \<Rightarrow> None
      | Some st1 \<Rightarrow> (if ex n then Some st1 else grind_for_x2 H height hf2_height target ex n st1))"

definition grind_job_x2_with_scratch ::
  "ext \<Rightarrow> hasher \<Rightarrow> get_block_template_result \<Rightarrow> u64 \<Rightarrow> byte list \<Rightarrow> byte \<Rightarrow> u64 \<Rightarrow> obs list
     \<Rightarrow> u32 \<Rightarrow> u64 \<Rightarrow> scratch \<Rightarrow> scratch \<Rightarrow> gst2 outcome" where
  "grind_job_x2_with_scratch X H job local_job_counter random12 tid hf2_height obs i counter scr_a scr_b =
     (case grind_setup X job random12 tid of
        Inl e \<Rightarrow> Failed e
      | Inr (work, height, target) \<Rightarrow>
          grind_while
            (\<lambda>ob. grind_for_x2 H height hf2_height target (ob_inner_exit ob) (HASH_COUNTER_FLUSH_INTERVAL div 2))
            local_job_counter obs
            \<lparr>g_work = work, g_i = i, g_pending = 0, g_counter = counter, g_scratch = scr_a, g_shares = [],
             g_work_b = work, g_scratch_b = scr_b\<rparr>)"

text \<open>What \<open>on_share\<close> of \<open>mine_thread\<close> sends to the connection thread.\<close>

definition share_message :: "ext \<Rightarrow> get_block_template_result \<Rightarrow> byte list \<Rightarrow> submit_block_params" where
  "share_message X myjob work = \<lparr>sb_jobid = j_jobid myjob, sb_mbl_blob = hex_encode X work\<rparr>"

section \<open>The work buffer: lemmas\<close>

lemma length_put_counter [simp, len_simps]: "length w = 48 \<Longrightarrow> length (put_counter w i) = 48"
  by (simp add: put_counter_def MINIBLOCK_SIZE_def)

lemma put_counter_twice [simp]: "length w = 48 \<Longrightarrow> put_counter (put_counter w i) j = put_counter w j"
  by (simp add: put_counter_def MINIBLOCK_SIZE_def)

lemma put_counter_nth:
  "length w = 48 \<Longrightarrow> k < 43 \<or> k = 47 \<Longrightarrow> put_counter w i ! k = w ! k"
  by (auto simp: put_counter_def MINIBLOCK_SIZE_def nth_append)

lemma put_counter_field: "length w = 48 \<Longrightarrow> slice 43 47 (put_counter w i) = u32_be i"
  by (simp add: put_counter_def MINIBLOCK_SIZE_def slice_def)

lemma put_counter_inj: "length w = 48 \<Longrightarrow> length w' = 48 \<Longrightarrow> put_counter w i = put_counter w' j \<Longrightarrow> i = j"
  by (metis put_counter_field be_uN_round(2))

lemma length_stamp_job [simp, len_simps]:
  "length w = 48 \<Longrightarrow> length r = 12 \<Longrightarrow> length (stamp_job w r tid) = 48"
  by (simp add: stamp_job_def MINIBLOCK_SIZE_def)

lemma stamp_job_nth:
  assumes "length w = 48" "length r = 12"
  shows "k < 36 \<Longrightarrow> stamp_job w r tid ! k = w ! k"
    "36 \<le> k \<Longrightarrow> k < 47 \<Longrightarrow> stamp_job w r tid ! k = r ! (k - 36)"
    "stamp_job w r tid ! 47 = tid"
  using assms by (simp_all add: stamp_job_def MINIBLOCK_SIZE_def nth_append)

lemma work_height_cong: "take 8 w = take 8 w' \<Longrightarrow> work_height w = work_height w'"
  by (simp add: work_height_def)

text \<open>What a nonce's buffer holds, byte by byte.\<close>

lemma stamped_work:
  assumes "length w = 48" "length r = 12"
  shows "take 36 (put_counter (stamp_job w r tid) i) = take 36 w"
    "slice 36 43 (put_counter (stamp_job w r tid) i) = take 7 r"
    "slice 43 47 (put_counter (stamp_job w r tid) i) = u32_be i"
    "put_counter (stamp_job w r tid) i ! 47 = tid"
proof -
  show "take 36 (put_counter (stamp_job w r tid) i) = take 36 w"
    using assms by (intro nth_equalityI) (simp_all add: put_counter_nth stamp_job_nth)
  show "slice 36 43 (put_counter (stamp_job w r tid) i) = take 7 r"
    using assms by (intro nth_equalityI) (simp_all add: slice_def put_counter_nth stamp_job_nth)
  show "slice 43 47 (put_counter (stamp_job w r tid) i) = u32_be i"
    using assms by (simp add: put_counter_field)
  show "put_counter (stamp_job w r tid) i ! 47 = tid"
    using assms by (simp add: put_counter_nth stamp_job_nth)
qed

lemma stamped_work_append:
  assumes "length w = 48" "length r = 12"
  shows "put_counter (stamp_job w r tid) i = take 36 w @ take 7 r @ u32_be i @ [tid]"
proof -
  have "take 43 (stamp_job w r tid) = take 36 w @ take 7 r"
    using assms by (simp add: stamp_job_def MINIBLOCK_SIZE_def)
  moreover have "drop 47 (stamp_job w r tid) = [stamp_job w r tid ! 47]"
    using assms Cons_nth_drop_Suc[of 47 "stamp_job w r tid"] by simp
  ultimately show ?thesis using assms by (simp add: put_counter_def MINIBLOCK_SIZE_def stamp_job_nth)
qed

text \<open>every buffer a worker hashes keeps the first 36 bytes of the job, carries seven of the
  worker's random bytes, the big-endian counter and the thread number; so two workers never hash the same
  buffer for a job, nor does one worker for different counter values.\<close>

theorem work_buffers_disjoint:
  assumes "length w = 48" "length r = 12" "length r' = 12"
  shows "put_counter (stamp_job w r tid) i = take 36 w @ take 7 r @ u32_be i @ [tid]
    \<and> (put_counter (stamp_job w r tid) i = put_counter (stamp_job w r' tid') i' \<longrightarrow> tid = tid' \<and> i = i')
    \<and> work_height (put_counter (stamp_job w r tid) i) = work_height w"
proof (intro conjI impI)
  let ?p = "put_counter (stamp_job w r tid) i"
  show "?p = take 36 w @ take 7 r @ u32_be i @ [tid]" by (rule stamped_work_append[OF assms(1,2)])
  note s = stamped_work[OF assms(1,2), of tid i]
  have "take 8 ?p = take 8 w" using arg_cong[OF s(1), of "take 8"] by (simp add: min_def)
  then show "work_height ?p = work_height w" by (rule work_height_cong)
next
  assume eq: "put_counter (stamp_job w r tid) i = put_counter (stamp_job w r' tid') i'"
  show "tid = tid'" using stamped_work(4)[OF assms(1,2), of tid i] stamped_work(4)[OF assms(1,3), of tid' i'] eq by simp
  show "i = i'" using put_counter_inj[OF _ _ eq] assms by simp
qed

theorem work_buffers_disjoint_witness:
  "put_counter (stamp_job (replicate 48 1) (replicate 12 2) 3) 4 =
     replicate 36 1 @ replicate 7 2 @ u32_be 4 @ [3]"
  using work_buffers_disjoint[of "replicate 48 1" "replicate 12 2" "replicate 12 2" 3 4 3 4] by simp

section \<open>Counting hashes\<close>

lemma record_hash_simps [simp]:
  "g_work (record_hash st) = g_work st" "g_i (record_hash st) = g_i st"
  "g_scratch (record_hash st) = g_scratch st" "g_shares (record_hash st) = g_shares st"
  "gst.more (record_hash st) = gst.more st"
  by (simp_all add: record_hash_def flush_hashes_def Let_def)

lemma flush_hashes_simps [simp]:
  "g_work (flush_hashes st) = g_work st" "g_i (flush_hashes st) = g_i st"
  "g_scratch (flush_hashes st) = g_scratch st" "g_shares (flush_hashes st) = g_shares st"
  "g_pending (flush_hashes st) = 0" "g_counter (flush_hashes st) = g_counter st + g_pending st"
  by (simp_all add: flush_hashes_def)

lemma record_hash_total:
  "g_counter (record_hash st) + g_pending (record_hash st) = g_counter st + g_pending st + 1"
  by (simp add: record_hash_def flush_hashes_def Let_def algebra_simps)

lemma record_hash_pending:
  assumes "unat (g_pending st) < 64"
  shows "unat (g_pending (record_hash st)) < 64"
proof -
  have "unat (g_pending st + 1) = unat (g_pending st) + 1"
    using assms by (simp add: unat_word_ariths)
  then show ?thesis
    using assms by (simp add: record_hash_def Let_def HASH_COUNTER_FLUSH_INTERVAL_def word_le_nat_alt)
qed

lemma submit_if_canonical_simps:
  assumes "submit_if_canonical H height hf2 target work st = Some st'"
  shows "g_work st' = g_work st" "g_i st' = g_i st" "g_pending st' = g_pending st"
    "g_counter st' = g_counter st" "g_scratch st' = g_scratch st" "gst.more st' = gst.more st"
  using assms by (auto simp: submit_if_canonical_def split: if_splits)

section \<open>The grinding loop over any pass\<close>

text \<open>The interface between the \<open>while\<close> loop and the body it repeats: the body keeps an invariant that
  flushing the hash counter keeps too. Both grinding loops are instances.\<close>

locale grind_pass =
  fixes pass :: "obs \<Rightarrow> 'a gst_scheme \<Rightarrow> 'a gst_scheme option"
    and inv :: "'a gst_scheme \<Rightarrow> bool"
  assumes pass_inv: "inv st \<Longrightarrow> pass ob st = Some st' \<Longrightarrow> inv st'"
    and flush_inv: "inv st \<Longrightarrow> inv (flush_hashes st)"
begin

lemma while_inv:
  assumes "inv st" "grind_while pass l obs st = Finished st' \<or> grind_while pass l obs st = Running st'"
  shows "inv st'"
  using assms
proof (induction obs arbitrary: st)
  case (Cons ob obs)
  then show ?case by (auto intro: flush_inv pass_inv split: if_splits option.splits)
qed simp

lemma while_finished_pending: "grind_while pass l obs st = Finished st' \<Longrightarrow> g_pending st' = 0"
  by (induction obs arbitrary: st) (auto split: if_splits option.splits)

end

locale grind_pass_total = grind_pass +
  assumes pass_some: "inv st \<Longrightarrow> \<exists>st'. pass ob st = Some st'"
begin

lemma while_not_panicked: "inv st \<Longrightarrow> grind_while pass l obs st \<noteq> Panicked"
proof (induction obs arbitrary: st)
  case (Cons ob obs)
  obtain st' where "pass ob st = Some st'" using pass_some[OF Cons.prems] by blast
  then show ?case using Cons pass_inv by auto
qed simp

text \<open>The loop ends at the first observation of another job counter or of the exit flag.\<close>

lemma while_finishes:
  assumes "inv st" "\<exists>ob\<in>set obs. ob_job_counter ob \<noteq> l \<or> ob_exit ob"
  shows "\<exists>st'. grind_while pass l obs st = Finished st'"
  using assms
proof (induction obs arbitrary: st)
  case (Cons ob obs)
  obtain st' where p: "pass ob st = Some st'" using pass_some[OF Cons.prems(1)] by blast
  have i: "inv st'" using pass_inv[OF Cons.prems(1) p] .
  show ?case
  proof (cases "l = ob_job_counter ob \<and> \<not> ob_exit ob")
    case True
    then have "\<exists>st''. grind_while pass l obs st' = Finished st''" using Cons.IH[OF i] Cons.prems(2) by auto
    then show ?thesis using p True by auto
  next
    case False
    then show ?thesis by auto
  qed
qed simp

end

section \<open>What both loops keep\<close>

text \<open>A share: some nonce of this job whose canonical hash clears the target.\<close>

definition share_ok :: "hasher \<Rightarrow> u64 \<Rightarrow> u64 \<Rightarrow> pow_target_pre \<Rightarrow> byte list \<Rightarrow> byte list \<Rightarrow> bool" where
  "share_ok H height hf2 target w0 w \<longleftrightarrow> (\<exists>i. w = put_counter w0 i)
     \<and> (if height \<ge> hf2
        then \<exists>canon dbg. astrobwtv3_full (h_prims H) (sa32 (h_cfg H) (h_backends H)) w = Some (canon, dbg)
               \<and> check_pow_hash_precomputed canon target
        else check_pow_hash_precomputed (pow16 (h_prims H) (h_prims16 H) w) target)"

definition lane_inv ::
  "hasher \<Rightarrow> u64 \<Rightarrow> u64 \<Rightarrow> pow_target_pre \<Rightarrow> byte list \<Rightarrow> u32 \<Rightarrow> u64 \<Rightarrow> 'a gst_scheme \<Rightarrow> bool" where
  "lane_inv H height hf2 target w0 i0 c0 st \<longleftrightarrow>
     length (g_work st) = 48 \<and> put_counter (g_work st) = put_counter w0
     \<and> list_all (share_ok H height hf2 target w0) (g_shares st)
     \<and> ucast (g_counter st + g_pending st - c0) = g_i st - i0
     \<and> unat (g_pending st) < 64"

lemma lane_inv_flush: "lane_inv H height hf2 target w0 i0 c0 st \<Longrightarrow> lane_inv H height hf2 target w0 i0 c0 (flush_hashes st)"
  by (simp add: lane_inv_def)

lemma ucast_u64_add1: "(ucast (x + 1 :: u64) :: u32) = ucast x + 1"
proof -
  have "unat (ucast (x + 1 :: u64) :: u32) = (unat x + 1) mod 2 ^ 64 mod 2 ^ 32"
    by (simp add: unat_ucast unat_word_ariths)
  also have "\<dots> = (unat x + 1) mod 2 ^ 32" by (rule mod_mod_cancel) simp
  also have "\<dots> = unat (ucast x + 1 :: u32)" by (simp add: unat_ucast unat_word_ariths mod_Suc_eq)
  finally show ?thesis by (simp add: word_unat_eq_iff)
qed

lemma submit_sound:
  assumes "submit_if_canonical H height hf2 target w st = Some st'" "w = put_counter w0 i"
    "height < hf2 \<Longrightarrow> check_pow_hash_precomputed (pow16 (h_prims H) (h_prims16 H) w) target"
    "list_all (share_ok H height hf2 target w0) (g_shares st)"
  shows "list_all (share_ok H height hf2 target w0) (g_shares st')"
  using assms by (auto simp: submit_if_canonical_def canonical_ok_def share_ok_def not_le split: if_splits)

lemma scratch_selector_pow16:
  "pow_hash_at_height_with_scratch H w height hf2 scr = Some (pow, scr') \<Longrightarrow> height < hf2
     \<Longrightarrow> pow = pow16 (h_prims H) (h_prims16 H) w"
  by (simp add: pow_hash_at_height_with_scratch_def)

text \<open>One more hash with the next counter value.\<close>

lemma lane_inv_hash:
  assumes "lane_inv H height hf2 target w0 i0 c0 st" "g_counter st' + g_pending st' = g_counter st + g_pending st + 1"
    "g_i st' = g_i st + 1" "g_work st' = put_counter (g_work st) j" "unat (g_pending st') < 64" "g_shares st' = g_shares st"
  shows "lane_inv H height hf2 target w0 i0 c0 st'"
proof -
  have "g_counter st' + g_pending st' - c0 = (g_counter st + g_pending st - c0) + 1" using assms(2) by (simp add: algebra_simps)
  then have "ucast (g_counter st' + g_pending st' - c0) = (ucast (g_counter st + g_pending st - c0) :: u32) + 1"
    by (simp only: ucast_u64_add1)
  moreover have "put_counter (put_counter (g_work st) j) = put_counter w0"
  proof
    fix x
    show "put_counter (put_counter (g_work st) j) x = put_counter w0 x"
      using assms(1) put_counter_twice[of "g_work st" j x] unfolding lane_inv_def by metis
  qed
  moreover have "length (g_work st') = 48" 
    unfolding assms(4) using assms(1) by (intro length_put_counter) (simp add: lane_inv_def)
  ultimately show ?thesis using assms(1,3,5,6) by (simp add: lane_inv_def assms(4)[symmetric])
qed

lemma lane_inv_submit:
  assumes "lane_inv H height hf2 target w0 i0 c0 st" "submit_if_canonical H height hf2 target w st = Some st'"
    "w = put_counter w0 i" "height < hf2 \<Longrightarrow> check_pow_hash_precomputed (pow16 (h_prims H) (h_prims16 H) w) target"
  shows "lane_inv H height hf2 target w0 i0 c0 st'"
  using submit_sound[OF assms(2,3,4)] assms(1) submit_if_canonical_simps[OF assms(2)]
  by (simp add: lane_inv_def)

lemma grind_iter_inv:
  assumes "lane_inv H height hf2 target w0 i0 c0 st" "grind_iter H height hf2 target st = Some (st', found)"
  shows "lane_inv H height hf2 target w0 i0 c0 st'"
proof -
  let ?i = "g_i st + 1" let ?w = "put_counter (g_work st) ?i"
  obtain pow scr where pow: "pow_hash_at_height_with_scratch H ?w height hf2 (g_scratch st) = Some (pow, scr)"
    using assms(2) by (auto simp: grind_iter_def Let_def split: option.splits)
  let ?st1 = "record_hash (st\<lparr>g_i := ?i, g_work := ?w, g_scratch := scr\<rparr>)"
  have inv1: "lane_inv H height hf2 target w0 i0 c0 ?st1"
    using record_hash_total[of "st\<lparr>g_i := ?i, g_work := ?w, g_scratch := scr\<rparr>"] assms(1)
      record_hash_pending[of "st\<lparr>g_i := ?i, g_work := ?w, g_scratch := scr\<rparr>"]
    by (intro lane_inv_hash[OF assms(1)]) (simp_all add: lane_inv_def)
  show ?thesis
  proof (cases "check_pow_hash_precomputed pow target")
    case True
    then have s: "submit_if_canonical H height hf2 target ?w ?st1 = Some st'"
      using assms(2) pow by (auto simp: grind_iter_def Let_def)
    have w: "?w = put_counter w0 ?i" using assms(1) by (simp add: lane_inv_def)
    show ?thesis using scratch_selector_pow16[OF pow] True by (intro lane_inv_submit[OF inv1 s w]) simp
  next
    case False
    then show ?thesis using assms(2) pow inv1 by (simp add: grind_iter_def Let_def)
  qed
qed

lemma grind_for_inv:
  "lane_inv H height hf2 target w0 i0 c0 st \<Longrightarrow> grind_for H height hf2 target ex n st = Some st'
     \<Longrightarrow> lane_inv H height hf2 target w0 i0 c0 st'"
  by (induction n arbitrary: st) (auto split: option.splits if_splits dest: grind_iter_inv)

interpretation one_lane: grind_pass
  "\<lambda>ob. grind_for H height hf2 target (ob_inner_exit ob) n" "lane_inv H height hf2 target w0 i0 c0"
  for H height hf2 target n w0 i0 c0
  by unfold_locales (auto intro: grind_for_inv lane_inv_flush)

section \<open>Two lanes keep the same\<close>

definition lane_inv2 ::
  "hasher \<Rightarrow> u64 \<Rightarrow> u64 \<Rightarrow> pow_target_pre \<Rightarrow> byte list \<Rightarrow> u32 \<Rightarrow> u64 \<Rightarrow> gst2 \<Rightarrow> bool" where
  "lane_inv2 H height hf2 target w0 i0 c0 st \<longleftrightarrow> lane_inv H height hf2 target w0 i0 c0 st
     \<and> length (g_work_b st) = 48 \<and> put_counter (g_work_b st) = put_counter w0"

lemma x2_selector_pow16:
  "pow_hash_at_height_x2 H a b height hf2 sa sb = Some ((pa, pb), sa', sb') \<Longrightarrow> height < hf2
     \<Longrightarrow> pa = pow16 (h_prims H) (h_prims16 H) a \<and> pb = pow16 (h_prims H) (h_prims16 H) b"
  by (simp add: pow_hash_at_height_x2_def)

lemma gst2_more: "gst.more st' = gst.more st \<Longrightarrow> g_work_b st' = g_work_b st \<and> g_scratch_b st' = g_scratch_b st"
  for st st' :: gst2
  by (cases st; cases st') simp

lemma submit_lane_inv:
  assumes "lane_inv2 H height hf2 target w0 i0 c0 st" "submit_lane H height hf2 target (w, pow) st = Some st'"
    "w = put_counter w0 i" "height < hf2 \<Longrightarrow> pow = pow16 (h_prims H) (h_prims16 H) w"
  shows "lane_inv2 H height hf2 target w0 i0 c0 st'"
proof (cases "check_pow_hash_precomputed pow target")
  case True
  then have s: "submit_if_canonical H height hf2 target w st = Some st'" using assms(2) by (simp add: submit_lane_def)
  have "lane_inv H height hf2 target w0 i0 c0 st'"
    using assms(1,4) True by (intro lane_inv_submit[OF _ s assms(3)]) (simp_all add: lane_inv2_def)
  then show ?thesis using assms(1) gst2_more[OF submit_if_canonical_simps(6)[OF s]] by (simp add: lane_inv2_def)
next
  case False
  then show ?thesis using assms(1,2) by (simp add: submit_lane_def)
qed

lemma record_hash_lane2 [simp]:
  "g_work_b (record_hash st) = g_work_b st" "g_scratch_b (record_hash st) = g_scratch_b st" for st :: gst2
  using gst2_more[of "record_hash st" st] by simp_all

lemma record_hash_g_i: "record_hash (st\<lparr>g_i := x\<rparr>) = (record_hash st)\<lparr>g_i := x\<rparr>"
  by (simp add: record_hash_def flush_hashes_def Let_def)

lemma flush_hashes_lane2 [simp]: "g_work_b (flush_hashes st) = g_work_b st"
  by (simp add: flush_hashes_def)

lemma grind_iter_x2_inv:
  assumes "lane_inv2 H height hf2 target w0 i0 c0 st" "grind_iter_x2 H height hf2 target st = Some st'"
  shows "lane_inv2 H height hf2 target w0 i0 c0 st'"
proof -
  let ?i = "g_i st + 1" let ?a = "put_counter (g_work st) ?i" and ?b = "put_counter (g_work_b st) (?i + 1)"
  obtain pa pb sa sb where pow: "pow_hash_at_height_x2 H ?a ?b height hf2 (g_scratch st) (g_scratch_b st) = Some ((pa, pb), sa, sb)"
    using assms(2) by (auto simp: grind_iter_x2_def Let_def split: option.splits)
  let ?s0 = "st\<lparr>g_i := ?i, g_work := ?a, g_work_b := ?b, g_scratch := sa, g_scratch_b := sb\<rparr>"
  let ?s1 = "record_hash ?s0"
  let ?st1 = "record_hash (record_hash (st\<lparr>g_i := ?i + 1, g_work := ?a, g_work_b := ?b, g_scratch := sa, g_scratch_b := sb\<rparr>))"
  have i0: "lane_inv H height hf2 target w0 i0 c0 st" and wb: "length (g_work_b st) = 48" "put_counter (g_work_b st) = put_counter w0"
    using assms(1) by (simp_all add: lane_inv2_def)
  have i1: "lane_inv H height hf2 target w0 i0 c0 ?s1"
    using record_hash_total[of ?s0] record_hash_pending[of ?s0] i0
    by (intro lane_inv_hash[OF i0]) (simp_all add: lane_inv_def)
  have lp: "length (g_work st) = 48" "unat (g_pending ?s1) < 64" using i0 i1 by (simp_all only: lane_inv_def)
  have "?st1 = record_hash (record_hash (?s0\<lparr>g_i := ?i + 1\<rparr>))" by (cases st) simp
  then have st1: "?st1 = (record_hash ?s1)\<lparr>g_i := ?i + 1\<rparr>" by (simp only: record_hash_g_i)
  have "lane_inv H height hf2 target w0 i0 c0 ?st1"
    unfolding st1 using record_hash_total[of ?s1] record_hash_pending[of ?s1] lp
    by (intro lane_inv_hash[OF i1, where j = ?i]) simp_all
  moreover have "put_counter ?b = put_counter w0"
    using wb put_counter_twice[OF wb(1)] by (metis ext)
  moreover have "length ?b = 48" using wb(1) by (rule length_put_counter)
  ultimately have inv1: "lane_inv2 H height hf2 target w0 i0 c0 ?st1" by (simp add: lane_inv2_def)
  obtain st2 where a: "submit_lane H height hf2 target (?a, pa) ?st1 = Some st2"
    and b: "submit_lane H height hf2 target (?b, pb) st2 = Some st'"
    using assms(2) pow by (auto simp: grind_iter_x2_def Let_def split: option.splits)
  have eqs: "?a = put_counter w0 ?i" "?b = put_counter w0 (?i + 1)" using i0 wb by (simp_all add: lane_inv_def)
  have "lane_inv2 H height hf2 target w0 i0 c0 st2"
    using x2_selector_pow16[OF pow] by (intro submit_lane_inv[OF inv1 a eqs(1)]) simp
  from submit_lane_inv[OF this b eqs(2)] show ?thesis using x2_selector_pow16[OF pow] by simp
qed

lemma grind_for_x2_inv:
  "lane_inv2 H height hf2 target w0 i0 c0 st \<Longrightarrow> grind_for_x2 H height hf2 target ex n st = Some st'
     \<Longrightarrow> lane_inv2 H height hf2 target w0 i0 c0 st'"
  by (induction n arbitrary: st) (auto split: option.splits if_splits dest: grind_iter_x2_inv)

lemma lane_inv2_flush: "lane_inv2 H height hf2 target w0 i0 c0 st \<Longrightarrow> lane_inv2 H height hf2 target w0 i0 c0 (flush_hashes st)"
  by (simp add: lane_inv2_def lane_inv_flush)

interpretation two_lanes: grind_pass
  "\<lambda>ob. grind_for_x2 H height hf2 target (ob_inner_exit ob) n" "lane_inv2 H height hf2 target w0 i0 c0"
  for H height hf2 target n w0 i0 c0
  by unfold_locales (auto intro: grind_for_x2_inv lane_inv2_flush)

section \<open>Properties of grinding\<close>

lemma grind_setup_Inr:
  assumes "grind_setup X job random12 tid = Inr (work, height, target)"
  obtains work0 diff where "hex_decode X (j_blockhashing_blob job) = Some work0" "length (j_blockhashing_blob job) = 96"
    "work = stamp_job work0 random12 tid" "height = work_height work0"
    "parse_decimal X (j_difficulty job) = Some diff" "diff \<noteq> 0" "precompute_pow_target diff = Some target"
    "work ! 0 AND 0xf = 1"
proof -
  obtain work0 where w0: "hex_decode X (j_blockhashing_blob job) = Some work0" "length (j_blockhashing_blob job) = 96"
    using assms by (auto simp: grind_setup_def Let_def MINIBLOCK_SIZE_def split: if_splits option.splits)
  obtain diff where d: "parse_decimal X (j_difficulty job) = Some diff" "diff \<noteq> 0"
    using assms w0 by (auto simp: grind_setup_def Let_def MINIBLOCK_SIZE_def split: if_splits option.splits)
  obtain t where t: "precompute_pow_target diff = Some t" using precompute_defined[of diff] d(2) by blast
  show thesis
    using assms w0 d t
    by (intro that[OF w0 _ _ d]) (auto simp: grind_setup_def Let_def MINIBLOCK_SIZE_def split: if_splits)
qed

lemma lane_inv_start:
  assumes "length work = 48"
  shows "lane_inv H height hf2 target work i c
    \<lparr>g_work = work, g_i = i, g_pending = 0, g_counter = c, g_scratch = scr, g_shares = [], \<dots> = m\<rparr>"
  using assms by (simp add: lane_inv_def)

text \<open>The buffers handed to \<open>on_share\<close> by a call.\<close>

fun shares_of :: "'a gst_scheme outcome \<Rightarrow> byte list list" where
  "shares_of (Running st) = g_shares st"
| "shares_of (Finished st) = g_shares st"
| "shares_of _ = []"

lemma shares_of_state: "w \<in> set (shares_of r) \<Longrightarrow> \<exists>st. (r = Finished st \<or> r = Running st) \<and> w \<in> set (g_shares st)"
  by (cases r) auto

lemma grind_setup_length:
  assumes "ext_ok X" "length random12 = 12" "grind_setup X job random12 tid = Inr (work, height, target)"
  shows "length work = 48"
proof -
  obtain work0 where w: "hex_decode X (j_blockhashing_blob job) = Some work0" "length (j_blockhashing_blob job) = 96"
      "work = stamp_job work0 random12 tid"
    using grind_setup_Inr[OF assms(3)] by blast
  then have "length work0 = 48" using assms(1) unfolding ext_ok_def by fastforce
  then show ?thesis using w(3) assms(2) by simp
qed

lemma one_lane_state:
  assumes "ext_ok X" "length random12 = 12"
    "r = grind_job_with_scratch X H job l random12 tid hf2 obs i c scr" "r = Finished st \<or> r = Running st"
  obtains work height target where "grind_setup X job random12 tid = Inr (work, height, target)"
    "lane_inv H height hf2 target work i c st" "r = Finished st \<Longrightarrow> g_pending st = 0"
proof -
  obtain work height target where s: "grind_setup X job random12 tid = Inr (work, height, target)"
    using assms(3,4) by (auto simp: grind_job_with_scratch_def split: sum.splits)
  have run: "r = grind_while (\<lambda>ob. grind_for H height hf2 target (ob_inner_exit ob) HASH_COUNTER_FLUSH_INTERVAL) l obs
      \<lparr>g_work = work, g_i = i, g_pending = 0, g_counter = c, g_scratch = scr, g_shares = []\<rparr>"
    using assms(3) s by (simp add: grind_job_with_scratch_def)
  show thesis
  proof (rule that[OF s])
    show "lane_inv H height hf2 target work i c st"
      using one_lane.while_inv[OF lane_inv_start[OF grind_setup_length[OF assms(1,2) s]] assms(4)[unfolded run]] .
    assume "r = Finished st"
    then show "g_pending st = 0" unfolding run by (rule one_lane.while_finished_pending)
  qed
qed

lemma two_lanes_state:
  assumes "ext_ok X" "length random12 = 12"
    "r = grind_job_x2_with_scratch X H job l random12 tid hf2 obs i c scr_a scr_b" "r = Finished st \<or> r = Running st"
  obtains work height target where "grind_setup X job random12 tid = Inr (work, height, target)"
    "lane_inv H height hf2 target work i c st" "r = Finished st \<Longrightarrow> g_pending st = 0"
proof -
  obtain work height target where s: "grind_setup X job random12 tid = Inr (work, height, target)"
    using assms(3,4) by (auto simp: grind_job_x2_with_scratch_def split: sum.splits)
  let ?s0 = "\<lparr>g_work = work, g_i = i, g_pending = 0, g_counter = c, g_scratch = scr_a, g_shares = [],
      g_work_b = work, g_scratch_b = scr_b\<rparr>"
  have run: "r = grind_while (\<lambda>ob. grind_for_x2 H height hf2 target (ob_inner_exit ob) (HASH_COUNTER_FLUSH_INTERVAL div 2)) l obs ?s0"
    using assms(3) s by (simp add: grind_job_x2_with_scratch_def)
  have "lane_inv2 H height hf2 target work i c ?s0"
    using grind_setup_length[OF assms(1,2) s] by (simp add: lane_inv2_def lane_inv_start)
  from two_lanes.while_inv[OF this assms(4)[unfolded run]]
  have "lane_inv H height hf2 target work i c st" by (simp add: lane_inv2_def)
  moreover have "g_pending st = 0" if "r = Finished st"
    using that unfolding run by (rule two_lanes.while_finished_pending)
  ultimately show thesis by (rule that[OF s])
qed

lemma shares_share_ok:
  assumes "ext_ok X" "length random12 = 12"
    "w \<in> set (shares_of (grind_job_with_scratch X H job l random12 tid hf2 obs i c scr))
      \<or> w \<in> set (shares_of (grind_job_x2_with_scratch X H job l random12 tid hf2 obs i c scr scr_b))"
  shows "\<exists>work height target. grind_setup X job random12 tid = Inr (work, height, target) \<and> share_ok H height hf2 target work w"
  using assms(3)
proof
  assume "w \<in> set (shares_of (grind_job_with_scratch X H job l random12 tid hf2 obs i c scr))"
  then obtain st where st: "grind_job_with_scratch X H job l random12 tid hf2 obs i c scr = Finished st
      \<or> grind_job_with_scratch X H job l random12 tid hf2 obs i c scr = Running st" "w \<in> set (g_shares st)"
    using shares_of_state by blast
  show ?thesis by (rule one_lane_state[OF assms(1,2) refl st(1)]) (use st(2) in \<open>auto simp: lane_inv_def list_all_iff\<close>)
next
  assume "w \<in> set (shares_of (grind_job_x2_with_scratch X H job l random12 tid hf2 obs i c scr scr_b))"
  then obtain st where st: "grind_job_x2_with_scratch X H job l random12 tid hf2 obs i c scr scr_b = Finished st
      \<or> grind_job_x2_with_scratch X H job l random12 tid hf2 obs i c scr scr_b = Running st" "w \<in> set (g_shares st)"
    using shares_of_state by blast
  show ?thesis by (rule two_lanes_state[OF assms(1,2) refl st(1)]) (use st(2) in \<open>auto simp: lane_inv_def list_all_iff\<close>)
qed

lemma shares_canonical:
  assumes "ext_ok X" "length random12 = 12"
    "w \<in> set (shares_of (grind_job_with_scratch X H job l random12 tid hf2 obs i c scr))
      \<or> w \<in> set (shares_of (grind_job_x2_with_scratch X H job l random12 tid hf2 obs i c scr scr_b))"
    "hex_decode X (j_blockhashing_blob job) = Some work0" "parse_decimal X (j_difficulty job) = Some diff"
    "\<And>x. length (sha256 (h_prims H) x) = 32" "\<And>x. length (sha3_256 (h_prims16 H) x) = 32"
  shows "take 36 w = take 36 work0 \<and> length w = 48 \<and> w ! 47 = tid \<and> slice 36 43 w = take 7 random12
    \<and> (if work_height work0 \<ge> hf2
       then \<exists>canon dbg. astrobwtv3_full (h_prims H) (sa32 (h_cfg H) (h_backends H)) w = Some (canon, dbg)
              \<and> check_pow_hash_big canon diff = Some True
       else check_pow_hash_big (pow16 (h_prims H) (h_prims16 H) w) diff = Some True)"
proof -
  obtain work height target where s: "grind_setup X job random12 tid = Inr (work, height, target)"
    and ok: "share_ok H height hf2 target work w"
    using shares_share_ok[OF assms(1-3)] by blast
  have work: "work = stamp_job work0 random12 tid" "height = work_height work0" and len: "length work0 = 48"
    and d: "diff \<noteq> 0" "precompute_pow_target diff = Some target"
    using grind_setup_Inr[OF s] assms(1,4,5) unfolding ext_ok_def by (fastforce, fastforce, fastforce, fastforce, fastforce)
  from ok obtain j where w: "w = put_counter work j" by (auto simp: share_ok_def)
  have big: "check_pow_hash_big h diff = Some True" if "check_pow_hash_precomputed h target" "length h = 32" for h
    using precomputed_check[OF d(2) that(2)] that(1) d(1) by (simp add: check_pow_hash_big_def pow_target_def)
  have canon: "length canon = 32" if "astrobwtv3_full P sa w = Some (canon, dbg)" "\<And>x. length (sha256 P x) = 32" for P sa canon dbg
    using that by (auto simp: astrobwtv3_full_def Let_def sha256_sa_i32_le_def split: option.splits if_splits)
  have p16: "length (pow16 (h_prims H) (h_prims16 H) w) = 32" using assms(7) by (simp add: pow16_def Let_def)
  show ?thesis
    using stamped_work[OF len assms(2), of tid j] ok big canon[OF _ assms(6)] p16 len assms(2)
    by (auto simp: w work share_ok_def split: if_splits)
qed

text \<open>C8: whatever the hash engines of the mining path return, both grinding loops hand out only shares
  that are nonces of their own job and thread and whose hash, computed again by the canonical pipeline (by
  the legacy hash below the fork), meets the job's difficulty as the arbitrary-precision check of the
  verifier decides it; and the first 36 bytes of every share, header fields included, are the job's.\<close>

theorem shares_are_canonical:
  assumes "ext_ok X" "length random12 = 12"
    "w \<in> set (shares_of (grind_job_with_scratch X H job l random12 tid hf2 obs i c scr))
      \<or> w \<in> set (shares_of (grind_job_x2_with_scratch X H job l random12 tid hf2 obs i c scr scr_b))"
    "hex_decode X (j_blockhashing_blob job) = Some work0" "parse_decimal X (j_difficulty job) = Some diff"
    "\<And>x. length (sha256 (h_prims H) x) = 32" "\<And>x. length (sha3_256 (h_prims16 H) x) = 32"
  shows "take 36 w = take 36 work0 \<and> length w = 48 \<and> w ! 47 = tid \<and> slice 36 43 w = take 7 random12
    \<and> (if work_height work0 \<ge> hf2
       then \<exists>canon dbg. astrobwtv3_full (h_prims H) (sa32 (h_cfg H) (h_backends H)) w = Some (canon, dbg)
              \<and> check_pow_hash_big canon diff = Some True
       else check_pow_hash_big (pow16 (h_prims H) (h_prims16 H) w) diff = Some True)"
  by (rule shares_canonical[OF assms])

text \<open>Concrete parameters and a concrete job for the witnesses.\<close>

fun evens :: "'a list \<Rightarrow> 'a list option" where
  "evens [] = Some []"
| "evens [x] = None"
| "evens (x # y # xs) = map_option (Cons x) (evens xs)"

definition demo_ext :: ext where
  "demo_ext = \<lparr>hex_decode = evens, hex_encode = (\<lambda>w. concat (map (\<lambda>b. [b, 0]) w)), parse_decimal = (\<lambda>s. Some (length s))\<rparr>"

lemma demo_ext_ok: "ext_ok demo_ext"
proof -
  have "length s = 2 * length w" if "evens s = Some w" for s w :: "byte list"
    using that by (induction s arbitrary: w rule: evens.induct) auto
  moreover have "evens (concat (map (\<lambda>b. [b, 0]) w)) = Some w" for w :: "byte list"
    by (induction w) simp_all
  ultimately show ?thesis by (simp add: ext_ok_def demo_ext_def)
qed

definition demo_job :: get_block_template_result where
  "demo_job = \<lparr>j_jobid = [1], j_blocktemplate_blob = [], j_blockhashing_blob = hex_encode demo_ext (1 # replicate 47 0),
     j_difficulty = [49], j_difficultyuint64 = 1, j_height = 0, j_prev_hash = [], j_epochmilli = 0, j_blocks = 0,
     j_miniblocks = 0, j_rejected = 0, j_lasterror = [], j_status = []\<rparr>"

definition demo_obs :: "obs list" where
  "demo_obs = [\<lparr>ob_job_counter = 1, ob_exit = False, ob_inner_exit = (\<lambda>_. True)\<rparr>,
     \<lparr>ob_job_counter = 2, ob_exit = False, ob_inner_exit = (\<lambda>_. True)\<rparr>]"

lemma demo_decode: "hex_decode demo_ext (j_blockhashing_blob demo_job) = Some (1 # replicate 47 0)"
  using demo_ext_ok by (simp add: ext_ok_def demo_job_def)

lemma demo_setup:
  "\<exists>target. grind_setup demo_ext demo_job (replicate 12 2) 3 = Inr (stamp_job (1 # replicate 47 0) (replicate 12 2) 3, 0, target)
     \<and> precompute_pow_target 1 = Some target"
proof -
  obtain t where t: "precompute_pow_target 1 = Some t" using precompute_defined[of 1] by auto
  have l: "length (j_blockhashing_blob demo_job) = 96" by (simp add: demo_job_def demo_ext_def length_concat comp_def sum_list_replicate)
  have h: "work_height (1 # replicate 47 0) = 0"
    by (simp add: work_height_def be_u64_def be_val_def take_Cons' le_val_append)
  have d: "parse_decimal demo_ext (j_difficulty demo_job) = Some 1" by (simp add: demo_ext_def demo_job_def)
  have z: "stamp_job (1 # replicate 47 0) (replicate 12 2) 3 ! 0 = 1" by (simp add: stamp_job_def MINIBLOCK_SIZE_def)
  show ?thesis using t l h d z demo_decode by (simp add: grind_setup_def MINIBLOCK_SIZE_def Let_def)
qed

lemma demo_grind:
  "\<exists>st. grind_job_with_scratch demo_ext demo_hasher demo_job 1 (replicate 12 2) 3 1 demo_obs 0 0 scratch_new = Finished st
    \<and> g_shares st = [put_counter (stamp_job (1 # replicate 47 0) (replicate 12 2) 3) 1] \<and> g_i st = 1"
proof -
  obtain t where s: "grind_setup demo_ext demo_job (replicate 12 2) 3 = Inr (stamp_job (1 # replicate 47 0) (replicate 12 2) 3, 0, t)"
    and t: "precompute_pow_target 1 = Some t"
    using demo_setup by blast
  have "hash_to_big (replicate 32 1) \<le> 2 ^ 256"
    using le_val_less[of "replicate 32 (1 :: byte)"] by (simp add: hash_to_big_le_val)
  then have c: "check_pow_hash_precomputed (replicate 32 1) t"
    using precomputed_check[OF t, of "replicate 32 1"] by simp
  have p: "pow_hash_at_height_with_scratch demo_hasher w 0 1 scr = Some (replicate 32 1, scr)" for w scr
    by (simp add: pow_hash_at_height_with_scratch_def demo_hasher_def pow16_def Let_def)
  have n: "HASH_COUNTER_FLUSH_INTERVAL = Suc 63" by (simp add: HASH_COUNTER_FLUSH_INTERVAL_def)
  have "grind_for demo_hasher 0 1 t (\<lambda>_. True) HASH_COUNTER_FLUSH_INTERVAL st
     = Some ((record_hash (st\<lparr>g_i := g_i st + 1, g_work := put_counter (g_work st) (g_i st + 1)\<rparr>))
          \<lparr>g_shares := g_shares st @ [put_counter (g_work st) (g_i st + 1)]\<rparr>)" for st
    unfolding n grind_for.simps(2) by (simp add: grind_iter_def p c submit_if_canonical_def canonical_ok_def Let_def)
  then show ?thesis
    by (simp add: grind_job_with_scratch_def s demo_obs_def)
qed

theorem shares_are_canonical_witness:
  "\<exists>w \<in> set (shares_of (grind_job_with_scratch demo_ext demo_hasher demo_job 1 (replicate 12 2) 3 1 demo_obs 0 0 scratch_new)).
     take 36 w = take 36 (1 # replicate 47 0) \<and> w ! 47 = 3"
proof -
  let ?r = "grind_job_with_scratch demo_ext demo_hasher demo_job 1 (replicate 12 2) 3 1 demo_obs 0 0 scratch_new"
  let ?w = "put_counter (stamp_job (1 # replicate 47 0) (replicate 12 2) 3) 1"
  have w: "?w \<in> set (shares_of ?r)" using demo_grind by auto
  have d: "parse_decimal demo_ext (j_difficulty demo_job) = Some 1" by (simp add: demo_ext_def demo_job_def)
  have "take 36 ?w = take 36 (1 # replicate 47 0) \<and> ?w ! 47 = 3"
    using shares_are_canonical[OF demo_ext_ok _ disjI1[OF w] demo_decode d]
    by (simp add: demo_hasher_def demo_prims_def)
  then show ?thesis using w by blast
qed

section \<open>With engines that keep their contract\<close>

definition accepts :: "hasher \<Rightarrow> u64 \<Rightarrow> u64 \<Rightarrow> pow_target_pre \<Rightarrow> byte list \<Rightarrow> bool" where
  "accepts H height hf2 target w = check_pow_hash_precomputed (the (pow_hash_at_height H w height hf2)) target"

lemma canonical_ok_accepts:
  assumes "hasher_ok H"
  shows "canonical_ok H height hf2 target w = Some (height < hf2 \<or> accepts H height hf2 target w)"
proof (cases "height < hf2")
  case True
  then have "\<not> hf2 \<le> height" by (simp add: not_le)
  then show ?thesis using True by (simp add: canonical_ok_def)
next
  case False
  have ok: "prims_ok (h_prims H)" "backends_ok (h_cfg H) (h_prims H) (h_backends H)" using assms by (simp_all add: hasher_ok_def)
  obtain canon dbg where c: "astrobwtv3_full (h_prims H) (be_sais (h_backends H)) w = Some (canon, dbg)"
    using astrobwtv3_full_some[OF ok(1)] by force
  have "pow_hash_at_height H w height hf2 = Some canon"
    using False with_scratch_sound[OF ok, of w scratch_new] c
    by (simp add: pow_hash_at_height_def astrobwtv3_def astrobwtv3_hash_only_def)
  then show ?thesis using False c by (auto simp: canonical_ok_def accepts_def sa32_sais[OF ok(2)] not_less)
qed

lemma submit_accepts:
  assumes "hasher_ok H" "accepts H height hf2 target w"
  shows "submit_if_canonical H height hf2 target w st = Some (st\<lparr>g_shares := g_shares st @ [w]\<rparr>)"
  using assms by (simp add: submit_if_canonical_def canonical_ok_accepts)

text \<open>The part of the state that the two loops have in common.\<close>

definition core :: "'a gst_scheme \<Rightarrow> u32 \<times> u64 \<times> u64 \<times> byte list list" where
  "core st = (g_i st, g_pending st, g_counter st, g_shares st)"

text \<open>What one hash does to it.\<close>

definition hash_step :: "(byte list \<Rightarrow> bool) \<Rightarrow> (u32 \<Rightarrow> byte list) \<Rightarrow> u32 \<times> u64 \<times> u64 \<times> byte list list
    \<Rightarrow> u32 \<times> u64 \<times> u64 \<times> byte list list" where
  "hash_step acc work c =
     (let (i, p, n, ws) = c; i' = i + 1; w = work i'; (p', n') = (if p + 1 \<ge> 64 then (0, n + (p + 1)) else (p + 1, n))
      in (i', p', n', if acc w then ws @ [w] else ws))"

lemma record_hash_core:
  assumes "unat (g_pending st) < 64"
  shows "g_pending (record_hash st) = (if g_pending st + 1 \<ge> 64 then 0 else g_pending st + 1)"
    "g_counter (record_hash st) = (if g_pending st + 1 \<ge> 64 then g_counter st + (g_pending st + 1) else g_counter st)"
proof -
  have "g_pending st + 1 \<noteq> 0"
    using assms by (auto simp: word_unat_eq_iff unat_word_ariths)
  then show "g_pending (record_hash st) = (if g_pending st + 1 \<ge> 64 then 0 else g_pending st + 1)"
    "g_counter (record_hash st) = (if g_pending st + 1 \<ge> 64 then g_counter st + (g_pending st + 1) else g_counter st)"
    by (simp_all add: record_hash_def flush_hashes_def Let_def HASH_COUNTER_FLUSH_INTERVAL_def)
qed

text \<open>A state of either loop that still grinds the job stamped as \<open>w0\<close>.\<close>

definition grinding :: "byte list \<Rightarrow> 'a gst_scheme \<Rightarrow> bool" where
  "grinding w0 st \<longleftrightarrow> length (g_work st) = 48 \<and> put_counter (g_work st) = put_counter w0 \<and> unat (g_pending st) < 64"

lemma grinding_put: "grinding w0 st \<Longrightarrow> length (put_counter (g_work st) j) = 48 \<and> put_counter (put_counter (g_work st) j) = put_counter w0"
  unfolding grinding_def by (metis ext length_put_counter put_counter_twice)

lemma grind_iter_spec:
  assumes "hasher_ok H" "grinding w0 st"
  shows "\<exists>st'. grind_iter H height hf2 target st = Some (st', accepts H height hf2 target (put_counter w0 (g_i st + 1)))
    \<and> grinding w0 st' \<and> core st' = hash_step (accepts H height hf2 target) (put_counter w0) (core st)"
proof -
  let ?i = "g_i st + 1" let ?w = "put_counter (g_work st) ?i"
  have w: "?w = put_counter w0 ?i" using assms(2) by (simp add: grinding_def)
  obtain pow scr where pow: "pow_hash_at_height_with_scratch H ?w height hf2 (g_scratch st) = Some (pow, scr)"
      "pow_hash_at_height H ?w height hf2 = Some pow"
    using scratch_selector(1)[OF assms(1), of ?w height hf2 "g_scratch st"] scratch_selector(2)[OF assms(1), of ?w height hf2]
    by (cases "pow_hash_at_height_with_scratch H ?w height hf2 (g_scratch st)") auto
  let ?s0 = "st\<lparr>g_i := ?i, g_work := ?w, g_scratch := scr\<rparr>"
  let ?st' = "if accepts H height hf2 target ?w then (record_hash ?s0)\<lparr>g_shares := g_shares st @ [?w]\<rparr> else record_hash ?s0"
  have acc: "check_pow_hash_precomputed pow target = accepts H height hf2 target ?w" using pow(2) by (simp add: accepts_def)
  have "grind_iter H height hf2 target st = Some (?st', accepts H height hf2 target ?w)"
    using pow(1) acc by (simp add: grind_iter_def Let_def submit_accepts[OF assms(1)])
  moreover have "grinding w0 ?st'"
    using grinding_put[OF assms(2), of ?i] record_hash_pending[of ?s0] assms(2) unfolding grinding_def by simp
  moreover have "core ?st' = hash_step (accepts H height hf2 target) (put_counter w0) (core st)"
    using record_hash_core[of ?s0] assms(2) by (cases "64 \<le> g_pending st + 1") (simp_all add: core_def hash_step_def grinding_def w Let_def)
  ultimately show ?thesis using w by metis
qed

lemma grind_for_spec:
  assumes "hasher_ok H" "grinding w0 st"
  shows "\<exists>st'. grind_for H height hf2 target ex n st = Some st' \<and> grinding w0 st'
    \<and> ((\<forall>k. \<not> ex k) \<longrightarrow> core st' = (hash_step (accepts H height hf2 target) (put_counter w0) ^^ n) (core st))"
  using assms(2)
proof (induction n arbitrary: st)
  case (Suc n)
  obtain st1 found where it: "grind_iter H height hf2 target st = Some (st1, found)" "grinding w0 st1"
      "core st1 = hash_step (accepts H height hf2 target) (put_counter w0) (core st)"
    using grind_iter_spec[OF assms(1) Suc.prems] by blast
  from Suc.IH[OF it(2)] show ?case using it by (auto simp: funpow_swap1)
qed simp

definition grinding2 :: "byte list \<Rightarrow> gst2 \<Rightarrow> bool" where
  "grinding2 w0 st \<longleftrightarrow> grinding w0 st \<and> length (g_work_b st) = 48 \<and> put_counter (g_work_b st) = put_counter w0"

lemma x2_selector:
  assumes "hasher_ok H"
  shows "\<exists>pa pb sa' sb'. pow_hash_at_height_x2 H a b height hf2 sa sb = Some ((pa, pb), sa', sb')
    \<and> pow_hash_at_height H a height hf2 = Some pa \<and> pow_hash_at_height H b height hf2 = Some pb"
proof (cases "height < hf2")
  case True
  then show ?thesis by (simp add: pow_hash_at_height_x2_def pow_hash_at_height_def)
next
  case False
  then show ?thesis
    using x2_sound[of "h_prims H" "h_cfg H" "h_backends H" a b sa sb] assms
    by (auto simp: hasher_ok_def pow_hash_at_height_x2_def pow_hash_at_height_def astrobwtv3_def)
qed

lemma submit_lane_spec:
  assumes "hasher_ok H" "pow_hash_at_height H w height hf2 = Some pow"
  shows "submit_lane H height hf2 target (w, pow) st
    = Some (if accepts H height hf2 target w then st\<lparr>g_shares := g_shares st @ [w]\<rparr> else st)"
  using assms(2) by (simp add: submit_lane_def accepts_def[symmetric] submit_accepts[OF assms(1)] accepts_def)

text \<open>Two hashes recorded at once are two hash steps.\<close>

lemma two_hash_steps:
  assumes "unat (g_pending st) < 64" "s2 = record_hash (record_hash (st\<lparr>g_i := g_i st + 1 + 1\<rparr>))"
    "a = work (g_i st + 1)" "b = work (g_i st + 1 + 1)"
  shows "(hash_step acc work ^^ 2) (core st)
    = (g_i s2, g_pending s2, g_counter s2, g_shares st @ filter acc [a] @ filter acc [b])"
proof -
  let ?s1 = "record_hash st"
  have p: "unat (g_pending ?s1) < 64" using record_hash_pending[OF assms(1)] .
  have "s2 = (record_hash ?s1)\<lparr>g_i := g_i st + 1 + 1\<rparr>" unfolding assms(2) by (simp only: record_hash_g_i)
  then show ?thesis
    using record_hash_core[OF assms(1)] record_hash_core[OF p] assms(3,4)
    by (cases "64 \<le> g_pending st + 1"; cases "64 \<le> g_pending ?s1 + 1")
      (simp_all add: numeral_2_eq_2 core_def hash_step_def Let_def)
qed

lemma grind_iter_x2_spec:
  assumes "hasher_ok H" "grinding2 w0 st"
  shows "\<exists>st'. grind_iter_x2 H height hf2 target st = Some st' \<and> grinding2 w0 st'
    \<and> core st' = (hash_step (accepts H height hf2 target) (put_counter w0) ^^ 2) (core st)"
proof -
  define j k where "j = g_i st + 1" and "k = j + 1"
  define a b where "a = put_counter (g_work st) j" and "b = put_counter (g_work_b st) k"
  have g: "grinding w0 st" and wb: "length (g_work_b st) = 48" "put_counter (g_work_b st) = put_counter w0"
    using assms(2) by (simp_all add: grinding2_def)
  have eqs: "a = put_counter w0 j" "b = put_counter w0 k" using g wb by (simp_all add: grinding_def a_def b_def)
  have la: "length a = 48" "put_counter a = put_counter w0" using grinding_put[OF g] by (simp_all add: a_def)
  have lb: "length b = 48" "put_counter b = put_counter w0"
    using length_put_counter[OF wb(1), of k] wb(2) put_counter_twice[OF wb(1), of k] unfolding b_def by (simp, metis ext)
  obtain pa pb sa sb where pow: "pow_hash_at_height_x2 H a b height hf2 (g_scratch st) (g_scratch_b st) = Some ((pa, pb), sa, sb)"
    "pow_hash_at_height H a height hf2 = Some pa" "pow_hash_at_height H b height hf2 = Some pb"
    using x2_selector[OF assms(1)] by blast
  let ?acc = "accepts H height hf2 target"
  define s2 where "s2 = record_hash (record_hash (st\<lparr>g_i := k, g_work := a, g_work_b := b, g_scratch := sa, g_scratch_b := sb\<rparr>))"
  define s4 where "s4 = s2\<lparr>g_shares := g_shares st @ filter ?acc [a] @ filter ?acc [b]\<rparr>"
  have gs: "g_shares s2 = g_shares st" by (simp add: s2_def)
  have "grind_iter_x2 H height hf2 target st = Some s4"
    using pow(1) unfolding grind_iter_x2_def Let_def j_def[symmetric] k_def[symmetric] a_def[symmetric] b_def[symmetric]
    by (simp add: s2_def[symmetric] submit_lane_spec[OF assms(1) pow(2)] submit_lane_spec[OF assms(1) pow(3)] s4_def gs)
  moreover have "unat (g_pending s2) < 64"
    using g by (simp add: s2_def record_hash_pending grinding_def)
  then have "grinding2 w0 s4" using la lb by (simp add: grinding2_def grinding_def s4_def s2_def)
  moreover have "core s4 = (hash_step ?acc (put_counter w0) ^^ 2) (core st)"
  proof -
    let ?t = "st\<lparr>g_work := a, g_work_b := b, g_scratch := sa, g_scratch_b := sb\<rparr>"
    have "s2 = record_hash (record_hash (?t\<lparr>g_i := g_i ?t + 1 + 1\<rparr>))" by (cases st) (simp add: s2_def k_def j_def)
    from two_hash_steps[OF _ this, of a "put_counter w0" b ?acc] g show ?thesis
      by (simp add: core_def s4_def eqs k_def j_def grinding_def)
  qed
  ultimately show ?thesis by blast
qed

lemma grind_for_x2_spec:
  assumes "hasher_ok H" "grinding2 w0 st"
  shows "\<exists>st'. grind_for_x2 H height hf2 target ex n st = Some st' \<and> grinding2 w0 st'
    \<and> ((\<forall>k. \<not> ex k) \<longrightarrow> core st' = (hash_step (accepts H height hf2 target) (put_counter w0) ^^ (2 * n)) (core st))"
  using assms(2)
proof (induction n arbitrary: st)
  case (Suc n)
  let ?f = "hash_step (accepts H height hf2 target) (put_counter w0)"
  obtain st1 where it: "grind_iter_x2 H height hf2 target st = Some st1" "grinding2 w0 st1" "core st1 = (?f ^^ 2) (core st)"
    using grind_iter_x2_spec[OF assms(1) Suc.prems] by blast
  have "(?f ^^ (2 * Suc n)) c = (?f ^^ (2 * n)) ((?f ^^ 2) c)" for c
    by (simp add: funpow_swap1 numeral_2_eq_2)
  then show ?case using Suc.IH[OF it(2)] it by auto
qed simp

lemma grinding_flush: "grinding w0 st \<Longrightarrow> grinding w0 (flush_hashes st)"
  by (simp add: grinding_def)

lemma grinding2_flush: "grinding2 w0 st \<Longrightarrow> grinding2 w0 (flush_hashes st)"
  by (simp add: grinding2_def grinding_flush)

definition grinding_ok :: "hasher \<Rightarrow> byte list \<Rightarrow> gst \<Rightarrow> bool" where
  "grinding_ok H w0 st \<longleftrightarrow> hasher_ok H \<and> grinding w0 st"

definition grinding2_ok :: "hasher \<Rightarrow> byte list \<Rightarrow> gst2 \<Rightarrow> bool" where
  "grinding2_ok H w0 st \<longleftrightarrow> hasher_ok H \<and> grinding2 w0 st"

interpretation one_lane_total: grind_pass_total
  "\<lambda>ob. grind_for H height hf2 target (ob_inner_exit ob) n" "grinding_ok H w0"
  for H height hf2 target n w0
proof
  fix st ob st'
  show "grinding_ok H w0 st \<Longrightarrow> \<exists>st'. grind_for H height hf2 target (ob_inner_exit ob) n st = Some st'"
    unfolding grinding_ok_def using grind_for_spec by blast
  show "grinding_ok H w0 st \<Longrightarrow> grind_for H height hf2 target (ob_inner_exit ob) n st = Some st' \<Longrightarrow> grinding_ok H w0 st'"
    unfolding grinding_ok_def using grind_for_spec[of H w0 st height hf2 target "ob_inner_exit ob" n] by auto
  show "grinding_ok H w0 st \<Longrightarrow> grinding_ok H w0 (flush_hashes st)"
    by (simp add: grinding_ok_def grinding_flush)
qed

interpretation two_lanes_total: grind_pass_total
  "\<lambda>ob. grind_for_x2 H height hf2 target (ob_inner_exit ob) n" "grinding2_ok H w0"
  for H height hf2 target n w0
proof
  fix st ob st'
  show "grinding2_ok H w0 st \<Longrightarrow> \<exists>st'. grind_for_x2 H height hf2 target (ob_inner_exit ob) n st = Some st'"
    unfolding grinding2_ok_def using grind_for_x2_spec by blast
  show "grinding2_ok H w0 st \<Longrightarrow> grind_for_x2 H height hf2 target (ob_inner_exit ob) n st = Some st' \<Longrightarrow> grinding2_ok H w0 st'"
    unfolding grinding2_ok_def using grind_for_x2_spec[of H w0 st height hf2 target "ob_inner_exit ob" n] by auto
  show "grinding2_ok H w0 st \<Longrightarrow> grinding2_ok H w0 (flush_hashes st)"
    by (simp add: grinding2_ok_def grinding2_flush)
qed

lemma grind_while_not_failed: "grind_while pass l obs st \<noteq> Failed e"
  by (induction obs arbitrary: st) (auto split: option.splits)

text \<open>The observable result of a call.\<close>

fun observe :: "'a gst_scheme outcome \<Rightarrow> (u32 \<times> u64 \<times> u64 \<times> byte list list) outcome" where
  "observe Panicked = Panicked"
| "observe (Failed e) = Failed e"
| "observe (Running st) = Running (core st)"
| "observe (Finished st) = Finished (core st)"

lemma core_flush: "core st = core st2 \<Longrightarrow> core (flush_hashes st) = core (flush_hashes st2)"
  by (simp add: core_def)

lemma grind_while_x2:
  assumes "hasher_ok H" "grinding w0 st" "grinding2 w0 st2" "core st = core st2"
    "\<forall>ob\<in>set obs. \<forall>k. \<not> ob_inner_exit ob k"
  shows "observe (grind_while (\<lambda>ob. grind_for H height hf2 target (ob_inner_exit ob) (2 * n)) l obs st)
    = observe (grind_while (\<lambda>ob. grind_for_x2 H height hf2 target (ob_inner_exit ob) n) l obs st2)"
  using assms(2-)
proof (induction obs arbitrary: st st2)
  case (Cons ob obs)
  have no: "\<forall>k. \<not> ob_inner_exit ob k" using Cons.prems(4) by simp
  obtain s1 where s1: "grind_for H height hf2 target (ob_inner_exit ob) (2 * n) st = Some s1" "grinding w0 s1"
      "core s1 = (hash_step (accepts H height hf2 target) (put_counter w0) ^^ (2 * n)) (core st)"
    using grind_for_spec[OF assms(1) Cons.prems(1)] no by blast
  obtain s2 where s2: "grind_for_x2 H height hf2 target (ob_inner_exit ob) n st2 = Some s2" "grinding2 w0 s2"
      "core s2 = (hash_step (accepts H height hf2 target) (put_counter w0) ^^ (2 * n)) (core st2)"
    using grind_for_x2_spec[OF assms(1) Cons.prems(2)] no by blast
  have "core s1 = core s2" using s1(3) s2(3) Cons.prems(3) by simp
  then show ?case using Cons.IH[OF s1(2) s2(2)] Cons.prems(3,4) s1(1) s2(1) core_flush[OF Cons.prems(3)] by auto
qed simp

text \<open>C10: with engines that keep their contract, and no exit request inside a batch, the
  two-lane loop is observably the one-lane loop: the same errors, and otherwise the same nonce counter, hash
  counters and shares in the same order, whatever the two scratches held.\<close>

theorem x2_grinds_like_one_lane:
  assumes "ext_ok X" "hasher_ok H" "length random12 = 12" "\<forall>ob\<in>set obs. \<forall>k. \<not> ob_inner_exit ob k"
  shows "observe (grind_job_x2_with_scratch X H job l random12 tid hf2 obs i c scr_a scr_b)
    = observe (grind_job_with_scratch X H job l random12 tid hf2 obs i c scr)"
proof (cases "grind_setup X job random12 tid")
  case (Inl e)
  then show ?thesis by (simp add: grind_job_with_scratch_def grind_job_x2_with_scratch_def)
next
  case (Inr r)
  obtain work height target where r: "r = (work, height, target)" by (cases r)
  have len: "length work = 48" by (rule grind_setup_length[OF assms(1,3) Inr[unfolded r]])
  let ?a = "\<lparr>g_work = work, g_i = i, g_pending = 0, g_counter = c, g_scratch = scr, g_shares = []\<rparr>"
  let ?b = "\<lparr>g_work = work, g_i = i, g_pending = 0, g_counter = c, g_scratch = scr_a, g_shares = [], g_work_b = work, g_scratch_b = scr_b\<rparr>"
  have "grinding work ?a" "grinding2 work ?b" "core ?a = core ?b"
    using len by (simp_all add: grinding_def grinding2_def core_def)
  note sim = grind_while_x2[OF assms(2) this assms(4), of height hf2 target 32 l]
  have n: "HASH_COUNTER_FLUSH_INTERVAL = 2 * 32" "HASH_COUNTER_FLUSH_INTERVAL div 2 = 32"
    by (simp_all add: HASH_COUNTER_FLUSH_INTERVAL_def)
  show ?thesis
    unfolding grind_job_with_scratch_def grind_job_x2_with_scratch_def Inr r sum.case prod.case n(2)
    unfolding n(1) by (rule sim[symmetric])
qed

theorem x2_grinds_like_one_lane_witness:
  "observe (grind_job_x2_with_scratch demo_ext demo_hasher demo_job 1 (replicate 12 2) 3 1
      [\<lparr>ob_job_counter = 1, ob_exit = False, ob_inner_exit = (\<lambda>_. False)\<rparr>] 0 0 scratch_new scratch_new)
    = observe (grind_job_with_scratch demo_ext demo_hasher demo_job 1 (replicate 12 2) 3 1
      [\<lparr>ob_job_counter = 1, ob_exit = False, ob_inner_exit = (\<lambda>_. False)\<rparr>] 0 0 scratch_new)"
  by (rule x2_grinds_like_one_lane[OF demo_ext_ok demo_hasher_ok]) simp_all

text \<open>The core after \<open>n\<close> hashes: the counter advanced by \<open>n\<close>, every accepted nonce submitted once, in order.\<close>

lemma hash_steps_core:
  "\<exists>p' c'. (hash_step acc work ^^ n) (i, p, c, ws)
     = (i + of_nat n, p', c', ws @ filter acc (map (\<lambda>k. work (i + of_nat k)) [1..<Suc n]))
     \<and> c' + p' = c + p + of_nat n"
proof (induction n)
  case (Suc n)
  then obtain p' c' where IH: "(hash_step acc work ^^ n) (i, p, c, ws)
     = (i + of_nat n, p', c', ws @ filter acc (map (\<lambda>k. work (i + of_nat k)) [1..<Suc n]))" "c' + p' = c + p + of_nat n"
    by blast
  let ?L = "ws @ filter acc (map (\<lambda>k. work (i + of_nat k)) [1..<Suc n])"
  have i: "i + of_nat n + 1 = i + of_nat (Suc n)" by (simp add: algebra_simps)
  have "(hash_step acc work ^^ Suc n) (i, p, c, ws) = hash_step acc work (i + of_nat n, p', c', ?L)"
    by (simp only: funpow.simps comp_def IH(1))
  also have "\<dots> = (i + of_nat (Suc n), (if p' + 1 \<ge> 64 then 0 else p' + 1), (if p' + 1 \<ge> 64 then c' + (p' + 1) else c'),
      ?L @ filter acc [work (i + of_nat (Suc n))])"
    unfolding hash_step_def Let_def i[symmetric] by simp
  also have "?L @ filter acc [work (i + of_nat (Suc n))] = ws @ filter acc (map (\<lambda>k. work (i + of_nat k)) [1..<Suc (Suc n)])"
    by simp
  finally have step: "(hash_step acc work ^^ Suc n) (i, p, c, ws) = (i + of_nat (Suc n), (if p' + 1 \<ge> 64 then 0 else p' + 1),
      (if p' + 1 \<ge> 64 then c' + (p' + 1) else c'), ws @ filter acc (map (\<lambda>k. work (i + of_nat k)) [1..<Suc (Suc n)]))" .
  have "(if p' + 1 \<ge> 64 then c' + (p' + 1) else c') + (if p' + 1 \<ge> 64 then 0 else p' + 1) = c' + p' + 1"
    by (simp add: algebra_simps)
  also have "\<dots> = c + p + of_nat (Suc n)" unfolding IH(2) by (simp add: algebra_simps)
  finally show ?case using step by blast
qed simp

text \<open>C9: with engines that keep their contract, a batch during which no exit is requested tries the
  next 64 counter values in order, submits exactly those whose hash clears the target, each once and in
  order, and accounts for exactly 64 hashes.\<close>

theorem grind_batch_complete:
  assumes "hasher_ok H" "length (g_work st) = 48" "unat (g_pending st) < 64" "\<forall>k. \<not> ex k"
  shows "\<exists>st'. grind_for H height hf2 target ex HASH_COUNTER_FLUSH_INTERVAL st = Some st'
    \<and> g_i st' = g_i st + 64
    \<and> g_shares st' = g_shares st @ filter (\<lambda>w. check_pow_hash_precomputed (the (pow_hash_at_height H w height hf2)) target)
         (map (\<lambda>k. put_counter (g_work st) (g_i st + of_nat k)) [1..<65])
    \<and> g_counter st' + g_pending st' = g_counter st + g_pending st + 64"
proof -
  have "grinding (g_work st) st" using assms(2,3) by (simp add: grinding_def)
  then obtain st' where st': "grind_for H height hf2 target ex 64 st = Some st'"
      "core st' = (hash_step (accepts H height hf2 target) (put_counter (g_work st)) ^^ 64) (core st)"
    using grind_for_spec[OF assms(1)] assms(4) by blast
  obtain p' c' where "core st' = (g_i st + of_nat 64, p', c', g_shares st @ filter (accepts H height hf2 target)
      (map (\<lambda>k. put_counter (g_work st) (g_i st + of_nat k)) [1..<Suc 64]))" "c' + p' = g_counter st + g_pending st + of_nat 64"
    using hash_steps_core[of 64 "accepts H height hf2 target" "put_counter (g_work st)" "g_i st" "g_pending st" "g_counter st" "g_shares st"]
      st'(2) unfolding core_def[of st] by metis
  then have "g_i st' = g_i st + 64" "g_counter st' + g_pending st' = g_counter st + g_pending st + 64"
    "g_shares st' = g_shares st @ filter (accepts H height hf2 target) (map (\<lambda>k. put_counter (g_work st) (g_i st + of_nat k)) [1..<65])"
    by (simp_all add: core_def)
  then show ?thesis using st'(1) by (simp add: HASH_COUNTER_FLUSH_INTERVAL_def accepts_def[abs_def])
qed

theorem grind_batch_complete_witness:
  "\<exists>st'. grind_for demo_hasher 0 1 \<lparr>target_le = replicate 32 255, accepts_all = True\<rparr> (\<lambda>_. False) HASH_COUNTER_FLUSH_INTERVAL
     \<lparr>g_work = replicate 48 1, g_i = 4294967295, g_pending = 0, g_counter = 5, g_scratch = scratch_new, g_shares = []\<rparr> = Some st'
    \<and> g_i st' = 63"
  using grind_batch_complete[OF demo_hasher_ok,
      of "\<lparr>g_work = replicate 48 1, g_i = 4294967295, g_pending = 0, g_counter = 5, g_scratch = scratch_new, g_shares = []\<rparr>"
        "\<lambda>_. False" 0 1 "\<lparr>target_le = replicate 32 255, accepts_all = True\<rparr>"]
  by auto

lemma stamp_job_first: "length w = 48 \<Longrightarrow> length r = 12 \<Longrightarrow> stamp_job w r tid ! 0 = w ! 0"
  by (rule stamp_job_nth) simp_all

lemma setup_cases:
  assumes "ext_ok X" "length random12 = 12"
  shows "grind_setup X job random12 tid =
    (case hex_decode X (j_blockhashing_blob job) of
       None \<Rightarrow> Inl BadBlob
     | Some work0 \<Rightarrow>
         if length (j_blockhashing_blob job) \<noteq> 96 then Inl BadBlob
         else if parse_decimal X (j_difficulty job) \<in> {None, Some 0} then Inl BadDifficulty
         else if work0 ! 0 AND 0xf \<noteq> 1 then Inl (BadVersion (work0 ! 0 AND 0x1f))
         else Inr (stamp_job work0 random12 tid, work_height work0,
                the (precompute_pow_target (the (parse_decimal X (j_difficulty job))))))"
proof (cases "hex_decode X (j_blockhashing_blob job)")
  case (Some work0)
  have l: "length work0 = 48" if "length (j_blockhashing_blob job) = 96"
    using assms(1) Some that unfolding ext_ok_def by fastforce
  show ?thesis
    using Some stamp_job_first[OF l assms(2), of tid]
    by (auto simp: grind_setup_def Let_def MINIBLOCK_SIZE_def split: option.splits)
qed (simp add: grind_setup_def Let_def)

text \<open>C15: an error result is exactly one of the documented conditions, checked in the order of the
  reference miner: a blob that is not 96 hexadecimal characters, then a difficulty that is not a positive
  decimal number, then a version nibble other than 1 (reported with five bits); otherwise, if the hash
  engines keep their contract, the call never fails or panics, and it returns once it observes
  another job counter or the exit flag.\<close>

theorem grind_job_errors:
  assumes "ext_ok X" "hasher_ok H" "length random12 = 12"
    "run = grind_job_with_scratch X H job l random12 tid hf2 obs i c scr"
  shows "case hex_decode X (j_blockhashing_blob job) of
      None \<Rightarrow> run = Failed BadBlob
    | Some work0 \<Rightarrow>
        if length (j_blockhashing_blob job) \<noteq> 96 then run = Failed BadBlob
        else if parse_decimal X (j_difficulty job) \<in> {None, Some 0} then run = Failed BadDifficulty
        else if work0 ! 0 AND 0xf \<noteq> 1 then run = Failed (BadVersion (work0 ! 0 AND 0x1f))
        else (\<exists>st. run = Running st \<or> run = Finished st)
           \<and> ((\<exists>ob\<in>set obs. ob_job_counter ob \<noteq> l \<or> ob_exit ob) \<longrightarrow> (\<exists>st. run = Finished st))"
proof (cases "grind_setup X job random12 tid")
  case (Inl e)
  then have "run = Failed e" using assms(4) by (simp add: grind_job_with_scratch_def)
  then show ?thesis
    using Inl setup_cases[OF assms(1,3), of job tid] by (auto split: option.splits if_splits)
next
  case (Inr r)
  obtain work height target where r: "r = (work, height, target)" by (cases r)
  let ?s0 = "\<lparr>g_work = work, g_i = i, g_pending = 0, g_counter = c, g_scratch = scr, g_shares = []\<rparr>"
  let ?run = "grind_while (\<lambda>ob. grind_for H height hf2 target (ob_inner_exit ob) HASH_COUNTER_FLUSH_INTERVAL) l obs ?s0"
  have run: "run = ?run" using assms(4) Inr r by (simp add: grind_job_with_scratch_def)
  have ok: "grinding_ok H work ?s0"
    using grind_setup_length[OF assms(1,3) Inr[unfolded r]] assms(2) by (simp add: grinding_ok_def grinding_def)
  have "?run \<noteq> Failed e" for e
    by (rule grind_while_not_failed)
  then have "\<exists>st. run = Running st \<or> run = Finished st"
    using one_lane_total.while_not_panicked[OF ok] unfolding run by (metis outcome.exhaust)
  moreover have "(\<exists>ob\<in>set obs. ob_job_counter ob \<noteq> l \<or> ob_exit ob) \<longrightarrow> (\<exists>st. run = Finished st)"
    using one_lane_total.while_finishes[OF ok] unfolding run by blast
  ultimately show ?thesis
    using Inr setup_cases[OF assms(1,3), of job tid] by (auto split: option.splits if_splits)
qed

theorem grind_job_errors_witness:
  "\<exists>st. grind_job_with_scratch demo_ext demo_hasher demo_job 1 (replicate 12 2) 3 1 demo_obs 0 0 scratch_new = Finished st"
proof -
  have l: "length (j_blockhashing_blob demo_job) = 96"
    by (simp add: demo_job_def demo_ext_def length_concat comp_def sum_list_replicate)
  have d: "parse_decimal demo_ext (j_difficulty demo_job) = Some 1" by (simp add: demo_ext_def demo_job_def)
  show ?thesis
    using grind_job_errors[OF demo_ext_ok demo_hasher_ok _ refl, of "replicate 12 2" demo_job 1 3 1 demo_obs 0 0 scratch_new]
      demo_decode l d by (simp add: demo_obs_def)
qed

text \<open>the shared hash counter is exact whatever the engines return: when a grinding call returns, the
  hashes it added to the shared counter are, modulo 2 to the 32, the nonces it tried, and none is left unflushed; at
  every point of observation before, fewer than 64 are still to be added.\<close>

theorem hash_counter_exact:
  assumes "ext_ok X" "length random12 = 12"
    "r = grind_job_with_scratch X H job l random12 tid hf2 obs i c scr" "r = Finished st \<or> r = Running st"
  shows "ucast (g_counter st + g_pending st - c) = g_i st - i \<and> g_pending st < 64
    \<and> (r = Finished st \<longrightarrow> g_pending st = 0 \<and> ucast (g_counter st - c) = g_i st - i)"
proof -
  obtain work height target where inv: "lane_inv H height hf2 target work i c st"
    and fin: "r = Finished st \<Longrightarrow> g_pending st = 0"
    using one_lane_state[OF assms] by metis
  show ?thesis using inv fin by (auto simp: lane_inv_def word_less_nat_alt)
qed

theorem hash_counter_exact_witness:
  "\<exists>st. grind_job_with_scratch demo_ext demo_hasher demo_job 1 (replicate 12 2) 3 1 demo_obs 0 0 scratch_new = Finished st
    \<and> (ucast (g_counter st - 0) :: u32) = 1"
proof -
  obtain st where st: "grind_job_with_scratch demo_ext demo_hasher demo_job 1 (replicate 12 2) 3 1 demo_obs 0 0 scratch_new = Finished st"
    "g_i st = 1" using demo_grind by blast
  from hash_counter_exact[OF demo_ext_ok _ refl disjI1[OF st(1)]] st show ?thesis by simp
qed

end
