(* ===== verification/Mining.thy ===== *)
theory Mining
  imports Worker
begin

text \<open>
  The threads of the miner: the connection thread (\<open>getwork\<close> of \<open>src/main.rs\<close>) publishes jobs and sends
  shares, the workers (\<open>mine_thread\<close> of \<open>src/worker.rs\<close>) take snapshots and grind. Each constructor of
  the step relation is one atomic access of the shared state (\<open>Shared\<close> of \<open>src/worker.rs\<close>, the share
  channel); any interleaving of the threads is a path. The job lock and the acquire/release
  ordering of the counter make sequentially consistent interleavings the right model.
\<close>

section \<open>State\<close>

text \<open>\<open>GetBlockTemplateResult::default()\<close>\<close>

definition job_default :: get_block_template_result where
  "job_default = \<lparr>j_jobid = [], j_blocktemplate_blob = [], j_blockhashing_blob = [], j_difficulty = [],
     j_difficultyuint64 = 0, j_height = 0, j_prev_hash = [], j_epochmilli = 0, j_blocks = 0, j_miniblocks = 0,
     j_rejected = 0, j_lasterror = [], j_status = []\<rparr>"

record shared =
  sh_job :: get_block_template_result
  sh_job_counter :: u64
  sh_block_counter :: u64
  sh_mini_block_counter :: u64
  sh_rejected :: u64
  sh_difficulty :: u64
  sh_our_height :: u64
  sh_exit :: bool
  sh_connected :: bool

definition shared_new :: shared where
  "shared_new = \<lparr>sh_job = job_default, sh_job_counter = 0, sh_block_counter = 0, sh_mini_block_counter = 0,
     sh_rejected = 0, sh_difficulty = 0, sh_our_height = 0, sh_exit = False, sh_connected = False\<rparr>"

text \<open>Where the connection thread is between two accesses: polling, with a job written but not yet
  counted, or counted but its statistics not yet stored.\<close>

datatype conn_pc = Polling | JobWritten get_block_template_result | JobCounted get_block_template_result | ConnStopped

text \<open>Where a worker is: about to snapshot, with the counter loaded, grinding a snapshot, or returned.\<close>

datatype worker_pc =
    AtTop
  | CounterLoaded u64
  | Grinding u64 get_block_template_result
  | Returned

record msys =
  ms_shared :: shared
  ms_conn :: conn_pc
  ms_workers :: "nat \<Rightarrow> worker_pc"
  ms_channel :: "submit_block_params list"
  ms_received :: "get_block_template_result list"   \<comment> \<open>job pushes read so far\<close>
  ms_sent :: "submit_block_params list"             \<comment> \<open>shares written to the socket\<close>

definition msys_init :: msys where
  "msys_init = \<lparr>ms_shared = shared_new, ms_conn = Polling, ms_workers = (\<lambda>_. AtTop), ms_channel = [],
     ms_received = [], ms_sent = []\<rparr>"

section \<open>Accesses\<close>

definition write_job :: "get_block_template_result \<Rightarrow> shared \<Rightarrow> shared" where
  "write_job result sh = sh\<lparr>sh_job := result\<rparr>"

definition count_job :: "shared \<Rightarrow> shared" where
  "count_job sh = sh\<lparr>sh_job_counter := sh_job_counter sh + 1\<rparr>"

definition store_stats :: "get_block_template_result \<Rightarrow> shared \<Rightarrow> shared" where
  "store_stats result sh = sh\<lparr>sh_block_counter := j_blocks result, sh_mini_block_counter := j_miniblocks result,
     sh_rejected := j_rejected result, sh_difficulty := j_difficultyuint64 result, sh_our_height := j_height result\<rparr>"

section \<open>Steps\<close>

text \<open>The connection thread: dialing succeeds and drops the queued shares, one queued share is written (or is
  lost with the connection), a job push arrives in three accesses, the connection fails, the thread
  sees the exit flag. \<open>quit\<close> is the command loop setting it.\<close>

inductive conn_step :: "msys \<Rightarrow> msys \<Rightarrow> bool" where
  connected: "ms_conn s = Polling \<Longrightarrow> \<not> sh_connected (ms_shared s) \<Longrightarrow>
    conn_step s (s\<lparr>ms_shared := (ms_shared s)\<lparr>sh_connected := True\<rparr>, ms_channel := []\<rparr>)"
| send_share: "ms_conn s = Polling \<Longrightarrow> sh_connected (ms_shared s) \<Longrightarrow> ms_channel s = m # ms \<Longrightarrow>
    conn_step s (s\<lparr>ms_channel := ms, ms_sent := ms_sent s @ [m]\<rparr>)"
| send_fails: "ms_conn s = Polling \<Longrightarrow> sh_connected (ms_shared s) \<Longrightarrow> ms_channel s = m # ms \<Longrightarrow>
    conn_step s (s\<lparr>ms_channel := ms, ms_shared := (ms_shared s)\<lparr>sh_connected := False\<rparr>\<rparr>)"
| recv_job: "ms_conn s = Polling \<Longrightarrow> sh_connected (ms_shared s) \<Longrightarrow>
    conn_step s (s\<lparr>ms_shared := write_job result (ms_shared s), ms_conn := JobWritten result,
                   ms_received := ms_received s @ [result]\<rparr>)"
| bump_counter: "ms_conn s = JobWritten result \<Longrightarrow>
    conn_step s (s\<lparr>ms_shared := count_job (ms_shared s), ms_conn := JobCounted result\<rparr>)"
| stats: "ms_conn s = JobCounted result \<Longrightarrow>
    conn_step s (s\<lparr>ms_shared := store_stats result (ms_shared s), ms_conn := Polling\<rparr>)"
| disconnected: "ms_conn s = Polling \<Longrightarrow> sh_connected (ms_shared s) \<Longrightarrow>
    conn_step s (s\<lparr>ms_shared := (ms_shared s)\<lparr>sh_connected := False\<rparr>\<rparr>)"
| conn_exit: "ms_conn s = Polling \<Longrightarrow> sh_exit (ms_shared s) \<Longrightarrow> conn_step s (s\<lparr>ms_conn := ConnStopped\<rparr>)"
| quit: "conn_step s (s\<lparr>ms_shared := (ms_shared s)\<lparr>sh_exit := True\<rparr>\<rparr>)"

text \<open>A worker \<open>t\<close> with random bytes \<open>rnd t\<close>: load the counter, then clone the job, then grind; any
  share that the grinding call can hand out may be queued; grinding is left when the call returns,
  which needs a changed counter or the exit flag, or when it fails.\<close>

inductive worker_step :: "ext \<Rightarrow> hasher \<Rightarrow> u64 \<Rightarrow> (nat \<Rightarrow> byte list) \<Rightarrow> nat \<Rightarrow> msys \<Rightarrow> msys \<Rightarrow> bool"
  for X H hf2 rnd t where
  load_counter: "ms_workers s t = AtTop \<Longrightarrow> \<not> sh_exit (ms_shared s) \<Longrightarrow>
    worker_step X H hf2 rnd t s (s\<lparr>ms_workers := (ms_workers s)(t := CounterLoaded (sh_job_counter (ms_shared s)))\<rparr>)"
| clone_job: "ms_workers s t = CounterLoaded c \<Longrightarrow>
    worker_step X H hf2 rnd t s (s\<lparr>ms_workers := (ms_workers s)(t := Grinding c (sh_job (ms_shared s)))\<rparr>)"
| queue_share: "ms_workers s t = Grinding c myjob \<Longrightarrow>
    w \<in> set (shares_of (grind_job_with_scratch X H myjob c (rnd t) (of_nat t) hf2 obs i cnt scr))
      \<or> w \<in> set (shares_of (grind_job_x2_with_scratch X H myjob c (rnd t) (of_nat t) hf2 obs i cnt scr scr_b)) \<Longrightarrow>
    worker_step X H hf2 rnd t s (s\<lparr>ms_channel := ms_channel s @ [share_message X myjob w]\<rparr>)"
| grind_returns: "ms_workers s t = Grinding c myjob \<Longrightarrow>
    sh_job_counter (ms_shared s) \<noteq> c \<or> sh_exit (ms_shared s) \<Longrightarrow>
    worker_step X H hf2 rnd t s (s\<lparr>ms_workers := (ms_workers s)(t := AtTop)\<rparr>)"
| grind_fails: "ms_workers s t = Grinding c myjob \<Longrightarrow> grind_setup X myjob (rnd t) (of_nat t) = Inl e \<Longrightarrow>
    worker_step X H hf2 rnd t s (s\<lparr>ms_workers := (ms_workers s)(t := AtTop)\<rparr>)"
| worker_exit: "ms_workers s t = AtTop \<Longrightarrow> sh_exit (ms_shared s) \<Longrightarrow>
    worker_step X H hf2 rnd t s (s\<lparr>ms_workers := (ms_workers s)(t := Returned)\<rparr>)"

definition mstep :: "ext \<Rightarrow> hasher \<Rightarrow> u64 \<Rightarrow> (nat \<Rightarrow> byte list) \<Rightarrow> msys \<Rightarrow> msys \<Rightarrow> bool" where
  "mstep X H hf2 rnd s s' \<longleftrightarrow> conn_step s s' \<or> (\<exists>t<255. worker_step X H hf2 rnd t s s')"

inductive reachable :: "ext \<Rightarrow> hasher \<Rightarrow> u64 \<Rightarrow> (nat \<Rightarrow> byte list) \<Rightarrow> msys \<Rightarrow> bool" for X H hf2 rnd where
  init: "reachable X H hf2 rnd msys_init"
| step: "reachable X H hf2 rnd s \<Longrightarrow> mstep X H hf2 rnd s s' \<Longrightarrow> reachable X H hf2 rnd s'"

inductive_cases conn_stepE: "conn_step s s'"
inductive_cases worker_stepE: "worker_step X H hf2 rnd t s s'"

section \<open>Snapshots\<close>

text \<open>Job number \<open>n\<close>, counting from the default job before any push; the number of pushes counted.\<close>

definition job_no :: "msys \<Rightarrow> nat \<Rightarrow> get_block_template_result" where
  "job_no s n = (job_default # ms_received s) ! n"

definition counted :: "msys \<Rightarrow> nat" where
  "counted s = length (ms_received s) - (case ms_conn s of JobWritten _ \<Rightarrow> 1 | _ \<Rightarrow> 0)"

fun worker_inv :: "msys \<Rightarrow> worker_pc \<Rightarrow> bool" where
  "worker_inv s (CounterLoaded c) = (\<exists>k\<le>counted s. c = of_nat k)"
| "worker_inv s (Grinding c j) = (\<exists>k m. k \<le> counted s \<and> c = of_nat k \<and> k \<le> m \<and> m \<le> length (ms_received s) \<and> j = job_no s m)"
| "worker_inv s AtTop = True"
| "worker_inv s Returned = True"

definition snap_inv :: "msys \<Rightarrow> bool" where
  "snap_inv s \<longleftrightarrow> sh_job (ms_shared s) = job_no s (length (ms_received s))
     \<and> sh_job_counter (ms_shared s) = of_nat (counted s)
     \<and> (\<forall>r. ms_conn s = JobWritten r \<longrightarrow> ms_received s \<noteq> [])
     \<and> (\<forall>t. worker_inv s (ms_workers s t))"

lemma job_no_append: "n \<le> length (ms_received s) \<Longrightarrow> ms_received s' = ms_received s @ [r] \<Longrightarrow> job_no s' n = job_no s n"
  by (cases n) (simp_all add: job_no_def nth_append)

lemma worker_inv_Grinding:
  "k \<le> counted s \<Longrightarrow> c = of_nat k \<Longrightarrow> k \<le> m \<Longrightarrow> m \<le> length (ms_received s) \<Longrightarrow> j = job_no s m
     \<Longrightarrow> worker_inv s (Grinding c j)"
  by auto

text \<open>Pushes only extend the history, so what a worker holds stays true.\<close>

lemma worker_inv_mono:
  assumes "worker_inv s pc" "counted s \<le> counted s'"
    "ms_received s' = ms_received s \<or> ms_received s' = ms_received s @ [r]"
  shows "worker_inv s' pc"
proof (cases pc)
  case (CounterLoaded c)
  then show ?thesis using assms(1,2) by (auto intro: order_trans)
next
  case (Grinding c j)
  then obtain k m where km: "k \<le> counted s" "c = of_nat k" "k \<le> m" "m \<le> length (ms_received s)" "j = job_no s m"
    using assms(1) by auto
  have "job_no s' m = job_no s m" using assms(3) km(4) job_no_append by (auto simp: job_no_def)
  moreover have "m \<le> length (ms_received s')" using assms(3) km(4) by auto
  ultimately show ?thesis unfolding Grinding using km assms(2) by (intro worker_inv_Grinding[of k _ _ m]) simp_all
qed simp_all

lemma snap_inv_init: "snap_inv msys_init"
  by (simp add: snap_inv_def msys_init_def shared_new_def job_no_def counted_def)

lemma conn_step_history:
  assumes "conn_step s s'" "snap_inv s"
  shows "counted s \<le> counted s' \<and> (ms_received s' = ms_received s \<or> (\<exists>r. ms_received s' = ms_received s @ [r]))
    \<and> ms_workers s' = ms_workers s"
  using assms by (cases rule: conn_step.cases) (auto simp: counted_def)

lemma conn_step_shared:
  assumes "conn_step s s'" "snap_inv s"
  shows "sh_job (ms_shared s') = job_no s' (length (ms_received s')) \<and> sh_job_counter (ms_shared s') = of_nat (counted s')
    \<and> (\<forall>r. ms_conn s' = JobWritten r \<longrightarrow> ms_received s' \<noteq> [])"
  using assms
proof (cases rule: conn_step.cases)
  case (bump_counter result)
  then have ne: "0 < length (ms_received s)" using assms(2) by (simp add: snap_inv_def)
  then have "(of_nat (length (ms_received s) - 1) :: u64) + 1 = of_nat (length (ms_received s))"
    by (metis Suc_pred' of_nat_Suc add.commute)
  then show ?thesis using bump_counter assms(2) by (simp add: snap_inv_def counted_def job_no_def count_job_def)
qed (auto simp: snap_inv_def counted_def job_no_def write_job_def store_stats_def nth_append)

lemma snap_inv_conn:
  assumes "conn_step s s'" "snap_inv s"
  shows "snap_inv s'"
proof -
  note h = conn_step_history[OF assms] and sh = conn_step_shared[OF assms]
  have "worker_inv s' (ms_workers s' t)" for t
    using assms(2) h worker_inv_mono[of s "ms_workers s t" s'] by (auto simp: snap_inv_def)
  then show ?thesis using sh by (simp add: snap_inv_def)
qed

text \<open>A worker's step changes only its own program counter or the channel.\<close>

lemma snap_inv_worker:
  assumes "worker_step X H hf2 rnd t s s'" "snap_inv s"
  shows "snap_inv s'"
proof -
  have same: "ms_received s' = ms_received s" "counted s' = counted s" "ms_shared s' = ms_shared s" "ms_conn s' = ms_conn s"
    using assms(1) by (cases rule: worker_step.cases; simp add: counted_def)+
  have cl: "counted s \<le> length (ms_received s)" by (simp add: counted_def)
  have "worker_inv s (ms_workers s' u)" for u
    using assms
  proof (cases rule: worker_step.cases)
    case (clone_job c)
    then obtain k where k: "k \<le> counted s" "c = of_nat k"
      using assms(2) unfolding snap_inv_def by (metis worker_inv.simps(1))
    then have "worker_inv s (Grinding c (sh_job (ms_shared s)))"
      using assms(2) cl by (intro worker_inv_Grinding[of k _ _ "length (ms_received s)"]) (simp_all add: snap_inv_def)
    then show ?thesis using clone_job assms(2) by (simp add: snap_inv_def)
  qed (auto simp: snap_inv_def)
  then have "worker_inv s' (ms_workers s' u)" for u using worker_inv_mono[of s _ s'] same by simp
  then show ?thesis using assms(2) same by (simp add: snap_inv_def job_no_def)
qed

lemma reachable_snap_inv: "reachable X H hf2 rnd s \<Longrightarrow> snap_inv s"
  by (induction rule: reachable.induct) (auto simp: mstep_def snap_inv_init dest: snap_inv_conn snap_inv_worker)

text \<open>C11: in every reachable state of every interleaving (below 2 to the 64 job pushes), a worker whose
  snapshot of the job counter is still current grinds the newest job counted or the one being
  published, and exactly the published job when the connection thread is not between writing and counting a
  push: the snapshot order never leaves a worker on an outdated job without it noticing.\<close>

theorem snapshot_is_fresh:
  assumes "reachable X H hf2 rnd s" "length (ms_received s) < 2 ^ 64"
    "ms_workers s t = Grinding c myjob" "c = sh_job_counter (ms_shared s)"
  shows "(myjob = job_no s (counted s) \<or> myjob = sh_job (ms_shared s))
    \<and> ((\<forall>r. ms_conn s \<noteq> JobWritten r) \<longrightarrow> myjob = sh_job (ms_shared s))"
proof -
  have inv: "snap_inv s" by (rule reachable_snap_inv[OF assms(1)])
  then have "worker_inv s (Grinding c myjob)" unfolding snap_inv_def using assms(3) by metis
  then obtain k m where km: "k \<le> counted s" "c = of_nat k" "k \<le> m" "m \<le> length (ms_received s)" "myjob = job_no s m"
    by auto
  have b: "counted s \<le> length (ms_received s)" "length (ms_received s) \<le> Suc (counted s)"
    by (auto simp: counted_def split: conn_pc.split)
  have "(of_nat k :: u64) = of_nat (counted s)" using inv assms(4) km(2) by (simp add: snap_inv_def)
  from arg_cong[OF this, of unat] have "k = counted s" using km(1) b assms(2) by (simp add: unat_of_nat)
  then have "m = counted s \<or> m = length (ms_received s)" using km(3,4) b by linarith
  moreover have "counted s = length (ms_received s)" if "\<forall>r. ms_conn s \<noteq> JobWritten r"
    using that by (simp add: counted_def split: conn_pc.split)
  ultimately show ?thesis using km(5) inv by (auto simp: snap_inv_def)
qed

section \<open>Shares on the wire\<close>

text \<open>A message that submits a canonical share of a received job.\<close>

definition message_ok :: "ext \<Rightarrow> hasher \<Rightarrow> u64 \<Rightarrow> get_block_template_result list \<Rightarrow> submit_block_params \<Rightarrow> bool" where
  "message_ok X H hf2 received m \<longleftrightarrow>
     (\<exists>j\<in>set received. \<exists>w work0 diff. sb_jobid m = j_jobid j \<and> sb_mbl_blob m = hex_encode X w
        \<and> hex_decode X (j_blockhashing_blob j) = Some work0 \<and> parse_decimal X (j_difficulty j) = Some diff
        \<and> take 36 w = take 36 work0 \<and> length w = 48
        \<and> (if work_height work0 \<ge> hf2
           then \<exists>canon dbg. astrobwtv3_full (h_prims H) (sa32 (h_cfg H) (h_backends H)) w = Some (canon, dbg)
                  \<and> check_pow_hash_big canon diff = Some True
           else check_pow_hash_big (pow16 (h_prims H) (h_prims16 H) w) diff = Some True))"

lemma message_ok_append: "message_ok X H hf2 rs m \<Longrightarrow> message_ok X H hf2 (rs @ [r]) m"
  unfolding message_ok_def by fastforce

lemma job_no_cases: "m \<le> length (ms_received s) \<Longrightarrow> job_no s m = job_default \<or> job_no s m \<in> set (ms_received s)"
  by (cases m) (auto simp: job_no_def)

lemma job_default_fails: "grind_setup X job_default random12 tid = Inl BadBlob"
  by (simp add: grind_setup_def job_default_def MINIBLOCK_SIZE_def)

text \<open>The digests of the two hash crates have 32 bytes.\<close>

definition digests_ok :: "hasher \<Rightarrow> bool" where
  "digests_ok H \<longleftrightarrow> (\<forall>x. length (sha256 (h_prims H) x) = 32) \<and> (\<forall>x. length (sha3_256 (h_prims16 H) x) = 32)"

lemma queued_message_ok:
  assumes "ext_ok X" "digests_ok H" "length r = 12" "j = job_default \<or> j \<in> set rs"
    "w \<in> set (shares_of (grind_job_with_scratch X H j c r tid hf2 obs i cnt scr))
      \<or> w \<in> set (shares_of (grind_job_x2_with_scratch X H j c r tid hf2 obs i cnt scr scr_b))"
  shows "message_ok X H hf2 rs (share_message X j w)"
proof -
  obtain work height target where s: "grind_setup X j r tid = Inr (work, height, target)"
    using shares_share_ok[OF assms(1,3,5)] by blast
  then have j: "j \<in> set rs" using assms(4) by (auto simp: job_default_fails)
  obtain work0 diff where d: "hex_decode X (j_blockhashing_blob j) = Some work0" "parse_decimal X (j_difficulty j) = Some diff"
    using grind_setup_Inr[OF s] by blast
  have "\<And>x. length (sha256 (h_prims H) x) = 32" "\<And>x. length (sha3_256 (h_prims16 H) x) = 32"
    using assms(2) by (simp_all add: digests_ok_def)
  note c = shares_canonical[OF assms(1,3,5) d this]
  show ?thesis
    unfolding message_ok_def
    by (rule bexI[OF _ j], rule exI[of _ w], rule exI[of _ work0], rule exI[of _ diff])
      (use c d in \<open>auto simp: share_message_def\<close>)
qed

definition msgs_inv :: "ext \<Rightarrow> hasher \<Rightarrow> u64 \<Rightarrow> msys \<Rightarrow> bool" where
  "msgs_inv X H hf2 s \<longleftrightarrow> (\<forall>m\<in>set (ms_channel s) \<union> set (ms_sent s). message_ok X H hf2 (ms_received s) m)"

lemma msgs_inv_conn: "conn_step s s' \<Longrightarrow> msgs_inv X H hf2 s \<Longrightarrow> msgs_inv X H hf2 s'"
  by (cases rule: conn_step.cases) (auto simp: msgs_inv_def ball_Un intro!: message_ok_append)

lemma msgs_inv_worker:
  assumes "worker_step X H hf2 rnd t s s'" "msgs_inv X H hf2 s" "snap_inv s"
    "ext_ok X" "digests_ok H" "length (rnd t) = 12"
  shows "msgs_inv X H hf2 s'"
  using assms(1)
proof (cases rule: worker_step.cases)
  case (queue_share c myjob w obs i cnt scr scr_b)
  have "worker_inv s (Grinding c myjob)" using assms(3) queue_share unfolding snap_inv_def by metis
  then have "myjob = job_default \<or> myjob \<in> set (ms_received s)" using job_no_cases by auto
  from queued_message_ok[OF assms(4-6) this queue_share(3)] show ?thesis
    using queue_share(1) assms(2) by (auto simp: msgs_inv_def)
qed (use assms(2) in \<open>auto simp: msgs_inv_def\<close>)

lemma reachable_msgs_inv:
  assumes "reachable X H hf2 rnd s" "ext_ok X" "digests_ok H" "\<And>t. length (rnd t) = 12"
  shows "msgs_inv X H hf2 s"
  using assms(1)
proof (induction rule: reachable.induct)
  case init
  show ?case by (simp add: msgs_inv_def msys_init_def)
next
  case (step s s')
  then show ?case
    using msgs_inv_conn msgs_inv_worker[OF _ step.IH reachable_snap_inv[OF step.hyps(1)] assms(2,3)] assms(4)
    by (auto simp: mstep_def)
qed

text \<open>C12: in every interleaving of the connection thread and the workers, with any hash engines on the mining
  path, every share written to the socket answers a job that was received: it echoes that job's
  identifier, keeps the first 36 bytes of its blob, and its canonical hash meets that job's difficulty.\<close>

theorem sent_shares_valid:
  assumes "reachable X H hf2 rnd s" "ext_ok X" "digests_ok H" "\<And>t. length (rnd t) = 12" "m \<in> set (ms_sent s)"
  shows "message_ok X H hf2 (ms_received s) m"
  using reachable_msgs_inv[OF assms(1-4)] assms(5) by (simp add: msgs_inv_def)

text \<open>A run of the system for the witnesses: connect, publish the demonstration job, let worker 3
  take its snapshot, find a share and submit it.\<close>

definition demo_end :: msys where
  "demo_end =
     (let sh = store_stats demo_job (count_job (write_job demo_job (shared_new\<lparr>sh_connected := True\<rparr>)));
          m = share_message demo_ext demo_job (put_counter (stamp_job (1 # replicate 47 0) (replicate 12 2) 3) 1)
      in \<lparr>ms_shared = sh, ms_conn = Polling, ms_workers = (\<lambda>_. AtTop)(3 := Grinding 1 demo_job), ms_channel = [],
          ms_received = [demo_job], ms_sent = [m]\<rparr>)"

lemma demo_share:
  "put_counter (stamp_job (1 # replicate 47 0) (replicate 12 2) 3) 1
     \<in> set (shares_of (grind_job_with_scratch demo_ext demo_hasher demo_job 1 (replicate 12 2) (of_nat 3) 1 demo_obs 0 0 scratch_new))"
  using demo_grind by auto

lemma demo_reachable: "reachable demo_ext demo_hasher 1 (\<lambda>_. replicate 12 2) demo_end"
proof -
  let ?R = "reachable demo_ext demo_hasher 1 (\<lambda>_. replicate 12 2)"
  let ?w = "put_counter (stamp_job (1 # replicate 47 0) (replicate 12 2) 3) 1"
  have conn: "?R s \<Longrightarrow> conn_step s s' \<Longrightarrow> ?R s'" for s s' by (rule reachable.step) (auto simp: mstep_def)
  have work: "?R s \<Longrightarrow> worker_step demo_ext demo_hasher 1 (\<lambda>_. replicate 12 2) 3 s s' \<Longrightarrow> ?R s'" for s s'
    by (rule reachable.step) (auto simp: mstep_def intro!: exI[of _ 3])
  let ?sh1 = "shared_new\<lparr>sh_connected := True\<rparr>"
  let ?sh2 = "write_job demo_job ?sh1" let ?sh3 = "count_job ?sh2" let ?sh4 = "store_stats demo_job ?sh3"
  have "?R (msys_init\<lparr>ms_shared := ?sh1\<rparr>)"
    using conn[OF reachable.init conn_step.connected] by (simp add: msys_init_def shared_new_def)
  from conn[OF this conn_step.recv_job[of _ demo_job]]
  have "?R (msys_init\<lparr>ms_shared := ?sh2, ms_conn := JobWritten demo_job, ms_received := [demo_job]\<rparr>)" by (simp add: msys_init_def)
  from conn[OF this conn_step.bump_counter[of _ demo_job]]
  have "?R (msys_init\<lparr>ms_shared := ?sh3, ms_conn := JobCounted demo_job, ms_received := [demo_job]\<rparr>)" by (simp add: msys_init_def)
  from conn[OF this conn_step.stats[of _ demo_job]]
  have "?R (msys_init\<lparr>ms_shared := ?sh4, ms_received := [demo_job]\<rparr>)" by (simp add: msys_init_def)
  from work[OF this worker_step.load_counter]
  have "?R (msys_init\<lparr>ms_shared := ?sh4, ms_received := [demo_job], ms_workers := (\<lambda>_. AtTop)(3 := CounterLoaded 1)\<rparr>)"
    by (simp add: msys_init_def shared_new_def write_job_def count_job_def store_stats_def)
  from work[OF this worker_step.clone_job[of _ _ 1]]
  have "?R (msys_init\<lparr>ms_shared := ?sh4, ms_received := [demo_job], ms_workers := (\<lambda>_. AtTop)(3 := Grinding 1 demo_job)\<rparr>)"
    by (simp add: msys_init_def shared_new_def write_job_def count_job_def store_stats_def)
  from work[OF this worker_step.queue_share[OF _ disjI1[OF demo_share]]]
  have "?R (msys_init\<lparr>ms_shared := ?sh4, ms_received := [demo_job], ms_workers := (\<lambda>_. AtTop)(3 := Grinding 1 demo_job),
      ms_channel := [share_message demo_ext demo_job ?w]\<rparr>)" by (simp add: msys_init_def)
  from conn[OF this conn_step.send_share[of _ "share_message demo_ext demo_job ?w" "[]"]]
  show ?thesis by (simp add: demo_end_def msys_init_def shared_new_def write_job_def count_job_def store_stats_def)
qed

theorem snapshot_is_fresh_witness:
  "demo_job = sh_job (ms_shared demo_end)"
  using snapshot_is_fresh[OF demo_reachable, of 3 1 demo_job]
  by (simp add: demo_end_def Let_def write_job_def count_job_def store_stats_def shared_new_def)

lemma demo_digests_ok: "digests_ok demo_hasher"
  by (simp add: digests_ok_def demo_hasher_def demo_prims_def)

theorem sent_shares_valid_witness:
  "message_ok demo_ext demo_hasher 1 [demo_job] (hd (ms_sent demo_end))"
  using sent_shares_valid[OF demo_reachable demo_ext_ok demo_digests_ok, of "hd (ms_sent demo_end)"]
  by (simp add: demo_end_def Let_def)

end
