(* ===== verification/SuffixArray.thy ===== *)
theory SuffixArray
  imports Prelude "HOL-Library.Multiset" "HOL-Library.Product_Lexorder" "HOL-Library.List_Lexorder" "HOL-Library.Sublist"
begin

text \<open>
  The reference suffix array (\<open>astrobwt/src/suffixarray.rs\<close>): prefix doubling with an implicit sentinel
  smaller than every byte, the oracle that the fast engines are compared with. Positions are \<open>i32\<close>, ranks
  \<open>i64\<close> with -1 beyond the end, the step \<open>k\<close> is a \<open>usize\<close>. Lemmas: on a text below \<open>2 ^ 31\<close> bytes the
  result is the permutation of the positions that sorts the suffixes, and there is only one such
  permutation; a longer text makes the function panic, because its positions do not fit.
\<close>

section \<open>The suffix array\<close>

text \<open>Signed integers are words read with \<open>sint\<close>; \<open>usize\<close> is 64 bits wide.\<close>

type_synonym i32 = "32 word"
type_synonym i64 = "64 word"
type_synonym usize = "64 word"

text \<open>\<open>i as usize\<close> for an \<open>i32\<close>: sign extension.\<close>

definition as_usize :: "i32 \<Rightarrow> usize" where
  "as_usize i = scast i"

text \<open>The range \<open>0..m\<close> of \<open>i32\<close>, empty when \<open>m\<close> is not positive.\<close>

definition i32_range :: "i32 \<Rightarrow> i32 list" where
  "i32_range m = map word_of_int [0..sint m - 1]"

text \<open>The closure \<open>key\<close>, its two \<open>i64\<close> components read as signed numbers. The positions come from
  \<open>0..n as i32\<close> and lie below \<open>n\<close>, so that \<open>rank[i]\<close> is in range.\<close>

definition key :: "i64 list \<Rightarrow> nat \<Rightarrow> usize \<Rightarrow> i32 \<Rightarrow> int \<times> int" where
  "key rank n k i =
     (let i' = as_usize i; second = (if i' + k < of_nat n then rank ! unat (i' + k) else -1)
      in (sint (rank ! unat i'), sint second))"

text \<open>\<open>sa.sort_by(|a, b| key(a).cmp(&key(b)))\<close>, a stable sort.\<close>

definition sort_by_key :: "('a \<Rightarrow> int \<times> int) \<Rightarrow> 'a list \<Rightarrow> 'a list" where
  "sort_by_key f sa = sort_key f sa"

text \<open>One round of the re-ranking loop; \<open>None\<close> is the panic of the index \<open>sa[w]\<close>.\<close>

definition rerank_step :: "(i32 \<Rightarrow> int \<times> int) \<Rightarrow> i32 list \<Rightarrow> i64 list \<Rightarrow> nat \<Rightarrow> i64 list option" where
  "rerank_step f sa tmp w =
     (if w < length sa then
        (let prev = sa ! (w - 1); cur = sa ! w; inc = (if f prev = f cur then 0 else 1)
         in Some (tmp[unat (as_usize cur) := tmp ! unat (as_usize prev) + inc]))
      else None)"

definition rerank :: "(i32 \<Rightarrow> int \<times> int) \<Rightarrow> nat \<Rightarrow> i32 list \<Rightarrow> i64 list \<Rightarrow> i64 list option" where
  "rerank f n sa tmp =
     (if sa = [] then None
      else foldl (\<lambda>t w. Option.bind t (\<lambda>tmp. rerank_step f sa tmp w))
             (Some (tmp[unat (as_usize (sa ! 0)) := 0])) [1..<n])"

text \<open>The \<open>while\<close> loop; the two rank buffers are swapped after every pass. \<open>None\<close> is a panic, or a
  loop that does not end.\<close>

partial_function (option) sa_loop :: "nat \<Rightarrow> usize \<Rightarrow> i32 list \<Rightarrow> i64 list \<Rightarrow> i64 list \<Rightarrow> i32 list option" where
  "sa_loop n k sa rank tmp =
     (if k < of_nat n then
        (let f = key rank n k; sa' = sort_by_key f sa in
         Option.bind (rerank f n sa' tmp) (\<lambda>rank'.
           if rank' ! unat (as_usize (sa' ! (n - 1))) = of_nat n - 1 then Some sa'
           else sa_loop n (push_bit 1 k) sa' rank' rank))
      else Some sa)"

definition suffix_array :: "byte list \<Rightarrow> i32 list option" where
  "suffix_array text =
     (let n = length text in
      if n = 0 then Some []
      else if n = 1 then Some [0]
      else sa_loop n 1 (i32_range (of_nat n)) (map ucast text) (replicate n 0))"

section \<open>Prefix doubling on mathematical integers\<close>

text \<open>The algorithm of the source with positions as natural numbers and ranks as integers: the intermediate
  step between the model and the specification.\<close>

definition nkey :: "int list \<Rightarrow> nat \<Rightarrow> nat \<Rightarrow> nat \<Rightarrow> int \<times> int" where
  "nkey rank n k i = (rank ! i, if i + k < n then rank ! (i + k) else -1)"

definition nrerank_step :: "(nat \<Rightarrow> int \<times> int) \<Rightarrow> nat list \<Rightarrow> int list \<Rightarrow> nat \<Rightarrow> int list" where
  "nrerank_step f sa tmp w =
     (let prev = sa ! (w - 1); cur = sa ! w; inc = (if f prev = f cur then 0 else 1)
      in tmp[cur := tmp ! prev + inc])"

definition nrerank :: "(nat \<Rightarrow> int \<times> int) \<Rightarrow> nat \<Rightarrow> nat list \<Rightarrow> int list \<Rightarrow> int list" where
  "nrerank f n sa tmp = foldl (nrerank_step f sa) (tmp[sa ! 0 := 0]) [1..<n]"

text \<open>The \<open>while\<close> loop at \<open>k = 2 ^ e\<close>; the two rank buffers are swapped after every pass.\<close>

function nsa_loop :: "nat \<Rightarrow> nat \<Rightarrow> nat list \<Rightarrow> int list \<Rightarrow> int list \<Rightarrow> nat list" where
  "nsa_loop n e sa rank tmp =
     (let k = 2 ^ e in
      if k < n then
        (let f = nkey rank n k; sa' = sort_by_key f sa; rank' = nrerank f n sa' tmp in
         if rank' ! (sa' ! (n - 1)) = int n - 1 then sa' else nsa_loop n (Suc e) sa' rank' rank)
      else sa)"
  by pat_completeness auto
termination
proof (relation "measure (\<lambda>(n, e, sa, rank, tmp). n - e)")
  fix n e :: nat and sa rank tmp and x and f sa' rank'
  assume "x = (2::nat) ^ e" "x < n"
  moreover have "e < 2 ^ e" by (rule less_exp)
  ultimately have "e < n" by linarith
  then show "((n, Suc e, sa' :: nat list, rank' :: int list, rank :: int list), n, e, sa :: nat list, rank, tmp :: int list)
      \<in> measure (\<lambda>(n, e, sa, rank, tmp). n - e)"
    by simp
qed simp

declare nsa_loop.simps [simp del]

section \<open>Specification\<close>

definition is_suffix_array :: "byte list \<Rightarrow> nat list \<Rightarrow> bool" where
  "is_suffix_array text sa \<longleftrightarrow> mset sa = mset [0..<length text] \<and> sorted_wrt (\<lambda>i j. drop i text < drop j text) sa"

text \<open>The suffix array is unique.\<close>

lemma suffix_array_unique:
  assumes "is_suffix_array text xs" "is_suffix_array text ys"
  shows "xs = ys"
proof -
  have strict: "map (\<lambda>i. drop i text) xs = map (\<lambda>i. drop i text) ys"
  proof (rule sorted_distinct_set_unique)
    have s: "sorted (map (\<lambda>i. drop i text) zs)" "distinct (map (\<lambda>i. drop i text) zs)" if "is_suffix_array text zs" for zs
    proof -
      have "sorted_wrt (<) (map (\<lambda>i. drop i text) zs)" using that by (simp add: is_suffix_array_def sorted_wrt_map)
      then show "sorted (map (\<lambda>i. drop i text) zs)" "distinct (map (\<lambda>i. drop i text) zs)"
        by (simp_all add: strict_sorted_iff)
    qed
    show "sorted (map (\<lambda>i. drop i text) xs)" "distinct (map (\<lambda>i. drop i text) xs)" using s assms(1) by blast+
    show "sorted (map (\<lambda>i. drop i text) ys)" "distinct (map (\<lambda>i. drop i text) ys)" using s assms(2) by blast+
    have "set xs = set ys" using assms mset_eq_setD[of xs ys] by (simp add: is_suffix_array_def)
    then show "set (map (\<lambda>i. drop i text) xs) = set (map (\<lambda>i. drop i text) ys)" by simp
  qed
  have inj: "inj_on (\<lambda>i. drop i text) (set xs \<union> set ys)"
  proof -
    have "set xs \<union> set ys \<subseteq> {0..<length text}"
      using assms mset_eq_setD[of xs "[0..<length text]"] mset_eq_setD[of ys "[0..<length text]"] by (simp add: is_suffix_array_def)
    moreover have "inj_on (\<lambda>i. drop i text) {0..<length text}"
      by (rule inj_onI) (metis atLeastLessThan_iff diff_diff_cancel length_drop less_or_eq_imp_le)
    ultimately show ?thesis by (rule inj_on_subset[rotated])
  qed
  show ?thesis by (rule map_inj_on[OF strict inj])
qed

section \<open>Comparing by prefixes\<close>

abbreviation pre :: "byte list \<Rightarrow> nat \<Rightarrow> nat \<Rightarrow> byte list" where
  "pre text k i \<equiv> take k (drop i text)"

lemma pre_double: "pre text (2 * k) i = pre text k i @ pre text k (i + k)"
  by (simp add: mult_2 take_add add.commute)

lemma lex_append_same: "a @ b < a @ b' \<longleftrightarrow> b < (b' :: byte list)"
  by (induction a) simp_all

lemma lex_append_less: "a < a' \<Longrightarrow> (prefix a a' \<Longrightarrow> b = []) \<Longrightarrow> a @ b < a' @ (b' :: byte list)"
proof (induction a arbitrary: a')
  case Nil
  then show ?case by (cases a') auto
next
  case (Cons x a)
  then show ?case by (cases a') auto
qed

lemma prefix_less_length: "a < b \<Longrightarrow> prefix a b \<Longrightarrow> length a < length (b :: byte list)"
  by (elim prefixE) auto

lemma pre_prefix_end:
  assumes "pre text k i < pre text k j" "prefix (pre text k i) (pre text k j)"
  shows "pre text k (i + k) = []"
proof -
  have "length (pre text k i) < length (pre text k j)"
    using assms by (rule prefix_less_length)
  then have "length (pre text k i) < k" by simp
  then show ?thesis by simp
qed

lemma pre_double_less:
  "pre text (2 * k) i < pre text (2 * k) j \<longleftrightarrow>
     pre text k i < pre text k j \<or> pre text k i = pre text k j \<and> pre text k (i + k) < pre text k (j + k)"
proof -
  have lt: "pre text k i @ pre text k (i + k) < pre text k j @ pre text k (j + k)" if "pre text k i < pre text k j" for i j
    using lex_append_less[OF that] pre_prefix_end[OF that] by blast
  consider "pre text k i < pre text k j" | "pre text k j < pre text k i" | "pre text k i = pre text k j" by force
  then show ?thesis
  proof cases
    case 1
    then show ?thesis using lt by (simp add: pre_double)
  next
    case 2
    then show ?thesis using lt[OF 2] by (auto simp: pre_double)
  next
    case 3
    then show ?thesis by (simp add: pre_double lex_append_same)
  qed
qed

lemma take_less: "take m xs < take m ys \<Longrightarrow> xs < (ys :: byte list)"
proof -
  assume lt: "take m xs < take m ys"
  have "take m xs @ drop m xs < take m ys @ drop m ys"
  proof (rule lex_append_less[OF lt])
    assume p: "prefix (take m xs) (take m ys)"
    have "length (take m xs) < length (take m ys)"
      using lt p by (rule prefix_less_length)
    then show "drop m xs = []" by (simp add: min_def split: if_splits)
  qed
  then show ?thesis by simp
qed

section \<open>Ranks\<close>

definition rank_ok :: "byte list \<Rightarrow> nat \<Rightarrow> int list \<Rightarrow> bool" where
  "rank_ok text k rank \<longleftrightarrow> length rank = length text \<and> (\<forall>i<length text. 0 \<le> rank ! i)
     \<and> (\<forall>i<length text. \<forall>j<length text. rank ! i < rank ! j \<longleftrightarrow> pre text k i < pre text k j)"

lemma rank_ok_bytes: "rank_ok text 1 (map (\<lambda>b. int (unat b)) text)"
  by (auto simp: rank_ok_def take_Suc Cons_nth_drop_Suc[symmetric] word_less_def)

text \<open>The sentinel beyond the end.\<close>

lemma rank_sentinel:
  assumes "rank_ok text k rank" "0 < k"
  shows "(if i < length text then rank ! i else -1) < (if j < length text then rank ! j else -1)
    \<longleftrightarrow> pre text k i < pre text k j"
proof -
  have ne: "pre text k x \<noteq> []" "0 \<le> rank ! x" if "x < length text" for x
    using that assms by (simp_all add: rank_ok_def)
  have em: "pre text k x = []" if "\<not> x < length text" for x using that by simp
  have pos: "[] < ys \<longleftrightarrow> ys \<noteq> []" for ys :: "byte list" by (cases ys) simp_all
  show ?thesis
    using assms(1) ne[of i] ne[of j] em[of i] em[of j] pos[of "pre text k j"] pos[of "pre text k i"]
    by (cases "i < length text"; cases "j < length text") (auto simp: rank_ok_def)
qed

lemma key_less:
  assumes "rank_ok text k rank" "0 < k" "i < length text" "j < length text"
  shows "nkey rank (length text) k i < nkey rank (length text) k j \<longleftrightarrow> pre text (2 * k) i < pre text (2 * k) j"
proof -
  have a: "rank ! x < rank ! y \<longleftrightarrow> pre text k x < pre text k y" if "x < length text" "y < length text" for x y
    using that assms(1) by (simp add: rank_ok_def)
  have e: "rank ! i = rank ! j \<longleftrightarrow> pre text k i = pre text k j"
    using a[OF assms(3,4)] a[OF assms(4,3)] by (metis linorder_neq_iff)
  show ?thesis
    unfolding nkey_def less_prod_simp pre_double_less
    using a[OF assms(3,4)] e rank_sentinel[OF assms(1,2), of "i + k" "j + k"] by (metis less_imp_le order_le_less)
qed

lemma key_eq:
  assumes "rank_ok text k rank" "0 < k" "i < length text" "j < length text"
  shows "nkey rank (length text) k i = nkey rank (length text) k j \<longleftrightarrow> pre text (2 * k) i = pre text (2 * k) j"
  using key_less[OF assms] key_less[OF assms(1,2,4,3)] by (metis linorder_neq_iff)

section \<open>Re-ranking\<close>

fun changes :: "(nat \<Rightarrow> int \<times> int) \<Rightarrow> nat list \<Rightarrow> nat \<Rightarrow> nat" where
  "changes f sa 0 = 0"
| "changes f sa (Suc w) = changes f sa w + (if f (sa ! w) = f (sa ! Suc w) then 0 else 1)"

lemma length_rerank_fold [simp]: "length (foldl (nrerank_step f sa) tmp ws) = length tmp"
  by (induction ws arbitrary: tmp) (simp_all add: nrerank_step_def Let_def)

lemma rerank_prefix:
  assumes "distinct sa" "length sa = n" "set sa = {0..<n}" "length tmp = n" "0 < m" "m \<le> n" "w < m"
  shows "foldl (nrerank_step f sa) (tmp[sa ! 0 := 0]) [1..<m] ! (sa ! w) = int (changes f sa w)"
  using assms(5-7)
proof (induction m arbitrary: w rule: nat_induct_non_zero)
  case 1
  then have "sa ! 0 < n" using assms(2,3) by (metis atLeastLessThan_iff nth_mem One_nat_def Suc_le_lessD)
  then show ?case using 1 assms(4) by simp
next
  case (Suc m)
  let ?t = "foldl (nrerank_step f sa) (tmp[sa ! 0 := 0]) [1..<m]"
  have lt: "length ?t = n" using assms(4) by simp
  have bnd: "sa ! x < n" if "x < n" for x using that assms(2,3) by (metis atLeastLessThan_iff nth_mem)
  have step: "foldl (nrerank_step f sa) (tmp[sa ! 0 := 0]) [1..<Suc m]
      = ?t[sa ! m := ?t ! (sa ! (m - 1)) + (if f (sa ! (m - 1)) = f (sa ! m) then 0 else 1)]"
    using Suc.hyps by (simp add: nrerank_step_def Let_def)
  show ?case
  proof (cases "w = m")
    case True
    have "?t ! (sa ! (m - 1)) = int (changes f sa (m - 1))" using Suc by simp
    moreover obtain v where "m = Suc v" using Suc.hyps by (cases m) simp_all
    ultimately show ?thesis unfolding step using True lt bnd[of m] Suc.prems by simp
  next
    case False
    then have "w < m" using Suc.prems by simp
    then have "sa ! w \<noteq> sa ! m" using assms(1,2) Suc.prems by (simp add: nth_eq_iff_index_eq)
    then show ?thesis unfolding step using Suc.IH[of w] \<open>w < m\<close> Suc.prems by simp
  qed
qed

lemma changes_sorted:
  assumes "sorted (map f sa)" "u \<le> w" "w < length sa"
  shows "changes f sa u \<le> changes f sa w \<and> (changes f sa u = changes f sa w \<longleftrightarrow> f (sa ! u) = f (sa ! w))"
  using assms(2,3)
proof (induction w rule: dec_induct)
  case (step w)
  have le: "f (sa ! u) \<le> f (sa ! w)" "f (sa ! w) \<le> f (sa ! Suc w)"
    using assms(1) step sorted_nth_mono[of "map f sa" u w] sorted_nth_mono[of "map f sa" w "Suc w"] by simp_all
  have IH: "changes f sa u \<le> changes f sa w \<and> (changes f sa u = changes f sa w \<longleftrightarrow> f (sa ! u) = f (sa ! w))"
    using step by simp
  show ?case
  proof (cases "f (sa ! w) = f (sa ! Suc w)")
    case True
    then show ?thesis using IH by simp
  next
    case False
    then have "f (sa ! u) \<noteq> f (sa ! Suc w)" using le by (metis order_antisym)
    then show ?thesis using IH False by simp
  qed
qed simp

lemma changes_le: "changes f sa w \<le> w"
  by (induction w) auto

lemma changes_add: "changes f sa (w + d) \<le> changes f sa w + d"
  by (induction d) auto

lemma changes_less:
  assumes "sorted (map f sa)" "u < length sa" "w < length sa"
  shows "changes f sa u < changes f sa w \<longleftrightarrow> f (sa ! u) < f (sa ! w)"
proof (cases "u \<le> w")
  case True
  then have "f (sa ! u) \<le> f (sa ! w)" using sorted_nth_mono[OF assms(1), of u w] assms(3) by simp
  then show ?thesis using changes_sorted[OF assms(1) True assms(3)] by (simp add: less_le)
next
  case False
  then have "w \<le> u" by simp
  then have "f (sa ! w) \<le> f (sa ! u)" using sorted_nth_mono[OF assms(1), of w u] assms(2) by simp
  then show ?thesis using changes_sorted[OF assms(1) \<open>w \<le> u\<close> assms(2)] by (simp add: not_less[symmetric])
qed

text \<open>The positions in the order \<open>sa\<close>, and ranks that follow the order of \<open>f\<close>.\<close>

definition positions :: "nat \<Rightarrow> nat list \<Rightarrow> bool" where
  "positions n sa \<longleftrightarrow> mset sa = mset [0..<n]"

lemma positionsD:
  assumes "positions n sa"
  shows "set sa = {0..<n}" "length sa = n" "distinct sa"
  using assms mset_eq_setD[of sa "[0..<n]"] mset_eq_length[of sa "[0..<n]"] mset_eq_imp_distinct_iff[of sa "[0..<n]"]
  by (simp_all add: positions_def)

lemma positions_nth: "positions n sa \<Longrightarrow> w < n \<Longrightarrow> sa ! w < n"
  using positionsD[of n sa] by (metis atLeastLessThan_iff nth_mem)

lemma positions_index: "positions n sa \<Longrightarrow> i < n \<Longrightarrow> \<exists>w<n. i = sa ! w"
  using positionsD[of n sa] by (metis atLeastLessThan_iff in_set_conv_nth le0)

lemma rerank_value:
  assumes "positions n sa" "length tmp = n" "w < n"
  shows "nrerank f n sa tmp ! (sa ! w) = int (changes f sa w)"
  unfolding nrerank_def
  using rerank_prefix[OF positionsD(3)[OF assms(1)] positionsD(2)[OF assms(1)] positionsD(1)[OF assms(1)] assms(2) _ order_refl assms(3), of f] assms(3)
  by simp

lemma rerank_ok:
  assumes "positions n sa" "sorted (map f sa)" "length tmp = n" "n = length text"
    "\<And>i j. i < n \<Longrightarrow> j < n \<Longrightarrow> f i < f j \<longleftrightarrow> pre text k i < pre text k j"
  shows "rank_ok text k (nrerank f n sa tmp)"
  unfolding rank_ok_def assms(4)[symmetric]
proof (intro conjI allI impI)
  show "length (nrerank f n sa tmp) = n" using assms(3) by (simp add: nrerank_def)
  fix i assume "i < n"
  then obtain w where "w < n" "i = sa ! w" using positions_index[OF assms(1)] by blast
  then show "0 \<le> nrerank f n sa tmp ! i" using rerank_value[OF assms(1,3)] by simp
next
  fix i j assume ij: "i < n" "j < n"
  obtain u where u: "u < n" "i = sa ! u" using positions_index[OF assms(1) ij(1)] by blast
  obtain w where w: "w < n" "j = sa ! w" using positions_index[OF assms(1) ij(2)] by blast
  have "changes f sa u < changes f sa w \<longleftrightarrow> f i < f j"
    using changes_less[OF assms(2)] u w positionsD(2)[OF assms(1)] by simp
  then show "nrerank f n sa tmp ! i < nrerank f n sa tmp ! j \<longleftrightarrow> pre text k i < pre text k j"
    using rerank_value[OF assms(1,3)] u w assms(5)[OF ij] by simp
qed

text \<open>All ranks differ when the last one is the largest possible.\<close>

lemma last_rank_strict:
  assumes "positions n sa" "sorted (map f sa)" "length tmp = n" "0 < n" "nrerank f n sa tmp ! (sa ! (n - 1)) = int n - 1"
    "u < w" "w < n"
  shows "f (sa ! u) < f (sa ! w)"
proof -
  have last: "changes f sa (n - 1) = n - 1" using assms(4,5) rerank_value[OF assms(1,3), of "n - 1" f] by simp
  have id: "changes f sa x = x" if "x < n" for x
    using changes_add[of f sa x "n - 1 - x"] changes_le[of f sa x] last that by simp
  show ?thesis
    using changes_less[OF assms(2), of u w] id[of u] id[of w] assms(6,7) positionsD(2)[OF assms(1)] by simp
qed

text \<open>One pass of the loop: the sorted positions and the new ranks.\<close>

lemma pass_correct:
  assumes "rank_ok text k rank" "0 < k" "positions (length text) sa" "length tmp = length text" "text \<noteq> []"
    and f: "f = nkey rank (length text) k" and sa': "sa' = sort_by_key f sa" and rank': "rank' = nrerank f (length text) sa' tmp"
  shows "positions (length text) sa'" "rank_ok text (2 * k) rank'"
    "sorted_wrt (\<lambda>i j. pre text (2 * k) i \<le> pre text (2 * k) j) sa'"
    "rank' ! (sa' ! (length text - 1)) = int (length text) - 1 \<Longrightarrow> is_suffix_array text sa'"
proof -
  let ?n = "length text"
  show ps: "positions ?n sa'" using assms(3) by (simp add: sa' sort_by_key_def positions_def)
  have sorted: "sorted (map f sa')" by (simp add: sa' sort_by_key_def)
  have fl: "f i < f j \<longleftrightarrow> pre text (2 * k) i < pre text (2 * k) j" if "i < ?n" "j < ?n" for i j
    unfolding f using key_less[OF assms(1,2) that] .
  show "rank_ok text (2 * k) rank'" unfolding rank' by (rule rerank_ok[OF ps sorted assms(4) refl fl])
  show "sorted_wrt (\<lambda>i j. pre text (2 * k) i \<le> pre text (2 * k) j) sa'"
    unfolding sorted_wrt_iff_nth_less
  proof (intro allI impI)
    fix u w assume uw: "u < w" "w < length sa'"
    then have "\<not> f (sa' ! w) < f (sa' ! u)" using sorted_nth_mono[OF sorted, of u w] by (simp add: not_less)
    moreover have "sa' ! u < ?n" "sa' ! w < ?n" using positions_nth[OF ps] uw positionsD(2)[OF ps] by simp_all
    ultimately show "pre text (2 * k) (sa' ! u) \<le> pre text (2 * k) (sa' ! w)"
      using fl[of "sa' ! w" "sa' ! u"] by (metis linorder_not_less)
  qed
  assume last: "rank' ! (sa' ! (?n - 1)) = int ?n - 1"
  have "drop (sa' ! u) text < drop (sa' ! w) text" if uw: "u < w" "w < ?n" for u w
  proof -
    have "f (sa' ! u) < f (sa' ! w)"
      using last_rank_strict[OF ps sorted assms(4) _ last[unfolded rank'] uw] assms(5) by simp
    moreover have "sa' ! u < ?n" "sa' ! w < ?n" using positions_nth[OF ps] uw by simp_all
    ultimately show ?thesis using fl[of "sa' ! u" "sa' ! w"] take_less[of "2 * k" "drop (sa' ! u) text"] by blast
  qed
  then show "is_suffix_array text sa'"
    using ps positionsD(2)[OF ps] by (simp add: is_suffix_array_def sorted_wrt_iff_nth_less positions_def)
qed

section \<open>The loop\<close>

lemma sa_loop_correct:
  assumes "n = length text" "1 < n" "positions n sa" "rank_ok text (2 ^ e) rank" "length tmp = n"
    "0 < e \<Longrightarrow> sorted_wrt (\<lambda>i j. pre text (2 ^ e) i \<le> pre text (2 ^ e) j) sa"
  shows "is_suffix_array text (nsa_loop n e sa rank tmp)"
  using assms
proof (induction n e sa rank tmp rule: nsa_loop.induct)
  case (1 n e sa rank tmp)
  show ?case
  proof (cases "2 ^ e < n")
    case True
    let ?f = "nkey rank n (2 ^ e)" let ?sa = "sort_by_key ?f sa" let ?rank = "nrerank ?f n ?sa tmp"
    have ne: "text \<noteq> []" using "1.prems"(1,2) by auto
    note p = pass_correct[OF "1.prems"(4) _ "1.prems"(3)[unfolded "1.prems"(1)] "1.prems"(5)[unfolded "1.prems"(1)] ne,
        folded "1.prems"(1), OF _ refl refl refl]
    have lr: "length rank = n" using "1.prems"(1,4) by (simp add: rank_ok_def)
    show ?thesis
    proof (cases "?rank ! (?sa ! (n - 1)) = int n - 1")
      case last: True
      then show ?thesis using True p(4) by (simp add: nsa_loop.simps[of n e] Let_def)
    next
      case False
      have "is_suffix_array text (nsa_loop n (Suc e) ?sa ?rank rank)"
        using "1.IH"[OF refl True refl refl refl False "1.prems"(1,2)] p(1-3) lr by simp
      then show ?thesis using True False by (simp add: nsa_loop.simps[of n e] Let_def)
    qed
  next
    case False
    then have "0 < e" using "1.prems"(2) by (cases e) simp_all
    have all: "pre text (2 ^ e) i = drop i text" for i using False "1.prems"(1) by simp
    have st: "sorted_wrt (\<lambda>i j. drop i text \<le> drop j text) sa" using "1.prems"(6)[OF \<open>0 < e\<close>] unfolding all .
    have "drop (sa ! u) text < drop (sa ! w) text" if uw: "u < w" "w < n" for u w
    proof -
      have l: "length sa = n" "sa ! u < n" "sa ! w < n" "sa ! u \<noteq> sa ! w"
        using positionsD[OF "1.prems"(3)] positions_nth[OF "1.prems"(3)] uw by (simp_all add: nth_eq_iff_index_eq)
      have "length (drop (sa ! u) text) \<noteq> length (drop (sa ! w) text)" using l "1.prems"(1) by simp
      then have "drop (sa ! u) text \<noteq> drop (sa ! w) text" by metis
      moreover have "drop (sa ! u) text \<le> drop (sa ! w) text"
        using st uw l(1) by (simp add: sorted_wrt_iff_nth_less)
      ultimately show ?thesis by simp
    qed
    then have "is_suffix_array text sa"
      using "1.prems"(1,3) positionsD(2)[OF "1.prems"(3)] by (simp add: is_suffix_array_def sorted_wrt_iff_nth_less positions_def)
    then show ?thesis using False by (simp add: nsa_loop.simps[of n e] Let_def)
  qed
qed

section \<open>The words follow the integers\<close>

text \<open>Below \<open>2 ^ 31\<close> bytes no position, rank or step leaves its width.\<close>

lemma sint_i32_small:
  assumes "unat i < 2 ^ 31"
  shows "sint (i :: i32) = int (unat i)"
proof -
  have "sint i = signed_take_bit 31 (int (unat i))" by (simp add: sint_uint)
  also have "\<dots> = int (unat i)"
  proof (rule signed_take_bit_int_eq_self)
    show "- (2 ^ 31) \<le> int (unat i)" by (rule order_trans[of _ 0]) (simp_all only: of_nat_0_le_iff neg_le_0_iff_le zero_le_power zero_le_numeral)
    show "int (unat i) < 2 ^ 31" using assms by (metis of_nat_less_iff of_nat_numeral of_nat_power)
  qed
  finally show ?thesis .
qed

lemma len64: "LENGTH(64) = 64"
  by simp

lemma as_usize_small:
  assumes "unat i < 2 ^ 31"
  shows "unat (as_usize i) = unat i"
proof -
  have "as_usize i = of_nat (unat i)"
    unfolding as_usize_def scast_eq sint_i32_small[OF assms] of_int_of_nat_eq ..
  moreover have "unat i < 2 ^ 64" using assms by (rule less_trans) simp
  ultimately show ?thesis by (simp only: unat_of_nat len64 mod_less)
qed

lemma sint_i64_of_nat:
  assumes "m < 2 ^ 63"
  shows "sint (of_nat m :: i64) = int m"
proof -
  have "sint (of_nat m :: i64) = signed_take_bit 63 (int m)" by transfer simp
  also have "\<dots> = int m" by (rule signed_take_bit_int_eq_self) (use assms in simp_all)
  finally show ?thesis .
qed

lemma sint_byte: "sint (ucast b :: i64) = int (unat (b :: byte))"
proof -
  have "unat b < 2 ^ 63" by (rule less_trans[OF unsigned_less]) simp
  moreover have "(ucast b :: i64) = of_nat (unat b)" by simp
  ultimately show ?thesis by (metis sint_i64_of_nat)
qed

lemma i32_range_positions:
  assumes "n < 2 ^ 31"
  shows "map unat (i32_range (of_nat n)) = [0..<n]"
proof -
  have "unat (of_nat n :: i32) = n" using assms by (simp add: unat_of_nat)
  then have s: "sint (of_nat n :: i32) = int n" using sint_i32_small[of "of_nat n"] assms by simp
  have l: "map unat (map (word_of_int :: int \<Rightarrow> i32) (map int [0..<n])) = [0..<n]"
    by (rule nth_equalityI) (use assms in \<open>simp_all add: unat_of_nat\<close>)
  have "[0..int n - 1] = map int [0..<n]" by (rule nth_equalityI) simp_all
  then show ?thesis unfolding i32_range_def s using l by simp
qed

lemma key_nkey:
  assumes "n < 2 ^ 31" "length rank = n" "unat i < n" "unat k < n"
  shows "key rank n k i = nkey (map sint rank) n (unat k) (unat i)"
proof -
  have i: "unat (as_usize i) = unat i" using assms by (intro as_usize_small) simp
  have s: "unat (as_usize i + k) = unat i + unat k"
    using assms i by (simp add: unat_word_ariths)
  have "as_usize i + k < of_nat n \<longleftrightarrow> unat i + unat k < n"
    using assms(1) by (simp add: word_less_nat_alt s unat_of_nat)
  then show ?thesis using assms(2,3) i s by (simp add: key_def nkey_def Let_def)
qed

lemma sort_by_key_map:
  assumes "\<And>x. x \<in> set xs \<Longrightarrow> f x = g (h x)"
  shows "map h (sort_by_key f xs) = sort_by_key g (map h xs)"
proof -
  have "map h (sort_key f xs) = sort_key g (map h xs)" using assms
  proof (induction xs)
    case (Cons x xs)
    have ins: "map h (insort_key f x ys) = insort_key g (h x) (map h ys)" if "\<And>y. y \<in> set ys \<Longrightarrow> f y = g (h y)" for ys
      using that Cons.prems[of x] by (induction ys) simp_all
    show ?case using Cons ins[of "sort_key f xs"] by simp
  qed simp
  then show ?thesis by (simp add: sort_by_key_def)
qed

lemma rerank_nrerank:
  assumes "n < 2 ^ 31" "0 < n" "positions n (map unat sa)" "length tmp = n"
    and fg: "\<And>i. i \<in> set sa \<Longrightarrow> f i = g (unat i)"
  shows "\<exists>t. rerank f n sa tmp = Some t \<and> map sint t = nrerank g n (map unat sa) (map sint tmp)"
proof -
  let ?sa = "map unat sa"
  have len: "length sa = n" using positionsD(2)[OF assms(3)] by simp
  have bnd: "unat (sa ! w) < n" if "w < n" for w using positions_nth[OF assms(3) that] that len by simp
  have us: "unat (as_usize (sa ! w)) = unat (sa ! w)" if "w < n" for w
    using bnd[OF that] assms(1) by (intro as_usize_small) simp
  have "\<exists>t. foldl (\<lambda>t w. Option.bind t (\<lambda>tmp. rerank_step f sa tmp w)) (Some (tmp[unat (as_usize (sa ! 0)) := 0])) [1..<m] = Some t
      \<and> map sint t = foldl (nrerank_step g ?sa) ((map sint tmp)[?sa ! 0 := 0]) [1..<m]" if "0 < m" "m \<le> n" for m
    using that
  proof (induction m rule: nat_induct_non_zero)
    case 1
    then show ?case using us[of 0] len by (simp add: map_update)
  next
    case (Suc m)
    then obtain t where t: "foldl (\<lambda>t w. Option.bind t (\<lambda>tmp. rerank_step f sa tmp w)) (Some (tmp[unat (as_usize (sa ! 0)) := 0])) [1..<m] = Some t"
      "map sint t = foldl (nrerank_step g ?sa) ((map sint tmp)[?sa ! 0 := 0]) [1..<m]" by auto
    have lt: "length t = n" using arg_cong[OF t(2), of length] assms(4) by simp
    have v: "map sint t ! (?sa ! (m - 1)) = int (changes g ?sa (m - 1))"
      unfolding t(2) using Suc assms(4)
      by (intro rerank_prefix[OF positionsD(3)[OF assms(3)] positionsD(2)[OF assms(3)] positionsD(1)[OF assms(3)]]) simp_all
    let ?v = "t ! unat (sa ! (m - 1))" and ?inc = "if f (sa ! (m - 1)) = f (sa ! m) then 0 else 1 :: i64"
    have sv: "sint ?v = int (changes g ?sa (m - 1))" using v Suc len lt bnd[of "m - 1"] by simp
    have "?v = of_nat (changes g ?sa (m - 1))" using sv by (metis of_int_of_nat_eq scast_eq scast_id)
    then have "?v + ?inc = of_nat (changes g ?sa (m - 1) + (if f (sa ! (m - 1)) = f (sa ! m) then 0 else 1))" by simp
    moreover have "changes g ?sa (m - 1) + 1 < 2 ^ 63" using changes_le[of g ?sa "m - 1"] Suc assms(1) by simp
    ultimately have add: "sint (?v + ?inc) = sint ?v + (if g (?sa ! (m - 1)) = g (?sa ! m) then 0 else 1)"
      using sv sint_i64_of_nat[of "changes g ?sa (m - 1) + (if f (sa ! (m - 1)) = f (sa ! m) then 0 else 1)"]
        fg[of "sa ! (m - 1)"] fg[of "sa ! m"] Suc len by simp
    have up: "[1..<Suc m] = [1..<m] @ [m]" using Suc.hyps by simp
    have "rerank_step f sa t m = Some (t[unat (sa ! m) := ?v + ?inc])"
      using Suc.prems len us[of m] us[of "m - 1"] by (simp add: rerank_step_def Let_def)
    moreover have "nrerank_step g ?sa (map sint t) m = map sint (t[unat (sa ! m) := ?v + ?inc])"
      using Suc.prems Suc.hyps len lt bnd[of "m - 1"] add by (simp add: nrerank_step_def Let_def map_update)
    ultimately show ?case unfolding up foldl_append t(1) t(2)[symmetric] by simp
  qed
  moreover have "sa \<noteq> []" using len assms(2) by auto
  ultimately show ?thesis using assms(2) by (simp add: rerank_def nrerank_def)
qed

lemma push_bit_pow: "push_bit 1 (of_nat (2 ^ e) :: usize) = of_nat (2 ^ Suc e)"
  by (simp add: push_bit_eq_mult)

lemma sa_loop_nsa_loop:
  assumes "1 < n" "n < 2 ^ 31" "positions n sa0" "sa0 = map unat sa" "length rank = n" "length tmp = n"
    "2 ^ e < 2 * n" "rank0 = map sint rank" "tmp0 = map sint tmp"
  shows "\<exists>sa'. sa_loop n (of_nat (2 ^ e)) sa rank tmp = Some sa' \<and> map unat sa' = nsa_loop n e sa0 rank0 tmp0"
  using assms
proof (induction n e sa0 rank0 tmp0 arbitrary: sa rank tmp rule: nsa_loop.induct)
  case (1 n e sa0 rank0 tmp0 sa rank tmp)
  note pr = "1.prems"
  have k: "unat (of_nat (2 ^ e) :: usize) = 2 ^ e" using pr(2,7) by (simp add: unat_of_nat del: of_nat_power)
  have lt: "(of_nat (2 ^ e) :: usize) < of_nat n \<longleftrightarrow> 2 ^ e < n"
    unfolding word_less_nat_alt k using pr(2) by (simp add: unat_of_nat)
  show ?case
  proof (cases "2 ^ e < n")
    case False
    then show ?thesis using lt pr(4) by (simp add: sa_loop.simps[of n "of_nat (2 ^ e)"] nsa_loop.simps[of n e] del: of_nat_power)
  next
    case True
    let ?k = "of_nat (2 ^ e) :: usize"
    let ?f = "key rank n ?k" let ?g = "nkey rank0 n (2 ^ e)"
    let ?sa = "sort_by_key ?f sa" and ?ms = "sort_by_key ?g sa0"
    let ?mr = "nrerank ?g n ?ms tmp0"
    have fg: "?f i = ?g (unat i)" if "i \<in> set sa" for i
      using key_nkey[OF pr(2,5), of i ?k] that positionsD(1)[OF pr(3)] pr(4,8) True k by (force simp del: of_nat_power)
    have sa: "map unat ?sa = ?ms" unfolding pr(4) by (rule sort_by_key_map) (rule fg)
    have ps: "positions n (map unat ?sa)" unfolding sa using pr(3) by (simp add: sort_by_key_def positions_def)
    have fg': "?f i = ?g (unat i)" if "i \<in> set ?sa" for i using that fg by (simp add: sort_by_key_def)
    have "\<exists>t. rerank ?f n ?sa tmp = Some t \<and> map sint t = nrerank ?g n (map unat ?sa) (map sint tmp)"
      using pr(1) by (intro rerank_nrerank[OF pr(2) _ ps pr(6)] fg') simp
    then obtain r where r: "rerank ?f n ?sa tmp = Some r" "map sint r = ?mr"
      unfolding sa pr(9) by auto
    have lr: "length r = n" using arg_cong[OF r(2), of length] pr(6,9) by (simp add: nrerank_def)
    have l: "n - 1 < n" "length ?sa = n" using pr(1) positionsD(2)[OF ps] by simp_all
    have last: "?ms ! (n - 1) = unat (?sa ! (n - 1))" "unat (?sa ! (n - 1)) < n"
      using sa l positions_nth[OF ps l(1)] by (metis nth_map)+
    have us: "unat (as_usize (?sa ! (n - 1))) = ?ms ! (n - 1)" using last pr(2) as_usize_small[of "?sa ! (n - 1)"] by simp
    have n1: "of_nat n - 1 = (of_nat (n - 1) :: i64)" using pr(1) by simp
    have "r ! (?ms ! (n - 1)) = of_nat n - 1 \<longleftrightarrow> ?mr ! (?ms ! (n - 1)) = int n - 1"
    proof -
      have "?mr ! (?ms ! (n - 1)) = sint (r ! (?ms ! (n - 1)))" unfolding r(2)[symmetric] using last lr by simp
      moreover have "sint (of_nat (n - 1) :: i64) = int n - 1" using sint_i64_of_nat[of "n - 1"] pr(1,2) by simp
      ultimately show ?thesis unfolding n1 by (metis signed_word_eqI)
    qed
    note eq = this
    have step: "sa_loop n ?k sa rank tmp = (if ?mr ! (?ms ! (n - 1)) = int n - 1 then Some ?sa else sa_loop n (of_nat (2 ^ Suc e)) ?sa r rank)"
      using True lt r(1) eq unfolding sa_loop.simps[of n ?k] push_bit_pow Let_def us[symmetric] by (simp del: of_nat_power power_Suc)
    have nstep: "nsa_loop n e sa0 rank0 tmp0 = (if ?mr ! (?ms ! (n - 1)) = int n - 1 then ?ms else nsa_loop n (Suc e) ?ms ?mr rank0)"
      using True by (simp add: nsa_loop.simps[of n e] Let_def)
    show ?thesis
    proof (cases "?mr ! (?ms ! (n - 1)) = int n - 1")
      case fin: True
      then show ?thesis using step nstep sa by simp
    next
      case False
      have "\<exists>sa'. sa_loop n (of_nat (2 ^ Suc e)) ?sa r rank = Some sa' \<and> map unat sa' = nsa_loop n (Suc e) ?ms ?mr rank0"
        by (rule "1.IH"[OF refl True refl refl refl False pr(1,2)]) (use ps sa lr pr(5,8) r(2) True in simp_all)
      then show ?thesis using step nstep False by simp
    qed
  qed
qed

text \<open>From \<open>2 ^ 31\<close> bytes on, the range of positions is shorter than the text and the re-ranking loop runs
  beyond its end.\<close>

lemma length_i32_range: "length (i32_range m) < 2 ^ 31"
proof -
  have "sint m < 2 ^ 31" using sint_lt[of m] by simp
  then show ?thesis by (simp add: i32_range_def nat_less_iff)
qed

lemma foldl_bind_None: "foldl (\<lambda>t w. Option.bind t (g w)) None ws = None"
  by (induction ws) simp_all

lemma rerank_short:
  assumes "length sa < n"
  shows "rerank f n sa tmp = None"
proof (cases "sa = []")
  case False
  let ?F = "\<lambda>t w. Option.bind t (\<lambda>tmp. rerank_step f sa tmp w)"
  have "1 \<le> length sa" using False by (simp add: Suc_le_eq)
  then have "[1..<n] = [1..<length sa] @ length sa # [Suc (length sa)..<n]"
    using assms upt_add_eq_append[of 1 "length sa" "n - length sa"] upt_conv_Cons[of "length sa" n] by simp
  moreover have "?F t (length sa) = None" for t by (cases t) (simp_all add: rerank_step_def)
  ultimately have "foldl ?F t [1..<n] = None" for t
    by (simp add: foldl_bind_None[of "\<lambda>w tmp. rerank_step f sa tmp w"])
  then show ?thesis using False by (simp add: rerank_def)
qed (simp add: rerank_def)

lemma suffix_array_long:
  assumes "2 ^ 31 \<le> length text" "length text < 2 ^ 63"
  shows "suffix_array text = None"
proof -
  let ?n = "length text"
  have "unat (of_nat ?n :: usize) = ?n" using assms by (simp add: unat_of_nat)
  then have "(1 :: usize) < of_nat ?n" using assms by (simp add: word_less_nat_alt)
  moreover have "length (sort_by_key f (i32_range (of_nat ?n))) < ?n" for f
    using length_i32_range[of "of_nat ?n"] assms by (simp add: sort_by_key_def)
  ultimately have "sa_loop ?n 1 (i32_range (of_nat ?n)) rank tmp = None" for rank tmp
    by (simp add: sa_loop.simps[of ?n] Let_def rerank_short)
  moreover have "?n \<noteq> 0" "?n \<noteq> 1" using assms(1) by (auto simp del: length_0_conv)
  ultimately show ?thesis unfolding suffix_array_def Let_def by (simp only: if_False)
qed

lemma suffix_array_short:
  assumes "length text < 2 ^ 31"
  shows "\<exists>sa. suffix_array text = Some sa \<and> is_suffix_array text (map unat sa)"
proof -
  consider "text = []" | b where "text = [b]" | "1 < length text"
    by (cases "text"; cases "tl text") auto
  then show ?thesis
  proof cases
    case 3
    let ?n = "length text" let ?r = "map (\<lambda>b. int (unat b)) text"
    have p: "positions ?n [0..<?n]" by (simp add: positions_def)
    have "\<exists>sa. sa_loop ?n (of_nat (2 ^ 0)) (i32_range (of_nat ?n)) (map ucast text) (replicate ?n 0) = Some sa
        \<and> map unat sa = nsa_loop ?n 0 [0..<?n] ?r (replicate ?n 0)"
      by (rule sa_loop_nsa_loop[OF 3 assms p i32_range_positions[OF assms, symmetric]]) (use 3 in \<open>simp_all add: sint_byte\<close>)
    moreover have "is_suffix_array text (nsa_loop ?n 0 [0..<?n] ?r (replicate ?n 0))"
      using 3 rank_ok_bytes p by (intro sa_loop_correct) simp_all
    moreover have "?n \<noteq> 0" "?n \<noteq> 1" using 3 by auto
    ultimately show ?thesis by (auto simp: suffix_array_def Let_def)
  qed (simp_all add: suffix_array_def is_suffix_array_def)
qed

text \<open>C13: on every text below \<open>2 ^ 31\<close> bytes prefix doubling in \<open>i32\<close> positions and \<open>i64\<close> ranks returns
  the suffix array: the permutation of all positions that sorts the suffixes strictly, a proper prefix before
  its extensions; that permutation is the only one, so every correct engine returns the same array. On a
  longer text (up to the largest slice, below \<open>2 ^ 63\<close> bytes) the positions do not fit and it panics.\<close>

theorem suffix_array_correct:
  assumes "length text < 2 ^ 63"
  shows "if length text < 2 ^ 31
    then \<exists>sa. suffix_array text = Some sa \<and> is_suffix_array text (map unat sa) \<and> (\<forall>i\<in>set sa. unat i < 2 ^ 31)
           \<and> (\<forall>ys. is_suffix_array text ys \<longrightarrow> ys = map unat sa)
    else suffix_array text = None"
proof (cases "length text < 2 ^ 31")
  case True
  obtain sa where sa: "suffix_array text = Some sa" "is_suffix_array text (map unat sa)" using suffix_array_short[OF True] by blast
  have "set (map unat sa) = {0..<length text}"
    using sa(2) mset_eq_setD[of "map unat sa" "[0..<length text]"] by (simp add: is_suffix_array_def)
  then have "\<forall>i\<in>set sa. unat i < length text" by auto
  then have "\<forall>i\<in>set sa. unat i < 2 ^ 31" using True by (blast intro: less_trans)
  then have "suffix_array text = Some sa \<and> is_suffix_array text (map unat sa) \<and> (\<forall>i\<in>set sa. unat i < 2 ^ 31)
      \<and> (\<forall>ys. is_suffix_array text ys \<longrightarrow> ys = map unat sa)"
    using sa suffix_array_unique[OF _ sa(2)] by blast
  then show ?thesis using True by (simp only: if_True) blast
next
  case False
  then show ?thesis using suffix_array_long[OF _ assms] by simp
qed

theorem suffix_array_correct_witness:
  "\<exists>sa. suffix_array [1, 2, 0] = Some sa \<and> map unat sa = [2, 0, 1]"
proof -
  have "is_suffix_array [1, 2, 0] [2, 0, 1]" by (simp add: is_suffix_array_def numeral_eq_Suc)
  then show ?thesis using suffix_array_correct[of "[1, 2, 0]"] by fastforce
qed

end
