(* ===== verification/LpBuf.thy ===== *)
theory LpBuf
  imports AstroBwt
begin

text \<open>
  The large-page buffers of the hash pipeline (\<open>astrobwt/src/lpbuf.rs\<close>). The raw allocation is a list of
  cells, \<open>None\<close> for memory not written yet; a write outside the allocation, a copy beyond it or a slice
  over unwritten cells is undefined behaviour and the result \<open>None\<close>. What the allocators return is a
  parameter: \<open>alloc n\<close> is the capacity of \<open>Vec::with_capacity(n)\<close>, \<open>large n\<close> the rounded size of a
  large-page block, if there is one. Lemmas: no operation is undefined, the buffer behaves as a
  vector, and it keeps its allocation as long as the capacity is not exceeded.
\<close>

section \<open>Operations\<close>

datatype kind = Large | Heap

record 'a lpvec =
  lp_mem :: "'a option list"
  lp_len :: nat
  lp_kind :: kind

definition lp_cap :: "'a lpvec \<Rightarrow> nat" where
  "lp_cap v = length (lp_mem v)"

definition lp_heap :: "(nat \<Rightarrow> nat) \<Rightarrow> nat \<Rightarrow> 'a lpvec" where
  "lp_heap alloc cap = \<lparr>lp_mem = replicate (alloc (max cap 1)) None, lp_len = 0, lp_kind = Heap\<rparr>"

text \<open>\<open>sz\<close> is the size of an element, \<open>enabled\<close> whether large pages were enabled.\<close>

definition lp_with_capacity :: "nat \<Rightarrow> bool \<Rightarrow> (nat \<Rightarrow> nat option) \<Rightarrow> (nat \<Rightarrow> nat) \<Rightarrow> nat \<Rightarrow> 'a lpvec" where
  "lp_with_capacity sz enabled large alloc cap =
     (let bytes = max (min (cap * sz) usize_max) 1 in
      if enabled then
        (case large bytes of
           Some real_bytes \<Rightarrow> \<lparr>lp_mem = replicate (real_bytes div max sz 1) None, lp_len = 0, lp_kind = Large\<rparr>
         | None \<Rightarrow> lp_heap alloc cap)
      else lp_heap alloc cap)"

definition lp_clear :: "'a lpvec \<Rightarrow> 'a lpvec" where
  "lp_clear v = v\<lparr>lp_len := 0\<rparr>"

definition lp_as_slice :: "'a lpvec \<Rightarrow> 'a list option" where
  "lp_as_slice v = (if lp_len v \<le> lp_cap v then those (take (lp_len v) (lp_mem v)) else None)"

definition lp_grow_to :: "(nat \<Rightarrow> nat) \<Rightarrow> nat \<Rightarrow> 'a lpvec \<Rightarrow> 'a lpvec option" where
  "lp_grow_to alloc needed v =
     (let new_cap = max (max needed (min (lp_cap v * 2) usize_max)) 8; real_cap = alloc new_cap in
      if lp_len v \<le> lp_cap v \<and> lp_len v \<le> real_cap
      then Some (v\<lparr>lp_mem := take (lp_len v) (lp_mem v) @ replicate (real_cap - lp_len v) None, lp_kind := Heap\<rparr>)
      else None)"

definition write_cells :: "nat \<Rightarrow> 'a list \<Rightarrow> 'a option list \<Rightarrow> 'a option list option" where
  "write_cells at xs mem =
     (if at + length xs \<le> length mem then Some (take at mem @ map Some xs @ drop (at + length xs) mem) else None)"

definition lp_reserve :: "(nat \<Rightarrow> nat) \<Rightarrow> nat \<Rightarrow> 'a lpvec \<Rightarrow> 'a lpvec option" where
  "lp_reserve alloc new_len v = (if new_len > lp_cap v then lp_grow_to alloc new_len v else Some v)"

definition lp_extend_from_slice :: "(nat \<Rightarrow> nat) \<Rightarrow> 'a list \<Rightarrow> 'a lpvec \<Rightarrow> 'a lpvec option" where
  "lp_extend_from_slice alloc src v =
     (let new_len = lp_len v + length src in
      case lp_reserve alloc new_len v of
        None \<Rightarrow> None
      | Some v1 \<Rightarrow> map_option (\<lambda>mem. v1\<lparr>lp_mem := mem, lp_len := new_len\<rparr>) (write_cells (lp_len v1) src (lp_mem v1)))"

definition lp_resize :: "(nat \<Rightarrow> nat) \<Rightarrow> nat \<Rightarrow> 'a \<Rightarrow> 'a lpvec \<Rightarrow> 'a lpvec option" where
  "lp_resize alloc new_len value v =
     (case lp_reserve alloc new_len v of
        None \<Rightarrow> None
      | Some v1 \<Rightarrow>
          (if new_len > lp_len v1
           then map_option (\<lambda>mem. v1\<lparr>lp_mem := mem, lp_len := new_len\<rparr>)
                  (write_cells (lp_len v1) (replicate (new_len - lp_len v1) value) (lp_mem v1))
           else Some (v1\<lparr>lp_len := new_len\<rparr>)))"

section \<open>The contract of a vector\<close>

text \<open>What the hash pipeline expects of its buffer: the contents as a list, and the vector operations on
  it, none of which fails.\<close>

locale vec_buffer =
  fixes inv :: "'v \<Rightarrow> bool" and contents :: "'v \<Rightarrow> 'a list"
    and clear :: "'v \<Rightarrow> 'v" and extend :: "'a list \<Rightarrow> 'v \<Rightarrow> 'v option" and resize :: "nat \<Rightarrow> 'a \<Rightarrow> 'v \<Rightarrow> 'v option"
  assumes clear_law: "inv v \<Longrightarrow> inv (clear v) \<and> contents (clear v) = []"
    and extend_law: "inv v \<Longrightarrow> \<exists>v'. extend xs v = Some v' \<and> inv v' \<and> contents v' = contents v @ xs"
    and resize_law: "inv v \<Longrightarrow> \<exists>v'. resize n x v = Some v' \<and> inv v' \<and> contents v' = vec_resize n x (contents v)"
begin

text \<open>What \<open>astrobwtv3_prepare\<close> does to its buffer: clear, append the chunks, lengthen.\<close>

fun append_all :: "'a list list \<Rightarrow> 'v \<Rightarrow> 'v option" where
  "append_all [] v = Some v"
| "append_all (c # cs) v = Option.bind (extend c v) (append_all cs)"

lemma append_all_contents: "inv v \<Longrightarrow> \<exists>v'. append_all cs v = Some v' \<and> inv v' \<and> contents v' = contents v @ concat cs"
proof (induction cs arbitrary: v)
  case (Cons c cs)
  obtain v1 where v1: "extend c v = Some v1" "inv v1" "contents v1 = contents v @ c" using extend_law[OF Cons.prems] by blast
  then show ?case using Cons.IH[OF v1(2)] by auto
qed simp

lemma refill_contents:
  assumes "inv v"
  shows "\<exists>v'. Option.bind (append_all cs (clear v)) (resize n x) = Some v' \<and> inv v' \<and> contents v' = vec_resize n x (concat cs)"
proof -
  obtain v1 where v1: "append_all cs (clear v) = Some v1" "inv v1" "contents v1 = concat cs"
    using append_all_contents[of "clear v"] clear_law[OF assms] by auto
  then show ?thesis using resize_law[OF v1(2), of n x] by auto
qed

end

section \<open>The buffer keeps the contract\<close>

definition lp_inv :: "(nat \<Rightarrow> nat) \<Rightarrow> 'a lpvec \<Rightarrow> bool" where
  "lp_inv alloc v \<longleftrightarrow> (\<forall>n. n \<le> alloc n) \<and> lp_len v \<le> lp_cap v \<and> None \<notin> set (take (lp_len v) (lp_mem v))"

definition lp_contents :: "'a lpvec \<Rightarrow> 'a list" where
  "lp_contents v = map the (take (lp_len v) (lp_mem v))"

lemma those_map_the: "None \<notin> set xs \<Longrightarrow> those xs = Some (map the xs)"
proof (induction xs)
  case (Cons a xs)
  then show ?case by (cases a) auto
qed simp

lemma lp_as_slice_contents: "lp_inv alloc v \<Longrightarrow> lp_as_slice v = Some (lp_contents v)"
  by (simp add: lp_as_slice_def lp_inv_def lp_contents_def those_map_the)

lemma lp_reserve_law:
  assumes "lp_inv alloc v"
  shows "\<exists>v'. lp_reserve alloc n v = Some v' \<and> lp_inv alloc v' \<and> lp_contents v' = lp_contents v
    \<and> lp_len v' = lp_len v \<and> n \<le> lp_cap v' \<and> (n \<le> lp_cap v \<longrightarrow> v' = v)"
proof (cases "n \<le> lp_cap v")
  case True
  then show ?thesis using assms by (simp add: lp_reserve_def)
next
  case False
  let ?r = "alloc (max (max n (min (lp_cap v * 2) usize_max)) 8)"
  have r: "n \<le> ?r" using assms order_trans[of n "max (max n (min (lp_cap v * 2) usize_max)) 8" ?r] by (simp add: lp_inv_def)
  have l: "lp_len v \<le> lp_cap v" "lp_len v \<le> ?r" using assms False r by (simp_all add: lp_inv_def)
  then show ?thesis
    using assms False r by (simp add: lp_reserve_def lp_grow_to_def Let_def lp_inv_def lp_contents_def lp_cap_def)
qed

lemma lp_write_law:
  assumes "lp_inv alloc v" "lp_len v + length xs \<le> lp_cap v"
  shows "\<exists>mem. write_cells (lp_len v) xs (lp_mem v) = Some mem \<and> length mem = lp_cap v
    \<and> lp_inv alloc (v\<lparr>lp_mem := mem, lp_len := lp_len v + length xs\<rparr>)
    \<and> lp_contents (v\<lparr>lp_mem := mem, lp_len := lp_len v + length xs\<rparr>) = lp_contents v @ xs"
  using assms by (auto simp: write_cells_def lp_inv_def lp_contents_def lp_cap_def comp_def)

lemma lp_extend_law:
  assumes "lp_inv alloc v"
  shows "\<exists>v'. lp_extend_from_slice alloc xs v = Some v' \<and> lp_inv alloc v' \<and> lp_contents v' = lp_contents v @ xs
    \<and> (lp_len v + length xs \<le> lp_cap v \<longrightarrow> lp_cap v' = lp_cap v \<and> lp_kind v' = lp_kind v)"
proof -
  let ?n = "lp_len v + length xs"
  obtain v1 where v1: "lp_reserve alloc ?n v = Some v1" "lp_inv alloc v1" "lp_contents v1 = lp_contents v"
    "lp_len v1 = lp_len v" "?n \<le> lp_cap v1" "?n \<le> lp_cap v \<longrightarrow> v1 = v"
    using lp_reserve_law[OF assms] by blast
  obtain mem where "write_cells (lp_len v1) xs (lp_mem v1) = Some mem" "length mem = lp_cap v1"
    "lp_inv alloc (v1\<lparr>lp_mem := mem, lp_len := ?n\<rparr>)" "lp_contents (v1\<lparr>lp_mem := mem, lp_len := ?n\<rparr>) = lp_contents v @ xs"
    using lp_write_law[OF v1(2), of xs] v1(3-5) by auto
  then show ?thesis using v1 by (auto simp: lp_extend_from_slice_def Let_def lp_cap_def)
qed

lemma lp_contents_length: "lp_inv alloc v \<Longrightarrow> length (lp_contents v) = lp_len v"
  by (simp add: lp_inv_def lp_contents_def lp_cap_def)

lemma lp_resize_law:
  assumes "lp_inv alloc v"
  shows "\<exists>v'. lp_resize alloc n x v = Some v' \<and> lp_inv alloc v' \<and> lp_contents v' = vec_resize n x (lp_contents v)
    \<and> (n \<le> lp_cap v \<longrightarrow> lp_cap v' = lp_cap v \<and> lp_kind v' = lp_kind v)"
proof -
  obtain v1 where v1: "lp_reserve alloc n v = Some v1" "lp_inv alloc v1" "lp_contents v1 = lp_contents v"
    "lp_len v1 = lp_len v" "n \<le> lp_cap v1" "n \<le> lp_cap v \<longrightarrow> v1 = v"
    using lp_reserve_law[OF assms] by blast
  note len = lp_contents_length[OF assms]
  show ?thesis
  proof (cases "lp_len v < n")
    case True
    let ?xs = "replicate (n - lp_len v1) x"
    have n: "lp_len v1 + length ?xs = n" using True v1(4) by simp
    obtain mem where "write_cells (lp_len v1) ?xs (lp_mem v1) = Some mem" "length mem = lp_cap v1"
      "lp_inv alloc (v1\<lparr>lp_mem := mem, lp_len := n\<rparr>)" "lp_contents (v1\<lparr>lp_mem := mem, lp_len := n\<rparr>) = lp_contents v @ ?xs"
      using lp_write_law[OF v1(2), of ?xs] v1(3,5) unfolding n by auto
    then show ?thesis using v1 True len by (auto simp: lp_resize_def lp_cap_def vec_resize_def)
  next
    case False
    then have "lp_inv alloc (v1\<lparr>lp_len := n\<rparr>)" using v1(2,4,5)
      by (auto simp: lp_inv_def lp_cap_def dest: set_take_subset_set_take[of n "lp_len v1", THEN subsetD, rotated])
    then show ?thesis using v1 False len by (auto simp: lp_resize_def lp_cap_def vec_resize_def lp_contents_def take_map min_def)
  qed
qed

lemma lp_clear_law: "lp_inv alloc v \<Longrightarrow> lp_inv alloc (lp_clear v) \<and> lp_contents (lp_clear v) = []"
  by (simp add: lp_clear_def lp_inv_def lp_contents_def)

interpretation lp: vec_buffer "lp_inv alloc" lp_contents lp_clear "lp_extend_from_slice alloc" "lp_resize alloc"
  for alloc :: "nat \<Rightarrow> nat"
proof
  fix v :: "'a lpvec" and xs n x
  assume inv: "lp_inv alloc v"
  show "lp_inv alloc (lp_clear v) \<and> lp_contents (lp_clear v) = []" by (rule lp_clear_law[OF inv])
  show "\<exists>v'. lp_extend_from_slice alloc xs v = Some v' \<and> lp_inv alloc v' \<and> lp_contents v' = lp_contents v @ xs"
    using lp_extend_law[OF inv, of xs] by metis
  show "\<exists>v'. lp_resize alloc n x v = Some v' \<and> lp_inv alloc v' \<and> lp_contents v' = vec_resize n x (lp_contents v)"
    using lp_resize_law[OF inv, of n x] by metis
qed

section \<open>The allocation is kept\<close>

lemma lp_append_all_keeps:
  assumes "lp_inv alloc v" "lp_len v + length (concat cs) \<le> lp_cap v"
  shows "\<exists>v'. lp.append_all alloc cs v = Some v' \<and> lp_inv alloc v' \<and> lp_contents v' = lp_contents v @ concat cs
    \<and> lp_cap v' = lp_cap v \<and> lp_kind v' = lp_kind v"
  using assms
proof (induction cs arbitrary: v)
  case (Cons c cs)
  have fits: "lp_len v + length c \<le> lp_cap v" using Cons.prems(2) by simp
  obtain v1 where v1: "lp_extend_from_slice alloc c v = Some v1" "lp_inv alloc v1" "lp_contents v1 = lp_contents v @ c"
    "lp_cap v1 = lp_cap v" "lp_kind v1 = lp_kind v"
    using lp_extend_law[OF Cons.prems(1), of c] fits by blast
  have "lp_len v1 = lp_len v + length c"
    using lp_contents_length[OF v1(2)] lp_contents_length[OF Cons.prems(1)] v1(3) by simp
  then have "lp_len v1 + length (concat cs) \<le> lp_cap v1" using Cons.prems(2) v1(4) by simp
  from Cons.IH[OF v1(2) this] show ?case using v1 by auto
qed simp

text \<open>C16: the buffer a fresh scratch allocates (from large pages of at least the requested size, or
  from the heap) never shows undefined behaviour when a hash refills it: clearing it, appending up to 280
  chunks of 256 bytes and lengthening it within 280 chunks gives the bytes a vector would hold, and
  neither moves it to the heap nor changes its capacity, whatever it held before.\<close>

theorem scratch_refill_in_place:
  assumes "\<And>n. n \<le> alloc n" "\<And>n m. large n = Some m \<Longrightarrow> n \<le> m"
    "v0 = lp_with_capacity 1 enabled large alloc ASTROBWT_DATA_CAPACITY" "lp.append_all alloc old v0 = Some v"
    "lp_cap v = lp_cap v0" "\<forall>c\<in>set chunks. length c = 256" "length chunks \<le> 280" "n \<le> ASTROBWT_DATA_CAPACITY"
  shows "\<exists>v'. Option.bind (lp.append_all alloc chunks (lp_clear v)) (lp_resize alloc n 0) = Some v'
    \<and> lp_as_slice v' = Some (vec_resize n (0 :: byte) (concat chunks)) \<and> lp_cap v' = lp_cap v \<and> lp_kind v' = lp_kind v"
proof -
  have cap: "ASTROBWT_DATA_CAPACITY \<le> lp_cap v0" and inv0: "lp_inv alloc v0"
    using assms(1)[of "ASTROBWT_DATA_CAPACITY"] assms(1,2)
    by (auto simp: assms(3) lp_with_capacity_def lp_heap_def lp_inv_def lp_cap_def ASTROBWT_DATA_CAPACITY_def usize_max_def Let_def
        split: option.split)
  have inv: "lp_inv alloc v" using lp.append_all_contents[OF inv0, of old] assms(4) by auto
  have inv1: "lp_inv alloc (lp_clear v)" "lp_len (lp_clear v) = 0" "lp_cap (lp_clear v) = lp_cap v" "lp_kind (lp_clear v) = lp_kind v"
    "lp_contents (lp_clear v) = []"
    using lp_clear_law[OF inv] by (simp_all add: lp_clear_def lp_cap_def)
  have "length (concat chunks) = 256 * length chunks"
    using assms(6) by (induction chunks) auto
  then have fits: "lp_len (lp_clear v) + length (concat chunks) \<le> lp_cap (lp_clear v)"
    using cap assms(5,7) inv1(2,3) by (simp add: ASTROBWT_DATA_CAPACITY_def)
  obtain v1 where v1: "lp.append_all alloc chunks (lp_clear v) = Some v1" "lp_inv alloc v1" "lp_contents v1 = concat chunks"
    "lp_cap v1 = lp_cap v" "lp_kind v1 = lp_kind v"
    using lp_append_all_keeps[OF inv1(1) fits] inv1(3-5) by auto
  have "n \<le> lp_cap v1" using assms(5,8) cap v1(4) by simp
  then obtain v2 where v2: "lp_resize alloc n 0 v1 = Some v2" "lp_inv alloc v2" "lp_contents v2 = vec_resize n 0 (concat chunks)"
    "lp_cap v2 = lp_cap v" "lp_kind v2 = lp_kind v"
    using lp_resize_law[OF v1(2), of n 0] v1(3-5) by auto
  then show ?thesis using v1(1) lp_as_slice_contents[OF v2(2)] by auto
qed

theorem scratch_refill_in_place_witness:
  "\<exists>v'. Option.bind (lp.append_all id [replicate 256 7] (lp_clear (lp_with_capacity 1 False (\<lambda>_. None) id ASTROBWT_DATA_CAPACITY)))
      (lp_resize id 300 0) = Some v'
    \<and> lp_as_slice v' = Some (vec_resize 300 (0 :: byte) (concat [replicate 256 7]))"
  using scratch_refill_in_place[of id "\<lambda>_. None" "lp_with_capacity 1 False (\<lambda>_. None) id ASTROBWT_DATA_CAPACITY" False "[]"
      "lp_with_capacity 1 False (\<lambda>_. None) id ASTROBWT_DATA_CAPACITY" "[replicate 256 7]" 300]
  by (auto simp: ASTROBWT_DATA_CAPACITY_def)

end
