(* ===== verification/Ws.thy ===== *)
theory Ws
  imports Prelude
begin

text \<open>
  The websocket client (\<open>src/ws.rs\<close>): base64, the frame codec, and the incremental reader
  \<open>try_read_message\<close> with fragment reassembly and control frames. The socket is a list of read events;
  frames written by the client are recorded before masking, since the mask is random. Lemmas: encoding and
  parsing a frame are inverse, parsing is insensitive to how the bytes arrive, and the reader
  delivers exactly the messages sent.
\<close>

section \<open>base64\<close>

definition ALPHABET :: string where
  "ALPHABET = ''ABCDEFGHIJKLMNOPQRSTUVWXYZabcdefghijklmnopqrstuvwxyz0123456789+/''"

definition base64_chunk :: "byte list \<Rightarrow> string" where
  "base64_chunk chunk =
     (let b0 = ucast (chunk ! 0) :: u32;
          b1 = (if length chunk > 1 then ucast (chunk ! 1) else 0);
          b2 = (if length chunk > 2 then ucast (chunk ! 2) else 0);
          n = (push_bit 16 b0 OR push_bit 8 b1) OR b2
      in [ALPHABET ! unat (drop_bit 18 n AND 0x3f), ALPHABET ! unat (drop_bit 12 n AND 0x3f),
          if length chunk > 1 then ALPHABET ! unat (drop_bit 6 n AND 0x3f) else CHR ''='',
          if length chunk > 2 then ALPHABET ! unat (n AND 0x3f) else CHR ''=''])"

fun base64_encode :: "byte list \<Rightarrow> string" where
  "base64_encode [] = []"
| "base64_encode (x # xs) = base64_chunk (take 3 (x # xs)) @ base64_encode (drop 2 xs)"

section \<open>Frames\<close>

definition OPCODE_CONTINUATION :: byte where "OPCODE_CONTINUATION = 0x0"
definition OPCODE_TEXT :: byte where "OPCODE_TEXT = 0x1"
definition OPCODE_BINARY :: byte where "OPCODE_BINARY = 0x2"
definition OPCODE_CLOSE :: byte where "OPCODE_CLOSE = 0x8"
definition OPCODE_PING :: byte where "OPCODE_PING = 0x9"
definition OPCODE_PONG :: byte where "OPCODE_PONG = 0xA"

lemmas opcode_defs = OPCODE_CONTINUATION_def OPCODE_TEXT_def OPCODE_BINARY_def OPCODE_CLOSE_def OPCODE_PING_def OPCODE_PONG_def

definition MAX_FRAME_PAYLOAD :: nat where
  "MAX_FRAME_PAYLOAD = 16 * 1024 * 1024"

datatype ws_error =
    NonzeroRsv
  | FrameTooLarge u64
  | ContinuationWithoutStart
  | UnknownOpcode byte
  | ConnectionClosed
  | IoError

record raw_frame =
  rf_fin :: bool
  rf_opcode :: byte
  rf_payload :: "byte list"

text \<open>\<open>payload[i] ^= mask[i % 4]\<close>\<close>

definition apply_mask :: "byte list \<Rightarrow> byte list \<Rightarrow> byte list" where
  "apply_mask key payload = map (\<lambda>i. payload ! i XOR key ! (i mod 4)) [0..<length payload]"

text \<open>\<open>Inr None\<close> is an incomplete frame.\<close>

definition parse_frame :: "byte list \<Rightarrow> ((raw_frame \<times> nat) option, ws_error) result" where
  "parse_frame buf =
     (if length buf < 2 then Inr None
      else
        (let fin = (buf ! 0 AND 0x80 \<noteq> 0) in
         if buf ! 0 AND 0x70 \<noteq> 0 then Inl NonzeroRsv
         else
           (let opcode = buf ! 0 AND 0x0f; masked = (buf ! 1 AND 0x80 \<noteq> 0); len7 = buf ! 1 AND 0x7f in
            if len7 = 126 \<and> length buf < 4 then Inr None
            else if len7 = 127 \<and> length buf < 10 then Inr None
            else
              (let (len, off) =
                 (if len7 = 126 then (ucast (be_u16 (slice 2 4 buf)), 4)
                  else if len7 = 127 then (be_u64 (slice 2 10 buf), 10)
                  else (ucast len7 :: u64, 2))
               in
               if unat len > MAX_FRAME_PAYLOAD then Inl (FrameTooLarge len)
               else if masked \<and> length buf < off + 4 then Inr None
               else
                 (let mask = (if masked then slice off (off + 4) buf else [0, 0, 0, 0]);
                      off' = (if masked then off + 4 else off);
                      n = unat len
                  in
                  if length buf < off' + n then Inr None
                  else
                    (let payload = slice off' (off' + n) buf;
                         payload' = (if masked then apply_mask mask payload else payload)
                     in Inr (Some (\<lparr>rf_fin = fin, rf_opcode = opcode, rf_payload = payload'\<rparr>, off' + n))))))))"

definition encode_frame :: "byte \<Rightarrow> byte list \<Rightarrow> byte list option \<Rightarrow> byte list" where
  "encode_frame opcode payload key =
     (let mask_bit = (if key \<noteq> None then 0x80 else 0) :: byte;
          n = length payload
      in [0x80 OR (opcode AND 0x0f)]
         @ (if n < 126 then [mask_bit OR of_nat n]
            else if n \<le> 65535 then [mask_bit OR 126] @ u16_be (of_nat n)
            else [mask_bit OR 127] @ u64_be (of_nat n))
         @ (case key of Some k \<Rightarrow> k @ apply_mask k payload | None \<Rightarrow> payload))"

section \<open>The reader\<close>

datatype ws_message = Text "byte list" | Binary "byte list" | Close

record ws_client =
  ws_buf :: "byte list"
  ws_frag :: "(byte \<times> byte list) option"
  ws_sent_close :: bool
  ws_out :: "(byte \<times> byte list) list"   \<comment> \<open>frames written: opcode and payload\<close>
  ws_write_fails :: bool                 \<comment> \<open>whether the socket refuses writes\<close>

definition write_frame :: "byte \<Rightarrow> byte list \<Rightarrow> ws_client \<Rightarrow> (ws_client, ws_error) result" where
  "write_frame opcode payload c =
     (if ws_write_fails c then Inl IoError else Inr (c\<lparr>ws_out := ws_out c @ [(opcode, payload)]\<rparr>))"

definition write_text :: "byte list \<Rightarrow> ws_client \<Rightarrow> (ws_client, ws_error) result" where
  "write_text payload c = write_frame OPCODE_TEXT payload c"

definition message_of :: "byte \<Rightarrow> byte list \<Rightarrow> ws_message" where
  "message_of opcode payload = (if opcode = OPCODE_TEXT then Text payload else Binary payload)"

text \<open>What one frame does: go on with the buffer, a complete message, or an error.\<close>

datatype frame_result = GoOn ws_client | Deliver ws_message ws_client | Break ws_error ws_client

definition handle_frame :: "raw_frame \<Rightarrow> ws_client \<Rightarrow> frame_result" where
  "handle_frame f c =
     (let op = rf_opcode f; payload = rf_payload f in
      if op = OPCODE_PING then
        (case write_frame OPCODE_PONG payload c of Inl e \<Rightarrow> Break e c | Inr c1 \<Rightarrow> GoOn c1)
      else if op = OPCODE_PONG then GoOn c
      else if op = OPCODE_CLOSE then
        (if ws_sent_close c then Deliver Close c
         else
           (let c1 = c\<lparr>ws_sent_close := True\<rparr> in
            case write_frame OPCODE_CLOSE payload c1 of Inl _ \<Rightarrow> Deliver Close c1 | Inr c2 \<Rightarrow> Deliver Close c2))
      else if op = OPCODE_TEXT \<or> op = OPCODE_BINARY then
        (if rf_fin f then Deliver (message_of op payload) c
         else GoOn (c\<lparr>ws_frag := Some (op, payload)\<rparr>))
      else if op = OPCODE_CONTINUATION then
        (case ws_frag c of
           None \<Rightarrow> Break ContinuationWithoutStart c
         | Some (opcode, start) \<Rightarrow>
             (let whole = start @ payload in
              if rf_fin f then Deliver (message_of opcode whole) (c\<lparr>ws_frag := None\<rparr>)
              else GoOn (c\<lparr>ws_frag := Some (opcode, whole)\<rparr>)))
      else Break (UnknownOpcode op) c)"

lemma parse_frame_used:
  assumes "parse_frame buf = Inr (Some (f, used))"
  shows "2 \<le> used \<and> used \<le> length buf"
  using assms by (auto simp: parse_frame_def Let_def split: if_splits)

lemma handle_frame_buf:
  "handle_frame f c = GoOn c1 \<Longrightarrow> ws_buf c1 = ws_buf c"
  "handle_frame f c = Deliver m c1 \<Longrightarrow> ws_buf c1 = ws_buf c"
  "handle_frame f c = Break e c1 \<Longrightarrow> ws_buf c1 = ws_buf c"
  by (auto simp: handle_frame_def Let_def write_frame_def split: if_splits option.splits)

text \<open>The inner loop: consume buffered frames until a message, an error or an incomplete frame.\<close>

function drain :: "ws_client \<Rightarrow> frame_result" where
  "drain c =
     (case parse_frame (ws_buf c) of
        Inl e \<Rightarrow> Break e c
      | Inr None \<Rightarrow> GoOn c
      | Inr (Some (f, used)) \<Rightarrow>
          (case handle_frame f (c\<lparr>ws_buf := drop used (ws_buf c)\<rparr>) of
             GoOn c1 \<Rightarrow> drain c1
           | r \<Rightarrow> r))"
  by pat_completeness auto
termination
  by (relation "measure (\<lambda>c. length (ws_buf c))") (auto dest!: parse_frame_used handle_frame_buf(1))

declare drain.simps [simp del]

text \<open>What a read of the socket returns. Reading no byte is the end of the stream.\<close>

datatype read_event = Bytes "byte list" | TimedOut | Interrupted | ReadError

fun try_read_message :: "read_event list \<Rightarrow> ws_client \<Rightarrow> (ws_message option, ws_error) result \<times> ws_client \<times> read_event list" where
  "try_read_message [] c =
     (case drain c of
        Break e c1 \<Rightarrow> (Inl e, c1, [])
      | Deliver m c1 \<Rightarrow> (Inr (Some m), c1, [])
      | GoOn c1 \<Rightarrow> (Inr None, c1, []))"
| "try_read_message (ev # evs) c =
     (case drain c of
        Break e c1 \<Rightarrow> (Inl e, c1, ev # evs)
      | Deliver m c1 \<Rightarrow> (Inr (Some m), c1, ev # evs)
      | GoOn c1 \<Rightarrow>
          (case ev of
             Bytes bs \<Rightarrow>
               (if bs = [] then (Inl ConnectionClosed, c1, evs)
                else try_read_message evs (c1\<lparr>ws_buf := ws_buf c1 @ bs\<rparr>))
           | TimedOut \<Rightarrow> (Inr None, c1, evs)
           | Interrupted \<Rightarrow> try_read_message evs c1
           | ReadError \<Rightarrow> (Inl IoError, c1, evs)))"

section \<open>Frames: parsing inverts encoding\<close>

lemma length_apply_mask [simp, len_simps]: "length (apply_mask k p) = length p"
  by (simp add: apply_mask_def)

lemma apply_mask_twice [simp]: "apply_mask k (apply_mask k p) = p"
  by (rule nth_equalityI) (simp_all add: apply_mask_def xor.assoc)

lemma first_byte:
  "(0x80 OR (op AND 0x0f)) AND (0x80 :: byte) \<noteq> 0" "(0x80 OR (op AND 0x0f)) AND (0x70 :: byte) = 0"
  "(0x80 OR (op AND 0x0f)) AND (0x0f :: byte) = op AND 0x0f"
proof -
  have "(0x80 OR (op AND 0x0f)) AND (0x80 :: byte) \<noteq> 0 \<and> (0x80 OR (op AND 0x0f)) AND (0x70 :: byte) = 0
      \<and> (0x80 OR (op AND 0x0f)) AND (0x0f :: byte) = op AND 0x0f"
    by (rule byte_check[of _ op]) code_simp
  then show "(0x80 OR (op AND 0x0f)) AND (0x80 :: byte) \<noteq> 0" "(0x80 OR (op AND 0x0f)) AND (0x70 :: byte) = 0"
    "(0x80 OR (op AND 0x0f)) AND (0x0f :: byte) = op AND 0x0f" by simp_all
qed

lemma len_byte:
  assumes "n < 128"
  shows "((if m then 0x80 else 0) OR of_nat n) AND (0x7f :: byte) = of_nat n"
    "((if m then 0x80 else 0) OR of_nat n) AND (0x80 :: byte) \<noteq> 0 \<longleftrightarrow> m"
proof -
  let ?P = "\<lambda>x :: byte. x AND 0x80 = 0 \<longrightarrow> (0x80 OR x) AND 0x7f = x \<and> x AND 0x7f = x \<and> (0x80 OR x) AND 0x80 \<noteq> 0"
  have P: "?P (of_nat n)" by (rule byte_check) code_simp
  have "\<not> bit (of_nat n :: byte) 7"
  proof
    assume "bit (of_nat n :: byte) 7"
    then have "(7::nat) < 7" by (rule bit_less_pow2) (use assms in \<open>simp add: unat_of_nat_byte\<close>)
    then show False by simp
  qed
  then have "(of_nat n :: byte) AND 0x80 = 0"
    using bit_iff_and_push_bit_not_eq_0[of "of_nat n :: byte" 7] by (simp add: push_bit_eq_mult)
  with P show "((if m then 0x80 else 0) OR of_nat n) AND (0x7f :: byte) = of_nat n"
    "((if m then 0x80 else 0) OR of_nat n) AND (0x80 :: byte) \<noteq> 0 \<longleftrightarrow> m"
    by simp_all
qed

text \<open>The header: the length field that a payload length produces and that parsing reads back.\<close>

definition len_field :: "bool \<Rightarrow> nat \<Rightarrow> byte list" where
  "len_field m n =
     (let mask_bit = (if m then 0x80 else 0) :: byte in
      if n < 126 then [mask_bit OR of_nat n]
      else if n \<le> 65535 then [mask_bit OR 126] @ u16_be (of_nat n)
      else [mask_bit OR 127] @ u64_be (of_nat n))"

lemma encode_frame_alt:
  "encode_frame opcode payload key =
     (0x80 OR (opcode AND 0x0f)) # len_field (key \<noteq> None) (length payload)
       @ (case key of Some k \<Rightarrow> k @ apply_mask k payload | None \<Rightarrow> payload)"
  by (simp add: encode_frame_def len_field_def Let_def)

text \<open>The rest of the parser once the length \<open>len\<close> and the offset \<open>off\<close> of what follows are known.\<close>

definition parse_body :: "bool \<Rightarrow> byte \<Rightarrow> bool \<Rightarrow> u64 \<Rightarrow> nat \<Rightarrow> byte list \<Rightarrow> ((raw_frame \<times> nat) option, ws_error) result" where
  "parse_body fin opcode masked len off buf =
     (if unat len > MAX_FRAME_PAYLOAD then Inl (FrameTooLarge len)
      else if masked \<and> length buf < off + 4 then Inr None
      else
        (let mask = (if masked then slice off (off + 4) buf else [0, 0, 0, 0]);
             off' = (if masked then off + 4 else off);
             n = unat len
         in
         if length buf < off' + n then Inr None
         else
           (let payload = slice off' (off' + n) buf;
                payload' = (if masked then apply_mask mask payload else payload)
            in Inr (Some (\<lparr>rf_fin = fin, rf_opcode = opcode, rf_payload = payload'\<rparr>, off' + n)))))"

lemma parse_frame_body:
  "parse_frame buf =
     (if length buf < 2 then Inr None
      else if buf ! 0 AND 0x70 \<noteq> 0 then Inl NonzeroRsv
      else
        (let fin = (buf ! 0 AND 0x80 \<noteq> 0); opcode = buf ! 0 AND 0x0f; masked = (buf ! 1 AND 0x80 \<noteq> 0); len7 = buf ! 1 AND 0x7f in
         if len7 = 126 then (if length buf < 4 then Inr None else parse_body fin opcode masked (ucast (be_u16 (slice 2 4 buf))) 4 buf)
         else if len7 = 127 then (if length buf < 10 then Inr None else parse_body fin opcode masked (be_u64 (slice 2 10 buf)) 10 buf)
         else parse_body fin opcode masked (ucast len7) 2 buf))"
  by (simp add: parse_frame_def parse_body_def Let_def)

lemma slice_append: "b \<le> length xs \<Longrightarrow> slice a b (xs @ ys) = slice a b xs"
  by (simp add: slice_def)

text \<open>More bytes never change a finished answer.\<close>

lemma parse_body_append:
  "parse_body fin opcode masked len off buf = r \<Longrightarrow> r \<noteq> Inr None \<Longrightarrow> parse_body fin opcode masked len off (buf @ rest) = r"
  by (auto simp: parse_body_def Let_def slice_append split: if_splits)

lemma parse_frame_append:
  assumes "parse_frame buf = r" "r \<noteq> Inr None"
  shows "parse_frame (buf @ rest) = r"
proof -
  have l: "2 \<le> length buf" using assms by (auto simp: parse_frame_body split: if_splits)
  then have n: "(buf @ rest) ! 0 = buf ! 0" "(buf @ rest) ! 1 = buf ! 1" by (auto simp: nth_append)
  show ?thesis
    using assms l unfolding parse_frame_body n Let_def
    by (auto simp: slice_append parse_body_append split: if_splits)
qed

lemma unat_of_nat_u64: "n \<le> MAX_FRAME_PAYLOAD \<Longrightarrow> unat (of_nat n :: u64) = n"
  by (simp add: unat_of_nat MAX_FRAME_PAYLOAD_def)

lemma parse_body_encoded:
  assumes "n = length payload" "n \<le> MAX_FRAME_PAYLOAD" "unat len = n" "length h = off" "\<forall>k. key = Some k \<longrightarrow> length k = 4"
  shows "parse_body fin opcode (key \<noteq> None) len off
      (h @ (case key of Some k \<Rightarrow> k @ apply_mask k payload | None \<Rightarrow> payload) @ rest)
    = Inr (Some (\<lparr>rf_fin = fin, rf_opcode = opcode, rf_payload = payload\<rparr>, off + (if key = None then 0 else 4) + n))"
  using assms by (cases key) (auto simp: parse_body_def slice_def Let_def)

lemma length_len_field: "length (len_field m n) = (if n < 126 then 1 else if n \<le> 65535 then 3 else 9)"
  by (simp add: len_field_def Let_def)

lemma parse_frame_head:
  assumes "b0 AND 0x70 = 0" "b1 AND 0x7f = l" "(b1 AND 0x80 \<noteq> 0) = m"
  shows "l = 126 \<Longrightarrow> length ls = 2 \<Longrightarrow> parse_frame (b0 # b1 # ls @ xs)
      = parse_body (b0 AND 0x80 \<noteq> 0) (b0 AND 0x0f) m (ucast (be_u16 ls)) 4 (b0 # b1 # ls @ xs)"
    "l = 127 \<Longrightarrow> length ls = 8 \<Longrightarrow> parse_frame (b0 # b1 # ls @ xs)
      = parse_body (b0 AND 0x80 \<noteq> 0) (b0 AND 0x0f) m (be_u64 ls) 10 (b0 # b1 # ls @ xs)"
    "l \<noteq> 126 \<Longrightarrow> l \<noteq> 127 \<Longrightarrow> parse_frame (b0 # b1 # xs)
      = parse_body (b0 AND 0x80 \<noteq> 0) (b0 AND 0x0f) m (ucast l) 2 (b0 # b1 # xs)"
  using assms by (simp_all add: parse_frame_body slice_def)

lemma parse_encode_frame:
  assumes "length payload \<le> MAX_FRAME_PAYLOAD" "\<forall>k. key = Some k \<longrightarrow> length k = 4"
  shows "parse_frame (encode_frame opcode payload key @ rest)
    = Inr (Some (\<lparr>rf_fin = True, rf_opcode = opcode AND 0x0f, rf_payload = payload\<rparr>, length (encode_frame opcode payload key)))"
proof -
  let ?n = "length payload" let ?m = "key \<noteq> None"
  define b0 :: byte where "b0 = 0x80 OR (opcode AND 0x0f)"
  define b1 :: "nat \<Rightarrow> byte" where "b1 = (\<lambda>x. (if ?m then 0x80 else 0) OR of_nat x)"
  define body where "body = (case key of Some k \<Rightarrow> k @ apply_mask k payload | None \<Rightarrow> payload)"
  have h0: "b0 AND 0x70 = 0" "(b0 AND 0x80 \<noteq> 0) = True" "b0 AND 0x0f = opcode AND 0x0f"
    using first_byte by (simp_all add: b0_def)
  have h1: "b1 x AND 0x7f = of_nat x" "(b1 x AND 0x80 \<noteq> 0) = ?m" if "x < 128" for x
    using len_byte[OF that, of ?m] by (simp_all add: b1_def)
  note parse = parse_frame_head[OF h0(1) h1, unfolded h0(2,3)]
  have lb: "length body = (if key = None then 0 else 4) + ?n" using assms(2) by (cases key) (simp_all add: body_def)
  note fin = parse_body_encoded[OF refl assms(1) _ _ assms(2), folded body_def, where fin = True and opcode = "opcode AND 0x0f"]
  consider "?n < 126" | "126 \<le> ?n" "?n \<le> 65535" | "65535 < ?n" by linarith
  then show ?thesis
  proof cases
    case 1
    have e: "encode_frame opcode payload key = b0 # b1 ?n # body"
      using 1 by (simp add: encode_frame_def b0_def b1_def body_def)
    have ne: "(of_nat ?n :: byte) \<noteq> 126" "(of_nat ?n :: byte) \<noteq> 127" "unat (ucast (of_nat ?n :: byte) :: u64) = ?n"
      using 1 by (auto simp: word_unat_eq_iff unat_of_nat_byte unat_ucast)
    show ?thesis
      using parse(3)[of ?n, OF _ _ ne(1,2), of "body @ rest"] fin[OF ne(3), of "[b0, b1 ?n]" 2 rest] 1 lb by (simp add: e)
  next
    case 2
    have e: "encode_frame opcode payload key = b0 # b1 126 # u16_be (of_nat ?n) @ body"
      using 2 by (simp add: encode_frame_def b0_def b1_def body_def)
    have u: "unat (ucast (of_nat ?n :: u16) :: u64) = ?n" using 2 by (simp add: unat_ucast unat_of_nat)
    show ?thesis
      using parse(1)[of 126, of "u16_be (of_nat ?n)" "body @ rest"] fin[OF u, of "b0 # b1 126 # u16_be (of_nat ?n)" 4 rest] lb
      by (simp add: e)
  next
    case 3
    have e: "encode_frame opcode payload key = b0 # b1 127 # u64_be (of_nat ?n) @ body"
      using 3 by (simp add: encode_frame_def b0_def b1_def body_def)
    show ?thesis
      using parse(2)[of 127, of "u64_be (of_nat ?n)" "body @ rest"]
        fin[OF unat_of_nat_u64[OF assms(1)], of "b0 # b1 127 # u64_be (of_nat ?n)" 10 rest] lb
      by (simp add: e)
  qed
qed

section \<open>The reader does not depend on how the bytes arrive\<close>

definition more_bytes :: "byte list \<Rightarrow> ws_client \<Rightarrow> ws_client" where
  "more_bytes bs c = c\<lparr>ws_buf := ws_buf c @ bs\<rparr>"

lemma more_bytes_nil [simp]: "more_bytes [] c = c"
  by (simp add: more_bytes_def)

lemma more_bytes_twice: "more_bytes b (more_bytes a c) = more_bytes (a @ b) c"
  by (simp add: more_bytes_def)

fun map_result :: "(ws_client \<Rightarrow> ws_client) \<Rightarrow> frame_result \<Rightarrow> frame_result" where
  "map_result g (GoOn c) = GoOn (g c)"
| "map_result g (Deliver m c) = Deliver m (g c)"
| "map_result g (Break e c) = Break e (g c)"

text \<open>Handling a frame neither reads nor changes the buffer.\<close>

lemma handle_frame_more: "handle_frame f (c\<lparr>ws_buf := b\<rparr>) = map_result (\<lambda>c. c\<lparr>ws_buf := b\<rparr>) (handle_frame f c)"
  by (simp add: handle_frame_def Let_def write_frame_def split: option.split)

lemma handle_frame_more_bytes: "handle_frame f (more_bytes bs c) = map_result (more_bytes bs) (handle_frame f c)"
proof -
  have "map_result (\<lambda>x. x\<lparr>ws_buf := ws_buf c @ bs\<rparr>) (handle_frame f c) = map_result (more_bytes bs) (handle_frame f c)"
  proof (cases "handle_frame f c")
    case (GoOn c1)
    then show ?thesis using handle_frame_buf(1)[OF GoOn] by (simp add: more_bytes_def)
  next
    case (Deliver m c1)
    then show ?thesis using handle_frame_buf(2)[OF Deliver] by (simp add: more_bytes_def)
  next
    case (Break e c1)
    then show ?thesis using handle_frame_buf(3)[OF Break] by (simp add: more_bytes_def)
  qed
  then show ?thesis unfolding more_bytes_def[of bs c] handle_frame_more .
qed

lemma ws_buf_more_bytes [simp]: "ws_buf (more_bytes bs c) = ws_buf c @ bs"
  by (simp add: more_bytes_def)

lemma drain_cases:
  "parse_frame (ws_buf c) = Inl e \<Longrightarrow> drain c = Break e c"
  "parse_frame (ws_buf c) = Inr None \<Longrightarrow> drain c = GoOn c"
  "parse_frame (ws_buf c) = Inr (Some (f, used)) \<Longrightarrow>
     drain c = (case handle_frame f (c\<lparr>ws_buf := drop used (ws_buf c)\<rparr>) of GoOn c1 \<Rightarrow> drain c1 | r \<Rightarrow> r)"
  by (simp_all add: drain.simps[of c])

lemma drain_more_bytes:
  "drain (more_bytes bs c) = (case drain c of GoOn c1 \<Rightarrow> drain (more_bytes bs c1) | r \<Rightarrow> map_result (more_bytes bs) r)"
proof (induction c rule: drain.induct)
  case (1 c)
  show ?case
  proof (cases "parse_frame (ws_buf c)")
    case (Inl e)
    then have "parse_frame (ws_buf c @ bs) = Inl e" using parse_frame_append by blast
    then show ?thesis using Inl by (simp add: drain_cases(1))
  next
    case (Inr o')
    show ?thesis
    proof (cases o')
      case None
      then show ?thesis using Inr by (simp add: drain_cases(2))
    next
      case (Some fu)
      obtain f used where fu: "fu = (f, used)" by force
      have p: "parse_frame (ws_buf c) = Inr (Some (f, used))" using Inr Some fu by simp
      then have p': "parse_frame (ws_buf c @ bs) = Inr (Some (f, used))" using parse_frame_append by blast
      have u: "used \<le> length (ws_buf c)" using parse_frame_used[OF p] by simp
      let ?c = "c\<lparr>ws_buf := drop used (ws_buf c)\<rparr>"
      have eq: "(more_bytes bs c)\<lparr>ws_buf := drop used (ws_buf (more_bytes bs c))\<rparr> = more_bytes bs ?c"
        using u by (simp add: more_bytes_def)
      have d: "drain c = (case handle_frame f ?c of GoOn c1 \<Rightarrow> drain c1 | r \<Rightarrow> r)" using p by (rule drain_cases(3))
      have d': "drain (more_bytes bs c) = (case map_result (more_bytes bs) (handle_frame f ?c) of GoOn c1 \<Rightarrow> drain c1 | r \<Rightarrow> r)"
        using drain_cases(3)[of "more_bytes bs c" f used] p' unfolding eq handle_frame_more_bytes by simp
      show ?thesis
        using "1.IH"[OF Inr Some fu[symmetric]] by (cases "handle_frame f ?c") (simp_all add: d d')
    qed
  qed
qed

text \<open>The bytes among the events of a connection that neither ends nor fails.\<close>

fun event_bytes :: "read_event list \<Rightarrow> byte list" where
  "event_bytes [] = []"
| "event_bytes (Bytes bs # evs) = bs @ event_bytes evs"
| "event_bytes (_ # evs) = event_bytes evs"

fun alive :: "read_event \<Rightarrow> bool" where
  "alive (Bytes bs) = (bs \<noteq> [])"
| "alive ReadError = False"
| "alive _ = True"

lemma drain_idle: "drain c = GoOn c1 \<Longrightarrow> drain c1 = GoOn c1"
proof (induction c rule: drain.induct)
  case (1 c)
  show ?case
  proof (cases "parse_frame (ws_buf c)")
    case (Inl e)
    then show ?thesis using "1.prems" by (simp add: drain.simps[of c])
  next
    case (Inr o')
    show ?thesis
    proof (cases o')
      case None
      then show ?thesis using "1.prems" Inr by (auto simp: drain_cases(2))
    next
      case (Some fu)
      obtain f used where fu: "fu = (f, used)" by force
      let ?c = "c\<lparr>ws_buf := drop used (ws_buf c)\<rparr>"
      show ?thesis
        using "1.prems" "1.IH"[OF Inr Some fu[symmetric]] Inr Some fu by (cases "handle_frame f ?c") (simp_all add: drain.simps[of c])
    qed
  qed
qed

lemma try_read_drain:
  assumes "\<forall>ev\<in>set evs. alive ev" "try_read_message evs c = (r, c1, evs1)"
  shows "(case r of
      Inl e \<Rightarrow> \<exists>c2. drain (more_bytes (event_bytes evs) c) = Break e c2
    | Inr (Some m) \<Rightarrow> drain (more_bytes (event_bytes evs) c) = Deliver m (more_bytes (event_bytes evs1) c1)
    | Inr None \<Rightarrow> drain (more_bytes (event_bytes evs) c) = drain (more_bytes (event_bytes evs1) c1) \<and> drain c1 = GoOn c1)
    \<and> (\<forall>ev\<in>set evs1. alive ev)"
  using assms
proof (induction evs arbitrary: c)
  case Nil
  then show ?case using drain_idle by (auto split: frame_result.splits)
next
  case (Cons ev evs)
  show ?case
  proof (cases "drain c")
    case (GoOn c2)
    then have d: "drain (more_bytes bs c) = drain (more_bytes bs c2)" for bs by (simp add: drain_more_bytes)
    show ?thesis
    proof (cases ev)
      case (Bytes bs)
      then have "try_read_message evs (more_bytes bs c2) = (r, c1, evs1)"
        using Cons.prems GoOn by (simp add: more_bytes_def)
      from Cons.IH[OF _ this, unfolded more_bytes_twice] Cons.prems(1) show ?thesis
        unfolding Bytes event_bytes.simps d by simp
    next
      case TimedOut
      then show ?thesis using Cons.prems GoOn d drain_idle[OF GoOn] by auto
    next
      case Interrupted
      then have "try_read_message evs c2 = (r, c1, evs1)" using Cons.prems GoOn by simp
      from Cons.IH[OF _ this] Cons.prems(1) show ?thesis unfolding Interrupted event_bytes.simps d by simp
    next
      case ReadError
      then show ?thesis using Cons.prems by simp
    qed
  qed (use Cons.prems in \<open>auto simp: drain_more_bytes\<close>)
qed

section \<open>Polling a connection\<close>

lemma drain_shrinks:
  "(\<forall>c1. drain c = GoOn c1 \<longrightarrow> length (ws_buf c1) \<le> length (ws_buf c))
   \<and> (\<forall>m c1. drain c = Deliver m c1 \<longrightarrow> length (ws_buf c1) < length (ws_buf c))"
proof (induction c rule: drain.induct)
  case (1 c)
  show ?case
  proof (cases "parse_frame (ws_buf c)")
    case (Inl e)
    then show ?thesis by (simp add: drain_cases(1))
  next
    case (Inr o')
    show ?thesis
    proof (cases o')
      case None
      then show ?thesis using Inr by (simp add: drain_cases(2))
    next
      case (Some fu)
      obtain f used where fu: "fu = (f, used)" by force
      have p: "parse_frame (ws_buf c) = Inr (Some (f, used))" using Inr Some fu by simp
      let ?c = "c\<lparr>ws_buf := drop used (ws_buf c)\<rparr>"
      have l: "length (ws_buf ?c) < length (ws_buf c)" using parse_frame_used[OF p] by auto
      show ?thesis
      proof (cases "handle_frame f ?c")
        case (GoOn c1)
        have d: "drain c = drain c1" using drain_cases(3)[OF p] GoOn by simp
        have l1: "length (ws_buf c1) < length (ws_buf c)" using handle_frame_buf(1)[OF GoOn] l by simp
        show ?thesis
          unfolding d using "1.IH"[OF Inr Some fu[symmetric] GoOn] l1 by (meson less_imp_le less_trans le_less_trans order_trans)
      next
        case (Deliver m c1)
        then have "drain c = Deliver m c1" using drain_cases(3)[OF p] by simp
        then show ?thesis using handle_frame_buf(2)[OF Deliver] l by simp
      next
        case (Break e c1)
        then have "drain c = Break e c1" using drain_cases(3)[OF p] by simp
        then show ?thesis by simp
      qed
    qed
  qed
qed

definition weight :: "read_event list \<Rightarrow> ws_client \<Rightarrow> nat" where
  "weight evs c = length evs + length (event_bytes evs) + length (ws_buf c)"

lemma try_read_weight:
  "try_read_message evs c = (Inr o', c1, evs1) \<Longrightarrow> o' \<noteq> None \<or> evs1 \<noteq> [] \<Longrightarrow> weight evs1 c1 < weight evs c"
proof (induction evs arbitrary: c)
  case Nil
  then show ?case using drain_shrinks[of c] by (auto simp: weight_def split: frame_result.splits)
next
  case (Cons ev evs)
  show ?case
  proof (cases "drain c")
    case (GoOn c2)
    have l: "length (ws_buf c2) \<le> length (ws_buf c)" using drain_shrinks[of c] GoOn by blast
    show ?thesis
    proof (cases ev)
      case (Bytes bs)
      then have "try_read_message evs (more_bytes bs c2) = (Inr o', c1, evs1)"
        using Cons.prems(1) GoOn by (auto simp: more_bytes_def split: if_splits)
      from Cons.IH[OF this Cons.prems(2)] show ?thesis using l Bytes by (simp add: weight_def)
    next
      case TimedOut
      then show ?thesis using Cons.prems GoOn l by (auto simp: weight_def)
    next
      case Interrupted
      then have "try_read_message evs c2 = (Inr o', c1, evs1)" using Cons.prems(1) GoOn by simp
      from Cons.IH[OF this Cons.prems(2)] show ?thesis using l Interrupted by (simp add: weight_def)
    next
      case ReadError
      then show ?thesis using Cons.prems GoOn by simp
    qed
  qed (use Cons.prems drain_shrinks[of c] in \<open>auto simp: weight_def\<close>)
qed

text \<open>The connection loop's calls of \<open>try_read_message\<close> until it fails or the events end: the messages
  it was given and the error that ended it.\<close>

function read_all :: "read_event list \<Rightarrow> ws_client \<Rightarrow> ws_message list \<times> ws_error option" where
  "read_all evs c =
     (case try_read_message evs c of
        (Inl e, c1, evs1) \<Rightarrow> ([], Some e)
      | (Inr (Some m), c1, evs1) \<Rightarrow> (let (ms, e) = read_all evs1 c1 in (m # ms, e))
      | (Inr None, c1, evs1) \<Rightarrow> (if evs1 = [] then ([], None) else read_all evs1 c1))"
  by pat_completeness auto
termination
  by (relation "measure (\<lambda>(evs, c). weight evs c)") (auto dest!: try_read_weight[OF sym])

declare read_all.simps [simp del]

text \<open>All messages in a buffer.\<close>

function messages :: "ws_client \<Rightarrow> ws_message list \<times> ws_error option" where
  "messages c =
     (case drain c of
        Break e c1 \<Rightarrow> ([], Some e)
      | GoOn c1 \<Rightarrow> ([], None)
      | Deliver m c1 \<Rightarrow> (let (ms, e) = messages c1 in (m # ms, e)))"
  by pat_completeness auto
termination
  using drain_shrinks by (relation "measure (\<lambda>c. length (ws_buf c))") auto

declare messages.simps [simp del]

lemma read_all_messages: "\<forall>ev\<in>set evs. alive ev \<Longrightarrow> read_all evs c = messages (more_bytes (event_bytes evs) c)"
proof (induction evs c rule: read_all.induct)
  case (1 evs c)
  obtain r c1 evs1 where t: "try_read_message evs c = (r, c1, evs1)" using prod_cases3 by blast
  note d = try_read_drain[OF "1.prems" t]
  show ?case
  proof (cases r)
    case (Inl e)
    then show ?thesis using t d by (auto simp: read_all.simps[of evs c] messages.simps[of "more_bytes (event_bytes evs) c"])
  next
    case (Inr o')
    show ?thesis
    proof (cases o')
      case None
      show ?thesis
      proof (cases "evs1 = []")
        case True
        then show ?thesis
          using t d Inr None by (simp add: read_all.simps[of evs c] messages.simps[of "more_bytes (event_bytes evs) c"])
      next
        case False
        have "read_all evs c = read_all evs1 c1" using t Inr None False by (simp add: read_all.simps[of evs c])
        also have "\<dots> = messages (more_bytes (event_bytes evs1) c1)"
          using "1.IH"(1)[OF t[symmetric] Inr None refl False] d by simp
        also have "\<dots> = messages (more_bytes (event_bytes evs) c)"
          using d Inr None by (simp add: messages.simps[of "more_bytes (event_bytes evs) c"] messages.simps[of "more_bytes (event_bytes evs1) c1"])
        finally show ?thesis .
      qed
    next
      case (Some m)
      have "messages (more_bytes (event_bytes evs) c) = (let (ms, e) = messages (more_bytes (event_bytes evs1) c1) in (m # ms, e))"
        using d Inr Some by (simp add: messages.simps[of "more_bytes (event_bytes evs) c"])
      then show ?thesis
        using t Inr Some "1.IH"(2)[OF t[symmetric] Inr Some refl] d by (simp add: read_all.simps[of evs c])
    qed
  qed
qed

section \<open>What a server sends arrives\<close>

text \<open>A complete frame of a server: opcode, payload and mask.\<close>

type_synonym server_frame = "byte \<times> byte list \<times> byte list option"

definition frame_bytes :: "server_frame \<Rightarrow> byte list" where
  "frame_bytes x = (case x of (op, payload, key) \<Rightarrow> encode_frame op payload key)"

definition frame_ok :: "server_frame \<Rightarrow> bool" where
  "frame_ok x \<longleftrightarrow> (case x of (op, payload, key) \<Rightarrow> op \<in> {OPCODE_TEXT, OPCODE_BINARY, OPCODE_PING, OPCODE_PONG}
     \<and> length payload \<le> MAX_FRAME_PAYLOAD \<and> (\<forall>k. key = Some k \<longrightarrow> length k = 4))"

definition data_frame :: "server_frame \<Rightarrow> bool" where
  "data_frame x \<longleftrightarrow> fst x \<in> {OPCODE_TEXT, OPCODE_BINARY}"

lemma opcode_mask: "op \<in> {OPCODE_TEXT, OPCODE_BINARY, OPCODE_PING, OPCODE_PONG} \<Longrightarrow> op AND 0x0f = op"
  by (auto simp: opcode_defs)

lemma drain_frame:
  assumes "frame_ok (op, payload, key)" "ws_buf c = frame_bytes (op, payload, key) @ rest" "\<not> ws_write_fails c"
  shows "if data_frame (op, payload, key) then drain c = Deliver (message_of op payload) (c\<lparr>ws_buf := rest\<rparr>)
    else \<exists>c1. drain c = drain c1 \<and> ws_buf c1 = rest \<and> \<not> ws_write_fails c1"
proof -
  have ok: "op \<in> {OPCODE_TEXT, OPCODE_BINARY, OPCODE_PING, OPCODE_PONG}" "length payload \<le> MAX_FRAME_PAYLOAD"
    "\<forall>k. key = Some k \<longrightarrow> length k = 4"
    using assms(1) by (simp_all add: frame_ok_def)
  let ?f = "\<lparr>rf_fin = True, rf_opcode = op, rf_payload = payload\<rparr>"
  have "parse_frame (ws_buf c) = Inr (Some (?f, length (encode_frame op payload key)))"
    using parse_encode_frame[OF ok(2,3), of op rest] assms(2) opcode_mask[OF ok(1)] by (simp add: frame_bytes_def)
  from drain_cases(3)[OF this]
  have d: "drain c = (case handle_frame ?f (c\<lparr>ws_buf := rest\<rparr>) of GoOn c1 \<Rightarrow> drain c1 | r \<Rightarrow> r)"
    using assms(2) by (simp add: frame_bytes_def)
  show ?thesis
  proof (cases "data_frame (op, payload, key)")
    case True
    then show ?thesis using d by (auto simp: data_frame_def handle_frame_def opcode_defs)
  next
    case False
    let ?c1 = "if op = OPCODE_PING then c\<lparr>ws_buf := rest, ws_out := ws_out c @ [(OPCODE_PONG, payload)]\<rparr> else c\<lparr>ws_buf := rest\<rparr>"
    have "handle_frame ?f (c\<lparr>ws_buf := rest\<rparr>) = GoOn ?c1"
      using False ok(1) assms(3) by (auto simp: data_frame_def handle_frame_def write_frame_def opcode_defs)
    then have "drain c = drain ?c1" using d by simp
    moreover have "ws_buf ?c1 = rest" "\<not> ws_write_fails ?c1" using assms(3) by simp_all
    ultimately show ?thesis using False by meson
  qed
qed

lemma messages_frames:
  assumes "\<forall>x\<in>set xs. frame_ok x" "ws_buf c = concat (map frame_bytes xs)" "\<not> ws_write_fails c"
  shows "messages c = (map (\<lambda>(op, payload, key). message_of op payload) (filter data_frame xs), None)"
  using assms
proof (induction xs arbitrary: c)
  case Nil
  then have "parse_frame (ws_buf c) = Inr None" by (simp add: parse_frame_def)
  then show ?case by (simp add: messages.simps[of c] drain_cases(2))
next
  case (Cons x xs)
  obtain op payload key where x: "x = (op, payload, key)" by (cases x)
  let ?rest = "concat (map frame_bytes xs)"
  have d: "if data_frame x then drain c = Deliver (message_of op payload) (c\<lparr>ws_buf := ?rest\<rparr>)
    else \<exists>c1. drain c = drain c1 \<and> ws_buf c1 = ?rest \<and> \<not> ws_write_fails c1"
    unfolding x by (rule drain_frame) (use Cons.prems x in simp_all)
  show ?case
  proof (cases "data_frame x")
    case True
    have "messages (c\<lparr>ws_buf := ?rest\<rparr>) = (map (\<lambda>(op, payload, key). message_of op payload) (filter data_frame xs), None)"
      using Cons.IH[of "c\<lparr>ws_buf := ?rest\<rparr>"] Cons.prems by simp
    then show ?thesis using d True x by (simp add: messages.simps[of c])
  next
    case False
    then obtain c1 where c1: "drain c = drain c1" "ws_buf c1 = ?rest" "\<not> ws_write_fails c1" using d by auto
    have "messages c = messages c1" using c1(1) by (simp add: messages.simps[of c] messages.simps[of c1])
    then show ?thesis using Cons.IH[OF _ c1(2,3)] Cons.prems False by simp
  qed
qed

text \<open>encoding and then parsing a frame of up to 16 MiB gives it back, masked or not, whatever follows in
  the buffer, and consumes exactly its bytes; a parse result never changes when more bytes arrive.\<close>

theorem frame_roundtrip:
  assumes "length payload \<le> MAX_FRAME_PAYLOAD" "\<forall>k. key = Some k \<longrightarrow> length k = 4"
  shows "parse_frame (encode_frame opcode payload key @ rest)
      = Inr (Some (\<lparr>rf_fin = True, rf_opcode = opcode AND 0x0f, rf_payload = payload\<rparr>, length (encode_frame opcode payload key)))
    \<and> (\<forall>buf r bs. parse_frame buf = r \<and> r \<noteq> Inr None \<longrightarrow> parse_frame (buf @ bs) = r)"
  using parse_encode_frame[OF assms] parse_frame_append by blast

theorem frame_roundtrip_witness:
  "parse_frame (encode_frame 1 [7, 8] (Some [1, 2, 3, 4]) @ [9])
     = Inr (Some (\<lparr>rf_fin = True, rf_opcode = 1, rf_payload = [7, 8]\<rparr>, length (encode_frame 1 [7, 8] (Some [1, 2, 3, 4]))))"
  using frame_roundtrip[of "[7, 8]" "Some [1, 2, 3, 4]" 1 "[9]"] by (simp add: MAX_FRAME_PAYLOAD_def)

text \<open>C14: however the bytes of a server's text, binary, ping and pong frames are cut into reads, with any
  timeouts and interruptions in between, polling the connection delivers exactly the text and
  binary messages, in order and unchanged, and no error.\<close>

theorem messages_arrive:
  assumes "\<forall>x\<in>set xs. frame_ok x" "\<forall>ev\<in>set evs. alive ev" "event_bytes evs = concat (map frame_bytes xs)"
    "ws_buf c = []" "\<not> ws_write_fails c"
  shows "read_all evs c = (map (\<lambda>(op, payload, key). message_of op payload) (filter data_frame xs), None)"
  using read_all_messages[OF assms(2), of c] messages_frames[OF assms(1), of "more_bytes (event_bytes evs) c"] assms(3-5)
  by (simp add: more_bytes_def)

theorem messages_arrive_witness:
  "read_all [Bytes [0x81], TimedOut, Bytes [2, 104], Bytes [105]]
     \<lparr>ws_buf = [], ws_frag = None, ws_sent_close = False, ws_out = [], ws_write_fails = False\<rparr>
   = ([Text [104, 105]], None)"
  using messages_arrive[of "[(OPCODE_TEXT, [104, 105], None)]" "[Bytes [0x81], TimedOut, Bytes [2, 104], Bytes [105]]"
      "\<lparr>ws_buf = [], ws_frag = None, ws_sent_close = False, ws_out = [], ws_write_fails = False\<rparr>"]
  by (simp add: frame_ok_def frame_bytes_def encode_frame_def data_frame_def message_of_def MAX_FRAME_PAYLOAD_def opcode_defs)

section \<open>base64 loses nothing\<close>

text \<open>\<open>sha1\<close> is an external crate; the GUID is the one of RFC 6455.\<close>

definition WS_GUID :: string where
  "WS_GUID = ''258EAFA5-E914-47DA-95CA-C5AB0DC85B11''"

definition compute_accept :: "(byte list \<Rightarrow> byte list) \<Rightarrow> string \<Rightarrow> string" where
  "compute_accept sha1 key = base64_encode (sha1 (map of_char key @ map of_char WS_GUID))"

text \<open>The decoder of RFC 4648, as the specification.\<close>

definition b64_val :: "char \<Rightarrow> nat" where
  "b64_val ch = (if ch = CHR ''='' then 0 else length (takeWhile (\<lambda>a. a \<noteq> ch) ALPHABET))"

fun base64_decode :: "string \<Rightarrow> byte list" where
  "base64_decode (a # b # c # d # rest) =
     (let n = b64_val a * 262144 + b64_val b * 4096 + b64_val c * 64 + b64_val d;
          bs = [of_nat (n div 65536), of_nat (n div 256), of_nat n]
      in (if c = CHR ''='' then take 1 bs else if d = CHR ''='' then take 2 bs else bs) @ base64_decode rest)"
| "base64_decode _ = []"

lemma alphabet_vals: "map b64_val ALPHABET = [0..<64]" "CHR ''='' \<notin> set ALPHABET"
  by code_simp+

lemma length_ALPHABET: "length ALPHABET = 64"
  using arg_cong[OF alphabet_vals(1), of length] by simp

lemma b64_val_alphabet: "i < 64 \<Longrightarrow> b64_val (ALPHABET ! i) = i"
  using arg_cong[OF alphabet_vals(1), of "\<lambda>xs. xs ! i"] length_ALPHABET by simp

lemma alphabet_not_pad: "i < 64 \<Longrightarrow> ALPHABET ! i \<noteq> CHR ''=''"
  using nth_mem[of i ALPHABET] alphabet_vals(2) length_ALPHABET by metis

lemma sextet: "unat (drop_bit k n AND 0x3f) = unat n div 2 ^ k mod 64" for n :: u32
proof -
  have "unat (drop_bit k n AND 0x3f) = unat (drop_bit k n) AND unat (0x3f :: u32)"
    by (rule unsigned_and_eq)
  also have "\<dots> = unat (drop_bit k n) AND mask 6" by (simp add: mask_eq_exp_minus_1)
  also have "\<dots> = unat (drop_bit k n) mod 2 ^ 6" by (simp only: take_bit_eq_mask [symmetric] take_bit_eq_mod)
  finally show ?thesis by (simp only: unat_shr) simp
qed

lemma or_disjoint:
  fixes a b :: u32
  assumes "unat b < 2 ^ k" "2 ^ k * unat a + 2 ^ k \<le> 2 ^ 32"
  shows "unat (push_bit k a OR b) = 2 ^ k * unat a + unat b"
proof -
  have "unat (push_bit k a) = unat (a * 2 ^ k)" by (simp only: push_bit_eq_mult)
  also have "\<dots> = (unat a * unat (2 ^ k :: u32)) mod 2 ^ 32" by (simp add: unat_word_ariths)
  finally have 1: "unat (push_bit k a) = (unat a * unat (2 ^ k :: u32)) mod 2 ^ 32" .
  have pa: "unat (push_bit k a) = 2 ^ k * unat a"
  proof (cases "k < 32")
    case True
    then have "(2 :: nat) ^ k < 2 ^ LENGTH(32)" by (intro power_strict_increasing) simp_all
    then have "unat (word_of_nat (2 ^ k) :: u32) = 2 ^ k" by (simp only: unat_of_nat mod_less)
    then have "unat (2 ^ k :: u32) = 2 ^ k" by simp
    moreover have "unat a * 2 ^ k < 2 ^ 32" using assms(2) by (simp add: mult.commute less_le_trans[of _ "unat a * 2 ^ k + 2 ^ k"])
    ultimately show ?thesis using 1 by (simp only: mod_less mult.commute)
  next
    case False
    then have "(2 :: nat) ^ 32 \<le> 2 ^ k" by (intro power_increasing) simp_all
    then have "unat a = 0" using assms(2) by (cases "unat a") simp_all
    then show ?thesis by (simp add: unat_eq_0)
  qed
  have "push_bit k a AND b = 0"
  proof (rule bit_word_eqI)
    fix n assume "n < LENGTH(32)"
    have "bit b n \<Longrightarrow> n < k" by (rule bit_less_pow2) (use assms(1) in simp_all)
    then show "bit (push_bit k a AND b) n = bit (0 :: u32) n" by (auto simp: bit_and_iff bit_push_bit_iff)
  qed
  then have "push_bit k a OR b = push_bit k a + b" by (simp only: disjunctive_add_eq_or)
  moreover have "2 ^ k * unat a + unat b < 2 ^ 32" using assms by linarith
  ultimately show ?thesis using pa by (simp add: unat_word_ariths)
qed

lemma unat_ucast_byte: "unat (ucast (b :: byte) :: u32) = unat b"
proof -
  have "unat b < 2 ^ LENGTH(32)" by (rule less_le_trans[OF unat_byte_less[of b]]) simp
  then show ?thesis by (simp only: unat_ucast mod_less)
qed

lemma three_bytes:
  fixes b0 b1 b2 :: byte
  shows "unat ((push_bit 16 (ucast b0) OR push_bit 8 (ucast b1)) OR ucast b2 :: u32) = unat b0 * 65536 + unat b1 * 256 + unat b2"
proof -
  have b: "unat b0 < 256" "unat b1 < 256" "unat b2 < 256" by (rule unat_byte_less)+
  have low: "unat (push_bit 8 (ucast b1) OR ucast b2 :: u32) = 256 * unat b1 + unat b2"
    using or_disjoint[of "ucast b2" 8 "ucast b1", unfolded unat_ucast_byte] b by simp
  have "unat (push_bit 16 (ucast b0) OR (push_bit 8 (ucast b1) OR ucast b2) :: u32) = 65536 * unat b0 + (256 * unat b1 + unat b2)"
    using or_disjoint[of "push_bit 8 (ucast b1) OR ucast b2" 16 "ucast b0", unfolded unat_ucast_byte low] b by simp
  then show ?thesis by (simp add: or.assoc)
qed

lemma sextets_lin:
  "n = 64 * a + r \<Longrightarrow> a = 64 * b + s \<Longrightarrow> b = 64 * c + t \<Longrightarrow> (c :: nat) * 262144 + t * 4096 + s * 64 + r = n"
  by simp

lemma sextets_sum:
  assumes "(n :: nat) < 16777216"
  shows "n div 262144 mod 64 * 262144 + n div 4096 mod 64 * 4096 + n div 64 mod 64 * 64 + n mod 64 = n"
proof -
  define a where "a = n div 64"
  define b where "b = a div 64"
  define c where "c = b div 64"
  have e: "n div 262144 = c" "n div 4096 = b"
    by (simp_all add: a_def b_def c_def div_mult2_eq [symmetric])
  have "n = 64 * a + n mod 64" "a = 64 * b + a mod 64" "b = 64 * c + b mod 64"
    by (simp_all add: a_def b_def c_def)
  moreover have "c mod 64 = c" using assms e(1) by auto
  ultimately have "c mod 64 * 262144 + b mod 64 * 4096 + a mod 64 * 64 + n mod 64 = n"
    by (metis (no_types) sextets_lin)
  then show ?thesis by (simp only: e a_def [symmetric])
qed

lemma byte_256: "of_nat (n * 256) = (0 :: byte)" "x * 256 = (0 :: byte)" "x * 65536 = (0 :: byte)"
proof -
  have z: "(256 :: byte) = 0" "(65536 :: byte) = 0" by simp_all
  show "of_nat (n * 256) = (0 :: byte)" "x * 256 = (0 :: byte)" "x * 65536 = (0 :: byte)"
    by (simp_all only: z of_nat_mult of_nat_numeral mult_zero_right)
qed

lemma base64_chunk_decode:
  fixes b0 b1 b2 :: byte and rest :: string
  defines "n \<equiv> unat b0 * 65536 + unat b1 * 256 + unat b2"
  shows "of_nat (n div 65536) = b0" "of_nat (n div 256) = b1" "of_nat n = b2" "n < 16777216"
proof -
  have b: "unat b0 < 256" "unat b1 < 256" "unat b2 < 256" by (rule unat_byte_less)+
  have e: "n = (unat b0 * 256 + unat b1) * 256 + unat b2" by (simp add: n_def)
  have 1: "n div 256 = unat b0 * 256 + unat b1" unfolding e using b(3) by (subst div_mult_self3) simp_all
  have "n div 65536 = n div 256 div 256" by (simp add: div_mult2_eq [symmetric])
  also have "\<dots> = unat b0" unfolding 1 using b(2) by (subst div_mult_self3) simp_all
  finally have "n div 65536 = unat b0" .
  note this 1
  then show "of_nat (n div 65536) = b0" "of_nat (n div 256) = b1" "of_nat n = b2"
    unfolding n_def by (simp_all add: byte_256)
  show "n < 16777216" using b unfolding n_def by linarith
qed

lemma base64_chunk_sextets:
  fixes b0 b1 b2 :: byte
  defines "n \<equiv> unat b0 * 65536 + unat b1 * 256 + unat b2"
  shows "base64_chunk [b0, b1, b2] = [ALPHABET ! (n div 262144 mod 64), ALPHABET ! (n div 4096 mod 64), ALPHABET ! (n div 64 mod 64), ALPHABET ! (n mod 64)]"
    and "b2 = 0 \<Longrightarrow> base64_chunk [b0, b1] = [ALPHABET ! (n div 262144 mod 64), ALPHABET ! (n div 4096 mod 64), ALPHABET ! (n div 64 mod 64), CHR ''='']"
    and "b1 = 0 \<Longrightarrow> b2 = 0 \<Longrightarrow> base64_chunk [b0] = [ALPHABET ! (n div 262144 mod 64), ALPHABET ! (n div 4096 mod 64), CHR ''='', CHR ''='']"
proof -
  define m :: u32 where "m = (push_bit 16 (ucast b0) OR push_bit 8 (ucast b1)) OR ucast b2"
  have m: "unat m = n" unfolding m_def n_def by (rule three_bytes)
  have s: "unat (drop_bit 18 m AND 0x3f) = n div 262144 mod 64" "unat (drop_bit 12 m AND 0x3f) = n div 4096 mod 64"
    "unat (drop_bit 6 m AND 0x3f) = n div 64 mod 64" "unat (m AND 0x3f) = n mod 64"
    using sextet[of 18 m] sextet[of 12 m] sextet[of 6 m] sextet[of 0 m] m by simp_all
  show "base64_chunk [b0, b1, b2] = [ALPHABET ! (n div 262144 mod 64), ALPHABET ! (n div 4096 mod 64), ALPHABET ! (n div 64 mod 64), ALPHABET ! (n mod 64)]"
    unfolding s [symmetric] by (simp add: base64_chunk_def m_def Let_def)
  show "b2 = 0 \<Longrightarrow> base64_chunk [b0, b1] = [ALPHABET ! (n div 262144 mod 64), ALPHABET ! (n div 4096 mod 64), ALPHABET ! (n div 64 mod 64), CHR ''='']"
    unfolding s [symmetric] by (simp add: base64_chunk_def m_def Let_def)
  show "b1 = 0 \<Longrightarrow> b2 = 0 \<Longrightarrow> base64_chunk [b0] = [ALPHABET ! (n div 262144 mod 64), ALPHABET ! (n div 4096 mod 64), CHR ''='', CHR ''='']"
    unfolding s [symmetric] by (simp add: base64_chunk_def m_def Let_def)
qed

lemma b64_val_pad: "b64_val CHR ''='' = 0"
  by (simp add: b64_val_def)

lemma byte_val_zero: "unat (0 :: byte) = 0"
  by simp

lemma decode_group:
  assumes "p * 262144 + q * 4096 + r * 64 + t = n" "p < 64" "q < 64" "r < 64" "t < 64"
  shows "base64_decode (ALPHABET ! p # ALPHABET ! q # ALPHABET ! r # ALPHABET ! t # rest)
           = [of_nat (n div 65536), of_nat (n div 256), of_nat n] @ base64_decode rest"
    and "t = 0 \<Longrightarrow> base64_decode [ALPHABET ! p, ALPHABET ! q, ALPHABET ! r, CHR ''=''] = [of_nat (n div 65536), of_nat (n div 256)]"
    and "t = 0 \<Longrightarrow> r = 0 \<Longrightarrow> base64_decode [ALPHABET ! p, ALPHABET ! q, CHR ''='', CHR ''=''] = [of_nat (n div 65536)]"
  using assms(2-) by (simp_all add: assms(1) [symmetric] b64_val_alphabet b64_val_pad alphabet_not_pad Let_def)

lemma decode_three: "base64_decode (base64_chunk [b0, b1, b2] @ rest) = [b0, b1, b2] @ base64_decode rest"
  by (simp only: base64_chunk_sextets(1) append.simps mod_less_divisor zero_less_numeral
      decode_group(1)[OF sextets_sum[OF base64_chunk_decode(4)]] base64_chunk_decode(1-3))

lemma low_bits_zero: "(k * 256) mod 64 = 0" "(k * 65536) mod 64 = 0 \<and> (k * 65536) div 64 mod 64 = 0" for k :: nat
proof -
  have e: "k * 256 = (k * 4) * 64" "k * 65536 = (k * 1024) * 64" "k * 1024 = (k * 16) * 64" by simp_all
  show "(k * 256) mod 64 = 0" unfolding e(1) by (rule mod_mult_self2_is_0)
  have "(k * 65536) div 64 = k * 1024" unfolding e(2) by (rule nonzero_mult_div_cancel_right) simp
  then show "(k * 65536) mod 64 = 0 \<and> (k * 65536) div 64 mod 64 = 0" unfolding e(2) e(3) by (metis mod_mult_self2_is_0 e(3))
qed

lemma decode_two: "base64_decode (base64_chunk [b0, b1]) = [b0, b1]"
proof -
  define n where "n = unat b0 * 65536 + unat b1 * 256 + unat (0 :: byte)"
  have d: "of_nat (n div 65536) = b0" "of_nat (n div 256) = b1" "n < 16777216"
    using base64_chunk_decode[of b0 b1 0] by (simp_all add: n_def)
  have "n = (unat b0 * 256 + unat b1) * 256" by (simp add: n_def)
  then have "n mod 64 = 0" by (simp only: low_bits_zero)
  then show ?thesis
    using decode_group(2)[OF sextets_sum[OF d(3)]] d(1,2) base64_chunk_sextets(2)[of 0 b0 b1, folded n_def] by simp
qed

lemma decode_one: "base64_decode (base64_chunk [b0]) = [b0]"
proof -
  define n where "n = unat b0 * 65536 + unat (0 :: byte) * 256 + unat (0 :: byte)"
  have d: "of_nat (n div 65536) = b0" "n < 16777216"
    using base64_chunk_decode[of b0 0 0] by (simp_all add: n_def)
  have "n = unat b0 * 65536" by (simp add: n_def)
  then have "n mod 64 = 0 \<and> n div 64 mod 64 = 0" by (simp only: low_bits_zero)
  then show ?thesis
    using decode_group(3)[OF sextets_sum[OF d(2)]] d(1) base64_chunk_sextets(3)[of 0 0 b0, folded n_def] by simp
qed

text \<open>The base64 encoder writes exactly the RFC 4648 encoding: the decoder of the standard gives the
  bytes back, for every length, and the output has four characters for each started group of three bytes.\<close>

theorem base64_roundtrip: "base64_decode (base64_encode bs) = bs \<and> length (base64_encode bs) = 4 * ((length bs + 2) div 3)"
proof (induction bs rule: base64_encode.induct)
  case 1
  show ?case by simp
next
  case (2 x xs)
  have len: "length (base64_chunk c) = 4" for c by (simp add: base64_chunk_def Let_def)
  consider "xs = []" | y where "xs = [y]" | y z zs where "xs = y # z # zs"
    by (cases xs; cases "tl xs") auto
  then show ?case
  proof cases
    case 1
    then show ?thesis by (simp add: decode_one len)
  next
    case 2
    then show ?thesis by (simp add: decode_two len)
  next
    case 3
    have "(5 + k) div 3 = Suc ((k + 2) div 3)" for k :: nat by presburger
    then show ?thesis using "2.IH" 3 by (simp add: decode_three len)
  qed
qed

end
