(* ===== verification/Bech32.thy ===== *)
theory Bech32
  imports Prelude
begin

text \<open>
  Bech32 strings (\<open>block/src/bech32.rs\<close>): the checksum, \<open>encode\<close>, \<open>decode\<close> and the regrouping of bits
  \<open>convertbits\<close>. An \<open>i64\<close> is a 64-bit word read as signed; a string is its UTF-8 bytes. The case functions of
  \<open>encode\<close> are those of ASCII, which is all it can see after its range check; \<open>decode\<close> takes the Unicode tables
  of the standard library as a parameter, and the facts about it hold for all such tables. Lemmas: the checksum is linear over exclusive or and each step of it is injective, so decoding inverts
  encoding and one wrong symbol is always noticed; regrouping keeps the sequence of bits.
\<close>

section \<open>Definitions\<close>

type_synonym i64 = "64 word"

definition CHARSET :: "byte list" where
  "CHARSET = map of_char ''qpzry9x8gf2tvdw0s3jn54khce6mua7l''"

definition GENERATOR :: "i64 list" where
  "GENERATOR = [0x3b6a57b2, 0x26508e6d, 0x1ea119fa, 0x3d4233dd, 0x2a1462b3]"

datatype bech32_error =
    InvalidHrp "byte list"
  | MixedCase
  | Separator int nat
  | InvalidDataChar
  | InvalidDataValue nat
  | InvalidChecksum
  | InvalidDataRange
  | NonZeroPadding
  | IllegalZeroPadding

text \<open>One symbol: the five conditional exclusive ors are the inner loop.\<close>

definition polymod_step :: "i64 \<Rightarrow> i64 \<Rightarrow> i64" where
  "polymod_step chk v =
     (let top = signed_drop_bit 25 chk in
      fold (\<lambda>i c. if signed_drop_bit i top AND 1 = 1 then c XOR GENERATOR ! i else c) [0..<5]
        (push_bit 5 (chk AND 0x1ffffff) XOR v))"

definition polymod :: "i64 list \<Rightarrow> i64" where
  "polymod values = foldl polymod_step 1 values"

definition hrp_expand :: "byte list \<Rightarrow> i64 list" where
  "hrp_expand hrp = map (\<lambda>c. ucast (drop_bit 5 c)) hrp @ [0] @ map (\<lambda>c. ucast (c AND 31)) hrp"

definition verify_checksum :: "byte list \<Rightarrow> i64 list \<Rightarrow> bool" where
  "verify_checksum hrp data = (polymod (hrp_expand hrp @ data) = 1)"

definition create_checksum :: "byte list \<Rightarrow> i64 list \<Rightarrow> i64 list" where
  "create_checksum hrp data =
     (let values = hrp_expand hrp @ data @ [0, 0, 0, 0, 0, 0];
          md = polymod values XOR 1
      in map (\<lambda>p. signed_drop_bit (5 * (5 - p)) md AND 31) [0..<6])"

text \<open>\<open>to_lowercase\<close> and \<open>to_uppercase\<close> of ASCII strings.\<close>

definition lower_char :: "byte \<Rightarrow> byte" where
  "lower_char c = (if 65 \<le> c \<and> c \<le> 90 then c + 32 else c)"

definition upper_char :: "byte \<Rightarrow> byte" where
  "upper_char c = (if 97 \<le> c \<and> c \<le> 122 then c - 32 else c)"

definition to_lowercase :: "byte list \<Rightarrow> byte list" where
  "to_lowercase s = map lower_char s"

definition to_uppercase :: "byte list \<Rightarrow> byte list" where
  "to_uppercase s = map upper_char s"

text \<open>The case functions of the standard library work on Unicode text: byte by byte on an ASCII string; on any
  other string (given by its UTF-8 bytes) by the Unicode tables, which are the parameter \<open>unicode_case\<close>.
  The result may even be ASCII, as for the Kelvin sign, whose lower case is \<open>k\<close>.\<close>

record unicode_case =
  uni_lower :: "byte list \<Rightarrow> byte list"
  uni_upper :: "byte list \<Rightarrow> byte list"

definition ascii :: "byte list \<Rightarrow> bool" where
  "ascii s \<longleftrightarrow> (\<forall>c\<in>set s. c < 128)"

definition str_to_lowercase :: "unicode_case \<Rightarrow> byte list \<Rightarrow> byte list" where
  "str_to_lowercase U s = (if ascii s then to_lowercase s else uni_lower U s)"

definition str_to_uppercase :: "unicode_case \<Rightarrow> byte list \<Rightarrow> byte list" where
  "str_to_uppercase U s = (if ascii s then to_uppercase s else uni_upper U s)"

definition bad_hrp_char :: "byte \<Rightarrow> bool" where
  "bad_hrp_char c = (c < 33 \<or> c > 126)"

text \<open>The loop that appends the symbols; \<open>idx\<close> is the position in the combined data.\<close>

fun push_symbols :: "nat \<Rightarrow> i64 list \<Rightarrow> (byte list, bech32_error) result" where
  "push_symbols idx [] = Inr []"
| "push_symbols idx (p # ps) =
     (if p <s 0 \<or> unat p \<ge> length CHARSET then Inl (InvalidDataValue idx)
      else rbind (push_symbols (Suc idx) ps) (\<lambda>cs. Inr (CHARSET ! unat p # cs)))"

definition encode :: "byte list \<Rightarrow> i64 list \<Rightarrow> (byte list, bech32_error) result" where
  "encode hrp data =
     (if hrp = [] then Inl (InvalidHrp hrp)
      else if list_ex bad_hrp_char hrp then Inl (InvalidHrp hrp)
      else if to_uppercase hrp \<noteq> hrp \<and> to_lowercase hrp \<noteq> hrp then Inl MixedCase
      else
        (let lower = (to_lowercase hrp = hrp); hrp_l = to_lowercase hrp;
             combined = data @ create_checksum hrp_l data
         in rbind (push_symbols 0 combined) (\<lambda>cs.
              let ret = hrp_l @ of_char CHR ''1'' # cs
              in Inr (if lower then ret else to_uppercase ret))))"

text \<open>\<open>rfind('1')\<close>: the last position, or -1.\<close>

fun rfind_one :: "byte list \<Rightarrow> int" where
  "rfind_one [] = -1"
| "rfind_one (c # cs) =
     (let r = rfind_one cs in if r \<ge> 0 then r + 1 else if c = of_char CHR ''1'' then 0 else -1)"

definition charset_position :: "byte \<Rightarrow> nat option" where
  "charset_position c = (if c \<in> set CHARSET then Some (length (takeWhile (\<lambda>x. x \<noteq> c) CHARSET)) else None)"

fun pull_symbols :: "byte list \<Rightarrow> (i64 list, bech32_error) result" where
  "pull_symbols [] = Inr []"
| "pull_symbols (c # cs) =
     (case charset_position c of
        None \<Rightarrow> Inl InvalidDataChar
      | Some d \<Rightarrow> rbind (pull_symbols cs) (\<lambda>ds. Inr (of_nat d # ds)))"

definition decode :: "unicode_case \<Rightarrow> byte list \<Rightarrow> (byte list \<times> i64 list, bech32_error) result" where
  "decode U bech =
     (if str_to_lowercase U bech \<noteq> bech \<and> str_to_uppercase U bech \<noteq> bech then Inl MixedCase
      else
        (let bech = str_to_lowercase U bech; pos = rfind_one bech in
         if pos < 1 \<or> nat pos + 7 > length bech then Inl (Separator pos (length bech))
         else
           (let pos = nat pos; hrp = take pos bech in
            if list_ex bad_hrp_char hrp then Inl (InvalidHrp hrp)
            else rbind (pull_symbols (drop (pos + 1) bech)) (\<lambda>data.
              if \<not> verify_checksum hrp data then Inl InvalidChecksum
              else Inr (hrp, take (length data - 6) data)))))"

text \<open>Shifts of an \<open>i64\<close> in a release build take the amount modulo 64.\<close>

definition shl :: "i64 \<Rightarrow> nat \<Rightarrow> i64" where "shl x n = push_bit (n mod 64) x"
definition shr :: "i64 \<Rightarrow> nat \<Rightarrow> i64" where "shr x n = signed_drop_bit (n mod 64) x"

text \<open>The inner loop; it does not end when \<open>tobits\<close> is zero, which is the value \<open>None\<close>.\<close>

partial_function (option) emit :: "nat \<Rightarrow> i64 \<Rightarrow> i64 \<Rightarrow> nat \<Rightarrow> i64 list \<Rightarrow> (nat \<times> i64 list) option" where
  "emit tobits maxv acc bits ret =
     (if bits \<ge> tobits
      then emit tobits maxv acc (bits - tobits) (ret @ [shr acc (bits - tobits) AND maxv])
      else Some (bits, ret))"

declare emit.simps [code]

fun convert_loop :: "nat \<Rightarrow> nat \<Rightarrow> i64 \<Rightarrow> i64 list \<Rightarrow> i64 \<times> nat \<times> i64 list
    \<Rightarrow> (i64 \<times> nat \<times> i64 list, bech32_error) result option" where
  "convert_loop frombits tobits maxv [] st = Some (Inr st)"
| "convert_loop frombits tobits maxv (value # data) (acc, bits, ret) =
     (if value <s 0 \<or> shr value frombits \<noteq> 0 then Some (Inl InvalidDataRange)
      else
        (let acc = shl acc frombits OR value; bits = bits + frombits in
         case emit tobits maxv acc bits ret of
           None \<Rightarrow> None
         | Some (bits, ret) \<Rightarrow> convert_loop frombits tobits maxv data (acc, bits, ret)))"

definition convertbits :: "i64 list \<Rightarrow> nat \<Rightarrow> nat \<Rightarrow> bool \<Rightarrow> (i64 list, bech32_error) result option" where
  "convertbits data frombits tobits pad =
     (let maxv = shl 1 tobits - 1 in
      map_option (\<lambda>r. rbind r (\<lambda>(acc, bits, ret).
          if pad then Inr (if bits > 0 then ret @ [shl acc (tobits - bits) AND maxv] else ret)
          else if bits \<ge> frombits then Inl IllegalZeroPadding
          else if shl acc (tobits - bits) AND maxv \<noteq> 0 then Inl NonZeroPadding
          else Inr ret))
        (convert_loop frombits tobits maxv data (0, 0, [])))"

section \<open>The checksum\<close>

definition gsel :: "i64 \<Rightarrow> i64" where
  "gsel c = (if bit c 25 then 0x3b6a57b2 else 0) XOR (if bit c 26 then 0x26508e6d else 0)
     XOR (if bit c 27 then 0x1ea119fa else 0) XOR (if bit c 28 then 0x3d4233dd else 0) XOR (if bit c 29 then 0x2a1462b3 else 0)"

lemma and_one_is_bit: "(x AND 1 = 1) = bit x 0" for x :: i64
  by (simp add: and_one_eq bit_0 odd_iff_mod_2_eq_one)

lemma top_bit: "i < 5 \<Longrightarrow> (signed_drop_bit i (signed_drop_bit 25 c) AND 1 = 1) = bit c (25 + i)" for c :: i64
  by (simp add: and_one_is_bit bit_signed_drop_bit_iff add.commute)

lemma polymod_step_eq: "polymod_step c v = push_bit 5 (c AND 0x1ffffff) XOR v XOR gsel c"
proof -
  have "[0..<5] = [0, 1, 2, 3, 4 :: nat]" by (simp add: upt_rec)
  then show ?thesis
    using top_bit[of 0 c] top_bit[of 1 c] top_bit[of 2 c] top_bit[of 3 c] top_bit[of 4 c]
    by (simp add: polymod_step_def Let_def GENERATOR_def gsel_def xor.assoc)
qed

lemma if_xor: "(if p \<noteq> q then g else 0) = (if p then g else 0) XOR (if q then g else (0 :: i64))"
  by simp

lemma gsel_xor: "gsel (a XOR b) = gsel a XOR gsel b"
  unfolding gsel_def bit_xor_iff if_xor by (simp only: ac_simps)

lemma step_linear: "polymod_step (a XOR b) (v XOR w) = polymod_step a v XOR polymod_step b w"
proof -
  have "(a XOR b) AND m = (a AND m) XOR (b AND m)" for m :: i64
    by (rule bit_word_eqI) (auto simp: bit_and_iff bit_xor_iff)
  then have "push_bit 5 ((a XOR b) AND 0x1ffffff) = push_bit 5 (a AND 0x1ffffff) XOR push_bit 5 (b AND 0x1ffffff)"
    by (simp only: push_bit_xor)
  then show ?thesis unfolding polymod_step_eq gsel_xor by (simp only: ac_simps)
qed

lemma foldl_linear:
  "length vs = length ws \<Longrightarrow>
     foldl polymod_step (a XOR b) (map2 (XOR) vs ws) = foldl polymod_step a vs XOR foldl polymod_step b ws"
  by (induction vs ws arbitrary: a b rule: list_induct2) (simp_all add: step_linear)

text \<open>Words below \<open>2 ^ k\<close>.\<close>

definition small :: "nat \<Rightarrow> i64 \<Rightarrow> bool" where
  "small k c \<longleftrightarrow> (\<forall>n\<ge>k. \<not> bit c n)"

lemma small_mono: "small j c \<Longrightarrow> j \<le> k \<Longrightarrow> small k c"
  by (auto simp: small_def)

lemma small_xor: "small k a \<Longrightarrow> small k b \<Longrightarrow> small k (a XOR b)"
  by (auto simp: small_def bit_xor_iff)

lemma small_take_bit: "small k c \<longleftrightarrow> take_bit k c = c"
  by (metis bit_take_bit_iff bit_eqI leI small_def not_le)

lemma small_unat: "small k c \<longleftrightarrow> unat c < 2 ^ k"
proof -
  have "take_bit k c = c \<longleftrightarrow> unat (take_bit k c) = unat c" by (simp only: word_unat_eq_iff)
  also have "\<dots> \<longleftrightarrow> unat c mod 2 ^ k = unat c" by (simp only: unsigned_take_bit_eq [of k c] take_bit_eq_mod [of k "unat c"])
  also have "\<dots> \<longleftrightarrow> unat c < 2 ^ k" by (metis mod_less mod_less_divisor zero_less_numeral zero_less_power)
  finally show ?thesis by (simp only: small_take_bit)
qed

lemma small_nonneg: "small 63 c \<Longrightarrow> \<not> c <s 0"
  using bit_last_iff[of c] by (simp add: small_def word_sless_alt)

lemma low_mask: "(0x1ffffff :: i64) = mask 25"
  by (simp add: mask_eq_exp_minus_1)

lemma thirty_one: "(31 :: i64) = mask 5"
  by (simp add: mask_eq_exp_minus_1)

lemma gsel_small: "small 25 c \<Longrightarrow> gsel c = 0"
  by (simp add: gsel_def small_def)

lemma step_small: "small 25 c \<Longrightarrow> polymod_step c v = push_bit 5 c XOR v"
  by (simp only: polymod_step_eq gsel_small low_mask take_bit_eq_mask [symmetric] small_take_bit) simp

lemma gsel_range: "small 30 (gsel c)"
  unfolding gsel_def by (intro small_xor) (simp_all add: small_unat)

lemma step_range: "small 5 v \<Longrightarrow> small 30 (polymod_step c v)"
  unfolding polymod_step_eq
  by (intro small_xor gsel_range)
     (auto simp: small_def bit_push_bit_iff bit_and_iff low_mask bit_mask_iff)

lemma foldl_range: "small 30 c \<Longrightarrow> \<forall>v\<in>set vs. small 5 v \<Longrightarrow> small 30 (foldl polymod_step c vs)"
  by (induction vs arbitrary: c) (simp_all add: step_range)


text \<open>The checksum symbols steer the state to the wanted value, five bits at a time.\<close>

lemma step_telescope:
  assumes "small 30 m" "k \<le> 25"
  shows "polymod_step (drop_bit (k + 5) m) (signed_drop_bit k m AND 31) = drop_bit k m"
proof -
  have m: "n \<ge> 30 \<Longrightarrow> \<not> bit m n" for n using assms(1) by (simp add: small_def)
  have "small 25 (drop_bit (k + 5) m)" using m by (simp add: small_def bit_drop_bit_eq)
  then have "polymod_step (drop_bit (k + 5) m) (signed_drop_bit k m AND 31)
      = push_bit 5 (drop_bit (k + 5) m) XOR (signed_drop_bit k m AND mask 5)"
    by (simp add: step_small mask_eq_exp_minus_1)
  also have "\<dots> = drop_bit k m"
    by (rule bit_word_eqI)
       (use m assms(2) in \<open>auto simp: bit_xor_iff bit_push_bit_iff bit_drop_bit_eq bit_and_iff bit_mask_iff bit_signed_drop_bit_iff ac_simps\<close>)
  finally show ?thesis .
qed

lemma checksum_symbols:
  assumes "small 30 m"
  shows "foldl polymod_step 0 (map (\<lambda>p. signed_drop_bit (5 * (5 - p)) m AND 31) [0..<6]) = m"
proof -
  have "drop_bit 30 m = 0" using assms by (auto simp: small_def bit_drop_bit_eq intro: bit_word_eqI)
  moreover have "[0..<6] = [0, 1, 2, 3, 4, 5 :: nat]" by (simp add: upt_rec)
  ultimately show ?thesis
    using step_telescope[OF assms, of 25] step_telescope[OF assms, of 20] step_telescope[OF assms, of 15]
      step_telescope[OF assms, of 10] step_telescope[OF assms, of 5] step_telescope[OF assms, of 0] by simp
qed

lemma hrp_expand_small: "v \<in> set (hrp_expand hrp) \<Longrightarrow> small 5 v"
proof -
  have "small 5 (ucast (drop_bit 5 c))" for c :: byte
    using bit_imp_le_length[of c] by (fastforce simp: small_def bit_ucast_iff bit_drop_bit_eq)
  moreover have "small 5 (ucast (c AND 31))" for c :: byte
    using bit_mask_iff[of 5, where 'a = "8 word"]
    by (auto simp: small_def bit_ucast_iff bit_and_iff mask_eq_exp_minus_1)
  ultimately show "v \<in> set (hrp_expand hrp) \<Longrightarrow> small 5 v" by (auto simp: hrp_expand_def small_def)
qed

lemma polymod_small: "\<forall>v\<in>set data. small 5 v \<Longrightarrow> small 30 (polymod (hrp_expand hrp @ data))"
  unfolding polymod_def by (rule foldl_range) (auto simp: small_unat [of 30] dest: hrp_expand_small)

lemma length_create_checksum [simp]: "length (create_checksum hrp data) = 6"
  by (simp add: create_checksum_def Let_def)

lemma create_checksum_small: "v \<in> set (create_checksum hrp data) \<Longrightarrow> small 5 v"
proof -
  have "small 5 (x AND 31)" for x
    using bit_mask_iff[of 5, where 'a = "64 word"] by (auto simp: small_def bit_and_iff mask_eq_exp_minus_1)
  then show "v \<in> set (create_checksum hrp data) \<Longrightarrow> small 5 v" by (auto simp: create_checksum_def Let_def)
qed

lemma verify_create:
  assumes "\<forall>v\<in>set data. small 5 v"
  shows "verify_checksum hrp (data @ create_checksum hrp data)"
proof -
  let ?c = "foldl polymod_step 1 (hrp_expand hrp @ data)" and ?z = "replicate 6 (0 :: i64)"
  define md where "md = foldl polymod_step ?c ?z XOR 1"
  define cs where "cs = create_checksum hrp data"
  have z: "[0, 0, 0, 0, 0, 0] = ?z" by (simp add: eval_nat_numeral)
  have "small 30 (foldl polymod_step 1 ((hrp_expand hrp @ data) @ ?z))"
    by (rule foldl_range) (use assms in \<open>auto simp: small_unat dest: hrp_expand_small\<close>)
  then have small: "small 30 md" unfolding md_def by (intro small_xor) (simp_all add: small_unat)
  have cs: "cs = map (\<lambda>p. signed_drop_bit (5 * (5 - p)) md AND 31) [0..<6]"
    by (simp add: cs_def create_checksum_def Let_def polymod_def md_def z)
  have m2: "map2 (XOR) ?z cs = cs"
    by (rule nth_equalityI) (simp_all add: cs_def)
  have "foldl polymod_step ?c cs = foldl polymod_step ?c ?z XOR foldl polymod_step 0 cs"
    using foldl_linear[of ?z cs ?c 0] m2 by (simp add: cs_def)
  also have "foldl polymod_step 0 cs = md" unfolding cs by (rule checksum_symbols[OF small])
  also have "foldl polymod_step ?c ?z XOR md = 1" by (simp add: md_def)
  finally show ?thesis by (simp add: verify_checksum_def polymod_def cs_def)
qed

text \<open>One step loses nothing: the low five bits of the generators are independent.\<close>

lemma step_kernel:
  assumes "small 30 e" "polymod_step e 0 = 0"
  shows "e = 0"
proof -
  have "(push_bit 5 (e AND 0x1ffffff) XOR gsel e) AND 31 = 0" using assms(2) by (simp add: polymod_step_eq)
  moreover have "(push_bit 5 x XOR y) AND 31 = y AND 31" for x y :: i64
    unfolding thirty_one by (rule bit_word_eqI) (auto simp: bit_and_iff bit_xor_iff bit_push_bit_iff bit_mask_iff)
  ultimately have g: "gsel e AND 31 = 0" by metis
  have "\<not> bit e 25 \<and> \<not> bit e 26 \<and> \<not> bit e 27 \<and> \<not> bit e 28 \<and> \<not> bit e 29"
    using g unfolding gsel_def
    by (cases "bit e 25"; cases "bit e 26"; cases "bit e 27"; cases "bit e 28"; cases "bit e 29"; simp)
  moreover have "n = 25 \<or> n = 26 \<or> n = 27 \<or> n = 28 \<or> n = 29 \<or> n \<ge> 30" if "n \<ge> 25" for n :: nat
    using that by linarith
  ultimately have "small 25 e" using assms(1) unfolding small_def by metis
  then have "push_bit 5 e = 0" using step_small[of e 0] assms(2) by simp
  then have "bit e n \<Longrightarrow> n < 25 \<Longrightarrow> False" for n
    using bit_push_bit_iff[of 5 e "n + 5"] by simp
  then show ?thesis using \<open>small 25 e\<close> by (intro bit_word_eqI) (auto simp: small_def not_less [symmetric])
qed

lemma xor_zero_iff: "a XOR b = 0 \<longleftrightarrow> a = b" for a b :: "'a::len word"
proof
  assume e: "a XOR b = 0"
  show "a = b" using arg_cong[OF e, of "\<lambda>w. bit w _"] by (intro bit_word_eqI) (simp add: bit_xor_iff)
qed simp

lemma xor_cancel: "a XOR b = a XOR c \<longleftrightarrow> b = c" for a b c :: "'a::len word"
proof -
  have "(a XOR b) XOR (a XOR c) = b XOR c" by (simp add: ac_simps)
  then show ?thesis by (metis xor_zero_iff)
qed

lemma step_injective:
  assumes "small 30 a" "small 30 b" "polymod_step a v = polymod_step b v"
  shows "a = b"
proof -
  have "polymod_step (a XOR b) 0 = 0" using step_linear[of a b v v] assms(3) by simp
  then have "a XOR b = 0" by (rule step_kernel[OF small_xor[OF assms(1,2)]])
  then show ?thesis by (simp only: xor_zero_iff)
qed

lemma foldl_injective:
  assumes "small 30 a" "small 30 b" "\<forall>v\<in>set vs. small 5 v" "foldl polymod_step a vs = foldl polymod_step b vs"
  shows "a = b"
  using assms
proof (induction vs arbitrary: a b)
  case (Cons v vs)
  then have "polymod_step a v = polymod_step b v" using Cons.IH[of "polymod_step a v" "polymod_step b v"] by (simp add: step_range)
  with Cons.prems(1,2) show ?case by (rule step_injective)
qed simp

lemma single_symbol_error:
  assumes "verify_checksum hrp data" "\<forall>v\<in>set data. small 5 v" "i < length data" "small 5 w" "data ! i \<noteq> w"
  shows "\<not> verify_checksum hrp (data[i := w])"
proof
  assume "verify_checksum hrp (data[i := w])"
  define c where "c = foldl polymod_step 1 (hrp_expand hrp @ take i data)"
  have split: "foldl polymod_step 1 (hrp_expand hrp @ data[i := x]) = foldl polymod_step (polymod_step c x) (drop (Suc i) data)" for x
    using assms(3) by (simp add: c_def upd_conv_take_nth_drop)
  have c: "small 30 c" unfolding c_def
    by (rule foldl_range) (use assms(2) in \<open>auto simp: small_unat[of 30] dest: hrp_expand_small in_set_takeD\<close>)
  have "foldl polymod_step (polymod_step c (data ! i)) (drop (Suc i) data) = foldl polymod_step (polymod_step c w) (drop (Suc i) data)"
    using split[of w] split[of "data ! i"] assms(1) \<open>verify_checksum hrp (data[i := w])\<close>
    by (simp add: verify_checksum_def polymod_def)
  then have "polymod_step c (data ! i) = polymod_step c w"
    by (rule foldl_injective[rotated 3]) (use assms in \<open>auto intro!: step_range dest: in_set_dropD\<close>)
  then show False using assms(5)
    by (simp only: polymod_step_eq xor.commute[of _ "gsel c"] xor.left_commute[of _ "gsel c"] xor_cancel)
qed

text \<open>Six symbols that leave the zero state at zero are zero, so the checksum is unique.\<close>

lemma foldl_zero_small: "\<forall>v\<in>set ds. small 5 v \<Longrightarrow> length ds \<le> 6 \<Longrightarrow> small (5 * length ds) (foldl polymod_step 0 ds)"
proof (induction ds rule: rev_induct)
  case (snoc d ds)
  then have c: "small (5 * length ds) (foldl polymod_step 0 ds)" by simp
  then have "small 25 (foldl polymod_step 0 ds)" using snoc.prems(2) by (intro small_mono[OF c]) simp
  then show ?case using c snoc.prems(1)
    by (simp add: step_small) (auto simp: small_def bit_push_bit_iff bit_xor_iff)
qed (simp add: small_def)

lemma foldl_zero_kernel:
  "\<forall>v\<in>set ds. small 5 v \<Longrightarrow> length ds \<le> 6 \<Longrightarrow> foldl polymod_step 0 ds = 0 \<Longrightarrow> \<forall>d\<in>set ds. d = 0"
proof (induction ds rule: rev_induct)
  case (snoc d ds)
  define c where "c = foldl polymod_step 0 ds"
  have "small (5 * length ds) c" unfolding c_def using snoc.prems by (intro foldl_zero_small) simp_all
  then have s: "small 25 c" using snoc.prems(2) by (rule_tac small_mono[of "5 * length ds"]) simp_all
  have "polymod_step c d = 0" using snoc.prems(3) by (simp add: c_def)
  then have e: "push_bit 5 c = d" by (simp only: step_small[OF s] xor_zero_iff)
  have "\<not> bit d n" for n
  proof (cases "n < 5")
    case True
    then show ?thesis unfolding e [symmetric] by (simp add: bit_push_bit_iff)
  next
    case False
    then show ?thesis using snoc.prems(1) by (simp add: small_def)
  qed
  then have d: "d = 0" by (intro bit_word_eqI) simp
  then have "polymod_step c 0 = 0" using snoc.prems(3) by (simp add: c_def)
  then have "c = 0" by (rule step_kernel[rotated]) (rule small_mono[OF s], simp)
  then show ?case using snoc d by (simp add: c_def)
qed simp

lemma checksum_unique:
  assumes "verify_checksum hrp (data @ cs)" "\<forall>v\<in>set data. small 5 v" "\<forall>v\<in>set cs. small 5 v" "length cs = 6"
  shows "cs = create_checksum hrp data"
proof -
  let ?k = "create_checksum hrp data" and ?c = "foldl polymod_step 1 (hrp_expand hrp @ data)"
  have "foldl polymod_step ?c cs = foldl polymod_step ?c ?k"
    using assms(1) verify_create[OF assms(2), of hrp] by (simp add: verify_checksum_def polymod_def)
  then have "foldl polymod_step 0 (map2 (XOR) cs ?k) = 0"
    using foldl_linear[of cs ?k ?c ?c] assms(4) by simp
  then have "\<forall>d\<in>set (map2 (XOR) cs ?k). d = 0"
    by (rule foldl_zero_kernel[rotated 2])
       (use assms(3,4) in \<open>auto intro!: small_xor dest: set_zip_leftD set_zip_rightD create_checksum_small\<close>)
  then have "cs ! i XOR ?k ! i = 0" if "i < 6" for i using that assms(4) by (auto simp: set_zip)
  then have "cs ! i = ?k ! i" if "i < 6" for i using that by (simp only: xor_zero_iff)
  then show ?thesis using assms(4) by (intro nth_equalityI) simp_all
qed

section \<open>Strings\<close>

lemma length_CHARSET [simp]: "length CHARSET = 32"
  by (simp add: CHARSET_def)

lemma charset_facts:
  "map charset_position CHARSET = map Some [0..<32]" "map lower_char CHARSET = CHARSET" "of_char CHR ''1'' \<notin> set CHARSET"
  "list_all (\<lambda>c. c < 128) CHARSET"
  by code_simp+

lemma charset_position_nth: "n < 32 \<Longrightarrow> charset_position (CHARSET ! n) = Some n"
  using arg_cong[OF charset_facts(1), of "\<lambda>xs. xs ! n"] by simp

lemma charset_position_Some: "charset_position c = Some n \<longleftrightarrow> n < 32 \<and> CHARSET ! n = c"
proof
  assume "charset_position c = Some n"
  then have c: "c \<in> set CHARSET" "n = length (takeWhile (\<lambda>x. x \<noteq> c) CHARSET)"
    by (auto simp: charset_position_def split: if_splits)
  have "takeWhile (\<lambda>x. x \<noteq> c) CHARSET \<noteq> CHARSET" using c(1) by (auto simp: takeWhile_eq_all_conv)
  then have "n < length CHARSET"
    using c(2) length_takeWhile_le[of "\<lambda>x. x \<noteq> c" CHARSET] takeWhile_eq_take[of "\<lambda>x. x \<noteq> c" CHARSET]
    by (metis le_neq_implies_less order_refl take_all)
  moreover have "CHARSET ! n = c" using nth_length_takeWhile[of "\<lambda>x. x \<noteq> c" CHARSET] \<open>n < length CHARSET\<close> c(2) by simp
  ultimately show "n < 32 \<and> CHARSET ! n = c" by simp
qed (auto simp: charset_position_nth)

lemma lower_CHARSET: "n < 32 \<Longrightarrow> lower_char (CHARSET ! n) = CHARSET ! n"
  using arg_cong[OF charset_facts(2), of "\<lambda>xs. xs ! n"] by simp

text \<open>The symbols as characters.\<close>

definition symbols_ok :: "i64 list \<Rightarrow> bool" where
  "symbols_ok ps \<longleftrightarrow> (\<forall>p\<in>set ps. unat p < 32)"

definition chars :: "i64 list \<Rightarrow> byte list" where
  "chars ps = map (\<lambda>p. CHARSET ! unat p) ps"

lemma symbols_ok_small: "symbols_ok ps \<longleftrightarrow> (\<forall>p\<in>set ps. small 5 p)"
  by (simp add: symbols_ok_def small_unat)

lemma symbol_nonneg: "unat p < 32 \<Longrightarrow> \<not> p <s 0" for p :: i64
  by (rule small_nonneg) (simp add: small_unat)

lemma push_symbols_ok: "symbols_ok ps \<Longrightarrow> push_symbols idx ps = Inr (chars ps)"
  by (induction idx ps rule: push_symbols.induct) (auto simp: symbols_ok_def chars_def symbol_nonneg)

lemma push_symbols_Inr: "push_symbols idx ps = Inr cs \<Longrightarrow> symbols_ok ps \<and> cs = chars ps"
  by (induction idx ps arbitrary: cs rule: push_symbols.induct)
     (auto simp: symbols_ok_def chars_def not_le split: if_splits)

lemma pull_symbols_chars: "symbols_ok ps \<Longrightarrow> pull_symbols (chars ps) = Inr ps"
  by (induction ps) (auto simp: symbols_ok_def chars_def charset_position_nth)

lemma pull_symbols_Inr: "pull_symbols cs = Inr ps \<Longrightarrow> symbols_ok ps \<and> cs = chars ps"
proof (induction cs arbitrary: ps)
  case (Cons c cs)
  then obtain d ds where d: "charset_position c = Some d" "pull_symbols cs = Inr ds" "ps = of_nat d # ds"
    by (auto split: option.splits)
  then have "d < 32" "CHARSET ! d = c" by (simp_all add: charset_position_Some)
  moreover have "unat (of_nat d :: i64) = d" using \<open>d < 32\<close> by (simp add: unat_of_nat)
  ultimately show ?case using Cons.IH[OF d(2)] d(3) by (simp add: symbols_ok_def chars_def)
qed (simp add: symbols_ok_def chars_def)

lemma symbols_ok_append [simp]: "symbols_ok (xs @ ys) \<longleftrightarrow> symbols_ok xs \<and> symbols_ok ys"
  by (auto simp: symbols_ok_def)

lemma chars_append [simp]: "chars (xs @ ys) = chars xs @ chars ys"
  by (simp add: chars_def)

lemma length_chars [simp]: "length (chars ps) = length ps"
  by (simp add: chars_def)

lemma create_checksum_ok: "symbols_ok (create_checksum hrp data)"
  by (auto simp: symbols_ok_small dest: create_checksum_small)

lemma case_char: "lower_char (lower_char c) = lower_char c" "lower_char (upper_char c) = lower_char c"
  "upper_char (upper_char c) = upper_char c" "upper_char (lower_char c) = upper_char c"
proof -
  have "lower_char (lower_char c) = lower_char c \<and> lower_char (upper_char c) = lower_char c \<and>
    upper_char (upper_char c) = upper_char c \<and> upper_char (lower_char c) = upper_char c"
    by (rule byte_check[of _ c]) code_simp
  then show "lower_char (lower_char c) = lower_char c" "lower_char (upper_char c) = lower_char c"
    "upper_char (upper_char c) = upper_char c" "upper_char (lower_char c) = upper_char c" by simp_all
qed

lemma case_string [simp]: "to_lowercase (to_lowercase s) = to_lowercase s" "to_lowercase (to_uppercase s) = to_lowercase s"
  "to_uppercase (to_uppercase s) = to_uppercase s" "to_uppercase (to_lowercase s) = to_uppercase s"
  by (simp_all add: to_lowercase_def to_uppercase_def case_char)

lemma lower_append [simp]: "to_lowercase (s @ t) = to_lowercase s @ to_lowercase t"
  by (simp add: to_lowercase_def)

lemma lower_cons [simp]: "to_lowercase (c # t) = lower_char c # to_lowercase t"
  by (simp add: to_lowercase_def)

lemma lower_chars [simp]: "symbols_ok ps \<Longrightarrow> to_lowercase (chars ps) = chars ps"
  by (simp add: to_lowercase_def chars_def symbols_ok_def lower_CHARSET)

lemma lower_one: "lower_char c = 49 \<longleftrightarrow> c = 49"
  by (rule byte_check[of _ c]) code_simp

lemma case_49 [simp]: "lower_char 49 = 49" "upper_char 49 = 49"
  by (simp_all add: lower_char_def upper_char_def)

lemma one_char: "of_char CHR ''1'' = (49 :: byte)"
  by simp

lemma chars_no_one: "symbols_ok ps \<Longrightarrow> 49 \<notin> set (chars ps)"
proof -
  have "CHARSET ! n \<noteq> 49" if "n < 32" for n
    using nth_mem[of n CHARSET] charset_facts(3) that by (metis length_CHARSET one_char)
  then show "symbols_ok ps \<Longrightarrow> 49 \<notin> set (chars ps)" by (auto simp: symbols_ok_def chars_def)
qed

lemma bad_hrp_lower: "bad_hrp_char (lower_char c) = bad_hrp_char c"
  by (rule byte_check[of _ c]) code_simp

lemma list_ex_bad_lower [simp]: "list_ex bad_hrp_char (to_lowercase s) = list_ex bad_hrp_char s"
  by (induction s) (simp_all add: bad_hrp_lower to_lowercase_def)

lemma rfind_none: "49 \<notin> set t \<Longrightarrow> rfind_one t = -1"
  by (induction t) auto

lemma rfind_split: "49 \<notin> set t \<Longrightarrow> rfind_one (p @ 49 # t) = int (length p)"
  by (induction p) (auto simp: rfind_none)

lemma rfind_Some: "rfind_one s = int n \<Longrightarrow> \<exists>t. s = take n s @ 49 # t \<and> n < length s \<and> 49 \<notin> set t"
proof (induction s arbitrary: n)
  case (Cons c cs)
  show ?case
  proof (cases "rfind_one cs \<ge> 0")
    case True
    then obtain m where m: "rfind_one cs = int m" using nonneg_int_cases by blast
    then have "n = Suc m" using Cons.prems True by simp
    then show ?thesis using Cons.IH[OF m] by auto
  next
    case False
    moreover have "rfind_one xs \<ge> -1 \<and> (rfind_one xs < 0 \<longrightarrow> 49 \<notin> set xs)" for xs
      by (induction xs) (auto simp: Let_def)
    ultimately show ?thesis using Cons.prems by (auto split: if_splits)
  qed
qed simp

section \<open>Decoding inverts encoding\<close>

text \<open>Decoding with the ASCII case functions, which \<open>decode\<close> uses on every ASCII string.\<close>

definition decode_ascii :: "byte list \<Rightarrow> (byte list \<times> i64 list, bech32_error) result" where
  "decode_ascii bech =
     (if to_lowercase bech \<noteq> bech \<and> to_uppercase bech \<noteq> bech then Inl MixedCase
      else
        (let bech = to_lowercase bech; pos = rfind_one bech in
         if pos < 1 \<or> nat pos + 7 > length bech then Inl (Separator pos (length bech))
         else
           (let pos = nat pos; hrp = take pos bech in
            if list_ex bad_hrp_char hrp then Inl (InvalidHrp hrp)
            else rbind (pull_symbols (drop (pos + 1) bech)) (\<lambda>data.
              if \<not> verify_checksum hrp data then Inl InvalidChecksum
              else Inr (hrp, take (length data - 6) data)))))"

lemma decode_is_ascii: "ascii s \<Longrightarrow> decode U s = decode_ascii s"
  by (simp add: decode_def decode_ascii_def str_to_lowercase_def str_to_uppercase_def)

lemma decode_symbols: "decode U s = Inr (hrp, data) \<Longrightarrow> symbols_ok data"
  by (auto simp: decode_def Let_def symbols_ok_def dest!: pull_symbols_Inr in_set_takeD split: if_splits)

text \<open>What \<open>decode\<close> does with a string whose last separator follows \<open>p\<close>.\<close>

definition single_case :: "byte list \<Rightarrow> bool" where
  "single_case s \<longleftrightarrow> to_lowercase s = s \<or> to_uppercase s = s"

lemma length_lower [simp]: "length (to_lowercase s) = length s"
  by (simp add: to_lowercase_def)

lemma decode_split:
  assumes "49 \<notin> set t"
  shows "decode_ascii (p @ 49 # t) =
    (if \<not> single_case (p @ 49 # t) then Inl MixedCase
     else if p = [] \<or> length t < 6 then Inl (Separator (int (length p)) (length (p @ 49 # t)))
     else if list_ex bad_hrp_char p then Inl (InvalidHrp (to_lowercase p))
     else rbind (pull_symbols (to_lowercase t)) (\<lambda>data.
            if \<not> verify_checksum (to_lowercase p) data then Inl InvalidChecksum
            else Inr (to_lowercase p, take (length data - 6) data)))"
proof -
  let ?s = "p @ 49 # t"
  have "49 \<notin> set (to_lowercase t)" using assms lower_one by (auto simp: to_lowercase_def)
  then have r: "rfind_one (to_lowercase ?s) = int (length p)"
    using rfind_split[of "to_lowercase t" "to_lowercase p"] by simp
  have "int (length p) < 1 \<or> nat (int (length p)) + 7 > length (to_lowercase ?s) \<longleftrightarrow> p = [] \<or> length t < 6"
    by (cases p) auto
  moreover have "take (length p) (to_lowercase ?s) = to_lowercase p" "drop (length p + 1) (to_lowercase ?s) = to_lowercase t"
    by simp_all
  moreover have "to_lowercase ?s \<noteq> ?s \<and> to_uppercase ?s \<noteq> ?s \<longleftrightarrow> \<not> single_case ?s"
    unfolding single_case_def by blast
  ultimately show ?thesis
    by (simp only: decode_ascii_def Let_def r nat_int list_ex_bad_lower length_lower)
qed

lemma decode_split_iff:
  assumes "49 \<notin> set t"
  shows "decode_ascii (p @ 49 # t) = Inr (h, d) \<longleftrightarrow>
    single_case (p @ 49 # t) \<and> p \<noteq> [] \<and> 6 \<le> length t \<and> \<not> list_ex bad_hrp_char p \<and> h = to_lowercase p
    \<and> (\<exists>full. symbols_ok full \<and> to_lowercase t = chars full \<and> verify_checksum h full \<and> d = take (length full - 6) full)"
proof -
  have "rbind (pull_symbols (to_lowercase t)) (\<lambda>data. if \<not> verify_checksum (to_lowercase p) data then Inl InvalidChecksum
            else Inr (to_lowercase p, take (length data - 6) data)) = Inr (h, d)
    \<longleftrightarrow> h = to_lowercase p \<and> (\<exists>full. symbols_ok full \<and> to_lowercase t = chars full \<and> verify_checksum h full \<and> d = take (length full - 6) full)"
    by (auto split: if_splits simp: pull_symbols_chars dest: pull_symbols_Inr)
  then show ?thesis unfolding decode_split[OF assms] by (simp del: rbind_eq_Inr add: not_less)
qed

lemma decode_separator:
  assumes "decode_ascii s = Inr r"
  obtains p t where "s = p @ 49 # t" "49 \<notin> set t"
proof -
  have "\<not> rfind_one (to_lowercase s) < 1" using assms unfolding decode_ascii_def Let_def by (auto split: if_splits)
  then obtain n where "rfind_one (to_lowercase s) = int n" using nonneg_int_cases by (metis int_one_le_iff_zero_less le_less linorder_not_less)
  from rfind_Some[OF this] obtain t where "to_lowercase s = take n (to_lowercase s) @ 49 # t" "49 \<notin> set t" by blast
  then have "map lower_char s = take n (to_lowercase s) @ 49 # t" by (simp add: to_lowercase_def)
  then obtain p s' where s': "s = p @ s'" "map lower_char s' = 49 # t" by (auto simp: map_eq_append_conv)
  then obtain c q where q: "s' = c # q" "lower_char c = 49" "map lower_char q = t" by auto
  have "49 \<notin> set q" using q(3) case_49(1) \<open>49 \<notin> set t\<close> by (metis image_eqI list.set_map)
  then show thesis using that s' q lower_one by blast
qed

lemma to_lowercase_split: "to_lowercase (p @ 49 # t) = to_lowercase p @ 49 # to_lowercase t"
  by (simp add: lower_char_def)

lemma upper_one: "upper_char c = 49 \<longleftrightarrow> c = 49"
  by (rule byte_check[of _ c]) code_simp

lemma encode_lower_parts:
  assumes "encode hrp data = Inr s"
  defines "h \<equiv> to_lowercase hrp"
  defines "full \<equiv> data @ create_checksum h data"
  shows "hrp \<noteq> [] \<and> \<not> list_ex bad_hrp_char hrp \<and> symbols_ok full
    \<and> s = (if h = hrp then h @ 49 # chars full else to_uppercase (h @ 49 # chars full)) \<and> single_case hrp"
proof -
  have g: "hrp \<noteq> []" "\<not> list_ex bad_hrp_char hrp" "single_case hrp"
    using assms(1) by (auto simp: encode_def single_case_def split: if_splits)
  have "\<not> (to_uppercase hrp \<noteq> hrp \<and> to_lowercase hrp \<noteq> hrp)" using g(3) by (auto simp: single_case_def)
  then have "encode hrp data = rbind (push_symbols 0 full) (\<lambda>cs. Inr (if h = hrp then h @ 49 # cs else to_uppercase (h @ 49 # cs)))"
    using g(1,2) by (simp only: encode_def Let_def h_def full_def one_char if_False)
  then obtain cs where "push_symbols 0 full = Inr cs" "s = (if h = hrp then h @ 49 # cs else to_uppercase (h @ 49 # cs))"
    unfolding assms(1) by (cases "push_symbols 0 full") simp_all
  then show ?thesis using g push_symbols_Inr[of 0 full cs] by simp
qed

lemma decode_encode:
  assumes "encode hrp data = Inr s"
  shows "decode_ascii s = Inr (to_lowercase hrp, data)"
proof -
  define h where "h = to_lowercase hrp"
  define full where "full = data @ create_checksum h data"
  note e = encode_lower_parts[OF assms, folded h_def, folded full_def]
  have v: "verify_checksum h full" unfolding full_def
    by (rule verify_create) (use e in \<open>simp add: full_def symbols_ok_small\<close>)
  define p where "p = (if h = hrp then h else to_uppercase h)"
  define t where "t = (if h = hrp then chars full else to_uppercase (chars full))"
  have s: "s = p @ 49 # t" using e by (simp add: p_def t_def to_uppercase_def upper_one[THEN iffD2])
  have no1: "49 \<notin> set t" using chars_no_one e upper_one by (auto simp: t_def to_uppercase_def)
  have low: "to_lowercase t = chars full" "to_lowercase p = h" using e by (simp_all add: t_def p_def h_def)
  have ph: "p = hrp" using e by (auto simp: p_def h_def single_case_def)
  have "single_case s"
  proof (cases "h = hrp")
    case True
    then show ?thesis using low by (simp add: s single_case_def to_lowercase_split p_def t_def)
  next
    case False
    then have "s = to_uppercase (h @ 49 # chars full)" using e by simp
    then show ?thesis by (simp add: single_case_def)
  qed
  moreover have "6 \<le> length t" by (simp add: t_def full_def to_uppercase_def)
  moreover have "data = take (length full - 6) full" by (simp add: full_def)
  ultimately have "decode_ascii (p @ 49 # t) = Inr (h, data)"
    using e v low ph unfolding decode_split_iff[OF no1] s by blast
  then show ?thesis by (simp add: s h_def)
qed

lemma encode_decode:
  assumes "decode_ascii s = Inr (hrp, data)"
  shows "encode hrp data = Inr (to_lowercase s)"
proof -
  obtain p t where s: "s = p @ 49 # t" "49 \<notin> set t" by (rule decode_separator[OF assms])
  obtain full where d: "p \<noteq> []" "6 \<le> length t" "\<not> list_ex bad_hrp_char p" "hrp = to_lowercase p"
    "symbols_ok full" "to_lowercase t = chars full" "verify_checksum hrp full" "data = take (length full - 6) full"
    using assms unfolding s decode_split_iff[OF s(2)] by blast
  have len: "length full = length t" using arg_cong[OF d(6), of length] by simp
  define cs where "cs = drop (length full - 6) full"
  have full: "full = data @ cs" "length cs = 6" using d(2,8) len by (simp_all add: cs_def)
  have ok: "symbols_ok data" "symbols_ok cs" using d(5) full(1) by auto
  have cs: "cs = create_checksum hrp data"
    by (rule checksum_unique) (use d(7) ok full in \<open>simp_all add: symbols_ok_small\<close>)
  have low: "to_lowercase hrp = hrp" "hrp \<noteq> []" "\<not> list_ex bad_hrp_char hrp" using d(1,3) by (simp_all add: d(4)) (simp add: to_lowercase_def)
  have "push_symbols 0 (data @ create_checksum hrp data) = Inr (chars full)"
    using push_symbols_ok[OF d(5)] full cs by simp
  then show ?thesis using low d(4,6) by (simp add: encode_def Let_def s to_lowercase_split)
qed

lemma ascii_append [simp]: "ascii (xs @ ys) \<longleftrightarrow> ascii xs \<and> ascii ys" "ascii (c # xs) \<longleftrightarrow> c < 128 \<and> ascii xs"
  by (auto simp: ascii_def)

lemma ascii_upper: "ascii (to_uppercase s) = ascii s" "ascii (to_lowercase s) = ascii s"
proof -
  have "(upper_char c < 128) = (c < 128) \<and> (lower_char c < 128) = (c < 128)" for c
    by (rule byte_check[of _ c]) code_simp
  then show "ascii (to_uppercase s) = ascii s" "ascii (to_lowercase s) = ascii s"
    by (simp_all add: ascii_def to_uppercase_def to_lowercase_def)
qed

lemma ascii_chars: "symbols_ok ps \<Longrightarrow> ascii (chars ps)"
proof -
  have "list_all (\<lambda>c. c < 128) CHARSET" by code_simp
  then show "symbols_ok ps \<Longrightarrow> ascii (chars ps)"
    by (auto simp: ascii_def chars_def symbols_ok_def list_all_iff length_CHARSET dest!: bspec[OF _ nth_mem])
qed

lemma encode_is_ascii:
  assumes "encode hrp data = Inr s"
  shows "ascii s"
proof -
  have "c < 128" if "\<not> bad_hrp_char c" for c
    using that by (simp add: bad_hrp_char_def not_less word_le_nat_alt word_less_nat_alt)
  then have "ascii hrp" using encode_lower_parts[OF assms] by (auto simp: ascii_def list_ex_iff)
  then show ?thesis using encode_lower_parts[OF assms] ascii_chars
    by (auto simp: ascii_upper)
qed

lemma decode_encode_text: "encode hrp data = Inr s \<Longrightarrow> decode U s = Inr (to_lowercase hrp, data)"
  using decode_encode decode_is_ascii[OF encode_is_ascii] by simp

text \<open>Encoding and decoding are inverse: every string \<open>encode\<close> returns decodes to the lower-case prefix and the
  same symbols, and every ASCII string \<open>decode\<close> accepts is, in lower case, the encoding of what it returns, so
  an accepted string has no other lower-case spelling.\<close>

theorem bech32_roundtrip:
  "(encode hrp data = Inr s \<longrightarrow> decode U s = Inr (to_lowercase hrp, data))
    \<and> (ascii s \<longrightarrow> decode U s = Inr (hrp, data) \<longrightarrow> encode hrp data = Inr (to_lowercase s))"
  using decode_encode_text encode_decode by (auto simp: decode_is_ascii)

lemma chars_update:
  assumes "symbols_ok full" "symbols_ok full'" "chars full' = (chars full)[i := c]" "i < length full"
  shows "full' = full[i := full' ! i] \<and> CHARSET ! unat (full' ! i) = c"
proof -
  have len: "length full' = length full" using arg_cong[OF assms(3), of length] by simp
  have inj: "u = v" if "CHARSET ! unat u = CHARSET ! unat v" "unat u < 32" "unat v < 32" for u v :: i64
  proof -
    have "Some (unat u) = Some (unat v)"
      using charset_position_nth[OF that(2)] charset_position_nth[OF that(3)] unfolding that(1) by (rule trans[OF sym])
    then show ?thesis by (simp only: option.inject word_unat_eq_iff)
  qed
  have n: "CHARSET ! unat (full' ! j) = (chars full)[i := c] ! j" if "j < length full" for j
    using arg_cong[OF assms(3), of "\<lambda>xs. xs ! j"] that len by (simp add: chars_def)
  have "full' ! j = full ! j" if "j < length full" "j \<noteq> i" for j
    using n[OF that(1)] that len assms(1,2) by (intro inj) (auto simp: chars_def symbols_ok_def)
  then have "full' = full[i := full' ! i]" using len assms(4) by (intro nth_equalityI) (auto simp: nth_list_update)
  then show ?thesis using n[OF assms(4)] assms(4) by simp
qed

text \<open>C18: One wrong character in the data part is always noticed: replacing one character after the
  separator of an accepted ASCII string by any other one, up to case and except the separator
  itself, makes \<open>decode\<close> return an error.\<close>

theorem bech32_detects_substitution:
  assumes "decode U (p @ 49 # t) = Inr r" "49 \<notin> set t" "ascii (p @ 49 # t)"
    "i < length t" "c < 128" "c \<noteq> 49" "lower_char c \<noteq> lower_char (t ! i)"
  shows "\<exists>e. decode U (p @ 49 # t[i := c]) = Inl e"
proof (rule ccontr)
  assume "\<not> ?thesis"
  then obtain h' d' where "decode U (p @ 49 # t[i := c]) = Inr (h', d')" by (metis sumE surj_pair)
  moreover have "ascii (p @ 49 # t[i := c])"
    using assms(3,5) set_update_subset_insert[of t i c] by (auto simp: ascii_def)
  ultimately have a: "decode_ascii (p @ 49 # t[i := c]) = Inr (h', d')" by (simp only: decode_is_ascii)
  obtain h d where b: "decode_ascii (p @ 49 # t) = Inr (h, d)"
    using assms(1) unfolding decode_is_ascii[OF assms(3)] by (cases r) simp
  have no1: "49 \<notin> set (t[i := c])" using assms(2,6) set_update_subset_insert[of t i c] by blast
  obtain full where f: "h = to_lowercase p" "symbols_ok full" "to_lowercase t = chars full" "verify_checksum h full"
    using b unfolding decode_split_iff[OF assms(2)] by blast
  obtain full' where f': "h' = to_lowercase p" "symbols_ok full'" "to_lowercase (t[i := c]) = chars full'" "verify_checksum h' full'"
    using a unfolding decode_split_iff[OF no1] by blast
  have len: "length full = length t" using arg_cong[OF f(3), of length] by simp
  have "chars full' = (chars full)[i := lower_char c]"
    using f(3) f'(3) by (simp add: to_lowercase_def map_update)
  then have u: "full' = full[i := full' ! i]" "CHARSET ! unat (full' ! i) = lower_char c"
    using chars_update[OF f(2) f'(2)] assms(4) len by auto
  have "CHARSET ! unat (full ! i) = lower_char (t ! i)"
    using arg_cong[OF f(3), of "\<lambda>xs. xs ! i"] assms(4) len by (simp add: chars_def to_lowercase_def)
  then have ne: "full ! i \<noteq> full' ! i" using u(2) assms(7) by auto
  have "length full' = length full" using arg_cong[OF u(1), of length] by simp
  then have "small 5 (full' ! i)" using f'(2) assms(4) len by (simp add: symbols_ok_small)
  then have "\<not> verify_checksum h (full[i := full' ! i])"
    using f(2) f(4) assms(4) len ne by (intro single_symbol_error) (simp_all add: symbols_ok_small)
  then show False using f'(4) u(1) f(1) f'(1) by simp
qed

section \<open>Regrouping bits\<close>

text \<open>The last \<open>w\<close> bits of a word, most significant first, and of a list of words.\<close>

fun bits_of :: "nat \<Rightarrow> i64 \<Rightarrow> bool list" where
  "bits_of 0 v = []"
| "bits_of (Suc w) v = bit v w # bits_of w v"

definition all_bits :: "nat \<Rightarrow> i64 list \<Rightarrow> bool list" where
  "all_bits w vs = concat (map (bits_of w) vs)"

lemma length_bits_of [simp]: "length (bits_of w v) = w"
  by (induction w) simp_all

lemma all_bits_simps [simp]: "all_bits w [] = []" "all_bits w (v # vs) = bits_of w v @ all_bits w vs"
  "all_bits w (us @ vs) = all_bits w us @ all_bits w vs"
  by (simp_all add: all_bits_def)

lemma length_all_bits [simp]: "length (all_bits w vs) = length vs * w"
  by (induction vs) simp_all

lemma bits_of_cong: "(\<And>n. n < w \<Longrightarrow> bit u n = bit v n) \<Longrightarrow> bits_of w u = bits_of w v"
  by (induction w) simp_all

lemma bits_of_add:
  assumes "\<And>n. n < a \<Longrightarrow> bit u n = bit v (b + n)"
  shows "bits_of (a + b) v = bits_of a u @ bits_of b v"
  using assms by (induction a) (simp_all add: add.commute)

lemma bits_of_zero: "bits_of w 0 = replicate w False"
  by (induction w) simp_all

lemma bits_of_inj: "bits_of w u = bits_of w v \<Longrightarrow> n < w \<Longrightarrow> bit u n = bit v n"
  by (induction w) (auto simp: less_Suc_eq)

lemma bits_of_small_inj: "bits_of w u = bits_of w v \<Longrightarrow> small w u \<Longrightarrow> small w v \<Longrightarrow> u = v"
  by (rule bit_word_eqI) (metis bits_of_inj not_le small_def)

lemma all_bits_inj:
  "all_bits w us @ r = all_bits w vs @ s \<Longrightarrow> length us = length vs \<Longrightarrow> \<forall>u\<in>set us. small w u \<Longrightarrow> \<forall>v\<in>set vs. small w v
    \<Longrightarrow> us = vs \<and> r = s"
proof (induction us arbitrary: vs)
  case (Cons u us)
  then obtain v vs' where v: "vs = v # vs'" by (cases vs) simp_all
  then have "bits_of w u = bits_of w v" "all_bits w us @ r = all_bits w vs' @ s" using Cons.prems(1) by simp_all
  then show ?case using Cons v by (auto intro: bits_of_small_inj)
qed simp

lemma bit_shr: "b + n < 64 \<Longrightarrow> bit (shr v b) n = bit v (b + n)"
  by (auto simp: shr_def bit_signed_drop_bit_iff)

lemma bit_shl: "b < 64 \<Longrightarrow> n < 64 \<Longrightarrow> bit (shl v b) n = (b \<le> n \<and> bit v (n - b))"
  by (simp add: shl_def bit_push_bit_iff)

lemma maxv_mask: "w < 64 \<Longrightarrow> shl 1 w - 1 = mask w"
  by (simp add: shl_def mask_eq_exp_minus_1 push_bit_eq_mult)

lemma in_range: "w < 64 \<Longrightarrow> \<not> (v <s 0 \<or> shr v w \<noteq> 0) \<longleftrightarrow> small w v"
proof
  assume w: "w < 64" and "\<not> (v <s 0 \<or> shr v w \<noteq> 0)"
  then have z: "shr v w = 0" "\<not> v <s 0" by auto
  have "\<not> bit v n" if "n \<ge> w" "n < 64" for n
    using arg_cong[OF z(1), of "\<lambda>x. bit x (n - w)"] bit_shr[of w "n - w" v] that by simp
  then show "small w v" unfolding small_def using bit_imp_le_length[of v] by fastforce
next
  assume w: "w < 64" and s: "small w v"
  then have "\<not> v <s 0" by (intro small_nonneg small_mono[OF s]) simp
  moreover have "shr v w = 0"
  proof (rule bit_word_eqI)
    fix n assume "n < LENGTH(64)"
    then show "bit (shr v w) n = bit (0 :: i64) n" using w s
      by (auto simp: shr_def bit_signed_drop_bit_iff small_def)
  qed
  ultimately show "\<not> (v <s 0 \<or> shr v w \<noteq> 0)" by simp
qed

lemma emit_step: "emit tobits maxv acc bits ret =
  (if bits \<ge> tobits then emit tobits maxv acc (bits - tobits) (ret @ [shr acc (bits - tobits) AND maxv]) else Some (bits, ret))"
  by (rule emit.simps)

lemma small_mask: "small w (v AND mask w)"
  by (simp add: small_def bit_and_iff bit_mask_iff)

lemma emit_ends:
  assumes "0 < tobits" "bits < 64"
  shows "\<exists>bits' out. emit tobits (mask tobits) acc bits ret = Some (bits', ret @ out) \<and> bits' < tobits
    \<and> (\<forall>v\<in>set out. small tobits v) \<and> all_bits tobits out @ bits_of bits' acc = bits_of bits acc"
  using assms(2)
proof (induction bits arbitrary: ret rule: less_induct)
  case (less bits)
  show ?case
  proof (cases "bits \<ge> tobits")
    case False
    then show ?thesis by (subst emit_step) (auto intro!: exI[of _ "[]"])
  next
    case True
    define x where "x = shr acc (bits - tobits) AND mask tobits"
    have "bits - tobits < bits" using True assms(1) by simp
    from less.IH[OF this] obtain bits' out where o: "emit tobits (mask tobits) acc (bits - tobits) (ret @ [x]) = Some (bits', (ret @ [x]) @ out)"
      "bits' < tobits" "\<forall>v\<in>set out. small tobits v" "all_bits tobits out @ bits_of bits' acc = bits_of (bits - tobits) acc"
      using less.prems by (metis less_imp_diff_less)
    have "bits_of (tobits + (bits - tobits)) acc = bits_of tobits x @ bits_of (bits - tobits) acc"
      by (rule bits_of_add) (use True less.prems in \<open>simp add: x_def bit_and_iff bit_mask_iff bit_shr\<close>)
    then have "all_bits tobits (x # out) @ bits_of bits' acc = bits_of bits acc" using o(4) True by simp
    moreover have "\<forall>v\<in>set (x # out). small tobits v" using o(3) by (simp add: x_def small_mask)
    ultimately show ?thesis using o(1,2) True
      by (subst emit_step) (auto simp: x_def [symmetric] intro!: exI[of _ bits'] exI[of _ "x # out"])
  qed
qed

lemma convert_loop_ok:
  assumes "0 < tobits" "tobits + frombits < 64" "\<forall>v\<in>set data. small frombits v" "bits < tobits"
  shows "\<exists>acc' bits' out. convert_loop frombits tobits (mask tobits) data (acc, bits, ret) = Some (Inr (acc', bits', ret @ out))
    \<and> bits' < tobits \<and> (\<forall>v\<in>set out. small tobits v)
    \<and> all_bits tobits out @ bits_of bits' acc' = bits_of bits acc @ all_bits frombits data"
  using assms(3,4)
proof (induction data arbitrary: acc bits ret)
  case Nil
  then show ?case by (auto intro!: exI[of _ "[]"])
next
  case (Cons v data)
  define acc1 where "acc1 = shl acc frombits OR v"
  have sv: "small frombits v" using Cons.prems(1) by simp
  obtain b1 o1 where e: "emit tobits (mask tobits) acc1 (bits + frombits) ret = Some (b1, ret @ o1)" "b1 < tobits"
    "\<forall>v\<in>set o1. small tobits v" "all_bits tobits o1 @ bits_of b1 acc1 = bits_of (bits + frombits) acc1"
    using emit_ends[of tobits "bits + frombits" acc1 ret] assms(1,2) Cons.prems(2) by auto
  have "bits_of (bits + frombits) acc1 = bits_of bits acc @ bits_of frombits acc1"
    by (rule bits_of_add) (use sv assms(2) Cons.prems(2) in \<open>auto simp: acc1_def bit_or_iff bit_shl small_def\<close>)
  also have "bits_of frombits acc1 = bits_of frombits v"
    by (rule bits_of_cong) (use assms(2) in \<open>simp add: acc1_def bit_or_iff bit_shl\<close>)
  finally have b: "bits_of (bits + frombits) acc1 = bits_of bits acc @ bits_of frombits v" .
  obtain acc' bits' o2 where c: "convert_loop frombits tobits (mask tobits) data (acc1, b1, ret @ o1) = Some (Inr (acc', bits', (ret @ o1) @ o2))"
    "bits' < tobits" "\<forall>v\<in>set o2. small tobits v" "all_bits tobits o2 @ bits_of bits' acc' = bits_of b1 acc1 @ all_bits frombits data"
    using Cons.IH[of b1 acc1 "ret @ o1"] Cons.prems(1) e(2) by auto
  have "\<not> (v <s 0 \<or> shr v frombits \<noteq> 0)" using in_range[of frombits v] sv assms(2) by simp
  then have "convert_loop frombits tobits (mask tobits) (v # data) (acc, bits, ret) = Some (Inr (acc', bits', ret @ o1 @ o2))"
    using e(1) c(1) by (simp add: Let_def acc1_def)
  moreover have "all_bits tobits (o1 @ o2) @ bits_of bits' acc' = bits_of bits acc @ all_bits frombits (v # data)"
    using c(4) e(4) b by simp
  ultimately show ?case using c(2,3) e(3) by (intro exI[of _ acc'] exI[of _ bits'] exI[of _ "o1 @ o2"]) auto
qed


lemma pad_bits:
  assumes "bits \<le> tobits" "tobits < 64"
  shows "bits_of tobits (shl acc (tobits - bits) AND mask tobits) = bits_of bits acc @ replicate (tobits - bits) False"
proof -
  let ?p = "shl acc (tobits - bits) AND mask tobits"
  have "bits_of (bits + (tobits - bits)) ?p = bits_of bits acc @ bits_of (tobits - bits) ?p"
    by (rule bits_of_add) (use assms in \<open>auto simp: bit_and_iff bit_mask_iff bit_shl\<close>)
  moreover have "bits_of (tobits - bits) ?p = bits_of (tobits - bits) 0"
    by (rule bits_of_cong) (use assms in \<open>auto simp: bit_and_iff bit_mask_iff bit_shl\<close>)
  ultimately show ?thesis using assms(1) by (simp add: bits_of_zero)
qed

lemma pad_zero:
  assumes "bits < tobits" "tobits < 64"
  shows "shl acc (tobits - bits) AND mask tobits = 0 \<longleftrightarrow> bits_of bits acc = replicate bits False"
proof
  assume "shl acc (tobits - bits) AND mask tobits = 0"
  then have "bits_of bits acc @ replicate (tobits - bits) False = replicate tobits False"
    using pad_bits[of bits tobits acc] assms by (simp add: bits_of_zero)
  then have "take bits (bits_of bits acc @ replicate (tobits - bits) False) = take bits (replicate tobits False)" by simp
  then show "bits_of bits acc = replicate bits False" using assms(1) by simp
next
  assume "bits_of bits acc = replicate bits False"
  then have "bits_of tobits (shl acc (tobits - bits) AND mask tobits) = bits_of tobits 0"
    using pad_bits[of bits tobits acc] assms by (simp add: bits_of_zero replicate_add [symmetric])
  then show "shl acc (tobits - bits) AND mask tobits = 0"
    by (rule bits_of_small_inj) (simp_all add: small_mask, simp add: small_def)
qed

text \<open>Both modes: with padding the bits are kept and filled with zeros; without it the call succeeds exactly when the
  bits left over are fewer than a symbol and zero.\<close>

lemma convertbits_pad:
  assumes "0 < tobits" "tobits + frombits < 64" "\<forall>v\<in>set data. small frombits v"
  shows "\<exists>ret n. convertbits data frombits tobits True = Some (Inr ret) \<and> n < tobits
    \<and> (\<forall>v\<in>set ret. small tobits v) \<and> all_bits tobits ret = all_bits frombits data @ replicate n False"
proof -
  obtain acc bits out where c: "convert_loop frombits tobits (mask tobits) data (0, 0, []) = Some (Inr (acc, bits, out))"
    "bits < tobits" "\<forall>v\<in>set out. small tobits v" "all_bits tobits out @ bits_of bits acc = all_bits frombits data"
    using convert_loop_ok[OF assms(1,2,3), of 0 0 "[]"] assms(1) by auto
  let ?p = "shl acc (tobits - bits) AND mask tobits"
  have cb: "convertbits data frombits tobits True = Some (Inr (if bits > 0 then out @ [?p] else out))"
    using c(1) assms(2) by (simp add: convertbits_def Let_def maxv_mask)
  show ?thesis
  proof (cases "bits > 0")
    case True
    then have "all_bits tobits (out @ [?p]) = all_bits frombits data @ replicate (tobits - bits) False"
      using pad_bits[of bits tobits acc] c(2,4) assms(2) by (simp flip: c(4))
    then show ?thesis using cb c(3) True assms(1)
      by (intro exI[of _ "out @ [?p]"] exI[of _ "tobits - bits"]) (simp add: small_mask)
  next
    case False
    then show ?thesis using cb c(3,4) assms(1) by (intro exI[of _ out] exI[of _ 0]) simp
  qed
qed

lemma convertbits_nopad:
  assumes "0 < tobits" "tobits + frombits < 64" "\<forall>v\<in>set data. small frombits v"
  shows "\<exists>out rest. all_bits tobits out @ rest = all_bits frombits data \<and> length rest < tobits \<and> (\<forall>v\<in>set out. small tobits v)
    \<and> convertbits data frombits tobits False =
      Some (if length rest \<ge> frombits then Inl IllegalZeroPadding
            else if rest \<noteq> replicate (length rest) False then Inl NonZeroPadding else Inr out)"
proof -
  obtain acc bits out where c: "convert_loop frombits tobits (mask tobits) data (0, 0, []) = Some (Inr (acc, bits, out))"
    "bits < tobits" "\<forall>v\<in>set out. small tobits v" "all_bits tobits out @ bits_of bits acc = all_bits frombits data"
    using convert_loop_ok[OF assms(1,2,3), of 0 0 "[]"] assms(1) by auto
  have "convertbits data frombits tobits False = Some (if bits \<ge> frombits then Inl IllegalZeroPadding
      else if bits_of bits acc \<noteq> replicate bits False then Inl NonZeroPadding else Inr out)"
    using c(1,2) assms(2) by (simp add: convertbits_def Let_def maxv_mask pad_zero)
  then show ?thesis using c by (intro exI[of _ out] exI[of _ "bits_of bits acc"]) simp
qed

lemma pad_unique:
  assumes "a * 5 = (b :: nat) * 8 + n" "c * 5 = b * 8 + m" "n < 5" "m < 5"
  shows "n = m \<and> a = c"
proof -
  have "\<not> a < c" "\<not> c < a" using assms by linarith+
  then have "a = c" by simp
  then show ?thesis using assms by linarith
qed

lemma bytes_back:
  assumes "\<forall>v\<in>set bytes. unat v < 256"
  shows "\<exists>five. convertbits bytes 8 5 True = Some (Inr five) \<and> symbols_ok five \<and> convertbits five 5 8 False = Some (Inr bytes)"
proof -
  have sb: "\<forall>v\<in>set bytes. small 8 v" using assms by (simp add: small_unat)
  obtain five n where f: "convertbits bytes 8 5 True = Some (Inr five)" "n < 5" "\<forall>v\<in>set five. small 5 v"
    "all_bits 5 five = all_bits 8 bytes @ replicate n False" using convertbits_pad[of 5 8 bytes] sb by auto
  obtain out rest where o: "all_bits 8 out @ rest = all_bits 5 five" "length rest < 8" "\<forall>v\<in>set out. small 8 v"
    "convertbits five 5 8 False = Some (if length rest \<ge> 5 then Inl IllegalZeroPadding
      else if rest \<noteq> replicate (length rest) False then Inl NonZeroPadding else Inr out)"
    using convertbits_nopad[of 8 5 five] f(3) by auto
  have "length out * 8 + length rest = length bytes * 8 + n"
    using arg_cong[OF o(1), of length] arg_cong[OF f(4), of length] by simp
  then have "length out = length bytes" using o(2) f(2) by linarith
  then have "out = bytes \<and> rest = replicate n False" using o(1,3) sb f(4) by (intro all_bits_inj[of 8]) simp_all
  then show ?thesis using f o(4) by (auto simp: symbols_ok_small)
qed

lemma symbols_back:
  assumes "symbols_ok five" and g: "convertbits five 5 8 False = Some (Inr bytes)"
  shows "convertbits bytes 8 5 True = Some (Inr five) \<and> (\<forall>v\<in>set bytes. unat v < 256)"
proof -
  have sf: "\<forall>v\<in>set five. small 5 v" using assms(1) by (simp add: symbols_ok_small)
  obtain out rest where o: "all_bits 8 out @ rest = all_bits 5 five" "length rest < 8" "\<forall>v\<in>set out. small 8 v"
    "convertbits five 5 8 False = Some (if length rest \<ge> 5 then Inl IllegalZeroPadding
      else if rest \<noteq> replicate (length rest) False then Inl NonZeroPadding else Inr out)"
    using convertbits_nopad[of 8 5 five] sf by auto
  have r: "length rest < 5" "rest = replicate (length rest) False" "out = bytes"
    using o(4) g by (auto split: if_splits)
  obtain five' n where f: "convertbits bytes 8 5 True = Some (Inr five')" "n < 5" "\<forall>v\<in>set five'. small 5 v"
    "all_bits 5 five' = all_bits 8 bytes @ replicate n False" using convertbits_pad[of 5 8 bytes] o(3) r(3) by auto
  have "length five' * 5 = length bytes * 8 + n" "length five * 5 = length bytes * 8 + length rest"
    using arg_cong[OF f(4), of length] arg_cong[OF o(1), of length] r(3) by simp_all
  then have "n = length rest \<and> length five' = length five" using f(2) r(1) by (rule pad_unique)
  then have "five' = five" using f(3,4) o(1) r(2,3) sf all_bits_inj[of 5 five' "[]" five "[]"] by simp
  then show ?thesis using f(1) o(3) r(3) by (simp add: small_unat)
qed

text \<open>Regrouping bytes into five-bit symbols and back is the identity in both directions: every byte string becomes
  valid symbols that give it back, and every symbol string that converts to bytes is the one those bytes
  convert to. Both loops end.\<close>

theorem convertbits_roundtrip:
  "((\<forall>v\<in>set bytes. unat v < 256) \<longrightarrow>
     (\<exists>five. convertbits bytes 8 5 True = Some (Inr five) \<and> symbols_ok five \<and> convertbits five 5 8 False = Some (Inr bytes)))
   \<and> (symbols_ok five \<longrightarrow> convertbits five 5 8 False = Some (Inr bytes) \<longrightarrow> convertbits bytes 8 5 True = Some (Inr five))"
  using bytes_back symbols_back by blast

section \<open>Witnesses\<close>

definition ascii_only :: unicode_case where
  "ascii_only = \<lparr>uni_lower = (\<lambda>s. s), uni_upper = (\<lambda>s. s)\<rparr>"

definition demo_hrp :: "byte list" where
  "demo_hrp = map of_char ''dero''"

definition demo_text :: "byte list" where
  "demo_text = map of_char ''dero1pzr04uq75''"

theorem bech32_roundtrip_witness:
  "decode ascii_only demo_text = Inr (demo_hrp, [1, 2, 3]) \<and> encode demo_hrp [1, 2, 3] = Inr demo_text"
proof -
  have e: "encode demo_hrp [1, 2, 3] = Inr demo_text" by code_simp
  have "decode ascii_only demo_text = Inr (to_lowercase demo_hrp, [1, 2, 3])"
    using bech32_roundtrip[of demo_hrp "[1, 2, 3]" demo_text ascii_only] e by blast
  moreover have "to_lowercase demo_hrp = demo_hrp" by code_simp
  ultimately show ?thesis using e by simp
qed

theorem bech32_detects_substitution_witness:
  "\<exists>e. decode ascii_only (demo_hrp @ 49 # (map of_char ''pzr04uq75'')[2 := of_char CHR ''q'']) = Inl e"
proof (rule bech32_detects_substitution)
  show "decode ascii_only (demo_hrp @ 49 # map of_char ''pzr04uq75'') = Inr (demo_hrp, [1, 2, 3])" by code_simp
qed (code_simp | simp)+

theorem convertbits_roundtrip_witness:
  "convertbits [1, 255, 7] 8 5 True = Some (Inr [0, 7, 31, 16, 14]) \<and> convertbits [0, 7, 31, 16, 14] 5 8 False = Some (Inr [1, 255, 7])"
proof -
  obtain five where "convertbits [1, 255, 7] 8 5 True = Some (Inr five)" "symbols_ok five" "convertbits five 5 8 False = Some (Inr [1, 255, 7])"
    using convertbits_roundtrip[of "[1, 255, 7]"] by auto
  moreover have "convertbits [1, 255, 7] 8 5 True = Some (Inr [0, 7, 31, 16, 14])"
    by code_simp
  ultimately show ?thesis by simp
qed

end
