(* ===== verification/GoTime.thy ===== *)
theory GoTime
  imports Prelude "HOL-Library.Signed_Division"
begin

text \<open>
  Text and time of the RPC argument decoder (\<open>block/src/arguments.rs\<close>): Rust strings as the
  list of their UTF-8 bytes, the validity check \<open>std::str::from_utf8\<close>, decimal and
  hexadecimal printing as \<open>format!\<close> does it, Go's quoting of a time string
  (\<open>go_time_quote\<close>), the proleptic Gregorian calendar (\<open>is_leap\<close>, \<open>days_in\<close>,
  \<open>days_from_civil\<close>) and the port of Go's \<open>time.Parse(time.RFC3339, _)\<close>
  (\<open>go_parse_rfc3339\<close>), whose error texts are part of its result.

  The lemmas show that valid strings may be concatenated and cut before an ASCII byte (the
  \<open>expect\<close> and the string slice of the source), that the day count is the signed number of calendar
  days since 1970-01-01, that the parser accepts exactly what it should on the
  canonical form of every instant, and that its result lies in the range of \<open>i64\<close>.
\<close>

section \<open>Strings\<close>

type_synonym rstr = "byte list"

text \<open>A string literal of the source.\<close>

definition lit :: "string \<Rightarrow> rstr" where
  "lit s = map of_char s"

lemma lit_simps [simp]:
  "lit [] = []" "lit (c # s) = of_char c # lit s" "lit (s @ t) = lit s @ lit t"
  by (simp_all add: lit_def)

lemma length_lit [simp]: "length (lit s) = length s"
  by (simp add: lit_def)

text \<open>\<open>{}\<close> of an unsigned integer: its decimal digits.\<close>

fun dec_str :: "nat \<Rightarrow> rstr" where
  "dec_str n = (if n < 10 then [0x30 + of_nat n] else dec_str (n div 10) @ [0x30 + of_nat (n mod 10)])"

declare dec_str.simps [simp del]

text \<open>\<open>{b:02x}\<close> of a byte.\<close>

definition hex_digit :: "nat \<Rightarrow> byte" where
  "hex_digit n = (if n < 10 then 0x30 + of_nat n else 0x57 + of_nat n)"

definition hex_byte :: "byte \<Rightarrow> rstr" where
  "hex_byte b = [hex_digit (unat b div 16), hex_digit (unat b mod 16)]"

subsection \<open>UTF-8\<close>

text \<open>A continuation byte.\<close>

definition cont :: "byte \<Rightarrow> bool" where
  "cont b = (0x80 \<le> b \<and> b \<le> 0xbf)"

text \<open>The number of continuation bytes a lead byte asks for, and the range of the first of them
  (no overlong forms, no surrogates, nothing above U+10FFFF).\<close>

definition utf8_tail :: "byte \<Rightarrow> nat option" where
  "utf8_tail b = (if b < 0x80 then Some 0
                  else if 0xc2 \<le> b \<and> b \<le> 0xdf then Some 1
                  else if 0xe0 \<le> b \<and> b \<le> 0xef then Some 2
                  else if 0xf0 \<le> b \<and> b \<le> 0xf4 then Some 3
                  else None)"

definition second_ok :: "byte \<Rightarrow> byte \<Rightarrow> bool" where
  "second_ok b c = (if b = 0xe0 then 0xa0 \<le> c \<and> c \<le> 0xbf
                    else if b = 0xed then 0x80 \<le> c \<and> c \<le> 0x9f
                    else if b = 0xf0 then 0x90 \<le> c \<and> c \<le> 0xbf
                    else if b = 0xf4 then 0x80 \<le> c \<and> c \<le> 0x8f
                    else cont c)"

fun tail_ok :: "byte \<Rightarrow> byte list \<Rightarrow> bool" where
  "tail_ok b [] = True"
| "tail_ok b (c # cs) = (second_ok b c \<and> list_all cont cs)"

text \<open>One scalar value off the front of a slice: the rest, when it is well formed.\<close>

definition utf8_step :: "byte \<Rightarrow> byte list \<Rightarrow> byte list option" where
  "utf8_step b r = (case utf8_tail b of
      None \<Rightarrow> None
    | Some n \<Rightarrow> if n \<le> length r \<and> tail_ok b (take n r) then Some (drop n r) else None)"

lemma utf8_step_length: "utf8_step b r = Some r1 \<Longrightarrow> length r1 \<le> length r"
  by (auto simp: utf8_step_def split: if_splits option.splits)

text \<open>\<open>std::str::from_utf8(_).is_ok()\<close>.\<close>

function utf8_valid :: "byte list \<Rightarrow> bool" where
  "utf8_valid [] = True"
| "utf8_valid (b # r) = (case utf8_step b r of None \<Rightarrow> False | Some r1 \<Rightarrow> utf8_valid r1)"
  by pat_completeness auto
termination
  by (relation "measure length") (auto dest: utf8_step_length)

text \<open>Length of a valid UTF-8 sequence starting the slice, if any (the slice is not empty).\<close>

definition utf8_sequence_len :: "byte list \<Rightarrow> nat option" where
  "utf8_sequence_len s =
    (let b = s ! 0;
         w = (if 0xc2 \<le> b \<and> b \<le> 0xdf then 2 else if 0xe0 \<le> b \<and> b \<le> 0xef then 3
              else if 0xf0 \<le> b \<and> b \<le> 0xf4 then 4 else 0)
     in if w = 0 then None
        else if length s < w \<or> \<not> utf8_valid (take w s) then None
        else Some w)"

lemma utf8_step_append: "utf8_step b r = Some r1 \<Longrightarrow> utf8_step b (r @ t) = Some (r1 @ t)"
  by (auto simp: utf8_step_def split: if_splits option.splits)

lemma utf8_valid_append: "utf8_valid xs \<Longrightarrow> utf8_valid (xs @ ys) = utf8_valid ys"
  by (induction xs rule: utf8_valid.induct) (auto simp: utf8_step_append split: option.splits)

lemma ascii_not_cont: "c < 0x80 \<Longrightarrow> \<not> cont c" "c < 0x80 \<Longrightarrow> \<not> second_ok b c"
  by (auto simp: cont_def second_ok_def word_le_nat_alt word_less_nat_alt)

lemma utf8_step_snoc_ascii:
  assumes c: "c < 0x80" and "utf8_step b r = None"
  shows "utf8_step b (r @ [c]) = None"
proof (cases "utf8_tail b")
  case (Some n)
  consider "n \<le> length r" | "n = Suc (length r)" | "Suc (length r) < n" by linarith
  then show ?thesis
  proof cases
    case 2
    have "\<not> tail_ok b (r @ [c])" using ascii_not_cont[OF c] by (cases r) auto
    then show ?thesis using 2 Some by (simp add: utf8_step_def)
  qed (use assms(2) Some in \<open>auto simp: utf8_step_def split: if_splits\<close>)
qed (simp add: utf8_step_def)

lemma utf8_valid_snoc_ascii: "c < 0x80 \<Longrightarrow> utf8_valid (xs @ [c]) = utf8_valid xs"
proof (induction xs rule: utf8_valid.induct)
  case 1
  then show ?case by (simp add: utf8_step_def utf8_tail_def)
next
  case (2 b r)
  then show ?case
    by (cases "utf8_step b r") (simp_all add: utf8_step_snoc_ascii utf8_step_append)
qed

lemma utf8_valid_ascii: "\<forall>c\<in>set xs. c < 0x80 \<Longrightarrow> utf8_valid xs"
  by (induction xs) (simp_all add: utf8_step_def utf8_tail_def)

lemma utf8_sequence_len_bounds:
  "utf8_sequence_len s = Some w \<Longrightarrow> 2 \<le> w \<and> w \<le> 4 \<and> w \<le> length s"
  by (auto simp: utf8_sequence_len_def Let_def split: if_splits)

section \<open>Go's quoting of a time string\<close>

text \<open>The number of bytes of the rune at the head of a non-empty slice whose first byte is not ASCII.\<close>

definition rune_width :: "byte list \<Rightarrow> nat" where
  "rune_width s = (if take 3 s = [0xef, 0xbf, 0xbd] then 3
                   else case utf8_sequence_len s of Some w \<Rightarrow> w | None \<Rightarrow> 1)"

lemma rune_width_bounds: "s \<noteq> [] \<Longrightarrow> 1 \<le> rune_width s \<and> rune_width s \<le> length s"
proof -
  assume ne: "s \<noteq> []"
  have "3 \<le> length s" if "take 3 s = [0xef, 0xbf, 0xbd]"
    using arg_cong[OF that, of length] by (simp add: min_def split: if_splits)
  then show ?thesis using ne
    by (auto simp: rune_width_def dest: utf8_sequence_len_bounds split: option.splits)
      (simp add: Suc_le_eq)
qed

lemma rune_width_pos: "Suc n - rune_width (b # r) < Suc n"
  using rune_width_bounds[of "b # r"] by simp

definition quote_byte :: "byte \<Rightarrow> rstr" where
  "quote_byte b = (if b < 0x20 then [0x5c, 0x78] @ hex_byte b
                   else (if b = 0x22 \<or> b = 0x5c then [0x5c] else []) @ [b])"

function quote_body :: "byte list \<Rightarrow> rstr" where
  "quote_body s =
    (case s of [] \<Rightarrow> []
     | b # r \<Rightarrow>
        if b < 0x80 then quote_byte b @ quote_body r
        else concat (map (\<lambda>c. [0x5c, 0x78] @ hex_byte c) (take (rune_width s) s))
             @ quote_body (drop (rune_width s) s))"
  by pat_completeness auto
termination
  by (relation "measure length") (simp_all add: rune_width_pos diff_less_Suc)

declare quote_body.simps [simp del]

definition go_time_quote :: "byte list \<Rightarrow> rstr" where
  "go_time_quote s = [0x22] @ quote_body s @ [0x22]"

section \<open>The calendar\<close>

text \<open>An \<open>i64\<close> is an integer between \<open>- 2 ^ 63\<close> and \<open>2 ^ 63 - 1\<close>; an operation that may leave the range
  is followed by the wrap-around \<open>w64\<close>. The remainders by positive constants of \<open>is_leap\<close> and the constants
  of \<open>days_in\<close> cannot leave it.\<close>

definition w64 :: "int \<Rightarrow> int" where
  "w64 x = signed_take_bit 63 x"

definition is_leap :: "int \<Rightarrow> bool" where
  "is_leap y = (y smod 4 = 0 \<and> (y smod 100 \<noteq> 0 \<or> y smod 400 = 0))"

definition days_in :: "int \<Rightarrow> int \<Rightarrow> int" where
  "days_in m y =
    (if m \<in> {1, 3, 5, 7, 8, 10, 12} then 31
     else if m \<in> {4, 6, 9, 11} then 30
     else if m = 2 then (if is_leap y then 29 else 28)
     else 0)"

definition days_from_civil :: "int \<Rightarrow> int \<Rightarrow> int \<Rightarrow> int" where
  "days_from_civil y0 m d =
    (let y = (if m \<le> 2 then w64 (y0 - 1) else y0);
         era = (if y \<ge> 0 then y else w64 (y - 399)) sdiv 400;
         yoe = w64 (y - w64 (era * 400));
         doy = w64 (w64 (w64 (w64 (153 * (if m > 2 then w64 (m - 3) else w64 (m + 9))) + 2) sdiv 5 + d) - 1);
         doe = w64 (w64 (w64 (w64 (yoe * 365) + yoe sdiv 4) - yoe sdiv 100) + doy)
     in w64 (w64 (w64 (era * 146097) + doe) - 719468))"

text \<open>The reference calendar, for all years, negative ones included: the day after a date, from the lengths
  of the months.\<close>

definition valid_date :: "int \<times> int \<times> int \<Rightarrow> bool" where
  "valid_date = (\<lambda>(y, m, d). 1 \<le> m \<and> m \<le> 12 \<and> 1 \<le> d \<and> d \<le> days_in m y)"

definition next_day :: "int \<times> int \<times> int \<Rightarrow> int \<times> int \<times> int" where
  "next_day = (\<lambda>(y, m, d).
    if d < days_in m y then (y, m, d + 1)
    else if m < 12 then (y, m + 1, 1)
    else (y + 1, 1, 1))"

lemma sdiv_nonneg: "0 \<le> a \<Longrightarrow> 0 < b \<Longrightarrow> a sdiv b = a div (b :: int)"
  by (cases "a = 0") (simp_all add: signed_divide_int_def sgn_if)

lemma smod_zero: "a smod b = 0 \<longleftrightarrow> a mod (b :: int) = 0"
  by (simp add: signed_modulo_int_def sgn_0_0 mod_eq_0_iff_dvd) (cases "a = 0"; simp)

lemma is_leap_mod: "is_leap y = (y mod 4 = 0 \<and> (y mod 100 \<noteq> 0 \<or> y mod 400 = 0))"
  by (simp add: is_leap_def smod_zero)

lemma era_floor: "(if y \<ge> 0 then y else y - 399) sdiv 400 = y div 400" for y :: int
proof (cases "y \<ge> 0")
  case False
  then have "(y - 399) sdiv 400 = - ((399 - y) div 400)" by (simp add: signed_divide_int_def)
  also have "\<dots> = y div 400"
  proof -
    define q r where "q = y div 400" and "r = y mod 400"
    have "y = 400 * q + r" "0 \<le> r" "r < 400" by (simp_all add: q_def r_def)
    then have "(399 - y) div 400 = - q" by (intro int_div_pos_eq[where r = "399 - r"]) simp_all
    then show ?thesis by (simp add: q_def)
  qed
  finally show ?thesis using False by simp
qed (simp add: sdiv_nonneg)

lemma w64_id: "- (2 ^ 63) \<le> x \<Longrightarrow> x < 2 ^ 63 \<Longrightarrow> w64 x = x"
  by (simp add: w64_def signed_take_bit_int_eq_self)

lemma cycle_days:
  "(y div 400) * 146097 + ((y mod 400) * 365 + (y mod 400) div 4 - (y mod 400) div 100)
   = 365 * y + y div 4 - y div 100 + y div (400 :: int)"
proof -
  define q r where "q = y div 400" and "r = y mod 400"
  have y: "y = r + 400 * q" by (simp add: q_def r_def)
  have "y div 4 = r div 4 + 100 * q" "y div 100 = r div 100 + 4 * q"
    by (simp_all add: y div_plus_div_distrib_dvd_right)
  then show ?thesis by (simp add: q_def[symmetric] r_def[symmetric]) (simp add: y)
qed

text \<open>Years up to \<open>2 ^ 54\<close> in both directions keep every intermediate value in the range of \<open>i64\<close>.\<close>

abbreviation year_ok :: "int \<Rightarrow> bool" where
  "year_ok y \<equiv> \<bar>y\<bar> \<le> 2 ^ 54"

lemma days_from_civil_eq:
  assumes "year_ok y0" "1 \<le> m" "m \<le> 12" "1 \<le> d" "d \<le> 31"
  shows "days_from_civil y0 m d =
    (let y = (if m \<le> 2 then y0 - 1 else y0)
     in 365 * y + y div 4 - y div 100 + y div 400
        + (153 * (if m > 2 then m - 3 else m + 9) + 2) div 5 + d - 1 - 719468)"
proof -
  define y where "y = (if m \<le> 2 then y0 - 1 else y0)"
  define mp where "mp = (if m > 2 then m - 3 else m + 9)"
  define doy where "doy = (153 * mp + 2) div 5 + d - 1"
  define q r where "q = y div 400" and "r = y mod 400"
  have y: "- 18014398509481985 \<le> y" "y \<le> 18014398509481984" using assms(1) by (auto simp: y_def)
  have mp: "0 \<le> mp" "mp \<le> 11" using assms by (auto simp: mp_def)
  have dy: "0 \<le> doy" "doy \<le> 400" "0 \<le> (153 * mp + 2) div 5" "(153 * mp + 2) div 5 \<le> 338"
    using mp assms by (simp_all add: doy_def)
  have r: "0 \<le> r" "r < 400" "y = 400 * q + r" by (simp_all add: q_def r_def)
  have q: "- 45035996273705 \<le> q" "q \<le> 45035996273705" using y r by linarith+
  have rr: "0 \<le> r div 4" "r div 4 \<le> 100" "0 \<le> r div 100" "r div 100 \<le> 4" using r by simp_all
  have w: "w64 (y0 - 1) = y0 - 1" "w64 (y - 399) = y - 399"
    using assms(1) y by (auto intro!: w64_id)
  have y': "(if m \<le> 2 then w64 (y0 - 1) else y0) = y" by (simp add: w y_def)
  have era: "(if 0 \<le> y then y else w64 (y - 399)) sdiv 400 = q" unfolding w q_def by (rule era_floor)
  have yoe: "w64 (y - w64 (q * 400)) = r"
  proof -
    have "w64 (q * 400) = q * 400" using q by (intro w64_id) simp_all
    moreover have "w64 (y - q * 400) = y - q * 400" using r by (intro w64_id) simp_all
    ultimately show ?thesis using r by simp
  qed
  have mp': "(if m > 2 then w64 (m - 3) else w64 (m + 9)) = mp" using assms by (auto simp: mp_def intro!: w64_id)
  have "w64 (153 * mp) = 153 * mp" "w64 (153 * mp + 2) = 153 * mp + 2" using mp by (auto intro!: w64_id)
  then have doy': "w64 (w64 (w64 (w64 (153 * mp) + 2) sdiv 5 + d) - 1) = doy"
  proof -
    assume e: "w64 (153 * mp) = 153 * mp" "w64 (153 * mp + 2) = 153 * mp + 2"
    have "(153 * mp + 2) sdiv 5 = (153 * mp + 2) div 5" using mp by (simp add: sdiv_nonneg)
    moreover have "w64 ((153 * mp + 2) div 5 + d) = (153 * mp + 2) div 5 + d" "w64 ((153 * mp + 2) div 5 + d - 1) = doy"
      using dy assms by (auto simp: doy_def intro!: w64_id)
    ultimately show ?thesis by (simp add: e)
  qed
  have doe: "w64 (w64 (w64 (w64 (r * 365) + r sdiv 4) - r sdiv 100) + doy) = r * 365 + r div 4 - r div 100 + doy"
    using r rr dy by (simp add: sdiv_nonneg w64_id)
  have fin: "w64 (w64 (w64 (q * 146097) + (r * 365 + r div 4 - r div 100 + doy)) - 719468)
      = q * 146097 + (r * 365 + r div 4 - r div 100 + doy) - 719468"
    using q r rr dy by (simp add: w64_id)
  have "days_from_civil y0 m d = q * 146097 + (r * 365 + r div 4 - r div 100 + doy) - 719468"
    unfolding days_from_civil_def Let_def y' era yoe mp' doy' doe fin ..
  then show ?thesis using cycle_days[of y]
    unfolding Let_def y_def[symmetric] mp_def[symmetric] q_def[symmetric] r_def[symmetric] doy_def by linarith
qed

lemma month_cases:
  "1 \<le> m \<Longrightarrow> m \<le> 12 \<Longrightarrow> m \<in> {1, 2, 3, 4, 5, 6, 7, 8, 9, 10, 11, 12 :: int}"
  by simp presburger

lemma days_in_pos: "1 \<le> m \<Longrightarrow> m \<le> 12 \<Longrightarrow> 28 \<le> days_in m y"
  using month_cases[of m] by (auto simp: days_in_def)

lemma next_day_valid: "valid_date x \<Longrightarrow> valid_date (next_day x)"
proof (cases x)
  fix y m d assume v: "valid_date x" and x: "x = (y, m, d)"
  have "28 \<le> days_in (m + 1) y" if "m < 12"
    using that v days_in_pos[of "m + 1" y] by (simp add: valid_date_def x)
  moreover have "days_in 1 (y + 1) = 31" by (simp add: days_in_def)
  ultimately show ?thesis using v by (auto simp: next_day_def valid_date_def x)
qed

definition year_days :: "int \<Rightarrow> int" where
  "year_days y = 365 * y + y div 4 - y div 100 + y div 400"

lemma div_pred: "0 < n \<Longrightarrow> y div n = (y - 1) div n + (if y mod n = 0 then 1 else (0 :: int))"
proof -
  assume n: "0 < n"
  define q r where "q = y div n" and "r = y mod n"
  have y: "y = q * n + r" "0 \<le> r" "r < n" using n by (simp_all add: q_def r_def)
  have "(y - 1) div n = (if r = 0 then q - 1 else q)"
    by (rule int_div_pos_eq[where r = "if r = 0 then n - 1 else r - 1"])
      (use y n in \<open>auto simp: algebra_simps\<close>)
  then show ?thesis by (simp add: q_def r_def)
qed

lemma leap_arith:
  fixes y :: int
  assumes "a = a' + (if P then 1 else 0)" "b = b' + (if Q then 1 else 0)" "c = c' + (if R then 1 else 0)"
    and "R \<Longrightarrow> Q" "Q \<Longrightarrow> P"
  shows "365 * y + a - b + c = 365 * (y - 1) + a' - b' + c' + (if P \<and> (\<not> Q \<or> R) then 366 else 365)"
  using assms by (cases P; cases Q; cases R) simp_all

lemma year_days_step:
  "year_days y = year_days (y - 1) + (if is_leap y then 366 else 365)"
proof -
  have "y mod 400 = 0 \<Longrightarrow> y mod 100 = 0" "y mod 100 = 0 \<Longrightarrow> y mod 4 = 0"
    using dvd_trans[of 100 400 y] dvd_trans[of 4 100 y] by (simp_all add: mod_eq_0_iff_dvd)
  then show ?thesis unfolding year_days_def is_leap_mod
    by (intro leap_arith div_pred) simp_all
qed

lemma days_in_le: "days_in m y \<le> 31"
  by (simp add: days_in_def)

lemma days_from_civil_valid:
  assumes "valid_date (y, m, d)" "year_ok y"
  shows "days_from_civil y m d =
    year_days (if m \<le> 2 then y - 1 else y) + (153 * (if m > 2 then m - 3 else m + 9) + 2) div 5 + d - 1 - 719468"
  using assms days_in_le[of m y] by (simp add: valid_date_def days_from_civil_eq year_days_def Let_def)

lemma days_from_civil_next:
  assumes v: "valid_date (y, m, d)" and n: "next_day (y, m, d) = (y', m', d')" and ok: "year_ok y" "year_ok y'"
  shows "days_from_civil y' m' d' = days_from_civil y m d + 1"
proof -
  have v': "valid_date (y', m', d')" using next_day_valid[OF v] n by simp
  note dfc = days_from_civil_valid[OF v ok(1)] days_from_civil_valid[OF v' ok(2)]
  consider "d < days_in m y" | "d = days_in m y" "m = 12" | "d = days_in m y" "m < 12"
    using v by (cases "d < days_in m y"; cases "m < 12") (simp_all add: valid_date_def)
  then show ?thesis
  proof cases
    case 1
    then show ?thesis using n unfolding dfc by (auto simp: next_day_def)
  next
    case 2
    then show ?thesis using n unfolding dfc by (auto simp: next_day_def days_in_def)
  next
    case 3
    have e: "y' = y" "m' = m + 1" "d' = 1" using n 3 by (auto simp: next_day_def)
    have "m \<in> {1, 2, 3, 4, 5, 6, 7, 8, 9, 10, 11, 12}" using month_cases[of m] v by (simp add: valid_date_def)
    then show ?thesis unfolding dfc unfolding e using 3 year_days_step[of y]
      by (elim insertE emptyE) (simp_all add: days_in_def)
  qed
qed

lemma next_day_year: "fst x \<le> fst (next_day x)"
  by (auto simp: next_day_def split: prod.splits)

lemma iterate_year: "fst x \<le> fst ((next_day ^^ n) x)"
  by (induction n) (auto intro: order_trans next_day_year)

lemma iterate_next_day:
  assumes "valid_date (y, m, d)" "year_ok y" "(next_day ^^ n) (y, m, d) = (y', m', d')" "year_ok y'"
  shows "valid_date (y', m', d') \<and> days_from_civil y' m' d' = days_from_civil y m d + int n"
  using assms(3,4)
proof (induction n arbitrary: y' m' d')
  case 0
  then show ?case using assms(1) by simp
next
  case (Suc n)
  obtain a b c where x: "(next_day ^^ n) (y, m, d) = (a, b, c)" by (rule prod_cases3)
  have n: "next_day (a, b, c) = (y', m', d')" using Suc.prems(1) x by simp
  have "y \<le> a" "a \<le> y'" using iterate_year[of "(y, m, d)" n] next_day_year[of "(a, b, c)"] x n by simp_all
  then have a: "year_ok a" using assms(2) Suc.prems(2) by linarith
  note IH = Suc.IH[OF x a]
  show ?case
    using IH next_day_valid[of "(a, b, c)"] days_from_civil_next[of a b c y' m' d', OF _ n a Suc.prems(2)] n by simp
qed

text \<open>Stepping reaches every later date.\<close>

definition reaches :: "int \<times> int \<times> int \<Rightarrow> int \<times> int \<times> int \<Rightarrow> bool" where
  "reaches x z \<longleftrightarrow> (\<exists>n. (next_day ^^ n) x = z)"

lemma reaches_refl: "reaches x x"
  unfolding reaches_def by (rule exI[of _ 0]) simp

lemma reaches_trans: "reaches x z \<Longrightarrow> reaches z u \<Longrightarrow> reaches x u"
  unfolding reaches_def by (metis comp_apply funpow_add)

lemma reaches_step: "next_day x = z \<Longrightarrow> reaches x z"
  unfolding reaches_def by (rule exI[of _ 1]) simp

lemma reaches_in_month: "d \<le> d' \<Longrightarrow> d' \<le> days_in m y \<Longrightarrow> reaches (y, m, d) (y, m, d')"
proof (induction d' rule: int_ge_induct)
  case (step i)
  then have "reaches (y, m, i) (y, m, i + 1)" by (intro reaches_step) (simp add: next_day_def)
  then show ?case using step reaches_trans by simp
qed (rule reaches_refl)

lemma reaches_month_end: "d \<le> days_in m y \<Longrightarrow> reaches (y, m, d) (if m < 12 then (y, m + 1, 1) else (y + 1, 1, 1))"
  by (rule reaches_trans[OF reaches_in_month[OF _ order_refl]]) (auto simp: next_day_def intro: reaches_step)

lemma reaches_month: "m \<le> m' \<Longrightarrow> 1 \<le> m \<Longrightarrow> m' \<le> 12 \<Longrightarrow> reaches (y, m, 1) (y, m', 1)"
proof (induction m' rule: int_ge_induct)
  case (step i)
  then have "reaches (y, i, 1) (y, i + 1, 1)" using reaches_month_end[of 1 i y] days_in_pos[of i y] by simp
  then show ?case using step reaches_trans by simp
qed (rule reaches_refl)

lemma reaches_date: "valid_date (y, m, d) \<Longrightarrow> reaches (y, 1, 1) (y, m, d)"
  using reaches_trans[OF reaches_month[of 1 m y] reaches_in_month[of 1 d m y]] by (simp add: valid_date_def)

lemma reaches_next_year: "valid_date (y, m, d) \<Longrightarrow> reaches (y, m, d) (y + 1, 1, 1)"
proof -
  assume v: "valid_date (y, m, d)"
  then have e: "reaches (y, m, d) (if m < 12 then (y, m + 1, 1) else (y + 1, 1, 1))"
    by (intro reaches_month_end) (simp add: valid_date_def)
  show ?thesis
  proof (cases "m < 12")
    case True
    then have "reaches (y, m + 1, 1) (y, 12, 1)" using v by (intro reaches_month) (simp_all add: valid_date_def)
    moreover have "reaches (y, 12, 1) (y + 1, 1, 1)" using reaches_month_end[of 1 12 y] by (simp add: days_in_def)
    ultimately show ?thesis using e True reaches_trans by simp
  qed (use e in simp)
qed

lemma valid_new_year: "valid_date (y, 1, 1)"
  by (simp add: valid_date_def days_in_def)

lemma reaches_year: "y \<le> y' \<Longrightarrow> reaches (y, 1, 1) (y', 1, 1)"
proof (induction y' rule: int_ge_induct)
  case (step i)
  then show ?case using reaches_trans reaches_next_year[OF valid_new_year] by blast
qed (rule reaches_refl)

lemma reaches_later_year: "valid_date (y, m, d) \<Longrightarrow> y < y' \<Longrightarrow> reaches (y, m, d) (y', 1, 1)"
  using reaches_trans[OF reaches_next_year reaches_year[of "y + 1" y']] by simp

lemma reaches_from_year: "valid_date (y', m, d) \<Longrightarrow> y \<le> y' \<Longrightarrow> reaches (y, 1, 1) (y', m, d)"
  using reaches_trans[OF reaches_year reaches_date] by simp

lemma epoch_zero: "days_from_civil 1970 1 1 = 0"
  by (simp add: days_from_civil_eq)

section \<open>RFC 3339\<close>

text \<open>The year has four digits and the other fields two, so that the \<open>i64\<close> arithmetic of the parser stays in
  range (lemma \<open>go_parse_rfc3339_range\<close>) and is written on integers.\<close>

definition RFC3339_LAYOUT :: rstr where
  "RFC3339_LAYOUT = lit ''2006-01-02T15:04:05Z07:00''"

text \<open>The two error closures of \<open>go_parse_rfc3339\<close>.\<close>

definition cannot :: "rstr \<Rightarrow> rstr \<Rightarrow> rstr \<Rightarrow> rstr" where
  "cannot avalue layout_elem value_elem =
    lit ''parsing time '' @ go_time_quote avalue @ lit '' as '' @ go_time_quote RFC3339_LAYOUT
    @ lit '': cannot parse '' @ go_time_quote value_elem @ lit '' as '' @ go_time_quote layout_elem"

definition range_err :: "rstr \<Rightarrow> rstr \<Rightarrow> rstr" where
  "range_err avalue u = lit ''parsing time '' @ go_time_quote avalue @ lit '': '' @ u @ lit '' out of range''"

definition is_ascii_digit :: "byte \<Rightarrow> bool" where
  "is_ascii_digit b = (0x30 \<le> b \<and> b \<le> 0x39)"

definition digit :: "byte list \<Rightarrow> nat \<Rightarrow> bool" where
  "digit s i = (i < length s \<and> is_ascii_digit (s ! i))"

definition digit_val :: "byte \<Rightarrow> int" where
  "digit_val b = uint (b - 0x30)"

text \<open>One digit, or two (\<open>fixed\<close> forces two). The product is taken in \<open>u8\<close>, as in the source.\<close>

definition getnum :: "byte list \<Rightarrow> bool \<Rightarrow> (int \<times> byte list) option" where
  "getnum s fixed =
    (if \<not> digit s 0 then None
     else if \<not> digit s 1 then (if fixed then None else Some (digit_val (s ! 0), drop 1 s))
     else Some (uint ((s ! 0 - 0x30) * 10 + (s ! 1 - 0x30)), drop 2 s))"

text \<open>The repeated steps of the parser: a literal of the layout, and a one- or two-digit element.\<close>

definition expect_lit :: "rstr \<Rightarrow> byte \<Rightarrow> byte list \<Rightarrow> (byte list, rstr) result" where
  "expect_lit avalue c v = (if v = [] \<or> v ! 0 \<noteq> c then Inl (cannot avalue [c] v) else Inr (drop 1 v))"

definition expect_num :: "rstr \<Rightarrow> rstr \<Rightarrow> bool \<Rightarrow> byte list \<Rightarrow> (int \<times> byte list, rstr) result" where
  "expect_num avalue elem fixed v =
    (case getnum v fixed of Some (n, rest) \<Rightarrow> Inr (n, rest) | None \<Rightarrow> Inl (cannot avalue elem v))"

definition check :: "bool \<Rightarrow> rstr \<Rightarrow> (unit, rstr) result" where
  "check bad e = (if bad then Inl e else Inr ())"

definition parse_year :: "rstr \<Rightarrow> byte list \<Rightarrow> (int \<times> byte list, rstr) result" where
  "parse_year avalue v =
    (if length v < 4 \<or> \<not> digit v 0 then Inl (cannot avalue (lit ''2006'') v)
     else if \<not> list_all is_ascii_digit (take 4 v) then Inl (cannot avalue (lit ''2006'') v)
     else Inr (fold (\<lambda>b acc. acc * 10 + digit_val b) (take 4 v) 0, drop 4 v))"

text \<open>Fractional seconds: a dot or comma and at least one digit are consumed.\<close>

definition skip_fraction :: "byte list \<Rightarrow> byte list" where
  "skip_fraction v =
    (if 2 \<le> length v \<and> (v ! 0 = 0x2e \<or> v ! 0 = 0x2c) \<and> digit v 1
     then dropWhile is_ascii_digit (drop 2 v)
     else v)"

definition parse_zone :: "rstr \<Rightarrow> byte list \<Rightarrow> (int \<times> byte list, rstr) result" where
  "parse_zone avalue v =
    (if v \<noteq> [] \<and> v ! 0 = 0x5a then Inr (0, drop 1 v)
     else if length v < 6 \<or> v ! 3 \<noteq> 0x3a then Inl (cannot avalue (lit ''Z07:00'') v)
     else case getnum (slice 1 3 v) True of
       None \<Rightarrow> Inl (cannot avalue (lit ''Z07:00'') v)
     | Some (hr, _) \<Rightarrow>
       (case getnum (slice 4 6 v) True of
         None \<Rightarrow> Inl (cannot avalue (lit ''Z07:00'') v)
       | Some (mm, _) \<Rightarrow>
          if hr > 24 then Inl (range_err avalue (lit ''time zone offset hour''))
          else if mm > 60 then Inl (range_err avalue (lit ''time zone offset minute''))
          else if v ! 0 = 0x2b then Inr ((hr * 60 + mm) * 60, drop 6 v)
          else if v ! 0 = 0x2d then Inr (- ((hr * 60 + mm) * 60), drop 6 v)
          else Inl (cannot avalue (lit ''Z07:00'') v)))"

definition go_parse_rfc3339 :: "rstr \<Rightarrow> (int, rstr) result" where
  "go_parse_rfc3339 avalue =
    rbind (parse_year avalue avalue) (\<lambda>(year, v).
    rbind (expect_lit avalue 0x2d v) (\<lambda>v.
    rbind (expect_num avalue (lit ''01'') True v) (\<lambda>(month, v).
    rbind (check (\<not> (1 \<le> month \<and> month \<le> 12)) (range_err avalue (lit ''month''))) (\<lambda>_.
    rbind (expect_lit avalue 0x2d v) (\<lambda>v.
    rbind (expect_num avalue (lit ''02'') True v) (\<lambda>(day, v).
    rbind (expect_lit avalue 0x54 v) (\<lambda>v.
    rbind (expect_num avalue (lit ''15'') False v) (\<lambda>(hour, v).
    rbind (check (hour \<ge> 24) (range_err avalue (lit ''hour''))) (\<lambda>_.
    rbind (expect_lit avalue 0x3a v) (\<lambda>v.
    rbind (expect_num avalue (lit ''04'') True v) (\<lambda>(mins, v).
    rbind (check (mins \<ge> 60) (range_err avalue (lit ''minute''))) (\<lambda>_.
    rbind (expect_lit avalue 0x3a v) (\<lambda>v.
    rbind (expect_num avalue (lit ''05'') True v) (\<lambda>(sec, v).
    rbind (check (sec \<ge> 60) (range_err avalue (lit ''second''))) (\<lambda>_.
    rbind (parse_zone avalue (skip_fraction v)) (\<lambda>(offset_secs, v).
    rbind (check (v \<noteq> []) (lit ''parsing time '' @ go_time_quote avalue @ lit '': extra text: '' @ go_time_quote v)) (\<lambda>_.
    rbind (check (day < 1 \<or> day > days_in month year)
             (lit ''parsing time '' @ go_time_quote avalue @ lit '': day out of range'')) (\<lambda>_.
    Inr (days_from_civil year month day * 86400 + hour * 3600 + mins * 60 + sec - offset_secs)))))))))))))))))))"

subsection \<open>Decimal digits\<close>

definition digit_char :: "nat \<Rightarrow> byte" where
  "digit_char n = 0x30 + of_nat n"

lemma unat_digit_char: "n < 10 \<Longrightarrow> unat (digit_char n) = 48 + n"
  by (simp add: digit_char_def unat_word_ariths unat_of_nat)

lemma digit_char_facts [simp]:
  assumes "n < 10"
  shows "is_ascii_digit (digit_char n)" "digit_val (digit_char n) = int n" "digit_char n - 0x30 = of_nat n"
proof -
  show "is_ascii_digit (digit_char n)"
    using assms by (simp add: is_ascii_digit_def word_le_nat_alt unat_digit_char)
  show d: "digit_char n - 0x30 = of_nat n" by (simp add: digit_char_def)
  show "digit_val (digit_char n) = int n"
    using assms unfolding digit_val_def d by (simp add: uint_nat unat_of_nat)
qed

text \<open>The two- and four-digit decimal fields of a canonical time.\<close>

definition two :: "nat \<Rightarrow> rstr" where
  "two n = [digit_char (n div 10), digit_char (n mod 10)]"

definition four :: "nat \<Rightarrow> rstr" where
  "four n = two (n div 100) @ two (n mod 100)"

lemma getnum_two: "n < 100 \<Longrightarrow> getnum (two n @ r) fixed = Some (int n, r)"
proof -
  assume n: "n < 100"
  have "(of_nat (n div 10) * 10 + of_nat (n mod 10) :: byte) = of_nat n"
    by (metis (no_types, lifting) div_mult_mod_eq of_nat_add of_nat_mult of_nat_numeral)
  moreover have "uint (of_nat n :: byte) = int n" using n by (simp add: uint_nat unat_of_nat)
  ultimately show ?thesis using n
    by (simp add: getnum_def two_def digit_def)
qed

lemma expect_num_two: "n < 100 \<Longrightarrow> expect_num a e f (two n @ r) = Inr (int n, r)"
  by (simp add: expect_num_def getnum_two)

lemma expect_lit_Cons: "expect_lit a c (c # r) = Inr r"
  by (simp add: expect_lit_def)

lemma parse_year_four:
  assumes "n < 10000"
  shows "parse_year a (four n @ r) = Inr (int n, r)"
proof -
  define p q where "p = n div 100" and "q = n mod 100"
  have b: "p div 10 < 10" "p mod 10 < 10" "q div 10 < 10" "q mod 10 < 10"
    using assms by (auto simp: p_def q_def)
  have "n = ((p div 10 * 10 + p mod 10) * 10 + q div 10) * 10 + q mod 10"
    using div_mult_mod_eq[of n 100] div_mult_mod_eq[of p 10] div_mult_mod_eq[of q 10]
    unfolding p_def[symmetric] q_def[symmetric] by presburger
  then have "int n = ((int (p div 10) * 10 + int (p mod 10)) * 10 + int (q div 10)) * 10 + int (q mod 10)"
    by (metis (no_types, lifting) of_nat_add of_nat_mult of_nat_numeral)
  moreover have "four n = [digit_char (p div 10), digit_char (p mod 10), digit_char (q div 10), digit_char (q mod 10)]"
    by (simp add: four_def two_def p_def q_def)
  ultimately show ?thesis using b
    by (simp only:) (simp add: parse_year_def digit_def)
qed

text \<open>The canonical text of an instant in UTC.\<close>

definition rfc3339 :: "nat \<Rightarrow> nat \<Rightarrow> nat \<Rightarrow> nat \<Rightarrow> nat \<Rightarrow> nat \<Rightarrow> rstr" where
  "rfc3339 y m d h mi s =
    four y @ [0x2d] @ two m @ [0x2d] @ two d @ [0x54] @ two h @ [0x3a] @ two mi @ [0x3a] @ two s @ [0x5a]"

lemma check_False [simp]: "check False e = Inr ()"
  by (simp add: check_def)

lemma check_eq_Inr [simp]: "check b e = Inr u \<longleftrightarrow> \<not> b"
  by (simp add: check_def)

lemma parse_zone_Z: "parse_zone a (skip_fraction [0x5a]) = Inr (0, [])"
  by (simp add: skip_fraction_def parse_zone_def)

text \<open>Go's RFC 3339 parser, on the canonical UTC text of every valid date between the years 0 and 9999
  and every time of day, returns exactly the Unix seconds of that instant: the calendar day count
  times 86400 plus the seconds of the day.\<close>

theorem go_parse_rfc3339_canonical:
  assumes "valid_date (int y, int m, int d)" "y < 10000" "h < 24" "mi < 60" "s < 60"
  shows "go_parse_rfc3339 (rfc3339 y m d h mi s) =
    Inr (days_from_civil (int y) (int m) (int d) * 86400 + int h * 3600 + int mi * 60 + int s)"
proof -
  have m: "1 \<le> m" "m \<le> 12" and d: "1 \<le> d" "int d \<le> days_in (int m) (int y)" "d < 100"
    using assms(1) days_in_le[of "int m" "int y"] by (auto simp: valid_date_def)
  define a where "a = rfc3339 y m d h mi s"
  have "go_parse_rfc3339 a =
    Inr (days_from_civil (int y) (int m) (int d) * 86400 + int h * 3600 + int mi * 60 + int s)"
    unfolding go_parse_rfc3339_def
    apply (subst (2) a_def)
    unfolding rfc3339_def append.simps using assms m d
    by (simp add: parse_year_four expect_lit_Cons expect_num_two parse_zone_Z)
  then show ?thesis by (simp add: a_def)
qed

subsection \<open>The result fits an \<open>i64\<close>\<close>

lemma is_ascii_digit_range: "is_ascii_digit b \<Longrightarrow> unat (b - 0x30) < 10"
proof -
  assume "is_ascii_digit b"
  then have "48 \<le> unat b" "unat b \<le> 57" by (simp_all add: is_ascii_digit_def word_le_nat_alt)
  moreover from this have "unat (b - 0x30) = unat b - 48" by (simp add: unat_sub word_le_nat_alt)
  ultimately show ?thesis by simp
qed

lemma digit_val_range: "is_ascii_digit b \<Longrightarrow> 0 \<le> digit_val b \<and> digit_val b \<le> 9"
  using is_ascii_digit_range[of b] unfolding digit_val_def uint_nat by linarith

lemma getnum_range: "getnum s f = Some (n, r) \<Longrightarrow> 0 \<le> n \<and> n < 100"
proof -
  have two: "uint (x * 10 + y) < 100" if "unat x < 10" "unat y < 10" for x y :: byte
  proof -
    have "unat (x * 10 + y) = unat x * 10 + unat y"
      using that by (simp add: unat_word_ariths)
    then show ?thesis using that by (simp only: uint_nat)
  qed
  assume "getnum s f = Some (n, r)"
  then show ?thesis 
    using two[of "s ! 0 - 0x30" "s ! 1 - 0x30"] is_ascii_digit_range[of "s ! 0"]
      is_ascii_digit_range[of "s ! 1"] digit_val_range[of "s ! 0"]
    by (auto simp del: diff_numeral_special simp: getnum_def digit_def split: if_splits)
qed

lemma expect_num_range: "expect_num a e f v = Inr (n, r) \<Longrightarrow> 0 \<le> n \<and> n < 100"
  by (auto simp: expect_num_def dest: getnum_range split: option.splits)

lemma parse_year_range: "parse_year a v = Inr (n, r) \<Longrightarrow> 0 \<le> n \<and> n \<le> 9999"
proof -
  assume p: "parse_year a v = Inr (n, r)"
  then have v: "4 \<le> length v" "list_all is_ascii_digit (take 4 v)"
    and n: "n = fold (\<lambda>b acc. acc * 10 + digit_val b) (take 4 v) 0"
    by (auto simp: parse_year_def split: if_splits)
  obtain b0 b1 b2 b3 where t: "take 4 v = [b0, b1, b2, b3]"
    using v(1) by (auto simp: numeral_eq_Suc Suc_le_length_iff)
  show ?thesis
    using v(2) unfolding n t by (auto dest!: digit_val_range)
qed

lemma parse_zone_range: "parse_zone a v = Inr (z, r) \<Longrightarrow> \<bar>z\<bar> \<le> 90000"
  by (auto simp: parse_zone_def dest!: getnum_range split: if_splits option.splits)

lemma days_from_civil_range:
  assumes "0 \<le> y" "y \<le> 9999" "1 \<le> m" "m \<le> 12" "1 \<le> d" "d \<le> 31"
  shows "- 719528 \<le> days_from_civil y m d \<and> days_from_civil y m d \<le> 2932896"
proof -
  have mono: "year_days a \<le> year_days b" if "a \<le> b" for a b
  proof -
    have "a div 100 - b div 100 \<ge> a - b" "a div 4 \<le> b div 4" "a div 400 \<le> b div 400"
      using that by (simp_all add: zdiv_mono1)
    then show ?thesis using that by (simp add: year_days_def)
  qed
  have y: "year_days 9999 = 3652059" "year_days (- 1) = - 366" "year_days 0 = 0" "year_days 9998 = 3651694"
    by (simp_all add: year_days_def)
  have "year_days (- 1) \<le> year_days (y - 1)" "year_days (y - 1) \<le> year_days 9998"
    "year_days 0 \<le> year_days y" "year_days y \<le> year_days 9999"
    using assms by (auto intro: mono)
  moreover have "m \<in> {1, 2, 3, 4, 5, 6, 7, 8, 9, 10, 11, 12}" using month_cases[of m] assms by simp
  ultimately show ?thesis using assms unfolding y
    by (elim insertE emptyE) (simp_all add: days_from_civil_eq[folded year_days_def, unfolded Let_def])
qed

lemma go_parse_rfc3339_range:
  assumes "go_parse_rfc3339 v = Inr t"
  shows "- (2 ^ 63) \<le> t \<and> t < 2 ^ 63"
proof -
  obtain y m d h mi s z where
    t: "t = days_from_civil y m d * 86400 + h * 3600 + mi * 60 + s - z"
    and r: "0 \<le> y \<and> y \<le> 9999" "1 \<le> m" "m \<le> 12" "1 \<le> d" "d \<le> days_in m y"
      "0 \<le> h \<and> h < 100" "0 \<le> mi \<and> mi < 100" "0 \<le> s \<and> s < 100" "\<bar>z\<bar> \<le> 90000"
    using assms unfolding go_parse_rfc3339_def
    by (auto simp: not_less dest!: parse_year_range expect_num_range parse_zone_range)
  show ?thesis
    using days_from_civil_range[of y m d] days_in_le[of m y] r unfolding t by (simp only: abs_le_iff) (simp; linarith)
qed

text \<open>The hypotheses hold at the leap second free end of February 2024.\<close>

theorem go_parse_rfc3339_canonical_witness:
  "valid_date (2024, 2, 29) \<and> go_parse_rfc3339 (rfc3339 2024 2 29 23 59 59) = Inr 1709251199"
proof -
  have v: "valid_date (int 2024, int 2, int 29)" by (simp add: valid_date_def days_in_def is_leap_mod)
  have "days_from_civil 2024 2 29 = 19782" by (simp add: days_from_civil_eq)
  then show ?thesis using go_parse_rfc3339_canonical[OF v, of 23 59 59] v by simp
qed

text \<open>C32: \<open>days_from_civil\<close>, computed in \<open>i64\<close>, is the signed number of calendar days between
  1970-01-01 and the date, for every date of every year up to \<open>2 ^ 54\<close> before or after year 0: from 1970 on,
  that many steps of the reference calendar (which only knows the month lengths and the leap-year rule) lead
  from 1970-01-01 to the date; before 1970, the count is negative and that many steps lead from the date to
  1970-01-01.\<close>

theorem days_from_civil_counts_days:
  assumes "valid_date (y, m, d)" "\<bar>y\<bar> \<le> 2 ^ 54"
  shows "if 1970 \<le> y
    then \<exists>n. days_from_civil y m d = int n \<and> (next_day ^^ n) (1970, 1, 1) = (y, m, d)
    else \<exists>n. days_from_civil y m d = - int n \<and> (next_day ^^ n) (y, m, d) = (1970, 1, 1)"
proof (cases "1970 \<le> y")
  case True
  obtain n where n: "(next_day ^^ n) (1970, 1, 1) = (y, m, d)"
    using reaches_from_year[OF assms(1) True] by (auto simp: reaches_def)
  have "days_from_civil y m d = int n"
    using iterate_next_day[OF valid_new_year _ n assms(2)] by (simp add: epoch_zero)
  then show ?thesis using True n by auto
next
  case False
  obtain n where n: "(next_day ^^ n) (y, m, d) = (1970, 1, 1)"
    using reaches_later_year[OF assms(1), of 1970] False by (auto simp: reaches_def)
  have "days_from_civil y m d = - int n"
    using iterate_next_day[OF assms n] by (simp add: epoch_zero)
  then show ?thesis using False n by auto
qed

theorem days_from_civil_counts_days_witness:
  "\<exists>n. days_from_civil (-400) 2 29 = - int n \<and> (next_day ^^ n) (-400, 2, 29) = (1970, 1, 1)"
  using days_from_civil_counts_days[of "-400" 2 29] by (simp add: valid_date_def days_in_def is_leap_mod)

end
