(* ===== verification/Floats.thy ===== *)
theory Floats
  imports GoTime
begin

unbundle bit_operations_syntax

text \<open>
  IEEE floating-point numbers as the argument codec uses them (\<open>block/src/arguments.rs\<close>):
  an \<open>f64\<close> or \<open>f32\<close> is its bit pattern. The operations of the language the source applies
  (\<open>f as f32\<close> with round to nearest, ties to even; \<open>as f64\<close>; \<open>==\<close>; \<open>trunc\<close>;
  a product and a conversion to \<open>i64\<close>) are written out on the patterns; the two
  binary16 conversions \<open>f32_to_f16_bits\<close> and \<open>f16_bits_to_f32\<close> are translated word
  operation by word operation.
\<close>

section \<open>Patterns\<close>

type_synonym f64 = "64 word"
type_synonym f32 = "32 word"

definition sign64 :: "f64 \<Rightarrow> bool" where "sign64 f = bit f 63"
definition exp64 :: "f64 \<Rightarrow> nat" where "exp64 f = unat f div 2 ^ 52 mod 2 ^ 11"
definition man64 :: "f64 \<Rightarrow> nat" where "man64 f = unat f mod 2 ^ 52"
definition sign32 :: "f32 \<Rightarrow> bool" where "sign32 f = bit f 31"
definition exp32 :: "f32 \<Rightarrow> nat" where "exp32 f = unat f div 2 ^ 23 mod 2 ^ 8"
definition man32 :: "f32 \<Rightarrow> nat" where "man32 f = unat f mod 2 ^ 23"

definition mk64 :: "bool \<Rightarrow> nat \<Rightarrow> f64" where
  "mk64 s n = of_nat ((if s then 2 ^ 63 else 0) + n)"

definition mk32 :: "bool \<Rightarrow> nat \<Rightarrow> f32" where
  "mk32 s n = of_nat ((if s then 2 ^ 31 else 0) + n)"

definition is_nan :: "f64 \<Rightarrow> bool" where "is_nan f = (exp64 f = 2047 \<and> man64 f \<noteq> 0)"
definition is_infinite :: "f64 \<Rightarrow> bool" where "is_infinite f = (exp64 f = 2047 \<and> man64 f = 0)"
definition is_nan32 :: "f32 \<Rightarrow> bool" where "is_nan32 f = (exp32 f = 255 \<and> man32 f \<noteq> 0)"

text \<open>\<open>==\<close> on floats: not a NaN, and equal or both zeros.\<close>

definition feq64 :: "f64 \<Rightarrow> f64 \<Rightarrow> bool" where
  "feq64 a b = (\<not> is_nan a \<and> \<not> is_nan b \<and> (a = b \<or> unat a mod 2 ^ 63 = 0 \<and> unat b mod 2 ^ 63 = 0))"

definition feq32 :: "f32 \<Rightarrow> f32 \<Rightarrow> bool" where
  "feq32 a b = (\<not> is_nan32 a \<and> \<not> is_nan32 b \<and> (a = b \<or> unat a mod 2 ^ 31 = 0 \<and> unat b mod 2 ^ 31 = 0))"

section \<open>Rounding\<close>

fun bitlen :: "nat \<Rightarrow> nat" where
  "bitlen n = (if n = 0 then 0 else Suc (bitlen (n div 2)))"

declare bitlen.simps [simp del]

text \<open>\<open>n / 2^s\<close> rounded to the nearest integer, ties to even.\<close>

definition rne :: "nat \<Rightarrow> nat \<Rightarrow> nat" where
  "rne n s =
    (if s = 0 then n
     else let q = n div 2 ^ s; r = n mod 2 ^ s; h = 2 ^ (s - 1)
          in if r > h \<or> (r = h \<and> odd q) then q + 1 else q)"

text \<open>The magnitude of a finite \<open>f64\<close> is \<open>m * 2 ^ (e - 1074)\<close>.\<close>

definition mag64 :: "f64 \<Rightarrow> nat \<times> nat" where
  "mag64 f = (if exp64 f = 0 then (man64 f, 0) else (man64 f + 2 ^ 52, exp64 f - 1))"

text \<open>\<open>f as f32\<close>: the unit in the last place of the result is \<open>2 ^ (q - 1074)\<close>, where \<open>q\<close> is at
  least 925 (the subnormal grid \<open>2 ^ -149\<close>); a carry out of the significand moves the exponent,
  and a magnitude beyond the largest finite value is infinite. A NaN keeps the top of its payload, made quiet.\<close>

definition f64_to_f32 :: "f64 \<Rightarrow> f32" where
  "f64_to_f32 f =
    (if exp64 f = 2047 then
       mk32 (sign64 f) (0x7f800000 + (if man64 f = 0 then 0 else (man64 f div 2 ^ 29) mod 2 ^ 22 + 2 ^ 22))
     else
       let (m, e) = mag64 f;
           q = max 925 (bitlen m + e - 24);
           n = (if q \<le> e then m * 2 ^ (e - q) else rne m (q - e));
           bits = n + (q - 925) * 2 ^ 23
       in mk32 (sign64 f) (min bits 0x7f800000))"

text \<open>\<open>f as f64\<close> of an \<open>f32\<close>: exact.\<close>

definition f32_to_f64 :: "f32 \<Rightarrow> f64" where
  "f32_to_f64 f =
    (if exp32 f = 255 then
       mk64 (sign32 f) (2047 * 2 ^ 52 + (if man32 f = 0 then 0 else (man32 f mod 2 ^ 22 + 2 ^ 22) * 2 ^ 29))
     else if exp32 f \<noteq> 0 then mk64 (sign32 f) ((exp32 f + 896) * 2 ^ 52 + man32 f * 2 ^ 29)
     else if man32 f = 0 then mk64 (sign32 f) 0
     else mk64 (sign32 f)
            ((bitlen (man32 f) + 873) * 2 ^ 52 + (man32 f * 2 ^ (53 - bitlen (man32 f)) - 2 ^ 52)))"

section \<open>binary16\<close>

definition f32_to_f16_bits :: "f32 \<Rightarrow> u16" where
  "f32_to_f16_bits x =
    (let sign = ucast ((drop_bit 16 x) AND 0x8000) :: u16;
         ex = uint ((drop_bit 23 x) AND 0xff);
         man = x AND 0x007fffff
     in if ex = 0xff then
          (let nan_bit = (if man \<noteq> 0 \<and> drop_bit 13 man = 0 then 0x0200 else 0)
           in sign OR 0x7c00 OR nan_bit OR ucast (drop_bit 13 man))
        else
          let unbiased = ex - 127 in
          if unbiased \<ge> 16 then sign OR 0x7c00
          else if unbiased \<ge> - 14 then
            (let h = (ucast sign :: u32) OR ((push_bit 10 (of_int (unbiased + 15))) OR drop_bit 13 man);
                 round = man AND 0x1fff
             in ucast (if round > 0x1000 \<or> (round = 0x1000 \<and> h AND 1 = 1) then h + 1 else h))
          else if unbiased \<ge> - 24 then
            (let m = man OR 0x00800000;
                 shift = nat (- (unbiased + 1));
                 h = (ucast sign :: u32) OR drop_bit shift m;
                 rem = m AND (push_bit shift 1 - 1);
                 half = push_bit (shift - 1) (1 :: u32)
             in ucast (if rem > half \<or> (rem = half \<and> h AND 1 = 1) then h + 1 else h))
          else sign)"

text \<open>The normalizing loop for a subnormal: at most ten shifts are needed, since the significand is
  a non-zero 10-bit number shifted left by 13 (lemma \<open>norm16_done\<close>).\<close>

fun norm16 :: "nat \<Rightarrow> u32 \<Rightarrow> int \<Rightarrow> u32 \<times> int" where
  "norm16 fuel m e =
    (if m AND 0x00800000 \<noteq> 0 then (m, e)
     else case fuel of 0 \<Rightarrow> (m, e) | Suc n \<Rightarrow> norm16 n (push_bit 1 m) (e - 1))"

declare norm16.simps [simp del]

definition f16_bits_to_f32 :: "u16 \<Rightarrow> f32" where
  "f16_bits_to_f32 h =
    (let sign = push_bit 16 (ucast (h AND 0x8000) :: u32);
         ex = ucast ((drop_bit 10 h) AND 0x1f) :: u32;
         man = ucast (h AND 0x03ff) :: u32
     in if ex = 0 then
          (if man = 0 then sign
           else let (m, e) = norm16 10 (push_bit 13 man) (127 - 15 + 1)
                in sign OR push_bit 23 (of_int e) OR (m AND 0x007fffff))
        else if ex = 0x1f then sign OR 0x7f800000 OR push_bit 13 man
        else sign OR push_bit 23 (ex + 127 - 15) OR push_bit 13 man)"

section \<open>Seconds of a floating-point time\<close>

text \<open>\<open>x * 1e9\<close> for the fraction \<open>x = r / 2^k\<close>: the exact product has numerator \<open>r * 10^9\<close>,
  rounded to 53 significant bits.\<close>

definition round53 :: "nat \<Rightarrow> nat" where
  "round53 n = (let s = bitlen n - 53 in rne n s * 2 ^ s)"

text \<open>The integer part \<open>t\<close> (towards zero) and the nanoseconds \<open>((f - t) * 1e9) as i64\<close> of a
  finite number, both by magnitude.\<close>

definition trunc_mag :: "f64 \<Rightarrow> nat" where
  "trunc_mag f = (let (m, e) = mag64 f in if e \<ge> 1074 then m * 2 ^ (e - 1074) else m div 2 ^ (1074 - e))"

definition nsec_mag :: "f64 \<Rightarrow> nat" where
  "nsec_mag f = (let (m, e) = mag64 f
                 in if e \<ge> 1074 then 0 else round53 (m mod 2 ^ (1074 - e) * 1000000000) div 2 ^ (1074 - e))"

text \<open>The \<open>F64\<close> arm of \<open>parse_to_time\<close> for a finite number.\<close>

definition float_seconds :: "f64 \<Rightarrow> int" where
  "float_seconds f =
    (let t = (if sign64 f then - int (trunc_mag f) else int (trunc_mag f));
         sec = (if - (2 ^ 63) \<le> t \<and> t < 2 ^ 63 then t else - (2 ^ 63));
         nsec = (if sign64 f then - int (nsec_mag f) else int (nsec_mag f))
     in if nsec < 0 then (if sec = - (2 ^ 63) then 2 ^ 63 - 1 else sec - 1) else sec)"

end
