(* ===== verification/Cbor.thy ===== *)
theory Cbor
  imports Floats
begin

text \<open>
  The CBOR decoder of the RPC arguments (\<open>block/src/arguments.rs\<close>, the port of
  fxamacker/cbor v2). A cursor \<open>(d, off)\<close> of the source is the list of the bytes
  from \<open>off\<close> on. Three outcomes end a function early: an error text (\<open>Err\<close>), a
  panic of the source (an index or a slice out of range, a failed \<open>expect\<close>), and the
  exhaustion of the recursion counter of the model (\<open>NoFuel\<close>). A parser of the second phase
  that reports an error after consuming its item returns it beside the rest of the input, so that a
  caller can continue behind it, as the source does.

  First the well-formedness pass (\<open>Validator\<close>), then the parser (\<open>Parser\<close>) that trusts it. The
  theorems connect the two through a grammar of well-formed items: what the validator accepts
  is an item followed by the rest, and on an item every function of the parser consumes exactly
  that item, so that neither a panic nor the end of the counter is reachable from the entry
  point, on any input.
\<close>

datatype stop = Err rstr | CPanic | NoFuel

section \<open>Heads\<close>

definition major :: "byte \<Rightarrow> nat" where "major b = unat (drop_bit 5 b)"
definition info :: "byte \<Rightarrow> nat" where "info b = unat (b AND 0x1f)"

definition major_name :: "nat \<Rightarrow> rstr" where
  "major_name m = lit (if m = 0 then ''positive integer'' else if m = 1 then ''negative integer''
     else if m = 2 then ''byte string'' else if m = 3 then ''UTF-8 text string''
     else if m = 4 then ''array'' else if m = 5 then ''map'' else if m = 6 then ''tag'' else ''primitives'')"

text \<open>The number of argument bytes behind the initial byte: the arms 24 to 27 of both \<open>match ai\<close>.\<close>

definition arg_size :: "nat \<Rightarrow> nat" where
  "arg_size ai = (if ai = 24 then 1 else if ai = 25 then 2 else if ai = 26 then 4 else if ai = 27 then 8 else 0)"

definition eof :: rstr where "eof = lit ''unexpected EOF''"
definition bad_info :: "nat \<Rightarrow> nat \<Rightarrow> rstr" where
  "bad_info ai t = lit ''cbor: invalid additional information '' @ dec_str ai @ lit '' for type '' @ major_name t"
definition unexpected_break :: rstr where
  "unexpected_break = lit ''cbor: unexpected '' @ [0x22] @ lit ''break'' @ [0x22] @ lit '' code''"

definition valid_head :: "byte list \<Rightarrow> ((nat \<times> nat \<times> nat) \<times> byte list, rstr) result" where
  "valid_head bs = (case bs of
     [] \<Rightarrow> Inl eof
   | b # r \<Rightarrow>
      let t = major b; ai = info b; n = arg_size ai in
      if ai \<le> 23 then Inr ((t, ai, ai), r)
      else if ai \<le> 27 then
        (if length r < n then Inl eof
         else let val = be_val (take n r) in
           if ai = 24 \<and> t = 7 \<and> val < 32
           then Inl (lit ''cbor: invalid simple value '' @ dec_str val @ lit '' for type primitives'')
           else Inr ((t, ai, val), drop n r))
      else if ai = 31 then
        (if t = 0 \<or> t = 1 \<or> t = 6 then Inl (bad_info ai t)
         else if t = 7 then Inl unexpected_break
         else Inr ((t, ai, ai), r))
      else Inl (bad_info ai t))"

text \<open>\<open>get_head\<close> of the parser checks nothing: reading past the end is a panic.\<close>

definition get_head :: "byte list \<Rightarrow> ((nat \<times> nat \<times> nat) \<times> byte list, stop) result" where
  "get_head bs = (case bs of
     [] \<Rightarrow> Inl CPanic
   | b # r \<Rightarrow>
      let t = major b; ai = info b; n = arg_size ai in
      if n = 0 then Inr ((t, ai, ai), r)
      else if length r < n then Inl CPanic
      else Inr ((t, ai, be_val (take n r)), drop n r))"

lemma valid_head_length: "valid_head bs = Inr (h, r) \<Longrightarrow> length r < length bs"
  by (auto simp: valid_head_def Let_def split: list.splits if_splits)

lemma get_head_length: "get_head bs = Inr (h, r) \<Longrightarrow> length r < length bs"
  by (auto simp: get_head_def Let_def split: list.splits if_splits)

section \<open>Phase 1: well-formedness\<close>

definition MAX_NESTED_LEVELS :: nat where "MAX_NESTED_LEVELS = 32"
definition MAX_ARRAY_ELEMENTS :: nat where "MAX_ARRAY_ELEMENTS = 131072"
definition MAX_MAP_PAIRS :: nat where "MAX_MAP_PAIRS = 131072"
definition I64_MAX :: nat where "I64_MAX = 2 ^ 63 - 1"

definition too_deep :: rstr where
  "too_deep = lit ''cbor: exceeded max nested level '' @ dec_str MAX_NESTED_LEVELS"
definition too_many_elements :: rstr where
  "too_many_elements = lit ''cbor: exceeded max number of elements '' @ dec_str MAX_ARRAY_ELEMENTS @ lit '' for CBOR array''"
definition too_many_pairs :: rstr where
  "too_many_pairs = lit ''cbor: exceeded max number of key-value pairs '' @ dec_str MAX_MAP_PAIRS @ lit '' for CBOR map''"

text \<open>The loop over directly nested tag numbers.\<close>

function valid_tags :: "nat \<Rightarrow> byte list \<Rightarrow> (nat \<times> byte list, rstr) result" where
  "valid_tags depth bs =
    (if bs = [] then Inl eof
     else if major (bs ! 0) \<noteq> 6 then Inr (depth, bs)
     else case valid_head bs of
       Inl e \<Rightarrow> Inl e
     | Inr (_, r) \<Rightarrow> if depth + 1 > MAX_NESTED_LEVELS then Inl too_deep else valid_tags (depth + 1) r)"
  by pat_completeness auto
termination
  by (relation "measure (\<lambda>(_, bs). length bs)") (auto dest: valid_head_length)

declare valid_tags.simps [simp del]

text \<open>The three loops of the validator, over the method \<open>valid_internal\<close> they call. An
  indefinite loop consumes a byte at every turn, so that a counter of the bytes left
  plus one is enough (lemmas \<open>valid_internal_no_fuel\<close>).\<close>

type_synonym 'a vstep = "byte list \<Rightarrow> ('a \<times> byte list, stop) result"

fun valid_n :: "nat vstep \<Rightarrow> nat \<Rightarrow> nat \<Rightarrow> nat vstep" where
  "valid_n valid 0 max_depth bs = Inr (max_depth, bs)"
| "valid_n valid (Suc n) max_depth bs =
    rbind (valid bs) (\<lambda>(dpt, r). valid_n valid n (if dpt > max_depth then dpt else max_depth) r)"

fun valid_indefinite_string :: "nat \<Rightarrow> (nat \<Rightarrow> nat vstep) \<Rightarrow> nat \<Rightarrow> nat \<Rightarrow> nat vstep" where
  "valid_indefinite_string 0 valid t depth bs = Inl NoFuel"
| "valid_indefinite_string (Suc k) valid t depth bs =
    (if bs = [] then Inl (Err eof)
     else if bs ! 0 = 0xff then Inr (depth, drop 1 bs)
     else if major (bs ! 0) \<noteq> t then
       Inl (Err (lit ''cbor: wrong element type '' @ major_name (major (bs ! 0)) @ lit '' for indefinite-length '' @ major_name t))
     else if info (bs ! 0) = 31 then
       Inl (Err (lit ''cbor: indefinite-length '' @ major_name t @ lit '' chunk is not definite-length''))
     else rbind (valid depth bs) (\<lambda>(depth, r). valid_indefinite_string k valid t depth r))"

fun valid_indefinite_array_or_map :: "nat \<Rightarrow> nat vstep \<Rightarrow> nat \<Rightarrow> nat \<Rightarrow> nat \<Rightarrow> nat vstep" where
  "valid_indefinite_array_or_map 0 valid t max_depth i bs = Inl NoFuel"
| "valid_indefinite_array_or_map (Suc k) valid t max_depth i bs =
    (if bs = [] then Inl (Err eof)
     else if bs ! 0 = 0xff then
       (if t = 5 \<and> i mod 2 = 1 then Inl (Err unexpected_break) else Inr (max_depth, drop 1 bs))
     else rbind (valid bs) (\<lambda>(dpt, r).
       if t = 4 \<and> i + 1 > MAX_ARRAY_ELEMENTS then Inl (Err too_many_elements)
       else if t \<noteq> 4 \<and> (i + 1) mod 2 = 0 \<and> (i + 1) div 2 > MAX_MAP_PAIRS then Inl (Err too_many_pairs)
       else valid_indefinite_array_or_map k valid t (if dpt > max_depth then dpt else max_depth) (i + 1) r))"

definition len_overflow :: "nat \<Rightarrow> nat \<Rightarrow> string \<Rightarrow> rstr" where
  "len_overflow t val what = lit ''cbor: '' @ major_name t @ lit '' length '' @ dec_str val @ lit '' is too large, '' @ lit what"

text \<open>The match on the major type behind the head, over the recursive call.\<close>

definition valid_body :: "(nat \<Rightarrow> nat vstep) \<Rightarrow> nat \<Rightarrow> nat \<Rightarrow> nat \<Rightarrow> nat \<Rightarrow> nat vstep" where
  "valid_body valid depth t ai val r =
     (if t = 2 \<or> t = 3 then
        (if ai = 31 then valid_indefinite_string (Suc (length r)) valid t depth r
         else if val > I64_MAX then Inl (Err (len_overflow t val ''causing integer overflow''))
         else if length r < val then Inl (Err eof)
         else Inr (depth, drop val r))
      else if t = 4 \<or> t = 5 then
        (if depth + 1 > MAX_NESTED_LEVELS then Inl (Err too_deep)
         else if ai = 31 then
           valid_indefinite_array_or_map (Suc (length r)) (valid (depth + 1)) t (depth + 1) 0 r
         else if val > I64_MAX then Inl (Err (len_overflow t val ''it would cause integer overflow''))
         else if t = 4 \<and> val > MAX_ARRAY_ELEMENTS then Inl (Err too_many_elements)
         else if t \<noteq> 4 \<and> val > MAX_MAP_PAIRS then Inl (Err too_many_pairs)
         else valid_n (valid (depth + 1)) ((if t = 5 then 2 else 1) * val) (depth + 1) r)
      else if t = 6 then
        rbind (map_err Err (valid_tags depth r)) (\<lambda>(depth, r). valid depth r)
      else Inr (depth, r))"

primrec valid_internal :: "nat \<Rightarrow> nat \<Rightarrow> nat vstep" where
  "valid_internal 0 = (\<lambda>depth bs. Inl NoFuel)"
| "valid_internal (Suc f) = (\<lambda>depth bs.
    rbind (map_err Err (valid_head bs)) (\<lambda>((t, ai, val), r). valid_body (valid_internal f) depth t ai val r))"

section \<open>Phase 2: the parser\<close>

datatype cval = U64 u64 | I64 u64 | Big | F64 f64 | Bytes "byte list" | Text rstr | Bool | Nil
  | Arr | Map | Tag cval | Time u64

definition go_type_name :: "cval \<Rightarrow> rstr" where
  "go_type_name v = lit (case v of U64 _ \<Rightarrow> ''uint64'' | I64 _ \<Rightarrow> ''int64'' | Big \<Rightarrow> ''big.Int'' | F64 _ \<Rightarrow> ''float64''
     | Bytes _ \<Rightarrow> ''[]uint8'' | Text _ \<Rightarrow> ''string'' | Bool \<Rightarrow> ''bool'' | Nil \<Rightarrow> ''<nil>'' | Arr \<Rightarrow> ''[]interface {}''
     | Map \<Rightarrow> ''map[interface {}]interface {}'' | Tag _ \<Rightarrow> ''cbor.Tag'' | Time _ \<Rightarrow> ''time.Time'')"

fun go_hashable :: "cval \<Rightarrow> bool" where
  "go_hashable (Bytes _) = False"
| "go_hashable Arr = False"
| "go_hashable Map = False"
| "go_hashable Big = False"
| "go_hashable (Tag content) = go_hashable content"
| "go_hashable _ = True"

definition fill_err :: "rstr \<Rightarrow> rstr \<Rightarrow> rstr" where
  "fill_err cbor_type go_type = lit ''cbor: cannot unmarshal '' @ cbor_type @ lit '' into Go value of type '' @ go_type"

definition fill_err_msg :: "rstr \<Rightarrow> rstr \<Rightarrow> rstr \<Rightarrow> rstr" where
  "fill_err_msg cbor_type go_type msg = fill_err cbor_type go_type @ lit '' ('' @ msg @ lit '')''"

definition neg_big_str :: "nat \<Rightarrow> rstr" where
  "neg_big_str val = lit ''-'' @ dec_str (val + 1)"

definition valid_builtin_tag :: "nat \<Rightarrow> byte \<Rightarrow> (unit, rstr) result" where
  "valid_builtin_tag tag_num content_head =
    (let t = major content_head in
     if tag_num = 0 then
       (if t \<noteq> 3 then Inl (lit ''cbor: tag number 0 must be followed by text string, got '' @ major_name t) else Inr ())
     else if tag_num = 1 then
       (if t \<noteq> 0 \<and> t \<noteq> 1 \<and> \<not> (0xf9 \<le> content_head \<and> content_head \<le> 0xfb)
        then Inl (lit ''cbor: tag number 1 must be followed by integer or floating-point number, got '' @ major_name t) else Inr ())
     else if tag_num = 2 \<or> tag_num = 3 then
       (if t \<noteq> 2 then Inl (lit ''cbor: tag number 2 or 3 must be followed by byte string, got '' @ major_name t) else Inr ())
     else Inr ())"

definition next_major :: "byte list \<Rightarrow> (nat, stop) result" where
  "next_major bs = (case bs of [] \<Rightarrow> Inl CPanic | b # _ \<Rightarrow> Inr (major b))"

fun skip_n :: "(byte list \<Rightarrow> (byte list, stop) result) \<Rightarrow> nat \<Rightarrow> byte list \<Rightarrow> (byte list, stop) result" where
  "skip_n sk 0 bs = Inr bs"
| "skip_n sk (Suc n) bs = rbind (sk bs) (\<lambda>r. skip_n sk n r)"

fun skip_brk :: "nat \<Rightarrow> (byte list \<Rightarrow> (byte list, stop) result) \<Rightarrow> byte list \<Rightarrow> (byte list, stop) result" where
  "skip_brk 0 sk bs = Inl NoFuel"
| "skip_brk (Suc k) sk bs =
    (if bs = [] then Inl CPanic
     else if bs ! 0 = 0xff then Inr (drop 1 bs)
     else rbind (sk bs) (\<lambda>r. skip_brk k sk r))"

primrec skip :: "nat \<Rightarrow> byte list \<Rightarrow> (byte list, stop) result" where
  "skip 0 = (\<lambda>bs. Inl NoFuel)"
| "skip (Suc f) = (\<lambda>bs.
    rbind (get_head bs) (\<lambda>((t, ai, val), r).
      if ai = 31 \<and> t \<in> {2, 3, 4, 5} then skip_brk (Suc (length r)) (skip f) r
      else if t = 2 \<or> t = 3 then Inr (drop val r)
      else if t = 4 then skip_n (skip f) val r
      else if t = 5 then skip_n (skip f) (min (val * 2) (2 ^ 64 - 1)) r
      else if t = 6 then skip f r
      else Inr r))"

definition found_break :: "byte list \<Rightarrow> (bool \<times> byte list, stop) result" where
  "found_break bs = (case bs of [] \<Rightarrow> Inl CPanic | b # r \<Rightarrow> if b = 0xff then Inr (True, r) else Inr (False, bs))"

text \<open>\<open>&self.d[self.off..self.off + n]\<close> and the advance behind it.\<close>

definition take_bytes :: "nat \<Rightarrow> byte list \<Rightarrow> (byte list \<times> byte list, stop) result" where
  "take_bytes n bs = (if length bs < n then Inl CPanic else Inr (take n bs, drop n bs))"

lemma found_break_False: "found_break bs = Inr (False, r) \<Longrightarrow> r = bs"
  by (auto simp: found_break_def split: list.splits if_splits)

lemma take_bytes_length: "take_bytes n bs = Inr (x, r) \<Longrightarrow> length r \<le> length bs"
  by (auto simp: take_bytes_def split: if_splits)

function byte_chunks :: "byte list \<Rightarrow> byte list \<Rightarrow> (byte list \<times> byte list, stop) result" where
  "byte_chunks b bs =
    (case found_break bs of
       Inl s \<Rightarrow> Inl s
     | Inr (True, r) \<Rightarrow> Inr (b, r)
     | Inr (False, r) \<Rightarrow>
        (case get_head r of
           Inl s \<Rightarrow> Inl s
         | Inr ((_, _, n), r1) \<Rightarrow>
            (case take_bytes n r1 of Inl s \<Rightarrow> Inl s | Inr (x, r2) \<Rightarrow> byte_chunks (b @ x) r2)))"
  by pat_completeness auto
termination
  by (relation "measure (\<lambda>(_, bs). length bs)")
    (auto dest!: found_break_False get_head_length take_bytes_length)

declare byte_chunks.simps [simp del]

definition parse_byte_string :: "byte list \<Rightarrow> (byte list \<times> byte list, stop) result" where
  "parse_byte_string bs =
    rbind (get_head bs) (\<lambda>((_, ai, val), r). if ai \<noteq> 31 then take_bytes val r else byte_chunks [] r)"

definition utf8_err :: rstr where "utf8_err = lit ''cbor: invalid UTF-8 string''"

function text_chunks :: "nat \<Rightarrow> byte list \<Rightarrow> byte list \<Rightarrow> ((rstr, rstr) result \<times> byte list, stop) result" where
  "text_chunks f b bs =
    (case found_break bs of
       Inl s \<Rightarrow> Inl s
     | Inr (True, r) \<Rightarrow> if utf8_valid b then Inr (Inr b, r) else Inl CPanic
     | Inr (False, r) \<Rightarrow>
        (case get_head r of
           Inl s \<Rightarrow> Inl s
         | Inr ((_, _, n), r1) \<Rightarrow>
            (case take_bytes n r1 of
               Inl s \<Rightarrow> Inl s
             | Inr (x, r2) \<Rightarrow>
                if \<not> utf8_valid x then rbind (skip_brk (Suc (length r2)) (skip f) r2) (\<lambda>r3. Inr (Inl utf8_err, r3))
                else text_chunks f (b @ x) r2)))"
  by pat_completeness auto
termination
  by (relation "measure (\<lambda>(_, _, bs). length bs)")
    (auto dest!: found_break_False get_head_length take_bytes_length)

declare text_chunks.simps [simp del]

definition parse_text_string :: "nat \<Rightarrow> byte list \<Rightarrow> ((rstr, rstr) result \<times> byte list, stop) result" where
  "parse_text_string f bs =
    rbind (get_head bs) (\<lambda>((_, ai, val), r).
      if ai \<noteq> 31 then
        rbind (take_bytes val r) (\<lambda>(b, r1). Inr (if utf8_valid b then Inr b else Inl utf8_err, r1))
      else text_chunks f [] r)"

function strip_self_described :: "byte list \<Rightarrow> (byte list, stop) result" where
  "strip_self_described bs =
    (case next_major bs of
       Inl s \<Rightarrow> Inl s
     | Inr m \<Rightarrow>
        if m \<noteq> 6 then Inr bs
        else (case get_head bs of
                Inl s \<Rightarrow> Inl s
              | Inr ((_, _, num), r) \<Rightarrow> if num \<noteq> 55799 then Inr bs else strip_self_described r))"
  by pat_completeness auto
termination
  by (relation "measure length") (auto dest!: get_head_length)

declare strip_self_described.simps [simp del]

definition check_builtin_tag :: "nat \<Rightarrow> byte list \<Rightarrow> ((unit, rstr) result \<times> byte list, stop) result" where
  "check_builtin_tag f bs =
    rbind (next_major bs) (\<lambda>m.
      if m = 6 then
        rbind (get_head bs) (\<lambda>((_, _, num), r).
          case r of
            [] \<Rightarrow> Inl CPanic
          | c # _ \<Rightarrow>
             (case valid_builtin_tag num c of
                Inl e \<Rightarrow> rbind (skip f r) (\<lambda>r1. Inr (Inl e, r1))
              | Inr _ \<Rightarrow> Inr (Inr (), bs)))
      else Inr (Inr (), bs))"

text \<open>The loop header of arrays and maps, and \<open>first_err.get_or_insert\<close>.\<close>

definition loop_end :: "bool \<Rightarrow> nat \<Rightarrow> byte list \<Rightarrow> (bool \<times> byte list, stop) result" where
  "loop_end has_size n bs = (if has_size then Inr (n = 0, bs) else found_break bs)"

definition get_or_insert :: "rstr option \<Rightarrow> rstr \<Rightarrow> rstr option" where
  "get_or_insert fe e = (case fe of None \<Rightarrow> Some e | Some _ \<Rightarrow> fe)"

definition note_err :: "rstr option \<Rightarrow> ('a, rstr) result \<Rightarrow> rstr option" where
  "note_err fe r = (case r of Inl e \<Rightarrow> get_or_insert fe e | Inr _ \<Rightarrow> fe)"

definition or_err :: "rstr option \<Rightarrow> 'a \<Rightarrow> ('a, rstr) result" where
  "or_err fe v = (case fe of Some e \<Rightarrow> Inl e | None \<Rightarrow> Inr v)"

definition GO_ZERO_TIME_UNIX :: u64 where "GO_ZERO_TIME_UNIX = of_int (- 62135596800)"

text \<open>The match of \<open>parse_to_time\<close> on the decoded content of the tag.\<close>

definition time_of :: "cval \<Rightarrow> (u64, rstr) result" where
  "time_of v = (case v of
     U64 c \<Rightarrow> Inr c
   | I64 c \<Rightarrow> Inr c
   | F64 f \<Rightarrow> Inr (if is_nan f \<or> is_infinite f then GO_ZERO_TIME_UNIX else of_int (float_seconds f))
   | Text s \<Rightarrow> (case go_parse_rfc3339 s of
        Inr unix \<Rightarrow> Inr (of_int unix)
      | Inl e \<Rightarrow> Inl (lit ''cbor: cannot set '' @ s @ lit '' for time.Time: '' @ e))
   | _ \<Rightarrow> Inl (fill_err (lit ''tag'') (lit ''time.Time'')))"

text \<open>The last arm of \<open>parse\<close>: simple values and floats.\<close>

definition primitive_of :: "nat \<Rightarrow> nat \<Rightarrow> cval" where
  "primitive_of ai val =
    (if ai < 20 \<or> ai = 24 then U64 (of_nat val)
     else if ai = 20 \<or> ai = 21 then Bool
     else if ai = 22 \<or> ai = 23 then Nil
     else if ai = 25 then F64 (f32_to_f64 (f16_bits_to_f32 (of_nat val)))
     else if ai = 26 then F64 (f32_to_f64 (of_nat val))
     else F64 (of_nat val))"

definition negative_of :: "nat \<Rightarrow> cval" where
  "negative_of val = (if val > I64_MAX then Big else I64 (- 1 - of_nat val))"

fun parse_array :: "nat \<Rightarrow> (cval, rstr) result vstep \<Rightarrow> bool \<Rightarrow> nat \<Rightarrow> rstr option \<Rightarrow> rstr option vstep" where
  "parse_array 0 prs has_size n fe bs = Inl NoFuel"
| "parse_array (Suc k) prs has_size n fe bs =
    rbind (loop_end has_size n bs) (\<lambda>(fin, bs1).
      if fin then Inr (fe, bs1)
      else rbind (prs bs1) (\<lambda>(x, r). parse_array k prs has_size (n - 1) (note_err fe x) r))"

fun parse_map :: "nat \<Rightarrow> (cval, rstr) result vstep \<Rightarrow> (byte list \<Rightarrow> (byte list, stop) result)
    \<Rightarrow> bool \<Rightarrow> nat \<Rightarrow> rstr option \<Rightarrow> rstr option vstep" where
  "parse_map 0 prs sk has_size n fe bs = Inl NoFuel"
| "parse_map (Suc k) prs sk has_size n fe bs =
    rbind (loop_end has_size n bs) (\<lambda>(fin, bs1).
      if fin then Inr (fe, bs1)
      else rbind (prs bs1) (\<lambda>(key, r).
        case key of
          Inl e \<Rightarrow> rbind (sk r) (\<lambda>r1. parse_map k prs sk has_size (n - 1) (get_or_insert fe e) r1)
        | Inr v \<Rightarrow>
            if \<not> go_hashable v then
              rbind (sk r) (\<lambda>r1. parse_map k prs sk has_size (n - 1)
                (get_or_insert fe (lit ''cbor: invalid map key type: '' @ go_type_name v)) r1)
            else rbind (prs r) (\<lambda>(x, r1). parse_map k prs sk has_size (n - 1) (note_err fe x) r1)))"

text \<open>\<open>parse_to_time\<close>, over the \<open>parse\<close> it calls.\<close>

definition parse_to_time :: "(cval, rstr) result vstep \<Rightarrow> (u64, rstr) result vstep" where
  "parse_to_time prs bs = rbind (get_head bs) (\<lambda>(_, r). rbind (prs r) (\<lambda>(x, r1). Inr (rbind x time_of, r1)))"

text \<open>The dispatch of \<open>parse\<close> on the major type, over the recursive calls \<open>parse(_)\<close> and \<open>skip\<close>.\<close>

definition parse_dispatch :: "nat \<Rightarrow> (bool \<Rightarrow> (cval, rstr) result vstep) \<Rightarrow> (cval, rstr) result vstep" where
  "parse_dispatch f prs bs =
    rbind (next_major bs) (\<lambda>m.
      if m = 0 then rbind (get_head bs) (\<lambda>((_, _, val), r). Inr (Inr (U64 (of_nat val)), r))
      else if m = 1 then rbind (get_head bs) (\<lambda>((_, _, val), r). Inr (Inr (negative_of val), r))
      else if m = 2 then rbind (parse_byte_string bs) (\<lambda>(b, r). Inr (Inr (Bytes b), r))
      else if m = 3 then rbind (parse_text_string f bs) (\<lambda>(s, r). Inr (rbind s (\<lambda>s. Inr (Text s)), r))
      else if m = 4 then
        rbind (get_head bs) (\<lambda>((_, ai, val), r).
          rbind (parse_array (Suc (val + length r)) (prs True) (ai \<noteq> 31) val None r) (\<lambda>(fe, r1). Inr (or_err fe Arr, r1)))
      else if m = 5 then
        rbind (get_head bs) (\<lambda>((_, ai, val), r).
          rbind (parse_map (Suc (val + length r)) (prs True) (skip f) (ai \<noteq> 31) val None r) (\<lambda>(fe, r1). Inr (or_err fe Map, r1)))
      else if m = 6 then
        rbind (get_head bs) (\<lambda>((_, _, num), r).
          if num = 0 \<or> num = 1 then rbind (parse_to_time (prs False) bs) (\<lambda>(x, r1). Inr (rbind x (\<lambda>x. Inr (Time x)), r1))
          else if num = 2 \<or> num = 3 then rbind (parse_byte_string r) (\<lambda>(_, r1). Inr (Inr Big, r1))
          else rbind (prs False r) (\<lambda>(x, r1). Inr (rbind x (\<lambda>x. Inr (Tag x)), r1)))
      else rbind (get_head bs) (\<lambda>((_, ai, val), r). Inr (Inr (primitive_of ai val), r)))"

primrec parse :: "nat \<Rightarrow> bool \<Rightarrow> (cval, rstr) result vstep" where
  "parse 0 = (\<lambda>skip_tag bs0. Inl NoFuel)"
| "parse (Suc f) = (\<lambda>skip_tag bs0.
    rbind (if skip_tag then strip_self_described bs0 else Inr bs0) (\<lambda>bs.
    rbind (check_builtin_tag f bs) (\<lambda>(c, bs1).
      case c of Inl e \<Rightarrow> Inr (Inl e, bs1) | Inr _ \<Rightarrow> parse_dispatch f (parse f) bs1)))"

definition GO_MAP_TYPE :: rstr where "GO_MAP_TYPE = lit ''map[string]interface {}''"

text \<open>The errors of an integer, or of a bignum tag, decoded into a Go value of another type: the
  arms shared by \<open>parse_key\<close> and \<open>parse_top_to_map\<close>.\<close>

definition negative_err :: "rstr \<Rightarrow> nat \<Rightarrow> rstr" where
  "negative_err go_type val =
    (if val > I64_MAX
     then fill_err_msg (lit ''negative integer'') go_type (neg_big_str val @ lit '' overflows Go'' @ [0x27] @ lit ''s int64'')
     else fill_err (lit ''negative integer'') go_type)"

definition bignum_err :: "rstr \<Rightarrow> nat \<Rightarrow> byte list \<Rightarrow> rstr" where
  "bignum_err go_type num b =
    (if num = 2 then
       (if be_val b < 2 ^ 64 then fill_err (lit ''tag'') go_type
        else fill_err_msg (lit ''tag'') go_type (dec_str (be_val b) @ lit '' overflows '' @ go_type))
     else
       (if be_val b + 1 < 2 ^ 63 \<or> be_val b + 1 = 2 ^ 63 then fill_err (lit ''tag'') go_type
        else fill_err_msg (lit ''tag'') go_type (lit ''-'' @ dec_str (be_val b + 1) @ lit '' overflows '' @ go_type)))"

text \<open>\<open>parse_key\<close> returns the new content of the key slot; a null key leaves the slot as it was.\<close>

text \<open>The dispatch of \<open>parse_key\<close> on the major type; \<open>pkey\<close> is the recursive call on the content of a tag.\<close>

definition key_body :: "nat \<Rightarrow> (rstr, rstr) result vstep \<Rightarrow> rstr \<Rightarrow> (rstr, rstr) result vstep" where
  "key_body f pkey slot bs =
    rbind (next_major bs) (\<lambda>m.
      if m = 0 then rbind (get_head bs) (\<lambda>(_, r). Inr (Inl (fill_err (lit ''positive integer'') (lit ''string'')), r))
      else if m = 1 then rbind (get_head bs) (\<lambda>((_, _, val), r). Inr (Inl (negative_err (lit ''string'') val), r))
      else if m = 2 then rbind (parse_byte_string bs) (\<lambda>(_, r). Inr (Inl (fill_err (lit ''byte string'') (lit ''string'')), r))
      else if m = 3 then parse_text_string f bs
      else if m = 4 then rbind (skip (Suc f) bs) (\<lambda>r. Inr (Inl (fill_err (lit ''array'') (lit ''string'')), r))
      else if m = 5 then rbind (skip (Suc f) bs) (\<lambda>r. Inr (Inl (fill_err (lit ''map'') (lit ''string'')), r))
      else if m = 6 then
        rbind (get_head bs) (\<lambda>((_, _, num), r).
          if num = 2 \<or> num = 3 then
            rbind (parse_byte_string r) (\<lambda>(b, r1). Inr (Inl (bignum_err (lit ''string'') num b), r1))
          else pkey r)
      else rbind (get_head bs) (\<lambda>((_, ai, _), r).
        Inr (if ai = 22 \<or> ai = 23 then Inr slot else Inl (fill_err (lit ''primitives'') (lit ''string'')), r)))"

primrec parse_key :: "nat \<Rightarrow> rstr \<Rightarrow> (rstr, rstr) result vstep" where
  "parse_key 0 = (\<lambda>slot bs0. Inl NoFuel)"
| "parse_key (Suc f) = (\<lambda>slot bs0.
    rbind (strip_self_described bs0) (\<lambda>bs.
    rbind (check_builtin_tag f bs) (\<lambda>(c, bs1).
      case c of
        Inl e \<Rightarrow> Inr (Inl e, bs1)
      | Inr _ \<Rightarrow> key_body f (parse_key f slot) slot bs1)))"

definition parse_value :: "nat \<Rightarrow> (cval, rstr) result vstep" where
  "parse_value f bs = rbind (strip_self_described bs) (\<lambda>bs1. parse f False bs1)"

text \<open>\<open>entries.iter_mut().find(..)\<close>: overwrite the value of an existing key, or append.\<close>

fun put_entry :: "'k \<Rightarrow> 'v \<Rightarrow> ('k \<times> 'v) list \<Rightarrow> ('k \<times> 'v) list" where
  "put_entry k v [] = [(k, v)]"
| "put_entry k v ((k1, v1) # es) = (if k1 = k then (k1, v) # es else (k1, v1) # put_entry k v es)"

fun localmap_loop :: "nat \<Rightarrow> nat \<Rightarrow> bool \<Rightarrow> nat \<Rightarrow> rstr option \<Rightarrow> rstr \<Rightarrow> (rstr \<times> cval) list
    \<Rightarrow> ((rstr \<times> cval) list, rstr) result vstep" where
  "localmap_loop 0 f has_size n fe slot entries bs = Inl NoFuel"
| "localmap_loop (Suc k) f has_size n fe slot entries bs =
    rbind (loop_end has_size n bs) (\<lambda>(fin, bs1).
      if fin then Inr (or_err fe entries, bs1)
      else rbind (parse_key f slot bs1) (\<lambda>(key, r).
        case key of
          Inl e \<Rightarrow> rbind (skip f r) (\<lambda>r1. localmap_loop k f has_size (n - 1) (get_or_insert fe e) slot entries r1)
        | Inr slot1 \<Rightarrow>
            rbind (parse_value f r) (\<lambda>(v, r1).
              case v of
                Inl e \<Rightarrow> localmap_loop k f has_size (n - 1) (get_or_insert fe e) slot1 entries r1
              | Inr v \<Rightarrow> localmap_loop k f has_size (n - 1) fe slot1 (put_entry slot1 v entries) r1)))"

definition parse_map_to_localmap :: "nat \<Rightarrow> ((rstr \<times> cval) list, rstr) result vstep" where
  "parse_map_to_localmap f bs =
    rbind (get_head bs) (\<lambda>((_, ai, val), r). localmap_loop (Suc (val + length r)) f (ai \<noteq> 31) val None [] [] r)"

text \<open>The dispatch of \<open>parse_top_to_map\<close>; \<open>ptop\<close> is the recursive call on the content of a tag.\<close>

definition top_body :: "nat \<Rightarrow> ((rstr \<times> cval) list, rstr) result vstep \<Rightarrow> ((rstr \<times> cval) list, rstr) result vstep" where
  "top_body f ptop bs =
    rbind (next_major bs) (\<lambda>m.
      if m = 0 then rbind (get_head bs) (\<lambda>(_, r). Inr (Inl (fill_err (lit ''positive integer'') GO_MAP_TYPE), r))
      else if m = 1 then rbind (get_head bs) (\<lambda>((_, _, val), r). Inr (Inl (negative_err GO_MAP_TYPE val), r))
      else if m = 2 then rbind (parse_byte_string bs) (\<lambda>(_, r). Inr (Inl (fill_err (lit ''byte string'') GO_MAP_TYPE), r))
      else if m = 3 then
        rbind (parse_text_string f bs) (\<lambda>(s, r). Inr (rbind s (\<lambda>_. Inl (fill_err (lit ''UTF-8 text string'') GO_MAP_TYPE)), r))
      else if m = 4 then rbind (skip (Suc f) bs) (\<lambda>r. Inr (Inl (fill_err (lit ''array'') GO_MAP_TYPE), r))
      else if m = 5 then parse_map_to_localmap f bs
      else if m = 6 then
        rbind (get_head bs) (\<lambda>((_, _, num), r).
          if num = 2 \<or> num = 3 then
            rbind (parse_byte_string r) (\<lambda>(b, r1). Inr (Inl (bignum_err GO_MAP_TYPE num b), r1))
          else ptop r)
      else rbind (get_head bs) (\<lambda>((_, ai, _), r).
        Inr (if ai = 22 \<or> ai = 23 then Inr [] else Inl (fill_err (lit ''primitives'') GO_MAP_TYPE), r)))"

primrec parse_top_to_map :: "nat \<Rightarrow> ((rstr \<times> cval) list, rstr) result vstep" where
  "parse_top_to_map 0 = (\<lambda>bs0. Inl NoFuel)"
| "parse_top_to_map (Suc f) = (\<lambda>bs0.
    rbind (strip_self_described bs0) (\<lambda>bs.
    rbind (check_builtin_tag f bs) (\<lambda>(c, bs1).
      case c of
        Inl e \<Rightarrow> Inr (Inl e, bs1)
      | Inr _ \<Rightarrow> top_body f (parse_top_to_map f) bs1)))"

text \<open>The entry point. The recursion of every method goes through at least one head byte, so
  that the number of input bytes plus one bounds it.\<close>

definition cbor_unmarshal_localmap :: "byte list \<Rightarrow> ((rstr \<times> cval) list, stop) result" where
  "cbor_unmarshal_localmap data =
    (if data = [] then Inl (Err (lit ''EOF''))
     else rbind (valid_internal (Suc (length data)) 0 data) (\<lambda>_.
          rbind (parse_top_to_map (Suc (length data)) data) (\<lambda>(m, _). map_err Err m)))"

declare skip_brk.simps [simp del]
declare valid_indefinite_string.simps [simp del]
declare valid_indefinite_array_or_map.simps [simp del]
declare parse_array.simps [simp del]
declare parse_map.simps [simp del]
declare localmap_loop.simps [simp del]

end
