(* ===== verification/CborSafe.thy ===== *)
theory CborSafe
  imports Cbor
begin

text \<open>
  The decoder of \<open>Cbor\<close> never panics. A grammar of well-formed items (\<open>item\<close>) sits between
  the two phases: what the validator accepts is one item followed by the rest of the
  input (\<open>valid_internal_sound\<close>), its counter is large enough (\<open>valid_internal_live\<close>), and on an
  item every function of the parser consumes exactly that item (\<open>skip_item\<close>,
  \<open>parse_item\<close>, \<open>parse_top_item\<close>), whether it reports an error or not.
\<close>

section \<open>The grammar of well-formed items\<close>

definition head :: "byte list \<Rightarrow> nat \<Rightarrow> nat \<Rightarrow> nat \<Rightarrow> bool" where
  "head h t ai val = (valid_head h = Inr ((t, ai, val), []))"

definition chunk :: "nat \<Rightarrow> byte list \<Rightarrow> bool" where
  "chunk t p = (\<exists>h ai b. p = h @ b \<and> head h t ai (length b) \<and> ai \<noteq> 31)"

inductive item :: "byte list \<Rightarrow> bool" where
  simple: "head h t ai val \<Longrightarrow> t \<in> {0, 1, 7} \<Longrightarrow> item h"
| str: "head h t ai (length b) \<Longrightarrow> t \<in> {2, 3} \<Longrightarrow> ai \<noteq> 31 \<Longrightarrow> item (h @ b)"
| str_chunks: "head h t 31 val \<Longrightarrow> t \<in> {2, 3} \<Longrightarrow> list_all (chunk t) cs \<Longrightarrow> item (h @ concat cs @ [0xff])"
| arr: "head h 4 ai (length ps) \<Longrightarrow> ai \<noteq> 31 \<Longrightarrow> list_all item ps \<Longrightarrow> item (h @ concat ps)"
| mp: "head h 5 ai n \<Longrightarrow> ai \<noteq> 31 \<Longrightarrow> n \<le> MAX_MAP_PAIRS \<Longrightarrow> length ps = 2 * n \<Longrightarrow> list_all item ps
    \<Longrightarrow> item (h @ concat ps)"
| arr_brk: "head h 4 31 val \<Longrightarrow> list_all item ps \<Longrightarrow> item (h @ concat ps @ [0xff])"
| mp_brk: "head h 5 31 val \<Longrightarrow> even (length ps) \<Longrightarrow> list_all item ps \<Longrightarrow> item (h @ concat ps @ [0xff])"
| tag: "head h 6 ai val \<Longrightarrow> item p \<Longrightarrow> item (h @ p)"

lemma major_info_ff [simp]: "major 0xff = 7" "info 0xff = 31"
  by (simp_all add: major_def info_def)

lemma major_less: "major b < 8"
proof -
  have "unat (drop_bit 5 b) = unat b div 32" by (simp add: drop_bit_eq_div unat_div)
  moreover have "unat b < 256" by simp
  ultimately show ?thesis unfolding major_def by (simp add: div_less_iff_less_mult)
qed

definition head_ok :: "nat \<Rightarrow> nat \<Rightarrow> nat \<Rightarrow> bool" where
  "head_ok t ai val = (ai \<le> 27 \<and> \<not> (ai = 24 \<and> t = 7 \<and> val < 32) \<or> ai = 31 \<and> t \<notin> {0, 1, 6, 7})"

lemma valid_head_Cons:
  "valid_head (b # r) =
    (let t = major b; ai = info b; n = arg_size ai; val = (if n = 0 then ai else be_val (take n r)) in
     if ai \<le> 27 \<and> length r < n then Inl eof
     else if head_ok t ai val then Inr ((t, ai, val), drop n r)
     else if ai \<le> 27 then Inl (lit ''cbor: invalid simple value '' @ dec_str val @ lit '' for type primitives'')
     else if ai = 31 \<and> t = 7 then Inl unexpected_break
     else Inl (bad_info ai t))"
proof -
  consider "info b \<le> 23" | "info b = 24" | "info b = 25" | "info b = 26" | "info b = 27" | "info b = 31"
    | "27 < info b" "info b \<noteq> 31" by linarith
  then show ?thesis
    by cases (auto simp: valid_head_def head_ok_def arg_size_def Let_def)
qed

lemma head_iff:
  "head h t ai val \<longleftrightarrow> (\<exists>b a. h = b # a \<and> t = major b \<and> ai = info b \<and> length a = arg_size ai
     \<and> val = (if arg_size ai = 0 then ai else be_val a) \<and> head_ok t ai val)"
proof (cases h)
  case Nil
  then show ?thesis by (simp add: head_def valid_head_def)
next
  case (Cons b a)
  have "\<not> (info b \<le> 27) \<Longrightarrow> arg_size (info b) = 0" by (simp add: arg_size_def)
  then show ?thesis
    unfolding head_def Cons valid_head_Cons by (auto simp: Let_def not_less)
qed

lemma valid_head_split:
  "valid_head bs = Inr ((t, ai, val), r) \<Longrightarrow> \<exists>h. bs = h @ r \<and> head h t ai val"
proof (cases bs)
  case (Cons b r0)
  define n where "n = arg_size (info b)"
  have n0: "\<not> (info b \<le> 27) \<Longrightarrow> n = 0" by (simp add: arg_size_def n_def)
  assume v: "valid_head bs = Inr ((t, ai, val), r)"
  then have "bs = (b # take n r0) @ r" "head (b # take n r0) t ai val"
    using n0 by (auto simp: Cons valid_head_Cons head_iff Let_def n_def[symmetric] not_less split: if_splits)
  then show ?thesis by blast
qed (simp add: valid_head_def)

lemma head_first:
  "head h t ai val \<Longrightarrow> \<exists>b h'. h = b # h' \<and> major b = t \<and> info b = ai \<and> b \<noteq> 0xff \<and> length h' = arg_size ai"
  by (auto simp: head_iff head_ok_def)

lemma head_valid: "head h t ai val \<Longrightarrow> valid_head (h @ r) = Inr ((t, ai, val), r)"
  by (auto simp: head_iff valid_head_Cons Let_def)

lemma head_get: "head h t ai val \<Longrightarrow> get_head (h @ r) = Inr ((t, ai, val), r)"
  by (auto simp: head_iff get_head_def Let_def)

lemma head_nonempty: "head h t ai val \<Longrightarrow> 0 < length h"
  by (auto dest: head_first)

lemma item_head:
  "item p \<Longrightarrow> \<exists>h t ai val b. p = h @ b \<and> head h t ai val"
  by (induction rule: item.induct) (metis append_Nil2)+

lemma item_first: "item p \<Longrightarrow> \<exists>b p'. p = b # p' \<and> b \<noteq> 0xff"
  using item_head head_first by fastforce

lemma item_length: "item p \<Longrightarrow> 0 < length p"
  using item_first by fastforce


lemma head_0: "head h t ai val \<Longrightarrow> major ((h @ b) ! 0) = t"
  by (auto dest: head_first)

text \<open>Inversion by the major type: the body behind the head of an item.\<close>

definition body :: "nat \<Rightarrow> nat \<Rightarrow> nat \<Rightarrow> byte list \<Rightarrow> bool" where
  "body t ai val b =
    (if t = 2 \<or> t = 3 then
       (if ai \<noteq> 31 then length b = val else \<exists>cs. b = concat cs @ [0xff] \<and> list_all (chunk t) cs)
     else if t = 4 \<or> t = 5 then
       (\<exists>ps. list_all item ps \<and> (if ai \<noteq> 31 then b = concat ps \<and> length ps = (if t = 5 then 2 else 1) * val
                              else b = concat ps @ [0xff] \<and> (t = 5 \<longrightarrow> even (length ps))))
     else if t = 6 then item b
     else b = [])"

lemma item_body: "item p \<Longrightarrow> \<exists>h t ai val b. p = h @ b \<and> head h t ai val \<and> body t ai val b"
proof (induction rule: item.induct)
  case (simple h t ai val)
  then show ?case by (intro exI[of _ h] exI[of _ t] exI[of _ ai] exI[of _ val] exI[of _ "[]"]) (auto simp: body_def)
next
  case (str h t ai b)
  then show ?case by (intro exI[of _ h] exI[of _ t] exI[of _ ai] exI[of _ "length b"] exI[of _ b]) (auto simp: body_def)
next
  case (str_chunks h t val cs)
  then show ?case
    by (intro exI[of _ h] exI[of _ t] exI[of _ 31] exI[of _ val] exI[of _ "concat cs @ [0xff]"]) (auto simp: body_def)
next
  case (arr h ai ps)
  then show ?case
    by (intro exI[of _ h] exI[of _ 4] exI[of _ ai] exI[of _ "length ps"] exI[of _ "concat ps"])
      (auto simp: body_def list_all_iff)
next
  case (mp h ai n ps)
  then show ?case
    by (intro exI[of _ h] exI[of _ 5] exI[of _ ai] exI[of _ n] exI[of _ "concat ps"]) (auto simp: body_def list_all_iff)
next
  case (arr_brk h val ps)
  then show ?case
    by (intro exI[of _ h] exI[of _ 4] exI[of _ 31] exI[of _ val] exI[of _ "concat ps @ [0xff]"])
      (auto simp: body_def list_all_iff)
next
  case (mp_brk h val ps)
  then show ?case
    by (intro exI[of _ h] exI[of _ 5] exI[of _ 31] exI[of _ val] exI[of _ "concat ps @ [0xff]"])
      (auto simp: body_def list_all_iff)
next
  case (tag h ai val p)
  then show ?case by (intro exI[of _ h] exI[of _ 6] exI[of _ ai] exI[of _ val] exI[of _ p]) (auto simp: body_def)
qed

lemma itemE:
  assumes "item p"
  obtains h ai val b where "p = h @ b" "head h (major (p ! 0)) ai val" "body (major (p ! 0)) ai val b"
  using item_body[OF assms] head_0 by metis

subsection \<open>What the validator accepts\<close>

lemma item_chunk:
  assumes "item p" "major (p ! 0) = t" "t \<in> {2, 3}" "info (p ! 0) \<noteq> 31"
  shows "chunk t p"
proof (rule itemE[OF assms(1)])
  fix h ai val b assume p: "p = h @ b" "head h (major (p ! 0)) ai val" "body (major (p ! 0)) ai val b"
  have "ai \<noteq> 31" using head_first[OF p(2)] assms(4) p(1) by auto
  then have "length b = val" using p(3) assms(2,3) by (auto simp: body_def)
  then show ?thesis using p \<open>ai \<noteq> 31\<close> assms(2) by (auto simp: chunk_def)
qed

text \<open>A step of the validator is sound when what it consumes is an item.\<close>

definition sound :: "nat vstep \<Rightarrow> bool" where
  "sound v = (\<forall>bs d r. v bs = Inr (d, r) \<longrightarrow> (\<exists>p. bs = p @ r \<and> item p))"

lemma soundD: "sound v \<Longrightarrow> v bs = Inr (d, r) \<Longrightarrow> \<exists>p. bs = p @ r \<and> item p"
  by (simp add: sound_def)

lemma valid_n_sound:
  "sound v \<Longrightarrow> valid_n v n m bs = Inr (d, r) \<Longrightarrow> \<exists>ps. bs = concat ps @ r \<and> length ps = n \<and> list_all item ps"
proof (induction n arbitrary: m bs)
  case 0
  then show ?case by simp
next
  case (Suc n)
  then obtain d1 r1 m1 where v: "v bs = Inr (d1, r1)" "valid_n v n m1 r1 = Inr (d, r)" by auto
  obtain p where p: "bs = p @ r1" "item p" using soundD[OF Suc.prems(1) v(1)] by blast
  obtain ps where "r1 = concat ps @ r" "length ps = n" "list_all item ps" using Suc.IH[OF Suc.prems(1) v(2)] by blast
  then show ?case using p by (intro exI[of _ "p # ps"]) simp
qed

lemma nth_0_append: "p \<noteq> [] \<Longrightarrow> (p @ r) ! 0 = p ! 0"
  by (simp add: nth_append)

lemma drop_1_ff: "bs \<noteq> [] \<Longrightarrow> bs ! 0 = x \<Longrightarrow> bs = [x] @ drop 1 bs"
  by (cases bs) simp_all

lemma valid_indefinite_string_sound:
  assumes "\<And>depth. sound (v depth)" "t \<in> {2, 3}"
  shows "valid_indefinite_string k v t depth bs = Inr (d, r) \<Longrightarrow> \<exists>cs. bs = concat cs @ [0xff] @ r \<and> list_all (chunk t) cs"
proof (induction k arbitrary: depth bs)
  case (Suc k)
  show ?case
  proof (cases "bs ! 0 = 0xff")
    case True
    then have "bs = [0xff] @ r" using Suc.prems drop_1_ff[of bs "0xff"] by (auto simp: valid_indefinite_string.simps valid_indefinite_array_or_map.simps split: if_splits)
    then show ?thesis by (intro exI[of _ "[]"]) simp
  next
    case False
    then obtain d1 r1 where v: "v depth bs = Inr (d1, r1)" "valid_indefinite_string k v t d1 r1 = Inr (d, r)"
      and b: "major (bs ! 0) = t" "info (bs ! 0) \<noteq> 31"
      using Suc.prems by (auto simp: valid_indefinite_string.simps valid_indefinite_array_or_map.simps split: if_splits)
    obtain p where p: "bs = p @ r1" "item p" using soundD[OF assms(1) v(1)] by blast
    have "chunk t p" using item_chunk[OF p(2)] b assms(2) item_length[OF p(2)] by (simp add: p(1) nth_append)
    moreover obtain cs where "r1 = concat cs @ [0xff] @ r" "list_all (chunk t) cs" using Suc.IH[OF v(2)] by blast
    ultimately show ?thesis using p(1) by (intro exI[of _ "p # cs"]) simp
  qed
qed (simp add: valid_indefinite_string.simps valid_indefinite_array_or_map.simps)

lemma valid_indefinite_array_or_map_sound:
  assumes "sound v"
  shows "valid_indefinite_array_or_map k v t m i bs = Inr (d, r)
    \<Longrightarrow> \<exists>ps. bs = concat ps @ [0xff] @ r \<and> list_all item ps \<and> (t = 5 \<longrightarrow> even (i + length ps))"
proof (induction k arbitrary: m i bs)
  case (Suc k)
  show ?case
  proof (cases "bs ! 0 = 0xff")
    case True
    then have "bs = [0xff] @ r" "t = 5 \<longrightarrow> even i"
      using Suc.prems drop_1_ff[of bs "0xff"] by (auto split: if_splits simp: valid_indefinite_array_or_map.simps even_iff_mod_2_eq_zero)
    then show ?thesis by (intro exI[of _ "[]"]) simp
  next
    case False
    then obtain d1 r1 m1 where v: "v bs = Inr (d1, r1)" "valid_indefinite_array_or_map k v t m1 (i + 1) r1 = Inr (d, r)"
      using Suc.prems by (auto simp: valid_indefinite_string.simps valid_indefinite_array_or_map.simps split: if_splits)
    obtain p where p: "bs = p @ r1" "item p" using soundD[OF assms v(1)] by blast
    obtain ps where "r1 = concat ps @ [0xff] @ r" "list_all item ps" "t = 5 \<longrightarrow> even (i + 1 + length ps)"
      using Suc.IH[OF v(2)] by blast
    then show ?thesis using p by (intro exI[of _ "p # ps"]) simp
  qed
qed (simp add: valid_indefinite_string.simps valid_indefinite_array_or_map.simps)

lemma valid_tags_sound:
  "valid_tags depth bs = Inr (d, r) \<Longrightarrow> \<exists>q. bs = q @ r \<and> (\<forall>p. item p \<longrightarrow> item (q @ p))"
proof (induction depth bs rule: valid_tags.induct)
  case (1 depth bs)
  show ?case
  proof (cases "major (bs ! 0) = 6")
    case False
    then have "bs = r" using 1(2) by (subst (asm) valid_tags.simps) (auto split: if_splits)
    then show ?thesis by (intro exI[of _ "[]"]) simp
  next
    case True
    then obtain t ai val r1 where h: "valid_head bs = Inr ((t, ai, val), r1)" and v: "valid_tags (depth + 1) r1 = Inr (d, r)"
      and b: "bs \<noteq> []" "\<not> depth + 1 > MAX_NESTED_LEVELS"
      using 1(2) by (subst (asm) valid_tags.simps) (auto split: if_splits sum.splits)
    obtain h' where h': "bs = h' @ r1" "head h' t ai val" using valid_head_split[OF h] by blast
    have "t = 6" using head_first[OF h'(2)] True h'(1) by auto
    moreover obtain q where "r1 = q @ r" "\<forall>p. item p \<longrightarrow> item (q @ p)"
      using 1(1)[OF b(1) _ h _ b(2) v] True by auto
    ultimately show ?thesis using h' tag by (intro exI[of _ "h' @ q"]) auto
  qed
qed

lemma major_cases:
  "t < 8 \<Longrightarrow> t \<in> {2, 3} \<and> ai \<noteq> 31 \<or> t \<in> {2, 3} \<and> ai = (31 :: nat) \<or> t = 4 \<and> ai \<noteq> 31 \<or> t = 5 \<and> ai \<noteq> 31
    \<or> t \<in> {4, 5} \<and> ai = 31 \<or> t = 6 \<or> t \<in> {0, 1, 7 :: nat}"
  by force

lemma valid_body_sound:
  assumes v: "\<And>depth. sound (v depth)" and h: "head h t ai val"
    and b: "valid_body v depth t ai val r1 = Inr (d, r)"
  shows "\<exists>p. h @ r1 = p @ r \<and> item p"
proof -
  have "t < 8" using head_first[OF h] major_less by auto
  from major_cases[OF this, of ai]
  consider (str) "t \<in> {2, 3}" "ai \<noteq> 31" | (chunks) "t \<in> {2, 3}" "ai = 31" | (arr) "t = 4" "ai \<noteq> 31"
    | (mp) "t = 5" "ai \<noteq> 31" | (brk) "t \<in> {4, 5}" "ai = 31" | (tag) "t = 6" | (simple) "t \<in> {0, 1, 7}"
    by blast
  then show ?thesis
  proof cases
    case str
    then have "r = drop val r1" "val \<le> length r1" using b by (auto simp: valid_body_def split: if_splits)
    then show ?thesis using h item.str[of h t ai "take val r1"] str
      by (intro exI[of _ "h @ take val r1"]) simp
  next
    case chunks
    then have "valid_indefinite_string (Suc (length r1)) v t depth r1 = Inr (d, r)"
      using b unfolding valid_body_def by simp
    from valid_indefinite_string_sound[of v t, OF v chunks(1) this]
    obtain cs where "r1 = concat cs @ [0xff] @ r" "list_all (chunk t) cs" by blast
    then show ?thesis using h item.str_chunks[of h t val cs] chunks by (intro exI[of _ "h @ concat cs @ [0xff]"]) simp
  next
    case arr
    then obtain ps where "r1 = concat ps @ r" "length ps = val" "list_all item ps"
      using b valid_n_sound[OF v, of "depth + 1" val "depth + 1" r1 d r] by (auto simp: valid_body_def split: if_splits)
    then show ?thesis using h item.arr[of h ai ps] arr by (intro exI[of _ "h @ concat ps"]) simp
  next
    case mp
    then obtain ps where "r1 = concat ps @ r" "length ps = 2 * val" "list_all item ps" "val \<le> MAX_MAP_PAIRS"
      using b valid_n_sound[OF v, of "depth + 1" "2 * val" "depth + 1" r1 d r] by (auto simp: valid_body_def split: if_splits)
    then show ?thesis using h item.mp[of h ai val ps] mp by (intro exI[of _ "h @ concat ps"]) simp
  next
    case brk
    then have "valid_indefinite_array_or_map (Suc (length r1)) (v (depth + 1)) t (depth + 1) 0 r1 = Inr (d, r)"
      using b unfolding valid_body_def by (auto split: if_splits)
    from valid_indefinite_array_or_map_sound[OF v this]
    obtain ps where ps: "r1 = concat ps @ [0xff] @ r" "list_all item ps" "t = 5 \<longrightarrow> even (length ps)" by auto
    then have "item (h @ concat ps @ [0xff])"
      using h brk item.arr_brk[of h val ps] item.mp_brk[of h val ps] by auto
    then show ?thesis using ps by (intro exI[of _ "h @ concat ps @ [0xff]"]) simp
  next
    case tag
    then obtain d1 r2 where vt: "valid_tags depth r1 = Inr (d1, r2)" "v d1 r2 = Inr (d, r)"
      using b by (auto simp: valid_body_def)
    obtain q where q: "r1 = q @ r2" "\<forall>p. item p \<longrightarrow> item (q @ p)" using valid_tags_sound[OF vt(1)] by blast
    obtain p where "r2 = p @ r" "item p" using soundD[OF v vt(2)] by blast
    then show ?thesis using q h tag item.tag[of h ai val "q @ p"] by (intro exI[of _ "h @ q @ p"]) simp
  next
    case simple
    then show ?thesis using b item.simple[OF h] by (intro exI[of _ h]) (auto simp: valid_body_def)
  qed
qed

lemma valid_internal_sound: "sound (valid_internal f depth)"
proof (induction f arbitrary: depth)
  case (Suc f)
  show ?case unfolding sound_def
  proof (intro allI impI)
    fix bs d r assume "valid_internal (Suc f) depth bs = Inr (d, r)"
    then obtain t ai val r1 where vh: "valid_head bs = Inr ((t, ai, val), r1)"
      and b: "valid_body (valid_internal f) depth t ai val r1 = Inr (d, r)" by auto
    from valid_head_split[OF vh] obtain h where "bs = h @ r1" "head h t ai val" by blast
    then show "\<exists>p. bs = p @ r \<and> item p" using valid_body_sound[OF Suc.IH _ b] by simp
  qed
qed (simp add: sound_def)

subsection \<open>The counter of the validator suffices\<close>

text \<open>A step is live on inputs of at most \<open>n\<close> bytes when it ends there with a result or an error text.\<close>

definition live :: "nat \<Rightarrow> 'a vstep \<Rightarrow> bool" where
  "live n v = (\<forall>bs. length bs \<le> n \<longrightarrow> (\<forall>s. v bs = Inl s \<longrightarrow> (\<exists>e. s = Err e)))"

lemma liveD: "live n v \<Longrightarrow> v bs = Inl s \<Longrightarrow> length bs \<le> n \<Longrightarrow> \<exists>e. s = Err e"
  by (simp add: live_def)

lemma sound_shorter: "sound v \<Longrightarrow> v bs = Inr (d, r) \<Longrightarrow> length r < length bs"
  using soundD[of v bs d r] item_length by auto

lemma valid_n_live: "sound v \<Longrightarrow> live n v \<Longrightarrow> live n (valid_n v k m)"
proof (induction k arbitrary: m)
  case (Suc k)
  show ?case unfolding live_def
    by (auto simp: rbind_eq_Inl dest: liveD[OF Suc.prems(2)] liveD[OF Suc.IH[OF Suc.prems]] sound_shorter[OF Suc.prems(1)]
        split: prod.splits)
      (meson Suc.IH Suc.prems liveD less_imp_le_nat order_trans sound_shorter)+
qed (simp add: live_def)

lemma valid_indefinite_string_live:
  assumes "\<And>d. sound (v d)" "\<And>d. live n (v d)"
  shows "valid_indefinite_string k v t depth bs = Inl s \<Longrightarrow> length bs < k \<Longrightarrow> length bs \<le> n \<Longrightarrow> \<exists>e. s = Err e"
proof (induction k arbitrary: depth bs)
  case (Suc k)
  show ?case
  proof (cases "v depth bs")
    case (Inl s')
    then show ?thesis using Suc.prems liveD[OF assms(2) Inl]
      by (auto simp: valid_indefinite_string.simps split: if_splits)
  next
    case (Inr x)
    obtain d1 r1 where x: "x = (d1, r1)" by (cases x)
    have "length r1 < k" "length r1 \<le> n" using sound_shorter[OF assms(1) Inr[unfolded x]] Suc.prems by auto
    then show ?thesis using Suc.prems(1) Suc.IH[of _ r1] Inr
      by (auto simp: valid_indefinite_string.simps x split: if_splits)
  qed
qed (simp add: valid_indefinite_string.simps valid_indefinite_array_or_map.simps)

lemma valid_indefinite_array_or_map_live:
  assumes "sound v" "live n v"
  shows "valid_indefinite_array_or_map k v t m i bs = Inl s \<Longrightarrow> length bs < k \<Longrightarrow> length bs \<le> n \<Longrightarrow> \<exists>e. s = Err e"
proof (induction k arbitrary: m i bs)
  case (Suc k)
  show ?case
  proof (cases "v bs")
    case (Inl s')
    then show ?thesis using Suc.prems liveD[OF assms(2) Inl]
      by (auto simp: valid_indefinite_array_or_map.simps split: if_splits)
  next
    case (Inr x)
    obtain d1 r1 where x: "x = (d1, r1)" by (cases x)
    have "length r1 < k" "length r1 \<le> n" using sound_shorter[OF assms(1) Inr[unfolded x]] Suc.prems by auto
    then show ?thesis using Suc.prems(1) Suc.IH[of _ _ r1] Inr
      by (auto simp: valid_indefinite_array_or_map.simps x split: if_splits)
  qed
qed (simp add: valid_indefinite_string.simps valid_indefinite_array_or_map.simps)

lemma valid_tags_length: "valid_tags depth bs = Inr (d, r) \<Longrightarrow> length r \<le> length bs"
  using valid_tags_sound by fastforce

lemma valid_body_live:
  assumes "\<And>d. sound (v d)" "\<And>d. live n (v d)" "length r \<le> n" "valid_body v depth t ai val r = Inl s"
  shows "\<exists>e. s = Err e"
proof -
  note live = liveD[OF assms(2)] liveD[OF valid_n_live[OF assms(1,2)]]
    valid_indefinite_string_live[of v n, OF assms(1,2)] valid_indefinite_array_or_map_live[OF assms(1,2)]
  from assms(4) consider "\<exists>e. s = Err e"
    | "valid_indefinite_string (Suc (length r)) v t depth r = Inl s"
    | "valid_indefinite_array_or_map (Suc (length r)) (v (depth + 1)) t (depth + 1) 0 r = Inl s"
    | k where "valid_n (v (depth + 1)) k (depth + 1) r = Inl s"
    | d r1 where "valid_tags depth r = Inr (d, r1)" "v d r1 = Inl s"
    unfolding valid_body_def
    by (auto simp: rbind_eq_Inl map_err_def split: if_splits sum.splits)
  then show ?thesis
  proof cases
    case 2
    then show ?thesis using live(3)[OF 2] assms(3) by simp
  next
    case 3
    then show ?thesis using live(4)[OF 3] assms(3) by simp
  next
    case 4
    then show ?thesis using live(2)[OF 4] assms(3) by simp
  next
    case 5
    then show ?thesis using live(1)[OF 5(2)] valid_tags_length[OF 5(1)] assms(3) by simp
  qed
qed

lemma valid_internal_live: "n < f \<Longrightarrow> live n (valid_internal f depth)"
proof (induction f arbitrary: n depth)
  case (Suc f)
  show ?case unfolding live_def
  proof (intro allI impI)
    fix bs :: "byte list" and s assume l: "length bs \<le> n" and "valid_internal (Suc f) depth bs = Inl s"
    then consider "\<exists>e. s = Err e" | t ai val r where "valid_head bs = Inr ((t, ai, val), r)"
        "valid_body (valid_internal f) depth t ai val r = Inl s"
      by (auto simp: rbind_eq_Inl map_err_def split: sum.splits)
    then show "\<exists>e. s = Err e"
    proof cases
      case 2
      then have r: "length r < length bs" using valid_head_length by blast
      have "live (n - 1) (valid_internal f d)" for d using Suc.IH[of "n - 1" d] Suc.prems r l by simp
      then show ?thesis using valid_body_live[of "valid_internal f" "n - 1" r, OF valid_internal_sound _ _ 2(2)] r l by simp
    qed
  qed
qed simp

section \<open>The parser on a well-formed item\<close>

subsection \<open>Skipping\<close>

lemma list_all_concat_length: "p \<in> set ps \<Longrightarrow> length p \<le> length (concat ps)"
  by (induction ps) auto

lemma length_le_concat: "list_all item ps \<Longrightarrow> length ps \<le> length (concat ps)"
proof (induction ps)
  case (Cons p ps)
  then have "0 < length p" "length ps \<le> length (concat ps)" using item_length by simp_all
  then show ?case unfolding concat.simps length_append list.size by linarith
qed simp

lemma length_less_concat: "list_all item ps \<Longrightarrow> length ps < Suc (length (concat ps @ r))"
  using length_le_concat[of ps] unfolding length_append by linarith

lemma head_body_length: "head h t ai val \<Longrightarrow> length (h @ b) \<le> Suc f \<Longrightarrow> length b \<le> f"
  by (auto dest: head_first)

lemma chunk_item: "chunk t p \<Longrightarrow> t \<in> {2, 3} \<Longrightarrow> item p"
  by (auto simp: chunk_def intro: item.str)

lemma chunks_items: "list_all (chunk t) cs \<Longrightarrow> t \<in> {2, 3} \<Longrightarrow> list_all item cs"
  by (induction cs) (auto dest: chunk_item)

lemma skip_n_concat:
  "(\<And>p r. p \<in> set ps \<Longrightarrow> sk (p @ r) = Inr r) \<Longrightarrow> skip_n sk (length ps) (concat ps @ r) = Inr r"
  by (induction ps) auto

lemma item_not_break:
  "item p \<Longrightarrow> (p @ r) ! 0 \<noteq> 0xff" "item p \<Longrightarrow> p @ r \<noteq> []"
  using item_first[of p] by auto

lemma skip_brk_concat:
  "(\<And>p r. p \<in> set ps \<Longrightarrow> sk (p @ r) = Inr r) \<Longrightarrow> list_all item ps \<Longrightarrow> length ps < k
   \<Longrightarrow> skip_brk k sk (concat ps @ [0xff] @ r) = Inr r"
proof (induction ps arbitrary: k)
  case Nil
  then show ?case by (cases k) (simp_all add: skip_brk.simps)
next
  case (Cons p ps)
  obtain k' where k: "k = Suc k'" "length ps < k'" using Cons.prems(3) by (cases k) auto
  let ?r = "concat ps @ [0xff] @ r"
  have "skip_brk k sk (p @ ?r) = rbind (sk (p @ ?r)) (skip_brk k' sk)"
    using Cons.prems(2) item_not_break[of p ?r] by (simp add: k skip_brk.simps)
  also have "\<dots> = skip_brk k' sk ?r" using Cons.prems(1)[of p ?r] by simp
  also have "\<dots> = Inr r" using Cons.prems k(2) by (intro Cons.IH) auto
  finally show ?case by simp
qed

lemma skip_item: "item p \<Longrightarrow> length p \<le> f \<Longrightarrow> skip f (p @ r) = Inr r"
proof (induction f arbitrary: p r)
  case 0
  then show ?case using item_length by fastforce
next
  case (Suc f)
  have IH: "skip f (q @ r) = Inr r" if "list_all item ps" "length (concat ps) \<le> f" "q \<in> set ps" for q ps r
    using Suc.IH[of q r] that list_all_concat_length[OF that(3)] by (simp add: list_all_iff)
  have cnt: "skip_n (skip f) (length ps) (concat ps @ r) = Inr r" if "list_all item ps" "length (concat ps) \<le> f" for ps
    using skip_n_concat[of ps "skip f" r] IH[OF that] by blast
  have brk: "skip_brk (Suc (length (concat ps @ [0xff] @ r))) (skip f) (concat ps @ [0xff] @ r) = Inr r"
    if "list_all item ps" "length (concat ps) \<le> f" for ps
    by (rule skip_brk_concat[OF IH[OF that] that(1)]) (use length_less_concat[OF that(1)] in blast)+
  show ?case using Suc.prems(1)
  proof cases
    case (str_chunks h t val cs)
    then show ?thesis using head_body_length[OF str_chunks(2)] head_get[OF str_chunks(2)] brk[of cs] chunks_items Suc.prems(2)
      by auto
  next
    case (arr h ai ps)
    then show ?thesis using head_body_length[OF arr(2)] head_get[OF arr(2)] cnt[of ps] Suc.prems(2) by simp
  next
    case (mp h ai n ps)
    then have "min (n * 2) (2 ^ 64 - 1) = length ps" by (simp add: MAX_MAP_PAIRS_def)
    then show ?thesis using mp head_body_length[OF mp(2)] head_get[OF mp(2)] cnt[of ps] Suc.prems(2) by simp
  next
    case (arr_brk h val ps)
    then show ?thesis using head_body_length[OF arr_brk(2)] head_get[OF arr_brk(2)] brk[of ps] Suc.prems(2) by simp
  next
    case (mp_brk h val ps)
    then show ?thesis using head_body_length[OF mp_brk(2)] head_get[OF mp_brk(2)] brk[of ps] Suc.prems(2) by simp
  next
    case (tag h ai val q)
    have "ai \<noteq> 31" using tag(2) by (auto simp: head_iff head_ok_def)
    then show ?thesis using tag head_body_length[OF tag(2)] head_get[OF tag(2)] Suc.IH[of q] Suc.prems(2) by simp
  next
    case (str h t ai b)
    then show ?thesis using head_get[OF str(2)] by auto
  next
    case (simple t ai val)
    then show ?thesis using head_get[OF simple(1)] by auto
  qed
qed

subsection \<open>Strings\<close>

lemma found_break_simps:
  "found_break ([0xff] @ r) = Inr (True, r)"
  "item p \<Longrightarrow> found_break (p @ r) = Inr (False, p @ r)"
  using item_first[of p] by (auto simp: found_break_def)

lemma take_bytes_append: "take_bytes (length b) (b @ r) = Inr (b, r)"
  by (simp add: take_bytes_def)

lemma chunk_payload:
  "chunk t c \<Longrightarrow> \<exists>ai b. get_head (c @ r) = Inr ((t, ai, length b), b @ r) \<and> length b \<le> length c"
  unfolding chunk_def using head_get by fastforce

lemma byte_chunks_concat:
  "list_all (chunk 2) cs \<Longrightarrow> \<exists>b'. byte_chunks b (concat cs @ [0xff] @ r) = Inr (b', r)"
proof (induction cs arbitrary: b)
  case Nil
  then show ?case by (simp add: byte_chunks.simps found_break_simps(1)[simplified])
next
  case (Cons c cs)
  let ?r = "concat cs @ [0xff] @ r"
  obtain ai x where g: "get_head (c @ ?r) = Inr ((2, ai, length x), x @ ?r)"
    using chunk_payload[of 2 c ?r] Cons.prems by auto
  have "item c" using Cons.prems by (auto intro: chunk_item)
  then have "byte_chunks b (c @ ?r) = byte_chunks (b @ x) ?r"
    by (subst byte_chunks.simps) (simp only: found_break_simps(2) g take_bytes_append sum.case prod.case bool.case)
  then show ?case using Cons.IH[of "b @ x"] Cons.prems by simp
qed

lemma parse_byte_string_item:
  assumes "item p" "major (p ! 0) = 2"
  shows "\<exists>b. parse_byte_string (p @ r) = Inr (b, r)"
proof (rule itemE[OF assms(1)], unfold assms(2))
  fix h ai val b assume p: "p = h @ b" "head h 2 ai val" "body 2 ai val b"
  then show ?thesis using head_get[OF p(2), of "b @ r"] byte_chunks_concat[of _ "[]" r] take_bytes_append[of b r]
    by (cases "ai = 31") (auto simp: parse_byte_string_def body_def)
qed

text \<open>A string result is valid UTF-8.\<close>

definition text_ok :: "(rstr, rstr) result \<Rightarrow> bool" where
  "text_ok x = (\<forall>s. x = Inr s \<longrightarrow> utf8_valid s)"

lemma text_chunks_concat:
  "list_all (chunk 3) cs \<Longrightarrow> length (concat cs) \<le> f \<Longrightarrow> utf8_valid b
   \<Longrightarrow> \<exists>x. text_chunks f b (concat cs @ [0xff] @ r) = Inr (x, r) \<and> text_ok x"
proof (induction cs arbitrary: b)
  case Nil
  then show ?case by (simp add: text_chunks.simps found_break_simps(1)[simplified] text_ok_def)
next
  case (Cons c cs)
  let ?r = "concat cs @ [0xff] @ r"
  obtain ai x where g: "get_head (c @ ?r) = Inr ((3, ai, length x), x @ ?r)"
    using chunk_payload[of 3 c ?r] Cons.prems by auto
  have ci: "item c" "list_all item cs" using Cons.prems(1) by (auto intro: chunk_item chunks_items[of 3])
  have "skip f (q @ r') = Inr r'" if "q \<in> set cs" for q r'
    using skip_item[of q f r'] ci(2) that list_all_concat_length[OF that] Cons.prems(2) by (simp add: list_all_iff)
  then have sk: "skip_brk (Suc (length ?r)) (skip f) ?r = Inr r"
    by (rule skip_brk_concat) (use ci length_less_concat in blast)+
  have "text_chunks f b (c @ ?r) =
      (if \<not> utf8_valid x then Inr (Inl utf8_err, r) else text_chunks f (b @ x) ?r)"
    by (subst text_chunks.simps)
      (simp only: found_break_simps(2)[OF ci(1)] g take_bytes_append sum.case prod.case bool.case sk rbind_simps)
  then show ?case using Cons.IH[of "b @ x"] Cons.prems
    by (auto simp: text_ok_def utf8_valid_append)
qed

lemma parse_text_string_item:
  assumes "item p" "major (p ! 0) = 3" "length p \<le> Suc f"
  shows "\<exists>x. parse_text_string f (p @ r) = Inr (x, r) \<and> text_ok x"
proof (rule itemE[OF assms(1)], unfold assms(2))
  fix h ai val b assume p: "p = h @ b" "head h 3 ai val" "body 3 ai val b"
  have l: "length b \<le> f" using head_body_length[OF p(2)] assms(3) p(1) by simp
  show ?thesis
  proof (cases "ai = 31")
    case True
    then obtain cs where cs: "b = concat cs @ [0xff]" "list_all (chunk 3) cs" using p(3) by (auto simp: body_def)
    then have "length (concat cs) \<le> f" using l by simp
    then show ?thesis using head_get[OF p(2), of "b @ r"] text_chunks_concat[OF cs(2), of f "[]" r] p(1) cs(1) True
      by (auto simp: parse_text_string_def)
  next
    case False
    then show ?thesis using p head_get[OF p(2), of "b @ r"] take_bytes_append[of b r]
      by (auto simp: parse_text_string_def text_ok_def body_def)
  qed
qed

subsection \<open>Tags\<close>

lemma next_major_item: "item p \<Longrightarrow> next_major (p @ r) = Inr (major (p ! 0))"
  using item_first[of p] by (auto simp: next_major_def)

lemma item_tag:
  assumes "item p" "major (p ! 0) = 6"
  obtains h ai val q where "p = h @ q" "head h 6 ai val" "item q"
proof (rule itemE[OF assms(1)], unfold assms(2))
  fix h ai val b assume p: "p = h @ b" "head h 6 ai val" "body 6 ai val b"
  then show thesis using that by (simp add: body_def)
qed

lemma strip_self_described_item:
  "item p \<Longrightarrow> \<exists>q. strip_self_described (p @ r) = Inr (q @ r) \<and> item q \<and> length q \<le> length p"
proof (induction "length p" arbitrary: p rule: less_induct)
  case less
  show ?case
  proof (cases "major (p ! 0) = 6")
    case False
    then have "strip_self_described (p @ r) = Inr (p @ r)"
      using next_major_item[OF less.prems, of r] by (subst strip_self_described.simps) simp
    then show ?thesis using less.prems by blast
  next
    case True
    then obtain h ai val q where t: "p = h @ q" "head h 6 ai val" "item q" using item_tag[OF less.prems] by metis
    have l: "length q < length p" using head_nonempty[OF t(2)] by (simp add: t(1))
    have "strip_self_described (p @ r) = (if val \<noteq> 55799 then Inr (p @ r) else strip_self_described (q @ r))"
      using next_major_item[OF less.prems, of r] True head_get[OF t(2), of "q @ r"]
      by (subst strip_self_described.simps) (simp add: t(1))
    then show ?thesis using less.hyps[OF l t(3)] less.prems l by fastforce
  qed
qed

text \<open>The content of a bignum tag is a byte string.\<close>

definition bignum_ok :: "byte list \<Rightarrow> bool" where
  "bignum_ok p = (\<forall>h ai val q. p = h @ q \<longrightarrow> head h 6 ai val \<longrightarrow> item q \<longrightarrow> val \<in> {2, 3} \<longrightarrow> major (q ! 0) = 2)"

text \<open>After the check the cursor stands on the same item, and a bignum tag is followed by a byte string;
  after a failed check the item is consumed.\<close>

lemma check_builtin_tag_item:
  assumes "item p" "length p \<le> Suc f"
  shows "(\<exists>e. check_builtin_tag f (p @ r) = Inr (Inl e, r))
    \<or> (check_builtin_tag f (p @ r) = Inr (Inr (), p @ r) \<and> bignum_ok p)"
proof (cases "major (p ! 0) = 6")
  case False
  then show ?thesis using next_major_item[OF assms(1), of r] head_0
    by (auto simp: check_builtin_tag_def bignum_ok_def)
next
  case True
  then obtain h ai val q where t: "p = h @ q" "head h 6 ai val" "item q" using item_tag[OF assms(1)] by metis
  obtain c q' where q: "q = c # q'" using item_first[OF t(3)] by blast
  have uniq: "val' = val \<and> q2 = q" if "p = h2 @ q2" "head h2 6 ai2 val'" for h2 q2 ai2 val'
    using head_get[OF t(2), of q] head_get[OF that(2), of q2] that(1) t(1) by simp
  have sk: "skip f (q @ r) = Inr r" using skip_item[OF t(3)] head_body_length[OF t(2)] assms(2) t(1) by simp
  have c: "check_builtin_tag f (p @ r) =
      (case valid_builtin_tag val c of Inl e \<Rightarrow> Inr (Inl e, r) | Inr _ \<Rightarrow> Inr (Inr (), p @ r))"
    using next_major_item[OF assms(1), of r] True head_get[OF t(2), of "q @ r"] sk
    by (simp add: check_builtin_tag_def t(1) q split: sum.split)
  show ?thesis
  proof (cases "valid_builtin_tag val c")
    case (Inr u)
    then have "val \<in> {2, 3} \<longrightarrow> major c = 2" by (auto simp: valid_builtin_tag_def Let_def split: if_splits)
    moreover have "major (q2 ! 0) = 2" if "p = h2 @ q2" "head h2 6 ai2 val'" "val' \<in> {2, 3}" for h2 q2 ai2 val'
      using uniq[OF that(1,2)] that(3) calculation q by auto
    ultimately show ?thesis using c Inr by (auto simp: bignum_ok_def)
  qed (use c in simp)
qed

subsection \<open>Arrays and maps\<close>

text \<open>A parsing step handles an item when it consumes exactly that item, whatever follows.\<close>

definition handles :: "'a vstep \<Rightarrow> byte list \<Rightarrow> bool" where
  "handles prs p = (\<forall>r. \<exists>x. prs (p @ r) = Inr (x, r))"

definition close :: "bool \<Rightarrow> byte list" where
  "close has_size = (if has_size then [] else [0xff])"

lemma loop_end_close:
  "loop_end hs 0 (close hs @ r) = Inr (True, r)"
  by (simp add: loop_end_def close_def found_break_def)

lemma loop_end_item:
  "item p \<Longrightarrow> hs \<longrightarrow> 0 < n \<Longrightarrow> loop_end hs n (p @ r) = Inr (False, p @ r)"
  by (simp add: loop_end_def found_break_simps(2))

lemma handlesE:
  assumes "handles prs p"
  obtains x where "prs (p @ r) = Inr (x, r)"
  using assms unfolding handles_def by blast

lemma parse_array_concat:
  "\<forall>p\<in>set ps. handles prs p \<Longrightarrow> list_all item ps \<Longrightarrow> length ps < k \<Longrightarrow> n = (if hs then length ps else n)
   \<Longrightarrow> \<exists>fe'. parse_array k prs hs n fe (concat ps @ close hs @ r) = Inr (fe', r)"
proof (induction ps arbitrary: k n fe)
  case Nil
  then show ?case
    by (cases k) (auto simp: parse_array.simps loop_end_def close_def found_break_def)
next
  case (Cons p ps)
  obtain k' where k: "k = Suc k'" "length ps < k'" using Cons.prems(3) by (cases k) auto
  let ?r = "concat ps @ close hs @ r"
  obtain x where x: "prs (p @ ?r) = Inr (x, ?r)" using handlesE[of prs p ?r] Cons.prems(1) by auto
  have "loop_end hs n (p @ ?r) = Inr (False, p @ ?r)"
    using Cons.prems by (intro loop_end_item) (auto split: if_splits)
  then have "parse_array k prs hs n fe (p @ ?r) = parse_array k' prs hs (n - 1) (note_err fe x) ?r"
    using x by (simp add: k parse_array.simps)
  then show ?case using Cons.IH[of k' "n - 1" "note_err fe x"] Cons.prems k(2) by (auto split: if_splits)
qed

lemma parse_map_concat:
  assumes sk: "\<And>p r. item p \<Longrightarrow> length p \<le> m \<Longrightarrow> sk (p @ r) = Inr r"
  shows "\<forall>p\<in>set ps. handles prs p \<Longrightarrow> list_all item ps \<Longrightarrow> length (concat ps) \<le> m \<Longrightarrow> even (length ps) \<Longrightarrow> length ps < k
   \<Longrightarrow> n = (if hs then length ps div 2 else n)
   \<Longrightarrow> \<exists>fe'. parse_map k prs sk hs n fe (concat ps @ close hs @ r) = Inr (fe', r)"
proof (induction ps arbitrary: k n fe rule: induct_list012)
  case 1
  then show ?case
    by (cases k) (auto simp: parse_map.simps loop_end_def close_def found_break_def)
next
  case (3 p q ps)
  obtain k' where k: "k = Suc k'" "length ps < k'" using 3(7) by (cases k) auto
  let ?r = "concat ps @ close hs @ r"
  obtain x where x: "prs (p @ q @ ?r) = Inr (x, q @ ?r)" using handlesE[of prs p "q @ ?r"] 3(3) by auto
  obtain y where y: "prs (q @ ?r) = Inr (y, ?r)" using handlesE[of prs q ?r] 3(3) by auto
  have s: "sk (q @ ?r) = Inr ?r" using sk[of q ?r] 3(4,5) by simp
  have le: "loop_end hs n (p @ q @ ?r) = Inr (False, p @ q @ ?r)"
    using 3(4,8) by (intro loop_end_item) (auto split: if_splits)
  have "\<exists>fe1. parse_map k prs sk hs n fe (p @ q @ ?r) = parse_map k' prs sk hs (n - 1) fe1 ?r"
    using x y s le by (auto simp: k parse_map.simps split: sum.splits)
  then obtain fe1 where fe1: "parse_map k prs sk hs n fe (p @ q @ ?r) = parse_map k' prs sk hs (n - 1) fe1 ?r" by blast
  have n: "n - 1 = (if hs then length ps div 2 else n - 1)" using 3(8) by (cases hs) simp_all
  from 3(1)[OF _ _ _ _ k(2) n, of fe1] show ?case using 3(3-6) fe1 by simp
qed simp

lemma close_if: "concat ps @ close (ai \<noteq> 31) = (if ai \<noteq> 31 then concat ps else concat ps @ [0xff])"
  by (simp add: close_def)

subsection \<open>Values\<close>

definition value_ok :: "(cval, rstr) result \<Rightarrow> bool" where
  "value_ok x = (\<forall>s. x = Inr (Text s) \<longrightarrow> utf8_valid s)"

lemma not_text: "negative_of v \<noteq> Text s" "primitive_of ai v \<noteq> Text s"
  by (simp_all add: negative_of_def primitive_of_def)

lemma or_err_value: "v = Arr \<or> v = Map \<Longrightarrow> value_ok (or_err fe v)"
  by (auto simp: value_ok_def or_err_def split: option.splits)

lemma head_tag_31: "head h 6 ai val \<Longrightarrow> ai \<noteq> 31"
  by (auto simp: head_iff head_ok_def)

lemma body_cases:
  assumes "body t ai val b" "t \<in> {4, 5}"
  obtains ps where "list_all item ps" "b = concat ps @ close (ai \<noteq> 31)"
    "ai \<noteq> 31 \<longrightarrow> length ps = (if t = 5 then 2 else 1) * val" "t = 5 \<longrightarrow> even (length ps)"
  using assms by (cases "ai = 31") (auto simp: body_def close_def)

lemma parse_dispatch_item:
  assumes p: "item p" "length p \<le> Suc f"
    and prs: "\<And>q b. item q \<Longrightarrow> length q \<le> f \<Longrightarrow> handles (prs b) q"
    and big: "bignum_ok p"
  shows "\<exists>x. parse_dispatch f prs (p @ r) = Inr (x, r) \<and> value_ok x"
proof (rule itemE[OF p(1)])
  define t where "t = major (p ! 0)"
  fix h ai val b assume "p = h @ b" "head h (major (p ! 0)) ai val" "body (major (p ! 0)) ai val b"
  then have h: "p = h @ b" "head h t ai val" "body t ai val b" by (simp_all add: t_def)
  have l: "length b \<le> f" using head_body_length[OF h(2)] p(2) h(1) by simp
  note g = head_get[OF h(2), of "b @ r"] next_major_item[OF p(1), of r, folded t_def]
  have t8: "t < 8" using major_less t_def by simp
  consider "t \<in> {0, 1, 7}" | "t = 2" | "t = 3" | "t = 4" | "t = 5" | "t = 6" using t8 by force
  then show ?thesis
  proof cases
    case 1
    then have "b = []" using h(3) by (auto simp: body_def)
    then show ?thesis using 1 g h(1)
      by (elim insertE emptyE) (simp_all add: parse_dispatch_def value_ok_def not_text)
  next
    case 2
    then show ?thesis using g(2) parse_byte_string_item[OF p(1), of r] by (auto simp: parse_dispatch_def value_ok_def t_def)
  next
    case 3
    then show ?thesis using g(2) parse_text_string_item[OF p(1) _ p(2), of r]
      by (auto simp: parse_dispatch_def value_ok_def text_ok_def t_def)
  next
    case 4
    obtain ps where ps: "list_all item ps" "b = concat ps @ close (ai \<noteq> 31)" "ai \<noteq> 31 \<longrightarrow> length ps = val"
      using body_cases[OF h(3)] 4 by auto
    have "\<exists>fe. parse_array (Suc (val + length (b @ r))) (prs True) (ai \<noteq> 31) val None (b @ r) = Inr (fe, r)"
      unfolding ps(2) append_assoc
      by (rule parse_array_concat) (use ps l prs length_le_concat[OF ps(1)] list_all_concat_length in \<open>fastforce simp: list_all_iff\<close>)+
    then show ?thesis using 4 g h(1) or_err_value by (auto simp: parse_dispatch_def)
  next
    case 5
    obtain ps where ps: "list_all item ps" "b = concat ps @ close (ai \<noteq> 31)" "ai \<noteq> 31 \<longrightarrow> length ps = 2 * val" "even (length ps)"
      using body_cases[OF h(3)] 5 by auto
    have "\<exists>fe. parse_map (Suc (val + length (b @ r))) (prs True) (skip f) (ai \<noteq> 31) val None (b @ r) = Inr (fe, r)"
      unfolding ps(2) append_assoc
      by (rule parse_map_concat[OF skip_item]) (use ps l prs length_le_concat[OF ps(1)] list_all_concat_length in \<open>fastforce simp: list_all_iff\<close>)+
    then show ?thesis using 5 g h(1) or_err_value by (auto simp: parse_dispatch_def)
  next
    case 6
    then have q: "item b" using h(3) by (simp add: body_def)
    show ?thesis
    proof (cases "val = 2 \<or> val = 3")
      case True
      then show ?thesis using big[unfolded bignum_ok_def] q h 6 g parse_byte_string_item[OF q, of r]
        by (auto simp: parse_dispatch_def value_ok_def)
    next
      case False
      obtain x where "prs False (b @ r) = Inr (x, r)" using handlesE[OF prs[OF q l]] by blast
      then show ?thesis using False 6 g h(1)
        by (auto simp: parse_dispatch_def parse_to_time_def value_ok_def rbind_def split: sum.splits)
    qed
  qed
qed

lemma parse_item:
  "item p \<Longrightarrow> length p \<le> f \<Longrightarrow> \<exists>x. parse f st (p @ r) = Inr (x, r) \<and> value_ok x"
proof (induction f arbitrary: p st r)
  case 0
  then show ?case using item_length by fastforce
next
  case (Suc f)
  obtain q where q: "(if st then strip_self_described (p @ r) else Inr (p @ r)) = Inr (q @ r)" "item q" "length q \<le> Suc f"
    using strip_self_described_item[OF Suc.prems(1), of r] Suc.prems by (cases st) fastforce+
  have IH: "handles (parse f b) p'" if "item p'" "length p' \<le> f" for p' b
    using Suc.IH[OF that] unfolding handles_def by blast
  from check_builtin_tag_item[OF q(2,3), of r]
  show ?case
  proof (elim disjE exE conjE)
    fix e assume "check_builtin_tag f (q @ r) = Inr (Inl e, r)"
    then show ?thesis using q(1) by (simp add: value_ok_def)
  next
    assume c: "check_builtin_tag f (q @ r) = Inr (Inr (), q @ r)" and b: "bignum_ok q"
    obtain x where "parse_dispatch f (parse f) (q @ r) = Inr (x, r)" "value_ok x"
      using parse_dispatch_item[of q f "parse f" r, OF q(2,3) IH b] by blast
    then show ?thesis using q(1) c by simp
  qed
qed


subsection \<open>Keys, values and the entry point\<close>

lemma parse_value_item:
  assumes "item p" "length p \<le> f"
  shows "\<exists>x. parse_value f (p @ r) = Inr (x, r) \<and> value_ok x"
proof -
  obtain q where "strip_self_described (p @ r) = Inr (q @ r)" "item q" "length q \<le> length p"
    using strip_self_described_item[OF assms(1)] by blast
  then show ?thesis using parse_item[of q f False r] assms(2) by (simp add: parse_value_def)
qed

text \<open>The common frame of \<open>parse_key\<close> and \<open>parse_top_to_map\<close>: strip the self-described tag, check
  a built-in tag, and continue on the item found. What the continuation guarantees on every
  item, the frame guarantees.\<close>

lemma frame_item:
  assumes p: "item p" "length p \<le> Suc f"
    and err: "\<And>e. P (Inl e)"
    and k: "\<And>q. item q \<Longrightarrow> length q \<le> Suc f \<Longrightarrow> bignum_ok q \<Longrightarrow> \<exists>x. k (q @ r) = Inr (x, r) \<and> P x"
  shows "\<exists>x. rbind (strip_self_described (p @ r)) (\<lambda>bs. rbind (check_builtin_tag f bs) (\<lambda>(c, bs1).
      case c of Inl e \<Rightarrow> Inr (Inl e, bs1) | Inr _ \<Rightarrow> k bs1)) = Inr (x, r) \<and> P x"
proof -
  obtain q where q: "strip_self_described (p @ r) = Inr (q @ r)" "item q" "length q \<le> length p"
    using strip_self_described_item[OF p(1)] by blast
  then have l: "length q \<le> Suc f" using p(2) by simp
  from check_builtin_tag_item[OF q(2) l, of r] show ?thesis
    using q err k[OF q(2) l] by auto
qed

lemma dispatch_item:
  assumes "item q"
  obtains h ai val b where "q = h @ b" "get_head (q @ r) = Inr ((major (q ! 0), ai, val), b @ r)"
    "next_major (q @ r) = Inr (major (q ! 0))" "major (q ! 0) < 8" "length (h @ b) \<le> Suc f \<longrightarrow> length b \<le> f"
    "major (q ! 0) \<in> {0, 1, 7} \<longrightarrow> b = []"
    "major (q ! 0) = 6 \<longrightarrow> item b \<and> (bignum_ok q \<longrightarrow> val \<in> {2, 3} \<longrightarrow> major (b ! 0) = 2)"
proof (rule itemE[OF assms])
  fix h ai val b assume q: "q = h @ b" "head h (major (q ! 0)) ai val" "body (major (q ! 0)) ai val b"
  show thesis
    by (rule that[OF q(1), of ai val])
      (use q head_get[OF q(2)] next_major_item[OF assms] major_less head_body_length[OF q(2)] in
        \<open>auto simp: body_def bignum_ok_def\<close>)
qed

lemma key_body_item:
  assumes q: "item q" "length q \<le> Suc f" "bignum_ok q" "utf8_valid slot"
    and rec: "\<And>q'. item q' \<Longrightarrow> length q' \<le> f \<Longrightarrow> \<exists>x. pkey (q' @ r) = Inr (x, r) \<and> text_ok x"
  shows "\<exists>x. key_body f pkey slot (q @ r) = Inr (x, r) \<and> text_ok x"
proof (rule dispatch_item[OF q(1), of r f])
  define t where "t = major (q ! 0)"
  fix h ai val b
  assume h: "q = h @ b" and g: "get_head (q @ r) = Inr ((major (q ! 0), ai, val), b @ r)"
    "next_major (q @ r) = Inr (major (q ! 0))" and t8: "major (q ! 0) < 8"
    and l: "length (h @ b) \<le> Suc f \<longrightarrow> length b \<le> f" and b: "major (q ! 0) \<in> {0, 1, 7} \<longrightarrow> b = []"
    "major (q ! 0) = 6 \<longrightarrow> item b \<and> (bignum_ok q \<longrightarrow> val \<in> {2, 3} \<longrightarrow> major (b ! 0) = 2)"
  note g = g[folded t_def] and b = b[folded t_def]
  note p2 = parse_byte_string_item[OF q(1), of r, folded t_def] and p3 = parse_text_string_item[OF q(1) _ q(2), of r, folded t_def]
    and sk = skip_item[OF q(1,2), of r]
  consider "t \<in> {0, 1, 7}" | "t = 2" | "t = 3" | "t = 4 \<or> t = 5" | "t = 6" using t8[folded t_def] by force
  then show ?thesis
  proof cases
    case 1
    then show ?thesis using g b(1) q(4) by (elim insertE emptyE) (auto simp: key_body_def text_ok_def)
  next
    case 5
    then have i: "item b" "val \<in> {2, 3} \<longrightarrow> major (b ! 0) = 2" "length b \<le> f" using b(2) q(2,3) l h by auto
    show ?thesis using g 5 i(2) rec[OF i(1,3)] parse_byte_string_item[OF i(1), of r]
      by (cases "val \<in> {2, 3}") (auto simp: key_body_def text_ok_def)
  qed (use g p2 p3 sk in \<open>auto simp: key_body_def text_ok_def simp del: skip.simps\<close>)
qed

lemma parse_key_item:
  "item p \<Longrightarrow> length p \<le> f \<Longrightarrow> utf8_valid slot \<Longrightarrow> \<exists>x. parse_key f slot (p @ r) = Inr (x, r) \<and> text_ok x"
proof (induction f arbitrary: p)
  case 0
  then show ?case using item_length by fastforce
next
  case (Suc f)
  show ?case unfolding parse_key.simps
    by (rule frame_item[OF Suc.prems(1,2)]) (auto simp: text_ok_def[of "Inl _"] intro!: key_body_item Suc.IH Suc.prems(3))
qed

text \<open>The type invariant of the decoded map: distinct keys, all strings valid UTF-8.\<close>

definition entries_ok :: "(rstr \<times> cval) list \<Rightarrow> bool" where
  "entries_ok es = (distinct (map fst es) \<and> (\<forall>(k, v)\<in>set es. utf8_valid k \<and> value_ok (Inr v)))"

definition map_ok :: "((rstr \<times> cval) list, rstr) result \<Rightarrow> bool" where
  "map_ok x = (\<forall>es. x = Inr es \<longrightarrow> entries_ok es)"

lemma set_put_entry: "set (put_entry k v es) \<subseteq> insert (k, v) (set es)"
  by (induction es rule: put_entry.induct) auto

lemma keys_put_entry: "map fst (put_entry k v es) = (if k \<in> fst ` set es then map fst es else map fst es @ [k])"
  by (induction k v es rule: put_entry.induct) auto

lemma put_entry_ok: "entries_ok es \<Longrightarrow> utf8_valid k \<Longrightarrow> value_ok (Inr v) \<Longrightarrow> entries_ok (put_entry k v es)"
  using set_put_entry[of k v es] by (fastforce simp: entries_ok_def keys_put_entry)

lemma localmap_loop_concat:
  "list_all item ps \<Longrightarrow> length (concat ps) \<le> f \<Longrightarrow> even (length ps) \<Longrightarrow> length ps < k
   \<Longrightarrow> n = (if hs then length ps div 2 else n) \<Longrightarrow> utf8_valid slot \<Longrightarrow> entries_ok es
   \<Longrightarrow> \<exists>x. localmap_loop k f hs n fe slot es (concat ps @ close hs @ r) = Inr (x, r) \<and> map_ok x"
proof (induction ps arbitrary: k n fe slot es rule: induct_list012)
  case 1
  then show ?case
    by (cases k) (auto simp: localmap_loop.simps loop_end_def close_def found_break_def map_ok_def or_err_def split: option.splits)
next
  case (3 p q ps)
  obtain k' where k: "k = Suc k'" "length ps < k'" using 3(6) by (cases k) auto
  let ?r = "concat ps @ close hs @ r"
  obtain x where x: "parse_key f slot (p @ q @ ?r) = Inr (x, q @ ?r)" "text_ok x"
    using parse_key_item[of p f slot "q @ ?r"] 3(3,4,8) by auto
  obtain y where y: "parse_value f (q @ ?r) = Inr (y, ?r)" "value_ok y"
    using parse_value_item[of q f ?r] 3(3,4) by auto
  have s: "skip f (q @ ?r) = Inr ?r" using skip_item[of q f ?r] 3(3,4) by simp
  have le: "loop_end hs n (p @ q @ ?r) = Inr (False, p @ q @ ?r)"
    using 3(3,7) by (intro loop_end_item) (auto split: if_splits)
  have n: "n - 1 = (if hs then length ps div 2 else n - 1)" using 3(7) by (cases hs) simp_all
  have IH: "\<exists>x. localmap_loop k' f hs (n - 1) fe' slot' es' ?r = Inr (x, r) \<and> map_ok x"
    if "utf8_valid slot'" "entries_ok es'" for fe' slot' es'
    using 3(1)[OF _ _ _ k(2) n that] 3(3-5) by simp
  show ?case
  proof (cases x)
    case (Inl e)
    then show ?thesis using x s le IH[OF 3(8,9)] by (simp add: k localmap_loop.simps)
  next
    case (Inr slot1)
    then have "utf8_valid slot1" using x(2) by (simp add: text_ok_def)
    then show ?thesis using x y le Inr IH[OF _ 3(9)] IH[OF _ put_entry_ok[OF 3(9)]]
      by (cases y) (simp_all add: k localmap_loop.simps)
  qed
qed simp

lemma parse_map_to_localmap_item:
  assumes "item q" "major (q ! 0) = 5" "length q \<le> Suc f"
  shows "\<exists>x. parse_map_to_localmap f (q @ r) = Inr (x, r) \<and> map_ok x"
proof (rule itemE[OF assms(1)], unfold assms(2))
  fix h ai val b assume q: "q = h @ b" "head h 5 ai val" "body 5 ai val b"
  obtain ps where ps: "list_all item ps" "b = concat ps @ close (ai \<noteq> 31)" "ai \<noteq> 31 \<longrightarrow> length ps = 2 * val" "even (length ps)"
    using body_cases[OF q(3)] by auto
  have l: "length (concat ps) \<le> f" using head_body_length[OF q(2), of b f] assms(3) q(1) ps(2) by simp
  have k: "length ps < Suc (val + length (b @ r))" 
    using length_less_concat[OF ps(1), of "close (ai \<noteq> 31) @ r"] unfolding ps(2) by simp
  have "\<exists>x. localmap_loop (Suc (val + length (b @ r))) f (ai \<noteq> 31) val None [] [] (b @ r) = Inr (x, r) \<and> map_ok x"
    using localmap_loop_concat[OF ps(1) l ps(4) k, of val "ai \<noteq> 31" "[]" "[]" None r] ps(2,3)
    by (auto simp: entries_ok_def)
  then show ?thesis using head_get[OF q(2), of "b @ r"] q(1) by (simp add: parse_map_to_localmap_def)
qed

lemma top_body_item:
  assumes q: "item q" "length q \<le> Suc f" "bignum_ok q"
    and rec: "\<And>q'. item q' \<Longrightarrow> length q' \<le> f \<Longrightarrow> \<exists>x. ptop (q' @ r) = Inr (x, r) \<and> map_ok x"
  shows "\<exists>x. top_body f ptop (q @ r) = Inr (x, r) \<and> map_ok x"
proof (rule dispatch_item[OF q(1), of r f])
  define t where "t = major (q ! 0)"
  fix h ai val b
  assume h: "q = h @ b" and g: "get_head (q @ r) = Inr ((major (q ! 0), ai, val), b @ r)"
    "next_major (q @ r) = Inr (major (q ! 0))" and t8: "major (q ! 0) < 8"
    and l: "length (h @ b) \<le> Suc f \<longrightarrow> length b \<le> f" and b: "major (q ! 0) \<in> {0, 1, 7} \<longrightarrow> b = []"
    "major (q ! 0) = 6 \<longrightarrow> item b \<and> (bignum_ok q \<longrightarrow> val \<in> {2, 3} \<longrightarrow> major (b ! 0) = 2)"
  note g = g[folded t_def] and b = b[folded t_def]
  note p2 = parse_byte_string_item[OF q(1), of r, folded t_def] and p3 = parse_text_string_item[OF q(1) _ q(2), of r, folded t_def]
    and p5 = parse_map_to_localmap_item[OF q(1) _ q(2), of r, folded t_def] and sk = skip_item[OF q(1,2), of r]
  consider "t \<in> {0, 1, 7}" | "t = 2" | "t = 3" | "t = 4" | "t = 5" | "t = 6" using t8[folded t_def] by force
  then show ?thesis
  proof cases
    case 1
    then show ?thesis using g b(1) by (elim insertE emptyE) (auto simp: top_body_def map_ok_def entries_ok_def)
  next
    case 3
    then obtain x where "parse_text_string f (q @ r) = Inr (x, r)" using p3 by blast
    then show ?thesis using g 3 by (cases x) (auto simp: top_body_def map_ok_def)
  next
    case 6
    then have i: "item b" "val \<in> {2, 3} \<longrightarrow> major (b ! 0) = 2" "length b \<le> f" using b(2) q(2,3) l h by auto
    show ?thesis using g 6 i(2) rec[OF i(1,3)] parse_byte_string_item[OF i(1), of r]
      by (cases "val \<in> {2, 3}") (auto simp: top_body_def map_ok_def)
  qed (use g p2 p5 sk in \<open>auto simp: top_body_def map_ok_def simp del: skip.simps\<close>)
qed

lemma parse_top_item:
  "item p \<Longrightarrow> length p \<le> f \<Longrightarrow> \<exists>x. parse_top_to_map f (p @ r) = Inr (x, r) \<and> map_ok x"
proof (induction f arbitrary: p)
  case 0
  then show ?case using item_length by fastforce
next
  case (Suc f)
  show ?case unfolding parse_top_to_map.simps
    by (rule frame_item[OF Suc.prems]) (auto simp: map_ok_def[of "Inl _"] intro!: top_body_item Suc.IH)
qed

text \<open>Decoding the CBOR map of an argument payload never panics and always ends: on every input the
  result is an error text or a map, and the map has distinct keys and only valid UTF-8 strings. No index or slice of the
  parser is ever out of range on data the validator accepts, and the \<open>expect\<close> on concatenated text chunks holds.\<close>

lemma cbor_localmap_cases:
  "(\<exists>e. cbor_unmarshal_localmap data = Inl (Err e))
   \<or> (\<exists>es. cbor_unmarshal_localmap data = Inr es \<and> entries_ok es)"
proof (cases "data = []")
  case True
  then show ?thesis by (simp add: cbor_unmarshal_localmap_def)
next
  case False
  let ?n = "Suc (length data)"
  show ?thesis
  proof (cases "valid_internal ?n 0 data")
    case (Inl s)
    then have "\<exists>e. s = Err e" using liveD[OF valid_internal_live[of "length data" ?n]] by blast
    then show ?thesis using Inl False by (auto simp: cbor_unmarshal_localmap_def)
  next
    case (Inr x)
    then obtain d r where v: "valid_internal ?n 0 data = Inr (d, r)" by (cases x) auto
    obtain p where p: "data = p @ r" "item p" using soundD[OF valid_internal_sound v] by blast
    then obtain m where m: "parse_top_to_map ?n data = Inr (m, r)" "map_ok m"
      using parse_top_item[of p ?n r] by auto
    have "cbor_unmarshal_localmap data = map_err Err m"
      unfolding cbor_unmarshal_localmap_def v m(1) using False by (simp only: if_False rbind_simps prod.case)
    then show ?thesis using m(2) by (cases m) (simp_all add: map_ok_def)
  qed
qed

end
