(* ===== verification/Gfp.thy ===== *)
theory Gfp
  imports Prelude
begin

text \<open>
  The base field of the bn256 curve (\<open>cryptography/bn256/src/gfp.rs\<close>): elements are four 64-bit words, least significant
  first, in Montgomery form; all arithmetic wraps. An array of words is a list; the loops that carry from
  word to word are recursions over the two lists. Lemmas: each operation computes its value modulo the
  prime, with no overflow lost and no input left unreduced.
\<close>

section \<open>Constants\<close>

type_synonym gfp = "u64 list"

definition P2 :: gfp where
  "P2 = [0x3c208c16d87cfd47, 0x97816a916871ca8d, 0xb85045b68181585d, 0x30644e72e131a029]"

definition NP :: gfp where
  "NP = [0x87d20782e4866389, 0x9ede7d651eca6ac9, 0xd8afcbd01833da80, 0xf57a22b791888c6b]"

definition RN1 :: gfp where
  "RN1 = [0xed84884a014afa37, 0xeb2022850278edf8, 0xcf63e9cfb74492d9, 0x2e67157159e5c639]"

definition R2 :: gfp where
  "R2 = [0xf32cfc5b538afa89, 0xb5e71911d44501fb, 0x47ab1eff0a417ff6, 0x06d89f71cab8351f]"

definition R3 :: gfp where
  "R3 = [0xb1cd6dafda1530df, 0x62f210e6a7283db6, 0xef7f0b0c0ada0afb, 0x20fd6e902d592544]"

definition gfp_zero :: gfp where
  "gfp_zero = [0, 0, 0, 0]"

section \<open>Addition, subtraction, negation\<close>

text \<open>The carry of \<open>a + b + carry\<close> and the borrow of \<open>m - s - carry\<close>, from the top bits.\<close>

definition carry_out :: "u64 \<Rightarrow> u64 \<Rightarrow> u64 \<Rightarrow> u64" where
  "carry_out a b c = drop_bit 63 ((a AND b) OR ((a OR b) AND NOT c))"

definition borrow_out :: "u64 \<Rightarrow> u64 \<Rightarrow> u64 \<Rightarrow> u64" where
  "borrow_out m s c = drop_bit 63 ((s AND NOT m) OR ((s OR NOT m) AND c))"

fun add_loop :: "u64 \<Rightarrow> u64 list \<Rightarrow> u64 list \<Rightarrow> u64 list \<times> u64" where
  "add_loop carry (a # as) (b # bs) =
     (let c = a + b + carry; (cs, out) = add_loop (carry_out a b c) as bs in (c # cs, out))"
| "add_loop carry _ _ = ([], carry)"

fun sub_loop :: "u64 \<Rightarrow> u64 list \<Rightarrow> u64 list \<Rightarrow> u64 list \<times> u64" where
  "sub_loop carry (m # ms) (s # ss) =
     (let c = m - s - carry; (cs, out) = sub_loop (borrow_out m s c) ms ss in (c # cs, out))"
| "sub_loop carry _ _ = ([], carry)"

definition gfp_carry :: "gfp \<Rightarrow> u64 \<Rightarrow> gfp" where
  "gfp_carry a head =
     (let (b, carry) = sub_loop 0 a P2;
          carry = carry AND NOT head;
          carry = - carry;
          ncarry = NOT carry
      in map2 (\<lambda>ai bi. (ai AND carry) OR (bi AND ncarry)) a b)"

definition gfp_neg :: "gfp \<Rightarrow> gfp" where
  "gfp_neg a = gfp_carry (fst (sub_loop 0 P2 a)) 0"

definition gfp_add :: "gfp \<Rightarrow> gfp \<Rightarrow> gfp" where
  "gfp_add a b = (let (c, carry) = add_loop 0 a b in gfp_carry c carry)"

definition gfp_sub :: "gfp \<Rightarrow> gfp \<Rightarrow> gfp" where
  "gfp_sub a b =
     (let t = fst (sub_loop 0 P2 b); (c, carry) = add_loop 0 a t in gfp_carry c carry)"

section \<open>Multiplication\<close>

definition add_at :: "nat \<Rightarrow> u64 \<Rightarrow> u64 list \<Rightarrow> u64 list" where
  "add_at k x buff = buff[k := buff ! k + x]"

text \<open>The product of one word of each operand, in pieces of 16 and 32 bits, added into the cells from \<open>off\<close>.\<close>

definition mul_word :: "u64 \<Rightarrow> u64 \<Rightarrow> nat \<Rightarrow> u64 list \<Rightarrow> u64 list" where
  "mul_word ai bj off buff =
     (let a0 = ai AND 0xffff; a1 = drop_bit 16 ai AND 0xffff; a2 = drop_bit 32 ai AND 0xffff; a3 = drop_bit 48 ai;
          b0 = bj AND 0xffffffff; b2 = drop_bit 32 bj
      in add_at (off + 5) (a3 * b2)
          (add_at (off + 4) (a2 * b2)
          (add_at (off + 3) (a3 * b0 + a1 * b2)
          (add_at (off + 2) (a2 * b0 + a0 * b2)
          (add_at (off + 1) (a1 * b0)
          (add_at off (a0 * b0) buff))))))"

text \<open>One carry pass: the cells at distance \<open>i\<close> are folded into the first cell of each block of four.\<close>

definition pass_step :: "nat \<Rightarrow> nat \<Rightarrow> u64 list \<times> u64 \<times> u64 \<Rightarrow> u64 list \<times> u64 \<times> u64" where
  "pass_step i j st =
     (let (buff, head, carry) = st;
          shift = 16 * i;
          block = 4 * j;
          xi = buff ! block;
          yi = push_bit shift (buff ! (block + i)) + head;
          zi = xi + yi + carry
      in (buff[block := zi], drop_bit (64 - shift) (buff ! (block + i)), carry_out xi yi zi))"

definition mul_pass :: "nat \<Rightarrow> nat \<Rightarrow> u64 list \<Rightarrow> u64 list" where
  "mul_pass n i buff = fst (fold (pass_step i) [0..<n] (buff, 0, 0))"

definition mul :: "u64 list \<Rightarrow> u64 list \<Rightarrow> u64 list" where
  "mul a b =
     (let buff = fold (\<lambda>i buff. fold (\<lambda>j buff. mul_word (a ! i) (b ! j) (4 * (i + j)) buff) [0..<4] buff) [0..<4] (replicate 32 0);
          buff = fold (mul_pass 8) [1..<4] buff
      in map (\<lambda>j. buff ! (4 * j)) [0..<8])"

text \<open>The inner loop breaks at \<open>i + j > 3\<close>.\<close>

definition half_mul :: "u64 list \<Rightarrow> u64 list \<Rightarrow> u64 list" where
  "half_mul a b =
     (let buff = fold (\<lambda>i buff. fold (\<lambda>j buff. mul_word (a ! i) (b ! j) (4 * (i + j)) buff) [0..<4 - i] buff) [0..<4] (replicate 18 0);
          buff = fold (mul_pass 4) [1..<4] buff
      in map (\<lambda>j. buff ! (4 * j)) [0..<4])"

definition gfp_mul :: "gfp \<Rightarrow> gfp \<Rightarrow> gfp" where
  "gfp_mul a b =
     (let t = mul a b;
          m = half_mul (take 4 t) NP;
          tp = mul m P2;
          (t, carry) = add_loop 0 t tp
      in gfp_carry (drop 4 t) carry)"

definition mont_encode :: "gfp \<Rightarrow> gfp" where
  "mont_encode a = gfp_mul a R2"

definition mont_decode :: "gfp \<Rightarrow> gfp" where
  "mont_decode a = gfp_mul a [1, 0, 0, 0]"

text \<open>\<open>GfP::new\<close> of a small integer; negating the least \<open>i64\<close> would overflow and is never done.\<close>

definition gfp_new :: "int \<Rightarrow> gfp" where
  "gfp_new x = mont_encode (if x \<ge> 0 then [of_int x, 0, 0, 0] else gfp_neg [of_int (- x), 0, 0, 0])"

section \<open>Inversion\<close>

definition INVERT_BITS :: "u64 list" where
  "INVERT_BITS = [0x3c208c16d87cfd45, 0x97816a916871ca8d, 0xb85045b68181585d, 0x30644e72e131a029]"

definition invert_step :: "u64 \<Rightarrow> nat \<Rightarrow> gfp \<times> gfp \<Rightarrow> gfp \<times> gfp" where
  "invert_step w k st =
     (let (sum, power) = st; sum = (if drop_bit k w AND 1 = 1 then gfp_mul sum power else sum)
      in (sum, gfp_mul power power))"

definition invert :: "gfp \<Rightarrow> gfp" where
  "invert a =
     (let (sum, power) = fold (\<lambda>w st. fold (invert_step w) [0..<64] st) INVERT_BITS (RN1, a)
      in gfp_mul sum R3)"

section \<open>Bytes\<close>

datatype gfp_error = NotEnoughData | ExceedsModulus | EqualsModulus

definition marshal :: "gfp \<Rightarrow> byte list" where
  "marshal a = concat (map (\<lambda>w. map (\<lambda>b. ucast (drop_bit (56 - 8 * b) (a ! (3 - w)))) [0..<8]) [0..<4])"

definition load_word :: "byte list \<Rightarrow> nat \<Rightarrow> u64" where
  "load_word input w = fold (\<lambda>b v. v + push_bit (56 - 8 * b) (ucast (input ! (8 * w + b)))) [0..<8] 0"

text \<open>The comparison with the prime, from the most significant word down.\<close>

fun below_modulus :: "nat list \<Rightarrow> gfp \<Rightarrow> (gfp, gfp_error) result" where
  "below_modulus [] e = Inl EqualsModulus"
| "below_modulus (i # is) e =
     (if e ! i < P2 ! i then Inr e else if e ! i > P2 ! i then Inl ExceedsModulus else below_modulus is e)"

definition unmarshal :: "byte list \<Rightarrow> (gfp, gfp_error) result" where
  "unmarshal input =
     (if length input < 32 then Inl NotEnoughData
      else below_modulus [3, 2, 1, 0] (map (\<lambda>i. load_word input (3 - i)) [0..<4]))"

section \<open>Words and carries\<close>

text \<open>The value of a list of words in base \<open>2 ^ s\<close>.\<close>

fun wval :: "nat \<Rightarrow> u64 list \<Rightarrow> nat" where
  "wval s [] = 0"
| "wval s (w # ws) = unat w + 2 ^ s * wval s ws"

lemma unat_u64_less: "unat (w :: u64) < 2 ^ 64"
  using unsigned_less[of w, where 'a = nat] by simp

lemma wval_less: "wval 64 ws < 2 ^ (64 * length ws)"
proof (induction ws)
  case (Cons w ws)
  have "unat w + 2 ^ 64 * wval 64 ws < 2 ^ 64 * Suc (wval 64 ws)" using unat_u64_less[of w] by simp
  also have "\<dots> \<le> 2 ^ 64 * 2 ^ (64 * length ws)" using Cons by (intro mult_left_mono) simp_all
  finally show ?case by (simp add: power_add algebra_simps)
qed simp

lemma bit63: "bit w 63 \<longleftrightarrow> 2 ^ 63 \<le> unat w" for w :: u64
proof -
  have "bit w 63 \<longleftrightarrow> bit (unat w) 63" by (simp add: bit_unsigned_iff)
  then have "bit w 63 \<longleftrightarrow> odd (unat w div 2 ^ 63)" by (simp only: bit_iff_odd [of "unat w"])
  moreover have "unat w div 2 ^ 63 < 2" using unat_u64_less[of w] by (simp add: less_mult_imp_div_less)
  ultimately show ?thesis by (auto simp: less_2_cases_iff div_eq_0_iff not_le)
qed

lemma drop_63: "drop_bit 63 w = of_bool (bit w 63)" for w :: u64
proof (rule bit_word_eqI)
  fix n assume "n < LENGTH(64)"
  show "bit (drop_bit 63 w) n = bit (of_bool (bit w 63) :: u64) n"
    using bit_imp_le_length[of w "63 + n"] by (cases n) (auto simp: bit_drop_bit_eq bit_of_bool_iff)
qed

lemma carry_out_val:
  assumes "unat k \<le> 1"
  shows "unat a + unat b + unat k = unat (a + b + k) + 2 ^ 64 * unat (carry_out a b (a + b + k))" and "unat (carry_out a b (a + b + k)) \<le> 1"
proof -
  define c where "c = a + b + k"
  have c: "unat c = (unat a + unat b + unat k) mod 2 ^ 64" by (simp add: c_def unat_word_ariths mod_simps)
  have "carry_out a b c = of_bool ((bit a 63 \<and> bit b 63) \<or> ((bit a 63 \<or> bit b 63) \<and> \<not> bit c 63))"
    by (simp add: carry_out_def drop_63 bit_and_iff bit_or_iff bit_not_iff)
  then have co: "unat (carry_out a b c) = of_bool ((bit a 63 \<and> bit b 63) \<or> ((bit a 63 \<or> bit b 63) \<and> \<not> bit c 63))"
    by simp
  show "unat (carry_out a b (a + b + k)) \<le> 1" using co by (simp add: c_def)
  show "unat a + unat b + unat k = unat (a + b + k) + 2 ^ 64 * unat (carry_out a b (a + b + k))"
    using unat_u64_less[of a] unat_u64_less[of b] assms c unfolding c_def [symmetric] co bit63
    by (auto simp: mod_if)
qed


lemma borrow_out_val:
  assumes "unat k \<le> 1"
  shows "unat m + 2 ^ 64 * unat (borrow_out m s (m - s - k)) = unat (m - s - k) + unat s + unat k" and "unat (borrow_out m s (m - s - k)) \<le> 1"
proof -
  define c where "c = m - s - k"
  have m: "m = c + s + k" by (simp add: c_def)
  have um: "unat m = (unat c + unat s + unat k) mod 2 ^ 64" unfolding m by (simp add: unat_word_ariths mod_simps)
  have "borrow_out m s c = of_bool ((bit s 63 \<and> \<not> bit m 63) \<or> ((bit s 63 \<or> \<not> bit m 63) \<and> bit c 63))"
    by (simp add: borrow_out_def drop_63 bit_and_iff bit_or_iff bit_not_iff)
  then have bo: "unat (borrow_out m s c) = of_bool ((bit s 63 \<and> \<not> bit m 63) \<or> ((bit s 63 \<or> \<not> bit m 63) \<and> bit c 63))"
    by simp
  show "unat (borrow_out m s (m - s - k)) \<le> 1" using bo by (simp add: c_def)
  show "unat m + 2 ^ 64 * unat (borrow_out m s (m - s - k)) = unat (m - s - k) + unat s + unat k"
    using unat_u64_less[of c] unat_u64_less[of s] assms um unfolding c_def [symmetric] bo bit63
    by (auto simp: mod_if)
qed

lemma add_loop_val:
  assumes "length as = length bs" "unat k \<le> 1" "add_loop k as bs = (cs, out)"
  shows "wval 64 as + wval 64 bs + unat k = wval 64 cs + 2 ^ (64 * length as) * unat out \<and> unat out \<le> 1 \<and> length cs = length as"
  using assms
proof (induction as bs arbitrary: k cs out rule: list_induct2)
  case (Cons a as b bs)
  define c where "c = a + b + k"
  obtain cs' where cs': "add_loop (carry_out a b c) as bs = (cs', out)" "cs = c # cs'"
    using Cons.prems by (auto simp: Let_def c_def split: prod.splits)
  note v = carry_out_val[OF Cons.prems(1), of a b, folded c_def]
  from Cons.IH[OF v(2) cs'(1)] have ih: "wval 64 as + wval 64 bs + unat (carry_out a b c) = wval 64 cs' + 2 ^ (64 * length as) * unat out"
    "unat out \<le> 1" "length cs' = length as" by auto
  have "wval 64 (a # as) + wval 64 (b # bs) + unat k = (unat a + unat b + unat k) + 2 ^ 64 * (wval 64 as + wval 64 bs)"
    by (simp add: algebra_simps)
  also have "\<dots> = unat c + 2 ^ 64 * (wval 64 as + wval 64 bs + unat (carry_out a b c))"
    unfolding v(1) by (simp add: algebra_simps)
  also have "\<dots> = wval 64 (c # cs') + 2 ^ (64 * length (a # as)) * unat out"
    unfolding ih(1) by (simp add: algebra_simps power_add)
  finally show ?case using ih cs'(2) by simp
qed simp

lemma sub_loop_val:
  assumes "length ms = length ss" "unat k \<le> 1" "sub_loop k ms ss = (cs, out)"
  shows "wval 64 ms + 2 ^ (64 * length ms) * unat out = wval 64 cs + wval 64 ss + unat k \<and> unat out \<le> 1 \<and> length cs = length ms"
  using assms
proof (induction ms ss arbitrary: k cs out rule: list_induct2)
  case (Cons m ms s ss)
  define c where "c = m - s - k"
  obtain cs' where cs': "sub_loop (borrow_out m s c) ms ss = (cs', out)" "cs = c # cs'"
    using Cons.prems by (auto simp: Let_def c_def split: prod.splits)
  note v = borrow_out_val[OF Cons.prems(1), of m s, folded c_def]
  from Cons.IH[OF v(2) cs'(1)] have ih: "wval 64 ms + 2 ^ (64 * length ms) * unat out = wval 64 cs' + wval 64 ss + unat (borrow_out m s c)"
    "unat out \<le> 1" "length cs' = length ms" by auto
  have "wval 64 (m # ms) + 2 ^ (64 * length (m # ms)) * unat out = unat m + 2 ^ 64 * (wval 64 ms + 2 ^ (64 * length ms) * unat out)"
    by (simp add: algebra_simps power_add)
  also have "\<dots> = (unat m + 2 ^ 64 * unat (borrow_out m s c)) + 2 ^ 64 * (wval 64 cs' + wval 64 ss)"
    unfolding ih(1) by (simp add: algebra_simps)
  also have "\<dots> = wval 64 (c # cs') + wval 64 (s # ss) + unat k"
    unfolding v(1) by (simp add: algebra_simps)
  finally show ?case using ih cs'(2) by simp
qed simp


section \<open>Reduction, addition, subtraction, negation\<close>

text \<open>The prime (\<open>P_DECIMAL\<close> of \<open>consts.rs\<close>) and reduced elements.\<close>

definition field_prime :: nat where
  "field_prime = 21888242871839275222246405745257275088696311157297823662689037894645226208583"

definition reduced :: "gfp \<Rightarrow> bool" where
  "reduced a \<longleftrightarrow> length a = 4 \<and> wval 64 a < field_prime"

lemma wval_P2 [simp]: "wval 64 P2 = field_prime" "length P2 = 4"
  by (simp_all add: P2_def field_prime_def)

lemma field_prime_bounds: "0 < field_prime" "2 * field_prime < 2 ^ 256"
  by (simp_all add: field_prime_def)

lemma select_words:
  assumes "length a = length b"
  shows "map2 (\<lambda>ai bi. (ai AND - 1) OR (bi AND NOT (- 1))) a b = a"
    and "map2 (\<lambda>ai bi. (ai AND 0) OR (bi AND NOT 0)) a b = (b :: u64 list)"
  using assms by (induction a b rule: list_induct2) simp_all

lemma gfp_carry_val:
  assumes "length a = 4" "wval 64 a + 2 ^ 256 * unat head < 2 * field_prime"
  shows "reduced (gfp_carry a head) \<and> wval 64 (gfp_carry a head) = (wval 64 a + 2 ^ 256 * unat head) mod field_prime"
proof -
  have "unat head < 1" using assms(2) field_prime_bounds(2) by (cases "unat head") simp_all
  then have h: "head = 0" by (simp add: unat_eq_0)
  obtain b out where s: "sub_loop 0 a P2 = (b, out)" by fastforce
  from sub_loop_val[OF _ _ s] assms(1) have v: "wval 64 a + 2 ^ 256 * unat out = wval 64 b + field_prime" "unat out \<le> 1" "length b = 4"
    by simp_all
  have b: "wval 64 b < 2 ^ 256" using wval_less[of b] v(3) by simp
  show ?thesis
  proof (cases "out = 0")
    case True
    then have "gfp_carry a head = b" using select_words(2)[of a b] v(3) assms(1) s h by (simp add: gfp_carry_def)
    moreover have "wval 64 a = wval 64 b + field_prime" using v(1) True by simp
    ultimately show ?thesis using assms(2) v(3) h by (simp add: reduced_def)
  next
    case False
    then have "unat out = 1" using v(2) by (metis One_nat_def le_SucE le_zero_eq unat_eq_zero)
    then have o: "out = 1" by (simp add: word_unat_eq_iff)
    then have "gfp_carry a head = a" using select_words(1)[of a b] v(3) assms(1) s h by (simp add: gfp_carry_def)
    moreover have "wval 64 a < field_prime" using v(1) o b by simp
    ultimately show ?thesis using assms(1) h by (simp add: reduced_def)
  qed
qed

lemma gfp_add_val:
  assumes "reduced a" "reduced b"
  shows "reduced (gfp_add a b) \<and> wval 64 (gfp_add a b) = (wval 64 a + wval 64 b) mod field_prime"
proof -
  obtain c k where s: "add_loop 0 a b = (c, k)" by fastforce
  from add_loop_val[OF _ _ s] assms have v: "wval 64 a + wval 64 b = wval 64 c + 2 ^ 256 * unat k" "length c = 4"
    by (simp_all add: reduced_def)
  have "wval 64 c + 2 ^ 256 * unat k < 2 * field_prime" unfolding v(1) [symmetric] using assms by (simp add: reduced_def)
  from gfp_carry_val[OF v(2) this] show ?thesis by (simp add: gfp_add_def s v(1))
qed

lemma complement_val:
  assumes "length b = 4" "wval 64 b \<le> field_prime"
  shows "length (fst (sub_loop 0 P2 b)) = 4 \<and> wval 64 (fst (sub_loop 0 P2 b)) = field_prime - wval 64 b"
proof -
  obtain t out where s: "sub_loop 0 P2 b = (t, out)" by fastforce
  from sub_loop_val[OF _ _ s] assms have v: "field_prime + 2 ^ 256 * unat out = wval 64 t + wval 64 b" "unat out \<le> 1" "length t = 4"
    by simp_all
  have "wval 64 t < 2 ^ 256" using wval_less[of t] v(3) by simp
  then have "2 ^ 256 * unat out < 2 ^ 256 * 1" using v(1) assms(2) by linarith
  then have "unat out = 0" by simp
  then show ?thesis using v s by simp
qed

lemma gfp_sub_val:
  assumes "reduced a" "reduced b"
  shows "reduced (gfp_sub a b) \<and> wval 64 (gfp_sub a b) = (wval 64 a + (field_prime - wval 64 b)) mod field_prime"
proof -
  define t where "t = fst (sub_loop 0 P2 b)"
  have t: "length t = 4" "wval 64 t = field_prime - wval 64 b" using complement_val[of b] assms(2) by (simp_all add: t_def reduced_def)
  obtain c k where s: "add_loop 0 a t = (c, k)" by fastforce
  from add_loop_val[OF _ _ s] assms t have v: "wval 64 a + wval 64 t = wval 64 c + 2 ^ 256 * unat k" "length c = 4"
    by (simp_all add: reduced_def)
  have "wval 64 c + 2 ^ 256 * unat k < 2 * field_prime" unfolding v(1) [symmetric] using assms t unfolding reduced_def by linarith
  from gfp_carry_val[OF v(2) this] show ?thesis
    unfolding v(1) [symmetric] t(2) by (simp only: gfp_sub_def Let_def t_def [symmetric] s prod.case)
qed

lemma gfp_neg_val:
  assumes "reduced a"
  shows "reduced (gfp_neg a) \<and> wval 64 (gfp_neg a) = (field_prime - wval 64 a) mod field_prime"
proof -
  have t: "length (fst (sub_loop 0 P2 a)) = 4" "wval 64 (fst (sub_loop 0 P2 a)) = field_prime - wval 64 a"
    using complement_val[of a] assms by (simp_all add: reduced_def)
  from gfp_carry_val[OF t(1), of 0] show ?thesis using field_prime_bounds by (simp add: gfp_neg_def t(2))
qed

section \<open>Multiplication\<close>

lemma length_add_at [simp]: "length (add_at k x buff) = length buff"
  by (simp add: add_at_def)

lemma nth_add_at: "k < length buff \<Longrightarrow> add_at k x buff ! m = (if m = k then buff ! k + x else buff ! m)"
  by (simp add: add_at_def)

lemma wval_update: "k < length ws \<Longrightarrow> wval s (ws[k := w]) + 2 ^ (s * k) * unat (ws ! k) = wval s ws + 2 ^ (s * k) * unat w"
proof (induction ws arbitrary: k)
  case (Cons v vs)
  show ?case
  proof (cases k)
    case (Suc j)
    then have "wval s (vs[j := w]) + 2 ^ (s * j) * unat (vs ! j) = wval s vs + 2 ^ (s * j) * unat w" using Cons by simp
    from arg_cong[OF this, of "\<lambda>n. 2 ^ s * n"] show ?thesis using Suc by (simp add: algebra_simps power_add)
  qed simp
qed simp

lemma unat_add_small: "unat (x :: u64) + unat y < 2 ^ 64 \<Longrightarrow> unat (x + y) = unat x + unat y"
  by (simp add: unat_word_ariths)

lemma wval_add_at:
  assumes "k < length buff" "unat (buff ! k) + unat x < 2 ^ 64"
  shows "wval s (add_at k x buff) = wval s buff + 2 ^ (s * k) * unat x"
  using wval_update[OF assms(1), of s "buff ! k + x"] unat_add_small[OF assms(2)]
  by (simp add: add_at_def algebra_simps)

definition add_cells :: "(nat \<times> u64) list \<Rightarrow> u64 list \<Rightarrow> u64 list" where
  "add_cells xs buff = fold (\<lambda>(k, x). add_at k x) xs buff"

text \<open>Adding into different cells that have room for it.\<close>

lemma add_cells_val:
  assumes "distinct (map fst xs)" "\<forall>(k, x)\<in>set xs. k < length buff \<and> unat (buff ! k) \<le> b \<and> unat x \<le> d"
    "\<forall>k<length buff. unat (buff ! k) \<le> b + d" "b + d < 2 ^ 64"
  shows "wval s (add_cells xs buff) = wval s buff + (\<Sum>(k, x)\<leftarrow>xs. 2 ^ (s * k) * unat x)
    \<and> length (add_cells xs buff) = length buff \<and> (\<forall>k<length buff. unat (add_cells xs buff ! k) \<le> b + d)"
  using assms(1-3)
proof (induction xs arbitrary: buff)
  case Nil
  then show ?case by (simp add: add_cells_def)
next
  case (Cons kx xs)
  obtain k x where kx: "kx = (k, x)" by (cases kx)
  have k: "k < length buff" "unat (buff ! k) \<le> b" "unat x \<le> d" using Cons.prems(2) by (auto simp: kx)
  then have room: "unat (buff ! k) + unat x < 2 ^ 64" using assms(4) by linarith
  let ?b = "add_at k x buff"
  have "\<forall>(j, y)\<in>set xs. j < length ?b \<and> unat (?b ! j) \<le> b \<and> unat y \<le> d"
  proof (clarify)
    fix j y assume jy: "(j, y) \<in> set xs"
    then have "j \<noteq> k" using Cons.prems(1) by (force simp: kx)
    then show "j < length ?b \<and> unat (?b ! j) \<le> b \<and> unat y \<le> d" using Cons.prems(2) jy k(1) by (auto simp: nth_add_at)
  qed
  moreover have "\<forall>j<length ?b. unat (?b ! j) \<le> b + d"
    using Cons.prems(3) k unat_add_small[OF room] by (simp add: nth_add_at)
  moreover have "distinct (map fst xs)" using Cons.prems(1) by simp
  ultimately show ?case using Cons.IH[of ?b] wval_add_at[OF k(1) room, of s] by (simp add: kx add_cells_def)
qed

lemma mask_mod: "unat (w AND mask k) = unat w mod 2 ^ k" for w :: u64
  by (simp only: take_bit_eq_mask [symmetric] unsigned_take_bit_eq take_bit_eq_mod [of k "unat w"])

lemma pieces:
  "unat (w AND 0xffff) = unat w mod 2 ^ 16" "unat (w AND 0xffffffff) = unat w mod 2 ^ 32" for w :: u64
  using mask_mod[of w 16] mask_mod[of w 32] by (simp_all add: mask_eq_exp_minus_1)

lemma pieces_lin:
  "n = r + 65536 * a \<Longrightarrow> a = s + 65536 * b \<Longrightarrow> b = t + 65536 * c \<Longrightarrow> r + 65536 * s + 4294967296 * t + 281474976710656 * c = (n :: nat)"
  by simp

lemma word_pieces:
  fixes n :: nat
  shows "n mod 2 ^ 16 + 2 ^ 16 * (n div 2 ^ 16 mod 2 ^ 16) + 2 ^ 32 * (n div 2 ^ 32 mod 2 ^ 16) + 2 ^ 48 * (n div 2 ^ 48) = n"
    and "n mod 2 ^ 32 + 2 ^ 32 * (n div 2 ^ 32) = n"
proof -
  have e: "n div 2 ^ 32 = n div 2 ^ 16 div 2 ^ 16" "n div 2 ^ 48 = n div 2 ^ 16 div 2 ^ 16 div 2 ^ 16"
    by (simp_all add: div_mult2_eq [symmetric])
  define a where "a = n div 2 ^ 16"
  define b where "b = a div 2 ^ 16"
  have "n = n mod 65536 + 65536 * a" "a = a mod 65536 + 65536 * b" "b = b mod 65536 + 65536 * (b div 65536)"
    by (simp_all add: a_def b_def)
  from pieces_lin[OF this] have "n mod 2 ^ 16 + 2 ^ 16 * (a mod 2 ^ 16) + 2 ^ 32 * (b mod 2 ^ 16) + 2 ^ 48 * (b div 2 ^ 16) = n" by simp
  then show "n mod 2 ^ 16 + 2 ^ 16 * (n div 2 ^ 16 mod 2 ^ 16) + 2 ^ 32 * (n div 2 ^ 32 mod 2 ^ 16) + 2 ^ 48 * (n div 2 ^ 48) = n"
    by (simp only: e a_def b_def)
  show "n mod 2 ^ 32 + 2 ^ 32 * (n div 2 ^ 32) = n" by (rule mod_mult_div_eq)
qed

lemma product_small:
  assumes "unat (x :: u64) < 2 ^ 16" "unat (y :: u64) < 2 ^ 32"
  shows "unat (x * y) = unat x * unat y \<and> unat x * unat y < 2 ^ 48"
proof -
  have "unat x * unat y < 2 ^ 16 * 2 ^ 32" using assms by (intro mult_strict_mono) simp_all
  then show ?thesis by (simp add: unat_word_ariths)
qed


lemma mul_word_val:
  assumes "off + 5 < length buff" "\<forall>k<length buff. unat (buff ! k) \<le> b" "b + 2 ^ 50 < 2 ^ 64"
  shows "wval 16 (mul_word ai bj off buff) = wval 16 buff + 2 ^ (16 * off) * (unat ai * unat bj)
    \<and> length (mul_word ai bj off buff) = length buff \<and> (\<forall>k<length buff. unat (mul_word ai bj off buff ! k) \<le> b + 2 ^ 50)"
proof -
  define a0 where "a0 = ai AND 0xffff"
  define a1 where "a1 = drop_bit 16 ai AND 0xffff"
  define a2 where "a2 = drop_bit 32 ai AND 0xffff"
  define a3 where "a3 = drop_bit 48 ai"
  define b0 where "b0 = bj AND 0xffffffff"
  define b2 where "b2 = drop_bit 32 bj"
  let ?xs = "[(off, a0 * b0), (off + 1, a1 * b0), (off + 2, a2 * b0 + a0 * b2), (off + 3, a3 * b0 + a1 * b2), (off + 4, a2 * b2), (off + 5, a3 * b2)]"
  have u: "unat a0 = unat ai mod 2 ^ 16" "unat a1 = unat ai div 2 ^ 16 mod 2 ^ 16" "unat a2 = unat ai div 2 ^ 32 mod 2 ^ 16"
    "unat a3 = unat ai div 2 ^ 48" "unat b0 = unat bj mod 2 ^ 32" "unat b2 = unat bj div 2 ^ 32"
    unfolding a0_def a1_def a2_def a3_def b0_def b2_def pieces unat_shr by (rule refl)+
  have l: "unat a0 < 2 ^ 16" "unat a1 < 2 ^ 16" "unat a2 < 2 ^ 16" "unat a3 < 2 ^ 16" "unat b0 < 2 ^ 32" "unat b2 < 2 ^ 32"
    using unat_u64_less[of ai] unat_u64_less[of bj] unfolding u by (simp_all add: less_mult_imp_div_less)
  note p = product_small[OF l(1) l(5)] product_small[OF l(2) l(5)] product_small[OF l(3) l(5)] product_small[OF l(4) l(5)]
    product_small[OF l(1) l(6)] product_small[OF l(2) l(6)] product_small[OF l(3) l(6)] product_small[OF l(4) l(6)]
  have s: "unat (a2 * b0 + a0 * b2) = unat a2 * unat b0 + unat a0 * unat b2" "unat (a3 * b0 + a1 * b2) = unat a3 * unat b0 + unat a1 * unat b2"
    using p by (subst unat_add_small; simp)+
  have "mul_word ai bj off buff = add_cells ?xs buff"
    by (simp add: mul_word_def add_cells_def Let_def a0_def a1_def a2_def a3_def b0_def b2_def)
  moreover have "(\<Sum>(k, x)\<leftarrow>?xs. 2 ^ (16 * k) * unat x) = 2 ^ (16 * off) * (unat ai * unat bj)"
  proof -
    have "(\<Sum>(k, x)\<leftarrow>?xs. 2 ^ (16 * k) * unat x) = 2 ^ (16 * off) *
        ((unat a0 + 2 ^ 16 * unat a1 + 2 ^ 32 * unat a2 + 2 ^ 48 * unat a3) * (unat b0 + 2 ^ 32 * unat b2))"
      using p s by (simp add: power_add algebra_simps)
    then show ?thesis unfolding u word_pieces .
  qed
  moreover have "\<forall>(k, x)\<in>set ?xs. k < length buff \<and> unat (buff ! k) \<le> b \<and> unat x \<le> 2 ^ 50"
    using assms(1,2) p s by simp
  moreover have "\<forall>k<length buff. unat (buff ! k) \<le> b + 2 ^ 50" using assms(2) by (simp add: trans_le_add1)
  moreover have "distinct (map fst ?xs)" by simp
  ultimately show ?thesis using add_cells_val[of ?xs buff b "2 ^ 50" 16] assms(3) by simp
qed


text \<open>All the pairs of words.\<close>

definition mul_pairs :: "u64 list \<Rightarrow> u64 list \<Rightarrow> (nat \<times> nat) list \<Rightarrow> u64 list \<Rightarrow> u64 list" where
  "mul_pairs a b ps buff = fold (\<lambda>(i, j). mul_word (a ! i) (b ! j) (4 * (i + j))) ps buff"

lemma fold_pairs: "fold (\<lambda>i. fold (g i) (h i)) xs = fold (\<lambda>(i, j). g i j) (concat (map (\<lambda>i. map (Pair i) (h i)) xs))"
proof (induction xs)
  case (Cons x xs)
  have "fold (\<lambda>(i, j). g i j) (map (Pair x) (h x)) = fold (g x) (h x)"
    by (simp add: fold_map comp_def)
  then show ?case using Cons by simp
qed simp

lemma mul_pairs_val:
  assumes "\<forall>(i, j)\<in>set ps. 4 * (i + j) + 5 < length buff" "\<forall>k<length buff. unat (buff ! k) \<le> b0" "b0 + length ps * 2 ^ 50 < 2 ^ 64"
  shows "wval 16 (mul_pairs a b ps buff) = wval 16 buff + (\<Sum>(i, j)\<leftarrow>ps. 2 ^ (64 * (i + j)) * (unat (a ! i) * unat (b ! j)))
    \<and> length (mul_pairs a b ps buff) = length buff"
  using assms
proof (induction ps arbitrary: buff b0)
  case Nil
  then show ?case by (simp add: mul_pairs_def)
next
  case (Cons ij ps)
  obtain i j where ij: "ij = (i, j)" by (cases ij)
  let ?b = "mul_word (a ! i) (b ! j) (4 * (i + j)) buff"
  have "4 * (i + j) + 5 < length buff" using Cons.prems(1) ij by simp
  moreover have "b0 + 2 ^ 50 < 2 ^ 64" using Cons.prems(3) by simp
  ultimately have w: "wval 16 ?b = wval 16 buff + 2 ^ (16 * (4 * (i + j))) * (unat (a ! i) * unat (b ! j))" "length ?b = length buff"
    "\<forall>k<length buff. unat (?b ! k) \<le> b0 + 2 ^ 50" using mul_word_val[of "4 * (i + j)" buff b0 "a ! i" "b ! j"] Cons.prems(2) by auto
  have "wval 16 (mul_pairs a b ps ?b) = wval 16 ?b + (\<Sum>(i, j)\<leftarrow>ps. 2 ^ (64 * (i + j)) * (unat (a ! i) * unat (b ! j)))
      \<and> length (mul_pairs a b ps ?b) = length ?b"
    by (rule Cons.IH[of _ "b0 + 2 ^ 50"]) (use Cons.prems(1,3) w in auto)
  then show ?case using w by (simp add: ij mul_pairs_def)
qed

text \<open>The cells at distance \<open>i\<close> in the first \<open>n\<close> blocks of four.\<close>

definition cols :: "nat \<Rightarrow> nat \<Rightarrow> u64 list \<Rightarrow> u64 list" where
  "cols n i buff = map (\<lambda>j. buff ! (4 * j + i)) [0..<n]"

lemma wval_snoc: "wval s (xs @ [x]) = wval s xs + 2 ^ (s * length xs) * unat x"
  by (induction xs) (simp_all add: algebra_simps power_add)

lemma cols_Suc: "cols (Suc n) i buff = cols n i buff @ [buff ! (4 * n + i)]"
  by (simp add: cols_def)

lemma length_cols [simp]: "length (cols n i buff) = n"
  by (simp add: cols_def)

lemma shift_split:
  assumes "0 < s" "s < 64" "unat head < 2 ^ s"
  shows "unat (push_bit s y + head) + 2 ^ 64 * unat (drop_bit (64 - s) y) = 2 ^ s * unat y + unat (head :: u64)"
proof -
  have "unat (push_bit s y) = (2 ^ s * unat y) mod 2 ^ 64"
  proof -
    have "(2 :: nat) ^ s < 2 ^ 64" using assms(2) by (intro power_strict_increasing) simp_all
    then have "unat (2 ^ s :: u64) = 2 ^ s" using unat_of_nat[of "2 ^ s", where 'a = 64] by simp
    then show ?thesis by (simp add: push_bit_eq_mult unat_word_ariths mult.commute)
  qed
  also have "\<dots> = 2 ^ s * (unat y mod 2 ^ (64 - s))"
    using assms(2) by (simp add: mult_mod_right power_add [symmetric])
  finally have p: "unat (push_bit s y) = 2 ^ s * (unat y mod 2 ^ (64 - s))" .
  have "unat y mod 2 ^ (64 - s) + 1 \<le> 2 ^ (64 - s)" by (simp add: Suc_leI)
  then have "2 ^ s * (unat y mod 2 ^ (64 - s) + 1) \<le> 2 ^ s * 2 ^ (64 - s)" by (rule mult_le_mono2)
  moreover have "(2 :: nat) ^ s * 2 ^ (64 - s) = 2 ^ 64" using assms(2) by (simp add: power_add [symmetric])
  ultimately have "unat (push_bit s y) + unat head < 2 ^ 64" unfolding p using assms(3) by (simp add: algebra_simps)
  then have "unat (push_bit s y + head) = 2 ^ s * (unat y mod 2 ^ (64 - s)) + unat head" using p by (simp only: unat_add_small)
  moreover have "2 ^ s * unat y = 2 ^ s * (unat y mod 2 ^ (64 - s)) + 2 ^ 64 * (unat y div 2 ^ (64 - s))"
  proof -
    have "2 ^ s * unat y = 2 ^ s * (unat y mod 2 ^ (64 - s) + 2 ^ (64 - s) * (unat y div 2 ^ (64 - s)))" by (simp only: mod_mult_div_eq)
    also have "\<dots> = 2 ^ s * (unat y mod 2 ^ (64 - s)) + (2 ^ s * 2 ^ (64 - s)) * (unat y div 2 ^ (64 - s))"
      by (simp only: distrib_left mult.assoc)
    finally show ?thesis unfolding \<open>(2 :: nat) ^ s * 2 ^ (64 - s) = 2 ^ 64\<close> .
  qed
  ultimately show ?thesis by (simp only: unat_shr)
qed

lemma pass_invariant:
  assumes "1 \<le> i" "i \<le> 3" "4 * n \<le> length buff" "fold (pass_step i) [0..<n] (buff, 0, 0) = (buff', head, carry)"
  shows "wval 64 (cols n 0 buff') + 2 ^ (64 * n) * (unat head + unat carry) = wval 64 (cols n 0 buff) + 2 ^ (16 * i) * wval 64 (cols n i buff)
    \<and> unat head < 2 ^ (16 * i) \<and> unat carry \<le> 1 \<and> length buff' = length buff \<and> (\<forall>m. m mod 4 \<noteq> 0 \<or> 4 * n \<le> m \<longrightarrow> buff' ! m = buff ! m)"
  using assms(3,4)
proof (induction n arbitrary: buff' head carry)
  case 0
  then show ?case by (simp add: cols_def)
next
  case (Suc n)
  obtain b h c where f: "fold (pass_step i) [0..<n] (buff, 0, 0) = (b, h, c)" by (metis prod_cases3)
  from Suc.IH[OF _ f] Suc.prems(1) have ih: "wval 64 (cols n 0 b) + 2 ^ (64 * n) * (unat h + unat c) = wval 64 (cols n 0 buff) + 2 ^ (16 * i) * wval 64 (cols n i buff)"
    "unat h < 2 ^ (16 * i)" "unat c \<le> 1" "length b = length buff" "\<And>m. m mod 4 \<noteq> 0 \<or> 4 * n \<le> m \<Longrightarrow> b ! m = buff ! m" by auto
  define x where "x = buff ! (4 * n)"
  define y where "y = buff ! (4 * n + i)"
  have xy: "b ! (4 * n) = x" "b ! (4 * n + i) = y" using ih(5) by (simp_all add: x_def y_def)
  define yi where "yi = push_bit (16 * i) y + h"
  define zi where "zi = x + yi + c"
  have "pass_step i n (b, h, c) = (buff', head, carry)" using Suc.prems(2) f by simp
  then have st: "buff' = b[4 * n := zi]" "head = drop_bit (64 - 16 * i) y" "carry = carry_out x yi zi"
    by (simp_all add: pass_step_def Let_def xy yi_def zi_def)
  have ys: "unat yi + 2 ^ 64 * unat head = 2 ^ (16 * i) * unat y + unat h"
    unfolding yi_def st(2) by (rule shift_split) (use assms(1,2) ih(2) in simp_all)
  note co = carry_out_val[OF ih(3), of x yi, folded zi_def]
  have sum: "unat x + (2 ^ (16 * i) * unat y + (unat h + unat c)) = unat zi + 2 ^ 64 * (unat head + unat carry)"
    using co(1) ys st(3) by (simp add: algebra_simps)
  have c0: "cols n 0 buff' = cols n 0 b" unfolding st(1) cols_def by (rule map_cong) auto
  have z: "buff' ! (4 * n) = zi" using Suc.prems(1) ih(4) by (simp add: st(1))
  have wz: "wval 64 (cols (Suc n) 0 buff') = wval 64 (cols n 0 b) + 2 ^ (64 * n) * unat zi" by (simp add: cols_Suc wval_snoc c0 z)
  have "wval 64 (cols (Suc n) 0 buff') + 2 ^ (64 * Suc n) * (unat head + unat carry)
      = wval 64 (cols n 0 b) + 2 ^ (64 * n) * (unat zi + 2 ^ 64 * (unat head + unat carry))"
    using wz by (simp add: power_add algebra_simps)
  also have "\<dots> = (wval 64 (cols n 0 b) + 2 ^ (64 * n) * (unat h + unat c)) + 2 ^ (64 * n) * (unat x + 2 ^ (16 * i) * unat y)"
    unfolding sum [symmetric] by (simp add: algebra_simps)
  also have "\<dots> = wval 64 (cols (Suc n) 0 buff) + 2 ^ (16 * i) * wval 64 (cols (Suc n) i buff)"
    unfolding ih(1) by (simp add: cols_Suc wval_snoc x_def y_def algebra_simps)
  finally have e: "wval 64 (cols (Suc n) 0 buff') + 2 ^ (64 * Suc n) * (unat head + unat carry)
      = wval 64 (cols (Suc n) 0 buff) + 2 ^ (16 * i) * wval 64 (cols (Suc n) i buff)" .
  have "unat head < 2 ^ (16 * i)"
  proof -
    have "unat y < 2 ^ (16 * i) * 2 ^ (64 - 16 * i)" using unat_u64_less[of y] assms(2) by (simp add: power_add [symmetric])
    then show ?thesis unfolding st(2) unat_shr by (rule less_mult_imp_div_less)
  qed
  moreover have "\<forall>m. m mod 4 \<noteq> 0 \<or> 4 * Suc n \<le> m \<longrightarrow> buff' ! m = buff ! m"
  proof (intro allI impI)
    fix m assume m: "m mod 4 \<noteq> 0 \<or> 4 * Suc n \<le> m"
    then have "m \<noteq> 4 * n" by auto
    moreover have "b ! m = buff ! m" using m by (intro ih(5)) auto
    ultimately show "buff' ! m = buff ! m" by (simp add: st(1))
  qed
  ultimately show ?case using e co(2) st(3) ih(4) by (simp add: st(1))
qed


lemma mul_pass_val:
  assumes "1 \<le> i" "i \<le> 3" "4 * n \<le> length buff"
  shows "wval 64 (cols n 0 (mul_pass n i buff)) mod 2 ^ (64 * n) = (wval 64 (cols n 0 buff) + 2 ^ (16 * i) * wval 64 (cols n i buff)) mod 2 ^ (64 * n)"
    and "length (mul_pass n i buff) = length buff" and "k \<in> {1, 2, 3} \<Longrightarrow> cols n k (mul_pass n i buff) = cols n k buff"
proof -
  obtain b h c where f: "fold (pass_step i) [0..<n] (buff, 0, 0) = (b, h, c)" by (metis prod_cases3)
  note p = pass_invariant[OF assms f]
  have b: "mul_pass n i buff = b" by (simp add: mul_pass_def f)
  have "wval 64 (cols n 0 b) mod 2 ^ (64 * n) = (wval 64 (cols n 0 b) + 2 ^ (64 * n) * (unat h + unat c)) mod 2 ^ (64 * n)" by simp
  then show "wval 64 (cols n 0 (mul_pass n i buff)) mod 2 ^ (64 * n) = (wval 64 (cols n 0 buff) + 2 ^ (16 * i) * wval 64 (cols n i buff)) mod 2 ^ (64 * n)"
    unfolding b using p by simp
  show "length (mul_pass n i buff) = length buff" unfolding b using p by simp
  have "(4 * j + k) mod 4 \<noteq> 0" if "k \<in> {1, 2, 3}" for j using that by auto
  then show "k \<in> {1, 2, 3} \<Longrightarrow> cols n k (mul_pass n i buff) = cols n k buff"
    unfolding b cols_def using p by (intro map_cong) auto
qed

lemma three_passes:
  assumes "4 * n \<le> length buff"
  shows "wval 64 (cols n 0 (fold (mul_pass n) [1..<4] buff)) =
    (wval 64 (cols n 0 buff) + 2 ^ 16 * wval 64 (cols n 1 buff) + 2 ^ 32 * wval 64 (cols n 2 buff) + 2 ^ 48 * wval 64 (cols n 3 buff)) mod 2 ^ (64 * n)"
proof -
  let ?b1 = "mul_pass n 1 buff" and ?M = "(2 :: nat) ^ (64 * n)"
  let ?b2 = "mul_pass n 2 ?b1"
  let ?b3 = "mul_pass n 3 ?b2"
  have f: "fold (mul_pass n) [1..<4] buff = ?b3" by (simp add: upt_rec numeral_2_eq_2 numeral_3_eq_3)
  have l: "4 * n \<le> length ?b1" "4 * n \<le> length ?b2" using assms by (simp_all add: mul_pass_val(2))
  have c: "cols n 2 ?b1 = cols n 2 buff" "cols n 3 ?b2 = cols n 3 buff" using assms l by (simp_all add: mul_pass_val(3))
  have "wval 64 (cols n 0 ?b3) = wval 64 (cols n 0 ?b3) mod ?M" using wval_less[of "cols n 0 ?b3"] by simp
  also have "\<dots> = (wval 64 (cols n 0 ?b2) mod ?M + 2 ^ 48 * wval 64 (cols n 3 ?b2)) mod ?M"
    using mul_pass_val(1)[OF _ _ l(2), of 3] by (simp add: mod_add_left_eq)
  also have "wval 64 (cols n 0 ?b2) mod ?M = (wval 64 (cols n 0 ?b1) mod ?M + 2 ^ 32 * wval 64 (cols n 2 ?b1)) mod ?M"
    using mul_pass_val(1)[OF _ _ l(1), of 2] by (simp add: mod_add_left_eq)
  also have "wval 64 (cols n 0 ?b1) mod ?M = (wval 64 (cols n 0 buff) + 2 ^ 16 * wval 64 (cols n 1 buff)) mod ?M"
    using mul_pass_val(1)[OF _ _ assms, of 1] by simp
  finally show ?thesis unfolding f c by (simp only: mod_add_left_eq)
qed

lemma wval_append: "wval s (xs @ ys) = wval s xs + 2 ^ (s * length xs) * wval s ys"
  by (induction xs) (simp_all add: algebra_simps power_add)

lemma wval_cols:
  "4 * n \<le> length buff \<Longrightarrow> wval 16 (take (4 * n) buff) = wval 64 (cols n 0 buff) + 2 ^ 16 * wval 64 (cols n 1 buff)
    + 2 ^ 32 * wval 64 (cols n 2 buff) + 2 ^ 48 * wval 64 (cols n 3 buff)"
proof (induction n)
  case (Suc n)
  have "take (4 * Suc n) buff = take (4 * n) buff @ [buff ! (4 * n), buff ! (4 * n + 1), buff ! (4 * n + 2), buff ! (4 * n + 3)]"
    using Suc.prems by (simp add: take_Suc_conv_app_nth numeral_eq_Suc)
  then have "wval 16 (take (4 * Suc n) buff) = wval 16 (take (4 * n) buff)
      + 2 ^ (64 * n) * (unat (buff ! (4 * n)) + 2 ^ 16 * unat (buff ! (4 * n + 1)) + 2 ^ 32 * unat (buff ! (4 * n + 2)) + 2 ^ 48 * unat (buff ! (4 * n + 3)))"
    using Suc.prems by (simp add: wval_append)
  then show ?case using Suc by (simp add: cols_Suc wval_snoc algebra_simps)
qed (simp add: cols_def)

lemma passes_val:
  assumes "4 * n \<le> length buff"
  shows "wval 64 (cols n 0 (fold (mul_pass n) [1..<4] buff)) = wval 16 buff mod 2 ^ (64 * n)"
proof -
  have "wval 16 buff = wval 16 (take (4 * n) buff) + 2 ^ (64 * n) * wval 16 (drop (4 * n) buff)"
    using wval_append[of 16 "take (4 * n) buff" "drop (4 * n) buff"] assms by simp
  then show ?thesis unfolding three_passes[OF assms] wval_cols[OF assms, symmetric] by simp
qed


lemma four_words:
  assumes "length (a :: u64 list) = 4"
  obtains a0 a1 a2 a3 where "a = [a0, a1, a2, a3]"
  using assms by (auto simp: numeral_eq_Suc length_Suc_conv)

lemma wval_replicate [simp]: "wval s (replicate n 0) = 0"
  by (induction n) simp_all

lemma cells_zero: "\<forall>k<length (replicate n (0 :: u64)). unat (replicate n (0 :: u64) ! k) \<le> 0"
  by simp

lemma mul_val:
  assumes "length a = 4" "length b = 4"
  shows "wval 64 (mul a b) = wval 64 a * wval 64 b \<and> length (mul a b) = 8"
proof -
  define ps where "ps = concat (map (\<lambda>i. map (Pair i) [0..<4]) [0..<4 :: nat])"
  have ps: "ps = [(0,0),(0,1),(0,2),(0,3),(1,0),(1,1),(1,2),(1,3),(2,0),(2,1),(2,2),(2,3),(3,0),(3,1),(3,2),(3,3)]"
    unfolding ps_def by code_simp
  define buff where "buff = mul_pairs a b ps (replicate 32 0)"
  have m: "mul a b = cols 8 0 (fold (mul_pass 8) [1..<4] buff)"
    by (simp only: mul_def Let_def fold_pairs cols_def buff_def mul_pairs_def ps_def add_0_right)
  have v: "wval 16 buff = (\<Sum>(i, j)\<leftarrow>ps. 2 ^ (64 * (i + j)) * (unat (a ! i) * unat (b ! j)))" "length buff = 32"
    using mul_pairs_val[of ps "replicate 32 0" 0 a b, OF _ cells_zero] by (simp_all add: buff_def ps)
  obtain a0 a1 a2 a3 b0 b1 b2 b3 where ab: "a = [a0, a1, a2, a3]" "b = [b0, b1, b2, b3]"
    using four_words[OF assms(1)] four_words[OF assms(2)] by metis
  have "wval 16 buff = wval 64 a * wval 64 b" unfolding v(1) ps ab by (simp add: algebra_simps)
  moreover have "wval 64 a * wval 64 b < 2 ^ 256 * 2 ^ 256"
    using wval_less[of a] wval_less[of b] assms by (intro mult_strict_mono) simp_all
  ultimately have "wval 16 buff mod 2 ^ (64 * 8) = wval 64 a * wval 64 b" by simp
  then show ?thesis unfolding m using passes_val[of 8 buff] v(2) by simp
qed

lemma half_mul_val:
  assumes "length a = 4" "length b = 4"
  shows "wval 64 (half_mul a b) = wval 64 a * wval 64 b mod 2 ^ 256 \<and> length (half_mul a b) = 4"
proof -
  define ps where "ps = concat (map (\<lambda>i. map (Pair i) [0..<4 - i]) [0..<4 :: nat])"
  have ps: "ps = [(0,0),(0,1),(0,2),(0,3),(1,0),(1,1),(1,2),(2,0),(2,1),(3,0)]" unfolding ps_def by code_simp
  define buff where "buff = mul_pairs a b ps (replicate 18 0)"
  have m: "half_mul a b = cols 4 0 (fold (mul_pass 4) [1..<4] buff)"
    by (simp only: half_mul_def Let_def fold_pairs cols_def buff_def mul_pairs_def ps_def add_0_right)
  have v: "wval 16 buff = (\<Sum>(i, j)\<leftarrow>ps. 2 ^ (64 * (i + j)) * (unat (a ! i) * unat (b ! j)))" "length buff = 18"
    using mul_pairs_val[of ps "replicate 18 0" 0 a b, OF _ cells_zero] by (simp_all add: buff_def ps)
  obtain a0 a1 a2 a3 b0 b1 b2 b3 where ab: "a = [a0, a1, a2, a3]" "b = [b0, b1, b2, b3]"
    using four_words[OF assms(1)] four_words[OF assms(2)] by metis
  have "wval 64 a * wval 64 b = wval 16 buff + 2 ^ 256 *
      (unat a1 * unat b3 + unat a2 * unat b2 + unat a3 * unat b1
       + 2 ^ 64 * (unat a2 * unat b3 + unat a3 * unat b2) + 2 ^ 128 * (unat a3 * unat b3))"
    unfolding v(1) ps ab by (simp add: algebra_simps)
  then have "wval 64 a * wval 64 b mod 2 ^ 256 = wval 16 buff mod 2 ^ 256" by (simp only: mod_mult_self2)
  then show ?thesis unfolding m using passes_val[of 4 buff] v(2) by simp
qed

section \<open>Montgomery multiplication\<close>

lemma np_inverse: "(wval 64 NP * field_prime + 1) mod 2 ^ 256 = 0" "length NP = 4"
  by (simp_all add: NP_def field_prime_def)

text \<open>Montgomery's reduction: adding the right multiple of the modulus makes the low half vanish.\<close>

lemma montgomery_exact:
  fixes t p n r :: nat
  assumes "(n * p + 1) mod r = 0" "m = (t mod r) * n mod r"
  shows "(t + m * p) mod r = 0"
proof -
  have "(t + m * p) mod r = (t + t * n * p) mod r"
    unfolding assms(2) by (metis mod_add_right_eq mod_mult_left_eq)
  also have "\<dots> = t * (n * p + 1) mod r" by (simp add: algebra_simps)
  also have "\<dots> = 0" using assms(1) by (metis mod_mult_right_eq mult_0_right mod_0)
  finally show ?thesis .
qed

lemma gfp_mul_val:
  assumes "length a = 4" "length b = 4" "wval 64 a * wval 64 b < 2 ^ 256 * field_prime"
  shows "reduced (gfp_mul a b) \<and> (wval 64 (gfp_mul a b) * 2 ^ 256) mod field_prime = (wval 64 a * wval 64 b) mod field_prime"
proof -
  define t where "t = mul a b"
  define m where "m = half_mul (take 4 t) NP"
  define tp where "tp = mul m P2"
  obtain u k where s: "add_loop 0 t tp = (u, k)" by fastforce
  have t: "wval 64 t = wval 64 a * wval 64 b" "length t = 8" using mul_val[OF assms(1,2)] by (simp_all add: t_def)
  have "wval 64 t = wval 64 (take 4 t) + 2 ^ 256 * wval 64 (drop 4 t)"
    using wval_append[of 64 "take 4 t" "drop 4 t"] t(2) by simp
  moreover have "wval 64 (take 4 t) < 2 ^ 256" using wval_less[of "take 4 t"] t(2) by simp
  ultimately have low: "wval 64 (take 4 t) = wval 64 t mod 2 ^ 256" by simp
  have m: "wval 64 m = (wval 64 t mod 2 ^ 256) * wval 64 NP mod 2 ^ 256" "length m = 4"
    using half_mul_val[of "take 4 t" NP] np_inverse(2) t(2) low by (simp_all add: m_def)
  have tp: "wval 64 tp = wval 64 m * field_prime" "length tp = 8" using mul_val[of m P2] m(2) by (simp_all add: tp_def)
  from add_loop_val[OF _ _ s] t tp have v: "wval 64 t + wval 64 tp = wval 64 u + 2 ^ 512 * unat k" "length u = 8" by simp_all
  have u: "wval 64 u = wval 64 (take 4 u) + 2 ^ 256 * wval 64 (drop 4 u)"
    using wval_append[of 64 "take 4 u" "drop 4 u"] v(2) by simp
  have z: "(wval 64 t + wval 64 m * field_prime) mod 2 ^ 256 = 0" by (rule montgomery_exact[OF np_inverse(1) m(1)])
  define c where "c = wval 64 (drop 4 u) + 2 ^ 256 * unat k"
  have sum: "wval 64 t + wval 64 m * field_prime = wval 64 (take 4 u) + 2 ^ 256 * c"
    using v(1) u tp(1) by (simp add: c_def algebra_simps)
  have "wval 64 (take 4 u) < 2 ^ 256" using wval_less[of "take 4 u"] v(2) by simp
  then have "wval 64 (take 4 u) = 0" using z unfolding sum by simp
  then have exact: "wval 64 t + wval 64 m * field_prime = 2 ^ 256 * c" using sum by simp
  have "wval 64 m < 2 ^ 256" using m(1) by simp
  then have "wval 64 m * field_prime < 2 ^ 256 * field_prime" using field_prime_bounds(1) by (intro mult_strict_right_mono)
  then have "2 ^ 256 * c < 2 ^ 256 * (2 * field_prime)" using exact assms(3) t(1) by linarith
  then have "c < 2 * field_prime" by simp
  then have r: "reduced (gfp_carry (drop 4 u) k)" "wval 64 (gfp_carry (drop 4 u) k) = c mod field_prime"
    using gfp_carry_val[of "drop 4 u" k] v(2) by (simp_all add: c_def)
  have g: "gfp_mul a b = gfp_carry (drop 4 u) k"
    by (simp add: gfp_mul_def Let_def t_def [symmetric] m_def [symmetric] tp_def [symmetric] s)
  have "(wval 64 (gfp_mul a b) * 2 ^ 256) mod field_prime = (2 ^ 256 * c) mod field_prime"
    unfolding g r(2) by (simp only: mod_mult_left_eq mult.commute[of c])
  also have "\<dots> = wval 64 t mod field_prime" unfolding exact [symmetric] by simp
  finally show ?thesis using r(1) g t(1) by simp
qed

section \<open>Residues\<close>

text \<open>What a client of the field relies on: the operations compute with the values modulo \<open>p\<close>, and a value has one
  representation.\<close>

locale residue_ops =
  fixes p :: int and val :: "'a \<Rightarrow> int" and ok :: "'a \<Rightarrow> bool"
    and add sub mul :: "'a \<Rightarrow> 'a \<Rightarrow> 'a" and neg :: "'a \<Rightarrow> 'a" and zero :: 'a
  assumes p_pos: "1 < p"
    and val_range: "ok a \<Longrightarrow> 0 \<le> val a \<and> val a < p"
    and val_inj: "ok a \<Longrightarrow> ok b \<Longrightarrow> val a = val b \<Longrightarrow> a = b"
    and add_ok: "ok a \<Longrightarrow> ok b \<Longrightarrow> ok (add a b) \<and> val (add a b) = (val a + val b) mod p"
    and sub_ok: "ok a \<Longrightarrow> ok b \<Longrightarrow> ok (sub a b) \<and> val (sub a b) = (val a - val b) mod p"
    and mul_ok: "ok a \<Longrightarrow> ok b \<Longrightarrow> ok (mul a b) \<and> val (mul a b) = (val a * val b) mod p"
    and neg_ok: "ok a \<Longrightarrow> ok (neg a) \<and> val (neg a) = (- val a) mod p"
    and zero_ok: "ok zero \<and> val zero = 0"
begin

lemma val_mod: "ok a \<Longrightarrow> val a mod p = val a"
  using val_range by simp

lemma eq_zero_iff: "ok a \<Longrightarrow> a = zero \<longleftrightarrow> val a = 0"
  using val_inj[of a zero] zero_ok by auto

lemma sub_eq_zero: "ok a \<Longrightarrow> ok b \<Longrightarrow> sub a b = zero \<longleftrightarrow> a = b"
proof -
  assume a: "ok a" and b: "ok b"
  have "sub a b = zero \<longleftrightarrow> (val a - val b) mod p = 0" using sub_ok[OF a b] eq_zero_iff by simp
  also have "\<dots> \<longleftrightarrow> val a mod p = val b mod p" by (simp add: mod_eq_dvd_iff dvd_eq_mod_eq_0)
  also have "\<dots> \<longleftrightarrow> a = b" using val_inj[OF a b] val_mod a b by auto
  finally show ?thesis .
qed

text \<open>Square and multiply, least significant bit first.\<close>

fun bits_val :: "bool list \<Rightarrow> nat" where
  "bits_val [] = 0"
| "bits_val (b # bs) = of_bool b + 2 * bits_val bs"

definition power_step :: "bool \<Rightarrow> 'a \<times> 'a \<Rightarrow> 'a \<times> 'a" where
  "power_step b st = (if b then mul (fst st) (snd st) else fst st, mul (snd st) (snd st))"

lemma power_fold:
  assumes "ok s" "ok q"
  shows "ok (fst (fold power_step bs (s, q))) \<and> val (fst (fold power_step bs (s, q))) = (val s * val q ^ bits_val bs) mod p"
  using assms
proof (induction bs arbitrary: s q)
  case Nil
  then show ?case using val_mod by simp
next
  case (Cons b bs)
  let ?s = "if b then mul s q else s"
  have s: "ok ?s" "val ?s = (val s * val q ^ of_bool b) mod p" using Cons.prems mul_ok val_mod by auto
  have q: "ok (mul q q)" "val (mul q q) = (val q * val q) mod p" using Cons.prems mul_ok by auto
  have "(val ?s * val (mul q q) ^ bits_val bs) mod p = (val s * val q ^ of_bool b * (val q * val q) ^ bits_val bs) mod p"
    unfolding s(2) q(2) by (metis mod_mult_left_eq mod_mult_right_eq power_mod)
  also have "\<dots> = (val s * val q ^ bits_val (b # bs)) mod p"
    by (simp add: power_add power_mult power2_eq_square mult.assoc)
  finally have e: "(val ?s * val (mul q q) ^ bits_val bs) mod p = (val s * val q ^ bits_val (b # bs)) mod p" .
  have "fold power_step (b # bs) (s, q) = fold power_step bs (?s, mul q q)" by (simp add: power_step_def)
  then show ?case using Cons.IH[OF s(1) q(1)] unfolding e by simp
qed

end

section \<open>The field\<close>

text \<open>The field element that four words in Montgomery form stand for.\<close>

definition fv :: "gfp \<Rightarrow> int" where
  "fv a = int (wval 64 a * wval 64 RN1 mod field_prime)"

lemma mod_by_quotient: "n = q * m + r \<Longrightarrow> r < m \<Longrightarrow> n mod m = (r :: nat)"
  by simp

lemma words_RN1: "wval 64 RN1 = 20988524275117001072002809824448087578619730785600314334253784976379291040311"
  by (simp add: RN1_def)

lemma words_R2: "wval 64 R2 = 3096616502983703923843567936837374451735540968419076528771170197431451843209"
  by (simp add: R2_def)

lemma words_R3: "wval 64 R3 = 14921786541159648185948152738563080959093619838510245177710943249661917737183"
  by (simp add: R3_def)

lemma montgomery_inverse: "2 ^ 256 * wval 64 RN1 mod field_prime = 1"
  by (rule mod_by_quotient[of _ 111032442853175714102588374283752698368366046808579839647964533820976443843465]) (simp_all add: words_RN1 field_prime_def)

lemma constants_reduced: "reduced RN1" "reduced R2" "reduced R3"
  by (simp_all add: words_RN1 words_R2 words_R3 field_prime_def reduced_def) (simp_all add: RN1_def R2_def R3_def)

lemma montgomery_square: "2 ^ 512 mod field_prime = wval 64 R2"
  by (rule mod_by_quotient[of _ 612557527273816073910311476275045157063291712851072105081573245353947274219089]) (simp_all add: words_R2 field_prime_def)

lemma montgomery_cube: "2 ^ 256 * wval 64 R2 mod field_prime = wval 64 R3"
  by (rule mod_by_quotient[of _ 16381565964280843576622032455831498711760003902771823023933741245570234147927]) (simp_all add: words_R2 words_R3 field_prime_def)

lemma fv_scale: "wval 64 a * 2 ^ 256 mod field_prime = n mod field_prime \<Longrightarrow> fv a = int (n * (wval 64 RN1 * wval 64 RN1) mod field_prime)"
proof -
  assume a: "wval 64 a * 2 ^ 256 mod field_prime = n mod field_prime"
  let ?r = "wval 64 RN1"
  have "n * (?r * ?r) mod field_prime = (n mod field_prime) * (?r * ?r) mod field_prime" by (simp only: mod_mult_left_eq)
  also have "\<dots> = (wval 64 a * 2 ^ 256) * (?r * ?r) mod field_prime" unfolding a [symmetric] by (simp only: mod_mult_left_eq)
  also have "\<dots> = (wval 64 a * ?r) * (2 ^ 256 * ?r) mod field_prime" by (simp only: ac_simps)
  also have "\<dots> = (wval 64 a * ?r) * (2 ^ 256 * ?r mod field_prime) mod field_prime" by (simp only: mod_mult_right_eq)
  also have "\<dots> = wval 64 a * ?r mod field_prime" by (simp only: montgomery_inverse mult_1_right)
  finally show ?thesis by (simp only: fv_def)
qed

lemma product_bound: "reduced a \<Longrightarrow> reduced b \<Longrightarrow> wval 64 a * wval 64 b < 2 ^ 256 * field_prime"
proof -
  assume a: "reduced a" and b: "reduced b"
  have "wval 64 a * wval 64 b < field_prime * field_prime" using a b by (intro mult_strict_mono) (simp_all add: reduced_def)
  also have "\<dots> \<le> 2 ^ 256 * field_prime" using field_prime_bounds by (intro mult_right_mono) simp_all
  finally show ?thesis .
qed

lemma gfp_mul_fv:
  assumes "reduced a" "reduced b"
  shows "reduced (gfp_mul a b) \<and> fv (gfp_mul a b) = (fv a * fv b) mod int field_prime"
proof -
  let ?r = "wval 64 RN1"
  have m: "reduced (gfp_mul a b)" "wval 64 (gfp_mul a b) * 2 ^ 256 mod field_prime = (wval 64 a * wval 64 b) mod field_prime"
    using gfp_mul_val[of a b] product_bound[OF assms] assms by (simp_all add: reduced_def)
  have "fv (gfp_mul a b) = int ((wval 64 a * wval 64 b) * (?r * ?r) mod field_prime)" by (rule fv_scale[OF m(2)])
  also have "(wval 64 a * wval 64 b) * (?r * ?r) mod field_prime = (wval 64 a * ?r mod field_prime) * (wval 64 b * ?r mod field_prime) mod field_prime"
    unfolding mod_mult_eq by (simp only: ac_simps)
  finally show ?thesis using m(1) by (simp add: fv_def zmod_int)
qed


lemma int_mod_diff: "n \<le> field_prime \<Longrightarrow> int ((m + (field_prime - n)) mod field_prime) = (int m - int n) mod int field_prime"
proof -
  assume n: "n \<le> field_prime"
  have "int (m + (field_prime - n)) = int m - int n + int field_prime" using n by simp
  then show ?thesis by (simp only: zmod_int mod_add_self2)
qed

lemma fv_mod: "fv a = (int (wval 64 a) * int (wval 64 RN1)) mod int field_prime"
  by (simp add: fv_def zmod_int)

lemma fv_congr: "int (wval 64 c) = n mod int field_prime \<Longrightarrow> fv c = n * int (wval 64 RN1) mod int field_prime"
  unfolding fv_mod by (simp only: mod_mult_left_eq)

lemma gfp_add_fv:
  assumes "reduced a" "reduced b"
  shows "reduced (gfp_add a b) \<and> fv (gfp_add a b) = (fv a + fv b) mod int field_prime"
proof -
  have "int (wval 64 (gfp_add a b)) = (int (wval 64 a) + int (wval 64 b)) mod int field_prime"
    using gfp_add_val[OF assms] by (simp add: zmod_int)
  from fv_congr[OF this] show ?thesis using gfp_add_val[OF assms]
    by (simp add: fv_mod[of a] fv_mod[of b] mod_add_eq distrib_right)
qed

lemma gfp_sub_fv:
  assumes "reduced a" "reduced b"
  shows "reduced (gfp_sub a b) \<and> fv (gfp_sub a b) = (fv a - fv b) mod int field_prime"
proof -
  have "int (wval 64 (gfp_sub a b)) = (int (wval 64 a) - int (wval 64 b)) mod int field_prime"
    using gfp_sub_val[OF assms] assms(2) int_mod_diff[of "wval 64 b" "wval 64 a"] by (simp add: reduced_def)
  from fv_congr[OF this] show ?thesis using gfp_sub_val[OF assms]
    by (simp add: fv_mod[of a] fv_mod[of b] mod_diff_eq left_diff_distrib)
qed

lemma gfp_neg_fv:
  assumes "reduced a"
  shows "reduced (gfp_neg a) \<and> fv (gfp_neg a) = (- fv a) mod int field_prime"
proof -
  have "int (wval 64 (gfp_neg a)) = (- int (wval 64 a)) mod int field_prime"
    using gfp_neg_val[OF assms] assms int_mod_diff[of "wval 64 a" 0] by (simp add: reduced_def)
  from fv_congr[OF this] show ?thesis using gfp_neg_val[OF assms] by (simp add: fv_mod[of a] mod_minus_eq)
qed

lemma wval_inj: "length xs = length ys \<Longrightarrow> wval 64 xs = wval 64 ys \<Longrightarrow> xs = ys"
proof (induction xs ys rule: list_induct2)
  case (Cons x xs y ys)
  then have e: "unat x + 2 ^ 64 * wval 64 xs = unat y + 2 ^ 64 * wval 64 ys" by simp
  from arg_cong[OF e, of "\<lambda>n. n mod 2 ^ 64"] have "unat x = unat y"
    using unat_u64_less[of x] unat_u64_less[of y] by simp
  then show ?case using Cons e by (simp add: word_unat_eq_iff)
qed simp

lemma fv_inj:
  assumes "reduced a" "reduced b" "fv a = fv b"
  shows "a = b"
proof -
  let ?r = "wval 64 RN1"
  have bk: "(wval 64 c * ?r mod field_prime) * 2 ^ 256 mod field_prime = wval 64 c mod field_prime" for c
  proof -
    have "(wval 64 c * ?r mod field_prime) * 2 ^ 256 mod field_prime = wval 64 c * (2 ^ 256 * ?r mod field_prime) mod field_prime"
      by (simp only: mod_mult_left_eq mod_mult_right_eq ac_simps)
    then show ?thesis by (simp only: montgomery_inverse mult_1_right)
  qed
  have "wval 64 a mod field_prime = wval 64 b mod field_prime"
    using bk[of a] bk[of b] assms(3) by (simp add: fv_def)
  then have v: "wval 64 a = wval 64 b" using assms(1,2) by (simp add: reduced_def)
  then show ?thesis using assms(1,2) by (intro wval_inj) (simp_all add: reduced_def)
qed

interpretation gf: residue_ops "int field_prime" fv reduced gfp_add gfp_sub gfp_mul gfp_neg gfp_zero
proof unfold_locales
  show "1 < int field_prime" by (simp add: field_prime_def)
  show "reduced gfp_zero \<and> fv gfp_zero = 0" by (simp add: reduced_def gfp_zero_def fv_def field_prime_def)
  fix a assume "reduced a"
  show "0 \<le> fv a \<and> fv a < int field_prime" using field_prime_bounds by (simp add: fv_def)
qed (simp_all add: gfp_add_fv gfp_sub_fv gfp_mul_fv gfp_neg_fv fv_inj)


section \<open>Montgomery form and inversion\<close>

lemma fv_nat: "fv a = int n \<longleftrightarrow> wval 64 a * wval 64 RN1 mod field_prime = n"
  by (auto simp: fv_def)

lemma mod_one_square: "x mod m = 1 \<Longrightarrow> n * (x * x) mod m = n mod (m :: nat)"
  by (metis mod_mult_right_eq mult.right_neutral)

lemma cancel_inverse: "n * 2 ^ 512 * (wval 64 RN1 * wval 64 RN1) mod field_prime = n mod field_prime"
proof -
  have "n * 2 ^ 512 * (wval 64 RN1 * wval 64 RN1) = n * ((2 ^ 256 * wval 64 RN1) * (2 ^ 256 * wval 64 RN1))"
    by (simp add: words_RN1)
  then show ?thesis by (simp only: mod_one_square[OF montgomery_inverse])
qed

lemma mont_encode_fv:
  assumes "length a = 4"
  shows "reduced (mont_encode a) \<and> fv (mont_encode a) = int (wval 64 a mod field_prime)"
proof -
  have "wval 64 a * wval 64 R2 < 2 ^ 256 * field_prime"
    using wval_less[of a] constants_reduced(2) assms by (intro mult_strict_mono) (simp_all add: reduced_def)
  from gfp_mul_val[OF assms _ this] have m: "reduced (mont_encode a)"
    "wval 64 (mont_encode a) * 2 ^ 256 mod field_prime = wval 64 a * wval 64 R2 mod field_prime"
    using constants_reduced(2) by (simp_all add: mont_encode_def reduced_def)
  have "wval 64 a * wval 64 R2 mod field_prime = wval 64 a * 2 ^ 512 mod field_prime"
    unfolding montgomery_square [symmetric] by (rule mod_mult_right_eq)
  from fv_scale[OF m(2)[unfolded this]] show ?thesis using m(1) by (simp only: cancel_inverse)
qed

lemma mont_decode_val:
  assumes "reduced a"
  shows "reduced (mont_decode a) \<and> int (wval 64 (mont_decode a)) = fv a"
proof -
  have one: "wval 64 [1, 0, 0, 0] = 1" by simp
  have "wval 64 a * 1 < 2 ^ 256 * field_prime" using assms by (simp add: reduced_def field_prime_def)
  from gfp_mul_val[of a "[1, 0, 0, 0]", unfolded one, OF _ _ this] assms
  have m: "reduced (mont_decode a)" "wval 64 (mont_decode a) * 2 ^ 256 mod field_prime = wval 64 a mod field_prime"
    by (simp_all add: mont_decode_def reduced_def)
  let ?d = "wval 64 (mont_decode a)" and ?r = "wval 64 RN1"
  have "wval 64 a * ?r mod field_prime = (wval 64 a mod field_prime) * ?r mod field_prime" by (simp only: mod_mult_left_eq)
  also have "\<dots> = ?d * (2 ^ 256 * ?r mod field_prime) mod field_prime" unfolding m(2) [symmetric]
    by (simp only: mod_mult_left_eq mod_mult_right_eq ac_simps)
  also have "\<dots> = ?d" unfolding montgomery_inverse using m(1) by (simp add: reduced_def)
  finally show ?thesis using m(1) by (simp add: fv_def)
qed

lemma mont_decode_encode:
  assumes "reduced a"
  shows "mont_decode (mont_encode a) = a" and "mont_encode (mont_decode a) = a"
proof -
  have e: "reduced (mont_encode a)" "fv (mont_encode a) = int (wval 64 a)"
    using mont_encode_fv[of a] assms by (simp_all add: reduced_def)
  have d: "reduced (mont_decode (mont_encode a))" "wval 64 (mont_decode (mont_encode a)) = wval 64 a"
    using mont_decode_val[OF e(1)] e(2) by simp_all
  then show "mont_decode (mont_encode a) = a" using assms by (intro fv_inj) (simp_all add: fv_def)
  have d': "reduced (mont_decode a)" "int (wval 64 (mont_decode a)) = fv a" using mont_decode_val[OF assms] by simp_all
  then have "reduced (mont_encode (mont_decode a))" "fv (mont_encode (mont_decode a)) = fv a"
    using mont_encode_fv[of "mont_decode a"] by (simp_all add: reduced_def)
  then show "mont_encode (mont_decode a) = a" using assms by (intro fv_inj)
qed

lemma gfp_new_fv:
  assumes "\<bar>x\<bar> < 2 ^ 63"
  shows "reduced (gfp_new x) \<and> fv (gfp_new x) = x mod int field_prime"
proof -
  define w :: gfp where "w = [of_int \<bar>x\<bar>, 0, 0, 0]"
  have "unat (of_int \<bar>x\<bar> :: u64) = nat \<bar>x\<bar>"
    using unat_of_nat[of "nat \<bar>x\<bar>", where 'a = 64] assms by (simp add: nat_less_iff)
  then have w: "length w = 4" "wval 64 w = nat \<bar>x\<bar>" by (simp_all add: w_def)
  have r: "reduced w" using w assms by (simp add: reduced_def field_prime_def nat_less_iff)
  show ?thesis
  proof (cases "x \<ge> 0")
    case True
    then have "gfp_new x = mont_encode w" "int (nat \<bar>x\<bar> mod field_prime) = x mod int field_prime"
      by (simp_all add: gfp_new_def w_def zmod_int)
    then show ?thesis using mont_encode_fv[OF w(1)] unfolding w(2) by simp
  next
    case False
    have n: "reduced (gfp_neg w)" "wval 64 (gfp_neg w) = (field_prime - wval 64 w) mod field_prime" using gfp_neg_val[OF r] by simp_all
    have "int (wval 64 (gfp_neg w)) = (int 0 - int (wval 64 w)) mod int field_prime"
      unfolding n(2) using int_mod_diff[of "wval 64 w" 0] r by (simp add: reduced_def)
    then have "int (wval 64 (gfp_neg w) mod field_prime) = x mod int field_prime" using w(2) False by (simp add: zmod_int)
    moreover have "gfp_new x = mont_encode (gfp_neg w)" using False by (simp add: gfp_new_def w_def)
    ultimately show ?thesis using mont_encode_fv[of "gfp_neg w"] n(1) by (simp add: reduced_def)
  qed
qed


text \<open>The exponent bits of the inversion loop.\<close>

lemma fold_words_bits:
  "fold (\<lambda>w st. fold (invert_step w) [0..<64] st) ws st = fold gf.power_step (concat (map (\<lambda>w. map (bit w) [0..<64]) ws)) st"
proof -
  have one: "(x AND 1 = 1) = bit x 0" for x :: u64 by (simp add: and_one_eq bit_0 odd_iff_mod_2_eq_one)
  have step: "invert_step w k = gf.power_step (bit w k)" for w k
    by (rule ext) (auto simp: invert_step_def gf.power_step_def one bit_drop_bit_eq split: prod.splits)
  have "invert_step w = (\<lambda>k. gf.power_step (bit w k))" for w by (rule ext) (rule step)
  then have "fold (invert_step w) ks = fold gf.power_step (map (bit w) ks)" for w ks
    by (simp add: fold_map comp_def)
  then show ?thesis by (induction ws arbitrary: st) simp_all
qed

lemma bits_val_append: "gf.bits_val (xs @ ys) = gf.bits_val xs + 2 ^ length xs * gf.bits_val ys"
  by (induction xs) (simp_all add: algebra_simps)

lemma bits_val_word: "gf.bits_val (map (bit w) [0..<k]) = unat w mod 2 ^ k" for w :: u64
proof (induction k)
  case (Suc k)
  have "bit w k \<longleftrightarrow> bit (unat w) k" by (auto simp: bit_unsigned_iff)
  then have b: "of_bool (bit w k) = unat w div 2 ^ k mod 2" by (simp only: bit_iff_odd odd_iff_mod_2_eq_one) auto
  have "gf.bits_val (map (bit w) [0..<Suc k]) = unat w mod 2 ^ k + 2 ^ k * (unat w div 2 ^ k mod 2)"
    using Suc by (simp add: bits_val_append b)
  also have "\<dots> = unat w mod 2 ^ Suc k" using mod_mult2_eq[of "unat w" "2 ^ k" 2] by (simp add: mult.commute)
  finally show ?case .
qed simp

lemma bits_val_words: "gf.bits_val (concat (map (\<lambda>w. map (bit w) [0..<64]) ws)) = wval 64 ws"
proof (induction ws)
  case (Cons w ws)
  have "gf.bits_val (map (bit w) [0..<64]) = unat w" using bits_val_word[of w 64] unat_u64_less[of w] by simp
  then show ?case using Cons by (simp add: bits_val_append)
qed simp

lemma invert_fv:
  assumes "reduced a"
  shows "reduced (invert a) \<and> fv (invert a) = fv a ^ (field_prime - 2) mod int field_prime"
proof -
  define s where "s = fst (fold (\<lambda>w st. fold (invert_step w) [0..<64] st) INVERT_BITS (RN1, a))"
  have i: "invert a = gfp_mul s R3" by (simp add: invert_def s_def split_beta)
  have w: "wval 64 INVERT_BITS = field_prime - 2" by (simp add: INVERT_BITS_def field_prime_def)
  have s: "reduced s" "fv s = fv RN1 * fv a ^ (field_prime - 2) mod int field_prime"
    using gf.power_fold[OF constants_reduced(1) assms, of "concat (map (\<lambda>w. map (bit w) [0..<64]) INVERT_BITS)"] unfolding s_def fold_words_bits bits_val_words w by blast+
  have "fv RN1 * fv R3 mod int field_prime = 1"
  proof -
    let ?r = "wval 64 RN1"
    have "fv RN1 * fv R3 mod int field_prime = int ((?r * ?r mod field_prime) * (wval 64 R3 * ?r mod field_prime) mod field_prime)"
      by (simp add: fv_def zmod_int)
    also have "(?r * ?r mod field_prime) * (wval 64 R3 * ?r mod field_prime) mod field_prime = ?r * ?r * (wval 64 R3 * ?r) mod field_prime"
      by (rule mod_mult_eq)
    also have "?r * ?r * (wval 64 R3 * ?r) = (?r * ?r * ?r) * wval 64 R3" by (simp only: ac_simps)
    also have "(?r * ?r * ?r) * wval 64 R3 mod field_prime = (?r * ?r * ?r) * (2 ^ 256 * wval 64 R2) mod field_prime"
      unfolding montgomery_cube [symmetric] by (rule mod_mult_right_eq)
    also have "(?r * ?r * ?r) * (2 ^ 256 * wval 64 R2) = (?r * ?r * ?r * 2 ^ 256) * wval 64 R2" by (simp only: mult.assoc)
    also have "(?r * ?r * ?r * 2 ^ 256) * wval 64 R2 mod field_prime = (?r * ?r * ?r * 2 ^ 256) * 2 ^ 512 mod field_prime"
      unfolding montgomery_square [symmetric] by (rule mod_mult_right_eq)
    also have "\<dots> = (2 ^ 256 * ?r) * 2 ^ 512 * (?r * ?r) mod field_prime" by (simp only: ac_simps)
    also have "\<dots> = 1" unfolding cancel_inverse montgomery_inverse ..
    finally show ?thesis by simp
  qed
  then have "fv s * fv R3 mod int field_prime = fv a ^ (field_prime - 2) mod int field_prime"
    unfolding s(2) by (metis (no_types, opaque_lifting) mod_mult_left_eq mult.assoc mult.commute mult_1)
  then show ?thesis using gfp_mul_fv[OF s(1) constants_reduced(3)] by (simp add: i)
qed

section \<open>Bytes of an element\<close>

lemma le_bytes_nth: "i < n \<Longrightarrow> le_bytes n x ! i = of_nat (x div 256 ^ i mod 256)"
proof (induction n arbitrary: i x)
  case (Suc n)
  then show ?case by (cases i) (simp_all add: div_mult2_eq)
qed simp

lemma u64_be_bytes: "u64_be w = map (\<lambda>b. ucast (drop_bit (56 - 8 * b) w)) [0..<8]"
proof (rule nth_equalityI)
  fix i assume "i < length (u64_be w)"
  then have i: "i < 8" by simp
  have "u64_be w ! i = le_bytes 8 (unat w) ! (7 - i)" using i by (simp add: u64_be_def be_bytes_def rev_nth)
  also have "\<dots> = of_nat (unat w div 2 ^ (56 - 8 * i) mod 256)"
    using i power_mult[of "2 :: nat" 8 "7 - i"] by (simp add: le_bytes_nth diff_mult_distrib2)
  also have "\<dots> = ucast (drop_bit (56 - 8 * i) w)"
  proof -
    have "unat (ucast (drop_bit (56 - 8 * i) w) :: byte) = unat w div 2 ^ (56 - 8 * i) mod 256"
      unfolding unat_ucast unat_shr by simp
    then show ?thesis by (metis word_unat_eq_iff of_nat_unat ucast_id unat_of_nat_byte mod_mod_trivial)
  qed
  finally show "u64_be w ! i = map (\<lambda>b. ucast (drop_bit (56 - 8 * b) w)) [0..<8] ! i" using i by simp
qed simp

lemma marshal_words: "length a = 4 \<Longrightarrow> marshal a = u64_be (a ! 3) @ u64_be (a ! 2) @ u64_be (a ! 1) @ u64_be (a ! 0)"
proof -
  have "[0..<4] = [0, 1, 2, 3 :: nat]" by code_simp
  then show ?thesis by (simp add: marshal_def u64_be_bytes)
qed

lemma be_val_u64: "be_val (u64_be w) = unat w"
  using unat_u64_less[of w] by (simp add: u64_be_def be_val_be_bytes)

lemma marshal_val:
  assumes "length a = 4"
  shows "be_val (marshal a) = wval 64 a \<and> length (marshal a) = 32"
proof -
  obtain a0 a1 a2 a3 where a: "a = [a0, a1, a2, a3]" by (rule four_words[OF assms])
  then show ?thesis by (simp add: marshal_words be_val_append be_val_u64 algebra_simps)
qed

lemma eight_bytes:
  assumes "length (bs :: byte list) = 8"
  obtains b0 b1 b2 b3 b4 b5 b6 b7 where "bs = [b0, b1, b2, b3, b4, b5, b6, b7]"
  using assms by (auto simp: numeral_eq_Suc length_Suc_conv)

lemma load_word_val:
  assumes "8 * w + 8 \<le> length input"
  shows "load_word input w = be_u64 (take 8 (drop (8 * w) input))"
proof -
  define bs where "bs = take 8 (drop (8 * w) input)"
  have "length bs = 8" using assms by (simp add: bs_def)
  then obtain b0 b1 b2 b3 b4 b5 b6 b7 where bs: "bs = [b0, b1, b2, b3, b4, b5, b6, b7]" by (rule eight_bytes)
  have n: "input ! (8 * w + k) = bs ! k" if "k < 8" for k using that assms by (simp add: bs_def)
  have "[0..<8] = [0, 1, 2, 3, 4, 5, 6, 7 :: nat]" by code_simp
  then have l: "load_word input w = push_bit 56 (ucast b0) + push_bit 48 (ucast b1) + push_bit 40 (ucast b2) + push_bit 32 (ucast b3)
      + push_bit 24 (ucast b4) + push_bit 16 (ucast b5) + push_bit 8 (ucast b6) + ucast b7"
    using n[of 0] n[of 1] n[of 2] n[of 3] n[of 4] n[of 5] n[of 6] n[of 7] by (simp add: load_word_def bs)
  have u: "of_nat (unat b) = (ucast b :: u64)" for b :: byte by simp
  have "be_u64 bs = of_nat (unat b0 * 2 ^ 56 + unat b1 * 2 ^ 48 + unat b2 * 2 ^ 40 + unat b3 * 2 ^ 32 + unat b4 * 2 ^ 24
      + unat b5 * 2 ^ 16 + unat b6 * 2 ^ 8 + unat b7)"
    unfolding be_u64_def bs be_val_def by (rule arg_cong[of _ _ of_nat]) simp
  also have "\<dots> = load_word input w" unfolding l push_bit_eq_mult of_nat_add of_nat_mult of_nat_power of_nat_numeral u ..
  finally show ?thesis by (simp add: bs_def)
qed

lemma words_of_bytes:
  assumes "32 \<le> length input"
  shows "wval 64 (map (\<lambda>i. load_word input (3 - i)) [0..<4]) = be_val (take 32 input)"
proof -
  have "[0..<4] = [0, 1, 2, 3 :: nat]" by code_simp
  have "take 32 input = take 8 input @ take 8 (drop 8 input) @ take 8 (drop 16 input) @ take 8 (drop 24 input)"
    using take_add[of 8 24 input] take_add[of 8 16 "drop 8 input"] take_add[of 8 8 "drop 16 input"] by simp
  moreover have "unat (be_u64 bs) = be_val bs" if "length bs = 8" for bs
    using be_val_less[of bs] that by (simp add: be_u64_def unat_of_nat)
  ultimately show ?thesis using assms \<open>[0..<4] = [0, 1, 2, 3 :: nat]\<close>
    by (simp add: load_word_val be_val_append algebra_simps)
qed

lemma compare_words:
  assumes "length e = 4"
  shows "below_modulus [3, 2, 1, 0] e = (if wval 64 e < field_prime then Inr e else if wval 64 e > field_prime then Inl ExceedsModulus else Inl EqualsModulus)"
proof -
  obtain e0 e1 e2 e3 where e: "e = [e0, e1, e2, e3]" by (rule four_words[OF assms])
  obtain p0 p1 p2 p3 where p: "P2 = [p0, p1, p2, p3]" by (rule four_words[OF wval_P2(2)])
  have P: "field_prime = unat p0 + 2 ^ 64 * (unat p1 + 2 ^ 64 * (unat p2 + 2 ^ 64 * unat p3))" using wval_P2(1) unfolding p by simp
  note l = unat_u64_less[of e0] unat_u64_less[of e1] unat_u64_less[of e2] unat_u64_less[of e3]
    unat_u64_less[of p0] unat_u64_less[of p1] unat_u64_less[of p2] unat_u64_less[of p3]
  have lex: "x + 2 ^ 64 * y < x' + 2 ^ 64 * y' \<longleftrightarrow> y < y' \<or> (y = y' \<and> x < x')" if "x < 2 ^ 64" "x' < 2 ^ 64" for x x' y y' :: nat
  proof -
    have "y < y' \<Longrightarrow> 2 ^ 64 * (y + 1) \<le> 2 ^ 64 * y'" "y' < y \<Longrightarrow> 2 ^ 64 * (y' + 1) \<le> 2 ^ 64 * y" by (simp_all only: mult_le_mono2 Suc_eq_plus1 [symmetric] Suc_leI)
    then show ?thesis using that by (cases y y' rule: linorder_cases) auto
  qed
  have eq: "x + 2 ^ 64 * y = x' + 2 ^ 64 * y' \<longleftrightarrow> y = y' \<and> x = x'" if "x < 2 ^ 64" "x' < 2 ^ 64" for x x' y y' :: nat
    using lex[OF that, of y y'] lex[OF that(2,1), of y' y] by (metis less_irrefl linorder_neqE_nat)
  have L: "wval 64 e < field_prime \<longleftrightarrow> e3 < p3 \<or> (e3 = p3 \<and> (e2 < p2 \<or> (e2 = p2 \<and> (e1 < p1 \<or> (e1 = p1 \<and> e0 < p0)))))"
    unfolding e P wval.simps using l by (simp only: lex eq word_less_nat_alt word_unat_eq_iff mult_0_right add_0_right) argo
  have G: "field_prime < wval 64 e \<longleftrightarrow> p3 < e3 \<or> (p3 = e3 \<and> (p2 < e2 \<or> (p2 = e2 \<and> (p1 < e1 \<or> (p1 = e1 \<and> p0 < e0)))))"
    unfolding e P wval.simps using l by (simp only: lex eq word_less_nat_alt word_unat_eq_iff mult_0_right add_0_right) argo
  have "below_modulus [3, 2, 1, 0] e = (if e3 < p3 then Inr e else if e3 > p3 then Inl ExceedsModulus
      else if e2 < p2 then Inr e else if e2 > p2 then Inl ExceedsModulus
      else if e1 < p1 then Inr e else if e1 > p1 then Inl ExceedsModulus
      else if e0 < p0 then Inr e else if e0 > p0 then Inl ExceedsModulus else Inl EqualsModulus)"
    by (simp add: e p)
  then show ?thesis unfolding L G
    by (cases e3 p3 rule: linorder_cases; cases e2 p2 rule: linorder_cases; cases e1 p1 rule: linorder_cases; simp)
qed

lemma unmarshal_spec:
  "unmarshal input =
    (if length input < 32 then Inl NotEnoughData
     else if be_val (take 32 input) < field_prime then Inr (map (\<lambda>i. load_word input (3 - i)) [0..<4])
     else if be_val (take 32 input) > field_prime then Inl ExceedsModulus else Inl EqualsModulus)"
  using compare_words[of "map (\<lambda>i. load_word input (3 - i)) [0..<4]"] words_of_bytes[of input] by (simp add: unmarshal_def)

lemma unmarshal_marshal: "reduced a \<Longrightarrow> unmarshal (marshal a @ rest) = Inr a"
proof -
  assume a: "reduced a"
  then have m: "be_val (marshal a) = wval 64 a" "length (marshal a) = 32" using marshal_val by (simp_all add: reduced_def)
  have "wval 64 (map (\<lambda>i. load_word (marshal a @ rest) (3 - i)) [0..<4]) = wval 64 a" using words_of_bytes[of "marshal a @ rest"] m by simp
  then have "map (\<lambda>i. load_word (marshal a @ rest) (3 - i)) [0..<4] = a" using a by (intro wval_inj) (simp_all add: reduced_def)
  then show ?thesis using a m by (simp add: unmarshal_spec reduced_def)
qed

lemma unmarshal_Inr:
  assumes "unmarshal input = Inr a"
  shows "reduced a \<and> marshal a = take 32 input \<and> 32 \<le> length input"
proof -
  have a: "32 \<le> length input" "be_val (take 32 input) < field_prime" "a = map (\<lambda>i. load_word input (3 - i)) [0..<4]"
    using assms unfolding unmarshal_spec by (auto split: if_splits)
  have r: "reduced a" using words_of_bytes[OF a(1)] a(2,3) by (simp add: reduced_def)
  have "be_val (marshal a) = be_val (take 32 input)" "length (marshal a) = 32"
    using marshal_val[of a] words_of_bytes[OF a(1)] a(3) r by (simp_all add: reduced_def)
  then have "marshal a = take 32 input" by (metis be_bytes_be_val length_take min.absorb2 a(1))
  then show ?thesis using r a(1) by simp
qed


section \<open>Properties\<close>

text \<open>C17: The field arithmetic on four machine words is arithmetic modulo the prime: on reduced operands, addition,
  subtraction, negation and Montgomery multiplication return reduced words that stand for the sum, difference,
  opposite and product, although every intermediate step wraps at 64 bits.\<close>

theorem field_arithmetic_correct:
  assumes "reduced a" "reduced b"
  shows "reduced (gfp_add a b) \<and> fv (gfp_add a b) = (fv a + fv b) mod int field_prime
    \<and> reduced (gfp_sub a b) \<and> fv (gfp_sub a b) = (fv a - fv b) mod int field_prime
    \<and> reduced (gfp_neg a) \<and> fv (gfp_neg a) = (- fv a) mod int field_prime
    \<and> reduced (gfp_mul a b) \<and> fv (gfp_mul a b) = (fv a * fv b) mod int field_prime"
  using gf.add_ok[OF assms] gf.sub_ok[OF assms] gf.neg_ok[OF assms(1)] gf.mul_ok[OF assms] by blast

theorem field_arithmetic_correct_witness:
  "fv (gfp_mul R2 R3) = (fv R2 * fv R3) mod int field_prime \<and> fv (gfp_sub R2 R3) = (fv R2 - fv R3) mod int field_prime"
  using field_arithmetic_correct[OF constants_reduced(2,3)] by blast

text \<open>The inversion loop raises its argument to the power \<open>p - 2\<close> modulo the prime, so wherever that power is an
  inverse (for every non-zero element, the modulus being prime) the product with the argument is one.\<close>

theorem invert_is_power:
  assumes "reduced a"
  shows "reduced (invert a) \<and> fv (invert a) = fv a ^ (field_prime - 2) mod int field_prime
    \<and> (fv a ^ (field_prime - 1) mod int field_prime = 1 \<longrightarrow> gfp_mul a (invert a) = gfp_new 1)"
proof -
  note i = invert_fv[OF assms]
  have e: "fv a * fv a ^ (field_prime - 2) = fv a ^ (field_prime - 1)"
    using power_Suc[of "fv a" "field_prime - 2"] by (simp add: field_prime_def)
  have "gfp_mul a (invert a) = gfp_new 1" if "fv a ^ (field_prime - 1) mod int field_prime = 1"
  proof (rule fv_inj)
    have "fv (gfp_mul a (invert a)) = fv a * (fv a ^ (field_prime - 2) mod int field_prime) mod int field_prime"
      using gfp_mul_fv[OF assms, of "invert a"] i by simp
    also have "\<dots> = 1" unfolding mod_mult_right_eq e by (rule that)
    finally show "fv (gfp_mul a (invert a)) = fv (gfp_new 1)" using gfp_new_fv[of 1] by (simp add: field_prime_def)
  qed (use gfp_mul_fv[OF assms, of "invert a"] i gfp_new_fv[of 1] in simp_all)
  then show ?thesis using i by blast
qed

theorem invert_is_power_witness:
  "gfp_mul (gfp_new 1) (invert (gfp_new 1)) = gfp_new 1"
proof -
  have n: "reduced (gfp_new 1)" "fv (gfp_new 1) = 1" using gfp_new_fv[of 1] by (simp_all add: field_prime_def)
  have "(1 :: int) mod int field_prime = 1" by (simp add: field_prime_def)
  then show ?thesis using invert_is_power[OF n(1)] n(2) by (simp only: power_one)
qed

text \<open>Bytes and words: reading back what \<open>marshal\<close> writes gives the element, \<open>unmarshal\<close> accepts exactly the
  32-byte values below the prime and accepts each of them as the only element that marshals to it, and
  Montgomery encoding and decoding are inverse.\<close>

theorem field_codec:
  assumes "reduced a"
  shows "unmarshal (marshal a) = Inr a \<and> mont_decode (mont_encode a) = a \<and> mont_encode (mont_decode a) = a
    \<and> (\<forall>input. (\<exists>e. unmarshal input = Inr e) = (32 \<le> length input \<and> be_val (take 32 input) < field_prime))
    \<and> (unmarshal input = Inr a \<longrightarrow> marshal a = take 32 input)"
proof -
  have "unmarshal (marshal a) = Inr a" using unmarshal_marshal[OF assms, of "[]"] by simp
  moreover have "(\<exists>e. unmarshal input = Inr e) = (32 \<le> length input \<and> be_val (take 32 input) < field_prime)" for input
    unfolding unmarshal_spec by auto
  ultimately show ?thesis using mont_decode_encode[OF assms] unmarshal_Inr[of input a] by blast
qed

theorem field_codec_witness: "unmarshal (marshal R2) = Inr R2 \<and> mont_decode (mont_encode R2) = R2"
  using field_codec[OF constants_reduced(2)] by blast

end
