(* ===== verification/Curve.thy ===== *)
theory Curve
  imports Gfp
begin

text \<open>
  The curve group (\<open>cryptography/bn256/src/curve.rs\<close>): points of y^2 = x^3 + 3 in Jacobian coordinates (X, Y, Z, T), the point
  (X/Z^2, Y/Z^3), with Z = 0 for the point at infinity. The lemmas show that every operation keeps the coordinates reduced and the curve
  equation, and that addition and doubling are the chord and tangent constructions.
\<close>

unbundle bit_operations_syntax

section \<open>Points\<close>

record curve_point =
  cx :: gfp
  cy :: gfp
  cz :: gfp
  ct :: gfp

definition curve_b :: gfp where "curve_b = gfp_new 3"

definition gfp_one :: gfp where "gfp_one = gfp_new 1"

definition generator :: curve_point where
  "generator = \<lparr>cx = gfp_new 1, cy = gfp_new 2, cz = gfp_new 1, ct = gfp_new 1\<rparr>"

definition infinity :: curve_point where
  "infinity = \<lparr>cx = gfp_zero, cy = gfp_one, cz = gfp_zero, ct = gfp_zero\<rparr>"

definition set_infinity :: "curve_point \<Rightarrow> curve_point" where
  "set_infinity c = c\<lparr>cx := gfp_zero, cy := gfp_one, cz := gfp_zero, ct := gfp_zero\<rparr>"

definition is_infinity :: "curve_point \<Rightarrow> bool" where
  "is_infinity c \<longleftrightarrow> cz c = gfp_zero"

definition make_affine :: "curve_point \<Rightarrow> curve_point" where
  "make_affine c =
    (if cz c = gfp_one then c
     else if cz c = gfp_zero then c\<lparr>cx := gfp_zero, cy := gfp_one, ct := gfp_zero\<rparr>
     else let z_inv = invert (cz c); t = gfp_mul (cy c) z_inv; z_inv2 = gfp_mul z_inv z_inv
       in c\<lparr>cx := gfp_mul (cx c) z_inv2, cy := gfp_mul t z_inv2, cz := gfp_one, ct := gfp_one\<rparr>)"

definition is_on_curve :: "curve_point \<Rightarrow> bool" where
  "is_on_curve c0 =
    (let c = make_affine c0
     in if is_infinity c then True
        else let y2 = gfp_mul (cy c) (cy c); x3 = gfp_mul (cx c) (cx c); x3 = gfp_mul x3 (cx c); x3 = gfp_add x3 curve_b
          in y2 = x3)"

definition curve_double :: "curve_point \<Rightarrow> curve_point" where
  "curve_double a =
    (let aa = gfp_mul (cx a) (cx a); bb = gfp_mul (cy a) (cy a); cc = gfp_mul bb bb;
       t = gfp_add (cx a) bb; t2 = gfp_mul t t; t = gfp_sub t2 aa; t2 = gfp_sub t cc;
       d = gfp_add t2 t2; t = gfp_add aa aa; e = gfp_add t aa; f = gfp_mul e e;
       t = gfp_add d d;
       x = gfp_sub f t;
       z = gfp_mul (cy a) (cz a); z = gfp_add z z;
       t = gfp_add cc cc; t2 = gfp_add t t; t = gfp_add t2 t2;
       y = gfp_sub d x; t2 = gfp_mul e y; y = gfp_sub t2 t
     in \<lparr>cx = x, cy = y, cz = z, ct = gfp_zero\<rparr>)"

definition curve_add :: "curve_point \<Rightarrow> curve_point \<Rightarrow> curve_point" where
  "curve_add a b =
    (if is_infinity a then b
     else if is_infinity b then a
     else let z12 = gfp_mul (cz a) (cz a); z22 = gfp_mul (cz b) (cz b);
       u1 = gfp_mul (cx a) z22; u2 = gfp_mul (cx b) z12;
       t = gfp_mul (cz b) z22; s1 = gfp_mul (cy a) t;
       t = gfp_mul (cz a) z12; s2 = gfp_mul (cy b) t;
       h = gfp_sub u2 u1; x_equal = (h = gfp_zero);
       t = gfp_add h h; i = gfp_mul t t; j = gfp_mul h i;
       t = gfp_sub s2 s1; y_equal = (t = gfp_zero)
     in if x_equal \<and> y_equal then curve_double a
        else let r = gfp_add t t; v = gfp_mul u1 i;
          t4 = gfp_mul r r; t = gfp_add v v; t6 = gfp_sub t4 j;
          x = gfp_sub t6 t;
          t = gfp_sub v x; t4 = gfp_mul s1 j; t6 = gfp_add t4 t4; t4 = gfp_mul r t;
          y = gfp_sub t4 t6;
          t = gfp_add (cz a) (cz b); t4 = gfp_mul t t; t = gfp_sub t4 z12; t4 = gfp_sub t z22;
          z = gfp_mul t4 h
        in \<lparr>cx = x, cy = y, cz = z, ct = gfp_zero\<rparr>)"

text \<open>The body of the inner loop of \<open>mul\<close>, for one bit of a scalar byte.\<close>

definition mul_bit :: "curve_point \<Rightarrow> byte \<Rightarrow> nat \<Rightarrow> curve_point \<Rightarrow> curve_point" where
  "mul_bit a v n s =
    (let s = curve_double s in if drop_bit n v AND 1 = 1 then curve_add s a else s)"

definition curve_mul :: "curve_point \<Rightarrow> byte list \<Rightarrow> curve_point" where
  "curve_mul a scalar_be = fold (\<lambda>v. fold (mul_bit a v) (rev [0..<8])) scalar_be infinity"

definition curve_neg :: "curve_point \<Rightarrow> curve_point" where
  "curve_neg a = \<lparr>cx = cx a, cy = gfp_neg (cy a), cz = cz a, ct = gfp_zero\<rparr>"

section \<open>Congruence modulo the prime\<close>

definition cgr :: "int \<Rightarrow> int \<Rightarrow> bool" where
  "cgr a b \<longleftrightarrow> a mod int field_prime = b mod int field_prime"

lemma cgr_refl [simp, intro]: "cgr a a"
  by (simp add: cgr_def)

lemma cgr_sym: "cgr a b \<Longrightarrow> cgr b a"
  by (simp add: cgr_def)

lemma cgr_trans [trans]: "cgr a b \<Longrightarrow> cgr b c \<Longrightarrow> cgr a c"
  by (simp add: cgr_def)

lemma cgr_eq_trans [trans]: "cgr a b \<Longrightarrow> b = c \<Longrightarrow> cgr a c" "a = b \<Longrightarrow> cgr b c \<Longrightarrow> cgr a c"
  by simp_all

lemma cgr_add: "cgr a b \<Longrightarrow> cgr c d \<Longrightarrow> cgr (a + c) (b + d)"
  unfolding cgr_def by (rule mod_add_cong)

lemma cgr_diff: "cgr a b \<Longrightarrow> cgr c d \<Longrightarrow> cgr (a - c) (b - d)"
  unfolding cgr_def by (rule mod_diff_cong)

lemma cgr_mult: "cgr a b \<Longrightarrow> cgr c d \<Longrightarrow> cgr (a * c) (b * d)"
  unfolding cgr_def by (rule mod_mult_cong)

lemma cgr_power: "cgr a b \<Longrightarrow> cgr (a ^ n) (b ^ n)"
  unfolding cgr_def by (metis power_mod)

lemma cgr_minus: "cgr a b \<Longrightarrow> cgr (- a) (- b)"
  unfolding cgr_def by (metis mod_minus_eq)

lemmas cgr_intros = cgr_add cgr_diff cgr_mult cgr_power cgr_minus cgr_refl

lemma cgr_mod [simp]: "cgr (a mod int field_prime) b \<longleftrightarrow> cgr a b" "cgr a (b mod int field_prime) \<longleftrightarrow> cgr a b"
  by (simp_all add: cgr_def)

lemma cgr_zero_iff: "cgr a 0 \<longleftrightarrow> int field_prime dvd a"
  by (simp add: cgr_def dvd_eq_mod_eq_0)

lemma cgr_iff_diff: "cgr a b \<longleftrightarrow> cgr (a - b) 0"
  unfolding cgr_zero_iff by (simp add: cgr_def mod_eq_dvd_iff)

lemma cgr_fv_eq:
  assumes "reduced a" "reduced b" "cgr (fv a) (fv b)"
  shows "a = b"
  using assms gf.val_mod[OF assms(1)] gf.val_mod[OF assms(2)] by (intro fv_inj) (simp_all add: cgr_def)

text \<open>The field operations, read modulo the prime.\<close>

lemma reduced_ops [simp, intro]:
  "reduced a \<Longrightarrow> reduced b \<Longrightarrow> reduced (gfp_add a b)"
  "reduced a \<Longrightarrow> reduced b \<Longrightarrow> reduced (gfp_sub a b)"
  "reduced a \<Longrightarrow> reduced b \<Longrightarrow> reduced (gfp_mul a b)"
  "reduced a \<Longrightarrow> reduced (gfp_neg a)"
  "reduced gfp_zero"
  by (simp_all add: gf.add_ok gf.sub_ok gf.mul_ok gf.neg_ok gf.zero_ok)

lemma cgr_ops:
  "reduced a \<Longrightarrow> reduced b \<Longrightarrow> cgr (fv a) x \<Longrightarrow> cgr (fv b) y \<Longrightarrow> cgr (fv (gfp_add a b)) (x + y)"
  "reduced a \<Longrightarrow> reduced b \<Longrightarrow> cgr (fv a) x \<Longrightarrow> cgr (fv b) y \<Longrightarrow> cgr (fv (gfp_sub a b)) (x - y)"
  "reduced a \<Longrightarrow> reduced b \<Longrightarrow> cgr (fv a) x \<Longrightarrow> cgr (fv b) y \<Longrightarrow> cgr (fv (gfp_mul a b)) (x * y)"
  "reduced a \<Longrightarrow> cgr (fv a) x \<Longrightarrow> cgr (fv (gfp_neg a)) (- x)"
  by (simp_all add: gf.add_ok gf.sub_ok gf.mul_ok gf.neg_ok cgr_intros)


section \<open>Invariants\<close>

text \<open>Reduced coordinates, and points that are at infinity or satisfy the Jacobian curve equation.\<close>

definition coords_ok :: "curve_point \<Rightarrow> bool" where
  "coords_ok c \<longleftrightarrow> reduced (cx c) \<and> reduced (cy c) \<and> reduced (cz c)"

definition eqn :: "int \<Rightarrow> int \<Rightarrow> int \<Rightarrow> int" where
  "eqn x y z = y ^ 2 - x ^ 3 - 3 * z ^ 6"

definition curve_inv :: "curve_point \<Rightarrow> bool" where
  "curve_inv c \<longleftrightarrow> coords_ok c \<and> (is_infinity c \<or> cgr (eqn (fv (cx c)) (fv (cy c)) (fv (cz c))) 0)"

lemma eqn_cong: "cgr x x' \<Longrightarrow> cgr y y' \<Longrightarrow> cgr z z' \<Longrightarrow> cgr (eqn x y z) (eqn x' y' z')"
  unfolding eqn_def by (intro cgr_intros)

lemma double_formulas:
  assumes "coords_ok a"
  defines "X \<equiv> fv (cx a)" and "Y \<equiv> fv (cy a)" and "Z \<equiv> fv (cz a)"
  shows "coords_ok (curve_double a)"
    and "cgr (fv (cx (curve_double a))) (9 * X ^ 4 - 8 * X * Y ^ 2)"
    and "cgr (fv (cy (curve_double a))) (3 * X ^ 2 * (4 * X * Y ^ 2 - (9 * X ^ 4 - 8 * X * Y ^ 2)) - 8 * Y ^ 4)"
    and "cgr (fv (cz (curve_double a))) (2 * Y * Z)"
proof -
  have r: "reduced (cx a)" "reduced (cy a)" "reduced (cz a)" using assms(1) by (simp_all add: coords_ok_def)
  have v: "cgr (fv (cx a)) X" "cgr (fv (cy a)) Y" "cgr (fv (cz a)) Z" by (simp_all add: X_def Y_def Z_def)
  show "coords_ok (curve_double a)" using r by (simp add: curve_double_def Let_def coords_ok_def)
  show "cgr (fv (cz (curve_double a))) (2 * Y * Z)"
    unfolding curve_double_def Let_def curve_point.select_convs
    by (rule cgr_eq_trans(1)) (rule cgr_ops reduced_ops r v | algebra)+
  show "cgr (fv (cx (curve_double a))) (9 * X ^ 4 - 8 * X * Y ^ 2)"
    unfolding curve_double_def Let_def curve_point.select_convs
    by (rule cgr_eq_trans(1)) (rule cgr_ops reduced_ops r v | algebra)+
  show "cgr (fv (cy (curve_double a))) (3 * X ^ 2 * (4 * X * Y ^ 2 - (9 * X ^ 4 - 8 * X * Y ^ 2)) - 8 * Y ^ 4)"
    unfolding curve_double_def Let_def curve_point.select_convs
    by (rule cgr_eq_trans(1)) (rule cgr_ops reduced_ops r v | algebra)+
qed


text \<open>The chord formulas in terms of \<open>U\<close> and \<open>S\<close>, the coordinates over a common denominator.\<close>

lemma add_formulas:
  assumes a: "coords_ok a" and b: "coords_ok b" and ni: "\<not> is_infinity a" "\<not> is_infinity b"
    and U1: "U1 = fv (cx a) * fv (cz b) ^ 2" and U2: "U2 = fv (cx b) * fv (cz a) ^ 2"
    and S1: "S1 = fv (cy a) * fv (cz b) ^ 3" and S2: "S2 = fv (cy b) * fv (cz a) ^ 3"
    and ne: "\<not> (cgr U1 U2 \<and> cgr S1 S2)"
  shows "coords_ok (curve_add a b)"
    and "cgr (fv (cx (curve_add a b))) (4 * ((S2 - S1) ^ 2 - (U2 - U1) ^ 3 - 2 * U1 * (U2 - U1) ^ 2))"
    and "cgr (fv (cy (curve_add a b))) (8 * ((S2 - S1) * (U1 * (U2 - U1) ^ 2 - ((S2 - S1) ^ 2 - (U2 - U1) ^ 3 - 2 * U1 * (U2 - U1) ^ 2)) - S1 * (U2 - U1) ^ 3))"
    and "cgr (fv (cz (curve_add a b))) (2 * fv (cz a) * fv (cz b) * (U2 - U1))"
proof -
  have r: "reduced (cx a)" "reduced (cy a)" "reduced (cz a)" "reduced (cx b)" "reduced (cy b)" "reduced (cz b)"
    using a b by (simp_all add: coords_ok_def)
  define z12 z22 where z: "z12 = gfp_mul (cz a) (cz a)" "z22 = gfp_mul (cz b) (cz b)"
  define u1 u2 s1 s2 where us: "u1 = gfp_mul (cx a) z22" "u2 = gfp_mul (cx b) z12"
    "s1 = gfp_mul (cy a) (gfp_mul (cz b) z22)" "s2 = gfp_mul (cy b) (gfp_mul (cz a) z12)"
  have rr: "reduced z12" "reduced z22" "reduced u1" "reduced u2" "reduced s1" "reduced s2" using r by (simp_all add: z us)
  have vz: "cgr (fv z12) (fv (cz a) * fv (cz a))" "cgr (fv z22) (fv (cz b) * fv (cz b))"
    unfolding z by (rule cgr_ops r cgr_refl)+
  have v: "cgr (fv u1) U1" "cgr (fv u2) U2" "cgr (fv s1) S1" "cgr (fv s2) S2"
    unfolding us U1 U2 S1 S2
    by (rule cgr_eq_trans(1), (rule cgr_ops reduced_ops r rr vz cgr_refl | algebra)+)+
  have same: "u1 = u2 \<longleftrightarrow> cgr U1 U2" "s1 = s2 \<longleftrightarrow> cgr S1 S2"
    using cgr_fv_eq[OF rr(3,4)] cgr_fv_eq[OF rr(5,6)] v cgr_sym cgr_trans by metis+
  have "\<not> (gfp_sub u2 u1 = gfp_zero \<and> gfp_sub s2 s1 = gfp_zero)"
    using ne same gf.sub_eq_zero[OF rr(4,3)] gf.sub_eq_zero[OF rr(6,5)] by auto
  then have eq: "curve_add a b =
      (let h = gfp_sub u2 u1; t = gfp_add h h; i = gfp_mul t t; j = gfp_mul h i; t = gfp_sub s2 s1; r = gfp_add t t; v = gfp_mul u1 i;
          t4 = gfp_mul r r; t = gfp_add v v; t6 = gfp_sub t4 j; x = gfp_sub t6 t;
          t = gfp_sub v x; t4 = gfp_mul s1 j; t6 = gfp_add t4 t4; t4 = gfp_mul r t; y = gfp_sub t4 t6;
          t = gfp_add (cz a) (cz b); t4 = gfp_mul t t; t = gfp_sub t4 z12; t4 = gfp_sub t z22; z = gfp_mul t4 h
        in \<lparr>cx = x, cy = y, cz = z, ct = gfp_zero\<rparr>)"
    using ni by (auto simp: curve_add_def Let_def z us)
  show "coords_ok (curve_add a b)" unfolding eq using r rr by (simp add: Let_def coords_ok_def)
  show "cgr (fv (cz (curve_add a b))) (2 * fv (cz a) * fv (cz b) * (U2 - U1))"
    unfolding eq Let_def curve_point.select_convs
    by (rule cgr_eq_trans(1)) (rule cgr_ops reduced_ops r rr v vz cgr_refl | algebra)+
  show "cgr (fv (cx (curve_add a b))) (4 * ((S2 - S1) ^ 2 - (U2 - U1) ^ 3 - 2 * U1 * (U2 - U1) ^ 2))"
    unfolding eq Let_def curve_point.select_convs
    by (rule cgr_eq_trans(1)) (rule cgr_ops reduced_ops r rr v cgr_refl | algebra)+
  show "cgr (fv (cy (curve_add a b))) (8 * ((S2 - S1) * (U1 * (U2 - U1) ^ 2 - ((S2 - S1) ^ 2 - (U2 - U1) ^ 3 - 2 * U1 * (U2 - U1) ^ 2)) - S1 * (U2 - U1) ^ 3))"
    unfolding eq Let_def curve_point.select_convs
    by (rule cgr_eq_trans(1)) (rule cgr_ops reduced_ops r rr v cgr_refl | algebra)+
qed

lemma add_same:
  assumes a: "coords_ok a" and b: "coords_ok b" and ni: "\<not> is_infinity a" "\<not> is_infinity b"
    and U1: "U1 = fv (cx a) * fv (cz b) ^ 2" and U2: "U2 = fv (cx b) * fv (cz a) ^ 2"
    and S1: "S1 = fv (cy a) * fv (cz b) ^ 3" and S2: "S2 = fv (cy b) * fv (cz a) ^ 3"
    and eq: "cgr U1 U2" "cgr S1 S2"
  shows "curve_add a b = curve_double a"
proof -
  have r: "reduced (cx a)" "reduced (cy a)" "reduced (cz a)" "reduced (cx b)" "reduced (cy b)" "reduced (cz b)"
    using a b by (simp_all add: coords_ok_def)
  define u1 u2 s1 s2 where us: "u1 = gfp_mul (cx a) (gfp_mul (cz b) (cz b))" "u2 = gfp_mul (cx b) (gfp_mul (cz a) (cz a))"
    "s1 = gfp_mul (cy a) (gfp_mul (cz b) (gfp_mul (cz b) (cz b)))" "s2 = gfp_mul (cy b) (gfp_mul (cz a) (gfp_mul (cz a) (cz a)))"
  have rr: "reduced u1" "reduced u2" "reduced s1" "reduced s2" using r by (simp_all add: us)
  have v: "cgr (fv u1) U1" "cgr (fv u2) U2" "cgr (fv s1) S1" "cgr (fv s2) S2"
    unfolding us U1 U2 S1 S2 by (rule cgr_eq_trans(1), (rule cgr_ops reduced_ops r cgr_refl | algebra)+)+
  have "cgr (fv u2) (fv u1)" "cgr (fv s2) (fv s1)"
    using v eq by (blast intro: cgr_trans cgr_sym)+
  then have "u2 = u1" "s2 = s1" using cgr_fv_eq rr by blast+
  then have "gfp_sub u2 u1 = gfp_zero" "gfp_sub s2 s1 = gfp_zero" using gf.sub_eq_zero rr by simp_all
  then show ?thesis using ni unfolding curve_add_def Let_def us by (simp only: if_False if_True simp_thms)
qed

section \<open>The curve equation is kept\<close>

lemma tangent_identity:
  fixes X Y Z :: int
  shows "eqn (9 * X ^ 4 - 8 * X * Y ^ 2) (3 * X ^ 2 * (4 * X * Y ^ 2 - (9 * X ^ 4 - 8 * X * Y ^ 2)) - 8 * Y ^ 4) (2 * Y * Z)
    = 64 * Y ^ 6 * eqn X Y Z"
  unfolding eqn_def by algebra

lemma chord_identity:
  fixes U1 U2 S1 S2 W :: int
  assumes "h = U2 - U1" "d = S2 - S1" "x = d ^ 2 - h ^ 3 - 2 * U1 * h ^ 2" "y = d * (U1 * h ^ 2 - x) - S1 * h ^ 3"
    "e1 = S1 ^ 2 - U1 ^ 3 - 3 * W ^ 6" "e2 = S2 ^ 2 - U2 ^ 3 - 3 * W ^ 6"
  shows "eqn (4 * x) (8 * y) (2 * W * h) = 64 * (h ^ 6 * e1 + h ^ 3 * (e2 - e1) * (x - U1 * h ^ 2))"
  using assms unfolding eqn_def by algebra


lemma curve_inv_I:
  "coords_ok c \<Longrightarrow> cgr (fv (cx c)) x \<Longrightarrow> cgr (fv (cy c)) y \<Longrightarrow> cgr (fv (cz c)) z \<Longrightarrow> cgr (eqn x y z) 0 \<Longrightarrow> curve_inv c"
  unfolding curve_inv_def by (blast intro: cgr_trans[OF eqn_cong])

lemma is_infinity_iff: "coords_ok c \<Longrightarrow> is_infinity c \<longleftrightarrow> cgr (fv (cz c)) 0"
  using gf.eq_zero_iff[of "cz c"] gf.val_mod[of "cz c"] by (simp add: is_infinity_def coords_ok_def cgr_def)

lemma small_consts [simp]:
  "reduced (gfp_new 1)" "reduced (gfp_new 2)" "reduced (gfp_new 3)" "fv (gfp_new 1) = 1" "fv (gfp_new 2) = 2" "fv (gfp_new 3) = 3"
  using gfp_new_fv[of 1] gfp_new_fv[of 2] gfp_new_fv[of 3] by (simp_all add: field_prime_def)

lemma fv_zero [simp]: "fv gfp_zero = 0"
  by (simp add: gf.zero_ok)

lemma one_ne_zero: "gfp_one \<noteq> gfp_zero"
proof
  assume "gfp_one = gfp_zero"
  then have "fv gfp_one = fv gfp_zero" by simp
  then show False by (simp add: gfp_one_def)
qed

lemma infinity_inv: "curve_inv infinity" "is_infinity infinity" "curve_inv (set_infinity c)" "is_infinity (set_infinity c)"
  by (simp_all add: curve_inv_def coords_ok_def infinity_def set_infinity_def gfp_one_def is_infinity_def)

lemma generator_inv: "curve_inv generator" "\<not> is_infinity generator"
  using one_ne_zero by (simp_all add: curve_inv_def coords_ok_def generator_def is_infinity_def eqn_def gfp_one_def)

lemma curve_double_inv:
  assumes "curve_inv a"
  shows "curve_inv (curve_double a)"
proof -
  have c: "coords_ok a" using assms by (simp add: curve_inv_def)
  note f = double_formulas[OF c]
  show ?thesis
  proof (cases "is_infinity a")
    case True
    then have "fv (cz a) = 0" by (simp add: is_infinity_def)
    then have "cgr (fv (cz (curve_double a))) 0" using f(4) by simp
    then show ?thesis using f(1) is_infinity_iff[OF f(1)] by (simp add: curve_inv_def)
  next
    case False
    then have "cgr (eqn (fv (cx a)) (fv (cy a)) (fv (cz a))) 0" using assms by (simp add: curve_inv_def)
    from cgr_mult[OF cgr_refl this] show ?thesis
      using curve_inv_I[OF f] unfolding tangent_identity by simp
  qed
qed

lemma double_infinity: "coords_ok a \<Longrightarrow> is_infinity a \<Longrightarrow> is_infinity (curve_double a)"
  using double_formulas(1,4)[of a] is_infinity_iff[of "curve_double a"] by (simp add: is_infinity_def)

lemma curve_add_inv:
  assumes "curve_inv a" "curve_inv b"
  shows "curve_inv (curve_add a b)"
proof (cases "is_infinity a \<or> is_infinity b")
  case True
  then show ?thesis using assms by (auto simp: curve_add_def)
next
  case ni: False
  define U1 U2 S1 S2 where d: "U1 = fv (cx a) * fv (cz b) ^ 2" "U2 = fv (cx b) * fv (cz a) ^ 2"
    "S1 = fv (cy a) * fv (cz b) ^ 3" "S2 = fv (cy b) * fv (cz a) ^ 3"
  define W where "W = fv (cz a) * fv (cz b)"
  have c: "coords_ok a" "coords_ok b" using assms by (simp_all add: curve_inv_def)
  have ea: "cgr (eqn (fv (cx a)) (fv (cy a)) (fv (cz a))) 0" and eb: "cgr (eqn (fv (cx b)) (fv (cy b)) (fv (cz b))) 0"
    using assms ni by (simp_all add: curve_inv_def)
  have e1: "S1 ^ 2 - U1 ^ 3 - 3 * W ^ 6 = fv (cz b) ^ 6 * eqn (fv (cx a)) (fv (cy a)) (fv (cz a))"
    and e2: "S2 ^ 2 - U2 ^ 3 - 3 * W ^ 6 = fv (cz a) ^ 6 * eqn (fv (cx b)) (fv (cy b)) (fv (cz b))"
    unfolding d W_def eqn_def by algebra+
  have z: "cgr (S1 ^ 2 - U1 ^ 3 - 3 * W ^ 6) 0" "cgr (S2 ^ 2 - U2 ^ 3 - 3 * W ^ 6) 0"
    unfolding e1 e2 using cgr_mult[OF cgr_refl ea] cgr_mult[OF cgr_refl eb] by simp_all
  show ?thesis
  proof (cases "cgr U1 U2 \<and> cgr S1 S2")
    case True
    then have "curve_add a b = curve_double a" using add_same[OF c _ _ d] ni by blast
    then show ?thesis using curve_double_inv[OF assms(1)] by simp
  next
    case False
    note f = add_formulas[OF c _ _ d False]
    have ni': "\<not> is_infinity a" "\<not> is_infinity b" using ni by auto
    have zz: "cgr (fv (cz (curve_add a b))) (2 * W * (U2 - U1))" using f(4)[OF ni'] by (simp add: W_def mult.assoc)
    have "cgr (64 * ((U2 - U1) ^ 6 * (S1 ^ 2 - U1 ^ 3 - 3 * W ^ 6)
      + (U2 - U1) ^ 3 * ((S2 ^ 2 - U2 ^ 3 - 3 * W ^ 6) - (S1 ^ 2 - U1 ^ 3 - 3 * W ^ 6))
        * (((S2 - S1) ^ 2 - (U2 - U1) ^ 3 - 2 * U1 * (U2 - U1) ^ 2) - U1 * (U2 - U1) ^ 2)))
      (64 * ((U2 - U1) ^ 6 * 0 + (U2 - U1) ^ 3 * (0 - 0) * (((S2 - S1) ^ 2 - (U2 - U1) ^ 3 - 2 * U1 * (U2 - U1) ^ 2) - U1 * (U2 - U1) ^ 2)))"
      by (intro cgr_intros z)
    then show ?thesis
      using curve_inv_I[OF f(1-3)[OF ni'] zz] unfolding chord_identity[OF refl refl refl refl refl refl] by simp
  qed
qed


lemma curve_neg_inv:
  assumes "curve_inv a"
  shows "curve_inv (curve_neg a)"
proof -
  have c: "coords_ok a" using assms by (simp add: curve_inv_def)
  then have "cgr (fv (gfp_neg (cy a))) (- fv (cy a))" by (intro cgr_ops) (simp_all add: coords_ok_def)
  then have "cgr (eqn (fv (cx a)) (fv (gfp_neg (cy a))) (fv (cz a))) (eqn (fv (cx a)) (- fv (cy a)) (fv (cz a)))"
    by (intro eqn_cong cgr_refl)
  moreover have "eqn (fv (cx a)) (- fv (cy a)) (fv (cz a)) = eqn (fv (cx a)) (fv (cy a)) (fv (cz a))" by (simp add: eqn_def)
  ultimately show ?thesis using assms
    by (auto simp: curve_inv_def curve_neg_def coords_ok_def is_infinity_def intro: cgr_trans)
qed

lemma mul_bit_inv: "curve_inv a \<Longrightarrow> curve_inv s \<Longrightarrow> curve_inv (mul_bit a v n s)"
  by (simp add: mul_bit_def Let_def curve_double_inv curve_add_inv)

lemma fold_inv: "(\<And>x s. P s \<Longrightarrow> P (f x s)) \<Longrightarrow> P s \<Longrightarrow> P (fold f xs s)"
  by (induction xs arbitrary: s) simp_all

lemma curve_mul_inv: "curve_inv a \<Longrightarrow> curve_inv (curve_mul a bs)"
  unfolding curve_mul_def by (rule fold_inv, rule fold_inv, rule mul_bit_inv) (simp_all add: infinity_inv)

section \<open>Chord and tangent\<close>

text \<open>A Jacobian triple represents the affine point (x, y); two triples that stand for one point.\<close>

definition represents :: "curve_point \<Rightarrow> int \<Rightarrow> int \<Rightarrow> bool" where
  "represents c x y \<longleftrightarrow> cgr (fv (cx c)) (x * fv (cz c) ^ 2) \<and> cgr (fv (cy c)) (y * fv (cz c) ^ 3)"

definition same_point :: "curve_point \<Rightarrow> curve_point \<Rightarrow> bool" where
  "same_point a b \<longleftrightarrow> cgr (fv (cx a) * fv (cz b) ^ 2) (fv (cx b) * fv (cz a) ^ 2)
    \<and> cgr (fv (cy a) * fv (cz b) ^ 3) (fv (cy b) * fv (cz a) ^ 3)"

lemma represents_I:
  assumes "cgr (fv (cz c)) z" "cgr (fv (cx c)) x'" "cgr (fv (cy c)) y'" "cgr x' (x * z ^ 2)" "cgr y' (y * z ^ 3)"
  shows "represents c x y"
proof -
  have "cgr (x * z ^ 2) (x * fv (cz c) ^ 2)" "cgr (y * z ^ 3) (y * fv (cz c) ^ 3)"
    by (intro cgr_intros cgr_sym[OF assms(1)])+
  then show ?thesis using assms unfolding represents_def by (blast intro: cgr_trans)
qed

lemma tangent_law:
  assumes c: "coords_ok a" and p: "represents a x y" and l: "cgr (2 * y * l) (3 * x ^ 2)"
  shows "represents (curve_double a) (l ^ 2 - 2 * x) (l * (x - (l ^ 2 - 2 * x)) - y)"
proof (rule represents_I[OF double_formulas(4,2,3)[OF c]])
  define X Y Z where d: "X = fv (cx a)" "Y = fv (cy a)" "Z = fv (cz a)"
  have X: "cgr X (x * Z ^ 2)" and Y: "cgr Y (y * Z ^ 3)" using p by (simp_all add: represents_def d)
  have m: "cgr (3 * X ^ 2) (2 * y * l * Z ^ 4)"
  proof -
    have "cgr (3 * X ^ 2) (3 * (x * Z ^ 2) ^ 2)" by (intro cgr_intros X)
    also have "3 * (x * Z ^ 2) ^ 2 = 3 * x ^ 2 * Z ^ 4" by algebra
    also have "cgr (3 * x ^ 2 * Z ^ 4) (2 * y * l * Z ^ 4)" by (intro cgr_intros cgr_sym[OF l])
    finally show ?thesis .
  qed
  have x3: "cgr (9 * X ^ 4 - 8 * X * Y ^ 2) ((l ^ 2 - 2 * x) * (2 * y * Z ^ 4) ^ 2)"
  proof -
    have "9 * X ^ 4 - 8 * X * Y ^ 2 = (3 * X ^ 2) ^ 2 - 8 * X * Y ^ 2" by algebra
    also have "cgr ((3 * X ^ 2) ^ 2 - 8 * X * Y ^ 2) ((2 * y * l * Z ^ 4) ^ 2 - 8 * (x * Z ^ 2) * (y * Z ^ 3) ^ 2)"
      by (intro cgr_intros X Y m)
    also have "(2 * y * l * Z ^ 4) ^ 2 - 8 * (x * Z ^ 2) * (y * Z ^ 3) ^ 2 = (l ^ 2 - 2 * x) * (2 * y * Z ^ 4) ^ 2" by algebra
    finally show ?thesis .
  qed
  have zc: "cgr (2 * y * Z ^ 4) (2 * Y * Z)"
  proof -
    have "2 * y * Z ^ 4 = 2 * (y * Z ^ 3) * Z" by algebra
    also have "cgr (2 * (y * Z ^ 3) * Z) (2 * Y * Z)" by (intro cgr_intros cgr_sym[OF Y])
    finally show ?thesis .
  qed
  have zp: "cgr (u * (2 * y * Z ^ 4) ^ n) (u * (2 * Y * Z) ^ n)" for u n by (intro cgr_intros zc)
  show "cgr (9 * fv (cx a) ^ 4 - 8 * fv (cx a) * fv (cy a) ^ 2) ((l ^ 2 - 2 * x) * (2 * fv (cy a) * fv (cz a)) ^ 2)"
    using cgr_trans[OF x3 zp] by (simp add: d)
  have "cgr (3 * X ^ 2 * (4 * X * Y ^ 2 - (9 * X ^ 4 - 8 * X * Y ^ 2)) - 8 * Y ^ 4)
    (2 * y * l * Z ^ 4 * (4 * (x * Z ^ 2) * (y * Z ^ 3) ^ 2 - (l ^ 2 - 2 * x) * (2 * y * Z ^ 4) ^ 2) - 8 * (y * Z ^ 3) ^ 4)"
    by (intro cgr_intros X Y m x3)
  also have "\<dots> = (l * (x - (l ^ 2 - 2 * x)) - y) * (2 * y * Z ^ 4) ^ 3" by algebra
  finally show "cgr (3 * fv (cx a) ^ 2 * (4 * fv (cx a) * fv (cy a) ^ 2 - (9 * fv (cx a) ^ 4 - 8 * fv (cx a) * fv (cy a) ^ 2)) - 8 * fv (cy a) ^ 4)
    ((l * (x - (l ^ 2 - 2 * x)) - y) * (2 * fv (cy a) * fv (cz a)) ^ 3)"
    using cgr_trans[OF _ zp] by (simp add: d)
qed

lemma chord_law:
  assumes c: "coords_ok a" "coords_ok b" and ni: "\<not> is_infinity a" "\<not> is_infinity b" and ns: "\<not> same_point a b"
    and p: "represents a x1 y1" "represents b x2 y2" and l: "cgr (l * (x2 - x1)) (y2 - y1)"
  shows "represents (curve_add a b) (l ^ 2 - x1 - x2) (l * (x1 - (l ^ 2 - x1 - x2)) - y1)"
proof -
  define U1 U2 S1 S2 where d: "U1 = fv (cx a) * fv (cz b) ^ 2" "U2 = fv (cx b) * fv (cz a) ^ 2"
    "S1 = fv (cy a) * fv (cz b) ^ 3" "S2 = fv (cy b) * fv (cz a) ^ 3"
  have ne: "\<not> (cgr U1 U2 \<and> cgr S1 S2)" using ns by (simp add: same_point_def d)
  define W D where W: "W = fv (cz a) * fv (cz b)" and D: "D = x2 - x1"
  have r: "cgr (fv (cx a)) (x1 * fv (cz a) ^ 2)" "cgr (fv (cy a)) (y1 * fv (cz a) ^ 3)"
    "cgr (fv (cx b)) (x2 * fv (cz b) ^ 2)" "cgr (fv (cy b)) (y2 * fv (cz b) ^ 3)" using p by (simp_all add: represents_def)
  have U: "cgr U1 (x1 * W ^ 2)" "cgr U2 (x2 * W ^ 2)" and S: "cgr S1 (y1 * W ^ 3)" "cgr S2 (y2 * W ^ 3)"
    unfolding d W by (rule cgr_eq_trans(1), rule cgr_mult[OF _ cgr_refl], rule r, algebra)+
  have h: "cgr (U2 - U1) (D * W ^ 2)"
    by (rule cgr_eq_trans(1)[OF cgr_diff[OF U(2,1)]]) (simp add: D algebra_simps)
  have e: "cgr (S2 - S1) (l * D * W ^ 3)"
  proof -
    have "cgr (S2 - S1) ((y2 - y1) * W ^ 3)" by (rule cgr_eq_trans(1)[OF cgr_diff[OF S(2,1)]]) (simp add: algebra_simps)
    also have "cgr ((y2 - y1) * W ^ 3) (l * D * W ^ 3)" unfolding D by (intro cgr_intros cgr_sym[OF l])
    finally show ?thesis .
  qed
  have z: "cgr (fv (cz (curve_add a b))) (2 * D * W ^ 3)"
  proof -
    have "cgr (2 * fv (cz a) * fv (cz b) * (U2 - U1)) (2 * fv (cz a) * fv (cz b) * (D * W ^ 2))" by (intro cgr_intros h)
    also have "\<dots> = 2 * D * W ^ 3" unfolding W by algebra
    finally show ?thesis using add_formulas(4)[OF c ni d ne] cgr_trans by blast
  qed
  define x where "x = (S2 - S1) ^ 2 - (U2 - U1) ^ 3 - 2 * U1 * (U2 - U1) ^ 2"
  have x: "cgr x ((l ^ 2 - x1 - x2) * D ^ 2 * W ^ 6)"
  proof -
    have "cgr x ((l * D * W ^ 3) ^ 2 - (D * W ^ 2) ^ 3 - 2 * (x1 * W ^ 2) * (D * W ^ 2) ^ 2)"
      unfolding x_def by (intro cgr_intros h e U)
    also have "\<dots> = (l ^ 2 - x1 - x2) * D ^ 2 * W ^ 6" unfolding D by algebra
    finally show ?thesis .
  qed
  show ?thesis
  proof (rule represents_I[OF z add_formulas(2,3)[OF c ni d ne, folded x_def]])
    have "cgr (4 * x) (4 * ((l ^ 2 - x1 - x2) * D ^ 2 * W ^ 6))" by (intro cgr_intros x)
    also have "\<dots> = (l ^ 2 - x1 - x2) * (2 * D * W ^ 3) ^ 2" by algebra
    finally show "cgr (4 * x) ((l ^ 2 - x1 - x2) * (2 * D * W ^ 3) ^ 2)" .
    have "cgr (8 * ((S2 - S1) * (U1 * (U2 - U1) ^ 2 - x) - S1 * (U2 - U1) ^ 3))
      (8 * (l * D * W ^ 3 * (x1 * W ^ 2 * (D * W ^ 2) ^ 2 - (l ^ 2 - x1 - x2) * D ^ 2 * W ^ 6) - y1 * W ^ 3 * (D * W ^ 2) ^ 3))"
      by (intro cgr_intros h e U S x)
    also have "\<dots> = (l * (x1 - (l ^ 2 - x1 - x2)) - y1) * (2 * D * W ^ 3) ^ 3" by algebra
    finally show "cgr (8 * ((S2 - S1) * (U1 * (U2 - U1) ^ 2 - x) - S1 * (U2 - U1) ^ 3)) ((l * (x1 - (l ^ 2 - x1 - x2)) - y1) * (2 * D * W ^ 3) ^ 3)" .
  qed
qed


lemma opposite_cancels:
  assumes "coords_ok a" "\<not> is_infinity a" "\<not> cgr (2 * fv (cy a) * fv (cz a) ^ 3) 0"
  shows "is_infinity (curve_add a (curve_neg a))"
proof -
  define b where "b = curve_neg a"
  have b: "coords_ok b" "\<not> is_infinity b" "cx b = cx a" "cz b = cz a" "cgr (fv (cy b)) (- fv (cy a))"
    using assms cgr_ops(4)[of "cy a", OF _ cgr_refl] by (simp_all add: b_def curve_neg_def coords_ok_def is_infinity_def)
  have "\<not> cgr (fv (cy a) * fv (cz b) ^ 3) (fv (cy b) * fv (cz a) ^ 3)"
  proof
    assume "cgr (fv (cy a) * fv (cz b) ^ 3) (fv (cy b) * fv (cz a) ^ 3)"
    also have "cgr (fv (cy b) * fv (cz a) ^ 3) (- fv (cy a) * fv (cz a) ^ 3)" by (intro cgr_mult b cgr_refl)
    finally have "cgr (fv (cy a) * fv (cz b) ^ 3 - - fv (cy a) * fv (cz a) ^ 3) 0" by (simp only: cgr_iff_diff[symmetric])
    moreover have "fv (cy a) * fv (cz b) ^ 3 - - fv (cy a) * fv (cz a) ^ 3 = 2 * fv (cy a) * fv (cz a) ^ 3" by (simp add: b(4))
    ultimately show False using assms(3) by (simp only:)
  qed
  then have "cgr (fv (cz (curve_add a b))) (2 * fv (cz a) * fv (cz b) * (fv (cx b) * fv (cz a) ^ 2 - fv (cx a) * fv (cz b) ^ 2))"
    by (intro add_formulas(4)[OF assms(1) b(1) assms(2) b(2) refl refl refl refl]) auto
  moreover have "coords_ok (curve_add a b)"
    using \<open>\<not> cgr (fv (cy a) * fv (cz b) ^ 3) _\<close> by (intro add_formulas(1)[OF assms(1) b(1) assms(2) b(2) refl refl refl refl]) auto
  ultimately show ?thesis using is_infinity_iff[of "curve_add a b"] by (simp add: b b_def[symmetric])
qed

section \<open>Scalar multiplication\<close>

text \<open>Double and add over the number that the scalar bytes write.\<close>

fun smul :: "curve_point \<Rightarrow> nat \<Rightarrow> curve_point" where
  "smul a n =
    (if n = 0 then infinity
     else let s = curve_double (smul a (n div 2)) in if odd n then curve_add s a else s)"

declare smul.simps [simp del]

definition alike :: "curve_point \<Rightarrow> curve_point \<Rightarrow> bool" where
  "alike s t \<longleftrightarrow> s = t \<or> coords_ok s \<and> coords_ok t \<and> is_infinity s \<and> is_infinity t"

lemma alike_double: "alike s t \<Longrightarrow> alike (curve_double s) (curve_double t)"
  by (auto simp: alike_def double_infinity double_formulas(1))

lemma alike_add: "alike s t \<Longrightarrow> alike (curve_add s a) (curve_add t a)"
  by (auto simp: alike_def curve_add_def)

lemma alike_trans: "alike s t \<Longrightarrow> alike t u \<Longrightarrow> alike s u"
  by (auto simp: alike_def)

lemma infinity_coords: "coords_ok infinity"
  using infinity_inv(1) by (simp add: curve_inv_def)

lemma smul_step: "alike (let s = curve_double (smul a n) in if b then curve_add s a else s) (smul a (2 * n + of_bool b))"
proof (cases "n = 0 \<and> \<not> b")
  case True
  then show ?thesis by (simp add: smul.simps[of a 0] alike_def infinity_coords infinity_inv double_infinity double_formulas(1))
next
  case False
  then show ?thesis by (cases b) (simp_all add: smul.simps[of a "2 * n"] smul.simps[of a "Suc (2 * n)"] alike_def)
qed

lemma mul_bit_step:
  assumes "alike s (smul a n)"
  shows "alike (mul_bit a v k s) (smul a (2 * n + unat v div 2 ^ k mod 2))"
proof -
  have b: "(drop_bit k v AND 1 = 1) = bit v k" by (simp add: bit_iff_odd_drop_bit and_one_eq odd_iff_mod_2_eq_one)
  have n: "unat v div 2 ^ k mod 2 = of_bool (bit v k)"
    by (simp add: mod_2_eq_odd bit_iff_odd[of "unat v", symmetric] bit_unsigned_iff del: of_bool_eq_iff)
  have "alike (mul_bit a v k s) (let s = curve_double (smul a n) in if bit v k then curve_add s a else s)"
    unfolding mul_bit_def b Let_def using alike_double[OF assms] by (simp add: alike_add)
  then show ?thesis unfolding n by (rule alike_trans[OF _ smul_step])
qed

lemma mul_byte_step:
  "alike s (smul a n) \<Longrightarrow> alike (fold (mul_bit a v) (rev [0..<k]) s) (smul a (n * 2 ^ k + unat v mod 2 ^ k))"
proof (induction k arbitrary: s n)
  case (Suc k)
  have e: "(2 * n + unat v div 2 ^ k mod 2) * 2 ^ k + unat v mod 2 ^ k = n * 2 ^ Suc k + unat v mod 2 ^ Suc k"
    using mod_mult2_eq[of "unat v" "2 ^ k" 2] by (simp add: algebra_simps)
  show ?case using Suc.IH[OF mul_bit_step[OF Suc.prems, of v k]] unfolding e by simp
qed simp

lemma curve_mul_alike: "alike (curve_mul a bs) (smul a (be_val bs))"
proof -
  have "alike (fold (\<lambda>v. fold (mul_bit a v) (rev [0..<8])) bs s) (smul a (n * 256 ^ length bs + be_val bs))"
    if "alike s (smul a n)" for s n using that
  proof (induction bs arbitrary: s n)
    case (Cons v bs)
    have "n * 2 ^ 8 + unat v mod 2 ^ 8 = n * 256 + unat v" by simp
    from mul_byte_step[OF Cons.prems, of v 8, unfolded this]
    have "alike (fold (mul_bit a v) (rev [0..<8]) s) (smul a (n * 256 + unat v))" .
    from Cons.IH[OF this] show ?case using be_val_append[of "[v]" bs] by (simp add: algebra_simps be_val_def)
  qed (simp add: be_val_def)
  from this[of infinity 0] show ?thesis by (simp add: curve_mul_def smul.simps[of a 0] alike_def)
qed


section \<open>Affine coordinates\<close>

text \<open>The inverse of \<open>z\<close> is right where Fermat's little theorem holds for \<open>z\<close>, which it does for every non-zero element of a prime field.\<close>

definition unit_like :: "gfp \<Rightarrow> bool" where
  "unit_like z \<longleftrightarrow> reduced z \<and> fv z ^ (field_prime - 1) mod int field_prime = 1"

lemma invert_unit:
  assumes "unit_like z"
  shows "reduced (invert z)" "cgr (fv z * fv (invert z)) 1"
proof -
  have z: "reduced z" using assms by (simp add: unit_like_def)
  have "Suc (field_prime - 2) = field_prime - 1" by (simp add: field_prime_def)
  then have "fv z * fv z ^ (field_prime - 2) = fv z ^ (field_prime - 1)" by (simp only: power_Suc[symmetric])
  moreover have "cgr (fv z * fv (invert z)) (fv z * fv z ^ (field_prime - 2))"
    using invert_fv[OF z] by (intro cgr_intros) simp
  moreover have "cgr (fv z ^ (field_prime - 1)) 1" using assms by (simp add: unit_like_def cgr_def field_prime_def del: power_mod)
  ultimately show "cgr (fv z * fv (invert z)) 1" by (metis cgr_trans)
  show "reduced (invert z)" using invert_fv[OF z] by simp
qed

lemma gfp_one_facts [simp]: "reduced gfp_one" "fv gfp_one = 1"
  by (simp_all add: gfp_one_def)

lemma make_affine_spec:
  assumes c: "coords_ok c" and z: "cz c = gfp_zero \<or> unit_like (cz c)"
  defines "d \<equiv> make_affine c"
  shows "coords_ok d" "is_infinity d = is_infinity c" "cz d = (if is_infinity c then gfp_zero else gfp_one)"
    "\<not> is_infinity c \<Longrightarrow> cgr (fv (cx d) * fv (cz c) ^ 2) (fv (cx c)) \<and> cgr (fv (cy d) * fv (cz c) ^ 3) (fv (cy c))"
proof -
  have r: "reduced (cx c)" "reduced (cy c)" "reduced (cz c)" using c by (simp_all add: coords_ok_def)
  consider "cz c = gfp_one" | "cz c = gfp_zero" "cz c \<noteq> gfp_one" | "cz c \<noteq> gfp_one" "cz c \<noteq> gfp_zero" "unit_like (cz c)" using z by blast
  then have "coords_ok d \<and> is_infinity d = is_infinity c \<and> cz d = (if is_infinity c then gfp_zero else gfp_one)
    \<and> (\<not> is_infinity c \<longrightarrow> cgr (fv (cx d) * fv (cz c) ^ 2) (fv (cx c)) \<and> cgr (fv (cy d) * fv (cz c) ^ 3) (fv (cy c)))"
  proof cases
    case 1
    then show ?thesis using c one_ne_zero by (simp add: d_def make_affine_def is_infinity_def)
  next
    case 2
    then show ?thesis using r by (simp add: d_def make_affine_def is_infinity_def coords_ok_def)
  next
    case 3
    note i = invert_unit[OF 3(3)]
    define w where "w = invert (cz c)"
    have rw: "reduced w" and iw: "cgr (fv (cz c) * fv w) 1" using i by (simp_all add: w_def)
    have d: "cx d = gfp_mul (cx c) (gfp_mul w w)" "cy d = gfp_mul (gfp_mul (cy c) w) (gfp_mul w w)" "cz d = gfp_one"
      using 3 by (simp_all add: d_def make_affine_def Let_def w_def)
    have x: "cgr (fv (cx d)) (fv (cx c) * (fv w * fv w))" and y: "cgr (fv (cy d)) (fv (cy c) * fv w * (fv w * fv w))"
      unfolding d by (rule cgr_ops reduced_ops r rw cgr_refl)+
    have "cgr (fv (cx d) * fv (cz c) ^ 2) (fv (cx c) * (fv w * fv w) * fv (cz c) ^ 2)" by (intro cgr_mult x cgr_refl)
    also have "\<dots> = fv (cx c) * (fv (cz c) * fv w) ^ 2" by algebra
    also have "cgr (fv (cx c) * (fv (cz c) * fv w) ^ 2) (fv (cx c) * 1 ^ 2)" by (intro cgr_intros iw)
    finally have X: "cgr (fv (cx d) * fv (cz c) ^ 2) (fv (cx c))" by simp
    have "cgr (fv (cy d) * fv (cz c) ^ 3) (fv (cy c) * fv w * (fv w * fv w) * fv (cz c) ^ 3)" by (intro cgr_mult y cgr_refl)
    also have "\<dots> = fv (cy c) * (fv (cz c) * fv w) ^ 3" by algebra
    also have "cgr (fv (cy c) * (fv (cz c) * fv w) ^ 3) (fv (cy c) * 1 ^ 3)" by (intro cgr_intros iw)
    finally have Y: "cgr (fv (cy d) * fv (cz c) ^ 3) (fv (cy c))" by simp
    show ?thesis using X Y r rw 3 one_ne_zero by (simp add: coords_ok_def is_infinity_def d)
  qed
  then show "coords_ok d" "is_infinity d = is_infinity c" "cz d = (if is_infinity c then gfp_zero else gfp_one)"
    "\<not> is_infinity c \<Longrightarrow> cgr (fv (cx d) * fv (cz c) ^ 2) (fv (cx c)) \<and> cgr (fv (cy d) * fv (cz c) ^ 3) (fv (cy c))"
    by blast+
qed

text \<open>The test of a point with Z = 1, as the decoders make it, decides the curve equation.\<close>

lemma is_on_curve_affine:
  assumes "coords_ok c" "cz c = gfp_one"
  shows "is_on_curve c \<longleftrightarrow> cgr (fv (cy c) ^ 2) (fv (cx c) ^ 3 + 3)"
proof -
  have r: "reduced (cx c)" "reduced (cy c)" using assms by (simp_all add: coords_ok_def)
  have m: "make_affine c = c" "\<not> is_infinity c" using assms one_ne_zero by (simp_all add: make_affine_def is_infinity_def)
  define l q where d: "l = gfp_mul (cy c) (cy c)" "q = gfp_add (gfp_mul (gfp_mul (cx c) (cx c)) (cx c)) curve_b"
  have rb: "reduced curve_b" "cgr (fv curve_b) 3" by (simp_all add: curve_b_def)
  have rl: "reduced l" "reduced q" using r rb by (simp_all add: d)
  have l: "cgr (fv l) (fv (cy c) ^ 2)" unfolding d power2_eq_square by (rule cgr_ops r cgr_refl)+
  have q: "cgr (fv q) (fv (cx c) ^ 3 + 3)" unfolding d power3_eq_cube by (rule cgr_ops reduced_ops r rb cgr_refl)+
  have "is_on_curve c \<longleftrightarrow> l = q" using m by (simp add: is_on_curve_def Let_def d)
  also have "\<dots> \<longleftrightarrow> cgr (fv l) (fv q)" using cgr_fv_eq[OF rl] by auto
  also have "\<dots> \<longleftrightarrow> cgr (fv (cy c) ^ 2) (fv (cx c) ^ 3 + 3)" using l q by (blast intro: cgr_trans cgr_sym)
  finally show ?thesis .
qed

lemma affine_inv: "coords_ok c \<Longrightarrow> cz c = gfp_one \<Longrightarrow> curve_inv c \<longleftrightarrow> is_on_curve c"
proof -
  assume c: "coords_ok c" "cz c = gfp_one"
  have "eqn (fv (cx c)) (fv (cy c)) (fv (cz c)) = fv (cy c) ^ 2 - (fv (cx c) ^ 3 + 3)" using c by (simp add: eqn_def)
  then show ?thesis using c one_ne_zero
    by (simp add: curve_inv_def is_on_curve_affine is_infinity_def cgr_iff_diff[of "fv (cy c) ^ 2"])
qed


section \<open>The group operations\<close>

lemma mod_eq_by_quotient: "a = q * m + b \<Longrightarrow> a mod m = b mod (m :: int)"
  by simp

text \<open>C19: Every group operation keeps the coordinates reduced below the prime and the result on the curve; scalar multiplication depends
  only on the number the scalar bytes write, leading zeros included, and is the double-and-add recursion over that number (up to the choice
  of coordinates of the point at infinity).\<close>

theorem curve_ops_invariant:
  assumes "curve_inv a" "curve_inv b"
  shows "curve_inv (curve_add a b) \<and> curve_inv (curve_double a) \<and> curve_inv (curve_neg a) \<and> curve_inv (curve_mul a k)
    \<and> curve_inv infinity \<and> curve_inv generator
    \<and> (curve_mul a k = smul a (be_val k) \<or> is_infinity (curve_mul a k) \<and> is_infinity (smul a (be_val k)))"
  using assms curve_mul_alike[of a k]
  by (auto simp: curve_add_inv curve_double_inv curve_neg_inv curve_mul_inv infinity_inv generator_inv alike_def)

theorem curve_ops_invariant_witness:
  "curve_inv (curve_add generator (curve_neg generator)) \<and> curve_inv (curve_mul generator [1, 2])"
  using curve_ops_invariant[OF generator_inv(1) curve_neg_inv[OF generator_inv(1)]]
    curve_ops_invariant[OF generator_inv(1) generator_inv(1), of "[1, 2]"] by blast

text \<open>C20: Addition is the chord construction and doubling the tangent construction of the curve: where the operands represent (x1, y1) and
  (x2, y2) and \<open>l\<close> is the slope, the result represents (l^2 - x1 - x2, l (x1 - x3) - y1). Equal operands are doubled, the point at infinity
  is neutral, and a point and its negation add to infinity.\<close>

theorem curve_chord_tangent:
  assumes "coords_ok a" "coords_ok b" "\<not> is_infinity a" "\<not> is_infinity b" "represents a x1 y1" "represents b x2 y2"
  shows "(\<not> same_point a b \<longrightarrow> cgr (l * (x2 - x1)) (y2 - y1)
      \<longrightarrow> represents (curve_add a b) (l ^ 2 - x1 - x2) (l * (x1 - (l ^ 2 - x1 - x2)) - y1))
    \<and> (cgr (2 * y1 * m) (3 * x1 ^ 2) \<longrightarrow> represents (curve_double a) (m ^ 2 - 2 * x1) (m * (x1 - (m ^ 2 - 2 * x1)) - y1))
    \<and> (same_point a b \<longrightarrow> curve_add a b = curve_double a)
    \<and> curve_add infinity b = b \<and> curve_add a infinity = a
    \<and> (\<not> cgr (2 * fv (cy a) * fv (cz a) ^ 3) 0 \<longrightarrow> is_infinity (curve_add a (curve_neg a)))"
proof (intro conjI impI)
  show "represents (curve_add a b) (l ^ 2 - x1 - x2) (l * (x1 - (l ^ 2 - x1 - x2)) - y1)"
    if "\<not> same_point a b" "cgr (l * (x2 - x1)) (y2 - y1)" using chord_law[OF assms(1-4) that(1) assms(5,6) that(2)] .
  show "represents (curve_double a) (m ^ 2 - 2 * x1) (m * (x1 - (m ^ 2 - 2 * x1)) - y1)" if "cgr (2 * y1 * m) (3 * x1 ^ 2)"
    using tangent_law[OF assms(1,5) that] .
  show "curve_add a b = curve_double a" if "same_point a b" using add_same[OF assms(1-4) refl refl refl refl] that by (simp add: same_point_def)
  show "curve_add infinity b = b" "curve_add a infinity = a" using infinity_inv(2) assms(3) by (simp_all add: curve_add_def)
  show "is_infinity (curve_add a (curve_neg a))" if "\<not> cgr (2 * fv (cy a) * fv (cz a) ^ 3) 0" using opposite_cancels[OF assms(1,3) that] .
qed

text \<open>The doubled generator, from its coordinates (-23, -11, 4).\<close>

lemma two_generator:
  defines "b \<equiv> curve_double generator"
  shows "coords_ok b" "cgr (fv (cx b)) (- 23)" "cgr (fv (cy b)) (- 11)" "cgr (fv (cz b)) 4" "coords_ok generator" "\<not> is_infinity b"
proof -
  show g: "coords_ok generator" using generator_inv by (simp add: curve_inv_def)
  note f = double_formulas[OF g]
  show b: "coords_ok b" "cgr (fv (cx b)) (- 23)" "cgr (fv (cy b)) (- 11)" and z: "cgr (fv (cz b)) 4"
    using f by (simp_all add: generator_def b_def)
  have "\<not> cgr 4 0" by (simp add: cgr_def field_prime_def)
  then show "\<not> is_infinity b" using is_infinity_iff[OF b(1)] z by (metis cgr_sym cgr_trans)
qed

theorem curve_chord_tangent_witness:
  "represents (curve_add generator (curve_double generator))
     (13329378671953404782778259908970776496321471538098033640740119230713439037279 ^ 2 - 1 - 1368015179489954701390400359078579693043519447331113978918064868415326638035)
     (13329378671953404782778259908970776496321471538098033640740119230713439037279 * (1 - (13329378671953404782778259908970776496321471538098033640740119230713439037279 ^ 2 - 1 - 1368015179489954701390400359078579693043519447331113978918064868415326638035)) - 2)"
proof (rule curve_chord_tangent[OF two_generator(5,1) generator_inv(2) two_generator(6), THEN conjunct1, rule_format, where ?y2.0 = 9918110051302171585080402603319702774565515993150576347155970296011118125764])
  note g = two_generator
  have n: "cgr (- 23) (1368015179489954701390400359078579693043519447331113978918064868415326638035 * 4 ^ 2)" "cgr (- 11) (9918110051302171585080402603319702774565515993150576347155970296011118125764 * 4 ^ 3)" by (simp_all add: cgr_def field_prime_def)
  have z: "cgr (u * 4 ^ k) (u * fv (cz (curve_double generator)) ^ k)" for u k by (intro cgr_intros cgr_sym[OF g(4)])
  show "represents generator 1 2" by (simp add: represents_def generator_def)
  show "represents (curve_double generator) 1368015179489954701390400359078579693043519447331113978918064868415326638035 9918110051302171585080402603319702774565515993150576347155970296011118125764"
    unfolding represents_def by (blast intro: cgr_trans g n z)
  show "\<not> same_point generator (curve_double generator)"
  proof
    assume "same_point generator (curve_double generator)"
    then have "cgr (1 * fv (cz (curve_double generator)) ^ 2) (fv (cx (curve_double generator)) * 1 ^ 2)"
      by (simp add: same_point_def generator_def)
    then have "cgr (1 * 4 ^ 2) (- 23 * 1 ^ 2)" using cgr_mult[OF g(2) cgr_refl[of "1 ^ 2"]] z[of 1 2] by (blast intro: cgr_trans)
    then show False by (simp add: cgr_def field_prime_def)
  qed
  show "cgr (13329378671953404782778259908970776496321471538098033640740119230713439037279 * (1368015179489954701390400359078579693043519447331113978918064868415326638035 - 1)) (9918110051302171585080402603319702774565515993150576347155970296011118125764 - 2)"
    unfolding cgr_def by (rule mod_eq_by_quotient[where q = 833086166997087798923641244310673531020091971131127102546257451919589939828]) (simp_all add: field_prime_def)
qed

end
