(* ===== verification/G1.thy ===== *)
theory G1
  imports Curve
begin

text \<open>
  The group element (\<open>cryptography/bn256/src/g1.rs\<close>): the 64-byte and the compressed 33-byte codec of curve points. Big integers
  (\<open>BigUint\<close>) are natural numbers. The lemmas show that the decoders return only reduced points on the curve, and that decoding
  inverts encoding.
\<close>

section \<open>Model\<close>

type_synonym g1 = curve_point

definition NUM_BYTES :: nat where "NUM_BYTES = 32"

datatype g1_error = Field gfp_error | NotEnoughPointData | MalformedPoint | CompressedLength | CannotDecompress | YTooLarge

definition g1_infinity :: g1 where "g1_infinity = infinity"

definition scalar_base_mult :: "byte list \<Rightarrow> g1" where "scalar_base_mult k = curve_mul generator k"

definition scalar_mult :: "g1 \<Rightarrow> byte list \<Rightarrow> g1" where "scalar_mult p k = curve_mul p k"

definition g1_add :: "g1 \<Rightarrow> g1 \<Rightarrow> g1" where "g1_add a b = curve_add a b"

definition g1_neg :: "g1 \<Rightarrow> g1" where "g1_neg a = curve_neg a"

definition g1_is_infinity :: "g1 \<Rightarrow> bool" where "g1_is_infinity p = is_infinity (make_affine p)"

definition g1_marshal :: "g1 \<Rightarrow> byte list" where
  "g1_marshal p0 =
    (let p = make_affine p0
     in if is_infinity p then replicate (2 * NUM_BYTES) 0
        else marshal (mont_decode (cx p)) @ marshal (mont_decode (cy p)))"

definition g1_unmarshal :: "byte list \<Rightarrow> (g1, g1_error) result" where
  "g1_unmarshal m =
    (if length m < 2 * NUM_BYTES then Inl NotEnoughPointData
     else rbind (map_err Field (unmarshal (take NUM_BYTES m))) (\<lambda>x.
       rbind (map_err Field (unmarshal (slice NUM_BYTES (2 * NUM_BYTES) m))) (\<lambda>y.
       let x = mont_encode x; y = mont_encode y; p = \<lparr>cx = x, cy = y, cz = gfp_zero, ct = gfp_zero\<rparr>
       in if x = gfp_zero \<and> y = gfp_zero then Inr (p\<lparr>cy := gfp_new 1, cz := gfp_zero, ct := gfp_zero\<rparr>)
          else let p = p\<lparr>cz := gfp_new 1, ct := gfp_new 1\<rparr>
            in if \<not> is_on_curve p then Inl MalformedPoint else Inr p)))"

definition compress :: "g1 \<Rightarrow> byte list" where
  "compress g =
    (let eb = g1_marshal g; p = field_prime; y = be_val (slice 32 64 eb); y2 = p - y
     in take 32 eb @ [if y < y2 then 0 else 1])"

text \<open>Modular exponentiation of big integers, with its evaluation by squaring.\<close>

definition modpow :: "nat \<Rightarrow> nat \<Rightarrow> nat \<Rightarrow> nat" where
  "modpow b e m = b ^ e mod m"

lemma modpow_code [code]:
  "modpow b e m = (if e = 0 then 1 mod m else let h = modpow (b * b mod m) (e div 2) m in if odd e then b * h mod m else h)"
proof (cases "e = 0")
  case False
  have h: "modpow (b * b mod m) (e div 2) m = (b ^ (2 * (e div 2))) mod m"
    by (simp add: modpow_def power_mod power_mult power2_eq_square)
  show ?thesis
  proof (cases "odd e")
    case True
    then have "e = Suc (2 * (e div 2))" by simp
    then have "b ^ e = b * b ^ (2 * (e div 2))" using power_Suc by metis
    then show ?thesis using False True unfolding h by (simp add: modpow_def Let_def mod_mult_right_eq)
  next
    case ev: False
    then have "2 * (e div 2) = e" by simp
    then show ?thesis using False ev unfolding h by (simp add: modpow_def Let_def)
  qed
qed (simp add: modpow_def)

definition x_to_y :: "byte list \<Rightarrow> (nat \<times> nat) option" where
  "x_to_y xb =
    (let p = field_prime; xi = be_val (take 32 xb); x3 = (xi * xi * xi) mod p; beta = (x3 + 3) mod p;
       e = (p + 1) div 4; y1 = modpow beta e p; check = (y1 * y1) mod p
     in if check \<noteq> beta then None
        else let y2 = (if y1 = 0 then 0 else p - y1) in Some (y1, y2))"

text \<open>Big-endian bytes without leading zeros; zero is one zero byte.\<close>

fun to_bytes_be :: "nat \<Rightarrow> byte list" where
  "to_bytes_be n = (if n < 256 then [of_nat n] else to_bytes_be (n div 256) @ [of_nat (n mod 256)])"

declare to_bytes_be.simps [simp del]

definition marshal_xy :: "byte list \<Rightarrow> nat \<Rightarrow> (g1, g1_error) result" where
  "marshal_xy xb y =
    (let g = take 32 xb @ replicate 32 0; yb = to_bytes_be y
     in if length yb > 32 then Inl YTooLarge
        else g1_unmarshal (take (64 - length yb) g @ yb))"

definition decompress :: "byte list \<Rightarrow> (g1, g1_error) result" where
  "decompress encoding =
    (if length encoding \<noteq> 33 then Inl CompressedLength
     else case x_to_y (take 32 encoding) of
       None \<Rightarrow> Inl CannotDecompress
     | Some (y1, y2) \<Rightarrow>
       let smaller = y1 < y2; flag = encoding ! 32;
         chosen = (if flag = 0 \<and> smaller then y1 else if flag = 1 \<and> smaller then y2 else if flag = 0 then y2 else y1)
       in marshal_xy (take 32 encoding) chosen)"

section \<open>Decoding\<close>

text \<open>What the decoders return: the point at infinity, or an affine point on the curve.\<close>

definition decoded :: "g1 \<Rightarrow> bool" where
  "decoded g \<longleftrightarrow> g = infinity \<or> coords_ok g \<and> cz g = gfp_one \<and> ct g = gfp_one \<and> is_on_curve g"

lemma decoded_inv: "decoded g \<Longrightarrow> curve_inv g"
  by (auto simp: decoded_def infinity_inv affine_inv)

lemma mont_encode_reduced: "reduced a \<Longrightarrow> reduced (mont_encode a)"
  using mont_encode_fv[of a] by (simp add: reduced_def)

lemma g1_unmarshal_safe:
  assumes "g1_unmarshal m = Inr g"
  shows "decoded g \<and> 64 \<le> length m"
proof -
  obtain x y where u: "unmarshal (take 32 m) = Inr x" "unmarshal (slice 32 64 m) = Inr y" "64 \<le> length m"
    and g: "(if mont_encode x = gfp_zero \<and> mont_encode y = gfp_zero then g = infinity
      else g = \<lparr>cx = mont_encode x, cy = mont_encode y, cz = gfp_one, ct = gfp_one\<rparr> \<and> is_on_curve g)"
    using assms by (auto simp: g1_unmarshal_def NUM_BYTES_def Let_def infinity_def gfp_one_def split: if_splits)
  have "reduced (mont_encode x)" "reduced (mont_encode y)" using u unmarshal_Inr mont_encode_reduced by blast+
  then show ?thesis using g u(3) by (auto simp: decoded_def coords_ok_def split: if_splits)
qed

lemma decompress_safe: "decompress m = Inr g \<Longrightarrow> decoded g \<and> length m = 33"
  using g1_unmarshal_safe by (auto simp: decompress_def marshal_xy_def Let_def split: if_splits option.splits)

section \<open>Round trips\<close>

lemma zero_not_on_curve: "decoded g \<Longrightarrow> g \<noteq> infinity \<Longrightarrow> \<not> (cx g = gfp_zero \<and> cy g = gfp_zero)"
proof
  assume g: "decoded g" "g \<noteq> infinity" "cx g = gfp_zero \<and> cy g = gfp_zero"
  then have "cgr (0 ^ 2) (0 ^ 3 + 3)" using is_on_curve_affine[of g] by (simp add: decoded_def)
  then show False by (simp add: cgr_def field_prime_def)
qed

lemma affine_marshal:
  assumes "decoded g" "g \<noteq> infinity"
  shows "g1_marshal g = marshal (mont_decode (cx g)) @ marshal (mont_decode (cy g))"
    and "be_val (marshal (mont_decode (cx g))) = nat (fv (cx g))" "be_val (marshal (mont_decode (cy g))) = nat (fv (cy g))"
    and "length (marshal (mont_decode (cx g))) = 32" "length (marshal (mont_decode (cy g))) = 32"
proof -
  have g: "reduced (cx g)" "reduced (cy g)" "cz g = gfp_one" using assms by (simp_all add: decoded_def coords_ok_def)
  show "g1_marshal g = marshal (mont_decode (cx g)) @ marshal (mont_decode (cy g))"
    using g one_ne_zero by (simp add: g1_marshal_def make_affine_def is_infinity_def)
  show "be_val (marshal (mont_decode (cx g))) = nat (fv (cx g))" "length (marshal (mont_decode (cx g))) = 32"
    using mont_decode_val[OF g(1)] marshal_val[of "mont_decode (cx g)"] by (auto simp: reduced_def)
  show "be_val (marshal (mont_decode (cy g))) = nat (fv (cy g))" "length (marshal (mont_decode (cy g))) = 32"
    using mont_decode_val[OF g(2)] marshal_val[of "mont_decode (cy g)"] by (auto simp: reduced_def)
qed

lemma slice_append_right: "length xs = n \<Longrightarrow> length ys = k - n \<Longrightarrow> n \<le> k \<Longrightarrow> slice n k (xs @ ys @ zs) = ys"
  by (simp add: slice_def)

lemma unmarshal_affine:
  assumes "decoded g" "g \<noteq> infinity"
  shows "g1_unmarshal (g1_marshal g @ rest) = Inr g"
proof -
  have g: "reduced (cx g)" "reduced (cy g)" "cz g = gfp_one" "ct g = gfp_one" "is_on_curve g" using assms by (simp_all add: decoded_def coords_ok_def)
  note a = affine_marshal[OF assms]
  have m: "unmarshal (take 32 (g1_marshal g @ rest)) = Inr (mont_decode (cx g))" "unmarshal (slice 32 64 (g1_marshal g @ rest)) = Inr (mont_decode (cy g))"
    using unmarshal_marshal[of "mont_decode (cx g)" "[]"] unmarshal_marshal[of "mont_decode (cy g)" "[]"] mont_decode_val g a(4,5)
    by (simp_all add: a(1) slice_append_right)
  have r: "\<lparr>cx = cx g, cy = cy g, cz = gfp_one, ct = gfp_one\<rparr> = g" using g by simp
  show ?thesis using m zero_not_on_curve[OF assms] g(5) a(4,5)
    by (auto simp: g1_unmarshal_def NUM_BYTES_def Let_def mont_decode_encode g(1,2) r gfp_one_def[symmetric] a(1))
qed


lemma marshal_zero: "marshal gfp_zero = replicate 32 0"
  by code_simp

lemma mont_encode_zero: "mont_encode gfp_zero = gfp_zero"
proof -
  have "length gfp_zero = 4" "wval 64 gfp_zero = 0" by (simp_all add: gfp_zero_def)
  then show ?thesis using mont_encode_fv[of gfp_zero] by (intro fv_inj) simp_all
qed

lemma unmarshal_infinity: "g1_unmarshal (replicate 64 0 @ rest) = Inr infinity"
proof -
  have s: "replicate 64 0 = marshal gfp_zero @ marshal gfp_zero" by (simp add: marshal_zero replicate_add[symmetric])
  have m: "unmarshal (marshal gfp_zero) = Inr gfp_zero" using unmarshal_marshal[of gfp_zero "[]"] by simp
  have l: "length (marshal gfp_zero) = 32" by (simp add: marshal_zero)
  have "unmarshal (take 32 (replicate 64 0 @ rest)) = Inr gfp_zero" "unmarshal (slice 32 64 (replicate 64 0 @ rest)) = Inr gfp_zero"
    unfolding s using m l by (simp_all add: slice_append_right)
  then show ?thesis by (simp add: g1_unmarshal_def NUM_BYTES_def Let_def mont_encode_zero infinity_def gfp_one_def)
qed

lemma marshal_infinity: "is_infinity g \<Longrightarrow> g1_marshal g = replicate 64 0"
  using one_ne_zero by (auto simp: g1_marshal_def make_affine_def is_infinity_def NUM_BYTES_def)

text \<open>The affine point that a Jacobian triple stands for, as the decoder returns it.\<close>

definition normal :: "g1 \<Rightarrow> g1" where
  "normal g = (if is_infinity g then infinity else (make_affine g)\<lparr>ct := gfp_one\<rparr>)"

lemma normal_decoded:
  assumes g: "curve_inv g" and z: "cz g = gfp_zero \<or> unit_like (cz g)"
  shows "decoded (normal g)"
proof (cases "is_infinity g")
  case False
  have c: "coords_ok g" using g by (simp add: curve_inv_def)
  define d where "d = normal g"
  note m = make_affine_spec[OF c z]
  have d: "coords_ok d" "cz d = gfp_one" "ct d = gfp_one" "cx d = cx (make_affine g)" "cy d = cy (make_affine g)"
    using m(1,3) False by (simp_all add: d_def normal_def coords_ok_def)
  obtain w where w: "cgr (fv (cz g) * w) 1" using z False invert_unit[of "cz g"] by (auto simp: is_infinity_def)
  have X: "cgr (fv (cx d) * fv (cz g) ^ 2) (fv (cx g))" and Y: "cgr (fv (cy d) * fv (cz g) ^ 3) (fv (cy g))"
    using m(4)[OF False] by (simp_all add: d)
  have "cgr (fv (cy d) ^ 2 - (fv (cx d) ^ 3 + 3)) 0"
  proof -
    have "cgr (fv (cy d) ^ 2 - (fv (cx d) ^ 3 + 3)) ((fv (cz g) * w) ^ 6 * (fv (cy d) ^ 2 - (fv (cx d) ^ 3 + 3)))"
      using cgr_mult[OF cgr_power[OF w, of 6] cgr_refl, of "fv (cy d) ^ 2 - (fv (cx d) ^ 3 + 3)"] by (simp add: cgr_sym)
    also have "\<dots> = w ^ 6 * eqn (fv (cx d) * fv (cz g) ^ 2) (fv (cy d) * fv (cz g) ^ 3) (fv (cz g))" unfolding eqn_def by algebra
    also have "cgr (w ^ 6 * eqn (fv (cx d) * fv (cz g) ^ 2) (fv (cy d) * fv (cz g) ^ 3) (fv (cz g))) (w ^ 6 * eqn (fv (cx g)) (fv (cy g)) (fv (cz g)))"
      by (intro cgr_mult cgr_refl eqn_cong X Y)
    also have "cgr (w ^ 6 * eqn (fv (cx g)) (fv (cy g)) (fv (cz g))) (w ^ 6 * 0)"
      using g False by (intro cgr_mult cgr_refl) (simp add: curve_inv_def)
    finally show ?thesis by simp
  qed
  then have "is_on_curve d" unfolding is_on_curve_affine[OF d(1,2)] cgr_iff_diff[of "fv (cy d) ^ 2"] .
  then show ?thesis using d unfolding d_def decoded_def by simp
qed (simp add: normal_def decoded_def)

lemma marshal_normal: "g1_marshal (normal g) = g1_marshal g" if "coords_ok g" "cz g = gfp_zero \<or> unit_like (cz g)"
proof (cases "is_infinity g")
  case True
  then show ?thesis by (simp add: normal_def marshal_infinity infinity_inv)
next
  case False
  then have "cz (make_affine g) = gfp_one" "\<not> is_infinity (make_affine g)" using make_affine_spec(2,3)[OF that] by simp_all
  then show ?thesis using False one_ne_zero
    by (simp add: normal_def g1_marshal_def Let_def make_affine_def[of "make_affine g\<lparr>ct := gfp_one\<rparr>"] is_infinity_def)
qed

lemma unmarshal_marshal_point:
  assumes "curve_inv g" "cz g = gfp_zero \<or> unit_like (cz g)"
  shows "g1_unmarshal (g1_marshal g @ rest) = Inr (normal g)"
proof (cases "is_infinity g")
  case True
  then show ?thesis using unmarshal_infinity by (simp add: normal_def marshal_infinity)
next
  case False
  then have "\<not> is_infinity (normal g)" using make_affine_spec(3)[OF _ assms(2)] assms(1) one_ne_zero by (simp add: normal_def is_infinity_def curve_inv_def)
  then have "normal g \<noteq> infinity" using infinity_inv(2) by auto
  then show ?thesis using unmarshal_affine[OF normal_decoded[OF assms]] marshal_normal[of g] assms by (simp add: curve_inv_def)
qed


section \<open>Compression\<close>

text \<open>Euler's criterion for one element; it holds for every element of a prime field.\<close>

definition euler_ok :: "nat \<Rightarrow> bool" where
  "euler_ok y \<longleftrightarrow> y = 0 \<or> y ^ ((field_prime - 1) div 2) mod field_prime \<in> {1, field_prime - 1}"

lemma half_exponent: "2 * ((field_prime + 1) div 4) = Suc ((field_prime - 1) div 2)"
  by (simp add: field_prime_def)

lemma mult_pred_mod: "0 < y \<Longrightarrow> y < p \<Longrightarrow> y * (p - 1) mod p = p - (y :: nat)"
proof (rule mod_by_quotient[of _ "y - 1"])
  assume y: "0 < y" "y < p"
  obtain k where k: "y = Suc k" using y by (cases y) auto
  obtain q where q: "p = Suc k + q" using y k less_imp_Suc_add[of y p] by auto
  show "y * (p - 1) = (y - 1) * p + (p - y)" by (simp add: k q algebra_simps)
qed simp

lemma mod_square_diff: "y \<le> p \<Longrightarrow> (p - y) * (p - y) mod p = y * y mod (p :: nat)"
proof -
  assume "y \<le> p"
  then have "int ((p - y) * (p - y) mod p) = (int p - int y) * (int p - int y) mod int p" by (simp add: zmod_int of_nat_diff)
  also have "(int p - int y) * (int p - int y) = int y * int y + (int p - 2 * int y) * int p" by algebra
  also have "\<dots> mod int p = int (y * y mod p)" by (simp add: zmod_int)
  finally show ?thesis by simp
qed

lemma square_root:
  assumes "y < field_prime" "euler_ok y"
  shows "modpow (y * y mod field_prime) ((field_prime + 1) div 4) field_prime \<in> {y, field_prime - y}"
proof (cases "y = 0")
  case True
  have "0 < (field_prime + 1) div 4" by (simp add: field_prime_def)
  then show ?thesis using True by (simp add: modpow_def power_0_left)
next
  case False
  define n where "n = (field_prime - 1) div 2"
  have "modpow (y * y mod field_prime) ((field_prime + 1) div 4) field_prime = y ^ (2 * ((field_prime + 1) div 4)) mod field_prime"
    by (simp only: modpow_def power_mod power_mult power2_eq_square)
  also have "\<dots> = y * (y ^ n mod field_prime) mod field_prime"
    by (simp only: half_exponent n_def[symmetric] power_Suc mod_mult_right_eq)
  finally have r: "modpow (y * y mod field_prime) ((field_prime + 1) div 4) field_prime = y * (y ^ n mod field_prime) mod field_prime" .
  have "y ^ n mod field_prime = 1 \<or> y ^ n mod field_prime = field_prime - 1" using assms(2) False by (simp add: euler_ok_def n_def)
  then show ?thesis unfolding r using assms(1) False mult_pred_mod[of y field_prime] by auto
qed

lemma be_val_snoc: "be_val (xs @ [b]) = be_val xs * 256 + unat b"
  using be_val_append[of xs "[b]"] by (simp add: be_val_def)

lemma to_bytes_be_val: "be_val (to_bytes_be n) = n"
proof (induction n rule: to_bytes_be.induct)
  case (1 n)
  show ?case
  proof (cases "n < 256")
    case True
    then show ?thesis by (simp add: to_bytes_be.simps[of n] be_val_def unat_of_nat_byte)
  next
    case False
    then show ?thesis using 1 by (simp add: to_bytes_be.simps[of n] be_val_snoc unat_of_nat_byte)
  qed
qed

lemma to_bytes_be_length: "n < 256 ^ Suc k \<Longrightarrow> length (to_bytes_be n) \<le> Suc k"
proof (induction k arbitrary: n)
  case (Suc k)
  have "n div 256 < 256 ^ Suc k" using Suc.prems by (simp add: div_less_iff_less_mult mult.commute)
  then show ?case using Suc.IH[of "n div 256"] by (simp add: to_bytes_be.simps[of n])
qed (simp add: to_bytes_be.simps)

lemma be_val_zeros: "be_val (replicate n 0 @ xs) = be_val xs"
  by (simp add: be_val_append) (simp add: be_val_def)

lemma marshal_xy_bytes:
  assumes "length xb = 32" "length yb = 32"
  shows "marshal_xy xb (be_val yb) = g1_unmarshal (xb @ yb)"
proof -
  let ?t = "to_bytes_be (be_val yb)"
  have l: "length ?t \<le> 32" using to_bytes_be_length[of "be_val yb" 31] be_val_less[of yb] assms by simp
  have "be_bytes 32 (be_val (replicate (32 - length ?t) 0 @ ?t)) = replicate (32 - length ?t) 0 @ ?t"
    using l by (intro be_bytes_be_val) simp
  then have "replicate (32 - length ?t) 0 @ ?t = yb" using be_bytes_be_val[OF assms(2)] by (simp add: be_val_zeros to_bytes_be_val)
  moreover have "take (64 - length ?t) (xb @ replicate 32 0) = xb @ replicate (32 - length ?t) 0" using l assms by simp
  ultimately show ?thesis using l assms by (simp add: marshal_xy_def Let_def)
qed

lemma compress_affine:
  assumes "decoded g" "g \<noteq> infinity"
  shows "compress g = marshal (mont_decode (cx g)) @ [if nat (fv (cy g)) < field_prime - nat (fv (cy g)) then 0 else 1]"
proof -
  note a = affine_marshal[OF assms]
  have "slice 32 64 (g1_marshal g) = marshal (mont_decode (cy g))" using slice_append_right[OF a(4), of "marshal (mont_decode (cy g))" 64 "[]"] a(1,5) by simp
  then show ?thesis using a by (simp add: compress_def Let_def)
qed

lemma decompress_compress:
  assumes g: "decoded g" "g \<noteq> infinity" and e: "euler_ok (nat (fv (cy g)))"
  shows "decompress (compress g) = Inr g"
proof -
  note a = affine_marshal[OF g]
  define x y where xy: "x = nat (fv (cx g))" "y = nat (fv (cy g))"
  have r: "reduced (cx g)" "reduced (cy g)" "coords_ok g" "cz g = gfp_one" using g by (simp_all add: decoded_def coords_ok_def)
  have i: "int x = fv (cx g)" "int y = fv (cy g)" and yp: "y < field_prime" using gf.val_range[OF r(1)] gf.val_range[OF r(2)] by (simp_all add: xy nat_less_iff)
  have "cgr (fv (cy g) ^ 2) (fv (cx g) ^ 3 + 3)" using g is_on_curve_affine[OF r(3,4)] by (simp add: decoded_def)
  then have "int (y * y mod field_prime) = int ((x * x * x + 3) mod field_prime)"
    unfolding cgr_def i[symmetric] by (simp add: zmod_int power2_eq_square power3_eq_cube)
  then have eq: "(x * x * x mod field_prime + 3) mod field_prime = y * y mod field_prime" unfolding of_nat_eq_iff by (simp add: mod_add_left_eq)
  define y1 where "y1 = modpow (y * y mod field_prime) ((field_prime + 1) div 4) field_prime"
  have y1: "y1 = y \<or> y1 = field_prime - y" using square_root[OF yp] e by (simp add: y1_def xy)
  have sq: "y1 * y1 mod field_prime = y * y mod field_prime"
  proof -
    have "(field_prime - y) * (field_prime - y) mod field_prime = y * y mod field_prime"
      using yp by (simp add: mod_square_diff)
    then show ?thesis using y1 by auto
  qed
  have xty: "x_to_y (marshal (mont_decode (cx g))) = Some (y1, if y1 = 0 then 0 else field_prime - y1)"
  proof -
    have b: "be_val (take 32 (marshal (mont_decode (cx g)))) = x" using a(2,4) by (simp add: xy)
    show ?thesis unfolding x_to_y_def Let_def b eq y1_def[symmetric] sq by simp
  qed
  have m: "marshal_xy (marshal (mont_decode (cx g))) y = Inr g"
    using marshal_xy_bytes[OF a(4,5)] unmarshal_affine[OF g, of "[]"] a(1,3) by (simp add: xy)
  have "y1 < field_prime" by (simp add: y1_def modpow_def field_prime_def)
  show ?thesis unfolding compress_affine[OF g] decompress_def xy(2)[symmetric]
    using a(4) m xty y1 yp \<open>y1 < field_prime\<close> by (auto simp: nth_append Let_def)
qed


section \<open>Properties of the codec\<close>

lemma generator_decoded: "decoded generator" "generator \<noteq> infinity" "unit_like (cz generator)"
proof -
  have c: "coords_ok generator" "cz generator = gfp_one" "ct generator = gfp_one"
    by (simp_all add: generator_def coords_ok_def gfp_one_def)
  then show "decoded generator" using affine_inv[OF c(1,2)] generator_inv(1) by (simp add: decoded_def)
  show "generator \<noteq> infinity" using generator_inv(2) infinity_inv(2) by auto
  show "unit_like (cz generator)" using c(2) by (simp add: unit_like_def) (simp add: field_prime_def)
qed

text \<open>C21: The decoders of points return nothing but the point at infinity and points whose coordinates are below the prime and satisfy
  the curve equation, so every later group operation stays on the curve.\<close>

theorem g1_decode_safe:
  assumes "g1_unmarshal m = Inr g \<or> decompress m = Inr g"
  shows "curve_inv g \<and> (g = infinity \<or> cz g = gfp_one \<and> is_on_curve g \<and> cgr (fv (cy g) ^ 2) (fv (cx g) ^ 3 + 3))"
proof -
  have d: "decoded g" using assms g1_unmarshal_safe decompress_safe by blast
  then show ?thesis using decoded_inv[OF d] is_on_curve_affine[of g] by (auto simp: decoded_def)
qed

theorem g1_decode_safe_witness: "g1_unmarshal (g1_marshal generator @ []) = Inr generator \<and> curve_inv generator"
proof -
  have "g1_unmarshal (g1_marshal generator @ []) = Inr generator" by (rule unmarshal_affine[OF generator_decoded(1,2)])
  then show ?thesis using g1_decode_safe[of "g1_marshal generator @ []" generator] by blast
qed

text \<open>Decoding inverts both encodings. Unmarshalling the 64 bytes of a point on the curve, whatever its Jacobian coordinates, gives
  the affine coordinates of that point; decompressing the 33 bytes of an affine point gives the point back, with the root of
  x^3 + 3 that the flag selects.\<close>

theorem g1_roundtrip:
  assumes "curve_inv g" "cz g = gfp_zero \<or> unit_like (cz g)"
  shows "\<exists>h. g1_unmarshal (g1_marshal g @ rest) = Inr h \<and> is_infinity h = is_infinity g
      \<and> (\<not> is_infinity g \<longrightarrow> cz h = gfp_one \<and> represents g (fv (cx h)) (fv (cy h)))
      \<and> (\<not> is_infinity g \<and> euler_ok (nat (fv (cy h))) \<longrightarrow> compress g = compress h \<and> decompress (compress h) = Inr h)"
proof -
  have c: "coords_ok g" using assms by (simp add: curve_inv_def)
  note m = make_affine_spec[OF c assms(2)]
  have n: "is_infinity (normal g) = is_infinity g" "\<not> is_infinity g \<Longrightarrow> cz (normal g) = gfp_one"
    "\<not> is_infinity g \<Longrightarrow> represents g (fv (cx (normal g))) (fv (cy (normal g)))"
    using m(3,4) one_ne_zero infinity_inv(2) by (simp_all add: normal_def is_infinity_def represents_def cgr_sym)
  have "\<not> is_infinity g \<Longrightarrow> normal g \<noteq> infinity" using n(1) infinity_inv(2) by auto
  moreover have "compress g = compress (normal g)" using marshal_normal[OF c assms(2)] by (simp add: compress_def)
  ultimately show ?thesis
    using unmarshal_marshal_point[OF assms, of rest] n decompress_compress[OF normal_decoded[OF assms]]
    by (intro exI[of _ "normal g"]) simp
qed

definition unit_y_point :: g1 where
  "unit_y_point = \<lparr>cx = mont_encode [0xd8a447837238b15e, 0x9deffb228c6c7324, 0x7c6bfd3b97e9703c, 0x2409ed9a7b756733], cy = gfp_one, cz = gfp_one, ct = gfp_one\<rparr>"

lemma unit_y_point_facts: "decoded unit_y_point" "unit_like (cz unit_y_point)" "fv (cy unit_y_point) = 1" "\<not> is_infinity unit_y_point"
proof -
  have w: "wval 64 [0xd8a447837238b15e, 0x9deffb228c6c7324, 0x7c6bfd3b97e9703c, 0x2409ed9a7b756733] = 16300804051298280266557810744150527230361199964009614164046675910434187948382" by simp
  have x: "reduced (cx unit_y_point)" "fv (cx unit_y_point) = 16300804051298280266557810744150527230361199964009614164046675910434187948382"
    using mont_encode_fv[of "[0xd8a447837238b15e, 0x9deffb228c6c7324, 0x7c6bfd3b97e9703c, 0x2409ed9a7b756733]"] unfolding w by (simp_all add: unit_y_point_def field_prime_def)
  have c: "coords_ok unit_y_point" "cz unit_y_point = gfp_one" "ct unit_y_point = gfp_one" "fv (cy unit_y_point) = 1"
    using x(1) by (simp_all add: unit_y_point_def coords_ok_def)
  have "cgr (16300804051298280266557810744150527230361199964009614164046675910434187948382 ^ 3 + 3) 1" unfolding cgr_def by (rule mod_eq_by_quotient[where q = 197886506566282837288697949841768081048832110411595171988865011618469916292281337464883916640027236609205899566679105820699748913823265656357391488145590]) (simp add: field_prime_def)
  then have "is_on_curve unit_y_point" using is_on_curve_affine[OF c(1,2)] by (simp only: c(4) x(2) one_power2 cgr_sym)
  then show "decoded unit_y_point" using c by (simp add: decoded_def)
  show "unit_like (cz unit_y_point)" using c(2) by (simp add: unit_like_def) (simp add: field_prime_def)
  show "fv (cy unit_y_point) = 1" "\<not> is_infinity unit_y_point" using c one_ne_zero by (simp_all add: is_infinity_def)
qed

theorem g1_roundtrip_witness:
  "\<exists>h. g1_unmarshal (g1_marshal unit_y_point @ []) = Inr h \<and> decompress (compress h) = Inr h"
proof -
  note u = unit_y_point_facts
  have h: "g1_unmarshal (g1_marshal unit_y_point @ []) = Inr unit_y_point" using u infinity_inv(2) by (intro unmarshal_affine) auto
  have "euler_ok (nat (fv (cy unit_y_point)))" by (simp add: euler_ok_def u(3) field_prime_def)
  then show ?thesis using g1_roundtrip[OF decoded_inv[OF u(1)], of "[]"] u(2,4) h by auto
qed

end
