(* ===== verification/Arguments.thy ===== *)
theory Arguments
  imports CborSafe G1 "HOL-Library.List_Lexorder" "HOL-Library.Multiset"
begin

text \<open>
  The RPC arguments of a smart-contract transaction (\<open>block/src/arguments.rs\<close>): the typed
  values, the canonical CBOR encoder (\<open>marshal_binary\<close>), and the decoder
  (\<open>unmarshal_binary_exact\<close>) with its dispatch on the type character of a key. An
  \<open>i64\<close> is its 64-bit two's complement pattern, an \<open>f64\<close> its bit pattern, a \<open>String\<close> its UTF-8 bytes.

  The lemmas show that the decoder never panics, that it inverts the encoder (up to the order
  of the arguments and the pattern of a NaN), and that the encoding is canonical: it does not depend on the
  order of the arguments, and decoding and encoding again gives back the same bytes.
\<close>

section \<open>Model\<close>

datatype ArgValue = Uint64 u64 | Int64 u64 | Str rstr | Hash "byte list" | Addr "byte list" | Float64 f64 | TimeArg u64

definition type_char :: "ArgValue \<Rightarrow> byte" where
  "type_char v = (case v of Uint64 _ \<Rightarrow> 0x55 | Int64 _ \<Rightarrow> 0x49 | Str _ \<Rightarrow> 0x53 | Hash _ \<Rightarrow> 0x48 | Addr _ \<Rightarrow> 0x41
     | Float64 _ \<Rightarrow> 0x46 | TimeArg _ \<Rightarrow> 0x54)"

record Argument =
  arg_name :: rstr
  arg_value :: ArgValue

subsection \<open>Canonical CBOR\<close>

definition enc_head :: "nat \<Rightarrow> nat \<Rightarrow> byte list" where
  "enc_head maj n =
    (let m = push_bit 5 (of_nat maj :: byte) in
     if n < 24 then [m OR of_nat n]
     else if n < 0x100 then [m OR 24, of_nat n]
     else if n < 0x10000 then (m OR 25) # be_bytes 2 n
     else if n < 0x100000000 then (m OR 26) # be_bytes 4 n
     else (m OR 27) # be_bytes 8 n)"

definition enc_text :: "rstr \<Rightarrow> byte list" where
  "enc_text s = enc_head 3 (length s) @ s"

definition enc_bytes :: "byte list \<Rightarrow> byte list" where
  "enc_bytes b = enc_head 2 (length b) @ b"

definition enc_int :: "u64 \<Rightarrow> byte list" where
  "enc_int i = (if 0 \<le> sint i then enc_head 0 (unat i) else enc_head 1 (unat (- 1 - i)))"

definition enc_float :: "f64 \<Rightarrow> byte list" where
  "enc_float f =
    (if is_nan f then [0xf9, 0x7e, 0x00]
     else if is_infinite f then [0xf9, if \<not> sign64 f then 0x7c else 0xfc, 0x00]
     else let f32v = f64_to_f32 f in
       if feq64 (f32_to_f64 f32v) f then
         (let h = f32_to_f16_bits f32v in
          if feq32 (f16_bits_to_f32 h) f32v then 0xf9 # u16_be h
          else 0xfa # u32_be f32v)
       else 0xfb # u64_be f)"

definition enc_time :: "u64 \<Rightarrow> byte list" where
  "enc_time secs = (if secs = GO_ZERO_TIME_UNIX then [0xf6] else 0xc1 # enc_int secs)"

definition enc_value :: "ArgValue \<Rightarrow> byte list" where
  "enc_value v = (case v of
     Uint64 u \<Rightarrow> enc_head 0 (unat u)
   | Int64 i \<Rightarrow> enc_int i
   | Str s \<Rightarrow> enc_text s
   | Hash h \<Rightarrow> enc_bytes h
   | Addr a \<Rightarrow> enc_bytes a
   | Float64 f \<Rightarrow> enc_float f
   | TimeArg secs \<Rightarrow> enc_time secs)"

definition arg_key :: "Argument \<Rightarrow> rstr" where
  "arg_key a = arg_name a @ [type_char (arg_value a)]"

text \<open>The encoded pairs, a later argument with the same key replacing an earlier one.\<close>

definition marshal_pairs :: "Argument list \<Rightarrow> (byte list \<times> byte list) list" where
  "marshal_pairs args = fold (\<lambda>a ps. put_entry (enc_text (arg_key a)) (enc_value (arg_value a)) ps) args []"

definition marshal_binary :: "Argument list \<Rightarrow> byte list" where
  "marshal_binary args =
    (let pairs = sort_key fst (marshal_pairs args)
     in enc_head 5 (length pairs) @ concat (map (\<lambda>(k, v). k @ v) pairs))"

subsection \<open>Decoding\<close>

text \<open>The 33-byte buffer, zero-padded or truncated, and the point it denotes: the bytes Go would
  re-emit for it. A coordinate that is not below the modulus leaves the zero point.\<close>

definition pad_to :: "nat \<Rightarrow> byte list \<Rightarrow> byte list" where
  "pad_to n b = take n b @ replicate (n - length b) 0"

definition choose_root :: "byte \<Rightarrow> nat \<Rightarrow> nat \<Rightarrow> nat" where
  "choose_root flag y1 y2 =
    (if flag = 0 \<and> y1 < y2 then y1 else if flag = 1 \<and> y1 < y2 then y2 else if flag = 0 then y2 else y1)"

definition recompress :: "byte list \<Rightarrow> byte \<Rightarrow> (byte list, rstr) result" where
  "recompress xb flag =
    (let p = field_prime;
         x = be_val xb;
         beta = (x * x * x + 3) mod p;
         y1 = modpow beta ((p + 1) div 4) p
     in if (y1 * y1) mod p \<noteq> beta then Inl (lit ''bn256: Cannot decompress'')
        else
          let y2 = p - y1;
              chosen = choose_root flag y1 y2
          in if x \<ge> p \<or> chosen \<ge> p then Inr (replicate 33 0)
             else let y_neg = p - chosen in Inr (xb @ [if chosen < y_neg then 0 else 1]))"

definition decode_address_go :: "byte list \<Rightarrow> (byte list, rstr) result" where
  "decode_address_go b = (let a = pad_to 33 b in recompress (take 32 a) (a ! 32))"

definition rpc_type_err :: "rstr \<Rightarrow> byte \<Rightarrow> cval \<Rightarrow> rstr" where
  "rpc_type_err key tchar v =
    (let (tname, verb) =
       (if tchar = 0x53 then (''string'', ''s'') else if tchar = 0x49 then (''int64'', ''d'')
        else if tchar = 0x55 then (''uint64'', ''d'') else if tchar = 0x46 then (''float64'', ''f'')
        else if tchar = 0x48 then (''hash'', ''s'') else if tchar = 0x41 then (''address'', ''s'') else (''time'', ''s''));
         typei = (if tchar = 0x49 then ''typei'' else ''type'')
     in lit ''Name:'' @ butlast key @ lit '' Type:'' @ lit tname @ lit '' Value:'' @ [0x27] @ lit ''%!'' @ lit verb
        @ lit ''(<nil>)'' @ [0x27] @ lit '' has invalid data '' @ lit typei @ lit '' '' @ go_type_name v @ [0x0a])"

definition unknown_type_err :: "rstr \<Rightarrow> cval \<Rightarrow> rstr" where
  "unknown_type_err k v = lit ''I don'' @ [0x27] @ lit ''t know about typeaa '' @ go_type_name v @ lit ''  '' @ k @ lit ''!'' @ [0x0a]"

text \<open>The match on the type character and the value of one entry.\<close>

definition decode_value :: "rstr \<Rightarrow> byte \<Rightarrow> cval \<Rightarrow> (ArgValue, rstr) result" where
  "decode_value k tchar v =
    (if tchar = 0x49 then (case v of I64 i \<Rightarrow> Inr (Int64 i) | U64 u \<Rightarrow> Inr (Int64 u) | _ \<Rightarrow> Inl (rpc_type_err k tchar v))
     else if tchar = 0x55 then (case v of U64 u \<Rightarrow> Inr (Uint64 u) | _ \<Rightarrow> Inl (rpc_type_err k tchar v))
     else if tchar = 0x46 then (case v of F64 f \<Rightarrow> Inr (Float64 f) | _ \<Rightarrow> Inl (rpc_type_err k tchar v))
     else if tchar = 0x48 then (case v of Bytes b \<Rightarrow> Inr (Hash (pad_to 32 b)) | _ \<Rightarrow> Inl (rpc_type_err k tchar v))
     else if tchar = 0x41 then
       (case v of Bytes b \<Rightarrow> rbind (decode_address_go b) (\<lambda>a. Inr (Addr a)) | _ \<Rightarrow> Inl (rpc_type_err k tchar v))
     else if tchar = 0x53 then (case v of Text s \<Rightarrow> Inr (Str s) | _ \<Rightarrow> Inl (rpc_type_err k tchar v))
     else if tchar = 0x54 then (case v of Time unix \<Rightarrow> Inr (TimeArg unix) | _ \<Rightarrow> Inl (rpc_type_err k tchar v))
     else Inl (unknown_type_err k v))"

text \<open>One entry of the map. The name is a slice of the key string that ends before its last byte:
  a panic when that byte is not the start of a character.\<close>

definition decode_entry :: "rstr \<times> cval \<Rightarrow> (Argument, stop) result" where
  "decode_entry = (\<lambda>(k, v).
    if length k < 2 then Inl (Err (lit ''Invalid encoding for key '' @ [0x27] @ k @ [0x27]))
    else rbind (map_err Err (decode_value k (last k) v)) (\<lambda>value.
      if utf8_valid (butlast k) then Inr \<lparr>arg_name = butlast k, arg_value = value\<rparr> else Inl CPanic))"

fun decode_entries :: "(rstr \<times> cval) list \<Rightarrow> (Argument list, stop) result" where
  "decode_entries [] = Inr []"
| "decode_entries (e # es) = rbind (decode_entry e) (\<lambda>a. rbind (decode_entries es) (\<lambda>as. Inr (a # as)))"

definition unmarshal_binary_exact :: "byte list \<Rightarrow> (Argument list, stop) result" where
  "unmarshal_binary_exact data =
    rbind (cbor_unmarshal_localmap data) (\<lambda>localmap.
    rbind (decode_entries localmap) (\<lambda>args. Inr (sort_key arg_name args)))"

definition unmarshal_binary :: "byte list \<Rightarrow> (Argument list, stop) result" where
  "unmarshal_binary data =
    map_err (\<lambda>s. case s of Err _ \<Rightarrow> Err (lit ''SCDATA: invalid arguments payload'') | _ \<Rightarrow> s) (unmarshal_binary_exact data)"

text \<open>Find an argument by name.\<close>

definition args_get :: "Argument list \<Rightarrow> rstr \<Rightarrow> ArgValue option" where
  "args_get args name = map_option arg_value (find (\<lambda>a. arg_name a = name) args)"

section \<open>Encoded heads\<close>

declare parse.simps [simp del]
declare parse_key.simps [simp del]
declare parse_top_to_map.simps [simp del]
declare valid_internal.simps [simp del]
declare skip.simps [simp del]

lemma initial_byte_all:
  "list_all (\<lambda>m. list_all (\<lambda>k. major (push_bit 5 (of_nat m) OR of_nat k) = m \<and> info (push_bit 5 (of_nat m) OR of_nat k) = k) [0..<32]) [0..<8]"
  by code_simp

lemma initial_byte:
  assumes "m < 8" "k < 32"
  shows "major (push_bit 5 (of_nat m) OR of_nat k) = m" "info (push_bit 5 (of_nat m) OR of_nat k) = k"
  using initial_byte_all assms by (auto simp: list_all_iff)

lemma initial_byte_numeral:
  assumes "m < 8"
  shows "major (push_bit 5 (of_nat m) OR 24) = m" "info (push_bit 5 (of_nat m) OR 24) = 24"
    "major (push_bit 5 (of_nat m) OR 25) = m" "info (push_bit 5 (of_nat m) OR 25) = 25"
    "major (push_bit 5 (of_nat m) OR 26) = m" "info (push_bit 5 (of_nat m) OR 26) = 26"
    "major (push_bit 5 (of_nat m) OR 27) = m" "info (push_bit 5 (of_nat m) OR 27) = 27"
  using initial_byte[OF assms, of 24] initial_byte[OF assms, of 25] initial_byte[OF assms, of 26]
    initial_byte[OF assms, of 27] by simp_all

lemma be_val_single: "be_val [b] = unat b"
  by (simp add: be_val_def)

lemma enc_head_head:
  assumes "m < 7" "n < 2 ^ 64"
  shows "\<exists>ai. ai \<le> 27 \<and> head (enc_head m n) m ai n"
proof -
  have m: "m < 8" using assms(1) by simp
  note ib = initial_byte[OF m] initial_byte_numeral[OF m]
  consider "n < 24" | "24 \<le> n" "n < 0x100" | "0x100 \<le> n" "n < 0x10000" | "0x10000 \<le> n" "n < 0x100000000"
    | "0x100000000 \<le> n" by linarith
  then show ?thesis
  proof cases
    case 1
    then show ?thesis using ib(1,2)[of n] assms(1) by (intro exI[of _ n]) (auto simp: enc_head_def head_iff head_ok_def arg_size_def)
  next
    case 2
    then have "unat (of_nat n :: byte) = n" by (simp add: unat_of_nat)
    then show ?thesis using 2 ib assms(1)
      by (intro exI[of _ 24]) (auto simp: enc_head_def head_iff head_ok_def arg_size_def be_val_single)
  next
    case 3
    then show ?thesis using ib assms(1)
      by (intro exI[of _ 25]) (auto simp: enc_head_def head_iff head_ok_def arg_size_def be_val_be_bytes)
  next
    case 4
    then show ?thesis using ib assms(1)
      by (intro exI[of _ 26]) (auto simp: enc_head_def head_iff head_ok_def arg_size_def be_val_be_bytes)
  next
    case 5
    then show ?thesis using ib assms
      by (intro exI[of _ 27]) (auto simp: enc_head_def head_iff head_ok_def arg_size_def be_val_be_bytes)
  qed
qed

section \<open>Floats\<close>

text \<open>The value decoded from the encoding of a float: the float itself, a NaN becoming the quiet one.\<close>

definition canon_float :: "f64 \<Rightarrow> f64" where
  "canon_float f = (if is_nan f then 0x7ff8000000000000 else f)"

lemma word_of_unat: "unat w = n \<Longrightarrow> w = of_nat n" for w :: "'a::len word"
  by auto

lemma zero_patterns64: "unat (f :: f64) mod 2 ^ 63 = 0 \<Longrightarrow> f = 0 \<or> f = 0x8000000000000000"
proof -
  assume z: "unat f mod 2 ^ 63 = 0"
  have "unat f < 2 * 2 ^ 63" using unsigned_less[of f, where 'a = nat] by simp
  then have "unat f div 2 ^ 63 < 2" by (simp add: less_mult_imp_div_less)
  then have "unat f = 0 \<or> unat f = 2 ^ 63" using z div_mult_mod_eq[of "unat f" "2 ^ 63"]
    by (cases "unat f div 2 ^ 63 = 0") (simp_all add: less_2_cases_iff)
  then show ?thesis by (elim disjE) (drule word_of_unat, simp)+
qed

lemma zero_patterns32: "unat (f :: f32) mod 2 ^ 31 = 0 \<Longrightarrow> f = 0 \<or> f = 0x80000000"
proof -
  assume z: "unat f mod 2 ^ 31 = 0"
  have "unat f < 2 * 2 ^ 31" using unsigned_less[of f, where 'a = nat] by simp
  then have "unat f div 2 ^ 31 < 2" by (simp add: less_mult_imp_div_less)
  then have "unat f = 0 \<or> unat f = 2 ^ 31" using z div_mult_mod_eq[of "unat f" "2 ^ 31"]
    by (cases "unat f div 2 ^ 31 = 0") (simp_all add: less_2_cases_iff)
  then show ?thesis by (elim disjE) (drule word_of_unat, simp)+
qed

lemma infinite_patterns: "is_infinite f \<Longrightarrow> f = 0x7ff0000000000000 \<or> f = 0xfff0000000000000"
proof -
  assume "is_infinite f"
  then have e: "unat f div 2 ^ 52 mod 2 ^ 11 = 2047" "unat f mod 2 ^ 52 = 0"
    by (simp_all add: is_infinite_def exp64_def man64_def)
  define q where "q = unat f div 2 ^ 52"
  have u: "unat f = q * 2 ^ 52" using e(2) div_mult_mod_eq[of "unat f" "2 ^ 52"] by (simp add: q_def)
  have "unat f < 2 ^ 64" using unsigned_less[of f, where 'a = nat] by simp
  then have "q < 2 ^ 12" unfolding u by simp
  then have "q div 2 ^ 11 < 2" by simp
  then have "q = 2047 \<or> q = 4095" using e(1) div_mult_mod_eq[of q "2 ^ 11"] unfolding q_def[symmetric]
    by (auto simp: less_2_cases_iff)
  then show ?thesis using word_of_unat[OF u] by (elim disjE) simp_all
qed

lemma feq64_eq: "feq64 a b \<Longrightarrow> unat b mod 2 ^ 63 \<noteq> 0 \<Longrightarrow> a = b"
  by (auto simp: feq64_def)

lemmas f32_defs = f32_to_f64_def f16_bits_to_f32_def exp32_def man32_def sign32_def mk64_def Let_def

lemma widen_zero: "f32_to_f64 0 = 0" "f32_to_f64 0x80000000 = 0x8000000000000000"
  by (simp_all add: f32_defs)

lemma half_constants:
  "f32_to_f64 (f16_bits_to_f32 0x7e00) = 0x7ff8000000000000"
  "f32_to_f64 (f16_bits_to_f32 0x7c00) = 0x7ff0000000000000"
  "f32_to_f64 (f16_bits_to_f32 0xfc00) = 0xfff0000000000000"
  "f32_to_f64 (f16_bits_to_f32 0) = 0" "f32_to_f64 (f16_bits_to_f32 0x8000) = 0x8000000000000000"
  by (simp_all add: f32_defs)

lemma bitlen_0: "bitlen 0 = 0"
  by (simp add: bitlen.simps)

lemma zero_patterns_facts:
  "\<not> is_nan 0" "\<not> is_nan 0x8000000000000000" "\<not> is_infinite 0" "\<not> is_infinite 0x8000000000000000"
  "\<not> is_nan32 0" "\<not> is_nan32 0x80000000"
  by (simp_all add: is_nan_def is_infinite_def is_nan32_def exp64_def exp32_def man64_def man32_def)

lemma narrow_zero: "f64_to_f32 0 = 0" "f64_to_f32 0x8000000000000000 = 0x80000000"
  by (simp_all add: f64_to_f32_def exp64_def mag64_def man64_def rne_def bitlen_0 mk32_def sign64_def)

lemma half_zero:
  "f32_to_f16_bits 0 = 0" "f32_to_f16_bits 0x80000000 = 0x8000"
  "f16_bits_to_f32 0 = 0" "f16_bits_to_f32 0x8000 = 0x80000000"
  by (simp_all add: f32_to_f16_bits_def f16_bits_to_f32_def Let_def)

lemma u16_be_two: "u16_be h = [of_nat (unat h div 256 mod 256), of_nat (unat h mod 256)]"
  by (simp add: u16_be_def be_bytes_def numeral_2_eq_2)

lemma enc_float_zero:
  "enc_float 0 = [0xf9, 0, 0]" "enc_float 0x8000000000000000 = [0xf9, 0x80, 0]"
  by (simp_all add: enc_float_def narrow_zero half_zero widen_zero zero_patterns_facts feq64_def feq32_def u16_be_two)

text \<open>The encoding of a float is one primitive head whose value is the float.\<close>

lemma primitive_head:
  "head (0xf9 # u16_be h) 7 25 (unat h)" "head (0xfa # u32_be x) 7 26 (unat x)" "head (0xfb # u64_be y) 7 27 (unat y)"
proof -
  have "major 0xf9 = 7" "info 0xf9 = 25" "major 0xfa = 7" "info 0xfa = 26" "major 0xfb = 7" "info 0xfb = 27"
    by (simp_all add: major_def info_def)
  moreover have "be_val (u16_be h) = unat h" "be_val (u32_be x) = unat x" "be_val (u64_be y) = unat y"
    using unsigned_less[of h, where 'a = nat] unsigned_less[of x, where 'a = nat] unsigned_less[of y, where 'a = nat]
    by (simp_all add: u16_be_def u32_be_def u64_be_def be_val_be_bytes)
  ultimately show "head (0xf9 # u16_be h) 7 25 (unat h)" "head (0xfa # u32_be x) 7 26 (unat x)"
    "head (0xfb # u64_be y) 7 27 (unat y)"
    by (simp_all add: head_iff head_ok_def arg_size_def)
qed

lemma float_of_half:
  assumes "feq64 (f32_to_f64 x) f" "feq32 (f16_bits_to_f32 h) x" "unat f mod 2 ^ 63 \<noteq> 0"
  shows "f32_to_f64 (f16_bits_to_f32 h) = f"
proof -
  have f: "f32_to_f64 x = f" using feq64_eq[OF assms(1,3)] .
  have "unat x mod 2 ^ 31 \<noteq> 0"
  proof
    assume "unat x mod 2 ^ 31 = 0"
    then show False using zero_patterns32[of x] widen_zero f assms(3) by auto
  qed
  then have "f16_bits_to_f32 h = x" using assms(2) by (auto simp: feq32_def)
  then show ?thesis using f by simp
qed

lemma enc_float_head:
  "\<exists>ai val. head (enc_float f) 7 ai val \<and> 25 \<le> ai \<and> ai \<le> 27 \<and> primitive_of ai val = F64 (canon_float f)"
proof -
  have c: "[0xf9, 0x7e, 0x00] = 0xf9 # u16_be 0x7e00" "[0xf9, 0x7c, 0x00] = 0xf9 # u16_be 0x7c00"
    "[0xf9, 0xfc, 0x00] = 0xf9 # u16_be 0xfc00" "[0xf9, 0, 0] = 0xf9 # u16_be 0" "[0xf9, 0x80, 0] = 0xf9 # u16_be 0x8000"
    by (simp_all add: u16_be_two)
  have by_half: "\<exists>ai val. head (enc_float f) 7 ai val \<and> 25 \<le> ai \<and> ai \<le> 27 \<and> primitive_of ai val = F64 (canon_float f)"
    if "enc_float f = 0xf9 # u16_be h" "f32_to_f64 (f16_bits_to_f32 h) = canon_float f" for h
    using primitive_head(1)[of h] that by (intro exI[of _ 25] exI[of _ "unat h"]) (simp add: primitive_of_def)
  consider (nan) "is_nan f" | (inf) "\<not> is_nan f" "is_infinite f" | (zero) "\<not> is_nan f" "\<not> is_infinite f" "unat f mod 2 ^ 63 = 0"
    | (num) "\<not> is_nan f" "\<not> is_infinite f" "unat f mod 2 ^ 63 \<noteq> 0" by blast
  then show ?thesis
  proof cases
    case nan
    then show ?thesis by (intro by_half[where h = "0x7e00"]) (simp_all add: enc_float_def c canon_float_def half_constants)
  next
    case inf
    from infinite_patterns[OF inf(2)] show ?thesis
    proof
      assume f: "f = 0x7ff0000000000000"
      show ?thesis using inf by (intro by_half[where h = "0x7c00"]) (simp_all add: enc_float_def sign64_def c f canon_float_def half_constants)
    next
      assume f: "f = 0xfff0000000000000"
      show ?thesis using inf by (intro by_half[where h = "0xfc00"]) (simp_all add: enc_float_def sign64_def c f canon_float_def half_constants)
    qed
  next
    case zero
    from zero_patterns64[OF zero(3)] show ?thesis
    proof
      assume f: "f = 0"
      show ?thesis by (intro by_half[where h = "0"]) (simp_all add: enc_float_zero c f canon_float_def half_constants zero_patterns_facts)
    next
      assume f: "f = 0x8000000000000000"
      show ?thesis by (intro by_half[where h = "0x8000"]) (simp_all add: enc_float_zero c f canon_float_def half_constants zero_patterns_facts)
    qed
  next
    case num
    let ?x = "f64_to_f32 f" and ?h = "f32_to_f16_bits (f64_to_f32 f)"
    consider "feq64 (f32_to_f64 ?x) f" "feq32 (f16_bits_to_f32 ?h) ?x" | "feq64 (f32_to_f64 ?x) f" "\<not> feq32 (f16_bits_to_f32 ?h) ?x"
      | "\<not> feq64 (f32_to_f64 ?x) f" by blast
    then show ?thesis
    proof cases
      case 1
      then show ?thesis using num float_of_half[OF 1 num(3)] by (intro by_half[where h = "?h"]) (simp_all add: enc_float_def canon_float_def)
    next
      case 2
      then show ?thesis using num feq64_eq[OF 2(1) num(3)] primitive_head(2)[of ?x]
        by (intro exI[of _ 26] exI[of _ "unat ?x"]) (simp add: enc_float_def canon_float_def primitive_of_def)
    next
      case 3
      then show ?thesis using num primitive_head(3)[of f]
        by (intro exI[of _ 27] exI[of _ "unat f"]) (simp add: enc_float_def canon_float_def primitive_of_def)
    qed
  qed
qed

section \<open>One value\<close>

definition value_wf :: "ArgValue \<Rightarrow> bool" where
  "value_wf v = (case v of
     Str s \<Rightarrow> utf8_valid s \<and> length s < 2 ^ 63
   | Hash h \<Rightarrow> length h = 32
   | Addr a \<Rightarrow> length a = 33 \<and> decode_address_go a = Inr a
   | TimeArg t \<Rightarrow> t \<noteq> GO_ZERO_TIME_UNIX
   | _ \<Rightarrow> True)"

definition cval_of_int :: "u64 \<Rightarrow> cval" where
  "cval_of_int i = (if 0 \<le> sint i then U64 i else I64 i)"

definition cval_of :: "ArgValue \<Rightarrow> cval" where
  "cval_of v = (case v of Uint64 u \<Rightarrow> U64 u | Int64 i \<Rightarrow> cval_of_int i | Str s \<Rightarrow> Text s | Hash h \<Rightarrow> Bytes h
     | Addr a \<Rightarrow> Bytes a | Float64 f \<Rightarrow> F64 (canon_float f) | TimeArg t \<Rightarrow> Time t)"

definition norm_value :: "ArgValue \<Rightarrow> ArgValue" where
  "norm_value v = (case v of Float64 f \<Rightarrow> Float64 (canon_float f) | _ \<Rightarrow> v)"

lemma next_major_head: "head h t ai val \<Longrightarrow> next_major (h @ r) = Inr t"
  by (auto simp: next_major_def dest!: head_first)

lemma strip_no_tag: "head h t ai val \<Longrightarrow> t \<noteq> 6 \<Longrightarrow> strip_self_described (h @ r) = Inr (h @ r)"
  using next_major_head[of h t ai val r] by (subst strip_self_described.simps) simp

lemma check_no_tag: "head h t ai val \<Longrightarrow> t \<noteq> 6 \<Longrightarrow> check_builtin_tag f (h @ r) = Inr (Inr (), h @ r)"
  using next_major_head[of h t ai val r] by (simp add: check_builtin_tag_def)

lemma parse_no_tag:
  "head h t ai val \<Longrightarrow> t \<noteq> 6 \<Longrightarrow> parse (Suc f) st (h @ r) = parse_dispatch f (parse f) (h @ r)"
  using strip_no_tag[of h t ai val r] check_no_tag[of h t ai val f r] by (simp add: parse.simps)

lemma parse_uint:
  assumes "n < 2 ^ 64"
  shows "parse (Suc f) st (enc_head 0 n @ r) = Inr (Inr (U64 (of_nat n)), r)"
proof -
  obtain ai where h: "head (enc_head 0 n) 0 ai n" using enc_head_head[of 0 n] assms by auto
  show ?thesis using parse_no_tag[OF h] next_major_head[OF h] head_get[OF h] by (simp add: parse_dispatch_def)
qed

lemma parse_nint:
  assumes "n < 2 ^ 63"
  shows "parse (Suc f) st (enc_head 1 n @ r) = Inr (Inr (I64 (- 1 - of_nat n)), r)"
proof -
  obtain ai where h: "head (enc_head 1 n) 1 ai n" using enc_head_head[of 1 n] assms by auto
  show ?thesis using parse_no_tag[OF h] next_major_head[OF h] head_get[OF h] assms
    by (simp add: parse_dispatch_def negative_of_def I64_MAX_def)
qed

lemma negative_unat: "sint (i :: u64) < 0 \<Longrightarrow> unat (- 1 - i) < 2 ^ 63"
proof -
  assume neg: "sint i < 0"
  have "2 ^ 63 \<le> uint i"
  proof (rule ccontr)
    assume "\<not> 2 ^ 63 \<le> uint i"
    moreover have "- (2 ^ 63) \<le> uint i" using order_trans[of "- (2 ^ 63)" 0 "uint i"] by simp
    ultimately have "sint i = uint i" using signed_take_bit_int_eq_self[of 63 "uint i"] by (simp add: sint_uint)
    then show False using neg by simp
  qed
  then have "2 ^ 63 \<le> unat i" unfolding uint_nat by (metis of_nat_le_iff of_nat_numeral of_nat_power)
  moreover have "unat (- 1 - i) = 2 ^ 64 - 1 - unat i"
    by (subst unat_sub) (simp_all add: unsigned_minus_1_eq_mask mask_eq_exp_minus_1)
  ultimately show ?thesis by simp
qed

lemma parse_int: "parse (Suc f) st (enc_int i @ r) = Inr (Inr (cval_of_int i), r)"
proof (cases "0 \<le> sint i")
  case True
  then show ?thesis using parse_uint[of "unat i" f st r] unsigned_less[of i, where 'a = nat]
    by (simp add: enc_int_def cval_of_int_def)
next
  case False
  then show ?thesis using parse_nint[of "unat (- 1 - i)" f st r] negative_unat[of i]
    by (simp add: enc_int_def cval_of_int_def)
qed

lemma enc_int_head: "\<exists>t ai val. enc_int i \<noteq> [] \<and> head (enc_int i) t ai val \<and> (t = 0 \<or> t = 1)"
proof -
  have "unat i < 2 ^ 64" "unat (- 1 - i) < 2 ^ 64"
    using unsigned_less[of i, where 'a = nat] unsigned_less[of "- 1 - i", where 'a = nat] by simp_all
  then obtain ai bi where "head (enc_head 0 (unat i)) 0 ai (unat i)" "head (enc_head 1 (unat (- 1 - i))) 1 bi (unat (- 1 - i))"
    using enc_head_head[of 0 "unat i"] enc_head_head[of 1 "unat (- 1 - i)"] by auto
  then show ?thesis using head_nonempty by (auto simp: enc_int_def)
qed

lemma parse_string:
  assumes "length s < 2 ^ 63" "t = 2 \<or> t = 3 \<and> utf8_valid s"
  shows "parse (Suc f) st ((enc_head t (length s) @ s) @ r) = Inr (Inr (if t = 2 then Bytes s else Text s), r)"
proof -
  obtain ai where h: "head (enc_head t (length s)) t ai (length s)" "ai \<le> 27"
    using enc_head_head[of t "length s"] assms by auto
  show ?thesis using parse_no_tag[OF h(1)] next_major_head[OF h(1)] head_get[OF h(1)] h(2) take_bytes_append[of s r] assms(2)
    by (auto simp: parse_dispatch_def parse_byte_string_def parse_text_string_def)
qed

lemma parse_float: "parse (Suc f) st (enc_float x @ r) = Inr (Inr (F64 (canon_float x)), r)"
proof -
  obtain ai val where h: "head (enc_float x) 7 ai val" "primitive_of ai val = F64 (canon_float x)"
    using enc_float_head by blast
  show ?thesis using parse_no_tag[OF h(1)] next_major_head[OF h(1)] head_get[OF h(1)] h(2) by (simp add: parse_dispatch_def)
qed

lemma tag1_head: "head [0xc1] 6 1 1"
  by (simp add: head_iff head_ok_def arg_size_def major_def info_def)

lemma parse_time:
  assumes "t \<noteq> GO_ZERO_TIME_UNIX"
  shows "parse (Suc (Suc f)) st (enc_time t @ r) = Inr (Inr (Time t), r)"
proof -
  let ?b = "enc_int t @ r"
  obtain u ai val where h: "enc_int t \<noteq> []" "head (enc_int t) u ai val" "u = 0 \<or> u = 1" using enc_int_head by blast
  then obtain c b where b: "?b = c # b" "major c = u" using head_first[OF h(2)] by auto
  note g = head_get[OF tag1_head, of ?b] next_major_head[OF tag1_head, of ?b]
  have "strip_self_described ([0xc1] @ ?b) = Inr ([0xc1] @ ?b)" using g by (subst strip_self_described.simps) simp
  moreover have "check_builtin_tag f' ([0xc1] @ ?b) = Inr (Inr (), [0xc1] @ ?b)" for f'
    using g b h(3) by (auto simp: check_builtin_tag_def valid_builtin_tag_def Let_def)
  ultimately have "parse (Suc (Suc f)) st ([0xc1] @ ?b) = parse_dispatch (Suc f) (parse (Suc f)) ([0xc1] @ ?b)"
    by (simp add: parse.simps(2)[of "Suc f"])
  also have "\<dots> = Inr (Inr (Time t), r)"
    using g parse_int[of f False t r] by (auto simp: parse_dispatch_def parse_to_time_def time_of_def cval_of_int_def)
  finally show ?thesis using assms by (simp add: enc_time_def)
qed

lemma parse_enc_value:
  assumes "value_wf v"
  shows "parse (Suc (Suc f)) st (enc_value v @ r) = Inr (Inr (cval_of v), r)"
proof (cases v)
  case (Uint64 u)
  then show ?thesis using parse_uint[of "unat u"] unsigned_less[of u, where 'a = nat] by (simp add: enc_value_def cval_of_def)
next
  case (Int64 i)
  then show ?thesis using parse_int by (simp add: enc_value_def cval_of_def)
next
  case (Str s)
  then show ?thesis using assms parse_string[of s 3 "Suc f" st r] by (simp add: value_wf_def enc_value_def enc_text_def cval_of_def)
next
  case (Hash h)
  then show ?thesis using assms parse_string[of h 2 "Suc f" st r] by (simp add: value_wf_def enc_value_def enc_bytes_def cval_of_def)
next
  case (Addr a)
  then show ?thesis using assms parse_string[of a 2 "Suc f" st r] by (simp add: value_wf_def enc_value_def enc_bytes_def cval_of_def)
next
  case (Float64 f)
  then show ?thesis using parse_float by (simp add: enc_value_def cval_of_def)
next
  case (TimeArg t)
  then show ?thesis using assms parse_time by (simp add: value_wf_def enc_value_def cval_of_def)
qed


subsection \<open>The validator accepts an encoded value\<close>

lemma valid_head_body:
  "head h t ai val \<Longrightarrow> valid_internal (Suc f) depth (h @ r) = valid_body (valid_internal f) depth t ai val r"
  using head_valid[of h t ai val r] by (simp add: valid_internal.simps)

lemma valid_simple: "head h t ai val \<Longrightarrow> t = 0 \<or> t = 1 \<or> t = 7 \<Longrightarrow> valid_internal (Suc f) depth (h @ r) = Inr (depth, r)"
  using valid_head_body[of h t ai val f depth r] by (auto simp: valid_body_def)

lemma valid_string:
  assumes "length s < 2 ^ 63" "t = 2 \<or> t = 3"
  shows "valid_internal (Suc f) depth ((enc_head t (length s) @ s) @ r) = Inr (depth, r)"
proof -
  obtain ai where h: "head (enc_head t (length s)) t ai (length s)" "ai \<le> 27"
    using enc_head_head[of t "length s"] assms by auto
  show ?thesis using valid_head_body[OF h(1)] h(2) assms by (auto simp: valid_body_def I64_MAX_def)
qed

lemma valid_enc_value:
  assumes "value_wf v"
  shows "valid_internal (Suc (Suc f)) depth (enc_value v @ r) = Inr (depth, r)"
proof (cases v)
  case (Uint64 u)
  have "unat u < 2 ^ 64" using unsigned_less[of u, where 'a = nat] by simp
  then obtain ai where "head (enc_head 0 (unat u)) 0 ai (unat u)" using enc_head_head[of 0 "unat u"] by auto
  then show ?thesis using Uint64 valid_simple[of "enc_head 0 (unat u)"] by (simp add: enc_value_def)
next
  case (Int64 i)
  then show ?thesis using enc_int_head[of i] valid_simple[of "enc_int i"] by (auto simp: enc_value_def)
next
  case (Str s)
  then show ?thesis using assms valid_string[of s 3 "Suc f" depth r] by (simp add: value_wf_def enc_value_def enc_text_def)
next
  case (Hash h)
  then show ?thesis using assms valid_string[of h 2 "Suc f" depth r] by (simp add: value_wf_def enc_value_def enc_bytes_def)
next
  case (Addr a)
  then show ?thesis using assms valid_string[of a 2 "Suc f" depth r] by (simp add: value_wf_def enc_value_def enc_bytes_def)
next
  case (Float64 x)
  then show ?thesis using enc_float_head[of x] valid_simple[of "enc_float x" 7] by (auto simp: enc_value_def)
next
  case (TimeArg t)
  obtain u ai val where h: "enc_int t \<noteq> []" "head (enc_int t) u ai val" "u = 0 \<or> u = 1" using enc_int_head by blast
  then have "valid_tags depth (enc_int t @ r) = Inr (depth, enc_int t @ r)"
    using head_first[OF h(2)] by (subst valid_tags.simps) auto
  then have "valid_internal (Suc (Suc f)) depth ([0xc1] @ enc_int t @ r) = Inr (depth, r)"
    using valid_head_body[OF tag1_head, of "Suc f" depth "enc_int t @ r"] valid_simple[OF h(2)] h(3)
    by (auto simp: valid_body_def)
  then show ?thesis using TimeArg assms by (simp add: value_wf_def enc_value_def enc_time_def)
qed

section \<open>The whole payload\<close>

definition arg_wf :: "Argument \<Rightarrow> bool" where
  "arg_wf a = (arg_name a \<noteq> [] \<and> utf8_valid (arg_name a) \<and> length (arg_name a) < 2 ^ 63 - 1 \<and> value_wf (arg_value a))"

definition args_wf :: "Argument list \<Rightarrow> bool" where
  "args_wf args = (list_all arg_wf args \<and> distinct (map arg_key args) \<and> length args \<le> MAX_MAP_PAIRS)"

definition enc_pair :: "Argument \<Rightarrow> byte list \<times> byte list" where
  "enc_pair a = (enc_text (arg_key a), enc_value (arg_value a))"

definition enc_arg :: "Argument \<Rightarrow> byte list" where
  "enc_arg a = enc_text (arg_key a) @ enc_value (arg_value a)"

lemma type_char_ascii: "type_char v < 0x80"
  by (cases v) (simp_all add: type_char_def)

lemma arg_key_utf8: "arg_wf a \<Longrightarrow> utf8_valid (arg_key a)"
  by (simp add: arg_key_def arg_wf_def utf8_valid_snoc_ascii type_char_ascii)

lemma length_arg_key: "arg_wf a \<Longrightarrow> length (arg_key a) < 2 ^ 63"
  by (simp add: arg_key_def arg_wf_def)

lemma enc_text_inj:
  assumes "length s < 2 ^ 64" "length t < 2 ^ 64" "enc_text s = enc_text t"
  shows "s = t"
proof -
  obtain ai bi where h: "head (enc_head 3 (length s)) 3 ai (length s)" "head (enc_head 3 (length t)) 3 bi (length t)"
    using enc_head_head[of 3 "length s"] enc_head_head[of 3 "length t"] assms(1,2) by auto
  have "get_head (enc_text s) = Inr ((3, ai, length s), s)" "get_head (enc_text t) = Inr ((3, bi, length t), t)"
    by (simp_all add: enc_text_def head_get[OF h(1)] head_get[OF h(2)])
  then show ?thesis unfolding assms(3) by simp
qed

lemma put_entry_fresh: "k \<notin> fst ` set es \<Longrightarrow> put_entry k v es = es @ [(k, v)]"
  by (induction es rule: put_entry.induct) auto

lemma marshal_pairs_distinct:
  assumes "distinct (map (fst \<circ> enc_pair) args)"
  shows "marshal_pairs args = map enc_pair args"
proof -
  have "fold (\<lambda>a ps. put_entry (enc_text (arg_key a)) (enc_value (arg_value a)) ps) args es = es @ map enc_pair args"
    if "distinct (map (fst \<circ> enc_pair) args)" "\<forall>a\<in>set args. fst (enc_pair a) \<notin> fst ` set es" for args es
    using that
  proof (induction args arbitrary: es)
    case (Cons a args)
    have "put_entry (enc_text (arg_key a)) (enc_value (arg_value a)) es = es @ [enc_pair a]"
      using Cons.prems(2) by (simp add: put_entry_fresh enc_pair_def)
    moreover have "\<forall>b\<in>set args. fst (enc_pair b) \<notin> fst ` set (es @ [enc_pair a])"
      using Cons.prems by (auto simp: image_iff)
    ultimately show ?case using Cons.IH[of "es @ [enc_pair a]"] Cons.prems by simp
  qed simp
  from this[OF assms, of "[]"] show ?thesis by (simp add: marshal_pairs_def)
qed

lemma wf_distinct_pairs: "args_wf args \<Longrightarrow> distinct (map (fst \<circ> enc_pair) args)"
proof -
  assume w: "args_wf args"
  have "inj_on enc_text (set (map arg_key args))"
  proof (rule inj_onI)
    fix x y assume "x \<in> set (map arg_key args)" "y \<in> set (map arg_key args)" "enc_text x = enc_text y"
    moreover from calculation have "length x < 2 ^ 63" "length y < 2 ^ 63"
      using w length_arg_key by (auto simp: args_wf_def list_all_iff)
    ultimately show "x = y" using enc_text_inj[of x y] by simp
  qed
  moreover have "map (fst \<circ> enc_pair) args = map enc_text (map arg_key args)" by (simp add: enc_pair_def)
  ultimately show ?thesis using w unfolding args_wf_def by (simp only: distinct_map)
qed

lemma insort_key_map: "insort_key f (g x) (map g xs) = map g (insort_key (\<lambda>x. f (g x)) x xs)"
  by (induction xs) simp_all

lemma sort_key_map: "sort_key f (map g xs) = map g (sort_key (\<lambda>x. f (g x)) xs)"
  by (induction xs) (simp_all add: insort_key_map)

text \<open>The arguments in the order of their encoded keys.\<close>

definition key_order :: "Argument list \<Rightarrow> Argument list" where
  "key_order args = sort_key (fst \<circ> enc_pair) args"

lemma marshal_binary_eq:
  "args_wf args \<Longrightarrow> marshal_binary args = enc_head 5 (length args) @ concat (map enc_arg (key_order args))"
  using marshal_pairs_distinct[OF wf_distinct_pairs, of args]
  by (simp add: marshal_binary_def sort_key_map key_order_def comp_def enc_pair_def enc_arg_def[abs_def])

lemma key_order_wf: "args_wf args \<Longrightarrow> args_wf (key_order args)"
proof -
  assume w: "args_wf args"
  have "mset (map arg_key (key_order args)) = mset (map arg_key args)" by (simp add: key_order_def mset_map)
  then have "distinct (map arg_key (key_order args))" using w by (metis args_wf_def mset_eq_imp_distinct_iff)
  then show ?thesis using w by (simp add: args_wf_def key_order_def list_all_iff)
qed


lemma parse_key_text:
  assumes "utf8_valid k" "length k < 2 ^ 63"
  shows "parse_key (Suc f) slot (enc_text k @ r) = Inr (Inr k, r)"
proof -
  obtain ai where h: "head (enc_head 3 (length k)) 3 ai (length k)" "ai \<le> 27"
    using enc_head_head[of 3 "length k"] assms by auto
  have "key_body f pk slot (enc_head 3 (length k) @ k @ r) = Inr (Inr k, r)" for pk
    using next_major_head[OF h(1)] head_get[OF h(1)] h(2) take_bytes_append[of k r] assms(1)
    by (simp add: key_body_def parse_text_string_def)
  then show ?thesis using strip_no_tag[OF h(1)] check_no_tag[OF h(1)] by (simp add: parse_key.simps enc_text_def)
qed

lemma parse_value_eq: "parse_value (Suc f) bs = parse (Suc f) True bs"
  by (simp add: parse_value_def parse.simps)

definition arg_entry :: "Argument \<Rightarrow> rstr \<times> cval" where
  "arg_entry a = (arg_key a, cval_of (arg_value a))"

lemma localmap_loop_args:
  "list_all arg_wf as \<Longrightarrow> distinct (map arg_key as) \<Longrightarrow> \<forall>a\<in>set as. arg_key a \<notin> fst ` set es \<Longrightarrow> length as < k
   \<Longrightarrow> localmap_loop k (Suc (Suc f)) True (length as) None slot es (concat (map enc_arg as) @ r)
     = Inr (Inr (es @ map arg_entry as), r)"
proof (induction as arbitrary: k slot es)
  case Nil
  then show ?case by (cases k) (auto simp: localmap_loop.simps loop_end_def or_err_def)
next
  case (Cons a as)
  obtain k' where k: "k = Suc k'" "length as < k'" using Cons.prems(4) by (cases k) auto
  let ?r = "concat (map enc_arg as) @ r"
  have a: "arg_wf a" "value_wf (arg_value a)" using Cons.prems(1) by (auto simp: arg_wf_def)
  have pk: "parse_key (Suc (Suc f)) slot (enc_text (arg_key a) @ enc_value (arg_value a) @ ?r) = Inr (Inr (arg_key a), enc_value (arg_value a) @ ?r)"
    by (rule parse_key_text[OF arg_key_utf8[OF a(1)] length_arg_key[OF a(1)]])
  have pv: "parse_value (Suc (Suc f)) (enc_value (arg_value a) @ ?r) = Inr (Inr (cval_of (arg_value a)), ?r)"
    unfolding parse_value_eq by (rule parse_enc_value[OF a(2)])
  have "put_entry (arg_key a) (cval_of (arg_value a)) es = es @ [arg_entry a]"
    using Cons.prems(3) by (simp add: put_entry_fresh arg_entry_def)
  then have "localmap_loop k (Suc (Suc f)) True (length (a # as)) None slot es (concat (map enc_arg (a # as)) @ r)
      = localmap_loop k' (Suc (Suc f)) True (length as) None (arg_key a) (es @ [arg_entry a]) ?r"
    using pk pv by (simp add: k localmap_loop.simps(2) loop_end_def enc_arg_def[of a])
  also have "\<dots> = Inr (Inr ((es @ [arg_entry a]) @ map arg_entry as), r)"
    using Cons.prems k(2) by (intro Cons.IH) (auto simp: arg_entry_def image_iff)
  finally show ?case by simp
qed

lemma valid_n_args:
  "list_all arg_wf as \<Longrightarrow> valid_n (valid_internal (Suc (Suc f)) d) (2 * length as) d (concat (map enc_arg as) @ r) = Inr (d, r)"
proof (induction as)
  case (Cons a as)
  let ?r = "concat (map enc_arg as) @ r"
  have a: "arg_wf a" "value_wf (arg_value a)" using Cons.prems by (auto simp: arg_wf_def)
  have "valid_internal (Suc (Suc f)) d (enc_text (arg_key a) @ enc_value (arg_value a) @ ?r) = Inr (d, enc_value (arg_value a) @ ?r)"
    using valid_string[OF length_arg_key[OF a(1)], of 3 "Suc f" d "enc_value (arg_value a) @ ?r"] by (simp add: enc_text_def)
  then show ?case using valid_enc_value[OF a(2), of f d ?r] Cons by (simp add: enc_arg_def[of a])
qed simp

lemma length_enc_arg: "2 \<le> length (enc_arg a)"
proof -
  have "length (arg_key a) \<ge> 1" by (simp add: arg_key_def)
  moreover have "1 \<le> length (enc_head 3 (length (arg_key a)))" by (simp add: enc_head_def Let_def)
  ultimately show ?thesis unfolding enc_arg_def enc_text_def length_append by linarith
qed

lemma unmarshal_localmap_args:
  assumes w: "args_wf as"
  shows "cbor_unmarshal_localmap (enc_head 5 (length as) @ concat (map enc_arg as)) = Inr (map arg_entry as)"
proof -
  have l: "length as \<le> 131072" using w by (simp add: args_wf_def MAX_MAP_PAIRS_def)
  then obtain ai where h: "head (enc_head 5 (length as)) 5 ai (length as)" "ai \<le> 27"
    using enc_head_head[of 5 "length as"] by auto
  let ?b = "concat (map enc_arg as)" and ?d = "enc_head 5 (length as) @ concat (map enc_arg as)"
  have ne: "?d \<noteq> []" using head_nonempty[OF h(1)] by auto
  have f: "as = [] \<or> (\<exists>f. length ?d = Suc (Suc f))"
  proof (cases as)
    case (Cons a as')
    have "2 \<le> length ?d" using length_enc_arg[of a] by (simp add: Cons)
    then show ?thesis by (auto simp: le_iff_add)
  qed simp
  have v: "valid_internal (Suc (length ?d)) 0 ?d = Inr (1, [])"
    using valid_head_body[OF h(1), of "length ?d" 0 ?b] h(2) l f valid_n_args[of as _ 1 "[]"] w
    by (auto simp: valid_body_def MAX_NESTED_LEVELS_def MAX_MAP_PAIRS_def I64_MAX_def args_wf_def)
  have lm: "localmap_loop (Suc (length as + length ?b)) (length ?d) True (length as) None [] [] ?b = Inr (Inr (map arg_entry as), [])"
    using f
  proof
    assume "as = []"
    then show ?thesis by (simp add: localmap_loop.simps loop_end_def or_err_def)
  next
    assume "\<exists>f. length ?d = Suc (Suc f)"
    then obtain f where "length ?d = Suc (Suc f)" by blast
    then show ?thesis using localmap_loop_args[of as "[]" "Suc (length as + length ?b)" f "[]" "[]"] w
      by (simp add: args_wf_def)
  qed
  have "top_body (length ?d) pt ?d = Inr (Inr (map arg_entry as), [])" for pt
    using next_major_head[OF h(1), of ?b] head_get[OF h(1), of ?b] h(2) lm
    by (simp add: top_body_def parse_map_to_localmap_def)
  then have t: "parse_top_to_map (Suc (length ?d)) ?d = Inr (Inr (map arg_entry as), [])"
    using strip_no_tag[OF h(1), of ?b] check_no_tag[OF h(1), of "length ?d" ?b] by (simp add: parse_top_to_map.simps)
  show ?thesis unfolding cbor_unmarshal_localmap_def v t using ne by simp
qed


section \<open>Decoding an encoded payload\<close>

definition norm_arg :: "Argument \<Rightarrow> Argument" where
  "norm_arg a = a\<lparr>arg_value := norm_value (arg_value a)\<rparr>"

lemma decode_entry_arg:
  assumes "arg_wf a"
  shows "decode_entry (arg_entry a) = Inr (norm_arg a)"
proof -
  have n: "arg_name a \<noteq> []" "utf8_valid (arg_name a)" "value_wf (arg_value a)" using assms by (simp_all add: arg_wf_def)
  have "decode_value k (type_char v) (cval_of v) = Inr (norm_value v)" if "value_wf v" for k v
    using that by (cases v) (auto simp: decode_value_def type_char_def cval_of_def cval_of_int_def norm_value_def value_wf_def pad_to_def)
  then have "decode_value (arg_key a) (last (arg_key a)) (cval_of (arg_value a)) = Inr (norm_value (arg_value a))"
    using n(3) by (simp add: arg_key_def)
  then show ?thesis using n
    by (simp add: decode_entry_def arg_entry_def norm_arg_def) (simp add: arg_key_def)
qed

lemma decode_entries_args: "list_all arg_wf as \<Longrightarrow> decode_entries (map arg_entry as) = Inr (map norm_arg as)"
  by (induction as) (simp_all add: decode_entry_arg)

lemma args_unmarshal_marshal:
  assumes "args_wf args"
  shows "unmarshal_binary_exact (marshal_binary args) = Inr (sort_key arg_name (map norm_arg (key_order args)))"
proof -
  have w: "args_wf (key_order args)" by (rule key_order_wf[OF assms])
  have "length (key_order args) = length args" by (simp add: key_order_def)
  then have "marshal_binary args = enc_head 5 (length (key_order args)) @ concat (map enc_arg (key_order args))"
    using marshal_binary_eq[OF assms] by simp
  then show ?thesis
    using unmarshal_localmap_args[OF w] decode_entries_args[of "key_order args"] w
    by (simp add: unmarshal_binary_exact_def args_wf_def)
qed

subsection \<open>Canonical form\<close>

lemma enc_float_canon: "enc_float (canon_float f) = enc_float f"
proof -
  have "is_nan 0x7ff8000000000000" by (simp add: is_nan_def exp64_def man64_def)
  then show ?thesis by (simp add: canon_float_def enc_float_def)
qed

lemma norm_arg_facts:
  "arg_name (norm_arg a) = arg_name a" "arg_key (norm_arg a) = arg_key a" "enc_pair (norm_arg a) = enc_pair a"
  "arg_wf (norm_arg a) = arg_wf a"
proof -
  have "type_char (norm_value v) = type_char v" "enc_value (norm_value v) = enc_value v" "value_wf (norm_value v) = value_wf v" for v
    by (cases v; simp add: norm_value_def type_char_def enc_value_def enc_float_canon value_wf_def)+
  then show "arg_name (norm_arg a) = arg_name a" "arg_key (norm_arg a) = arg_key a" "enc_pair (norm_arg a) = enc_pair a"
    "arg_wf (norm_arg a) = arg_wf a"
    by (simp_all add: norm_arg_def arg_key_def enc_pair_def arg_wf_def)
qed

text \<open>The encoding depends only on the set of encoded pairs.\<close>

lemma marshal_set:
  assumes "args_wf as" "args_wf bs" "enc_pair ` set as = enc_pair ` set bs"
  shows "marshal_binary as = marshal_binary bs"
proof -
  define ps qs where "ps = sort_key fst (map enc_pair as)" and "qs = sort_key fst (map enc_pair bs)"
  note d = wf_distinct_pairs[OF assms(1)] wf_distinct_pairs[OF assms(2)]
  have s: "set ps = set qs" using assms(3) by (simp add: ps_def qs_def)
  have dp: "distinct (map fst ps)" "distinct (map fst qs)"
  proof -
    have "mset (map fst ps) = mset (map (fst \<circ> enc_pair) as)" "mset (map fst qs) = mset (map (fst \<circ> enc_pair) bs)"
      by (simp_all add: ps_def qs_def multiset.map_comp)
    then show "distinct (map fst ps)" "distinct (map fst qs)" using d by (metis mset_eq_imp_distinct_iff)+
  qed
  have "inj_on fst (set ps \<union> set qs)" using dp(1) s by (simp add: distinct_map)
  then have "ps = qs"
    by (rule map_sorted_distinct_set_unique) (use s dp in \<open>simp_all add: ps_def qs_def\<close>)
  then show ?thesis
    using marshal_pairs_distinct[OF d(1)] marshal_pairs_distinct[OF d(2)]
    by (simp add: marshal_binary_def ps_def qs_def)
qed

text \<open>Decoding and encoding again, as \<open>Transaction::deserialize\<close> does with the payload.\<close>

definition recanonicalize :: "byte list \<Rightarrow> byte list option" where
  "recanonicalize raw = (case unmarshal_binary_exact raw of Inl _ \<Rightarrow> None | Inr args \<Rightarrow> Some (marshal_binary args))"

lemma recanonicalize_marshal:
  assumes "args_wf args"
  shows "recanonicalize (marshal_binary args) = Some (marshal_binary args)"
proof -
  define bs where "bs = sort_key arg_name (map norm_arg (key_order args))"
  have u: "unmarshal_binary_exact (marshal_binary args) = Inr bs"
    using args_unmarshal_marshal[OF assms] by (simp add: bs_def)
  have "map arg_key (map norm_arg (key_order args)) = map arg_key (key_order args)" by (simp add: norm_arg_facts)
  then have "mset (map arg_key bs) = mset (map arg_key args)" 
    by (simp add: bs_def key_order_def norm_arg_facts multiset.map_comp comp_def)
  then have "distinct (map arg_key bs)" using assms by (metis args_wf_def mset_eq_imp_distinct_iff)
  moreover have "set bs = norm_arg ` set args" "length bs = length args" by (simp_all add: bs_def key_order_def)
  ultimately have "args_wf bs" using assms by (auto simp: args_wf_def list_all_iff norm_arg_facts)
  moreover have "enc_pair ` set bs = enc_pair ` set args"
    using \<open>set bs = norm_arg ` set args\<close> by (simp add: image_image norm_arg_facts)
  ultimately show ?thesis using marshal_set[OF _ assms, of bs] u by (simp add: recanonicalize_def)
qed


section \<open>Addresses\<close>

text \<open>The choice of the root by the flag: flag 0 asks for the smaller root, flag 1 for the larger.\<close>

lemma choose_root_stable:
  "y < p \<Longrightarrow> c = choose_root flag y (p - y) \<Longrightarrow> c < p \<Longrightarrow> choose_root (if c < p - c then 0 else 1) y (p - y) = c"
  by (auto simp: choose_root_def)

lemma recompress_stable:
  assumes "recompress xb flag = Inr a" "a \<noteq> replicate 33 0"
  shows "\<exists>fl. a = xb @ [fl] \<and> recompress xb fl = Inr a"
proof -
  define p x beta where "p = field_prime" and "x = be_val xb" and "beta = (x * x * x + 3) mod p"
  define y where "y = modpow beta ((p + 1) div 4) p"
  have r: "recompress xb fl = (if (y * y) mod p \<noteq> beta then Inl (lit ''bn256: Cannot decompress'')
      else if x \<ge> p \<or> choose_root fl y (p - y) \<ge> p then Inr (replicate 33 0)
      else Inr (xb @ [if choose_root fl y (p - y) < p - choose_root fl y (p - y) then 0 else 1]))" for fl
    unfolding recompress_def Let_def p_def[symmetric] x_def[symmetric] beta_def[symmetric] y_def[symmetric] by (rule refl)
  have y: "y < p" using field_prime_bounds(1) unfolding y_def modpow_def p_def by simp
  define c where "c = choose_root flag y (p - y)"
  define fl :: byte where "fl = (if c < p - c then 0 else 1)"
  have c: "(y * y) mod p = beta" "x < p" "c < p" "a = xb @ [fl]"
    using assms unfolding r[of flag] c_def[symmetric] fl_def by (auto split: if_splits)
  have "choose_root fl y (p - y) = c" unfolding fl_def by (rule choose_root_stable[OF y c_def c(3)])
  then have "recompress xb fl = Inr a" using c unfolding r[of fl] by (simp add: fl_def)
  then show ?thesis using c(4) by blast
qed

lemma decode_address_go_stable:
  assumes "decode_address_go b = Inr a" "a \<noteq> replicate 33 0"
  shows "length a = 33 \<and> decode_address_go a = Inr a"
proof -
  obtain fl where a: "a = take 32 (pad_to 33 b) @ [fl]" "recompress (take 32 (pad_to 33 b)) fl = Inr a"
    using recompress_stable assms unfolding decode_address_go_def Let_def by blast
  have "length (take 32 (pad_to 33 b)) = 32" by (simp add: pad_to_def)
  then have "pad_to 33 a = a" "take 32 a = take 32 (pad_to 33 b)" "a ! 32 = fl" "length a = 33"
    unfolding a(1) by (simp_all add: pad_to_def[of 33 "_ @ _"] nth_append)
  then show ?thesis using a(2) unfolding decode_address_go_def Let_def by simp
qed

section \<open>No panic\<close>

lemma decode_entry_safe:
  assumes "utf8_valid k" "decode_entry (k, v) = Inl s"
  shows "\<exists>e. s = Err e"
proof (cases "length k < 2")
  case False
  have "utf8_valid (butlast k)" if "decode_value k (last k) v = Inr x" for x
  proof -
    have "last k \<in> {0x49, 0x55, 0x46, 0x48, 0x41, 0x53, 0x54}"
      using that by (auto simp: decode_value_def split: if_splits)
    then have "last k < 0x80" by auto
    then show ?thesis using assms(1) False append_butlast_last_id[of k] utf8_valid_snoc_ascii[of "last k" "butlast k"] by fastforce
  qed
  then show ?thesis using assms(2) False
    by (cases "decode_value k (last k) v") (auto simp: decode_entry_def split: if_splits)
qed (use assms in \<open>simp add: decode_entry_def; blast\<close>)

lemma decode_entries_safe:
  "\<forall>(k, v)\<in>set es. utf8_valid k \<Longrightarrow> decode_entries es = Inl s \<Longrightarrow> \<exists>e. s = Err e"
proof (induction es)
  case (Cons x es)
  obtain k v where x: "x = (k, v)" by (cases x)
  from Cons.prems(2) consider "decode_entry (k, v) = Inl s" | "decode_entries es = Inl s"
    by (auto simp: rbind_eq_Inl x)
  then show ?case using Cons decode_entry_safe[of k v s] by cases (auto simp: x)
qed simp

lemma unmarshal_exact_cases:
  "(\<exists>e. unmarshal_binary_exact data = Inl (Err e))
   \<or> (\<exists>args. unmarshal_binary_exact data = Inr args \<and> sorted (map arg_name args))"
proof -
  consider e where "cbor_unmarshal_localmap data = Inl (Err e)"
    | es where "cbor_unmarshal_localmap data = Inr es" "\<forall>(k, v)\<in>set es. utf8_valid k"
    using cbor_localmap_cases[of data] unfolding entries_ok_def by fast
  then show ?thesis
  proof cases
    case 2
    then show ?thesis using decode_entries_safe[OF 2(2)]
      by (cases "decode_entries es") (auto simp: unmarshal_binary_exact_def)
  qed (simp add: unmarshal_binary_exact_def)
qed

lemma unmarshal_binary_cases:
  "(\<exists>e. unmarshal_binary data = Inl (Err e)) \<or> (\<exists>args. unmarshal_binary data = Inr args)"
  using unmarshal_exact_cases[of data] by (auto simp: unmarshal_binary_def)

text \<open>C29: Decoding an argument payload is total: every byte string gives an error text or a list of
  arguments sorted by name, and no input makes the decoder panic (string slicing at the last byte of a
  key included).\<close>

theorem unmarshal_binary_exact_total:
  "(\<exists>e. unmarshal_binary_exact data = Inl (Err e))
   \<or> (\<exists>args. unmarshal_binary_exact data = Inr args \<and> sorted (map arg_name args))"
  by (rule unmarshal_exact_cases)

section \<open>Properties\<close>

text \<open>C30: Decoding inverts encoding. For a list of well-formed arguments with distinct typed keys, the canonical
  payload decodes to the same arguments (as a multiset, a NaN becoming the quiet NaN), sorted by name. Well-formed
  means: non-empty UTF-8 names, UTF-8 strings, 32-byte hashes, addresses that are canonical points, and times
  other than Go's zero time.\<close>

theorem unmarshal_inverts_marshal:
  assumes "args_wf args"
  shows "\<exists>out. unmarshal_binary_exact (marshal_binary args) = Inr out \<and> mset out = mset (map norm_arg args)
    \<and> sorted (map arg_name out)"
  using args_unmarshal_marshal[OF assms] by (simp add: key_order_def)

definition demo_args :: "Argument list" where
  "demo_args = [\<lparr>arg_name = [0x62], arg_value = Str [0x78]\<rparr>, \<lparr>arg_name = [0x61, 0x61], arg_value = Uint64 500\<rparr>,
     \<lparr>arg_name = [0x61], arg_value = Int64 (- 3)\<rparr>, \<lparr>arg_name = [0x61], arg_value = TimeArg 7\<rparr>]"

lemma demo_args_wf: "args_wf demo_args"
  by (simp add: args_wf_def demo_args_def arg_wf_def value_wf_def utf8_step_def utf8_tail_def arg_key_def type_char_def
      MAX_MAP_PAIRS_def GO_ZERO_TIME_UNIX_def)

theorem unmarshal_inverts_marshal_witness:
  "args_wf demo_args \<and> (\<exists>out. unmarshal_binary_exact (marshal_binary demo_args) = Inr out \<and> mset out = mset demo_args)"
proof -
  have "map norm_arg demo_args = demo_args" by (simp add: demo_args_def norm_arg_def norm_value_def)
  then show ?thesis using unmarshal_inverts_marshal[OF demo_args_wf] demo_args_wf by auto
qed

text \<open>C31: The encoding of well-formed arguments is canonical. For a list of arguments with distinct typed keys (two arguments with one key do
  depend on the order: the last wins), no Go zero time (which encodes to a null that no longer decodes) and otherwise well-formed names, strings,
  hashes and addresses, the payload does not depend on the order of the arguments, and what \<open>Transaction::deserialize\<close> does with a payload,
  decoding it and encoding the result, is the identity on the encoded payload: the bytes (and so the transaction id computed over them) are
  unchanged.\<close>

theorem marshal_binary_canonical:
  assumes "args_wf as" "mset bs = mset as"
  shows "marshal_binary bs = marshal_binary as \<and> recanonicalize (marshal_binary bs) = Some (marshal_binary bs)"
proof -
  have "set bs = set as" "length bs = length as" using assms(2) by (metis mset_eq_setD, metis mset_eq_length)
  moreover have "distinct (map arg_key bs)"
    using assms by (metis args_wf_def mset_eq_imp_distinct_iff mset_map)
  ultimately have "args_wf bs" using assms(1) by (simp add: args_wf_def list_all_iff)
  then show ?thesis using marshal_set[OF \<open>args_wf bs\<close> assms(1)] recanonicalize_marshal[OF \<open>args_wf bs\<close>] \<open>set bs = set as\<close> by simp
qed

theorem marshal_binary_canonical_witness:
  "marshal_binary (rev demo_args) = marshal_binary demo_args
   \<and> recanonicalize (marshal_binary (rev demo_args)) = Some (marshal_binary (rev demo_args))"
  by (rule marshal_binary_canonical[OF demo_args_wf]) simp

end
