(* ===== verification/Address.thy ===== *)
theory Address
  imports Bech32 Arguments
begin

text \<open>
  Addresses (\<open>block/src/address.rs\<close>): version, compressed public key and service arguments, as bech32 text. Text is its bytes. The
  arguments and their binary codec are those of \<open>Arguments\<close>.
\<close>

section \<open>Model\<close>

definition ADDRESS_VERSION :: i64 where "ADDRESS_VERSION = 1"

datatype address_error = AddrBech32 bech32_error | AddrHrp "byte list" | AddrVersion i64 | AddrLength nat | AddrPoint g1_error | AddrArguments rstr

text \<open>An error value, a panic, or a loop that does not end.\<close>

datatype address_failure = AddrErr address_error | AddrPanic | AddrDiverges

record address =
  mainnet :: bool
  proof_flag :: bool
  public_key :: g1
  arguments :: "Argument list"

definition hrp_dero :: "byte list" where "hrp_dero = [0x64, 0x65, 0x72, 0x6f]"
definition hrp_deto :: "byte list" where "hrp_deto = [0x64, 0x65, 0x74, 0x6f]"
definition hrp_proof :: "byte list" where "hrp_proof = [0x64, 0x65, 0x72, 0x6f, 0x70, 0x72, 0x6f, 0x6f, 0x66]"
definition letter_i :: byte where "letter_i = 0x69"

definition from_public_key :: "g1 \<Rightarrow> address" where
  "from_public_key pk = \<lparr>mainnet = True, proof_flag = False, public_key = pk, arguments = []\<rparr>"

definition run_convert :: "(i64 list, bech32_error) result option \<Rightarrow> (i64 list, address_failure) result" where
  "run_convert r = (case r of None \<Rightarrow> Inl AddrDiverges | Some x \<Rightarrow> map_err (AddrErr \<circ> AddrBech32) x)"

definition addr_hrp :: "address \<Rightarrow> byte list" where
  "addr_hrp a =
    (let hrp = (if mainnet a then hrp_dero else hrp_deto);
       hrp = (if arguments a \<noteq> [] then hrp @ [letter_i] else hrp)
     in if proof_flag a then hrp_proof else hrp)"

definition addr_to_string :: "address \<Rightarrow> (byte list, address_failure) result" where
  "addr_to_string a =
    (let data_bytes = [ADDRESS_VERSION] @ map ucast (compress (public_key a));
       data_bytes = (if arguments a \<noteq> [] then data_bytes @ map ucast (marshal_binary (arguments a)) else data_bytes)
     in rbind (run_convert (convertbits data_bytes 8 5 True)) (\<lambda>data_ints.
       map_err (AddrErr \<circ> AddrBech32) (encode (addr_hrp a) data_ints)))"

definition prefixes :: "byte list list" where
  "prefixes = [hrp_dero, hrp_dero @ [letter_i], hrp_deto, hrp_deto @ [letter_i], hrp_proof]"

text \<open>\<open>map_err(AddressError::Arguments)\<close>; a panic of the argument decoder (which has none) would be one here.\<close>

definition args_failure :: "stop \<Rightarrow> address_failure" where
  "args_failure s = (case s of Err e \<Rightarrow> AddrErr (AddrArguments e) | CPanic \<Rightarrow> AddrPanic | NoFuel \<Rightarrow> AddrDiverges)"

text \<open>The argument tail, after the 33 bytes of the key.\<close>

definition read_arguments :: "byte list \<Rightarrow> byte list \<Rightarrow> (Argument list, address_failure) result" where
  "read_arguments hrp resbytes =
    (if length resbytes = 33 \<and> (hrp = hrp_dero \<or> hrp = hrp_deto) then Inr []
     else if hrp = hrp_dero @ [letter_i] \<or> hrp = hrp_deto @ [letter_i] \<or> hrp = hrp_proof
       then map_err args_failure (unmarshal_binary (drop 33 resbytes))
     else Inl (AddrErr (AddrLength (length resbytes))))"

definition read_payload :: "byte list \<Rightarrow> i64 list \<Rightarrow> (address, address_failure) result" where
  "read_payload hrp res =
    (case res of
       [] \<Rightarrow> Inl AddrPanic
     | r0 # res \<Rightarrow>
       if r0 \<noteq> ADDRESS_VERSION then Inl (AddrErr (AddrVersion r0))
       else let resbytes = map ucast res :: byte list
         in if length resbytes < 33 then Inl (AddrErr (AddrLength (length resbytes)))
            else rbind (map_err (AddrErr \<circ> AddrPoint) (decompress (take 33 resbytes))) (\<lambda>pk.
              rbind (read_arguments hrp resbytes) (\<lambda>args.
              Inr \<lparr>mainnet = (\<not> (hrp = hrp_deto \<or> hrp = hrp_deto @ [letter_i])), proof_flag = (hrp = hrp_proof), public_key = pk, arguments = args\<rparr>)))"

definition addr_from_string :: "unicode_case \<Rightarrow> byte list \<Rightarrow> (address, address_failure) result" where
  "addr_from_string U s =
    rbind (map_err (AddrErr \<circ> AddrBech32) (decode U s)) (\<lambda>(hrp, data).
    if hrp \<notin> set prefixes then Inl (AddrErr (AddrHrp hrp))
    else if data = [] then Inl (AddrErr (AddrLength 0))
    else rbind (run_convert (convertbits data 5 8 False)) (read_payload hrp))"

definition base_address :: "address \<Rightarrow> address" where
  "base_address a = a\<lparr>arguments := []\<rparr>"

definition is_integrated :: "address \<Rightarrow> bool" where
  "is_integrated a \<longleftrightarrow> arguments a \<noteq> []"

definition compressed :: "address \<Rightarrow> byte list" where
  "compressed a = compress (public_key a)"

section \<open>The prefixes\<close>

lemma prefix_shape:
  assumes "hrp \<in> set prefixes"
  shows "hrp \<noteq> [] \<and> \<not> list_ex bad_hrp_char hrp \<and> to_lowercase hrp = hrp"
  using assms unfolding prefixes_def
  by (auto simp: hrp_dero_def hrp_deto_def hrp_proof_def letter_i_def bad_hrp_char_def to_lowercase_def lower_char_def)

lemma addr_hrp_prefix: "addr_hrp a \<in> set prefixes"
  by (auto simp: addr_hrp_def prefixes_def Let_def)

lemma encode_prefix:
  assumes "hrp \<in> set prefixes" "symbols_ok data"
  shows "\<exists>s. encode hrp data = Inr s \<and> (\<forall>U. decode U s = Inr (hrp, data))"
proof -
  note p = prefix_shape[OF assms(1)]
  have "push_symbols 0 (data @ create_checksum hrp data) = Inr (chars (data @ create_checksum hrp data))"
    using assms(2) create_checksum_ok by (intro push_symbols_ok) simp
  then obtain s where s: "encode hrp data = Inr s" using p by (simp add: encode_def Let_def)
  then show ?thesis using decode_encode_text[OF s] p by simp
qed

lemma ucast_byte [simp]: "ucast (ucast (b :: byte) :: i64) = b" "unat (ucast b :: i64) = unat b"
proof -
  show u: "unat (ucast b :: i64) = unat b" unfolding unat_ucast by (rule mod_less, rule less_trans[OF unat_byte_less]) simp
  show "ucast (ucast b :: i64) = b" using u by (simp add: word_unat_eq_iff unat_ucast)
qed

lemma map_ucast_back [simp]: "map ucast (map ucast bs :: i64 list) = (bs :: byte list)"
  by (induction bs) simp_all


section \<open>Reading back\<close>

definition addr_bytes :: "address \<Rightarrow> byte list" where
  "addr_bytes a = 1 # compress (public_key a) @ (if arguments a \<noteq> [] then marshal_binary (arguments a) else [])"

lemma addr_to_string_text:
  "\<exists>data s. addr_to_string a = Inr s \<and> (\<forall>U. decode U s = Inr (addr_hrp a, data)) \<and> data \<noteq> []
    \<and> convertbits data 5 8 False = Some (Inr (map ucast (addr_bytes a)))"
proof -
  let ?b = "map ucast (addr_bytes a) :: i64 list"
  have "\<forall>v\<in>set ?b. unat v < 256" by auto
  from bytes_back[OF this] obtain five where f: "convertbits ?b 8 5 True = Some (Inr five)" "symbols_ok five" "convertbits five 5 8 False = Some (Inr ?b)"
    by blast
  obtain s where s: "encode (addr_hrp a) five = Inr s" "\<forall>U. decode U s = Inr (addr_hrp a, five)" using encode_prefix[OF addr_hrp_prefix f(2)] by blast
  have b: "?b = [ADDRESS_VERSION] @ map ucast (compress (public_key a)) @ (if arguments a \<noteq> [] then map ucast (marshal_binary (arguments a)) else [])"
    by (simp add: addr_bytes_def ADDRESS_VERSION_def)
  have t: "addr_to_string a = Inr s"
    using f(1) s(1) unfolding addr_to_string_def Let_def b by (auto simp: run_convert_def)
  have "five \<noteq> []" using f(3) by (auto simp: convertbits_def addr_bytes_def Let_def split: if_splits)
  then show ?thesis using t s(2) f(3) by blast
qed

text \<open>What an address needs to be read back: a finite affine key on the curve (as every decoded key is) whose
  ordinate satisfies Euler's criterion (true of every element, the modulus being prime), well-formed arguments
  with distinct typed keys, and, for a proof address, the main network and at least one argument.\<close>

definition addr_ok :: "address \<Rightarrow> bool" where
  "addr_ok a \<longleftrightarrow> decoded (public_key a) \<and> public_key a \<noteq> infinity \<and> euler_ok (nat (fv (cy (public_key a))))
    \<and> args_wf (arguments a) \<and> (proof_flag a \<longrightarrow> mainnet a \<and> arguments a \<noteq> [])"

text \<open>The order in which the arguments are read back.\<close>

definition read_order :: "Argument list \<Rightarrow> Argument list" where
  "read_order args = sort_key arg_name (map norm_arg (key_order args))"

lemma read_order_facts:
  "mset (read_order args) = mset (map norm_arg args)" "sorted (map arg_name (read_order args))" "read_order args = [] \<longleftrightarrow> args = []"
proof -
  show m: "mset (read_order args) = mset (map norm_arg args)" by (simp add: read_order_def key_order_def)
  show "sorted (map arg_name (read_order args))" by (simp add: read_order_def)
  show "read_order args = [] \<longleftrightarrow> args = []" using arg_cong[OF m, of size] by (auto simp flip: length_greater_0_conv)
qed

lemma args_read_back:
  assumes "args_wf args"
  shows "unmarshal_binary (marshal_binary args) = Inr (read_order args)" "marshal_binary (read_order args) = marshal_binary args"
proof -
  have u: "unmarshal_binary_exact (marshal_binary args) = Inr (read_order args)"
    unfolding read_order_def by (rule args_unmarshal_marshal[OF assms])
  then show "unmarshal_binary (marshal_binary args) = Inr (read_order args)" by (simp add: unmarshal_binary_def)
  show "marshal_binary (read_order args) = marshal_binary args"
    using recanonicalize_marshal[OF assms] u by (simp add: recanonicalize_def)
qed

lemma prefixes_differ:
  "hrp_dero \<noteq> hrp_deto" "hrp_dero \<noteq> hrp_proof" "hrp_deto \<noteq> hrp_proof" "hrp_dero @ [letter_i] \<noteq> hrp_deto" "hrp_deto @ [letter_i] \<noteq> hrp_dero"
  "hrp_dero @ [letter_i] \<noteq> hrp_proof" "hrp_deto @ [letter_i] \<noteq> hrp_proof" "hrp_dero @ [letter_i] \<noteq> hrp_deto @ [letter_i]"
  by (simp_all add: hrp_dero_def hrp_deto_def hrp_proof_def letter_i_def)

lemma addr_read_back:
  assumes a: "addr_ok a"
    and d: "decode U s = Inr (addr_hrp a, data)" "data \<noteq> []" "convertbits data 5 8 False = Some (Inr (map ucast (addr_bytes a)))"
  shows "addr_from_string U s = Inr (a\<lparr>arguments := read_order (arguments a)\<rparr>)"
proof -
  have p: "decompress (compress (public_key a)) = Inr (public_key a)" "proof_flag a \<Longrightarrow> mainnet a \<and> arguments a \<noteq> []"
    "args_wf (arguments a)" using a by (simp_all add: addr_ok_def decompress_compress)
  have l: "length (compress (public_key a)) = 33" using decompress_safe p(1) by blast
  have m: "mainnet a \<longleftrightarrow> \<not> (addr_hrp a = hrp_deto \<or> addr_hrp a = hrp_deto @ [letter_i])" "proof_flag a \<longleftrightarrow> addr_hrp a = hrp_proof"
    using p(2) prefixes_differ by (auto simp: addr_hrp_def Let_def)
  obtain bs where b: "addr_bytes a = 1 # bs" "take 33 bs = compress (public_key a)" "33 \<le> length bs"
    "bs = compress (public_key a) @ (if arguments a \<noteq> [] then marshal_binary (arguments a) else [])" using l by (auto simp: addr_bytes_def)
  have args: "read_arguments (addr_hrp a) bs = Inr (read_order (arguments a))"
  proof (cases "arguments a = []")
    case True
    then show ?thesis using p(2) l by (auto simp: b(4) addr_hrp_def read_arguments_def read_order_facts(3)[THEN iffD2])
  next
    case False
    then show ?thesis using args_read_back(1)[OF p(3)] l prefixes_differ by (auto simp: b(4) addr_hrp_def Let_def read_arguments_def)
  qed
  have "read_payload (addr_hrp a) (1 # map ucast bs) = Inr (a\<lparr>arguments := read_order (arguments a)\<rparr>)"
    unfolding read_payload_def list.case Let_def map_ucast_back using b(2,3) p(1) args m by (simp add: ADDRESS_VERSION_def)
  then show ?thesis using addr_hrp_prefix[of a] d(2) by (simp add: addr_from_string_def d(1,3) b(1) run_convert_def)
qed

text \<open>The groups of a decoded text give at least one byte, so its first byte is always there.\<close>

lemma convert_nonempty:
  assumes "symbols_ok data" "data \<noteq> []"
  shows "\<exists>x. convertbits data 5 8 False = Some x \<and> x \<noteq> Inr []"
proof -
  obtain out rest where o: "all_bits 8 out @ rest = all_bits 5 data" "length rest < 8"
    "convertbits data 5 8 False = Some (if length rest \<ge> 5 then Inl IllegalZeroPadding
      else if rest \<noteq> replicate (length rest) False then Inl NonZeroPadding else Inr out)"
    using convertbits_nopad[of 8 5 data] assms(1) by (auto simp: symbols_ok_small)
  have "length out * 8 + length rest = length data * 5" using arg_cong[OF o(1), of length] by simp
  moreover have "1 \<le> length data" using assms(2) by (simp add: Suc_le_eq)
  ultimately have "out = [] \<Longrightarrow> 5 \<le> length rest" by simp
  then show ?thesis using o(3) by auto
qed

lemma map_err_no_panic [simp]: "map_err (AddrErr \<circ> f) y \<noteq> Inl AddrPanic" "map_err (AddrErr \<circ> f) y \<noteq> Inl AddrDiverges"
  by (cases y; simp)+

lemma rbind_neq_Inl: "x \<noteq> Inl e \<Longrightarrow> (\<And>v. x = Inr v \<Longrightarrow> f v \<noteq> Inl e) \<Longrightarrow> rbind x f \<noteq> Inl e"
  by (simp add: rbind_eq_Inl)

lemma read_payload_no_panic:
  assumes "res \<noteq> []" "e = AddrPanic \<or> e = AddrDiverges"
  shows "read_payload hrp res \<noteq> Inl e"
proof -
  have "map_err args_failure (unmarshal_binary data) \<noteq> Inl e" for data
    using unmarshal_binary_cases[of data] assms(2) by (auto simp: args_failure_def)
  then have "read_arguments hrp bs \<noteq> Inl e" for bs using assms(2) by (auto simp: read_arguments_def)
  then show ?thesis using assms
    by (cases res) (auto simp: read_payload_def Let_def rbind_eq_Inl)
qed

lemma addr_from_string_no_panic:
  assumes "e = AddrPanic \<or> e = AddrDiverges"
  shows "addr_from_string U s \<noteq> Inl e"
  unfolding addr_from_string_def
proof (rule rbind_neq_Inl)
  show "map_err (AddrErr \<circ> AddrBech32) (decode U s) \<noteq> Inl e" using assms by auto
  fix p assume p: "map_err (AddrErr \<circ> AddrBech32) (decode U s) = Inr p"
  obtain hrp data where hd: "p = (hrp, data)" by fastforce
  show "(case p of (hrp, data) \<Rightarrow> if hrp \<notin> set prefixes then Inl (AddrErr (AddrHrp hrp)) else if data = [] then Inl (AddrErr (AddrLength 0))
    else rbind (run_convert (convertbits data 5 8 False)) (read_payload hrp)) \<noteq> Inl e"
  proof (cases "data = []")
    case False
    obtain x where x: "convertbits data 5 8 False = Some x" "x \<noteq> Inr []"
      using convert_nonempty[OF decode_symbols[of U s hrp data] False] p hd by auto
    have "rbind (run_convert (convertbits data 5 8 False)) (read_payload hrp) \<noteq> Inl e"
    proof (rule rbind_neq_Inl)
      show "run_convert (convertbits data 5 8 False) \<noteq> Inl e" using assms x(1) by (auto simp: run_convert_def)
      fix v assume "run_convert (convertbits data 5 8 False) = Inr v"
      then have "v \<noteq> []" using x by (auto simp: run_convert_def)
      then show "read_payload hrp v \<noteq> Inl e" by (rule read_payload_no_panic[OF _ assms])
    qed
    then show ?thesis using hd assms by auto
  qed (use hd assms in auto)
qed

lemma read_payload_Inr:
  assumes "read_payload hrp res = Inr a"
  shows "(\<exists>bs. decompress bs = Inr (public_key a)) \<and> (proof_flag a \<longrightarrow> mainnet a)"
  using assms prefixes_differ by (auto simp: read_payload_def Let_def split: list.splits if_splits)

section \<open>Properties of addresses\<close>

definition sample_address :: address where
  "sample_address = \<lparr>mainnet = False, proof_flag = False, public_key = unit_y_point,
     arguments = [\<lparr>arg_name = [0x44], arg_value = Uint64 500\<rparr>, \<lparr>arg_name = [0x43], arg_value = Str [0x78]\<rparr>]\<rparr>"

lemma sample_address_args:
  "args_wf (arguments sample_address)"
  "read_order (arguments sample_address) = [\<lparr>arg_name = [0x43], arg_value = Str [0x78]\<rparr>, \<lparr>arg_name = [0x44], arg_value = Uint64 500\<rparr>]"
  by (simp_all add: sample_address_def args_wf_def arg_wf_def value_wf_def utf8_step_def utf8_tail_def arg_key_def type_char_def MAX_MAP_PAIRS_def
      read_order_def key_order_def enc_pair_def enc_text_def enc_head_def norm_arg_def norm_value_def)

lemma sample_address_ok: "addr_ok sample_address"
proof -
  note u = unit_y_point_facts
  have "unit_y_point \<noteq> infinity" using u(4) infinity_inv(2) by auto
  moreover have "euler_ok (nat (fv (cy unit_y_point)))" by (simp add: euler_ok_def u(3) field_prime_def)
  ultimately show ?thesis using u(1) sample_address_args(1) by (simp add: addr_ok_def) (simp add: sample_address_def)
qed

text \<open>C27: An address whose key is a finite point on the curve (with Euler's criterion for its ordinate), whose
  arguments are well formed with distinct typed keys, and which carries an argument and no network if it is a
  proof address, is written as text and read back, whatever the Unicode tables: network, proof flag and key are
  unchanged, the arguments are the same ones (a NaN becoming the quiet NaN) in the order of their names, and
  writing what was read gives the same text.\<close>

theorem address_roundtrip:
  assumes "addr_ok a"
  shows "\<exists>s out. addr_to_string a = Inr s \<and> (\<forall>U. addr_from_string U s = Inr (a\<lparr>arguments := out\<rparr>))
    \<and> mset out = mset (map norm_arg (arguments a)) \<and> sorted (map arg_name out)
    \<and> addr_to_string (a\<lparr>arguments := out\<rparr>) = Inr s"
proof -
  obtain s where s: "addr_to_string a = Inr s" "\<And>U. addr_from_string U s = Inr (a\<lparr>arguments := read_order (arguments a)\<rparr>)"
    using addr_to_string_text[of a] addr_read_back[OF assms] by blast
  have "addr_to_string (a\<lparr>arguments := read_order (arguments a)\<rparr>) = addr_to_string a"
    using assms read_order_facts(3)[of "arguments a"] args_read_back(2)[of "arguments a"]
    by (simp add: addr_to_string_def addr_hrp_def addr_ok_def)
  then show ?thesis using s read_order_facts(1,2)[of "arguments a"] by (intro exI[of _ s] exI[of _ "read_order (arguments a)"]) simp
qed

theorem address_roundtrip_witness:
  "\<exists>s out. addr_to_string sample_address = Inr s \<and> addr_from_string ascii_only s = Inr (sample_address\<lparr>arguments := out\<rparr>)
    \<and> mset out = mset (map norm_arg (arguments sample_address))"
  using address_roundtrip[OF sample_address_ok] by blast

text \<open>C28: Reading an address never panics and always ends, whatever the text and the Unicode tables: the first byte it looks at exists. An address it accepts
  has one of the five prefixes and a public key on the curve.\<close>

theorem address_decode_safe:
  "addr_from_string U s \<noteq> Inl AddrPanic \<and> addr_from_string U s \<noteq> Inl AddrDiverges
    \<and> (addr_from_string U s = Inr a \<longrightarrow> curve_inv (public_key a) \<and> (proof_flag a \<longrightarrow> mainnet a)
        \<and> (\<exists>hrp data. decode U s = Inr (hrp, data) \<and> hrp \<in> set prefixes))"
proof -
  have "curve_inv (public_key a) \<and> (proof_flag a \<longrightarrow> mainnet a) \<and> (\<exists>hrp data. decode U s = Inr (hrp, data) \<and> hrp \<in> set prefixes)"
    if r: "addr_from_string U s = Inr a"
  proof -
    obtain hrp data res where d: "decode U s = Inr (hrp, data)" "hrp \<in> set prefixes" "read_payload hrp res = Inr a"
      using r by (auto simp: addr_from_string_def split: if_splits)
    then show ?thesis using read_payload_Inr[OF d(3)] decompress_safe decoded_inv by blast
  qed
  then show ?thesis using addr_from_string_no_panic by blast
qed

theorem address_decode_safe_witness: "curve_inv (public_key sample_address)"
proof -
  obtain s where "addr_from_string ascii_only s = Inr (sample_address\<lparr>arguments := read_order (arguments sample_address)\<rparr>)"
    using addr_to_string_text[of sample_address] addr_read_back[OF sample_address_ok] by blast
  then show ?thesis using address_decode_safe[of ascii_only s "sample_address\<lparr>arguments := read_order (arguments sample_address)\<rparr>"] by simp
qed

end
