(* ===== verification/Varint.thy ===== *)
theory Varint
  imports Prelude
begin

text \<open>
  Unsigned LEB128 varints (\<open>block/src/varint.rs\<close>): the writer \<open>put_uvarint\<close>, the
  reader \<open>read_uvarint\<close> with its three failure exits (incomplete input, an eleventh byte,
  a tenth byte above 1), and the cursor reader \<open>rv\<close> of \<open>transaction.rs\<close>, which is
  interpreted as a \<open>prefix_codec\<close>.
\<close>

section \<open>The writer and the reader\<close>

function put_uvarint :: "byte list \<Rightarrow> u64 \<Rightarrow> byte list" where
  "put_uvarint out x =
     (if x \<ge> 0x80 then put_uvarint (out @ [(ucast x :: byte) OR 0x80]) (drop_bit 7 x)
      else out @ [ucast x])"
  by pat_completeness auto
termination
proof (relation "measure (\<lambda>(out, x). unat x)")
  fix out and x :: u64 assume "x \<ge> 0x80"
  then have "unat x div 128 < unat x"
    by (simp add: word_le_nat_alt)
  then show "((out @ [(ucast x :: byte) OR 0x80], drop_bit 7 x), (out, x)) \<in> measure (\<lambda>(out, x). unat x)"
    by (simp add: unat_shr)
qed simp

declare put_uvarint.simps [simp del]

text \<open>The loop body over \<open>buf.iter().enumerate()\<close>: index \<open>i\<close>, value so far \<open>x\<close>, shift \<open>s\<close>.\<close>

fun read_uvarint_loop :: "nat \<Rightarrow> u64 \<Rightarrow> nat \<Rightarrow> byte list \<Rightarrow> u64 \<times> nat" where
  "read_uvarint_loop i x s [] = (0, 0)"
| "read_uvarint_loop i x s (b # bs) =
     (if i = 10 then (0, 0)
      else if b < 0x80 then
        (if i = 9 \<and> b > 1 then (0, 0)
         else (x OR push_bit s (ucast b), i + 1))
      else read_uvarint_loop (i + 1) (x OR push_bit s (ucast (b AND 0x7f))) (s + 7) bs)"

definition read_uvarint :: "byte list \<Rightarrow> u64 \<times> nat" where
  "read_uvarint buf = read_uvarint_loop 0 0 0 buf"

text \<open>\<open>transaction.rs\<close>, \<open>rv\<close>: the cursor is the remaining slice.\<close>

definition rv :: "byte list \<Rightarrow> (u64 \<times> byte list, string) result" where
  "rv r = (let (v, n) = read_uvarint r in
     if n = 0 then Inl ''transaction: invalid varint'' else Inr (v, drop n r))"

section \<open>Shape of the encoding\<close>

lemma put_uvarint_append: "put_uvarint out x = out @ put_uvarint [] x"
proof (induction "unat x" arbitrary: out x rule: less_induct)
  case less
  show ?case
  proof (cases "x \<ge> 0x80")
    case True
    then have lt: "unat (drop_bit 7 x) < unat x"
      by (simp add: unat_shr word_le_nat_alt)
    show ?thesis
      using True less[OF lt, of "out @ [(ucast x :: byte) OR 0x80]"]
        less[OF lt, of "[(ucast x :: byte) OR 0x80]"]
      by (simp add: put_uvarint.simps[of _ x])
  next
    case False
    then show ?thesis by (simp add: put_uvarint.simps[of _ x])
  qed
qed

lemma put_uvarint_big:
  "x \<ge> 0x80 \<Longrightarrow> put_uvarint [] x = ((ucast x :: byte) OR 0x80) # put_uvarint [] (drop_bit 7 x)"
  by (subst put_uvarint.simps) (simp add: put_uvarint_append[of "[_]"])

lemma put_uvarint_small: "\<not> x \<ge> 0x80 \<Longrightarrow> put_uvarint [] x = [ucast x]"
  by (simp add: put_uvarint.simps)

lemma put_uvarint_length_bound:
  "unat x < 2 ^ (7 * k) \<Longrightarrow> 0 < k \<Longrightarrow> length (put_uvarint [] x) \<le> k"
proof (induction k arbitrary: x)
  case 0
  then show ?case by simp
next
  case (Suc k)
  show ?case
  proof (cases "x \<ge> 0x80")
    case True
    then have big: "128 \<le> unat x" by (simp add: word_le_nat_alt)
    have "0 < k"
      using Suc.prems big by (cases k) auto
    have "unat (drop_bit 7 x) < 2 ^ (7 * k)"
      using Suc.prems(1)
      by (simp add: unat_shr less_mult_imp_div_less power_add mult.commute)
    then have "length (put_uvarint [] (drop_bit 7 x)) \<le> k"
      using \<open>0 < k\<close> by (rule Suc.IH)
    with True show ?thesis by (simp add: put_uvarint_big)
  next
    case False
    then show ?thesis by (simp add: put_uvarint_small)
  qed
qed

lemma put_uvarint_length: "0 < length (put_uvarint [] x) \<and> length (put_uvarint [] x) \<le> 10"
proof
  show "0 < length (put_uvarint [] x)"
    by (cases "x \<ge> 0x80") (simp_all add: put_uvarint_big put_uvarint_small)
  have "unat x < 2 ^ 64" using unsigned_less[of x, where 'a = nat] by simp
  also have "\<dots> \<le> 2 ^ (7 * 10)" by (rule power_increasing) simp_all
  finally show "length (put_uvarint [] x) \<le> 10" by (rule put_uvarint_length_bound) simp
qed

section \<open>Round trip\<close>

lemma or_push_bit_split:
  fixes x acc :: u64
  shows "(acc OR push_bit s (ucast ((ucast x OR 0x80 :: byte) AND 0x7f))) OR push_bit (s + 7) (drop_bit 7 x)
     = acc OR push_bit s x"
proof (rule bit_word_eqI)
  fix n assume "n < LENGTH(64)"
  have eq: "((ucast x OR 0x80 :: byte) AND 0x7f) = ucast (take_bit 7 x)"
    by (rule bit_word_eqI) (auto simp: bit_simps less_Suc_eq numeral_eq_Suc)
  show "bit ((acc OR push_bit s (ucast ((ucast x OR 0x80 :: byte) AND 0x7f))) OR push_bit (s + 7) (drop_bit 7 x)) n
     = bit (acc OR push_bit s x) n"
    unfolding eq using \<open>n < LENGTH(64)\<close>
    by (cases "n < s + 7") (auto simp: bit_simps not_le not_less)
qed

lemma read_uvarint_loop_put:
  assumes "i \<le> 9" "unat x < 2 ^ (64 - 7 * i)"
  shows "read_uvarint_loop i acc (7 * i) (put_uvarint [] x @ rest)
     = (acc OR push_bit (7 * i) x, i + length (put_uvarint [] x))"
  using assms
proof (induction "9 - i" arbitrary: i x acc)
  case 0
  then have "i = 9" "unat x < 2" by simp_all
  then have "x = 0 \<or> x = 1" by (metis less_2_cases unat_eq_0 unat_1 One_nat_def word_unat_eq_iff)
  then show ?case using \<open>i = 9\<close> by (auto simp: put_uvarint_small word_le_nat_alt)
next
  case (Suc d)
  show ?case
  proof (cases "x \<ge> 0x80")
    case True
    have i: "i < 9" using Suc.hyps(2) by simp
    have "unat (drop_bit 7 x) < 2 ^ (64 - 7 * (i + 1))"
    proof -
      have "64 - 7 * i = 64 - 7 * (i + 1) + 7" using i by simp
      then have "(2::nat) ^ (64 - 7 * i) = 2 ^ (64 - 7 * (i + 1)) * 128"
        by (simp only: power_add) simp
      then show ?thesis using Suc.prems(2) by (simp add: unat_shr less_mult_imp_div_less)
    qed
    then have IH: "read_uvarint_loop (i + 1) a (7 * (i + 1)) (put_uvarint [] (drop_bit 7 x) @ rest)
        = (a OR push_bit (7 * (i + 1)) (drop_bit 7 x), i + 1 + length (put_uvarint [] (drop_bit 7 x)))"
      for a using Suc.hyps(1)[of "i + 1"] Suc.hyps(2) by simp
    have nb: "\<not> ((ucast x :: byte) OR 0x80) < 0x80"
      by (simp add: not_less le_word_or1)
    show ?thesis
      using True nb i IH or_push_bit_split[of acc "7 * i" x]
      by (simp add: put_uvarint_big add.commute)
  next
    case False
    then have "unat x < 128" by (simp add: word_le_nat_alt not_le)
    then have b: "(ucast x :: byte) < 0x80" and u: "ucast (ucast x :: byte) = x"
      by (simp add: word_less_nat_alt unat_ucast) (rule byte_of_unat, use \<open>unat x < 128\<close> in simp_all)
    show ?thesis
      unfolding put_uvarint_small[OF False] append_Cons append_Nil read_uvarint_loop.simps u
      using Suc.hyps(2) b by auto
  qed
qed

lemma read_uvarint_put:
  "read_uvarint (put_uvarint [] x @ rest) = (x, length (put_uvarint [] x))"
  using read_uvarint_loop_put[of 0 x 0 rest] unsigned_less[of x, where 'a = nat]
  by (simp add: read_uvarint_def)

interpretation uv: prefix_codec "put_uvarint []" rv "\<lambda>_. True"
  by unfold_locales
    (use put_uvarint_length in \<open>auto simp: rv_def read_uvarint_put\<close>)

lemmas [codec_simps] = uv.dec_enc[OF TrueI]

section \<open>What a reader consumes\<close>

lemma read_uvarint_loop_consumed:
  "read_uvarint_loop i x s buf = (v, n) \<Longrightarrow> n \<noteq> 0 \<Longrightarrow> 
     i \<le> 10 \<Longrightarrow> i < n \<and> n \<le> i + length buf \<and> n \<le> 10"
proof (induction i x s buf rule: read_uvarint_loop.induct)
  case (2 i x s b bs)
  then show ?case by (auto split: if_splits)
qed simp

lemma rv_consumes:
  assumes "rv r = Inr (v, r')"
  shows "\<exists>n. 1 \<le> n \<and> n \<le> 10 \<and> n \<le> length r \<and> r' = drop n r"
proof -
  obtain n where n: "read_uvarint r = (v, n)" "n \<noteq> 0" "r' = drop n r"
    using assms by (auto simp: rv_def split: prod.splits if_splits)
  then show ?thesis
    using read_uvarint_loop_consumed[of 0 0 0 r v n] by (auto simp: read_uvarint_def Suc_le_eq)
qed

text \<open>Every 64-bit value written by \<open>put_uvarint\<close> is read back by \<open>read_uvarint\<close>, which
  consumes exactly the bytes written (between 1 and 10) whatever follows them.\<close>

theorem uvarint_roundtrip:
  "read_uvarint (put_uvarint [] x @ rest) = (x, length (put_uvarint [] x))
   \<and> 1 \<le> length (put_uvarint [] x) \<and> length (put_uvarint [] x) \<le> 10"
  using read_uvarint_put[of x rest] put_uvarint_length[of x] by (simp add: Suc_le_eq)

end
