(* ===== verification/Statement.thy ===== *)
theory Statement
  imports G1 Varint
begin

text \<open>
  The Zether statement and the transfer proof on the wire (\<open>cryptography/crypto/src/statement.rs\<close>, \<open>read.rs\<close>, \<open>scalar.rs\<close>, and the codecs of
  \<open>proof.rs\<close> and \<open>inner_product.rs\<close>). A reader takes the remaining bytes and returns a value and the bytes after it. Errors are the
  texts of the code; a panic is a result of its own. The hash \<open>graviton_sum\<close> (BLAKE2s) is a parameter.
\<close>

unbundle bit_operations_syntax

section \<open>Cursor readers\<close>

datatype failure = Msg string | Panic

definition g1_text :: "g1_error \<Rightarrow> string" where
  "g1_text e = (case e of
     Field NotEnoughData \<Rightarrow> ''bn256: not enough data''
   | Field ExceedsModulus \<Rightarrow> ''bn256: coordinate exceeds modulus''
   | Field EqualsModulus \<Rightarrow> ''bn256: coordinate equals modulus''
   | NotEnoughPointData \<Rightarrow> ''bn256: not enough data''
   | MalformedPoint \<Rightarrow> ''bn256: malformed point''
   | CompressedLength \<Rightarrow> ''bn256: not enough data on compressed point''
   | CannotDecompress \<Rightarrow> ''bn256: Cannot decompress''
   | YTooLarge \<Rightarrow> ''bn256: y coordinate too large'')"

definition read_take :: "nat \<Rightarrow> byte list \<Rightarrow> (byte list \<times> byte list, string) result" where
  "read_take n r = (if length r < n then Inl ''short read'' else Inr (take n r, drop n r))"

definition take_g1 :: "byte list \<Rightarrow> (g1 \<times> byte list, string) result" where
  "take_g1 r = rbind (read_take 33 r) (\<lambda>(b, r). rbind (map_err g1_text (decompress b)) (\<lambda>g. Inr (g, r)))"

definition take_scalar :: "byte list \<Rightarrow> (nat \<times> byte list, string) result" where
  "take_scalar r = rbind (read_take 32 r) (\<lambda>(b, r). Inr (be_val b, r))"

fun read_varint_loop :: "nat \<Rightarrow> u64 \<Rightarrow> nat \<Rightarrow> byte list \<Rightarrow> (u64 \<times> byte list, string) result" where
  "read_varint_loop i x s [] = Inl ''varint: short read''"
| "read_varint_loop i x s (b # bs) =
    (if i = 10 then Inl ''varint: overflow''
     else if b < 0x80 then
       (if i = 9 \<and> b > 1 then Inl ''varint: overflow'' else Inr (x OR push_bit s (ucast b), bs))
     else read_varint_loop (i + 1) (x OR push_bit s (ucast (b AND 0x7f))) (s + 7) bs)"

definition read_varint :: "byte list \<Rightarrow> (u64 \<times> byte list, string) result" where
  "read_varint r = read_varint_loop 0 0 0 r"

section \<open>Scalars and powers of two\<close>

definition to_32_be :: "nat \<Rightarrow> byte list" where
  "to_32_be x = (let b = to_bytes_be x; n = min (length b) 32 in replicate (32 - n) 0 @ drop (length b - n) b)"

fun is_power_of_two :: "nat \<Rightarrow> bool" where
  "is_power_of_two n = (if n = 0 then False else if n = 1 then True else even n \<and> is_power_of_two (n div 2))"

fun trailing_zeros :: "nat \<Rightarrow> nat" where
  "trailing_zeros n = (if n = 0 then 64 else if odd n then 0 else Suc (trailing_zeros (n div 2)))"

declare is_power_of_two.simps [simp del] trailing_zeros.simps [simp del]

definition power_of_2 :: "nat \<Rightarrow> (byte, failure) result" where
  "power_of_2 n = (if is_power_of_two n \<and> n \<ge> 1 then Inr (of_nat (trailing_zeros n)) else Inl Panic)"

section \<open>The statement\<close>

record statement =
  ring_size :: u64
  cln :: "g1 list"
  crn :: "g1 list"
  bytes_per_publickey :: byte
  publickeylist_pointers :: "byte list"
  publickeylist :: "g1 list"
  st_c :: "g1 list"
  st_d :: g1
  st_fees :: u64
  roothash :: "byte list"

definition div_usize :: "nat \<Rightarrow> nat \<Rightarrow> (nat, failure) result" where
  "div_usize a b = (if b = 0 then Inl Panic else Inr (a div b))"

text \<open>The loop over the public keys: the first bytes of the hash of each compressed key, a panic past the 32 bytes of the hash.\<close>

fun push_pointers :: "(byte list \<Rightarrow> byte list) \<Rightarrow> nat \<Rightarrow> g1 list \<Rightarrow> (byte list, failure) result" where
  "push_pointers gsum n [] = Inr []"
| "push_pointers gsum n (pk # pks) =
    (let hashed = gsum (compress pk)
     in if n > length hashed then Inl Panic else rbind (push_pointers gsum n pks) (\<lambda>w. Inr (take n hashed @ w)))"

fun compress_n :: "nat \<Rightarrow> g1 list \<Rightarrow> (byte list, failure) result" where
  "compress_n 0 c = Inr []"
| "compress_n (Suc n) c = (case c of [] \<Rightarrow> Inl Panic | g # gs \<Rightarrow> rbind (compress_n n gs) (\<lambda>w. Inr (compress g @ w)))"

definition st_serialize :: "(byte list \<Rightarrow> byte list) \<Rightarrow> statement \<Rightarrow> (byte list \<times> statement, failure) result" where
  "st_serialize gsum s =
    rbind
      (if publickeylist_pointers s = [] then
         rbind (power_of_2 (length (publickeylist s))) (\<lambda>pw.
         rbind (push_pointers gsum (unat (bytes_per_publickey s)) (publickeylist s)) (\<lambda>ptrs.
         Inr ([pw, bytes_per_publickey s] @ put_uvarint [] (st_fees s) @ compress (st_d s) @ ptrs, s\<lparr>publickeylist_pointers := ptrs\<rparr>)))
       else
         rbind (div_usize (length (publickeylist_pointers s)) (unat (bytes_per_publickey s))) (\<lambda>count.
         rbind (power_of_2 count) (\<lambda>pw.
         Inr ([pw, bytes_per_publickey s] @ put_uvarint [] (st_fees s) @ compress (st_d s) @ publickeylist_pointers s, s))))
      (\<lambda>(w, s).
         rbind (div_usize (length (publickeylist_pointers s)) (unat (bytes_per_publickey s))) (\<lambda>count.
         rbind (compress_n count (st_c s)) (\<lambda>cs.
         Inr (w @ cs @ roothash s, s))))"

definition ring_of_power :: "byte \<Rightarrow> u64" where
  "ring_of_power p = (if unat p < 64 then push_bit (unat p) 1 else 0)"

definition st_deserialize :: "byte list \<Rightarrow> (statement \<times> byte list, string) result" where
  "st_deserialize r =
    rbind (read_take 1 r) (\<lambda>(b, r).
    let rs = ring_of_power (hd b)
    in if rs > 128 then Inl ''ring size is too large''
       else rbind (read_take 1 r) (\<lambda>(b, r).
         let bpp = hd b
         in if bpp = 0 then Inl ''statement: bytes_per_publickey == 0''
            else rbind (read_varint r) (\<lambda>(fees, r).
              rbind (take_g1 r) (\<lambda>(d, r).
              let count = unat rs
              in rbind (read_take (count * unat bpp) r) (\<lambda>(ptrs, r).
                rbind (read_n take_g1 count r) (\<lambda>(c, r).
                rbind (read_take 32 r) (\<lambda>(rh, r).
                Inr (\<lparr>ring_size = rs, cln = [], crn = [], bytes_per_publickey = bpp, publickeylist_pointers = ptrs,
                  publickeylist = [], st_c = c, st_d = d, st_fees = fees, roothash = rh\<rparr>, r))))))))"

section \<open>The inner-product argument and the proof\<close>

record inner_product =
  ip_a :: nat
  ip_b :: nat
  ip_ls :: "g1 list"
  ip_rs :: "g1 list"

text \<open>The interleaved point vectors: the loops \<open>for i in 0..xs.len()\<close> that index several vectors, with the panic of a short one.\<close>

fun compress_rows :: "g1 list \<Rightarrow> g1 list list \<Rightarrow> (byte list, failure) result" where
  "compress_rows [] rest = Inr []"
| "compress_rows (g # gs) rest =
    (if \<exists>v\<in>set rest. v = [] then Inl Panic
     else rbind (compress_rows gs (map tl rest)) (\<lambda>w. Inr (compress g @ concat (map (compress \<circ> hd) rest) @ w)))"

definition ip_serialize :: "inner_product \<Rightarrow> (byte list, failure) result" where
  "ip_serialize ip = rbind (compress_rows (ip_ls ip) [ip_rs ip]) (\<lambda>w. Inr (to_32_be (ip_a ip) @ to_32_be (ip_b ip) @ w))"

definition ROUNDS :: nat where "ROUNDS = 7"

definition take_row :: "nat \<Rightarrow> byte list \<Rightarrow> (g1 list \<times> byte list, string) result" where
  "take_row k r = read_n take_g1 k r"

definition column :: "g1 list list \<Rightarrow> nat \<Rightarrow> g1 list" where
  "column rows j = map (\<lambda>row. row ! j) rows"

definition ip_deserialize :: "byte list \<Rightarrow> (inner_product \<times> byte list, string) result" where
  "ip_deserialize r =
    rbind (take_scalar r) (\<lambda>(a, r).
    rbind (take_scalar r) (\<lambda>(b, r).
    rbind (read_n (take_row 2) ROUNDS r) (\<lambda>(rows, r).
    Inr (\<lparr>ip_a = a, ip_b = b, ip_ls = column rows 0, ip_rs = column rows 1\<rparr>, r))))"

record proof_data =
  pf_ba :: g1
  pf_bs :: g1
  pf_a :: g1
  pf_b :: g1
  cln_g :: "g1 list"
  crn_g :: "g1 list"
  c_0g :: "g1 list"
  dg :: "g1 list"
  y_0g :: "g1 list"
  g_g :: "g1 list"
  c_xg :: "g1 list"
  y_xg :: "g1 list"
  pf_u :: g1
  pf_f :: "nat list"
  z_a :: nat
  t_1 :: g1
  t_2 :: g1
  pf_that :: nat
  pf_mu :: nat
  pf_c :: nat
  s_sk :: nat
  s_r :: nat
  s_b :: nat
  s_tau :: nat
  pf_ip :: inner_product

definition proof_serialize :: "proof_data \<Rightarrow> (byte list, failure) result" where
  "proof_serialize p =
    rbind (compress_rows (cln_g p) [crn_g p, c_0g p, dg p, y_0g p, g_g p, c_xg p, y_xg p]) (\<lambda>rows.
    rbind (ip_serialize (pf_ip p)) (\<lambda>ipb.
    Inr (compress (pf_ba p) @ compress (pf_bs p) @ compress (pf_a p) @ compress (pf_b p) @ rows
      @ compress (pf_u p) @ concat (map to_32_be (pf_f p)) @ to_32_be (z_a p) @ compress (t_1 p) @ compress (t_2 p)
      @ to_32_be (pf_that p) @ to_32_be (pf_mu p) @ to_32_be (pf_c p) @ to_32_be (s_sk p) @ to_32_be (s_r p) @ to_32_be (s_b p)
      @ to_32_be (s_tau p) @ ipb)))"

definition proof_deserialize :: "byte list \<Rightarrow> nat \<Rightarrow> (proof_data \<times> byte list, string) result" where
  "proof_deserialize r len =
    rbind (take_g1 r) (\<lambda>(vba, r).
    rbind (take_g1 r) (\<lambda>(vbs, r).
    rbind (take_g1 r) (\<lambda>(va, r).
    rbind (take_g1 r) (\<lambda>(vb, r).
    rbind (read_n (take_row 8) len r) (\<lambda>(rows, r).
    rbind (take_g1 r) (\<lambda>(u, r).
    rbind (read_n take_scalar (len * 2) r) (\<lambda>(f, r).
    rbind (take_scalar r) (\<lambda>(za, r).
    rbind (take_g1 r) (\<lambda>(t1, r).
    rbind (take_g1 r) (\<lambda>(t2, r).
    rbind (take_scalar r) (\<lambda>(vthat, r).
    rbind (take_scalar r) (\<lambda>(vmu, r).
    rbind (take_scalar r) (\<lambda>(vc, r).
    rbind (take_scalar r) (\<lambda>(ssk, r).
    rbind (take_scalar r) (\<lambda>(sr, r).
    rbind (take_scalar r) (\<lambda>(sb, r).
    rbind (take_scalar r) (\<lambda>(stau, r).
    rbind (ip_deserialize r) (\<lambda>(vip, r).
    Inr (\<lparr>pf_ba = vba, pf_bs = vbs, pf_a = va, pf_b = vb, cln_g = column rows 0, crn_g = column rows 1, c_0g = column rows 2,
      dg = column rows 3, y_0g = column rows 4, g_g = column rows 5, c_xg = column rows 6, y_xg = column rows 7, pf_u = u, pf_f = f,
      z_a = za, t_1 = t1, t_2 = t2, pf_that = vthat, pf_mu = vmu, pf_c = vc, s_sk = ssk, s_r = sr, s_b = sb, s_tau = stau, pf_ip = vip\<rparr>, r)))))))))))))))))))"


section \<open>Codec laws\<close>

lemma read_take_append: "length b = n \<Longrightarrow> read_take n (b @ r) = Inr (b, r)"
  by (simp add: read_take_def)

text \<open>Points that survive compression: the affine points of the curve.\<close>

definition point_ok :: "g1 \<Rightarrow> bool" where
  "point_ok g \<longleftrightarrow> decompress (compress g) = Inr g"

lemma point_ok_length: "point_ok g \<Longrightarrow> length (compress g) = 33"
  using decompress_safe by (auto simp: point_ok_def)

interpretation pt: prefix_codec compress take_g1 point_ok
proof
  fix g rest assume g: "point_ok g"
  then show "take_g1 (compress g @ rest) = Inr (g, rest)"
    using point_ok_length[OF g] by (simp add: take_g1_def read_take_append point_ok_def)
qed

lemma to_32_be_spec: "x < 256 ^ 32 \<Longrightarrow> to_32_be x = be_bytes 32 x"
proof -
  assume x: "x < 256 ^ 32"
  have l: "length (to_bytes_be x) \<le> 32" using to_bytes_be_length[of x 31] x by simp
  then have "to_32_be x = replicate (32 - length (to_bytes_be x)) 0 @ to_bytes_be x" by (simp add: to_32_be_def Let_def min_absorb1)
  also have "\<dots> = be_bytes 32 (be_val (replicate (32 - length (to_bytes_be x)) 0 @ to_bytes_be x))"
    using l by (intro be_bytes_be_val[symmetric]) simp
  finally show ?thesis by (simp add: be_val_zeros to_bytes_be_val)
qed

interpretation sc: prefix_codec to_32_be take_scalar "\<lambda>x. x < 256 ^ 32"
proof
  fix x :: nat and rest assume x: "x < 256 ^ 32"
  then show "take_scalar (to_32_be x @ rest) = Inr (x, rest)"
    by (simp add: take_scalar_def to_32_be_spec read_take_append be_val_be_bytes del: power_numeral)
qed

text \<open>The two varint readers accept the same encodings.\<close>

lemma read_varint_loop_eq:
  "read_uvarint_loop i x s bs = (v, n) \<Longrightarrow> n \<noteq> 0 \<Longrightarrow> read_varint_loop i x s bs = Inr (v, drop (n - i) bs) \<and> i < n"
proof (induction i x s bs rule: read_varint_loop.induct)
  case (2 i x s b bs)
  show ?case
  proof (cases "i = 10 \<or> b < 0x80")
    case True
    then show ?thesis using "2.prems" by (auto split: if_splits)
  next
    case False
    then have "read_uvarint_loop (i + 1) (x OR push_bit s (ucast (b AND 0x7f))) (s + 7) bs = (v, n)" using "2.prems" by simp
    from "2.IH"[OF _ _ this "2.prems"(2)] False
    have "read_varint_loop (i + 1) (x OR push_bit s (ucast (b AND 0x7f))) (s + 7) bs = Inr (v, drop (n - Suc i) bs)" "Suc i < n" by auto
    moreover from this(2) have "n - i = Suc (n - Suc i)" by simp
    ultimately show ?thesis using False by simp
  qed
qed simp

interpretation cv: prefix_codec "put_uvarint []" read_varint "\<lambda>_. True"
proof
  fix x :: u64 and rest
  obtain v n where e: "read_uvarint (put_uvarint [] x @ rest) = (v, n)" by fastforce
  have "rv (put_uvarint [] x @ rest) = Inr (x, rest)" by (rule uv.dec_enc) simp
  then have n: "n \<noteq> 0" "v = x" "drop n (put_uvarint [] x @ rest) = rest" unfolding rv_def e by (auto split: if_splits)
  show "read_varint (put_uvarint [] x @ rest) = Inr (x, rest)"
    using read_varint_loop_eq[of 0 0 0 _ v n] e n by (simp add: read_varint_def read_uvarint_def)
qed

text \<open>Interleaved vectors.\<close>

definition row_bytes :: "g1 list \<Rightarrow> byte list" where
  "row_bytes row = concat (map compress row)"

definition rows_of :: "g1 list list \<Rightarrow> nat \<Rightarrow> g1 list list" where
  "rows_of vs n = map (\<lambda>i. map (\<lambda>v. v ! i) vs) [0..<n]"

interpretation rw: prefix_codec row_bytes "take_row k" "\<lambda>row. length row = k \<and> (\<forall>g\<in>set row. point_ok g)"
  by unfold_locales (use pt.read_n_concat in \<open>auto simp: row_bytes_def take_row_def\<close>)

lemma rows_of_Suc:
  assumes "\<forall>v\<in>set vs. length v = Suc n"
  shows "rows_of vs (Suc n) = map hd vs # rows_of (map tl vs) n"
proof -
  have u: "[0..<Suc n] = 0 # map Suc [0..<n]" by (simp add: upt_conv_Cons map_Suc_upt del: upt_Suc)
  have "v ! 0 = hd v \<and> (\<forall>i<n. v ! Suc i = tl v ! i)" if "v \<in> set vs" for v
    using assms that by (cases v) auto
  then show ?thesis unfolding rows_of_def u by (auto simp: comp_def)
qed

lemma compress_rows_ok:
  "length gs = n \<Longrightarrow> \<forall>v\<in>set rest. length v = n \<Longrightarrow> compress_rows gs rest = Inr (concat (map row_bytes (rows_of (gs # rest) n)))"
proof (induction gs arbitrary: n rest)
  case (Cons g gs)
  obtain k where k: "n = Suc k" "length gs = k" using Cons.prems by auto
  have l: "\<forall>v\<in>set ((g # gs) # rest). length v = Suc k" using Cons.prems k by auto
  have ne: "\<not> (\<exists>v\<in>set rest. v = [])" using Cons.prems k by auto
  have "compress_rows gs (map tl rest) = Inr (concat (map row_bytes (rows_of (gs # map tl rest) k)))"
    using Cons.prems k by (intro Cons.IH) auto
  moreover have "rows_of ((g # gs) # rest) n = (g # map hd rest) # rows_of (gs # map tl rest) k"
    unfolding k(1) rows_of_Suc[OF l] by simp
  ultimately show ?case using ne by (simp add: row_bytes_def[of "_ # _"])
qed (simp add: rows_of_def)

lemma column_rows_of: "j < length vs \<Longrightarrow> length (vs ! j) = n \<Longrightarrow> column (rows_of vs n) j = vs ! j"
  by (auto simp: column_def rows_of_def intro: nth_equalityI)

lemma rows_of_ok:
  assumes "\<forall>v\<in>set vs. length v = n \<and> (\<forall>g\<in>set v. point_ok g)"
  shows "length (rows_of vs n) = n" "\<forall>row\<in>set (rows_of vs n). length row = length vs \<and> (\<forall>g\<in>set row. point_ok g)"
  using assms by (auto simp: rows_of_def)

lemma read_rows:
  assumes "\<forall>v\<in>set vs. length v = n \<and> (\<forall>g\<in>set v. point_ok g)" "length vs = k"
  shows "read_n (take_row k) n (concat (map row_bytes (rows_of vs n)) @ rest) = Inr (rows_of vs n, rest)"
  using rw.read_n_concat[of "rows_of vs n" k rest] rows_of_ok[OF assms(1)] assms(2) by simp


section \<open>Round trips\<close>

definition scalar_ok :: "nat \<Rightarrow> bool" where
  "scalar_ok x \<longleftrightarrow> x < 256 ^ 32"

lemma take_scalar_ok: "scalar_ok x \<Longrightarrow> take_scalar (to_32_be x @ rest) = Inr (x, rest)"
  unfolding scalar_ok_def by (rule sc.dec_enc)

definition vector_ok :: "nat \<Rightarrow> g1 list \<Rightarrow> bool" where
  "vector_ok n v \<longleftrightarrow> length v = n \<and> (\<forall>g\<in>set v. point_ok g)"

definition ip_ok :: "inner_product \<Rightarrow> bool" where
  "ip_ok i \<longleftrightarrow> scalar_ok (ip_a i) \<and> scalar_ok (ip_b i) \<and> vector_ok ROUNDS (ip_ls i) \<and> vector_ok ROUNDS (ip_rs i)"

definition ip_bytes :: "inner_product \<Rightarrow> byte list" where
  "ip_bytes i = to_32_be (ip_a i) @ to_32_be (ip_b i) @ concat (map row_bytes (rows_of [ip_ls i, ip_rs i] ROUNDS))"

lemma ip_serialize_ok: "ip_ok i \<Longrightarrow> ip_serialize i = Inr (ip_bytes i)"
  by (simp add: ip_serialize_def ip_ok_def vector_ok_def compress_rows_ok ip_bytes_def)

lemma ip_roundtrip:
  assumes "ip_ok i"
  shows "ip_deserialize (ip_bytes i @ rest) = Inr (i, rest)"
proof -
  have v: "\<forall>v\<in>set [ip_ls i, ip_rs i]. length v = ROUNDS \<and> (\<forall>g\<in>set v. point_ok g)" using assms by (auto simp: ip_ok_def vector_ok_def)
  have c: "column (rows_of [ip_ls i, ip_rs i] ROUNDS) 0 = ip_ls i" "column (rows_of [ip_ls i, ip_rs i] ROUNDS) 1 = ip_rs i"
    using assms column_rows_of[of 0 "[ip_ls i, ip_rs i]" ROUNDS] column_rows_of[of 1 "[ip_ls i, ip_rs i]" ROUNDS]
    by (simp_all add: ip_ok_def vector_ok_def)
  show ?thesis using assms read_rows[OF v, of 2 rest] c by (simp add: ip_deserialize_def ip_bytes_def take_scalar_ok ip_ok_def)
qed

definition proof_vectors :: "proof_data \<Rightarrow> g1 list list" where
  "proof_vectors p = [cln_g p, crn_g p, c_0g p, dg p, y_0g p, g_g p, c_xg p, y_xg p]"

definition proof_points :: "proof_data \<Rightarrow> g1 list" where
  "proof_points p = [pf_ba p, pf_bs p, pf_a p, pf_b p, pf_u p, t_1 p, t_2 p]"

definition proof_scalars :: "proof_data \<Rightarrow> nat list" where
  "proof_scalars p = pf_f p @ [z_a p, pf_that p, pf_mu p, pf_c p, s_sk p, s_r p, s_b p, s_tau p]"

definition proof_ok :: "nat \<Rightarrow> proof_data \<Rightarrow> bool" where
  "proof_ok m p \<longleftrightarrow> (\<forall>v\<in>set (proof_vectors p). vector_ok m v) \<and> (\<forall>g\<in>set (proof_points p). point_ok g)
    \<and> (\<forall>x\<in>set (proof_scalars p). scalar_ok x) \<and> length (pf_f p) = m * 2 \<and> ip_ok (pf_ip p)"

definition proof_bytes :: "nat \<Rightarrow> proof_data \<Rightarrow> byte list" where
  "proof_bytes m p = compress (pf_ba p) @ compress (pf_bs p) @ compress (pf_a p) @ compress (pf_b p)
      @ concat (map row_bytes (rows_of (proof_vectors p) m))
      @ compress (pf_u p) @ concat (map to_32_be (pf_f p)) @ to_32_be (z_a p) @ compress (t_1 p) @ compress (t_2 p)
      @ to_32_be (pf_that p) @ to_32_be (pf_mu p) @ to_32_be (pf_c p) @ to_32_be (s_sk p) @ to_32_be (s_r p) @ to_32_be (s_b p)
      @ to_32_be (s_tau p) @ ip_bytes (pf_ip p)"

lemma proof_serialize_ok: "proof_ok m p \<Longrightarrow> proof_serialize p = Inr (proof_bytes m p)"
  by (simp add: proof_serialize_def proof_ok_def proof_vectors_def vector_ok_def compress_rows_ok ip_serialize_ok proof_bytes_def)

lemma proof_columns:
  assumes "proof_ok m p" "j < 8"
  shows "column (rows_of (proof_vectors p) m) j = proof_vectors p ! j"
proof (rule column_rows_of)
  have l: "length (proof_vectors p) = 8" by (simp add: proof_vectors_def)
  then show "j < length (proof_vectors p)" using assms by simp
  then have "proof_vectors p ! j \<in> set (proof_vectors p)" by (rule nth_mem)
  then show "length (proof_vectors p ! j) = m" using assms by (simp add: proof_ok_def vector_ok_def)
qed

lemma proof_roundtrip:
  assumes p: "proof_ok m p"
  shows "proof_deserialize (proof_bytes m p @ rest) m = Inr (p, rest)"
proof -
  have v: "\<forall>v\<in>set (proof_vectors p). length v = m \<and> (\<forall>g\<in>set v. point_ok g)" using p by (simp add: proof_ok_def vector_ok_def)
  have rows: "read_n (take_row 8) m (concat (map row_bytes (rows_of (proof_vectors p) m)) @ r) = Inr (rows_of (proof_vectors p) m, r)" for r
    using read_rows[OF v, of 8 r] by (simp add: proof_vectors_def)
  have f: "read_n take_scalar (m * 2) (concat (map to_32_be (pf_f p)) @ r) = Inr (pf_f p, r)" for r
    using sc.read_n_concat[of "pf_f p" r] p by (simp add: proof_ok_def proof_scalars_def scalar_ok_def del: power_numeral)
  note c = proof_columns[OF p]
  have cs: "column (rows_of (proof_vectors p) m) 0 = cln_g p" "column (rows_of (proof_vectors p) m) (Suc 0) = crn_g p"
    "column (rows_of (proof_vectors p) m) 2 = c_0g p" "column (rows_of (proof_vectors p) m) 3 = dg p"
    "column (rows_of (proof_vectors p) m) 4 = y_0g p" "column (rows_of (proof_vectors p) m) 5 = g_g p"
    "column (rows_of (proof_vectors p) m) 6 = c_xg p" "column (rows_of (proof_vectors p) m) 7 = y_xg p"
    using c[of 0] c[of 1] c[of 2] c[of 3] c[of 4] c[of 5] c[of 6] c[of 7] by (simp_all add: proof_vectors_def)
  show ?thesis using p
    by (simp add: proof_deserialize_def proof_bytes_def pt.dec_enc take_scalar_ok rows f ip_roundtrip cs proof_ok_def proof_points_def proof_scalars_def)
qed

lemma power_of_two_spec: "is_power_of_two (2 ^ k)" "trailing_zeros (2 ^ k) = k"
  by (induction k) (simp_all add: is_power_of_two.simps[of "2 * _"] trailing_zeros.simps[of "2 * _"] is_power_of_two.simps[of "Suc 0"] trailing_zeros.simps[of "Suc 0"])

lemma power_of_2_pow: "power_of_2 (2 ^ k) = Inr (of_nat k)"
  using power_of_two_spec[of k] by (simp add: power_of_2_def)

text \<open>A statement as it is on the wire, for a ring of \<open>2 ^ k\<close> members.\<close>

definition stmt_ok :: "nat \<Rightarrow> statement \<Rightarrow> bool" where
  "stmt_ok k s \<longleftrightarrow> k \<le> 7 \<and> ring_size s = push_bit k 1 \<and> cln s = [] \<and> crn s = [] \<and> publickeylist s = []
    \<and> bytes_per_publickey s \<noteq> 0 \<and> length (publickeylist_pointers s) = 2 ^ k * unat (bytes_per_publickey s)
    \<and> vector_ok (2 ^ k) (st_c s) \<and> point_ok (st_d s) \<and> length (roothash s) = 32"

definition st_bytes :: "nat \<Rightarrow> statement \<Rightarrow> byte list" where
  "st_bytes k s = [of_nat k, bytes_per_publickey s] @ put_uvarint [] (st_fees s) @ compress (st_d s) @ publickeylist_pointers s
    @ concat (map compress (st_c s)) @ roothash s"

lemma compress_n_all: "compress_n (length c) c = Inr (concat (map compress c))"
  by (induction c) simp_all

lemma st_serialize_ok:
  assumes "stmt_ok k s"
  shows "st_serialize gsum s = Inr (st_bytes k s, s)"
proof -
  have bp: "0 < unat (bytes_per_publickey s)" using assms by (simp add: stmt_ok_def unat_gt_0)
  have ne: "publickeylist_pointers s \<noteq> []" using assms bp by (auto simp: stmt_ok_def)
  have d: "length (publickeylist_pointers s) div unat (bytes_per_publickey s) = 2 ^ k" using assms bp by (simp add: stmt_ok_def)
  have c: "compress_n (2 ^ k) (st_c s) = Inr (concat (map compress (st_c s)))"
    using assms compress_n_all[of "st_c s"] by (simp add: stmt_ok_def vector_ok_def)
  show ?thesis using ne d bp c by (simp add: st_serialize_def div_usize_def power_of_2_pow st_bytes_def)
qed

lemma st_roundtrip:
  assumes s: "stmt_ok k s"
  shows "st_deserialize (st_bytes k s @ rest) = Inr (s, rest)"
proof -
  have k: "k \<in> {0, 1, 2, 3, 4, 5, 6, 7}" using s by (auto simp: stmt_ok_def)
  have r: "ring_of_power (of_nat k) = ring_size s" "\<not> 128 < ring_size s" "unat (ring_size s) = 2 ^ k"
    using k s by (auto simp: ring_of_power_def stmt_ok_def)
  have c: "read_n take_g1 (2 ^ k) (concat (map compress (st_c s)) @ r) = Inr (st_c s, r)" for r
    using pt.read_n_concat[of "st_c s" r] s by (simp add: stmt_ok_def vector_ok_def)
  have t: "read_take (Suc 0) (b # r) = Inr ([b], r)" for b r by (simp add: read_take_def)
  show ?thesis using s r c
    by (simp add: st_deserialize_def st_bytes_def t Let_def cv.dec_enc pt.dec_enc stmt_ok_def read_take_append)
qed

end
