(* ===== verification/Transaction.thy ===== *)
theory Transaction
  imports Statement Arguments
begin

text \<open>
  Transactions (\<open>block/src/transaction.rs\<close>): the six types, the wire format with its asset payloads, statements and proofs, the type
  predicates, the fees. Hashes are parameters. The smart-contract data is re-encoded by \<open>recanonicalize\<close> of \<open>Arguments\<close>
  (\<open>Arguments::unmarshal_binary_exact\<close> followed by \<open>marshal_binary\<close>), \<open>None\<close> for its error.
\<close>

section \<open>Data\<close>

datatype transaction_type = Premine | Registration | Coinbase | Normal | Burn | Sc

fun type_code :: "transaction_type \<Rightarrow> u64" where
  "type_code Premine = 0"
| "type_code Registration = 1"
| "type_code Coinbase = 2"
| "type_code Normal = 3"
| "type_code Burn = 4"
| "type_code Sc = 5"

definition from_u64 :: "u64 \<Rightarrow> (transaction_type, string) result" where
  "from_u64 v =
    (if v = 0 then Inr Premine else if v = 1 then Inr Registration else if v = 2 then Inr Coinbase
     else if v = 3 then Inr Normal else if v = 4 then Inr Burn else if v = 5 then Inr Sc
     else Inl ''unknown transaction type'')"

definition PAYLOAD_LIMIT :: nat where "PAYLOAD_LIMIT = 1 + 144"

definition FEE_PER_KB :: u64 where "FEE_PER_KB = 20"

definition calculate_tx_fee :: "u64 \<Rightarrow> u64" where
  "calculate_tx_fee tx_size =
    (let size_in_kb = tx_size div 1024;
       size_in_kb = (if tx_size mod 1024 \<noteq> 0 then size_in_kb + 1 else size_in_kb)
     in size_in_kb * FEE_PER_KB)"

record asset_payload =
  scid :: "byte list"
  burn_value :: u64
  rpc_type :: byte
  rpc_payload :: "byte list"
  ap_statement :: statement
  ap_proof :: "proof_data option"

record transaction =
  version :: u64
  source_network :: u64
  dest_network :: u64
  tx_type :: transaction_type
  tx_value :: u64
  miner_address :: "byte list"
  tx_c :: "byte list"
  tx_s :: "byte list"
  tx_height :: u64
  blid :: "byte list"
  payloads :: "asset_payload list"
  scdata :: "byte list"

definition tx_default :: transaction where
  "tx_default = \<lparr>version = 1, source_network = 0, dest_network = 0, tx_type = Coinbase, tx_value = 0, miner_address = replicate 33 0,
    tx_c = replicate 32 0, tx_s = replicate 32 0, tx_height = 0, blid = replicate 32 0, payloads = [], scdata = []\<rparr>"

definition new_coinbase :: "byte list \<Rightarrow> transaction" where
  "new_coinbase addr = tx_default\<lparr>tx_type := Coinbase, miner_address := addr\<rparr>"

definition new_registration :: "byte list \<Rightarrow> byte list \<Rightarrow> byte list \<Rightarrow> transaction" where
  "new_registration addr c s = tx_default\<lparr>tx_type := Registration, miner_address := addr, tx_c := c, tx_s := s\<rparr>"

section \<open>Payloads\<close>

definition tx_take :: "nat \<Rightarrow> byte list \<Rightarrow> (byte list \<times> byte list, string) result" where
  "tx_take n r = (if length r < n then Inl ''transaction: short read'' else Inr (take n r, drop n r))"

definition marshal_header_statement :: "(byte list \<Rightarrow> byte list) \<Rightarrow> asset_payload \<Rightarrow> (byte list, failure) result" where
  "marshal_header_statement gsum p =
    (if length (rpc_payload p) \<noteq> PAYLOAD_LIMIT then Inl (Msg ''rpc_payload must be PAYLOAD_LIMIT bytes'')
     else rbind (st_serialize gsum (ap_statement p)) (\<lambda>(s, _).
       Inr (put_uvarint [] (burn_value p) @ scid p @ [rpc_type p] @ rpc_payload p @ s)))"

definition unmarshal_header_statement :: "byte list \<Rightarrow> (asset_payload \<times> byte list, string) result" where
  "unmarshal_header_statement r =
    rbind (rv r) (\<lambda>(bv, r).
    rbind (tx_take 32 r) (\<lambda>(sc, r).
    rbind (tx_take 1 r) (\<lambda>(ty, r).
    rbind (tx_take PAYLOAD_LIMIT r) (\<lambda>(pl, r).
    rbind (st_deserialize r) (\<lambda>(st, r).
    Inr (\<lparr>scid = sc, burn_value = bv, rpc_type = hd ty, rpc_payload = pl, ap_statement = st, ap_proof = None\<rparr>, r))))))"

definition marshal_proofs :: "asset_payload \<Rightarrow> (byte list, failure) result" where
  "marshal_proofs p = (case ap_proof p of None \<Rightarrow> Inl (Msg ''missing proof'') | Some pf \<Rightarrow> proof_serialize pf)"

definition unmarshal_proofs :: "asset_payload \<Rightarrow> byte list \<Rightarrow> (asset_payload \<times> byte list, failure) result" where
  "unmarshal_proofs p r =
    rbind (div_usize (length (publickeylist_pointers (ap_statement p))) (unat (bytes_per_publickey (ap_statement p)))) (\<lambda>count.
    rbind (power_of_2 count) (\<lambda>m.
    rbind (map_err Msg (proof_deserialize r (unat m))) (\<lambda>(pf, r). Inr (p\<lparr>ap_proof := Some pf\<rparr>, r))))"

definition proof_nonce :: "(byte list \<Rightarrow> byte list) \<Rightarrow> asset_payload \<Rightarrow> byte list option" where
  "proof_nonce keccak p = map_option (\<lambda>pf. keccak (compress (pf_u pf))) (ap_proof p)"

section \<open>Serialization\<close>

text \<open>\<open>expect\<close>: an error becomes a panic.\<close>

definition expect :: "('a, failure) result \<Rightarrow> ('a, failure) result" where
  "expect r = (case r of Inl _ \<Rightarrow> Inl Panic | Inr x \<Rightarrow> Inr x)"

fun concat_results :: "('a \<Rightarrow> (byte list, failure) result) \<Rightarrow> 'a list \<Rightarrow> (byte list, failure) result" where
  "concat_results f [] = Inr []"
| "concat_results f (x # xs) = rbind (expect (f x)) (\<lambda>b. rbind (concat_results f xs) (\<lambda>bs. Inr (b @ bs)))"

definition serialize_header :: "(byte list \<Rightarrow> byte list) \<Rightarrow> transaction \<Rightarrow> (byte list, failure) result" where
  "serialize_header gsum tx =
    rbind
      (if tx_type tx \<in> {Burn, Normal, Sc} then
         rbind (concat_results (marshal_header_statement gsum) (payloads tx)) (\<lambda>ps.
         Inr (put_uvarint [] (tx_height tx) @ blid tx @ put_uvarint [] (of_nat (length (payloads tx))) @ ps))
       else Inr [])
      (\<lambda>body. Inr (put_uvarint [] (version tx) @ put_uvarint [] (source_network tx) @ put_uvarint [] (dest_network tx)
        @ put_uvarint [] (type_code (tx_type tx))
        @ (if tx_type tx \<in> {Premine, Sc} then put_uvarint [] (tx_value tx) else [])
        @ (if tx_type tx \<in> {Premine, Coinbase, Registration} then miner_address tx else [])
        @ (if tx_type tx = Registration then tx_c tx @ tx_s tx else [])
        @ body
        @ (if tx_type tx = Sc then put_uvarint [] (of_nat (length (scdata tx))) @ scdata tx else [])))"

definition tx_serialize :: "(byte list \<Rightarrow> byte list) \<Rightarrow> transaction \<Rightarrow> (byte list, failure) result" where
  "tx_serialize gsum tx =
    rbind (serialize_header gsum tx) (\<lambda>out. rbind (concat_results marshal_proofs (payloads tx)) (\<lambda>ps. Inr (out @ ps)))"

definition serialize_core_statement :: "(byte list \<Rightarrow> byte list) \<Rightarrow> transaction \<Rightarrow> (byte list, failure) result" where
  "serialize_core_statement gsum tx = serialize_header gsum tx"

definition tx_get_hash :: "(byte list \<Rightarrow> byte list) \<Rightarrow> (byte list \<Rightarrow> byte list) \<Rightarrow> transaction \<Rightarrow> (byte list, failure) result" where
  "tx_get_hash keccak gsum tx = rbind (serialize_core_statement gsum tx) (\<lambda>b. Inr (keccak b))"

section \<open>Predicates and fees\<close>

definition is_coinbase :: "transaction \<Rightarrow> bool" where "is_coinbase tx \<longleftrightarrow> tx_type tx = Coinbase"
definition is_registration :: "transaction \<Rightarrow> bool" where "is_registration tx \<longleftrightarrow> tx_type tx = Registration"
definition is_premine :: "transaction \<Rightarrow> bool" where "is_premine tx \<longleftrightarrow> tx_type tx = Premine"
definition is_sc :: "transaction \<Rightarrow> bool" where "is_sc tx \<longleftrightarrow> tx_type tx = Sc"
definition is_proof_required :: "transaction \<Rightarrow> bool" where
  "is_proof_required tx \<longleftrightarrow> \<not> (is_coinbase tx \<or> is_registration tx \<or> is_premine tx)"

text \<open>The release build sums with wrap-around.\<close>

definition fees :: "transaction \<Rightarrow> u64" where
  "fees tx = sum_list (map (st_fees \<circ> ap_statement) (filter (\<lambda>p. scid p = replicate 32 0) (payloads tx)))"

definition gas_storage :: "transaction \<Rightarrow> u64" where "gas_storage tx = fees tx"

definition payload_nonces :: "(byte list \<Rightarrow> byte list) \<Rightarrow> transaction \<Rightarrow> byte list list" where
  "payload_nonces keccak tx = List.map_filter (proof_nonce keccak) (payloads tx)"

section \<open>Deserialization\<close>

fun read_proofs :: "asset_payload list \<Rightarrow> byte list \<Rightarrow> (asset_payload list \<times> byte list, failure) result" where
  "read_proofs [] r = Inr ([], r)"
| "read_proofs (p # ps) r = rbind (unmarshal_proofs p r) (\<lambda>(p, r). rbind (read_proofs ps r) (\<lambda>(ps, r). Inr (p # ps, r)))"

definition read_if :: "bool \<Rightarrow> (byte list \<Rightarrow> ('a \<times> byte list, failure) result) \<Rightarrow> 'a \<Rightarrow> byte list \<Rightarrow> ('a \<times> byte list, failure) result" where
  "read_if c f d r = (if c then f r else Inr (d, r))"

definition read_body :: "byte list \<Rightarrow> ((u64 \<times> byte list \<times> asset_payload list) \<times> byte list, failure) result" where
  "read_body r =
    rbind (map_err Msg (rv r)) (\<lambda>(h, r).
    rbind (map_err Msg (tx_take 32 r)) (\<lambda>(bid, r).
    rbind (map_err Msg (rv r)) (\<lambda>(asset_count, r).
    if asset_count < 1 then Inl (Msg ''invalid asset_count in transaction'')
    else rbind (map_err Msg (read_n unmarshal_header_statement (unat asset_count) r)) (\<lambda>(ps, r). Inr ((h, bid, ps), r)))))"

definition read_scdata :: "byte list \<Rightarrow> (byte list \<times> byte list, failure) result" where
  "read_scdata r =
    rbind (map_err Msg (rv r)) (\<lambda>(sc_len, r).
    rbind (map_err Msg (tx_take (unat sc_len) r)) (\<lambda>(raw, r).
    case recanonicalize raw of None \<Rightarrow> Inl (Msg ''tx: invalid scdata'') | Some sd \<Rightarrow> Inr (sd, r)))"

text \<open>The fields after the type byte; \<open>len\<close> is the length of the whole buffer.\<close>

definition read_fields :: "nat \<Rightarrow> u64 \<Rightarrow> u64 \<Rightarrow> u64 \<Rightarrow> transaction_type \<Rightarrow> byte list
    \<Rightarrow> (transaction \<times> nat, failure) result" where
  "read_fields len ver sn dn ty r =
    rbind (read_if (ty \<in> {Premine, Sc}) (\<lambda>r. map_err Msg (rv r)) 0 r) (\<lambda>(val, r).
    rbind (read_if (ty \<in> {Premine, Coinbase, Registration}) (\<lambda>r. map_err Msg (tx_take 33 r)) (replicate 33 0) r) (\<lambda>(addr, r).
    rbind (read_if (ty = Registration) (\<lambda>r. map_err Msg (tx_take 32 r)) (replicate 32 0) r) (\<lambda>(c, r).
    rbind (read_if (ty = Registration) (\<lambda>r. map_err Msg (tx_take 32 r)) (replicate 32 0) r) (\<lambda>(s, r).
    rbind (read_if (ty \<in> {Burn, Normal, Sc}) read_body (0, replicate 32 0, []) r) (\<lambda>((h, bid, ps), r).
    rbind (read_if (ty = Sc) (read_scdata) [] r) (\<lambda>(sd, r).
    rbind (read_if (ty \<in> {Burn, Normal, Sc}) (read_proofs ps) ps r) (\<lambda>(ps, r).
    if r \<noteq> [] \<and> ty \<notin> {Premine, Coinbase} then Inl (Msg ''extra unknown data in transaction'')
    else Inr (\<lparr>version = ver, source_network = sn, dest_network = dn, tx_type = ty, tx_value = val, miner_address = addr,
      tx_c = c, tx_s = s, tx_height = h, blid = bid, payloads = ps, scdata = sd\<rparr>, len - length r))))))))"

definition tx_deserialize :: "byte list \<Rightarrow> (transaction \<times> nat, failure) result" where
  "tx_deserialize buf =
    rbind (map_err Msg (rv buf)) (\<lambda>(ver, r).
    if ver \<noteq> 1 then Inl (Msg ''transaction version != 1'')
    else rbind (map_err Msg (rv r)) (\<lambda>(sn, r).
      rbind (map_err Msg (rv r)) (\<lambda>(dn, r).
      rbind (map_err Msg (rv r)) (\<lambda>(tc, r).
      rbind (map_err Msg (from_u64 tc)) (\<lambda>ty.
      read_fields (length buf) ver sn dn ty r)))))"

definition deserialize_registration :: "byte list \<Rightarrow> (transaction, failure) result" where
  "deserialize_registration buf =
    rbind (tx_deserialize buf) (\<lambda>(tx, _). if tx_type tx \<noteq> Registration then Inl (Msg ''not a registration tx'') else Inr tx)"


section \<open>Round trip\<close>

definition ring_power :: "statement \<Rightarrow> nat" where
  "ring_power s = trailing_zeros (unat (ring_size s))"

definition header_ok :: "asset_payload \<Rightarrow> bool" where
  "header_ok p \<longleftrightarrow> length (scid p) = 32 \<and> length (rpc_payload p) = PAYLOAD_LIMIT \<and> stmt_ok (ring_power (ap_statement p)) (ap_statement p)"

definition payload_ok :: "asset_payload \<Rightarrow> bool" where
  "payload_ok p \<longleftrightarrow> header_ok p \<and> (case ap_proof p of None \<Rightarrow> False | Some pf \<Rightarrow> proof_ok (ring_power (ap_statement p)) pf)"

definition header_bytes :: "asset_payload \<Rightarrow> byte list" where
  "header_bytes p = put_uvarint [] (burn_value p) @ scid p @ [rpc_type p] @ rpc_payload p @ st_bytes (ring_power (ap_statement p)) (ap_statement p)"

definition proofs_bytes :: "asset_payload \<Rightarrow> byte list" where
  "proofs_bytes p = (case ap_proof p of None \<Rightarrow> [] | Some pf \<Rightarrow> proof_bytes (ring_power (ap_statement p)) pf)"

lemma tx_take_append: "length b = n \<Longrightarrow> tx_take n (b @ r) = Inr (b, r)"
  by (simp add: tx_take_def)

lemma tx_take_all: "length b = n \<Longrightarrow> tx_take n b = Inr (b, [])"
  by (simp add: tx_take_def)

lemma rv_put [simp]: "rv (put_uvarint [] x @ r) = Inr (x, r)"
  by (rule uv.dec_enc) simp

lemma marshal_header_ok: "header_ok p \<Longrightarrow> marshal_header_statement gsum p = Inr (header_bytes p)"
  using st_serialize_ok[of "ring_power (ap_statement p)" "ap_statement p" gsum]
  by (simp add: marshal_header_statement_def header_ok_def header_bytes_def)

lemma marshal_proofs_ok: "payload_ok p \<Longrightarrow> marshal_proofs p = Inr (proofs_bytes p)"
  by (auto simp: marshal_proofs_def payload_ok_def proof_serialize_ok proofs_bytes_def split: option.splits)

interpretation hs: prefix_codec header_bytes unmarshal_header_statement "\<lambda>p. header_ok p \<and> ap_proof p = None"
proof
  fix p rest assume p: "header_ok p \<and> ap_proof p = None"
  have one: "tx_take (Suc 0) (b # r) = Inr ([b], r)" for b r by (simp add: tx_take_def)
  show "unmarshal_header_statement (header_bytes p @ rest) = Inr (p, rest)"
    using p by (simp add: unmarshal_header_statement_def header_bytes_def header_ok_def tx_take_append one st_roundtrip)
qed

lemma unmarshal_proofs_ok:
  assumes "payload_ok p"
  shows "unmarshal_proofs (p\<lparr>ap_proof := None\<rparr>) (proofs_bytes p @ r) = Inr (p, r)"
proof -
  let ?s = "ap_statement p" and ?k = "ring_power (ap_statement p)"
  obtain pf where pf: "ap_proof p = Some pf" "proof_ok ?k pf" and s: "stmt_ok ?k ?s"
    using assms by (auto simp: payload_ok_def header_ok_def split: option.splits)
  have b: "0 < unat (bytes_per_publickey ?s)" "?k \<le> 7" using s by (simp_all add: stmt_ok_def unat_gt_0)
  have d: "length (publickeylist_pointers ?s) div unat (bytes_per_publickey ?s) = 2 ^ ?k" using s b by (simp add: stmt_ok_def)
  have k: "unat (of_nat ?k :: byte) = ?k" using b(2) by (simp add: unat_of_nat_byte)
  have u: "p\<lparr>ap_proof := Some pf\<rparr> = p" using pf(1) by (cases p) simp
  show ?thesis using b d k pf u proof_roundtrip[OF pf(2)]
    by (simp add: unmarshal_proofs_def div_usize_def power_of_2_pow proofs_bytes_def)
qed

lemma read_proofs_ok:
  "\<forall>p\<in>set ps. payload_ok p \<Longrightarrow> read_proofs (map (\<lambda>p. p\<lparr>ap_proof := None\<rparr>) ps) (concat (map proofs_bytes ps) @ r) = Inr (ps, r)"
  by (induction ps) (simp_all add: unmarshal_proofs_ok)

lemma read_headers_ok:
  assumes "\<forall>p\<in>set ps. payload_ok p"
  shows "read_n unmarshal_header_statement (length ps) (concat (map header_bytes ps) @ r) = Inr (map (\<lambda>p. p\<lparr>ap_proof := None\<rparr>) ps, r)"
proof -
  have m: "map header_bytes (map (\<lambda>p. p\<lparr>ap_proof := None\<rparr>) ps) = map header_bytes ps" by (simp add: header_bytes_def)
  have "\<forall>p\<in>set (map (\<lambda>p. p\<lparr>ap_proof := None\<rparr>) ps). header_ok p \<and> ap_proof p = None"
    using assms by (auto simp: payload_ok_def header_ok_def)
  from hs.read_n_concat[OF this, of r] show ?thesis unfolding m by simp
qed

lemma concat_results_ok: "\<forall>x\<in>set xs. f x = Inr (g x) \<Longrightarrow> concat_results f xs = Inr (concat (map g xs))"
  by (induction xs) (simp_all add: expect_def)

text \<open>A transaction as the decoder builds it: the fields its type does not carry have the default value.\<close>

definition tx_ok :: "transaction \<Rightarrow> bool" where
  "tx_ok tx \<longleftrightarrow> version tx = 1 \<and> length (miner_address tx) = 33 \<and> length (tx_c tx) = 32 \<and> length (tx_s tx) = 32 \<and> length (blid tx) = 32
    \<and> (tx_type tx \<notin> {Premine, Sc} \<longrightarrow> tx_value tx = 0)
    \<and> (tx_type tx \<notin> {Premine, Coinbase, Registration} \<longrightarrow> miner_address tx = replicate 33 0)
    \<and> (tx_type tx \<noteq> Registration \<longrightarrow> tx_c tx = replicate 32 0 \<and> tx_s tx = replicate 32 0)
    \<and> (if tx_type tx \<in> {Burn, Normal, Sc} then payloads tx \<noteq> [] \<and> length (payloads tx) < 2 ^ 64 \<and> (\<forall>p\<in>set (payloads tx). payload_ok p)
       else tx_height tx = 0 \<and> blid tx = replicate 32 0 \<and> payloads tx = [])
    \<and> (if tx_type tx = Sc then length (scdata tx) < 2 ^ 64 \<and> recanonicalize (scdata tx) = Some (scdata tx) else scdata tx = [])"

definition body_bytes :: "transaction \<Rightarrow> byte list" where
  "body_bytes tx = put_uvarint [] (tx_height tx) @ blid tx @ put_uvarint [] (of_nat (length (payloads tx))) @ concat (map header_bytes (payloads tx))"

definition tx_bytes :: "transaction \<Rightarrow> byte list" where
  "tx_bytes tx = put_uvarint [] (version tx) @ put_uvarint [] (source_network tx) @ put_uvarint [] (dest_network tx)
        @ put_uvarint [] (type_code (tx_type tx))
        @ (if tx_type tx \<in> {Premine, Sc} then put_uvarint [] (tx_value tx) else [])
        @ (if tx_type tx \<in> {Premine, Coinbase, Registration} then miner_address tx else [])
        @ (if tx_type tx = Registration then tx_c tx @ tx_s tx else [])
        @ (if tx_type tx \<in> {Burn, Normal, Sc} then body_bytes tx else [])
        @ (if tx_type tx = Sc then put_uvarint [] (of_nat (length (scdata tx))) @ scdata tx else [])
        @ concat (map proofs_bytes (payloads tx))"

lemma tx_serialize_ok:
  assumes "tx_ok tx"
  shows "tx_serialize gsum tx = Inr (tx_bytes tx)"
proof -
  have p: "\<forall>p\<in>set (payloads tx). payload_ok p" using assms by (auto simp: tx_ok_def split: if_splits)
  then have h: "concat_results (marshal_header_statement gsum) (payloads tx) = Inr (concat (map header_bytes (payloads tx)))"
    by (intro concat_results_ok) (auto simp: payload_ok_def marshal_header_ok)
  have q: "concat_results marshal_proofs (payloads tx) = Inr (concat (map proofs_bytes (payloads tx)))"
    using p by (intro concat_results_ok) (auto simp: marshal_proofs_ok)
  show ?thesis using h q by (simp add: tx_serialize_def serialize_header_def tx_bytes_def body_bytes_def)
qed

lemma from_u64_code [simp]: "from_u64 (type_code t) = Inr t"
  by (cases t) (simp_all add: from_u64_def)

lemma read_body_ok:
  assumes "tx_ok tx" "tx_type tx \<in> {Burn, Normal, Sc}"
  shows "read_body (body_bytes tx @ r) = Inr ((tx_height tx, blid tx, map (\<lambda>p. p\<lparr>ap_proof := None\<rparr>) (payloads tx)), r)"
proof -
  let ?n = "of_nat (length (payloads tx)) :: u64"
  have t: "payloads tx \<noteq> []" "length (payloads tx) < 2 ^ 64" "\<forall>p\<in>set (payloads tx). payload_ok p" "length (blid tx) = 32"
    using assms unfolding tx_ok_def by presburger+
  have n: "unat ?n = length (payloads tx)" using t(2) by (simp add: unsigned_of_nat take_bit_nat_eq_self)
  then have "\<not> ?n < 1" using t(1) by (simp add: word_less_nat_alt)
  then show ?thesis using t(4) n read_headers_ok[OF t(3)] by (simp add: read_body_def body_bytes_def tx_take_append)
qed

lemma read_scdata_ok:
  assumes "tx_ok tx" "tx_type tx = Sc"
  shows "read_scdata (put_uvarint [] (of_nat (length (scdata tx))) @ scdata tx @ r) = Inr (scdata tx, r)"
proof -
  have t: "length (scdata tx) < 2 ^ 64" "recanonicalize (scdata tx) = Some (scdata tx)" using assms by (simp_all add: tx_ok_def)
  then have "unat (of_nat (length (scdata tx)) :: u64) = length (scdata tx)" by (simp add: unsigned_of_nat take_bit_nat_eq_self)
  then show ?thesis using t by (simp add: read_scdata_def tx_take_append)
qed

definition field_bytes :: "transaction \<Rightarrow> byte list" where
  "field_bytes tx = (if tx_type tx \<in> {Premine, Sc} then put_uvarint [] (tx_value tx) else [])
        @ (if tx_type tx \<in> {Premine, Coinbase, Registration} then miner_address tx else [])
        @ (if tx_type tx = Registration then tx_c tx @ tx_s tx else [])
        @ (if tx_type tx \<in> {Burn, Normal, Sc} then body_bytes tx else [])
        @ (if tx_type tx = Sc then put_uvarint [] (of_nat (length (scdata tx))) @ scdata tx else [])
        @ concat (map proofs_bytes (payloads tx))"

lemma read_fields_ok:
  assumes tx: "tx_ok tx" and rest: "rest = [] \<or> tx_type tx \<in> {Premine, Coinbase}"
  shows "read_fields n (version tx) (source_network tx) (dest_network tx) (tx_type tx) (field_bytes tx @ rest) = Inr (tx, n - length rest)"
proof (cases "tx_type tx \<in> {Burn, Normal, Sc}")
  case True
  have z: "miner_address tx = replicate 33 0" "tx_c tx = replicate 32 0" "tx_s tx = replicate 32 0" "tx_type tx \<noteq> Sc \<Longrightarrow> tx_value tx = 0 \<and> scdata tx = []"
    using tx True by (auto simp: tx_ok_def)
  have pr: "read_proofs (map (\<lambda>p. p\<lparr>ap_proof := None\<rparr>) (payloads tx)) (concat (map proofs_bytes (payloads tx)) @ r) = Inr (payloads tx, r)" for r
    using tx True by (intro read_proofs_ok) (auto simp: tx_ok_def)
  note bd = read_body_ok[OF tx True] and sd = read_scdata_ok[OF tx]
  have r: "rest = []" using rest True by auto
  show ?thesis
  proof (cases "tx_type tx = Sc")
    case True
    then show ?thesis using z(1-3) bd sd[OF True] pr[of "[]"] by (simp add: r field_bytes_def read_fields_def read_if_def)
  next
    case False
    then show ?thesis using True z bd pr[of "[]"] by (auto simp: r field_bytes_def read_fields_def read_if_def)
  qed
next
  case False
  have z: "tx_height tx = 0" "blid tx = replicate 32 0" "payloads tx = []" "scdata tx = []" "length (miner_address tx) = 33"
    "length (tx_c tx) = 32" "length (tx_s tx) = 32" "tx_type tx \<noteq> Premine \<Longrightarrow> tx_value tx = 0"
    "tx_type tx \<noteq> Registration \<Longrightarrow> tx_c tx = replicate 32 0 \<and> tx_s tx = replicate 32 0" using tx False by (auto simp: tx_ok_def)
  from False consider "tx_type tx = Premine" | "tx_type tx = Coinbase" | "tx_type tx = Registration" by (cases "tx_type tx") auto
  then show ?thesis
    by cases (use rest z in \<open>simp_all add: field_bytes_def read_fields_def read_if_def tx_take_append tx_take_all\<close>)
qed

lemma tx_roundtrip_bytes:
  assumes tx: "tx_ok tx" and rest: "rest = [] \<or> tx_type tx \<in> {Premine, Coinbase}"
  shows "tx_deserialize (tx_bytes tx @ rest) = Inr (tx, length (tx_bytes tx))"
proof -
  have b: "tx_bytes tx = put_uvarint [] (version tx) @ put_uvarint [] (source_network tx) @ put_uvarint [] (dest_network tx)
    @ put_uvarint [] (type_code (tx_type tx)) @ field_bytes tx" by (simp only: tx_bytes_def field_bytes_def)
  have v: "version tx = 1" using tx by (simp add: tx_ok_def)
  have "tx_deserialize (tx_bytes tx @ rest)
    = read_fields (length (tx_bytes tx @ rest)) (version tx) (source_network tx) (dest_network tx) (tx_type tx) (field_bytes tx @ rest)"
    unfolding tx_deserialize_def unfolding b append_assoc rv_put by (simp add: v)
  then show ?thesis unfolding read_fields_ok[OF assms] by simp
qed


section \<open>Panics of the decoder\<close>

lemma unat_ring: "k < 64 \<Longrightarrow> unat (2 ^ k :: u64) = 2 ^ k"
proof -
  assume k: "k < 64"
  have "unat (of_nat (2 ^ k) :: u64) = 2 ^ k"
    using k by (simp only: unsigned_of_nat) (simp add: take_bit_nat_eq_self_iff)
  then show ?thesis by simp
qed

lemma st_deserialize_ring:
  assumes "st_deserialize r = Inr (s, r')"
  shows "bytes_per_publickey s \<noteq> 0 \<and> length (publickeylist_pointers s) = unat (ring_size s) * unat (bytes_per_publickey s)
    \<and> (ring_size s = 0 \<or> (\<exists>k\<le>7. ring_size s = push_bit k 1))"
proof -
  obtain b r1 b2 r2 fees r3 d r4 ptrs r5 where h: "\<not> ring_of_power (hd b) > 128" "hd b2 \<noteq> 0"
    "read_take (unat (ring_of_power (hd b)) * unat (hd b2)) r4 = Inr (ptrs, r5)"
    "ring_size s = ring_of_power (hd b)" "bytes_per_publickey s = hd b2" "publickeylist_pointers s = ptrs"
    using assms by (auto simp: st_deserialize_def Let_def split: if_splits)
  have "length ptrs = unat (ring_of_power (hd b)) * unat (hd b2)" using h(3) by (auto simp: read_take_def split: if_splits)
  moreover have "ring_of_power (hd b) = 0 \<or> (\<exists>k\<le>7. ring_of_power (hd b) = push_bit k 1)"
  proof (cases "unat (hd b) < 64")
    case True
    then have "unat (ring_of_power (hd b)) = 2 ^ unat (hd b)" by (simp add: ring_of_power_def unat_ring)
    then have "(2 :: nat) ^ unat (hd b) \<le> 2 ^ 7" using h(1) by (simp add: word_less_nat_alt not_less)
    then have "unat (hd b) \<le> 7" by (simp only: power_increasing_iff)
    then show ?thesis using True by (auto simp: ring_of_power_def)
  qed (simp add: ring_of_power_def)
  ultimately show ?thesis using h by simp
qed

lemma unmarshal_header_ring:
  "unmarshal_header_statement r = Inr (p, r') \<Longrightarrow> \<exists>q q'. st_deserialize q = Inr (ap_statement p, q')"
  by (fastforce simp: unmarshal_header_statement_def)

lemma read_n_mem: "read_n d n r = Inr (xs, r') \<Longrightarrow> x \<in> set xs \<Longrightarrow> \<exists>q q'. d q = Inr (x, q')"
  by (induction n arbitrary: r xs) (simp, fastforce)

lemma map_err_Msg_not_panic [simp]: "map_err Msg x \<noteq> Inl Panic"
  by (cases x) simp_all

lemma unmarshal_proofs_panic:
  assumes "st_deserialize q = Inr (ap_statement p, q')" "unmarshal_proofs p r = Inl Panic"
  shows "ring_size (ap_statement p) = 0"
proof (rule ccontr)
  assume ne: "ring_size (ap_statement p) \<noteq> 0"
  note s = st_deserialize_ring[OF assms(1)]
  then obtain k where k: "k \<le> 7" "ring_size (ap_statement p) = push_bit k 1" using ne by auto
  have "0 < unat (bytes_per_publickey (ap_statement p))" using s by (simp add: unat_gt_0)
  then have "div_usize (length (publickeylist_pointers (ap_statement p))) (unat (bytes_per_publickey (ap_statement p))) = Inr (2 ^ k)"
    using s unat_ring[of k] k by (simp add: div_usize_def)
  then show False using assms(2) by (auto simp: unmarshal_proofs_def power_of_2_pow rbind_eq_Inl split: prod.splits)
qed

lemma unmarshal_proofs_panic_iff:
  assumes "st_deserialize q = Inr (ap_statement p, q')"
  shows "unmarshal_proofs p r = Inl Panic \<longleftrightarrow> ring_size (ap_statement p) = 0"
proof
  assume z: "ring_size (ap_statement p) = 0"
  note s = st_deserialize_ring[OF assms]
  have "div_usize (length (publickeylist_pointers (ap_statement p))) (unat (bytes_per_publickey (ap_statement p))) = Inr 0"
    using s z by (simp add: div_usize_def unat_eq_zero)
  then show "unmarshal_proofs p r = Inl Panic" by (simp add: unmarshal_proofs_def power_of_2_def)
qed (rule unmarshal_proofs_panic[OF assms])

lemma read_proofs_panic_iff:
  "\<forall>p\<in>set ps. \<exists>q q'. st_deserialize q = Inr (ap_statement p, q') \<Longrightarrow> read_proofs ps r = Inl Panic \<longleftrightarrow>
     (\<exists>ps1 p ps2 qs r'. ps = ps1 @ p # ps2 \<and> read_proofs ps1 r = Inr (qs, r') \<and> ring_size (ap_statement p) = 0)"
proof (induction ps arbitrary: r)
  case (Cons p ps)
  have p: "unmarshal_proofs p r = Inl Panic \<longleftrightarrow> ring_size (ap_statement p) = 0"
    using Cons.prems unmarshal_proofs_panic_iff by auto
  have rest: "\<forall>p\<in>set ps. \<exists>q q'. st_deserialize q = Inr (ap_statement p, q')" using Cons.prems by simp
  have IH: "read_proofs ps r' = Inl Panic \<longleftrightarrow>
     (\<exists>ps1 p ps2 qs r''. ps = ps1 @ p # ps2 \<and> read_proofs ps1 r' = Inr (qs, r'') \<and> ring_size (ap_statement p) = 0)" for r'
    by (rule Cons.IH[OF rest])
  show ?case
  proof (cases "unmarshal_proofs p r")
    case (Inl e)
    have "(\<exists>ps1 p' ps2 qs r'. p # ps = ps1 @ p' # ps2 \<and> read_proofs ps1 r = Inr (qs, r') \<and> ring_size (ap_statement p') = 0)
        \<longleftrightarrow> ring_size (ap_statement p) = 0" (is "?ex \<longleftrightarrow> _")
    proof
      assume ?ex
      then obtain ps1 p' ps2 qs r' where e: "p # ps = ps1 @ p' # ps2" "read_proofs ps1 r = Inr (qs, r')" "ring_size (ap_statement p') = 0"
        by blast
      then show "ring_size (ap_statement p) = 0" using Inl by (cases ps1) auto
    next
      assume "ring_size (ap_statement p) = 0"
      then have "p # ps = [] @ p # ps \<and> read_proofs [] r = Inr ([], r) \<and> ring_size (ap_statement p) = 0" by simp
      then show ?ex by blast
    qed
    then show ?thesis using p Inl by simp
  next
    case (Inr x)
    obtain p1 r1 where x: "x = (p1, r1)" by force
    have nz: "ring_size (ap_statement p) \<noteq> 0" using p Inr by simp
    have "read_proofs (p # ps) r = Inl Panic \<longleftrightarrow> read_proofs ps r1 = Inl Panic"
      using Inr x by (auto simp: rbind_eq_Inl split: prod.splits)
    also have "\<dots> \<longleftrightarrow> (\<exists>ps1 p' ps2 qs r'. p # ps = (p # ps1) @ p' # ps2 \<and> read_proofs (p # ps1) r = Inr (qs, r') \<and> ring_size (ap_statement p') = 0)"
      unfolding IH using Inr x by auto
    also have "\<dots> \<longleftrightarrow> (\<exists>ps1 p' ps2 qs r'. p # ps = ps1 @ p' # ps2 \<and> read_proofs ps1 r = Inr (qs, r') \<and> ring_size (ap_statement p') = 0)"
      (is "?a \<longleftrightarrow> ?b")
    proof
      assume ?b
      then obtain ps1 p' ps2 qs r' where e: "p # ps = ps1 @ p' # ps2" "read_proofs ps1 r = Inr (qs, r')" "ring_size (ap_statement p') = 0"
        by blast
      then obtain ps1' where "ps1 = p # ps1'" using nz by (cases ps1) auto
      then show ?a using e by blast
    qed blast
    finally show ?thesis .
  qed
qed simp

lemma read_body_statements:
  assumes "read_body r = Inr ((h, bid, ps), r')"
  shows "\<forall>p\<in>set ps. \<exists>q q'. st_deserialize q = Inr (ap_statement p, q')"
  using assms by (auto simp: read_body_def dest!: read_n_mem unmarshal_header_ring split: if_splits)

lemma read_body_no_panic: "read_body r \<noteq> Inl Panic"
  by (auto simp: read_body_def rbind_eq_Inl split: prod.splits if_splits)

lemma read_scdata_no_panic: "read_scdata r \<noteq> Inl Panic"
  by (auto simp: read_scdata_def rbind_eq_Inl split: prod.splits option.splits)

text \<open>What the decoder has read when it comes to the proofs: the payloads of the buffer (none for a type without
  payloads) and the bytes that are left.\<close>

definition fields_prefix :: "transaction_type \<Rightarrow> byte list \<Rightarrow> (asset_payload list \<times> byte list, failure) result" where
  "fields_prefix ty r =
    rbind (read_if (ty \<in> {Premine, Sc}) (\<lambda>r. map_err Msg (rv r)) 0 r) (\<lambda>(val, r).
    rbind (read_if (ty \<in> {Premine, Coinbase, Registration}) (\<lambda>r. map_err Msg (tx_take 33 r)) (replicate 33 0) r) (\<lambda>(addr, r).
    rbind (read_if (ty = Registration) (\<lambda>r. map_err Msg (tx_take 32 r)) (replicate 32 0) r) (\<lambda>(c, r).
    rbind (read_if (ty = Registration) (\<lambda>r. map_err Msg (tx_take 32 r)) (replicate 32 0) r) (\<lambda>(s, r).
    rbind (read_if (ty \<in> {Burn, Normal, Sc}) read_body (0, replicate 32 0, []) r) (\<lambda>((h, bid, ps), r).
    rbind (read_if (ty = Sc) (read_scdata) [] r) (\<lambda>(sd, r). Inr (ps, r)))))))"

definition tx_prefix :: "byte list \<Rightarrow> (asset_payload list \<times> byte list, failure) result" where
  "tx_prefix buf =
    rbind (map_err Msg (rv buf)) (\<lambda>(ver, r).
    if ver \<noteq> 1 then Inl (Msg ''transaction version != 1'')
    else rbind (map_err Msg (rv r)) (\<lambda>(sn, r).
      rbind (map_err Msg (rv r)) (\<lambda>(dn, r).
      rbind (map_err Msg (rv r)) (\<lambda>(tc, r).
      rbind (map_err Msg (from_u64 tc)) (\<lambda>ty. fields_prefix ty r)))))"

lemma read_if_no_panic: "(\<And>r. f r \<noteq> Inl Panic) \<Longrightarrow> read_if c f d r \<noteq> Inl Panic"
  by (simp add: read_if_def)

lemma rbind_panic_cong:
  assumes "x \<noteq> Inl Panic" "\<And>v r. x = Inr (v, r) \<Longrightarrow> f (v, r) = Inl Panic \<longleftrightarrow> (\<exists>y. g (v, r) = Inr y \<and> Q y)"
  shows "rbind x f = Inl Panic \<longleftrightarrow> (\<exists>y. rbind x g = Inr y \<and> Q y)"
  using assms by (cases x) auto

abbreviation proofs_panic :: "asset_payload list \<times> byte list \<Rightarrow> bool" where
  "proofs_panic \<equiv> \<lambda>(ps, r). read_proofs ps r = Inl Panic"

lemma read_proofs_end_panic:
  fixes f :: "asset_payload list \<Rightarrow> byte list \<Rightarrow> transaction \<times> nat"
  assumes "ty \<notin> {Burn, Normal, Sc} \<longrightarrow> ps = []"
  shows "rbind (read_if (ty \<in> {Burn, Normal, Sc}) (read_proofs ps) ps r) (\<lambda>(ps, r).
      if r \<noteq> [] \<and> ty \<notin> {Premine, Coinbase} then Inl (Msg ''extra unknown data in transaction'') else Inr (f ps r)) = Inl Panic
    \<longleftrightarrow> read_proofs ps r = Inl Panic"
  using assms by (auto simp: read_if_def rbind_eq_Inl split: prod.splits if_splits)

lemma read_fields_panic_iff:
  "read_fields n ver sn dn ty r = Inl Panic \<longleftrightarrow> (\<exists>y. fields_prefix ty r = Inr y \<and> proofs_panic y)"
proof -
  note np = read_if_no_panic[OF map_err_Msg_not_panic] read_if_no_panic[OF read_body_no_panic] read_if_no_panic[OF read_scdata_no_panic]
  show ?thesis
    unfolding read_fields_def fields_prefix_def
    apply (rule rbind_panic_cong, rule np(1), unfold prod.case)
    apply (rule rbind_panic_cong, rule np(1), unfold prod.case)
    apply (rule rbind_panic_cong, rule np(1), unfold prod.case)
    apply (rule rbind_panic_cong, rule np(1), unfold prod.case)
    apply (rule rbind_panic_cong, rule np(2))
    subgoal for val r1 addr r2 c r3 s r4 body r5
      apply (cases body, hypsubst, unfold prod.case)
      apply (rule rbind_panic_cong, rule np(3), unfold prod.case)
      apply (subst read_proofs_end_panic)
      by (auto simp: read_if_def)
    done
qed

lemma tx_deserialize_panic_iff:
  "tx_deserialize buf = Inl Panic \<longleftrightarrow> (\<exists>y. tx_prefix buf = Inr y \<and> proofs_panic y)"
  unfolding tx_deserialize_def tx_prefix_def
  apply (rule rbind_panic_cong, rule map_err_Msg_not_panic)
  subgoal for ver r
  proof (cases "ver = 1")
    case True
    show ?thesis
      unfolding prod.case using True
      apply (simp only: not_True_eq_False simp_thms if_False)
      apply (rule rbind_panic_cong, rule map_err_Msg_not_panic, unfold prod.case)
      apply (rule rbind_panic_cong, rule map_err_Msg_not_panic, unfold prod.case)
      apply (rule rbind_panic_cong, rule map_err_Msg_not_panic, unfold prod.case)
      subgoal for sn r1 dn r2 tc r3
        by (cases "from_u64 tc") (simp_all add: read_fields_panic_iff)
      done
  qed simp
  done

lemma tx_prefix_statements:
  assumes "tx_prefix buf = Inr (ps, r)"
  shows "\<forall>p\<in>set ps. \<exists>q q'. st_deserialize q = Inr (ap_statement p, q')"
proof -
  obtain c q h bid r' where b: "read_if c read_body (0, replicate 32 0, []) q = Inr ((h, bid, ps), r')"
    using assms by (auto simp: tx_prefix_def fields_prefix_def split: if_splits)
  show ?thesis
  proof (cases c)
    case True
    then show ?thesis using b read_body_statements by (simp add: read_if_def)
  next
    case False
    then show ?thesis using b by (simp add: read_if_def)
  qed
qed

section \<open>Properties of the wire format\<close>

text \<open>A transfer in a ring of two, with every point the affine point with ordinate one.\<close>

definition sample_statement :: statement where
  "sample_statement = \<lparr>ring_size = 2, cln = [], crn = [], bytes_per_publickey = 1, publickeylist_pointers = [7, 8], publickeylist = [],
    st_c = [unit_y_point, unit_y_point], st_d = unit_y_point, st_fees = 300, roothash = replicate 32 5\<rparr>"

definition sample_proof :: proof_data where
  "sample_proof = \<lparr>pf_ba = unit_y_point, pf_bs = unit_y_point, pf_a = unit_y_point, pf_b = unit_y_point, cln_g = [unit_y_point],
    crn_g = [unit_y_point], c_0g = [unit_y_point], dg = [unit_y_point], y_0g = [unit_y_point], g_g = [unit_y_point], c_xg = [unit_y_point],
    y_xg = [unit_y_point], pf_u = unit_y_point, pf_f = [1, 2], z_a = 3, t_1 = unit_y_point, t_2 = unit_y_point, pf_that = 4, pf_mu = 5,
    pf_c = 6, s_sk = 7, s_r = 8, s_b = 9, s_tau = 10,
    pf_ip = \<lparr>ip_a = 11, ip_b = 12, ip_ls = replicate 7 unit_y_point, ip_rs = replicate 7 unit_y_point\<rparr>\<rparr>"

definition sample_tx :: transaction where
  "sample_tx = tx_default\<lparr>tx_type := Sc, tx_height := 99, scdata := marshal_binary demo_args,
    payloads := [\<lparr>scid = replicate 32 0, burn_value = 0, rpc_type = 0, rpc_payload = replicate 145 1, ap_statement = sample_statement,
      ap_proof = Some sample_proof\<rparr>]\<rparr>"

lemma unit_y_point_ok: "point_ok unit_y_point"
proof -
  note u = unit_y_point_facts
  have "unit_y_point \<noteq> infinity" using u(4) infinity_inv(2) by auto
  moreover have "euler_ok (nat (fv (cy unit_y_point)))" by (simp add: euler_ok_def u(3) field_prime_def)
  ultimately show ?thesis unfolding point_ok_def using decompress_compress[OF u(1)] by blast
qed

lemma length_demo_payload: "length (marshal_binary demo_args) < 2 ^ 64"
proof -
  have "mset (map (length \<circ> enc_arg) (key_order demo_args)) = mset (map (length \<circ> enc_arg) demo_args)" by (simp add: key_order_def)
  then have "length (concat (map enc_arg (key_order demo_args))) = length (concat (map enc_arg demo_args))"
    by (metis (no_types, lifting) length_concat map_map sum_mset_sum_list)
  moreover have "length (concat (map enc_arg demo_args)) = 21"
    by (simp add: demo_args_def enc_arg_def enc_text_def enc_value_def enc_head_def enc_int_def enc_time_def arg_key_def GO_ZERO_TIME_UNIX_def)
  moreover have "length (enc_head 5 (length demo_args)) = 1" by (simp add: demo_args_def enc_head_def)
  ultimately show ?thesis by (simp add: marshal_binary_eq[OF demo_args_wf])
qed

lemma sample_tx_ok: "tx_ok sample_tx"
proof -
  have r: "ring_power sample_statement = 1"
    by (simp add: ring_power_def sample_statement_def trailing_zeros.simps[of 2] trailing_zeros.simps[of "Suc 0"])
  have s: "stmt_ok 1 sample_statement" by (simp add: stmt_ok_def sample_statement_def vector_ok_def unit_y_point_ok)
  have p: "proof_ok 1 sample_proof"
    by (simp add: proof_ok_def sample_proof_def proof_vectors_def proof_points_def proof_scalars_def vector_ok_def unit_y_point_ok scalar_ok_def ip_ok_def ROUNDS_def)
  show ?thesis using r s p recanonicalize_marshal[OF demo_args_wf] length_demo_payload by (simp add: tx_ok_def sample_tx_def tx_default_def payload_ok_def header_ok_def PAYLOAD_LIMIT_def)
qed

text \<open>C22: Deserializing the serialization of a well-formed transaction of any type gives the transaction back and consumes exactly the bytes
  written; premine and coinbase transactions may be followed by more bytes, as in a block. Serialization of such a transaction never panics.\<close>

theorem tx_roundtrip:
  assumes "tx_ok tx" and "rest = [] \<or> tx_type tx \<in> {Premine, Coinbase}"
  shows "\<exists>out. tx_serialize gsum tx = Inr out \<and> tx_deserialize (out @ rest) = Inr (tx, length out)"
  using tx_serialize_ok[OF assms(1)] tx_roundtrip_bytes[OF assms] by blast

theorem tx_roundtrip_witness:
  "\<exists>out. tx_serialize (\<lambda>b. b) sample_tx = Inr out \<and> tx_deserialize (out @ []) = Inr (sample_tx, length out)"
  by (rule tx_roundtrip[OF sample_tx_ok]) simp

text \<open>The bytes of a transfer whose statement announces a ring of \<open>2 ^ 64\<close> members.\<close>

definition empty_ring_tx :: "byte list" where
  "empty_ring_tx = [1, 0, 0, 3, 0] @ replicate 32 0 @ [1] @ [0] @ replicate 32 0 @ [0] @ replicate 145 0
    @ [64, 1, 0] @ compress unit_y_point @ replicate 32 0"

lemma rv_small: "b < 0x80 \<Longrightarrow> rv (b # r) = Inr (ucast b, r)"
  by (simp add: rv_def read_uvarint_def)

lemma read_varint_small: "b < 0x80 \<Longrightarrow> read_varint (b # r) = Inr (ucast b, r)"
  by (simp add: read_varint_def)

lemma empty_ring_statement:
  "st_deserialize ([64, 1, 0] @ compress unit_y_point @ replicate 32 0 @ r)
    = Inr (\<lparr>ring_size = 0, cln = [], crn = [], bytes_per_publickey = 1, publickeylist_pointers = [], publickeylist = [], st_c = [],
        st_d = unit_y_point, st_fees = 0, roothash = replicate 32 0\<rparr>, r)"
proof -
  have t: "read_take (Suc 0) (b # r) = Inr ([b], r)" "read_take 0 r = Inr ([], r)" for b :: byte and r by (simp_all add: read_take_def)
  show ?thesis using pt.dec_enc[OF unit_y_point_ok] read_take_append[of "replicate 32 0" 32 r]
    by (simp add: st_deserialize_def t ring_of_power_def read_varint_small)
qed

lemma empty_ring_panics: "tx_deserialize empty_ring_tx = Inl Panic"
proof -
  have p: "is_power_of_two 0 = False" by (simp add: is_power_of_two.simps)
  have one: "tx_take (Suc 0) (b # r) = Inr ([b], r)" for b r by (simp add: tx_take_def)
  have n: "read_n d (unat (1 :: u64)) r = read_n d (Suc 0) r" for d :: "byte list \<Rightarrow> (asset_payload \<times> byte list, string) result" and r by simp
  note t = tx_take_append[of "replicate 32 0" 32] tx_take_append[of "replicate 145 0" 145]
  have st: "st_deserialize (64 # 1 # 0 # compress unit_y_point @ replicate 32 0)
    = Inr (\<lparr>ring_size = 0, cln = [], crn = [], bytes_per_publickey = 1, publickeylist_pointers = [], publickeylist = [], st_c = [],
        st_d = unit_y_point, st_fees = 0, roothash = replicate 32 0\<rparr>, [])" using empty_ring_statement[of "[]"] by simp
  have "read_body (0 # replicate 32 0 @ 1 # 0 # replicate 32 0 @ 0 # replicate 145 0 @ 64 # 1 # 0 # compress unit_y_point @ replicate 32 0)
    = Inr ((0, replicate 32 0, [\<lparr>scid = replicate 32 0, burn_value = 0, rpc_type = 0, rpc_payload = replicate 145 0,
        ap_statement = \<lparr>ring_size = 0, cln = [], crn = [], bytes_per_publickey = 1, publickeylist_pointers = [], publickeylist = [], st_c = [],
        st_d = unit_y_point, st_fees = 0, roothash = replicate 32 0\<rparr>, ap_proof = None\<rparr>]), [])"
    using t by (simp add: read_body_def rv_small unmarshal_header_statement_def one PAYLOAD_LIMIT_def st)
  then show ?thesis
    by (simp add: empty_ring_tx_def tx_deserialize_def rv_small from_u64_def read_fields_def read_if_def unmarshal_proofs_def div_usize_def power_of_2_def p)
qed

text \<open>C23: Exactly which buffers make the transaction decoder panic: those in which, after the headers of all
  payloads were read and the proofs of the payloads before it were decoded, a payload's statement has an empty ring
  (a ring power of 64 or more on the wire, on which the assertion of \<open>power_of_2\<close> fails). No other ring and no other
  byte makes it panic; such buffers exist, a transfer with ring power 64 for one.\<close>

theorem tx_deserialize_panics:
  "(tx_deserialize buf = Inl Panic \<longleftrightarrow>
      (\<exists>ps1 p ps2 r qs r'. tx_prefix buf = Inr (ps1 @ p # ps2, r) \<and> read_proofs ps1 r = Inr (qs, r')
         \<and> ring_size (ap_statement p) = 0))
    \<and> tx_deserialize empty_ring_tx = Inl Panic"
proof -
  have "tx_deserialize buf = Inl Panic \<longleftrightarrow> (\<exists>ps r. tx_prefix buf = Inr (ps, r) \<and> read_proofs ps r = Inl Panic)"
    unfolding tx_deserialize_panic_iff by auto
  also have "\<dots> \<longleftrightarrow> (\<exists>ps r. tx_prefix buf = Inr (ps, r) \<and>
      (\<exists>ps1 p ps2 qs r'. ps = ps1 @ p # ps2 \<and> read_proofs ps1 r = Inr (qs, r') \<and> ring_size (ap_statement p) = 0))"
    using read_proofs_panic_iff[OF tx_prefix_statements] by metis
  also have "\<dots> \<longleftrightarrow> (\<exists>ps1 p ps2 r qs r'. tx_prefix buf = Inr (ps1 @ p # ps2, r) \<and> read_proofs ps1 r = Inr (qs, r')
      \<and> ring_size (ap_statement p) = 0)"
    by metis
  finally show ?thesis using empty_ring_panics by simp
qed

end
