(* ===== verification/Block.thy ===== *)
theory Block
  imports Transaction MiniBlock
begin

text \<open>
  Blocks (\<open>block/src/block.rs\<close>): the wire format, the structural checks on the miniblocks of a block and the check that binds the final
  miniblock to the content of the block. SHA3-256 is a parameter.
\<close>

section \<open>Data and serialization\<close>

definition BLOCK_TIME :: u64 where "BLOCK_TIME = 18"
definition BLOCK_MINIBLOCK_HIGHDIFF :: u64 where "BLOCK_MINIBLOCK_HIGHDIFF = 9"
definition MINIBLOCK_COUNT_SOFT_HF_HEIGHT :: u64 where "MINIBLOCK_COUNT_SOFT_HF_HEIGHT = 399000"

record block =
  major_version :: u64
  minor_version :: u64
  blk_timestamp :: u64
  blk_height :: u64
  miner_tx :: transaction
  blk_proof :: "byte list"
  tips :: "byte list list"
  miniblocks :: "miniblock list"
  tx_hashes :: "byte list list"

definition miniblocks_part :: "bool \<Rightarrow> block \<Rightarrow> byte list" where
  "miniblocks_part skip_last b =
    (if miniblocks b = [] then [0]
     else let n = (if skip_last then length (miniblocks b) - 1 else length (miniblocks b))
       in put_uvarint [] (of_nat n) @ concat (map mbl_serialize (take n (miniblocks b))))"

definition serialize_inner :: "(byte list \<Rightarrow> byte list) \<Rightarrow> bool \<Rightarrow> block \<Rightarrow> (byte list, failure) result" where
  "serialize_inner gsum skip_last b =
    rbind (tx_serialize gsum (miner_tx b)) (\<lambda>mt.
    Inr (put_uvarint [] (major_version b) @ put_uvarint [] (minor_version b) @ u64_be (blk_timestamp b) @ put_uvarint [] (blk_height b)
      @ mt @ blk_proof b
      @ put_uvarint [] (of_nat (length (tips b))) @ concat (tips b)
      @ miniblocks_part skip_last b
      @ put_uvarint [] (of_nat (length (tx_hashes b))) @ concat (tx_hashes b)))"

definition blk_serialize :: "(byte list \<Rightarrow> byte list) \<Rightarrow> block \<Rightarrow> (byte list, failure) result" where
  "blk_serialize gsum b = serialize_inner gsum False b"

definition serialize_without_last_miniblock :: "(byte list \<Rightarrow> byte list) \<Rightarrow> block \<Rightarrow> (byte list, failure) result" where
  "serialize_without_last_miniblock gsum b = serialize_inner gsum True b"

definition blk_get_hash :: "(byte list \<Rightarrow> byte list) \<Rightarrow> (byte list \<Rightarrow> byte list) \<Rightarrow> block \<Rightarrow> (byte list, failure) result" where
  "blk_get_hash sha3 gsum b = rbind (blk_serialize gsum b) (\<lambda>s. Inr (sha3 s))"

definition get_hash_skip_last_miniblock :: "(byte list \<Rightarrow> byte list) \<Rightarrow> (byte list \<Rightarrow> byte list) \<Rightarrow> block \<Rightarrow> (byte list, failure) result" where
  "get_hash_skip_last_miniblock sha3 gsum b = rbind (serialize_without_last_miniblock gsum b) (\<lambda>s. Inr (sha3 s))"

definition get_tips_hash :: "(byte list \<Rightarrow> byte list) \<Rightarrow> block \<Rightarrow> byte list" where
  "get_tips_hash sha3 b = sha3 (concat (tips b))"

definition get_txs_hash :: "(byte list \<Rightarrow> byte list) \<Rightarrow> block \<Rightarrow> byte list" where
  "get_txs_hash sha3 b = sha3 (concat (tx_hashes b))"

section \<open>Checks on the miniblocks\<close>

datatype verify_error = GenesisWithMiniblocks | NoMiniblocks | NoFinalMiniblock | WrongMiniblockCount u64 nat | WrongHeight u64 u64
  | WrongTipCount | NoTip | InvalidTip | SingleTipOnly | WrongNonFinalCount nat u64 | CorruptedBlock | CorruptedHeader "byte list" "byte list" | VerifyPanic

definition check_miniblock :: "block \<Rightarrow> miniblock \<Rightarrow> (unit, verify_error) result" where
  "check_miniblock b m =
    (if blk_height b \<noteq> mbl_height m then Inl (WrongHeight (blk_height b) (mbl_height m))
     else if length (tips b) \<noteq> unat (mbl_past_count m) then Inl WrongTipCount
     else case tips b of
       [] \<Rightarrow> Inl NoTip
     | [tip] \<Rightarrow> if be_u32 (take 4 tip) \<noteq> fst (mbl_past m) then Inl InvalidTip else Inr ()
     | _ \<Rightarrow> Inl SingleTipOnly)"

fun collect_miniblocks :: "block \<Rightarrow> miniblock list \<Rightarrow> mbl_collection \<Rightarrow> (mbl_collection, verify_error) result" where
  "collect_miniblocks b [] c = Inr c"
| "collect_miniblocks b (m # ms) c = rbind (check_miniblock b m) (\<lambda>_. collect_miniblocks b ms (insert_ignore c m))"

definition verify_miniblocks :: "block \<Rightarrow> (unit, verify_error) result" where
  "verify_miniblocks b =
    (if blk_height b = 0 \<and> miniblocks b \<noteq> [] then Inl GenesisWithMiniblocks
     else if blk_height b = 0 then Inr ()
     else if miniblocks b = [] then Inl NoMiniblocks
     else let final_count = length (filter mbl_final (miniblocks b))
       in if final_count < 1 then Inl NoFinalMiniblock
          else let expected = BLOCK_TIME - BLOCK_MINIBLOCK_HIGHDIFF + 1
            in if (of_nat (length (miniblocks b)) :: u64) \<noteq> expected then Inl (WrongMiniblockCount expected (length (miniblocks b)))
               else rbind (collect_miniblocks b (miniblocks b) collection_new) (\<lambda>collection.
                 if blk_height b \<ge> MINIBLOCK_COUNT_SOFT_HF_HEIGHT then
                   let want = BLOCK_TIME - BLOCK_MINIBLOCK_HIGHDIFF
                   in if (of_nat (collection_count collection) :: u64) \<noteq> want then Inl (WrongNonFinalCount (collection_count collection) want) else Inr ()
                 else Inr ()))"

definition verify_miniblocks_hashcheck :: "(byte list \<Rightarrow> byte list) \<Rightarrow> (byte list \<Rightarrow> byte list) \<Rightarrow> block \<Rightarrow> (unit, verify_error) result" where
  "verify_miniblocks_hashcheck sha3 gsum b =
    (if miniblocks b = [] then Inl CorruptedBlock
     else let l = last (miniblocks b)
       in if \<not> mbl_high_diff l then Inl CorruptedBlock
          else if \<not> mbl_final l then Inl CorruptedBlock
          else case serialize_without_last_miniblock gsum b of
            Inl _ \<Rightarrow> Inl VerifyPanic
          | Inr s \<Rightarrow> let h = sha3 s
            in if mbl_key_hash l \<noteq> take 16 h then Inl (CorruptedHeader h (mbl_key_hash l)) else Inr ())"

section \<open>Deserialization\<close>

definition take_varint :: "nat \<Rightarrow> byte list \<Rightarrow> (u64 \<times> byte list, failure) result" where
  "take_varint max_bytes r =
    (let (v, n) = read_uvarint r
     in if n = 0 \<or> (max_bytes \<noteq> 0 \<and> n > max_bytes) then Inl (Msg ''block: invalid varint'') else Inr (v, drop n r))"

definition take_or :: "string \<Rightarrow> nat \<Rightarrow> byte list \<Rightarrow> (byte list \<times> byte list, failure) result" where
  "take_or msg n r = (if length r < n then Inl (Msg msg) else Inr (take n r, drop n r))"

definition take_miniblock :: "byte list \<Rightarrow> (miniblock \<times> byte list, failure) result" where
  "take_miniblock r =
    rbind (take_or ''block: truncated miniblock'' MINIBLOCK_SIZE r) (\<lambda>(b, r). rbind (map_err Msg (mbl_deserialize b)) (\<lambda>m. Inr (m, r)))"

text \<open>\<open>Vec::with_capacity\<close> panics when the bytes asked for exceed \<open>isize::MAX\<close>; the sizes of the elements are 32 and 56 bytes.\<close>

definition with_capacity :: "nat \<Rightarrow> nat \<Rightarrow> (unit, failure) result" where
  "with_capacity elem n = (if n * elem > 2 ^ 63 - 1 then Inl Panic else Inr ())"

definition blk_deserialize :: "byte list \<Rightarrow> (block, failure) result" where
  "blk_deserialize buf =
    rbind (take_varint 0 buf) (\<lambda>(major, r).
    rbind (take_varint 0 r) (\<lambda>(minor, r).
    rbind (take_or ''block: incomplete timestamp'' 8 r) (\<lambda>(ts, r).
    rbind (take_varint 0 r) (\<lambda>(h, r).
    rbind (tx_deserialize r) (\<lambda>(mt, consumed).
    let r = drop consumed r
    in rbind (take_or ''block: incomplete proof'' 32 r) (\<lambda>(pf, r).
      rbind (take_varint 1 r) (\<lambda>(tips_count, r).
      rbind (with_capacity 32 (unat tips_count)) (\<lambda>_.
      rbind (read_n (take_or ''block: truncated tips'' 32) (unat tips_count) r) (\<lambda>(ts_l, r).
      rbind (take_varint 2 r) (\<lambda>(mbl_count, r).
      rbind (with_capacity 56 (unat mbl_count)) (\<lambda>_.
      rbind (read_n take_miniblock (unat mbl_count) r) (\<lambda>(mbls, r).
      rbind (take_varint 0 r) (\<lambda>(tx_count, r).
      rbind (with_capacity 32 (unat tx_count)) (\<lambda>_.
      rbind (read_n (take_or ''block: truncated tx hashes'' 32) (unat tx_count) r) (\<lambda>(hs, r).
      Inr \<lparr>major_version = major, minor_version = minor, blk_timestamp = be_u64 ts, blk_height = h, miner_tx = mt, blk_proof = pf,
        tips = ts_l, miniblocks = mbls, tx_hashes = hs\<rparr>)))))))))))))))"

section \<open>Round trip\<close>

lemma take_or_append: "length b = n \<Longrightarrow> take_or msg n (b @ r) = Inr (b, r)"
  by (simp add: take_or_def)

interpretation h32: prefix_codec "\<lambda>h. h" "take_or msg 32" "\<lambda>h. length h = 32"
  by unfold_locales (rule take_or_append)

definition mbl_ok :: "miniblock \<Rightarrow> bool" where
  "mbl_ok m \<longleftrightarrow> mbl_typed m \<and> sanity_check m = Inr () \<and> mbl_version m = 1"

interpretation mb: prefix_codec mbl_serialize take_miniblock mbl_ok
proof
  fix m rest assume m: "mbl_ok m"
  have "length (mbl_serialize m) = MINIBLOCK_SIZE" using m by (simp add: mbl_ok_def MINIBLOCK_SIZE_def)
  then show "take_miniblock (mbl_serialize m @ rest) = Inr (m, rest)"
    using mbl_deserialize_serialize[of m "[]"] m by (simp add: take_miniblock_def take_or_append mbl_ok_def)
qed

lemma take_varint_put:
  assumes "k = 0 \<or> unat x < 2 ^ (7 * k)"
  shows "take_varint k (put_uvarint [] x @ r) = Inr (x, r)"
  using put_uvarint_length[of x] put_uvarint_length_bound[of x k] assms by (auto simp: take_varint_def read_uvarint_put)

definition blk_ok :: "block \<Rightarrow> bool" where
  "blk_ok b \<longleftrightarrow> tx_ok (miner_tx b) \<and> tx_type (miner_tx b) \<in> {Premine, Coinbase} \<and> length (blk_proof b) = 32
    \<and> length (tips b) < 128 \<and> (\<forall>t\<in>set (tips b). length t = 32)
    \<and> length (miniblocks b) < 16384 \<and> (\<forall>m\<in>set (miniblocks b). mbl_ok m)
    \<and> length (tx_hashes b) < 2 ^ 58 \<and> (\<forall>h\<in>set (tx_hashes b). length h = 32)"

definition blk_bytes :: "block \<Rightarrow> byte list" where
  "blk_bytes b = put_uvarint [] (major_version b) @ put_uvarint [] (minor_version b) @ u64_be (blk_timestamp b) @ put_uvarint [] (blk_height b)
      @ tx_bytes (miner_tx b) @ blk_proof b
      @ put_uvarint [] (of_nat (length (tips b))) @ concat (tips b)
      @ put_uvarint [] (of_nat (length (miniblocks b))) @ concat (map mbl_serialize (miniblocks b))
      @ put_uvarint [] (of_nat (length (tx_hashes b))) @ concat (tx_hashes b)"

lemma put_zero: "put_uvarint [] 0 = [0]"
  by (simp add: put_uvarint_small)

lemma blk_serialize_ok: "blk_ok b \<Longrightarrow> blk_serialize gsum b = Inr (blk_bytes b)"
  using tx_serialize_ok[of "miner_tx b" gsum]
  by (simp add: blk_serialize_def serialize_inner_def blk_ok_def miniblocks_part_def blk_bytes_def put_zero)

lemma without_last_ok:
  assumes "blk_ok b"
  shows "serialize_without_last_miniblock gsum b = Inr (blk_bytes (b\<lparr>miniblocks := butlast (miniblocks b)\<rparr>))"
  using tx_serialize_ok[of "miner_tx b" gsum] assms
  by (simp add: serialize_without_last_miniblock_def serialize_inner_def blk_ok_def miniblocks_part_def blk_bytes_def put_zero butlast_conv_take Let_def)

lemma unat_count: "n < 2 ^ 64 \<Longrightarrow> unat (of_nat n :: u64) = n"
  by (simp add: unsigned_of_nat take_bit_nat_eq_self)

text \<open>The counted parts of a block, up to the transaction hashes.\<close>

lemma counted_parts:
  assumes "length pf = 32" "length ts < 128" "\<forall>t\<in>set ts. length t = 32" "length ms < 16384" "\<forall>m\<in>set ms. mbl_ok m"
  shows "take_varint 0 (put_uvarint [] x @ r) = Inr (x, r)" "take_varint (Suc 0) (put_uvarint [] (of_nat (length ts)) @ r) = Inr (of_nat (length ts), r)"
    "take_varint 2 (put_uvarint [] (of_nat (length ms)) @ r) = Inr (of_nat (length ms), r)"
    "unat (of_nat (length ts) :: u64) = length ts" "unat (of_nat (length ms) :: u64) = length ms"
    "with_capacity 32 (length ts) = Inr ()" "with_capacity 56 (length ms) = Inr ()"
    "read_n (take_or msg 32) (length ts) (concat ts @ r) = Inr (ts, r)"
    "read_n take_miniblock (length ms) (concat (map mbl_serialize ms) @ r) = Inr (ms, r)"
    "take_or msg 32 (pf @ r) = Inr (pf, r)"
proof -
  show u: "unat (of_nat (length ts) :: u64) = length ts" "unat (of_nat (length ms) :: u64) = length ms" using assms(2,4) by (auto intro!: unat_count)
  show "take_varint 0 (put_uvarint [] x @ r) = Inr (x, r)" "take_varint (Suc 0) (put_uvarint [] (of_nat (length ts)) @ r) = Inr (of_nat (length ts), r)"
    "take_varint 2 (put_uvarint [] (of_nat (length ms)) @ r) = Inr (of_nat (length ms), r)"
    using take_varint_put[of 0 x r] take_varint_put[of 1 "of_nat (length ts)" r] take_varint_put[of 2 "of_nat (length ms)" r] u assms(2,4)
    by simp_all
  show "with_capacity 32 (length ts) = Inr ()" "with_capacity 56 (length ms) = Inr ()" using assms(2,4) by (simp_all add: with_capacity_def)
  show "read_n (take_or msg 32) (length ts) (concat ts @ r) = Inr (ts, r)"
    "read_n take_miniblock (length ms) (concat (map mbl_serialize ms) @ r) = Inr (ms, r)"
    using h32.read_n_concat[of ts msg r] mb.read_n_concat[OF assms(5), of r] assms(3) by simp_all
  show "take_or msg 32 (pf @ r) = Inr (pf, r)" by (rule take_or_append[OF assms(1)])
qed

lemma blk_deserialize_bytes:
  assumes b: "blk_ok b"
  shows "blk_deserialize (blk_bytes b @ rest) = Inr b"
proof -
  have c: "tx_ok (miner_tx b)" "tx_type (miner_tx b) \<in> {Premine, Coinbase}" "length (blk_proof b) = 32"
    "length (tips b) < 128" "\<forall>t\<in>set (tips b). length t = 32" "length (miniblocks b) < 16384" "\<forall>m\<in>set (miniblocks b). mbl_ok m"
    "length (tx_hashes b) < 2 ^ 58" "\<forall>h\<in>set (tx_hashes b). length h = 32" using b unfolding blk_ok_def by blast+
  note r = counted_parts[OF c(3-7)]
  have u: "unat (of_nat (length (tx_hashes b)) :: u64) = length (tx_hashes b)" using c(8) by (auto intro!: unat_count)
  have w: "with_capacity 32 (length (tx_hashes b)) = Inr ()" using c(8) by (simp add: with_capacity_def)
  have n: "read_n (take_or msg 32) (length (tx_hashes b)) (concat (tx_hashes b) @ r) = Inr (tx_hashes b, r)" for msg r
    using h32.read_n_concat[of "tx_hashes b" msg r] c(9) by simp
  have t: "tx_deserialize (tx_bytes (miner_tx b) @ r) = Inr (miner_tx b, length (tx_bytes (miner_tx b)))" for r
    using tx_roundtrip_bytes[OF c(1)] c(2) by blast
  have ts: "take_or msg 8 (u64_be x @ r) = Inr (u64_be x, r)" for msg x r by (rule take_or_append) simp
  show ?thesis unfolding blk_deserialize_def blk_bytes_def by (simp add: r ts t u w n)
qed

lemma block_prefix_panics:
  assumes b: "blk_ok b" and e: "tx_hashes b = []" and n: "2 ^ 58 \<le> unat n"
  shows "blk_deserialize (butlast (blk_bytes b) @ put_uvarint [] n @ rest) = Inl Panic"
proof -
  have c: "tx_ok (miner_tx b)" "tx_type (miner_tx b) \<in> {Premine, Coinbase}" "length (blk_proof b) = 32"
    "length (tips b) < 128" "\<forall>t\<in>set (tips b). length t = 32" "length (miniblocks b) < 16384" "\<forall>m\<in>set (miniblocks b). mbl_ok m"
    using b unfolding blk_ok_def by blast+
  have p: "butlast (blk_bytes b) = put_uvarint [] (major_version b) @ put_uvarint [] (minor_version b) @ u64_be (blk_timestamp b) @ put_uvarint [] (blk_height b)
      @ tx_bytes (miner_tx b) @ blk_proof b
      @ put_uvarint [] (of_nat (length (tips b))) @ concat (tips b)
      @ put_uvarint [] (of_nat (length (miniblocks b))) @ concat (map mbl_serialize (miniblocks b))"
    by (simp add: blk_bytes_def e put_zero butlast_append)
  note r = counted_parts[OF c(3-7)]
  have t: "tx_deserialize (tx_bytes (miner_tx b) @ r) = Inr (miner_tx b, length (tx_bytes (miner_tx b)))" for r
    using tx_roundtrip_bytes[OF c(1)] c(2) by blast
  have w: "with_capacity 32 (unat n) = Inl Panic" using n by (simp add: with_capacity_def)
  have ts: "take_or msg 8 (u64_be x @ r) = Inr (u64_be x, r)" for msg x r by (rule take_or_append) simp
  show ?thesis unfolding blk_deserialize_def p by (simp add: r t w ts)
qed

section \<open>What the checks accept\<close>

definition linked :: "block \<Rightarrow> miniblock \<Rightarrow> bool" where
  "linked b m \<longleftrightarrow> mbl_height m = blk_height b \<and> mbl_past_count m = 1 \<and> fst (mbl_past m) = be_u32 (take 4 (hd (tips b)))"

lemma check_miniblock_iff: "check_miniblock b m = Inr () \<longleftrightarrow> length (tips b) = 1 \<and> linked b m"
proof -
  have one: "unat (mbl_past_count m) = 1 \<longleftrightarrow> mbl_past_count m = 1" by (simp add: word_unat_eq_iff)
  show ?thesis
  proof (cases "length (tips b) = 1")
    case True
    then obtain t where "tips b = [t]" by (auto simp: length_Suc_conv)
    then show ?thesis using one by (auto simp: check_miniblock_def linked_def)
  qed (auto simp: check_miniblock_def split: list.splits)
qed

lemma collect_miniblocks_iff:
  "collect_miniblocks b ms c = Inr d \<longleftrightarrow> (\<forall>m\<in>set ms. length (tips b) = 1 \<and> linked b m) \<and> d = foldl insert_ignore c ms"
  by (induction ms arbitrary: c) (auto simp: check_miniblock_iff)

lemma non_final_count: "collection_count (foldl insert_ignore collection_new ms) = card {m \<in> set ms. \<not> mbl_final m}"
proof -
  have "collection_count collection_new = card (members collection_new)" by (simp add: collection_count_def collection_new_def members_def)
  from insert_ignore_all[OF coll_inv_new(1) this, of ms] show ?thesis by simp
qed

lemma verify_miniblocks_spec:
  assumes "length (miniblocks b) < 2 ^ 64"
  shows "verify_miniblocks b = Inr () \<longleftrightarrow>
    (if blk_height b = 0 then miniblocks b = []
     else length (miniblocks b) = 10 \<and> (\<exists>m\<in>set (miniblocks b). mbl_final m) \<and> length (tips b) = 1 \<and> (\<forall>m\<in>set (miniblocks b). linked b m)
       \<and> (399000 \<le> blk_height b \<longrightarrow> card {m \<in> set (miniblocks b). \<not> mbl_final m} = 9))"
proof (cases "blk_height b = 0 \<or> miniblocks b = []")
  case True
  then show ?thesis by (auto simp: verify_miniblocks_def)
next
  case False
  let ?ms = "miniblocks b"
  have n: "(of_nat (length ?ms) :: u64) = BLOCK_TIME - BLOCK_MINIBLOCK_HIGHDIFF + 1 \<longleftrightarrow> length ?ms = 10"
    using unat_count[OF assms] by (simp add: BLOCK_TIME_def BLOCK_MINIBLOCK_HIGHDIFF_def word_unat_eq_iff)
  have f: "\<not> length (filter mbl_final ?ms) < 1 \<longleftrightarrow> (\<exists>m\<in>set ?ms. mbl_final m)" by (auto simp: filter_empty_conv not_less Suc_le_eq)
  have "card {m \<in> set ?ms. \<not> mbl_final m} \<le> length ?ms" using card_length[of ?ms] card_mono[of "set ?ms" "{m \<in> set ?ms. \<not> mbl_final m}"] by auto
  then have k: "(of_nat (card {m \<in> set ?ms. \<not> mbl_final m}) :: u64) = BLOCK_TIME - BLOCK_MINIBLOCK_HIGHDIFF \<longleftrightarrow> card {m \<in> set ?ms. \<not> mbl_final m} = 9"
    using unat_count[of "card {m \<in> set ?ms. \<not> mbl_final m}"] assms by (simp add: BLOCK_TIME_def BLOCK_MINIBLOCK_HIGHDIFF_def word_unat_eq_iff)
  have "verify_miniblocks b = Inr () \<longleftrightarrow> (\<exists>m\<in>set ?ms. mbl_final m) \<and> length ?ms = 10
    \<and> (\<forall>m\<in>set ?ms. length (tips b) = 1 \<and> linked b m) \<and> (399000 \<le> blk_height b \<longrightarrow> card {m \<in> set ?ms. \<not> mbl_final m} = 9)"
    using False unfolding verify_miniblocks_def Let_def n[symmetric] f[symmetric] k[symmetric]
    by (auto simp: collect_miniblocks_iff non_final_count MINIBLOCK_COUNT_SOFT_HF_HEIGHT_def)
  then show ?thesis using False by auto
qed

text \<open>Past the soft fork the ten miniblocks are one final one and nine different ones.\<close>

lemma one_final:
  assumes "length ms = 10" "\<exists>m\<in>set ms. mbl_final m" "card {m \<in> set ms. \<not> mbl_final m} = 9"
  shows "length (filter mbl_final ms) = 1 \<and> distinct (filter (\<lambda>m. \<not> mbl_final m) ms)"
proof -
  have s: "length (filter mbl_final ms) + length (filter (\<lambda>m. \<not> mbl_final m) ms) = 10" using sum_length_filter_compl[of mbl_final ms] assms(1) by simp
  have c: "card (set (filter (\<lambda>m. \<not> mbl_final m) ms)) = 9" using assms(3) by simp
  then have "9 \<le> length (filter (\<lambda>m. \<not> mbl_final m) ms)" using card_length[of "filter (\<lambda>m. \<not> mbl_final m) ms"] by simp
  moreover have "0 < length (filter mbl_final ms)" using assms(2) by (auto simp: filter_empty_conv)
  ultimately have "length (filter mbl_final ms) = 1" "length (filter (\<lambda>m. \<not> mbl_final m) ms) = 9" using s by linarith+
  then show ?thesis using c by (intro conjI card_distinct) simp_all
qed

text \<open>The check of the final miniblock.\<close>

lemma hashcheck_spec:
  assumes "blk_ok b"
  shows "verify_miniblocks_hashcheck sha3 gsum b = Inr () \<longleftrightarrow> miniblocks b \<noteq> [] \<and> mbl_high_diff (last (miniblocks b)) \<and> mbl_final (last (miniblocks b))
    \<and> mbl_key_hash (last (miniblocks b)) = take 16 (sha3 (blk_bytes (b\<lparr>miniblocks := butlast (miniblocks b)\<rparr>)))"
  unfolding verify_miniblocks_hashcheck_def without_last_ok[OF assms] Let_def by auto

lemma blk_ok_butlast: "blk_ok b \<Longrightarrow> blk_ok (b\<lparr>miniblocks := butlast (miniblocks b)\<rparr>)"
  by (auto simp: blk_ok_def dest: in_set_butlastD)

lemma blk_bytes_inj: "blk_ok a \<Longrightarrow> blk_ok b \<Longrightarrow> blk_bytes a = blk_bytes b \<Longrightarrow> a = b"
  using blk_deserialize_bytes[of a "[]"] blk_deserialize_bytes[of b "[]"] by simp


section \<open>Properties of blocks\<close>

definition mbl_at :: "bool \<Rightarrow> u32 \<Rightarrow> byte list \<Rightarrow> miniblock" where
  "mbl_at fin n kh = \<lparr>mbl_version = 1, mbl_high_diff = fin, mbl_final = fin, mbl_past_count = 1, mbl_timestamp = 5, mbl_height = 7000000,
     mbl_past = (0x01010101, 0), mbl_key_hash = kh, mbl_flags = 0, mbl_nonce = (n, 0, 0)\<rparr>"

definition sample_block :: "byte list \<Rightarrow> block" where
  "sample_block kh = \<lparr>major_version = 1, minor_version = 1, blk_timestamp = 0, blk_height = 7000000, miner_tx = new_coinbase (replicate 33 2),
     blk_proof = replicate 32 3, tips = [replicate 32 1],
     miniblocks = map (\<lambda>n. mbl_at False n (replicate 16 0)) [0, 1, 2, 3, 4, 5, 6, 7, 8] @ [mbl_at True 255 kh], tx_hashes = [replicate 32 4]\<rparr>"

lemma mbl_at_final: "mbl_final (mbl_at fin n kh) = fin"
  by (simp add: mbl_at_def)

lemma sample_tip: "be_u32 (replicate 4 1) = 0x01010101"
proof -
  have "replicate 4 (1 :: byte) = [1, 1, 1, 1]" by (simp add: numeral_eq_Suc)
  then show ?thesis by (simp add: be_u32_def be_val_def)
qed

lemma mbl_at_linked: "blk_height b = 7000000 \<Longrightarrow> tips b = [replicate 32 1] \<Longrightarrow> linked b (mbl_at fin n kh)"
  by (simp add: linked_def mbl_at_def sample_tip)

lemma mbl_at_ok: "length kh = 16 \<Longrightarrow> mbl_ok (mbl_at fin n kh)"
  by (simp add: mbl_ok_def mbl_at_def mbl_typed_def sanity_check_def word_le_nat_alt)

lemma coinbase_ok: "length addr = 33 \<Longrightarrow> tx_ok (new_coinbase addr)"
  by (simp add: tx_ok_def new_coinbase_def tx_default_def)

lemma sample_block_ok: "length kh = 16 \<Longrightarrow> blk_ok (sample_block kh)"
  by (auto simp: blk_ok_def sample_block_def coinbase_ok mbl_at_ok) (simp add: new_coinbase_def tx_default_def)

text \<open>C24: Deserializing the serialization of a well-formed block gives the block back, whatever bytes follow, and the serialization does
  not panic.\<close>

theorem block_roundtrip:
  assumes "blk_ok b"
  shows "\<exists>out. blk_serialize gsum b = Inr out \<and> blk_deserialize (out @ rest) = Inr b"
  using blk_serialize_ok[OF assms] blk_deserialize_bytes[OF assms] by blast

theorem block_roundtrip_witness:
  "\<exists>out. blk_serialize (\<lambda>b. b) (sample_block (replicate 16 9)) = Inr out \<and> blk_deserialize (out @ [1]) = Inr (sample_block (replicate 16 9))"
  by (rule block_roundtrip[OF sample_block_ok]) simp

text \<open>C25: The structural check accepts a genesis block without miniblocks, and any other block exactly when it has ten miniblocks, at least
  one of them final, exactly one tip, and every miniblock carries the height of the block and the first word of the tip; from the soft
  fork on there is exactly one final miniblock and the nine others are different.\<close>

theorem verify_miniblocks_accepts:
  assumes "length (miniblocks b) < 2 ^ 64"
  shows "(verify_miniblocks b = Inr () \<longleftrightarrow>
    (if blk_height b = 0 then miniblocks b = []
     else length (miniblocks b) = 10 \<and> (\<exists>m\<in>set (miniblocks b). mbl_final m) \<and> length (tips b) = 1 \<and> (\<forall>m\<in>set (miniblocks b). linked b m)
       \<and> (399000 \<le> blk_height b \<longrightarrow> card {m \<in> set (miniblocks b). \<not> mbl_final m} = 9)))
    \<and> (verify_miniblocks b = Inr () \<and> 399000 \<le> blk_height b \<longrightarrow>
      length (filter mbl_final (miniblocks b)) = 1 \<and> distinct (filter (\<lambda>m. \<not> mbl_final m) (miniblocks b)))"
  using verify_miniblocks_spec[OF assms] one_final[of "miniblocks b"] by (auto split: if_splits)

theorem verify_miniblocks_accepts_witness:
  "verify_miniblocks (sample_block (replicate 16 9)) = Inr ()
    \<and> length (filter mbl_final (miniblocks (sample_block (replicate 16 9)))) = 1"
proof -
  let ?b = "sample_block (replicate 16 9)"
  have l: "length (miniblocks ?b) < 2 ^ 64" by (simp add: sample_block_def)
  have nf: "{m \<in> set (miniblocks ?b). \<not> mbl_final m} = (\<lambda>n. mbl_at False n (replicate 16 0)) ` {0, 1, 2, 3, 4, 5, 6, 7, 8}"
    unfolding set_filter[symmetric] by (simp add: sample_block_def mbl_at_final)
  have "inj_on (\<lambda>n. mbl_at False n (replicate 16 0)) {0, 1, 2, 3, 4, 5, 6, 7, 8}" by (rule inj_onI) (simp add: mbl_at_def)
  then have "card {m \<in> set (miniblocks ?b). \<not> mbl_final m} = 9" unfolding nf by (simp add: card_image)
  then have v: "verify_miniblocks ?b = Inr ()"
    using verify_miniblocks_accepts[OF l, THEN conjunct1] by (simp add: sample_block_def mbl_at_linked mbl_at_final)
  moreover have "399000 \<le> blk_height ?b" by (simp add: sample_block_def word_le_nat_alt)
  ultimately show ?thesis using verify_miniblocks_accepts[OF l] by blast
qed

text \<open>C26: The check of the final miniblock binds the proof of work to the block: two blocks that pass it with the same final key hash, and
  whose serializations without the final miniblock are not a collision of the first 16 bytes of SHA3-256, agree in everything but the
  final miniblock.\<close>

theorem hashcheck_binds_block:
  assumes "blk_ok a" "blk_ok b"
    and "verify_miniblocks_hashcheck sha3 gsum a = Inr ()" "verify_miniblocks_hashcheck sha3 gsum b = Inr ()"
    and "mbl_key_hash (last (miniblocks a)) = mbl_key_hash (last (miniblocks b))"
    and "\<And>s t. serialize_without_last_miniblock gsum a = Inr s \<Longrightarrow> serialize_without_last_miniblock gsum b = Inr t
      \<Longrightarrow> take 16 (sha3 s) = take 16 (sha3 t) \<Longrightarrow> s = t"
  shows "mbl_final (last (miniblocks a)) \<and> mbl_high_diff (last (miniblocks a))
    \<and> b\<lparr>miniblocks := butlast (miniblocks b)\<rparr> = a\<lparr>miniblocks := butlast (miniblocks a)\<rparr>"
proof -
  note a = hashcheck_spec[OF assms(1), of sha3 gsum, THEN iffD1, OF assms(3)] and b = hashcheck_spec[OF assms(2), of sha3 gsum, THEN iffD1, OF assms(4)]
  have "blk_bytes (a\<lparr>miniblocks := butlast (miniblocks a)\<rparr>) = blk_bytes (b\<lparr>miniblocks := butlast (miniblocks b)\<rparr>)"
  proof (rule assms(6)[OF without_last_ok[OF assms(1)] without_last_ok[OF assms(2)]])
    show "take 16 (sha3 (blk_bytes (a\<lparr>miniblocks := butlast (miniblocks a)\<rparr>))) = take 16 (sha3 (blk_bytes (b\<lparr>miniblocks := butlast (miniblocks b)\<rparr>)))"
      using a b assms(5) by (simp only:)
  qed
  from blk_bytes_inj[OF blk_ok_butlast[OF assms(1)] blk_ok_butlast[OF assms(2)] this] show ?thesis using a by simp
qed

theorem hashcheck_binds_block_witness:
  "verify_miniblocks_hashcheck (\<lambda>s. replicate 16 6) (\<lambda>b. b) (sample_block (replicate 16 6)) = Inr () \<and> mbl_final (last (miniblocks (sample_block (replicate 16 6))))"
proof -
  let ?b = "sample_block (replicate 16 6)"
  have o: "blk_ok ?b" by (rule sample_block_ok) simp
  have h: "verify_miniblocks_hashcheck (\<lambda>s. replicate 16 6) (\<lambda>b. b) ?b = Inr ()"
    unfolding hashcheck_spec[OF o] by (simp add: sample_block_def mbl_at_def)
  show ?thesis using h hashcheck_binds_block[OF o o h h refl] by simp
qed

text \<open>The block decoder allocates room for the transaction hashes before it has read any: a count of \<open>2 ^ 58\<close> or more after a
  well-formed block makes it panic, whatever follows.\<close>

theorem block_deserialize_capacity_panics:
  assumes "blk_ok b" "tx_hashes b = []" "2 ^ 58 \<le> unat n"
  shows "blk_deserialize (butlast (blk_bytes b) @ put_uvarint [] n @ rest) = Inl Panic"
  using block_prefix_panics[OF assms] .

theorem block_deserialize_capacity_panics_witness:
  "blk_deserialize (butlast (blk_bytes ((sample_block (replicate 16 9))\<lparr>tx_hashes := []\<rparr>)) @ put_uvarint [] (2 ^ 60) @ []) = Inl Panic"
proof (rule block_deserialize_capacity_panics)
  show "blk_ok ((sample_block (replicate 16 9))\<lparr>tx_hashes := []\<rparr>)" using sample_block_ok[of "replicate 16 9"] by (simp add: blk_ok_def)
qed simp_all

end
