(* ===== verification/Scalar.thy ===== *)
theory Scalar
  imports G1 "HOL-Library.Monad_Syntax"
begin

text \<open>
  Scalars modulo the group order (\<open>cryptography/crypto/src/scalar.rs\<close>), and the outcomes of code that may panic: an option whose
  \<open>None\<close> is the panic of an index, a slice, an assertion or a division, with the indexed loops that the vector code and the proofs use.
  Big integers are natural numbers. The lemmas give each operation its meaning modulo the order.
\<close>

section \<open>Model\<close>

definition group_order :: nat where
  "group_order = 21888242871839275222246405745257275088548364400416034343698204186575808495617"

definition order :: nat where "order = group_order"

definition sc_reduce :: "nat \<Rightarrow> nat" where "sc_reduce x = x mod order"

definition sc_add :: "nat \<Rightarrow> nat \<Rightarrow> nat" where "sc_add a b = (a + b) mod order"

definition sc_sub :: "nat \<Rightarrow> nat \<Rightarrow> nat" where
  "sc_sub a b = (let n = order; a = a mod n; b = b mod n in (a + n - b) mod n)"

definition sc_mul :: "nat \<Rightarrow> nat \<Rightarrow> nat" where "sc_mul a b = (a * b) mod order"

definition sc_neg :: "nat \<Rightarrow> nat" where
  "sc_neg a = (let n = order; a = a mod n in if a = 0 then 0 else n - a)"

definition sc_inv :: "nat \<Rightarrow> nat" where
  "sc_inv a = (let n = order; e = n - 2 in modpow a e n)"

definition half :: nat where "half = sc_inv 2"

section \<open>Indexing, slicing, assertions and loops\<close>

definition get :: "'a list \<Rightarrow> nat \<Rightarrow> 'a option" where
  "get xs i = (if i < length xs then Some (xs ! i) else None)"

definition subslice :: "'a list \<Rightarrow> nat \<Rightarrow> nat \<Rightarrow> 'a list option" where
  "subslice xs a b = (if a \<le> b \<and> b \<le> length xs then Some (slice a b xs) else None)"

definition ensure :: "bool \<Rightarrow> unit option" where
  "ensure b = (if b then Some () else None)"

primrec for_each :: "'b list \<Rightarrow> ('b \<Rightarrow> 'a \<Rightarrow> 'a option) \<Rightarrow> 'a \<Rightarrow> 'a option" where
  "for_each [] f a = Some a"
| "for_each (i # is) f a = do { a' \<leftarrow> f i a; for_each is f a' }"

lemma get_Some [simp]: "i < length xs \<Longrightarrow> get xs i = Some (xs ! i)"
  by (simp add: get_def)

lemma subslice_Some [simp]: "a \<le> b \<Longrightarrow> b \<le> length xs \<Longrightarrow> subslice xs a b = Some (slice a b xs)"
  by (simp add: subslice_def)

lemma ensure_Some [simp]: "ensure b = Some u \<longleftrightarrow> b"
  by (simp add: ensure_def)

lemma ensure_True [simp]: "ensure True = Some ()"
  by simp

lemma for_each_append: "for_each (is @ js) f a = do { a' \<leftarrow> for_each is f a; for_each js f a' }"
  by (induction "is" arbitrary: a) (auto split: Option.bind_splits)

text \<open>A loop whose body never panics under an invariant indexed by the steps already done.\<close>

lemma for_each_invariant:
  assumes "Q 0 a" and "\<And>k a. k < length xs \<Longrightarrow> Q k a \<Longrightarrow> \<exists>a'. f (xs ! k) a = Some a' \<and> Q (Suc k) a'"
  shows "\<exists>a'. for_each xs f a = Some a' \<and> Q (length xs) a'"
  using assms
proof (induction xs arbitrary: a Q)
  case (Cons x xs)
  obtain b where b: "f x a = Some b" "Q 1 b" using Cons.prems(2)[of 0 a] Cons.prems(1) by auto
  have "\<exists>a'. for_each xs f b = Some a' \<and> (\<lambda>k. Q (Suc k)) (length xs) a'"
  proof (rule Cons.IH)
    show "Q (Suc 0) b" using b(2) by simp
    fix k c assume "k < length xs" "Q (Suc k) c"
    then show "\<exists>a'. f (xs ! k) c = Some a' \<and> Q (Suc (Suc k)) a'" using Cons.prems(2)[of "Suc k" c] by simp
  qed
  then show ?case using b(1) by simp
qed simp

lemma for_each_upt_invariant:
  assumes "Q 0 a" and "\<And>k a. k < n \<Longrightarrow> Q k a \<Longrightarrow> \<exists>a'. f k a = Some a' \<and> Q (Suc k) a'"
  shows "\<exists>a'. for_each [0..<n] f a = Some a' \<and> Q n a'"
  using for_each_invariant[of Q a "[0..<n]" f] assms by simp

section \<open>Arithmetic modulo the order\<close>

text \<open>Two integers that agree modulo the order.\<close>

definition sgr :: "int \<Rightarrow> int \<Rightarrow> bool" where
  "sgr a b \<longleftrightarrow> a mod int order = b mod int order"

lemma order_value: "order = 21888242871839275222246405745257275088548364400416034343698204186575808495617"
  by (simp add: order_def group_order_def)

lemma order_pos [simp]: "0 < order" "order \<noteq> 0" "Suc 0 < order" "2 < order"
  by (simp_all add: order_value)

lemma sgr_refl [simp]: "sgr a a"
  by (simp add: sgr_def)

lemma sgr_sym: "sgr a b \<Longrightarrow> sgr b a"
  by (simp add: sgr_def)

lemma sgr_trans [trans]: "sgr a b \<Longrightarrow> sgr b c \<Longrightarrow> sgr a c"
  by (simp add: sgr_def)

lemma sgr_eq_trans [trans]: "a = b \<Longrightarrow> sgr b c \<Longrightarrow> sgr a c" "sgr a b \<Longrightarrow> b = c \<Longrightarrow> sgr a c"
  by simp_all

lemma sgr_add: "sgr a a' \<Longrightarrow> sgr b b' \<Longrightarrow> sgr (a + b) (a' + b')"
  unfolding sgr_def by (metis mod_add_eq)

lemma sgr_diff: "sgr a a' \<Longrightarrow> sgr b b' \<Longrightarrow> sgr (a - b) (a' - b')"
  unfolding sgr_def by (metis mod_diff_eq)

lemma sgr_mult: "sgr a a' \<Longrightarrow> sgr b b' \<Longrightarrow> sgr (a * b) (a' * b')"
  unfolding sgr_def by (metis mod_mult_eq)

lemma sgr_minus: "sgr a a' \<Longrightarrow> sgr (- a) (- a')"
  unfolding sgr_def by (metis mod_minus_eq)

lemma sgr_power: "sgr a a' \<Longrightarrow> sgr (a ^ n) (a' ^ n)"
  unfolding sgr_def by (metis power_mod)

lemma sgr_sum: "(\<And>i. i \<in> A \<Longrightarrow> sgr (f i) (g i)) \<Longrightarrow> sgr (sum f A) (sum g A)"
  by (induction A rule: infinite_finite_induct) (simp_all add: sgr_add)

lemma sgr_mod: "sgr (a mod int order) a"
  by (simp add: sgr_def)

lemma sgr_iff_dvd: "sgr a b \<longleftrightarrow> int order dvd a - b"
  by (simp add: sgr_def mod_eq_dvd_iff)

lemmas sgr_intros = sgr_refl sgr_add sgr_diff sgr_mult sgr_minus sgr_power sgr_sum

lemma sgr_nat: "sgr (int a) (int b) \<longleftrightarrow> a mod order = b mod order"
  by (simp add: sgr_def flip: zmod_int)

lemma sgr_nat_eq: "sgr (int a) (int b) \<Longrightarrow> a < order \<Longrightarrow> b < order \<Longrightarrow> a = b"
  by (simp add: sgr_nat)

lemma sc_less [simp]: "sc_add a b < order" "sc_mul a b < order" "sc_sub a b < order" "sc_neg a < order" "sc_inv a < order"
  "sc_reduce a < order"
  by (auto simp: sc_add_def sc_mul_def sc_sub_def sc_neg_def sc_inv_def sc_reduce_def modpow_def Let_def)

lemma sgr_sc_reduce: "sgr (int (sc_reduce a)) (int a)"
  by (simp add: sc_reduce_def sgr_nat)

lemma sgr_sc_add: "sgr (int (sc_add a b)) (int a + int b)"
  unfolding sc_add_def by (simp add: sgr_def zmod_int)

lemma sgr_sc_mul: "sgr (int (sc_mul a b)) (int a * int b)"
  unfolding sc_mul_def by (simp add: sgr_def zmod_int)

lemma sgr_sc_sub: "sgr (int (sc_sub a b)) (int a - int b)"
proof -
  have "b mod order \<le> a mod order + order" using mod_less_divisor[of order b] by (simp add: less_imp_le trans_le_add2)
  then have "int (sc_sub a b) = (int a mod int order + int order - int b mod int order) mod int order"
    by (simp add: sc_sub_def Let_def zmod_int of_nat_diff)
  also have "\<dots> = (int a - int b) mod int order"
    by (metis add_diff_eq diff_add_eq mod_add_self2 mod_diff_eq)
  finally show ?thesis by (simp add: sgr_def)
qed

lemma sgr_sc_neg: "sgr (int (sc_neg a)) (- int a)"
proof (cases "a mod order = 0")
  case True
  then have "int order dvd int a" using of_nat_dvd_iff by blast
  then show ?thesis using True by (simp add: sc_neg_def Let_def sgr_iff_dvd)
next
  case False
  have "a mod order < order" by simp
  then have "int (sc_neg a) = int order - int a mod int order"
    using False by (simp add: sc_neg_def Let_def zmod_int of_nat_diff)
  then show ?thesis by (simp add: sgr_def mod_minus_eq)
qed

lemma sgr_sc_inv: "sgr (int (sc_inv a)) (int a ^ (order - 2))"
  unfolding sc_inv_def Let_def modpow_def by (simp add: sgr_def zmod_int)

lemmas sgr_ops = sgr_sc_reduce sgr_sc_add sgr_sc_mul sgr_sc_sub sgr_sc_neg

text \<open>Repeated squaring, checked against the list of the successive squares and their quotients.\<close>

fun squares_to :: "nat \<Rightarrow> (nat \<times> nat) list \<Rightarrow> nat \<Rightarrow> bool" where
  "squares_to a [] z \<longleftrightarrow> a = z"
| "squares_to a ((q, b) # rest) z \<longleftrightarrow> a ^ 2 = q * order + b \<and> squares_to b rest z"

lemma squares_to_power: "squares_to a steps z \<Longrightarrow> n = length steps \<Longrightarrow> sgr (int a ^ 2 ^ n) (int z)"
proof (induction a steps z arbitrary: n rule: squares_to.induct)
  case (2 a q b rest z)
  then have "int a ^ 2 = int q * int order + int b" by (simp flip: of_nat_power of_nat_mult of_nat_add)
  then have "sgr (int a ^ 2) (int b)" by (simp add: sgr_def)
  then have "sgr ((int a ^ 2) ^ 2 ^ length rest) (int b ^ 2 ^ length rest)" by (rule sgr_power)
  then have "sgr (int a ^ 2 ^ length ((q, b) # rest)) (int b ^ 2 ^ length rest)"
    by (simp add: power_mult[symmetric])
  then show ?case using 2 sgr_trans by auto
qed simp

text \<open>An inverse is right for every scalar with Fermat's congruence.\<close>

lemma sc_inv_unit:
  assumes "sgr (int a ^ (order - 1)) 1"
  shows "sgr (int a * int (sc_inv a)) 1"
proof -
  have "order - 1 = Suc (order - 2)" using order_pos(4) by linarith
  then have "int a ^ (order - 1) = int a * int a ^ (order - 2)" by (metis power_Suc)
  then have "sgr (int a * int (sc_inv a)) (int a ^ (order - 1))"
    using sgr_mult[OF sgr_refl[of "int a"] sgr_sc_inv[of a]] by simp
  then show ?thesis using assms sgr_trans by blast
qed

end
