(* ===== verification/HashToPoint.thy ===== *)
theory HashToPoint
  imports Scalar Statement GoTime
begin

text \<open>
  Hashing to numbers and to curve points (\<open>keccak.rs\<close> and \<open>hashtopoint.rs\<close> of \<open>cryptography/crypto/src/\<close>), the generators derived from
  them (\<open>generators.rs\<close>) and the keys (\<open>keys.rs\<close>). The Keccak and SHA-3 digests and the hexadecimal printer come from outside the repository and are
  parameters: a digest is a function of the concatenated parts. The search for a point is a function with a termination proof; the lemmas show that it always
  ends on a point of the curve, so that the generators are points of the curve for whatever digest.
\<close>

section \<open>Digests\<close>

type_synonym digest = "byte list \<Rightarrow> byte list"

definition keccak256 :: "digest \<Rightarrow> byte list list \<Rightarrow> byte list" where
  "keccak256 kec parts = kec (concat parts)"

definition keccak512 :: "digest \<Rightarrow> byte list list \<Rightarrow> byte list" where
  "keccak512 kec parts = kec (concat parts)"

definition sha3_256 :: "digest \<Rightarrow> byte list list \<Rightarrow> byte list" where
  "sha3_256 sha parts = sha (concat parts)"

definition keccak256_64 :: "digest \<Rightarrow> byte list list \<Rightarrow> u64" where
  "keccak256_64 kec parts = be_u64 (take 8 (keccak256 kec parts))"

definition PROTOCOL_CONSTANT :: rstr where "PROTOCOL_CONSTANT = lit ''DERO''"

definition hash_to_number :: "digest \<Rightarrow> byte list \<Rightarrow> nat" where
  "hash_to_number kec input = be_val (keccak256 kec [input])"

definition reduced_hash :: "digest \<Rightarrow> byte list \<Rightarrow> nat" where
  "reduced_hash kec input = hash_to_number kec input mod group_order"

text \<open>The crate-private padding, which panics on a value of more than 32 bytes.\<close>

definition pad_32_be :: "nat \<Rightarrow> byte list option" where
  "pad_32_be x = (let b = to_bytes_be x in if length b \<le> 32 then Some (replicate (32 - length b) 0 @ b) else None)"

section \<open>Searching for a point\<close>

definition candidate_root :: "nat \<Rightarrow> nat \<times> nat" where
  "candidate_root x =
    (let p = field_prime; x3 = modpow x 3 p; beta = (x3 + 3) mod p; e = (p + 1) div 4 in (beta, modpow beta e p))"

definition on_hit :: "nat \<Rightarrow> nat \<Rightarrow> g1 option" where
  "on_hit x y = do {
     xb \<leftarrow> pad_32_be x;
     yb \<leftarrow> pad_32_be y;
     case g1_unmarshal (xb @ yb) of Inl _ \<Rightarrow> None | Inr g \<Rightarrow> Some g }"

text \<open>An abscissa whose ordinate is one; the search stops there at the latest.\<close>

definition sure_hit :: nat where
  "sure_hit = 16300804051298280266557810744150527230361199964009614164046675910434187948382"

lemma one_mod_prime [simp]: "1 mod field_prime = 1" "Suc 0 mod field_prime = Suc 0" "0 < field_prime" "field_prime \<noteq> Suc 0"
  by (simp_all add: field_prime_def)

lemma sure_hit_root: "candidate_root sure_hit = (1, 1)"
proof -
  have "sure_hit ^ 3 + 3 = 197886506566282837288697949841768081048832110411595171988865011618469916292281337464883916640027236609205899566679105820699748913823265656357391488145590 * field_prime + 1"
    by (simp add: sure_hit_def field_prime_def)
  then have "(sure_hit ^ 3 + 3) mod field_prime = 1" by (simp only: mod_mult_self3 one_mod_prime)
  then have "(sure_hit ^ 3 mod field_prime + 3) mod field_prime = 1" by (simp add: mod_add_left_eq)
  then show ?thesis by (simp add: candidate_root_def Let_def modpow_def)
qed

definition distance :: "nat \<Rightarrow> nat" where
  "distance x = (if x < field_prime then (sure_hit + field_prime - x) mod field_prime else field_prime)"

lemma distance_step:
  assumes "x \<noteq> sure_hit"
  shows "distance ((x + 1) mod field_prime) < distance x"
proof -
  have s: "sure_hit < field_prime" "0 < field_prime" by (simp_all add: sure_hit_def field_prime_def)
  have d: "distance y = (if y \<le> sure_hit then sure_hit - y else sure_hit + field_prime - y)" if "y < field_prime" for y
    using that s by (auto simp: distance_def mod_if)
  consider "field_prime \<le> x" | "x + 1 = field_prime" | "x + 1 < field_prime" by linarith
  then show ?thesis
  proof cases
    case 1
    then show ?thesis using s by (simp add: distance_def)
  next
    case 2
    then show ?thesis using d[of x] d[of 0] s assms by (auto split: if_splits)
  next
    case 3
    then show ?thesis using d[of x] d[of "x + 1"] s assms by (auto split: if_splits)
  qed
qed

lemma miss_not_sure: "(beta, y) = candidate_root x \<Longrightarrow> y * y mod field_prime \<noteq> beta \<Longrightarrow> x \<noteq> sure_hit"
  using sure_hit_root one_mod_prime by auto

function hash_to_point_loop :: "nat \<Rightarrow> g1 option" where
  "hash_to_point_loop x =
    (let (beta, y) = candidate_root x; y2 = (y * y) mod field_prime
     in if y2 = beta then on_hit x y else hash_to_point_loop ((x + 1) mod field_prime))"
  by pat_completeness auto

termination
  by (relation "measure distance") (use distance_step[unfolded Suc_eq_plus1[symmetric]] miss_not_sure in fastforce)+

declare hash_to_point_loop.simps [simp del]

definition hash_to_point :: "nat \<Rightarrow> g1 option" where
  "hash_to_point seed = hash_to_point_loop (seed mod group_order)"

section \<open>Generators\<close>

definition GENERATOR_COUNT :: nat where "GENERATOR_COUNT = 128"

record generators =
  gen_g :: g1
  gen_h :: g1
  gen_gs :: "g1 list"
  gen_hs :: "g1 list"
  gen_gsum :: g1

definition indexed_seed :: "digest \<Rightarrow> rstr \<Rightarrow> nat \<Rightarrow> nat option" where
  "indexed_seed kec label i = do { b \<leftarrow> pad_32_be i; Some (hash_to_number kec ((PROTOCOL_CONSTANT @ label) @ b)) }"

definition compute_generators :: "digest \<Rightarrow> generators option" where
  "compute_generators kec = do {
     g \<leftarrow> hash_to_point (hash_to_number kec (PROTOCOL_CONSTANT @ lit ''G''));
     h \<leftarrow> hash_to_point (hash_to_number kec (PROTOCOL_CONSTANT @ lit ''H''));
     (gs, hs, gsum) \<leftarrow> for_each [0..<GENERATOR_COUNT] (\<lambda>i (gs, hs, gsum). do {
       sg \<leftarrow> indexed_seed kec (lit ''G'') i;
       gi \<leftarrow> hash_to_point sg;
       sh \<leftarrow> indexed_seed kec (lit ''H'') i;
       hi \<leftarrow> hash_to_point sh;
       Some (gs @ [gi], hs @ [hi], g1_add gsum gi) }) ([], [], g1_infinity);
     Some \<lparr>gen_g = g, gen_h = h, gen_gs = gs, gen_hs = hs, gen_gsum = gsum\<rparr> }"

text \<open>A point times a scalar reduced modulo the order, as the vector and proof code multiply.\<close>

definition g_smul :: "g1 \<Rightarrow> nat \<Rightarrow> g1" where
  "g_smul p s = scalar_mult p (to_bytes_be (sc_reduce s))"

definition add_multiples :: "g1 list \<Rightarrow> nat list \<Rightarrow> g1 \<Rightarrow> g1 option" where
  "add_multiples ps es r = for_each [0..<length es] (\<lambda>i r. do { p \<leftarrow> get ps i; Some (g1_add r (g_smul p (es ! i))) }) r"

definition pedersen_commit :: "generators \<Rightarrow> nat \<Rightarrow> nat list \<Rightarrow> nat list option \<Rightarrow> g1 option" where
  "pedersen_commit gens blind gexps hexps = do {
     result \<leftarrow> add_multiples (gen_gs gens) gexps (g_smul (gen_h gens) blind);
     case hexps of None \<Rightarrow> Some result | Some hexps \<Rightarrow> add_multiples (gen_hs gens) hexps result }"

section \<open>Keys\<close>

definition point_to_string :: "(byte list \<Rightarrow> rstr) \<Rightarrow> g1 \<Rightarrow> rstr" where
  "point_to_string hex p = (let m = g1_marshal p in lit ''bn256.G1('' @ hex (take 32 m) @ lit '', '' @ hex (drop 32 m) @ lit '')'')"

definition derive_public_key :: "generators \<Rightarrow> nat \<Rightarrow> g1" where
  "derive_public_key gens secret = scalar_mult (gen_g gens) (to_bytes_be secret)"

definition reduce_scalar :: "nat \<Rightarrow> nat" where
  "reduce_scalar s = s mod group_order"

section \<open>The search ends on a point of the curve\<close>

lemma pad_32_be_Some:
  assumes "x < 256 ^ 32"
  shows "pad_32_be x = Some (be_bytes 32 x)"
proof -
  have l: "length (to_bytes_be x) \<le> 32" using to_bytes_be_length[of x 31] assms by simp
  have "be_bytes 32 (be_val (replicate (32 - length (to_bytes_be x)) 0 @ to_bytes_be x)) = replicate (32 - length (to_bytes_be x)) 0 @ to_bytes_be x"
    using l by (intro be_bytes_be_val) simp
  then show ?thesis using l by (simp add: pad_32_be_def be_val_zeros to_bytes_be_val Let_def)
qed

lemma unmarshal_number:
  assumes "x < field_prime" "length b = 32" "be_val b = x"
  shows "\<exists>w. unmarshal b = Inr w \<and> reduced w \<and> fv (mont_encode w) = int x"
proof -
  obtain w where w: "unmarshal b = Inr w" using assms by (simp add: unmarshal_spec)
  then have r: "reduced w" "marshal w = b" using unmarshal_Inr[OF w] assms(2) by simp_all
  then have "wval 64 w = x" using marshal_val[of w] assms(3) by (simp add: reduced_def)
  then show ?thesis using w r mont_encode_fv[of w] assms(1) by (auto simp: reduced_def)
qed

lemma on_hit_value:
  assumes x: "x < field_prime" and y: "y < field_prime" and e: "y * y mod field_prime = (x ^ 3 + 3) mod field_prime"
  shows "\<exists>g. on_hit x y = Some g \<and> decoded g \<and> g \<noteq> infinity \<and> fv (cx g) = int x \<and> fv (cy g) = int y"
proof -
  have p: "field_prime < 256 ^ 32" by (simp add: field_prime_def)
  have b: "length (be_bytes 32 n) = 32" "n < field_prime \<Longrightarrow> be_val (be_bytes 32 n) = n" for n
    using p by (simp_all add: be_val_be_bytes)
  obtain wx where wx: "unmarshal (be_bytes 32 x) = Inr wx" "reduced wx" "fv (mont_encode wx) = int x" using unmarshal_number[OF x] b x by blast
  obtain wy where wy: "unmarshal (be_bytes 32 y) = Inr wy" "reduced wy" "fv (mont_encode wy) = int y" using unmarshal_number[OF y] b y by blast
  define g where "g = \<lparr>cx = mont_encode wx, cy = mont_encode wy, cz = gfp_one, ct = gfp_one\<rparr>"
  have c: "coords_ok g" "cz g = gfp_one" using wx(2) wy(2) mont_encode_reduced by (simp_all add: g_def coords_ok_def)
  have "int (y * y mod field_prime) = int ((x ^ 3 + 3) mod field_prime)" using e by simp
  then have "cgr (int y ^ 2) (int x ^ 3 + 3)" by (simp add: cgr_def zmod_int power2_eq_square)
  then have oc: "is_on_curve g" using is_on_curve_affine[OF c] wx(3) wy(3) by (simp add: g_def)
  then have d: "decoded g" using c by (simp add: decoded_def g_def)
  have ni: "g \<noteq> infinity" using one_ne_zero infinity_inv(2) c(2) unfolding is_infinity_def by metis
  have "\<not> (mont_encode wx = gfp_zero \<and> mont_encode wy = gfp_zero)" using zero_not_on_curve[OF d ni] by (simp add: g_def)
  then have "g1_unmarshal (be_bytes 32 x @ be_bytes 32 y) = Inr g"
    using wx(1) wy(1) oc b(1) by (auto simp: g1_unmarshal_def NUM_BYTES_def Let_def slice_append_right[where zs = "[]", simplified] g_def gfp_one_def[symmetric])
  then show ?thesis using pad_32_be_Some[of x] pad_32_be_Some[of y] x y p d ni wx(3) wy(3) by (auto simp: on_hit_def g_def)
qed

lemma candidate_root_less: "candidate_root x = (beta, y) \<Longrightarrow> y < field_prime \<and> beta = (x ^ 3 + 3) mod field_prime"
  by (auto simp: candidate_root_def Let_def modpow_def mod_add_left_eq)

lemma hash_to_point_loop_value: "x < field_prime \<Longrightarrow> \<exists>g. hash_to_point_loop x = Some g \<and> decoded g \<and> g \<noteq> infinity"
proof (induction x rule: hash_to_point_loop.induct)
  case (1 x)
  obtain beta y where c: "candidate_root x = (beta, y)" by fastforce
  show ?case
  proof (cases "y * y mod field_prime = beta")
    case True
    then show ?thesis using on_hit_value[OF 1(2), of y] candidate_root_less[OF c] c by (auto simp: hash_to_point_loop.simps[of x])
  next
    case False
    have "(x + 1) mod field_prime < field_prime" by (simp add: field_prime_def)
    then show ?thesis using 1(1)[OF c[symmetric] refl refl False] False c by (simp add: hash_to_point_loop.simps[of x])
  qed
qed

lemma reduced_hash_less: "reduced_hash kec bs < order"
  by (simp add: reduced_hash_def order_def[symmetric])

lemma hash_to_point_value: "\<exists>g. hash_to_point seed = Some g \<and> decoded g \<and> g \<noteq> infinity"
proof -
  have "seed mod group_order < group_order" by (simp add: group_order_def)
  also have "\<dots> < field_prime" by (simp add: group_order_def field_prime_def)
  finally show ?thesis using hash_to_point_loop_value by (simp add: hash_to_point_def)
qed

lemma g1_ops_inv: "curve_inv a \<Longrightarrow> curve_inv b \<Longrightarrow> curve_inv (g1_add a b)" "curve_inv a \<Longrightarrow> curve_inv (scalar_mult a k)"
  "curve_inv a \<Longrightarrow> curve_inv (g1_neg a)" "curve_inv g1_infinity" "curve_inv a \<Longrightarrow> curve_inv (g_smul a s)"
  by (simp_all add: g1_add_def curve_add_inv scalar_mult_def curve_mul_inv g1_neg_def curve_neg_inv g1_infinity_def infinity_inv g_smul_def)

definition gens_ok :: "generators \<Rightarrow> bool" where
  "gens_ok gens \<longleftrightarrow> curve_inv (gen_g gens) \<and> curve_inv (gen_h gens) \<and> length (gen_gs gens) = GENERATOR_COUNT \<and> length (gen_hs gens) = GENERATOR_COUNT
    \<and> (\<forall>g\<in>set (gen_gs gens) \<union> set (gen_hs gens). curve_inv g) \<and> curve_inv (gen_gsum gens)"

lemma indexed_seed_Some: "i < GENERATOR_COUNT \<Longrightarrow> \<exists>s. indexed_seed kec label i = Some s"
  by (simp add: indexed_seed_def pad_32_be_Some GENERATOR_COUNT_def)

lemma compute_generators_ok: "\<exists>gens. compute_generators kec = Some gens \<and> gens_ok gens"
proof -
  define ok where "ok n = (\<lambda>(gs, hs, gsum). length gs = n \<and> length hs = n \<and> (\<forall>g\<in>set gs \<union> set hs. curve_inv g) \<and> curve_inv gsum)" for n
  define body where "body i = (\<lambda>(gs, hs, gsum). do {
       sg \<leftarrow> indexed_seed kec (lit ''G'') i; gi \<leftarrow> hash_to_point sg; sh \<leftarrow> indexed_seed kec (lit ''H'') i; hi \<leftarrow> hash_to_point sh;
       Some (gs @ [gi], hs @ [hi], g1_add gsum gi) })" for i
  have "\<exists>s'. body i s = Some s' \<and> ok (Suc i) s'" if i: "i < GENERATOR_COUNT" "ok i s" for i s
  proof -
    obtain a b where a: "indexed_seed kec (lit ''G'') i = Some a" "indexed_seed kec (lit ''H'') i = Some b" using indexed_seed_Some[OF i(1)] by metis
    obtain g h where "hash_to_point a = Some g" "hash_to_point b = Some h" "curve_inv g" "curve_inv h"
      using hash_to_point_value[of a] hash_to_point_value[of b] decoded_inv by blast
    then show ?thesis using a i(2) by (auto simp: body_def ok_def g1_ops_inv)
  qed
  then obtain s where s: "for_each [0..<GENERATOR_COUNT] body ([], [], g1_infinity) = Some s" "ok GENERATOR_COUNT s"
    using for_each_upt_invariant[of ok "([], [], g1_infinity)" GENERATOR_COUNT body] g1_ops_inv(4) by (auto simp: ok_def)
  obtain g h where "hash_to_point (hash_to_number kec (PROTOCOL_CONSTANT @ lit ''G'')) = Some g"
    "hash_to_point (hash_to_number kec (PROTOCOL_CONSTANT @ lit ''H'')) = Some h" "curve_inv g" "curve_inv h"
    using hash_to_point_value decoded_inv by metis
  then show ?thesis using s unfolding compute_generators_def body_def ok_def gens_ok_def by (auto split: prod.splits)
qed

lemma add_multiples_value:
  assumes "length es \<le> length ps" "\<forall>p\<in>set ps. curve_inv p" "curve_inv r"
  shows "\<exists>r'. add_multiples ps es r = Some r' \<and> curve_inv r'"
  unfolding add_multiples_def using assms
  by (intro for_each_upt_invariant[where Q = "\<lambda>_. curve_inv"]) (auto simp: g1_ops_inv)

text \<open>C37: Hashing to a point ends for every digest and input, never panics, and gives a point of the curve other than infinity; the generators
  are therefore 128 pairs of curve points for whatever digest, and a commitment to up to 128 exponents on each side is a curve point.\<close>

theorem generators_on_curve:
  assumes "length gexps \<le> 128" "length hexps \<le> 128"
  shows "\<exists>gens c. compute_generators kec = Some gens \<and> length (gen_gs gens) = 128 \<and> length (gen_hs gens) = 128
    \<and> (\<forall>g\<in>set (gen_gs gens) \<union> set (gen_hs gens) \<union> {gen_g gens, gen_h gens, gen_gsum gens}. curve_inv g)
    \<and> pedersen_commit gens blind gexps (Some hexps) = Some c \<and> curve_inv c"
proof -
  obtain gens where g: "compute_generators kec = Some gens" "gens_ok gens" using compute_generators_ok by blast
  then have gs: "length gexps \<le> length (gen_gs gens)" "length hexps \<le> length (gen_hs gens)" "\<forall>g\<in>set (gen_gs gens). curve_inv g"
    "\<forall>g\<in>set (gen_hs gens). curve_inv g" "curve_inv (g_smul (gen_h gens) blind)"
    using assms by (auto simp: gens_ok_def GENERATOR_COUNT_def g1_ops_inv)
  obtain r where r: "add_multiples (gen_gs gens) gexps (g_smul (gen_h gens) blind) = Some r" "curve_inv r"
    using add_multiples_value[OF gs(1,3,5)] by blast
  obtain c where "add_multiples (gen_hs gens) hexps r = Some c" "curve_inv c" using add_multiples_value[OF gs(2,4) r(2)] by blast
  then show ?thesis using g r by (auto simp: pedersen_commit_def gens_ok_def GENERATOR_COUNT_def)
qed

text \<open>A digest that returns 32 zero bytes, and an empty commitment.\<close>

theorem generators_on_curve_witness:
  "\<exists>gens c. compute_generators (\<lambda>_. replicate 32 0) = Some gens \<and> length (gen_gs gens) = 128 \<and> length (gen_hs gens) = 128
    \<and> (\<forall>g\<in>set (gen_gs gens) \<union> set (gen_hs gens) \<union> {gen_g gens, gen_h gens, gen_gsum gens}. curve_inv g)
    \<and> pedersen_commit gens 7 [3, 1] (Some [2]) = Some c \<and> curve_inv c"
  using generators_on_curve[of "[3, 1]" "[2]" "\<lambda>_. replicate 32 0" 7] by simp

end
