(* ===== verification/ElGamal.thy ===== *)
theory ElGamal
  imports HashToPoint
begin

unbundle bit_operations_syntax

text \<open>
  Encrypted balances: the ElGamal ciphertext and its stored form (\<open>elgamal.rs\<close>), the transfer payload cipher (\<open>cipher.rs\<close>) and the search for the clear
  balance (\<open>balance_decoder.rs\<close>), all of \<open>cryptography/crypto/src/\<close>. The SHAKE and XChaCha20 implementations come from outside the repository and are
  parameters. The giant-step loop of the decoder need not end, so it is a partial function. The lemmas show the
  round trip of the stored form, that the decoder returns only a right balance, and that it returns one for a point whose residual is in the table.
\<close>

section \<open>Ciphertexts\<close>

record elgamal =
  eg_left :: g1
  eg_right :: g1

datatype elgamal_error = BadLength nat | EgPoint g1_error

definition eg_deserialize :: "byte list \<Rightarrow> (elgamal, elgamal_error) result" where
  "eg_deserialize data =
    (if length data \<noteq> 66 then Inl (BadLength (length data))
     else rbind (map_err EgPoint (decompress (take 33 data))) (\<lambda>l.
       rbind (map_err EgPoint (decompress (slice 33 66 data))) (\<lambda>r. Inr \<lparr>eg_left = l, eg_right = r\<rparr>)))"

definition eg_serialize :: "elgamal \<Rightarrow> byte list" where
  "eg_serialize e = compress (eg_left e) @ compress (eg_right e)"

definition eg_plus :: "generators \<Rightarrow> elgamal \<Rightarrow> u64 \<Rightarrow> elgamal" where
  "eg_plus gens e v =
    (let gv = scalar_mult (gen_g gens) (to_bytes_be (unat v)) in \<lparr>eg_left = g1_add (eg_left e) gv, eg_right = eg_right e\<rparr>)"

definition registration_zero :: "generators \<Rightarrow> g1 \<Rightarrow> elgamal" where
  "registration_zero gens pubkey = \<lparr>eg_left = pubkey, eg_right = gen_g gens\<rparr>"

definition eg_add :: "elgamal \<Rightarrow> elgamal \<Rightarrow> elgamal" where
  "eg_add a b = \<lparr>eg_left = g1_add (eg_left a) (eg_left b), eg_right = g1_add (eg_right a) (eg_right b)\<rparr>"

definition decrypt_to_point :: "elgamal \<Rightarrow> nat \<Rightarrow> g1" where
  "decrypt_to_point e secret = (let right_x = scalar_mult (eg_right e) (to_bytes_be secret) in g1_add (eg_left e) (g1_neg right_x))"

record nonce_balance =
  nonce_height :: u64
  nb_balance :: elgamal

definition nb_serialize :: "nonce_balance \<Rightarrow> byte list" where
  "nb_serialize nb = put_uvarint [] (nonce_height nb) @ eg_serialize (nb_balance nb)"

text \<open>The varint loop of the reader: the shift grows without a check, and a shift of a 64-bit word takes its amount modulo 64.\<close>

fun read_nonce :: "u64 \<Rightarrow> nat \<Rightarrow> byte list \<Rightarrow> (u64 \<times> byte list) option" where
  "read_nonce acc s [] = None"
| "read_nonce acc s (b # bs) =
    (if b < 0x80 then Some (acc OR push_bit (s mod 64) (ucast b), bs)
     else read_nonce (acc OR push_bit (s mod 64) (ucast (b AND 0x7f))) (s + 7) bs)"

definition nb_deserialize :: "byte list \<Rightarrow> (nonce_balance, elgamal_error) result" where
  "nb_deserialize buf =
    (case read_nonce 0 0 buf of
       None \<Rightarrow> Inl (BadLength (length buf))
     | Some (h, rest) \<Rightarrow> rbind (eg_deserialize rest) (\<lambda>b. Inr \<lparr>nonce_height = h, nb_balance = b\<rparr>))"

section \<open>Payload cipher\<close>

definition shake_xof :: "(byte list \<Rightarrow> byte list) \<Rightarrow> byte list \<Rightarrow> byte list list \<Rightarrow> byte list" where
  "shake_xof shake prefix parts = take 32 (shake (prefix @ concat parts))"

definition generate_shared_secret :: "digest \<Rightarrow> nat \<Rightarrow> g1 \<Rightarrow> byte list" where
  "generate_shared_secret kec secret peer = keccak256 kec [compress (scalar_mult peer (to_bytes_be secret))]"

definition encrypt_decrypt_user_data :: "(byte list \<Rightarrow> byte list \<Rightarrow> nat \<Rightarrow> byte list) \<Rightarrow> byte list \<Rightarrow> byte list \<Rightarrow> byte list" where
  "encrypt_decrypt_user_data keystream key data = map2 (XOR) data (keystream key (replicate 24 0) (length data))"

section \<open>Balance decoder\<close>

definition MASK :: u64 where "MASK = 0xffffffffff000000"

definition INDEX_MASK :: u64 where "INDEX_MASK = 0x00ffffff"

definition table_entry :: "byte list \<Rightarrow> nat \<Rightarrow> u64" where
  "table_entry c i = be_u64 (slice 25 33 (c[32 := of_nat (i mod 256), 31 := of_nat (i div 256 mod 256), 30 := of_nat (i div 65536 mod 256)]))"

definition balance_table :: "generators \<Rightarrow> nat \<Rightarrow> u64 list option" where
  "balance_table gens table_size = do {
     ensure (table_size mod 256 = 0);
     let (table, _) = foldl (\<lambda>(table, acc) i. (table[i := table_entry (compress acc) i], g1_add acc (gen_g gens)))
       (replicate table_size 0, g1_infinity) [0..<table_size];
     Some (sort table) }"

definition g_times :: "generators \<Rightarrow> u64 \<Rightarrow> g1" where
  "g_times gens n = scalar_mult (gen_g gens) (u64_be n)"

function scan_equal :: "generators \<Rightarrow> u64 list \<Rightarrow> byte list \<Rightarrow> u64 \<Rightarrow> u64 \<Rightarrow> nat \<Rightarrow> u64 option" where
  "scan_equal gens table target balance big_part index =
    (if index < length table \<and> table ! index AND MASK = big_part then
       let balance_part = table ! index AND INDEX_MASK; candidate = balance + balance_part
       in if g1_marshal (g_times gens candidate) = target then Some candidate
          else scan_equal gens table target balance big_part (index + 1)
     else None)"
  by pat_completeness auto

termination
  by (relation "measure (\<lambda>(_, table, _, _, _, index). length table - index)") auto

declare scan_equal.simps [simp del]

definition big_part_of :: "g1 \<Rightarrow> u64" where
  "big_part_of p = be_u64 (slice 25 33 ((compress p)[30 := 0, 31 := 0, 32 := 0]))"

definition lookup_step :: "generators \<Rightarrow> u64 list \<Rightarrow> byte list \<Rightarrow> g1 \<Rightarrow> u64 \<Rightarrow> u64 option" where
  "lookup_step gens table target pcopy balance =
    (let big_part = big_part_of pcopy; index = length (takeWhile (\<lambda>e. e AND MASK < big_part) table)
     in scan_equal gens table target balance big_part index)"

partial_function (option) lookup_loop :: "generators \<Rightarrow> u64 list \<Rightarrow> byte list \<Rightarrow> g1 \<Rightarrow> g1 \<Rightarrow> u64 \<Rightarrow> u64 \<Rightarrow> u64 option" where
  "lookup_loop gens table target work_per_loop pcopy balance loop_counter =
    (let pcopy = (if loop_counter \<noteq> 0 then g1_add pcopy work_per_loop else pcopy)
     in case lookup_step gens table target pcopy balance of
          Some candidate \<Rightarrow> Some candidate
        | None \<Rightarrow> lookup_loop gens table target work_per_loop pcopy (balance + of_nat (length table)) (loop_counter + 1))"

definition balance_lookup :: "generators \<Rightarrow> u64 list \<Rightarrow> g1 \<Rightarrow> u64 \<Rightarrow> u64 option" where
  "balance_lookup gens table p hint =
    (let target = g1_marshal p
     in if hint \<noteq> 0 \<and> g1_marshal (g_times gens hint) = target then Some hint
        else let n = of_nat (length table); work_per_loop = g1_neg (g_times gens n)
          in lookup_loop gens table target work_per_loop p 0 0)"

section \<open>Round trip of the stored balance\<close>

lemma read_nonce_varint: "read_varint_loop i acc (7 * i) bs = Inr r \<Longrightarrow> i \<le> 9 \<Longrightarrow> read_nonce acc (7 * i) bs = Some r"
proof (induction bs arbitrary: i acc)
  case (Cons b bs)
  have s: "7 * i mod 64 = 7 * i" using Cons.prems(2) by simp
  show ?case
  proof (cases "b < 0x80")
    case True
    then show ?thesis using Cons.prems s by (auto split: if_splits)
  next
    case False
    then have l: "read_varint_loop (Suc i) (acc OR push_bit (7 * i) (ucast (b AND 0x7f))) (7 * Suc i) bs = Inr r" using Cons.prems by (auto simp: add.commute split: if_splits)
    then have "Suc i \<le> 9" using Cons.prems(2) by (cases "i = 9"; cases bs) (auto split: if_splits)
    from Cons.IH[OF l this] show ?thesis using False s by (simp add: add.commute)
  qed
qed simp

lemma read_nonce_put: "read_nonce 0 0 (put_uvarint [] h @ rest) = Some (h, rest)"
  using read_nonce_varint[of 0 0 "put_uvarint [] h @ rest"] cv.dec_enc[of h rest] by (simp add: read_varint_def)

lemma eg_roundtrip: "point_ok (eg_left e) \<Longrightarrow> point_ok (eg_right e) \<Longrightarrow> eg_deserialize (eg_serialize e) = Inr e"
  using point_ok_length[of "eg_left e"] point_ok_length[of "eg_right e"]
  by (simp add: eg_deserialize_def eg_serialize_def slice_def point_ok_def)

text \<open>A balance record of curve points that survive compression is read back from its stored bytes, nonce included.\<close>

theorem nonce_balance_roundtrip:
  assumes "point_ok (eg_left (nb_balance nb))" "point_ok (eg_right (nb_balance nb))"
  shows "nb_deserialize (nb_serialize nb) = Inr nb"
  using eg_roundtrip[OF assms] by (simp add: nb_deserialize_def nb_serialize_def read_nonce_put)

text \<open>The nonce of an eleven-byte varint is not rejected: the last byte is shifted by 70 and lands at bit 6.\<close>

theorem nonce_overflow_accepted: "read_nonce 0 0 (replicate 10 0x80 @ [0x01] @ rest) = Some (64, rest)"
proof -
  have "read_nonce acc s (replicate k 0x80 @ bs) = read_nonce acc (s + 7 * k) bs" for acc s k bs
    by (induction k arbitrary: s) (simp_all add: add.assoc)
  then show ?thesis by simp
qed

theorem payload_cipher_involutive:
  assumes "\<And>n. length (keystream key (replicate 24 0) n) = n"
  shows "encrypt_decrypt_user_data keystream key (encrypt_decrypt_user_data keystream key data) = data"
  unfolding encrypt_decrypt_user_data_def using assms by (intro nth_equalityI) (simp_all add: xor.assoc)

section \<open>The decoder\<close>

lemma unat_MASK: "unat (x AND MASK) = unat x div 2 ^ 24 * 2 ^ 24"
proof -
  have "MASK = push_bit 24 (mask 40)" by (simp add: MASK_def mask_eq_exp_minus_1)
  then have "x AND MASK = push_bit 24 (drop_bit 24 x)"
    by (auto simp: bit_eq_iff bit_and_iff bit_push_bit_iff bit_mask_iff bit_drop_bit_eq not_less le_add_diff_inverse2)
  then have "unat (x AND MASK) = take_bit 64 (push_bit 24 (drop_bit 24 (unat x)))"
    using take_bit_nat_eq_self[OF unat_u64_less[of x]] by (simp add: unsigned_push_bit_eq unsigned_drop_bit_eq)
  also have "drop_bit 24 (unat x) < 2 ^ 40" using unat_u64_less[of x] by (simp add: drop_bit_eq_div div_less_iff_less_mult)
  ultimately show ?thesis by (simp add: push_bit_eq_mult drop_bit_eq_div take_bit_eq_mod)
qed

lemma unat_INDEX_MASK: "unat (x AND INDEX_MASK) = unat x mod 2 ^ 24"
proof -
  have "INDEX_MASK = mask 24" by (simp add: INDEX_MASK_def mask_eq_exp_minus_1)
  then have "x AND INDEX_MASK = take_bit 24 x" by (simp add: take_bit_eq_mask)
  then have "unat (x AND INDEX_MASK) = take_bit 24 (unat x)" by (simp only: unsigned_take_bit_eq)
  then show ?thesis by (simp only: take_bit_eq_mod)
qed

lemma mask_mono: "x \<le> y \<Longrightarrow> x AND MASK \<le> y AND MASK" for x y :: u64
  by (simp add: word_le_nat_alt unat_MASK div_le_mono)

lemma length_compress: "length (compress g) = 33"
proof -
  have "length (marshal x) = 32" for x by (simp add: marshal_def length_concat o_def map_replicate_const sum_list_replicate)
  then have "length (g1_marshal g) = 64" by (simp add: g1_marshal_def Let_def NUM_BYTES_def)
  then show ?thesis by (simp add: compress_def Let_def)
qed

lemma last_three:
  assumes "length c = 33"
  shows "slice 25 33 (c[32 := z, 31 := y, 30 := x]) = slice 25 30 c @ [x, y, z]" "slice 25 33 (c[30 := x, 31 := y, 32 := z]) = slice 25 30 c @ [x, y, z]"
  using assms by (auto simp: slice_def nth_append nth_list_update nth_Cons' intro!: nth_equalityI)

lemma entry_parts:
  assumes "i < 2 ^ 24"
  shows "table_entry (compress p) i AND MASK = big_part_of p" "table_entry (compress p) i AND INDEX_MASK = of_nat i"
proof -
  define h where "h = slice 25 30 (compress p)"
  have "length h = 5" using length_compress[of p] by (simp add: h_def slice_def)
  then have h: "be_val h < 2 ^ 40" using be_val_less[of h] by simp
  have three: "be_val [of_nat (i div 65536 mod 256), of_nat (i div 256 mod 256), of_nat (i mod 256)] = i"
  proof -
    have v: "be_val [of_nat (x mod 256), of_nat (y mod 256), of_nat (z mod 256)] = x mod 256 * 65536 + y mod 256 * 256 + z mod 256" for x y z :: nat
      by (simp add: be_val_def unat_of_nat_byte)
    have "i div 65536 = i div 256 div 256" by (simp add: div_mult2_eq[symmetric])
    moreover have "i div 65536 mod 256 = i div 65536" using assms by (intro mod_less) (simp add: div_less_iff_less_mult)
    ultimately show ?thesis unfolding v using div_mult_mod_eq[of i 256] div_mult_mod_eq[of "i div 256" 256] by linarith
  qed
  have e: "unat (table_entry (compress p) i) = be_val h * 2 ^ 24 + i"
  proof -
    have "be_val (h @ [of_nat (i div 65536 mod 256), of_nat (i div 256 mod 256), of_nat (i mod 256)]) = be_val h * 2 ^ 24 + i"
      unfolding be_val_append three by simp
    then show ?thesis unfolding table_entry_def last_three[OF length_compress] be_u64_def h_def[symmetric]
      using h assms by (simp only: unat_of_nat) simp
  qed
  have b: "unat (big_part_of p) = be_val h * 2 ^ 24"
  proof -
    have "be_val (h @ [0, 0, 0]) = be_val h * 2 ^ 24" unfolding be_val_append by (simp add: be_val_def)
    then show ?thesis unfolding big_part_of_def last_three[OF length_compress] be_u64_def h_def[symmetric]
      using h by (simp only: unat_of_nat) simp
  qed
  show "table_entry (compress p) i AND MASK = big_part_of p"
    using e b assms by (simp add: word_unat_eq_iff unat_MASK)
  show "table_entry (compress p) i AND INDEX_MASK = of_nat i"
    using e assms by (simp add: word_unat_eq_iff unat_INDEX_MASK unat_of_nat)
qed

lemma scan_sound: "scan_equal gens table target balance big index = Some c \<Longrightarrow> g1_marshal (g_times gens c) = target"
proof (induction gens table target balance big index rule: scan_equal.induct)
  case (1 gens table target balance big index)
  show ?case using "1.prems" "1.IH"[OF _ refl refl] unfolding scan_equal.simps[of gens table target balance big index]
    by (auto simp: Let_def split: if_splits)
qed

lemma lookup_loop_sound:
  assumes "lookup_loop gens table target work p balance k = Some c"
  shows "g1_marshal (g_times gens c) = target"
  using _ assms
proof (rule lookup_loop.raw_induct[where P = "\<lambda>gens _ target _ _ _ _ c. g1_marshal (g_times gens c) = target"], goal_cases)
  case (1 f gens table target work p balance k c)
  then show ?case by (auto simp: Let_def lookup_step_def dest: scan_sound split: option.splits if_splits)
qed

lemma scan_finds:
  assumes "sorted table" "q < length table" "table ! q AND MASK = big" "g1_marshal (g_times gens (balance + (table ! q AND INDEX_MASK))) = target"
    "length (takeWhile (\<lambda>e. e AND MASK < big) table) \<le> index" "index \<le> q"
  shows "\<exists>c. scan_equal gens table target balance big index = Some c"
  using assms(5,6)
proof (induction "q - index" arbitrary: index)
  case 0
  then have "index = q" by simp
  then show ?case using assms(2,3,4) unfolding scan_equal.simps[of gens table target balance big index] by (simp add: Let_def)
next
  case (Suc d)
  define w where "w = length (takeWhile (\<lambda>e. e AND MASK < big) table)"
  have w: "w < length table" "\<not> table ! w AND MASK < big" using Suc.prems assms(2) nth_length_takeWhile[of "\<lambda>e. e AND MASK < big" table] by (simp_all add: w_def)
  have "table ! w \<le> table ! index" "table ! index \<le> table ! q"
    using assms(1,2) Suc.prems by (auto simp: w_def intro!: sorted_nth_mono)
  then have "table ! w AND MASK \<le> table ! index AND MASK" "table ! index AND MASK \<le> table ! q AND MASK" using mask_mono by blast+
  then have "table ! index AND MASK = big" using w(2) assms(3) by (simp add: not_less)
  moreover have "\<exists>c. scan_equal gens table target balance big (index + 1) = Some c" using Suc by simp
  ultimately show ?case using Suc.prems assms(2) by (auto simp: scan_equal.simps[of gens table target balance big index] Let_def)
qed

text \<open>The point of table row \<open>i\<close>: the base point added \<open>i\<close> times.\<close>

definition row_point :: "generators \<Rightarrow> nat \<Rightarrow> g1" where
  "row_point gens i = ((\<lambda>acc. g1_add acc (gen_g gens)) ^^ i) g1_infinity"

lemma balance_table_set:
  assumes "balance_table gens n = Some table"
  shows "sorted table" "length table = n" "i < n \<Longrightarrow> table_entry (compress (row_point gens i)) i \<in> set table"
proof -
  define f where "f = (\<lambda>(table, acc) i. (table[i := table_entry (compress acc) i], g1_add acc (gen_g gens)))"
  have loop: "foldl f (replicate n 0, g1_infinity) [0..<m] = (map (\<lambda>i. if i < m then table_entry (compress (row_point gens i)) i else 0) [0..<n], row_point gens m)" if "m \<le> n" for m
    using that
  proof (induction m)
    case 0
    show ?case by (simp add: row_point_def map_replicate_const)
  next
    case (Suc m)
    then show ?case by (auto simp: f_def row_point_def nth_list_update less_Suc_eq intro!: nth_equalityI)
  qed
  have c: "map (\<lambda>i. if i < n then table_entry (compress (row_point gens i)) i else 0) [0..<n] = map (\<lambda>i. table_entry (compress (row_point gens i)) i) [0..<n]"
    by simp
  have t: "table = sort (map (\<lambda>i. table_entry (compress (row_point gens i)) i) [0..<n])"
    using assms loop[of n] unfolding balance_table_def f_def[symmetric] c by (auto simp: ensure_def split: if_splits)
  show "sorted table" "length table = n" "i < n \<Longrightarrow> table_entry (compress (row_point gens i)) i \<in> set table" by (auto simp: t)
qed

lemma lookup_step_finds:
  assumes "balance_table gens n = Some table" "n \<le> 2 ^ 24" "i < n" "compress q = compress (row_point gens i)"
    "g1_marshal (g_times gens (balance + of_nat i)) = target"
  shows "\<exists>c. lookup_step gens table target q balance = Some c"
proof -
  note t = balance_table_set[OF assms(1)]
  obtain k where k: "k < length table" "table ! k = table_entry (compress q) i" using t(3)[OF assms(3)] assms(4) by (metis in_set_conv_nth)
  have e: "table ! k AND MASK = big_part_of q" "table ! k AND INDEX_MASK = of_nat i" using entry_parts[of i q] assms(2,3) k(2) by simp_all
  have "length (takeWhile (\<lambda>e. e AND MASK < big_part_of q) table) \<le> k"
  proof (rule ccontr)
    assume "\<not> ?thesis"
    then have "table ! k \<in> set (takeWhile (\<lambda>e. e AND MASK < big_part_of q) table)" by (metis not_le nth_mem takeWhile_nth)
    then show False using e(1) set_takeWhileD by fastforce
  qed
  then show ?thesis using scan_finds[OF t(1) k(1) e(1), of gens balance target] assms(5) by (simp add: lookup_step_def Let_def e(2))
qed

lemma lookup_loop_finds:
  assumes "balance_table gens n = Some table" "n \<le> 2 ^ 24" "i < n"
  shows "m + k < 2 ^ 64 \<Longrightarrow> compress (((\<lambda>q. g1_add q work) ^^ k) (if m = 0 then q else g1_add q work)) = compress (row_point gens i)
    \<Longrightarrow> g1_marshal (g_times gens (balance + of_nat (k * n) + of_nat i)) = target
    \<Longrightarrow> \<exists>c. lookup_loop gens table target work q balance (of_nat m) = Some c"
proof (induction k arbitrary: m q balance)
  case 0
  have m: "(of_nat m :: u64) = 0 \<longleftrightarrow> m = 0" using 0 by (simp add: word_unat_eq_iff unat_of_nat)
  then show ?case using 0 lookup_step_finds[OF assms, of "if m = 0 then q else g1_add q work" balance target]
    by (auto simp: lookup_loop.simps[of gens table target work q] Let_def m split: option.splits)
next
  case (Suc k)
  have m: "(of_nat m :: u64) = 0 \<longleftrightarrow> m = 0" using Suc.prems(1) by (simp add: word_unat_eq_iff unat_of_nat)
  define q' where "q' = (if m = 0 then q else g1_add q work)"
  have len: "length table = n" by (rule balance_table_set(2)[OF assms(1)])
  have "\<exists>c. lookup_loop gens table target work q' (balance + of_nat n) (of_nat (Suc m)) = Some c"
    using Suc.prems by (intro Suc.IH) (simp_all add: q'_def[symmetric] funpow_Suc_right algebra_simps del: funpow.simps)
  moreover have "lookup_loop gens table target work q balance (of_nat m) = (case lookup_step gens table target q' balance of Some c \<Rightarrow> Some c
      | None \<Rightarrow> lookup_loop gens table target work q' (balance + of_nat n) (of_nat (Suc m)))"
  proof -
    have "(of_nat (Suc m) :: u64) = of_nat m + 1" by simp
    then show ?thesis unfolding lookup_loop.simps[of gens table target work q] q'_def len by (simp only: Let_def m split: if_split) simp
  qed
  ultimately show ?case by (simp split: option.split)
qed

text \<open>A point that the table covers after \<open>k\<close> giant steps, at row \<open>i\<close>, is found. That the residual of a balance is such a point follows from the group law
  of the curve, which is not part of this development.\<close>

lemma balance_lookup_finds:
  assumes "balance_table gens n = Some table" "n \<le> 2 ^ 24" "i < n" "k < 2 ^ 64"
    and "compress (((\<lambda>q. g1_add q (g1_neg (g_times gens (of_nat n)))) ^^ k) p) = compress (row_point gens i)"
    and "g1_marshal (g_times gens (of_nat (k * n + i))) = g1_marshal p"
  shows "\<exists>b. balance_lookup gens table p hint = Some b"
proof -
  have "\<exists>c. lookup_loop gens table (g1_marshal p) (g1_neg (g_times gens (of_nat n))) p 0 (of_nat 0) = Some c"
    by (rule lookup_loop_finds[OF assms(1-3), of 0 k]) (use assms(4-6) in simp_all)
  then obtain c where "lookup_loop gens table (g1_marshal p) (g1_neg (g_times gens (of_nat n))) p 0 0 = Some c" by auto
  then show ?thesis using balance_table_set(2)[OF assms(1)] by (auto simp: balance_lookup_def Let_def)
qed

text \<open>C38: The balance decoder is sound: whatever the table (even a corrupt one), the point and the hint, a balance it returns is one whose point is the
  given one. Nothing is claimed about when it returns.\<close>

theorem balance_lookup_sound:
  assumes "balance_lookup gens table p hint = Some b"
  shows "g1_marshal (g_times gens b) = g1_marshal p"
  using assms lookup_loop_sound by (auto simp: balance_lookup_def Let_def split: if_splits)

definition plain_gens :: generators where
  "plain_gens = \<lparr>gen_g = generator, gen_h = generator, gen_gs = [], gen_hs = [], gen_gsum = g1_infinity\<rparr>"

theorem balance_lookup_sound_witness:
  "\<exists>table b. balance_table plain_gens 256 = Some table \<and> balance_lookup plain_gens table g1_infinity 5 = Some b
    \<and> g1_marshal (g_times plain_gens b) = g1_marshal g1_infinity"
proof -
  obtain table where t: "balance_table plain_gens 256 = Some table" by (cases "balance_table plain_gens 256") (auto simp: balance_table_def ensure_def split: prod.splits)
  have "be_val (u64_be 0) = 0" by (simp add: u64_be_def be_val_be_bytes)
  then have "is_infinity (g_times plain_gens 0)"
    using curve_mul_alike[of generator "u64_be 0"] infinity_inv(2) by (auto simp: g_times_def plain_gens_def scalar_mult_def alike_def smul.simps[of generator 0])
  then have "g1_marshal (g_times plain_gens 0) = g1_marshal g1_infinity" using marshal_infinity infinity_inv(2) by (simp add: g1_infinity_def)
  then obtain b where "balance_lookup plain_gens table g1_infinity 5 = Some b"
    using balance_lookup_finds[OF t, of 0 0 g1_infinity 5] by (auto simp: row_point_def)
  then show ?thesis using balance_lookup_sound t by blast
qed

end
