(* ===== verification/FieldVector.thy ===== *)
theory FieldVector
  imports Scalar
begin

text \<open>
  Vectors of scalars and the fast transform (\<open>cryptography/crypto/src/field_vector.rs\<close>). A \<open>FieldVector\<close> is the list of its
  elements and a \<open>FieldVectorPolynomial\<close> the list of its coefficient vectors; a failed assertion, an index out of range and a division by zero
  are \<open>None\<close>. The transform is compared with the discrete Fourier sum it is a fast form of, forwards and backwards, and the
  inner product of two vector polynomials with the inner product of their values.
\<close>

section \<open>Model\<close>

type_synonym field_vector = "nat list"

definition unity :: nat where
  "unity = 0x14a3074b02521e3b1ed9852e5028452693e87be4e910500c7ba9bbddb2f46edd"

definition flip :: "field_vector \<Rightarrow> field_vector" where
  "flip v = (let n = length v in map (\<lambda>i. v ! ((n - i) mod n)) [0..<n])"

definition vec_sum :: "field_vector \<Rightarrow> nat" where
  "vec_sum v = foldl sc_add 0 v"

definition vec_add :: "field_vector \<Rightarrow> field_vector \<Rightarrow> field_vector option" where
  "vec_add v w = do { ensure (length v = length w); Some (map2 sc_add v w) }"

definition add_constant :: "field_vector \<Rightarrow> nat \<Rightarrow> field_vector" where
  "add_constant v c = map (\<lambda>a. sc_add a c) v"

definition hadamard :: "field_vector \<Rightarrow> field_vector \<Rightarrow> field_vector option" where
  "hadamard v w = do { ensure (length v = length w); Some (map2 sc_mul v w) }"

definition vec_inner_product :: "field_vector \<Rightarrow> field_vector \<Rightarrow> nat option" where
  "vec_inner_product v w =
    do { ensure (length v = length w); Some (foldl (\<lambda>acc (a, b). sc_add acc (sc_mul a b)) 0 (zip v w)) }"

definition negate :: "field_vector \<Rightarrow> field_vector" where
  "negate v = map sc_neg v"

definition vec_times :: "field_vector \<Rightarrow> nat \<Rightarrow> field_vector" where
  "vec_times v m = map (\<lambda>a. sc_mul a m) v"

definition vec_invert :: "field_vector \<Rightarrow> field_vector" where
  "vec_invert v = map sc_inv v"

definition vec_extract :: "'a list \<Rightarrow> bool \<Rightarrow> 'a list" where
  "vec_extract v parity = (let remainder = (if parity then 1 else 0) in map snd (filter (\<lambda>(i, _). i mod 2 = remainder) (enumerate 0 v)))"

definition omega_powers :: "nat \<Rightarrow> nat \<Rightarrow> field_vector" where
  "omega_powers omega n = foldl (\<lambda>omegas i. omegas @ [sc_mul (omegas ! (i - 1)) omega]) [1] [1..<n]"

definition fft_omega :: "nat \<Rightarrow> bool \<Rightarrow> nat" where
  "fft_omega n backward =
    (let e = 2 ^ 28 div n; omega = modpow unity e order in if backward then sc_inv omega else omega)"

lemma vec_extract_simps [simp]:
  "vec_extract [] b = []" "vec_extract (x # xs) False = x # vec_extract xs True" "vec_extract (x # xs) True = vec_extract xs False"
proof -
  have e: "enumerate 0 (x # xs) = (0, x) # map (\<lambda>(i, y). (Suc i, y)) (enumerate 0 xs)"
    by (auto simp: enumerate_Suc_eq)
  have s: "(Suc i mod 2 = 0) = (i mod 2 = Suc 0)" "(Suc i mod 2 = Suc 0) = (i mod 2 = 0)" for i by presburger+
  show "vec_extract [] b = []" by (simp add: vec_extract_def)
  show "vec_extract (x # xs) False = x # vec_extract xs True" "vec_extract (x # xs) True = vec_extract xs False"
    unfolding vec_extract_def e by (simp_all add: filter_map o_def case_prod_unfold s Let_def)
qed

lemma length_vec_extract: "length (vec_extract xs b) = (if b then length xs div 2 else (length xs + 1) div 2)"
  by (induction xs arbitrary: b) auto

function fft_field_vector :: "field_vector \<Rightarrow> bool \<Rightarrow> field_vector option" where
  "fft_field_vector input backward =
    (let n = length input in
     if n = 1 then Some input
     else if n mod 2 \<noteq> 0 then None
     else if n = 0 then None
     else do {
       ev \<leftarrow> fft_field_vector (vec_extract input False) backward;
       od \<leftarrow> fft_field_vector (vec_extract input True) backward;
       odd_had \<leftarrow> hadamard od (omega_powers (fft_omega n backward) (n div 2));
       upper \<leftarrow> vec_add ev odd_had;
       lower \<leftarrow> vec_add ev (negate odd_had);
       let result = upper @ lower;
       Some (if backward then vec_times result half else result) })"

  by pat_completeness auto

termination
  by (relation "measure (length \<circ> fst)") (auto simp: length_vec_extract elim: evenE)

declare fft_field_vector.simps [simp del]

text \<open>Polynomials whose coefficients are vectors.\<close>

definition poly_evaluate :: "field_vector list \<Rightarrow> nat \<Rightarrow> field_vector option" where
  "poly_evaluate coefficients x = do {
     result \<leftarrow> get coefficients 0;
     (result, _) \<leftarrow> for_each [1..<length coefficients] (\<lambda>i (result, accumulator). do {
       c \<leftarrow> get coefficients i;
       result \<leftarrow> vec_add result (vec_times c accumulator);
       Some (result, sc_mul accumulator x) }) (result, sc_reduce x);
     Some result }"

definition poly_inner_product :: "field_vector list \<Rightarrow> field_vector list \<Rightarrow> nat list option" where
  "poly_inner_product p q = do {
     ensure (length p + length q > 0);
     let result = replicate (length p + length q - 1) 0;
     for_each [0..<length p] (\<lambda>i result. for_each [0..<length q] (\<lambda>j result. do {
       ip \<leftarrow> vec_inner_product (p ! i) (q ! j);
       r \<leftarrow> get result (i + j);
       Some (result[i + j := sc_add r ip]) }) result) result }"

section \<open>Element-wise operations\<close>

lemma vec_add_Some [simp]: "length v = length w \<Longrightarrow> vec_add v w = Some (map2 sc_add v w)"
  by (simp add: vec_add_def ensure_def)

lemma hadamard_Some [simp]: "length v = length w \<Longrightarrow> hadamard v w = Some (map2 sc_mul v w)"
  by (simp add: hadamard_def ensure_def)

lemma length_vec [simp]: "length (negate v) = length v" "length (vec_times v m) = length v" "length (add_constant v c) = length v"
  "length (vec_invert v) = length v" "length (flip v) = length v"
  by (simp_all add: negate_def vec_times_def add_constant_def vec_invert_def flip_def Let_def)

lemma nth_vec_extract: "i < length (vec_extract xs b) \<Longrightarrow> vec_extract xs b ! i = xs ! (2 * i + (if b then 1 else 0))"
proof (induction xs arbitrary: b i)
  case (Cons x xs)
  show ?case
  proof (cases b)
    case True
    then show ?thesis using Cons.prems Cons.IH[of i False] by simp
  next
    case False
    then show ?thesis using Cons.prems Cons.IH[of "i - 1" True] by (cases i) auto
  qed
qed simp

lemma omega_powers_spec:
  "0 < n \<Longrightarrow> length (omega_powers w n) = n \<and> (\<forall>i<n. sgr (int (omega_powers w n ! i)) (int w ^ i))"
proof (induction n)
  case (Suc n)
  show ?case
  proof (cases "n = 0")
    case False
    then have e: "omega_powers w (Suc n) = omega_powers w n @ [sc_mul (omega_powers w n ! (n - 1)) w]"
      by (simp add: omega_powers_def)
    have ih: "length (omega_powers w n) = n" "\<And>i. i < n \<Longrightarrow> sgr (int (omega_powers w n ! i)) (int w ^ i)"
      using Suc.IH False by auto
    have "sgr (int (sc_mul (omega_powers w n ! (n - 1)) w)) (int w ^ (n - 1) * int w)"
      using sgr_trans[OF sgr_sc_mul sgr_mult[OF ih(2) sgr_refl]] False by simp
    then have "sgr (int (sc_mul (omega_powers w n ! (n - 1)) w)) (int w ^ n)"
      using False by (metis power_minus_mult mult.commute not_gr_zero)
    then show ?thesis using ih unfolding e by (auto simp: nth_append less_Suc_eq)
  qed (simp add: omega_powers_def)
qed simp

section \<open>Roots of unity\<close>

text \<open>The discrete Fourier sum of \<open>n\<close> values at a root.\<close>

definition dft :: "int \<Rightarrow> nat \<Rightarrow> (nat \<Rightarrow> int) \<Rightarrow> nat \<Rightarrow> int" where
  "dft w n x j = (\<Sum>i<n. x i * w ^ (i * j))"

lemma sum_pairs: "(\<Sum>i<2 * (h::nat). f i) = (\<Sum>i<h. f (2 * i)) + (\<Sum>i<h. f (2 * i + 1) :: int)"
  by (induction h) simp_all

text \<open>A generator whose power \<open>2\<close> to the \<open>27\<close> is minus one: its powers are roots of every order up to \<open>2\<close> to the \<open>28\<close>.\<close>

locale unity_root =
  fixes c :: int
  assumes minus_one: "sgr (c ^ 2 ^ 27) (- 1)"
begin

definition root :: "nat \<Rightarrow> int" where
  "root k = c ^ 2 ^ (28 - k)"

lemma root_square:
  assumes "k < 28"
  shows "root (Suc k) ^ 2 = root k"
proof -
  have "28 - k = Suc (28 - Suc k)" using assms by simp
  then show ?thesis unfolding root_def by (simp only: power_Suc2 power_mult)
qed

lemma root_half:
  assumes "k < 28"
  shows "sgr (root (Suc k) ^ 2 ^ k) (- 1)"
proof -
  have "root (Suc k) ^ 2 ^ k = c ^ 2 ^ 27"
    using assms by (simp add: root_def flip: power_mult power_add)
  then show ?thesis using minus_one by simp
qed

lemma root_full: "k < 28 \<Longrightarrow> sgr (root (Suc k) ^ 2 ^ Suc k) 1"
  using sgr_power[OF root_half, of k 2] by (simp add: mult.commute flip: power_mult)

lemma root_order: "k \<le> 28 \<Longrightarrow> sgr (root k ^ 2 ^ k) 1"
proof (cases k)
  case 0
  have "root 0 = (c ^ 2 ^ 27) ^ 2" by (simp add: root_def flip: power_mult)
  then show ?thesis using sgr_power[OF minus_one, of 2] 0 by simp
qed (use root_full in \<open>simp del: power_Suc\<close>)

text \<open>One level of the transform.\<close>

lemma butterfly:
  assumes "k < 28"
  shows "sgr (dft (root (Suc k)) (2 ^ Suc k) x j)
     (dft (root k) (2 ^ k) (\<lambda>i. x (2 * i)) j + root (Suc k) ^ j * dft (root k) (2 ^ k) (\<lambda>i. x (2 * i + 1)) j)" (is ?lower)
    and "sgr (dft (root (Suc k)) (2 ^ Suc k) x (2 ^ k + j))
     (dft (root k) (2 ^ k) (\<lambda>i. x (2 * i)) j - root (Suc k) ^ j * dft (root k) (2 ^ k) (\<lambda>i. x (2 * i + 1)) j)" (is ?upper)
proof -
  define w where "w = root (Suc k)"
  have w2: "root k = w ^ 2" using root_square[OF assms] by (simp add: w_def)
  have split: "dft w (2 ^ Suc k) x n = (\<Sum>i<2 ^ k. x (2 * i) * w ^ (2 * i * n)) + (\<Sum>i<2 ^ k. x (2 * i + 1) * w ^ ((2 * i + 1) * n))" for n
    using sum_pairs[of "\<lambda>i. x i * w ^ (i * n)" "2 ^ k"] by (simp add: dft_def)
  have ev: "dft (root k) (2 ^ k) (\<lambda>i. x (2 * i)) j = (\<Sum>i<2 ^ k. x (2 * i) * w ^ (2 * i * j))"
    by (simp add: dft_def w2 mult.assoc flip: power_mult)
  have od: "w ^ j * dft (root k) (2 ^ k) (\<lambda>i. x (2 * i + 1)) j = (\<Sum>i<2 ^ k. x (2 * i + 1) * w ^ ((2 * i + 1) * j))"
    by (simp add: dft_def w2 sum_distrib_left algebra_simps power_add flip: power_mult)
  show ?lower using split[of j] ev od by (simp add: w_def)
  have full: "sgr (w ^ (2 * 2 ^ k * i)) 1" for i
    using sgr_power[OF root_full[OF assms], of i] by (simp add: w_def power_mult)
  have e: "sgr (x (2 * i) * w ^ (2 * i * (2 ^ k + j))) (x (2 * i) * w ^ (2 * i * j))" for i
    using sgr_mult[OF sgr_refl[of "x (2 * i) * w ^ (2 * i * j)"] full[of i]] by (simp add: algebra_simps power_add)
  have "sgr (w ^ (2 * 2 ^ k * i) * w ^ 2 ^ k) (1 * - 1)" for i
    using full root_half[OF assms] by (intro sgr_mult) (simp_all add: w_def)
  then have "sgr (x (2 * i + 1) * w ^ ((2 * i + 1) * j) * (w ^ (2 * 2 ^ k * i) * w ^ 2 ^ k)) (x (2 * i + 1) * w ^ ((2 * i + 1) * j) * (1 * - 1))" for i
    by (rule sgr_mult[OF sgr_refl])
  then have o: "sgr (x (2 * i + 1) * w ^ ((2 * i + 1) * (2 ^ k + j))) (- (x (2 * i + 1) * w ^ ((2 * i + 1) * j)))" for i
    by (simp add: algebra_simps power_add)
  have "sgr (dft w (2 ^ Suc k) x (2 ^ k + j))
     ((\<Sum>i<2 ^ k. x (2 * i) * w ^ (2 * i * j)) + (\<Sum>i<2 ^ k. - (x (2 * i + 1) * w ^ ((2 * i + 1) * j))))"
    unfolding split by (intro sgr_add sgr_sum e o)
  then show ?upper using ev od by (simp add: w_def sum_negf)
qed

text \<open>The powers of a root that is not one sum up to zero.\<close>

lemma root_sum: "k \<le> 28 \<Longrightarrow> 0 < d \<Longrightarrow> d < 2 ^ k \<Longrightarrow> sgr (\<Sum>j<2 ^ k. root k ^ (d * j)) 0"
proof (induction k arbitrary: d)
  case (Suc k)
  define w where "w = root (Suc k)"
  have k: "k < 28" using Suc.prems(1) by simp
  have w2: "root k = w ^ 2" using root_square[OF k] by (simp add: w_def)
  have "(\<Sum>j<2 ^ Suc k. w ^ (d * j)) = (\<Sum>j<2 ^ k. w ^ (d * (2 * j))) + (\<Sum>j<2 ^ k. w ^ (d * (2 * j + 1)))"
    using sum_pairs[of "\<lambda>j. w ^ (d * j)" "2 ^ k"] by simp
  also have "\<dots> = (1 + w ^ d) * (\<Sum>j<2 ^ k. root k ^ (d * j))"
    by (simp add: w2 sum_distrib_left algebra_simps power_add sum.distrib flip: power_mult)
  finally have e: "(\<Sum>j<2 ^ Suc k. w ^ (d * j)) = (1 + w ^ d) * (\<Sum>j<2 ^ k. root k ^ (d * j))" .
  have "sgr ((1 + w ^ d) * (\<Sum>j<2 ^ k. root k ^ (d * j))) 0"
  proof (cases "d = 2 ^ k")
    case True
    have "sgr (1 + w ^ d) (1 + - 1)" using root_half[OF k] True by (intro sgr_add) (simp_all add: w_def)
    from sgr_mult[OF this sgr_refl, of "\<Sum>j<2 ^ k. root k ^ (d * j)"] show ?thesis by simp
  next
    case False
    define d' where "d' = (if d < 2 ^ k then d else d - 2 ^ k)"
    have d': "0 < d'" "d' < 2 ^ k" using False Suc.prems by (auto simp: d'_def)
    have "sgr (root k ^ (d * j)) (root k ^ (d' * j))" for j
    proof (cases "d < 2 ^ k")
      case False
      then have "root k ^ (d * j) = (root k ^ 2 ^ k) ^ j * root k ^ (d' * j)"
        by (simp add: d'_def flip: power_mult power_add add_mult_distrib)
      then show ?thesis using sgr_mult[OF sgr_power[OF root_order[of k], of j] sgr_refl] k by simp
    qed (simp add: d'_def)
    then have "sgr (\<Sum>j<2 ^ k. root k ^ (d * j)) (\<Sum>j<2 ^ k. root k ^ (d' * j))" by (intro sgr_sum)
    then have "sgr (\<Sum>j<2 ^ k. root k ^ (d * j)) 0" using Suc.IH[OF _ d'] k sgr_trans by simp
    from sgr_mult[OF sgr_refl this, of "1 + w ^ d"] show ?thesis by simp
  qed
  then show ?case using e by (simp add: w_def)
qed simp

end

section \<open>The transform is the Fourier sum\<close>

definition scale :: "bool \<Rightarrow> int" where
  "scale backward = (if backward then int half else 1)"

locale fft_direction = unity_root +
  fixes backward :: bool
  assumes omega_root: "0 < k \<Longrightarrow> k \<le> 28 \<Longrightarrow> sgr (int (fft_omega (2 ^ k) backward)) (root k)"
begin

lemma merge_values:
  assumes "length ev = 2 ^ k" "length od = 2 ^ k" "k < 28"
    and ev: "\<And>j. j < 2 ^ k \<Longrightarrow> sgr (int (ev ! j)) (s * dft (root k) (2 ^ k) (\<lambda>i. x (2 * i)) j)"
    and od: "\<And>j. j < 2 ^ k \<Longrightarrow> sgr (int (od ! j)) (s * dft (root k) (2 ^ k) (\<lambda>i. x (2 * i + 1)) j)"
  defines "h \<equiv> map2 sc_mul od (omega_powers (fft_omega (2 ^ Suc k) backward) (2 ^ k))"
  defines "r \<equiv> map2 sc_add ev h @ map2 sc_add ev (negate h)"
  shows "length h = 2 ^ k" "length r = 2 ^ Suc k"
    and "n < 2 ^ Suc k \<Longrightarrow> sgr (int (r ! n)) (s * dft (root (Suc k)) (2 ^ Suc k) x n)"
proof -
  define w where "w = fft_omega (2 ^ Suc k) backward"
  have w: "sgr (int w) (root (Suc k))" using omega_root[of "Suc k"] assms(3) by (simp add: w_def)
  have om: "length (omega_powers w (2 ^ k)) = 2 ^ k" "\<And>j. j < 2 ^ k \<Longrightarrow> sgr (int (omega_powers w (2 ^ k) ! j)) (int w ^ j)"
    using omega_powers_spec[of "2 ^ k" w] by auto
  show len: "length h = 2 ^ k" "length r = 2 ^ Suc k" using assms(1,2) om(1) by (simp_all add: h_def r_def w_def)
  have h: "sgr (int (h ! j)) (s * (root (Suc k) ^ j * dft (root k) (2 ^ k) (\<lambda>i. x (2 * i + 1)) j))" if j: "j < 2 ^ k" for j
  proof -
    have "sgr (int (od ! j) * int (omega_powers w (2 ^ k) ! j)) (s * dft (root k) (2 ^ k) (\<lambda>i. x (2 * i + 1)) j * root (Suc k) ^ j)"
      using sgr_trans[OF om(2) sgr_power[OF w]] j by (intro sgr_mult od) auto
    then show ?thesis using sgr_trans[OF sgr_sc_mul] j assms(2) om(1) by (simp add: h_def w_def ac_simps)
  qed
  assume n: "n < 2 ^ Suc k"
  show "sgr (int (r ! n)) (s * dft (root (Suc k)) (2 ^ Suc k) x n)"
  proof (cases "n < 2 ^ k")
    case True
    then have "sgr (int (r ! n)) (int (ev ! n) + int (h ! n))"
      using assms(1) len(1) by (simp add: r_def nth_append sgr_sc_add)
    also have "sgr \<dots> (s * dft (root k) (2 ^ k) (\<lambda>i. x (2 * i)) n + s * (root (Suc k) ^ n * dft (root k) (2 ^ k) (\<lambda>i. x (2 * i + 1)) n))"
      using True by (intro sgr_add ev h)
    also have "sgr \<dots> (s * dft (root (Suc k)) (2 ^ Suc k) x n)"
      using sgr_mult[OF sgr_refl[of s] sgr_sym[OF butterfly(1)[OF assms(3)]]] by (simp add: distrib_left)
    finally show ?thesis .
  next
    case False
    define j where "j = n - 2 ^ k"
    have j: "j < 2 ^ k" "n = 2 ^ k + j" using n False by (simp_all add: j_def)
    then have "sgr (int (r ! n)) (int (ev ! j) + int (sc_neg (h ! j)))"
      using assms(1) len(1) by (simp add: r_def nth_append negate_def sgr_sc_add)
    also have "sgr \<dots> (s * dft (root k) (2 ^ k) (\<lambda>i. x (2 * i)) j + - (s * (root (Suc k) ^ j * dft (root k) (2 ^ k) (\<lambda>i. x (2 * i + 1)) j)))"
      using j sgr_trans[OF sgr_sc_neg sgr_minus[OF h]] by (intro sgr_add ev) auto
    also have "sgr \<dots> (s * dft (root (Suc k)) (2 ^ Suc k) x n)"
      using sgr_mult[OF sgr_refl[of s] sgr_sym[OF butterfly(2)[OF assms(3)]]] by (simp add: right_diff_distrib j(2))
    finally show ?thesis .
  qed
qed

lemma fft_values:
  "length xs = 2 ^ k \<Longrightarrow> k \<le> 28 \<Longrightarrow> \<exists>ys. fft_field_vector xs backward = Some ys \<and> length ys = 2 ^ k \<and> (0 < k \<longrightarrow> (\<forall>y\<in>set ys. y < order))
    \<and> (\<forall>j<2 ^ k. sgr (int (ys ! j)) (scale backward ^ k * dft (root k) (2 ^ k) (\<lambda>i. int (xs ! i)) j))"
proof (induction k arbitrary: xs)
  case 0
  then show ?case by (simp add: fft_field_vector.simps[of xs] dft_def)
next
  case (Suc k)
  have k: "k < 28" using Suc.prems by simp
  have l: "length (vec_extract xs b) = 2 ^ k" for b using Suc.prems by (simp add: length_vec_extract)
  obtain ev where ev: "fft_field_vector (vec_extract xs False) backward = Some ev" "length ev = 2 ^ k"
      "\<And>j. j < 2 ^ k \<Longrightarrow> sgr (int (ev ! j)) (scale backward ^ k * dft (root k) (2 ^ k) (\<lambda>i. int (xs ! (2 * i))) j)"
    using Suc.IH[OF l, of False] k l[of False] by (auto simp: nth_vec_extract dft_def)
  obtain od where od: "fft_field_vector (vec_extract xs True) backward = Some od" "length od = 2 ^ k"
      "\<And>j. j < 2 ^ k \<Longrightarrow> sgr (int (od ! j)) (scale backward ^ k * dft (root k) (2 ^ k) (\<lambda>i. int (xs ! (2 * i + 1))) j)"
    using Suc.IH[OF l, of True] k l[of True] by (auto simp: nth_vec_extract dft_def)
  define h where "h = map2 sc_mul od (omega_powers (fft_omega (2 ^ Suc k) backward) (2 ^ k))"
  define r where "r = map2 sc_add ev h @ map2 sc_add ev (negate h)"
  note merge = merge_values[where x = "\<lambda>i. int (xs ! i)" and s = "scale backward ^ k", OF ev(2) od(2) k]
  have m: "length h = 2 ^ k" "length r = 2 ^ Suc k"
    and v: "\<And>n. n < 2 ^ Suc k \<Longrightarrow> sgr (int (r ! n)) (scale backward ^ k * dft (root (Suc k)) (2 ^ Suc k) (\<lambda>i. int (xs ! i)) n)"
    unfolding h_def r_def by (rule merge(1), erule ev(3), erule od(3))
      (rule merge(2), erule ev(3), erule od(3), rule merge(3), erule ev(3), erule od(3), assumption)
  have om: "length (omega_powers (fft_omega (2 ^ Suc k) backward) (2 ^ k)) = 2 ^ k" using omega_powers_spec[of "2 ^ k"] by simp
  have run: "fft_field_vector xs backward = Some (if backward then vec_times r half else r)"
    unfolding fft_field_vector.simps[of xs] using Suc.prems ev(1,2) od(1,2) om m(1)
    by (simp add: Let_def h_def r_def)
  have small: "\<forall>y\<in>set (if backward then vec_times r half else r). y < order"
    by (auto simp: r_def vec_times_def set_zip)
  have "sgr (int ((if backward then vec_times r half else r) ! j)) (scale backward ^ Suc k * dft (root (Suc k)) (2 ^ Suc k) (\<lambda>i. int (xs ! i)) j)"
    if j: "j < 2 ^ Suc k" for j
  proof (cases backward)
    case True
    then show ?thesis using m(2) j sgr_trans[OF sgr_sc_mul sgr_mult[OF v[OF j] sgr_refl[of "int half"]]]
      by (simp add: vec_times_def scale_def ac_simps)
  qed (use v[OF j] in \<open>simp add: scale_def\<close>)
  then show ?case using run small m(2) by auto
qed

end

section \<open>The generator of the roots\<close>

lemma unity_squares_1: "squares_to 9334303377689037989442018753807510978357674015322511348041267794643984346845
  [(3980640202911614097008664481671406742403409282104905929636330169577759670902,
    5386160196654426680587908437466522292546094316449484299324766866127632017491),
   (1325402035873273968688269414783498413491241450749986642231717289142802550954,
    12362307667888646701425312110878689865021595310920166424580800508730201766463),
   (6982134279593561736255752177673507710532251757457831808722179302192179185531,
    5148738231998941919093990236993263532269870972013516935781786344180148212742),
   (1211129899136576468660577509879546614188944964646670746460926801195017154103,
    16643672540115633805563853945723027550993701476449905874677628551579802092013),
   (12655736563440362232617956414065416114570942183769058327301676826973556429687,
    13252703557862788389976730844372645439064911993718389198414587628322210210290),
   (8024132070398139843109032593241045127174293305597661912112519298654904096494,
    4457172912594795098054791682097913048641223487506501713825020529505277817302),
   (907628377896347353366229115902782895152825845757311079102096840612531882612,
    19272091989509091305020350099746195172929790082950684794718832217208730047600)]
  19272091989509091305020350099746195172929790082950684794718832217208730047600"
  by (simp add: order_value)

lemma unity_squares_2: "squares_to 19272091989509091305020350099746195172929790082950684794718832217208730047600
  [(16968631599476148419912876585850403967672965626283342349517586052858265407703,
    5842802100655208202220601494581405077665173309140896317325199079522672222249),
   (1559665460005573288149055268548451069935682863914061836943878158518079266362,
    14884733263770703732945167506469336743140679373875199793905601460445798082647),
   (10122113759010236764394118631771470054338585419596337894192548986792364429390,
    6329356500066760270385320104800041361651069484717522138295268762262921542979),
   (1830240734238117153594265915271996426045266211171158352786073307822233733916,
    11565653466738277530628741220304823612722675405816973185845244591737513948269),
   (6111241587362507280591036534360940736932637946421657583638893088091029117128,
    9660115514202593531100067682393183355657542117565779041330117754511840468385),
   (4263377023643931921474962234941107009092766249320818491273375891706445508385,
    17211102306520970967213052914371369596738459283236387412359684881022575259680),
   (13533386135195047983083411554610070890619657783004943881025573463420659242295,
    14229260808819098486278975467407741759361061425445230391676014495348385181385)]
  14229260808819098486278975467407741759361061425445230391676014495348385181385"
  by (simp add: order_value)

lemma unity_squares_3: "squares_to 14229260808819098486278975467407741759361061425445230391676014495348385181385
  [(9250256603552634879536973549527171515393369043049428363488154177301861373688,
    9090043539319700525180694863088438141526795587596161993289642113491003392729),
   (3775035393683225283266642167480049228606672194942515753539143590023490467447,
    8477717586962391430021390578943454164414648872458158237910335531391429387642),
   (3283575383602824307262602487838412138378230579094818977964729268974166228537,
    6817480751504504562577875582449903316391154748339068687317916541014517497835),
   (2123425076616433814263041656675181556263622921867370699782440027807028584042,
    6531022821848369560014691083010323133201715775564118070701158845247556543311),
   (1948729249271163196521301845264087834681117174623361807130430269940365942217,
    14354781995352964383659700853690011477199945225665817466525863873657499079832),
   (9414175790201032857746471942531715242914008550627334073668264734345342657072,
    13627164367400217852242664780972257485755764801090240218769648540920863094800),
   (8483988860296202894921545168639028888243985257141637834946277885837443774743,
    16492379260617511663525300587171977000640391919984229181494579023045136238569)]
  16492379260617511663525300587171977000640391919984229181494579023045136238569"
  by (simp add: order_value)

lemma unity_squares_4: "squares_to 16492379260617511663525300587171977000640391919984229181494579023045136238569
  [(12426697532034032288678917419061376871622974631588657662849501893991445849931,
    3615280243335670280535781361155813640876625896989570522580498724670629915334),
   (597135700402383483686663474863900574801406196182961006982251894119470846421,
    10550721784764313104495045260998680866741519845912303749987955721122349694799),
   (5085731679390223808973717724777505086063613918536014458768167623586359621171,
    6253536085317186207246464833049627590927251685115435834607356421380913742894),
   (1786653857933825541420999616539741984944760336526628661910619564174393988803,
    2347812377031792896086586148252853002454598368280444936565603590212962918785),
   (251834877290928195414704211818858432601296214394203443131487074305372015819,
    21888242871839275217838484774961031246007050428528088939761107053157389710902),
   (21888242871839275213430563804664787404353416997930879449828600104561791390564,
    21888242871839275222246405745257275088548364400416034343698204186575808495616)]
  21888242871839275222246405745257275088548364400416034343698204186575808495616"
  by (simp add: order_value)

lemma unity_power: "sgr (int unity ^ 2 ^ 27) (- 1)"
proof -
  have s: "sgr (int 9334303377689037989442018753807510978357674015322511348041267794643984346845 ^ 2 ^ 7) (int 19272091989509091305020350099746195172929790082950684794718832217208730047600)"
    "sgr (int 19272091989509091305020350099746195172929790082950684794718832217208730047600 ^ 2 ^ 7) (int 14229260808819098486278975467407741759361061425445230391676014495348385181385)"
    "sgr (int 14229260808819098486278975467407741759361061425445230391676014495348385181385 ^ 2 ^ 7) (int 16492379260617511663525300587171977000640391919984229181494579023045136238569)"
    "sgr (int 16492379260617511663525300587171977000640391919984229181494579023045136238569 ^ 2 ^ 6) (int 21888242871839275222246405745257275088548364400416034343698204186575808495616)"
    by (rule squares_to_power[OF unity_squares_1] squares_to_power[OF unity_squares_2] squares_to_power[OF unity_squares_3]
      squares_to_power[OF unity_squares_4], simp)+
  have u: "unity = 9334303377689037989442018753807510978357674015322511348041267794643984346845" by (simp add: unity_def)
  have "int unity ^ 2 ^ 27 = (((int unity ^ 2 ^ 7) ^ 2 ^ 7) ^ 2 ^ 7) ^ 2 ^ 6" by (simp flip: power_mult)
  also have "sgr \<dots> (((int 19272091989509091305020350099746195172929790082950684794718832217208730047600 ^ 2 ^ 7) ^ 2 ^ 7) ^ 2 ^ 6)" unfolding u by (intro sgr_power s(1))
  also have "sgr \<dots> ((int 14229260808819098486278975467407741759361061425445230391676014495348385181385 ^ 2 ^ 7) ^ 2 ^ 6)" by (intro sgr_power s(2))
  also have "sgr \<dots> (int 16492379260617511663525300587171977000640391919984229181494579023045136238569 ^ 2 ^ 6)" by (intro sgr_power s(3))
  also have "sgr \<dots> (int 21888242871839275222246405745257275088548364400416034343698204186575808495616)" by (rule s(4))
  also have "sgr \<dots> (- 1)" by (simp add: sgr_def order_value)
  finally show ?thesis .
qed

lemma fft_omega_forward: "k \<le> 28 \<Longrightarrow> sgr (int (fft_omega (2 ^ k) False)) (int unity ^ 2 ^ (28 - k))"
proof -
  assume "k \<le> 28"
  then have "2 ^ 28 div 2 ^ k = (2 ^ (28 - k) :: nat)" by (subst power_diff) simp_all
  then show ?thesis unfolding fft_omega_def by (simp add: modpow_def sgr_nat flip: of_nat_power)
qed

lemma fft_omega_backward: "k \<le> 28 \<Longrightarrow> sgr (int (fft_omega (2 ^ k) True)) ((int unity ^ (order - 2)) ^ 2 ^ (28 - k))"
proof -
  assume k: "k \<le> 28"
  have "fft_omega (2 ^ k) True = sc_inv (fft_omega (2 ^ k) False)" by (simp add: fft_omega_def Let_def)
  then have "sgr (int (fft_omega (2 ^ k) True)) (int (fft_omega (2 ^ k) False) ^ (order - 2))" using sgr_sc_inv by simp
  also have "sgr \<dots> ((int unity ^ 2 ^ (28 - k)) ^ (order - 2))" using fft_omega_forward[OF k] by (rule sgr_power)
  also have "\<dots> = (int unity ^ (order - 2)) ^ 2 ^ (28 - k)" by (simp add: mult.commute flip: power_mult)
  finally show ?thesis .
qed

interpretation fwd: unity_root "int unity"
  by unfold_locales (rule unity_power)

interpretation bwd: unity_root "int unity ^ (order - 2)"
proof
  have "(int unity ^ (order - 2)) ^ 2 ^ 27 = (int unity ^ 2 ^ 27) ^ (order - 2)" by (simp add: mult.commute flip: power_mult)
  also have "sgr \<dots> ((- 1) ^ (order - 2))" by (rule sgr_power[OF unity_power])
  also have "\<dots> = - 1" by (simp add: order_value)
  finally show "sgr ((int unity ^ (order - 2)) ^ 2 ^ 27) (- 1)" .
qed

interpretation fwd: fft_direction "int unity" False
  by unfold_locales (simp add: fwd.root_def fft_omega_forward)

interpretation bwd: fft_direction "int unity ^ (order - 2)" True
  by unfold_locales (simp add: bwd.root_def fft_omega_backward)

lemma root_inverse:
  assumes "k \<le> 28"
  shows "sgr (fwd.root k * bwd.root k) 1"
proof -
  obtain m where m: "order - 1 = 2 ^ 27 * 2 * m"
  proof
    show "order - 1 = 2 ^ 27 * 2 * 81540058820840996586704275553141814055101440848469862132140264610111" by (simp add: order_value)
  qed
  have "order - 1 = Suc (order - 2)" using order_pos(4) by linarith
  then have "int unity * int unity ^ (order - 2) = int unity ^ (order - 1)" by (simp only: power_Suc)
  also have "\<dots> = ((int unity ^ 2 ^ 27) ^ 2) ^ m" unfolding m by (simp only: power_mult)
  also have "sgr \<dots> (((- 1) ^ 2) ^ m)" by (intro sgr_power unity_power)
  finally have "sgr (int unity * int unity ^ (order - 2)) 1" by simp
  from sgr_power[OF this, of "2 ^ (28 - k)"] show ?thesis
    by (simp add: fwd.root_def bwd.root_def power_mult_distrib)
qed

text \<open>The two families of roots are orthogonal.\<close>

lemma root_orthogonal:
  assumes "k \<le> 28" "i < 2 ^ k" "l < 2 ^ k"
  shows "sgr (\<Sum>j<2 ^ k. fwd.root k ^ (i * j) * bwd.root k ^ (j * l)) (if i = l then 2 ^ k else 0)"
proof -
  let ?w = "fwd.root k" and ?v = "bwd.root k"
  have one: "sgr (?w ^ n * ?v ^ n) 1" for n
    using sgr_power[OF root_inverse[OF assms(1)], of n] by (simp add: power_mult_distrib)
  consider (eq) "i = l" | (gt) "l < i" | (lt) "i < l" by linarith
  then show ?thesis
  proof cases
    case eq
    then show ?thesis using sgr_sum[of "{..<2 ^ k}" "\<lambda>j. ?w ^ (i * j) * ?v ^ (j * l)" "\<lambda>_. 1"] one by (simp add: mult.commute)
  next
    case gt
    then have "i * j = (i - l) * j + l * j" for j by (metis add_mult_distrib le_add_diff_inverse2 less_imp_le)
    then have "?w ^ (i * j) * ?v ^ (j * l) = ?w ^ ((i - l) * j) * (?w ^ (l * j) * ?v ^ (l * j))" for j
      by (simp only: power_add mult.assoc mult.commute[of j])
    then have "sgr (?w ^ (i * j) * ?v ^ (j * l)) (?w ^ ((i - l) * j))" for j
      using sgr_mult[OF sgr_refl[of "?w ^ ((i - l) * j)"] one[of "l * j"]] by (simp only: mult_1_right)
    then show ?thesis using sgr_trans[OF sgr_sum fwd.root_sum[OF assms(1), of "i - l"]] gt assms(2) by auto
  next
    case lt
    then have "j * l = (l - i) * j + i * j" for j by (metis add_mult_distrib le_add_diff_inverse2 less_imp_le mult.commute)
    then have "?w ^ (i * j) * ?v ^ (j * l) = ?v ^ ((l - i) * j) * (?w ^ (i * j) * ?v ^ (i * j))" for j
      by (simp only: power_add mult.left_commute)
    then have "sgr (?w ^ (i * j) * ?v ^ (j * l)) (?v ^ ((l - i) * j))" for j
      using sgr_mult[OF sgr_refl[of "?v ^ ((l - i) * j)"] one[of "i * j"]] by (simp only: mult_1_right)
    then show ?thesis using sgr_trans[OF sgr_sum bwd.root_sum[OF assms(1), of "l - i"]] lt assms(3) by auto
  qed
qed

lemma dft_inverse:
  assumes "k \<le> 28" "l < 2 ^ k"
  shows "sgr (dft (bwd.root k) (2 ^ k) (dft (fwd.root k) (2 ^ k) x) l) (2 ^ k * x l)"
proof -
  have "dft (bwd.root k) (2 ^ k) (dft (fwd.root k) (2 ^ k) x) l
      = (\<Sum>i<2 ^ k. x i * (\<Sum>j<2 ^ k. fwd.root k ^ (i * j) * bwd.root k ^ (j * l)))"
    unfolding dft_def by (simp only: sum_distrib_right sum_distrib_left mult.assoc) (rule sum.swap)
  also have "sgr \<dots> (\<Sum>i<2 ^ k. x i * (if i = l then 2 ^ k else 0))"
    using root_orthogonal[OF assms(1) _ assms(2)] by (intro sgr_sum sgr_mult sgr_refl) auto
  also have "\<dots> = 2 ^ k * x l" using assms(2) by (simp add: if_distrib cong: if_cong)
  finally show ?thesis .
qed

lemma fft_list:
  assumes "fft_field_vector xs b = Some ys" "length ys = n" "\<And>y. y \<in> set ys \<Longrightarrow> y < order"
    "\<And>j. j < n \<Longrightarrow> sgr (int (ys ! j)) (f j)"
  shows "fft_field_vector xs b = Some (map (\<lambda>j. nat (f j mod int order)) [0..<n])"
proof -
  have "ys ! j = nat (f j mod int order)" if "j < n" for j
    using assms(2) assms(3)[of "ys ! j"] assms(4)[OF that] that by (simp add: sgr_def flip: zmod_int)
  then have "ys = map (\<lambda>j. nat (f j mod int order)) [0..<n]" using assms(2) by (intro nth_equalityI) simp_all
  then show ?thesis using assms(1) by simp
qed

text \<open>C34: The transform of a vector of \<open>2\<close> to the \<open>k\<close> reduced scalars, for \<open>k\<close> up to 28, returns (it neither panics nor recurses for ever) the vector
  of the Fourier sums at the powers of the root of order \<open>2\<close> to the \<open>k\<close>.\<close>

theorem fft_is_dft:
  assumes "length xs = 2 ^ k" "k \<le> 28" "\<forall>x\<in>set xs. x < order"
  shows "fft_field_vector xs False
    = Some (map (\<lambda>j. nat ((\<Sum>i<2 ^ k. int (xs ! i) * (int unity ^ 2 ^ (28 - k)) ^ (i * j)) mod int order)) [0..<2 ^ k])"
proof -
  obtain ys where ys: "fft_field_vector xs False = Some ys" "length ys = 2 ^ k" "0 < k \<longrightarrow> (\<forall>y\<in>set ys. y < order)"
    "\<And>j. j < 2 ^ k \<Longrightarrow> sgr (int (ys ! j)) (dft (fwd.root k) (2 ^ k) (\<lambda>i. int (xs ! i)) j)"
    using fwd.fft_values[OF assms(1,2)] by (auto simp: scale_def)
  have "ys = xs" if "k = 0" using ys(1) assms(1) that by (simp add: fft_field_vector.simps[of xs])
  then have "\<And>y. y \<in> set ys \<Longrightarrow> y < order" using ys(3) assms(3) by (cases "k = 0") auto
  from fft_list[OF ys(1,2) this ys(4)] show ?thesis by (simp add: dft_def fwd.root_def)
qed

theorem fft_is_dft_witness:
  "fft_field_vector [3, 1, 4, 1] False
    = Some (map (\<lambda>j. nat ((\<Sum>i<2 ^ 2. int ([3, 1, 4, 1] ! i) * (int unity ^ 2 ^ (28 - 2)) ^ (i * j)) mod int order)) [0..<2 ^ 2])"
  by (rule fft_is_dft) (simp_all add: order_value)

text \<open>Transforming forwards and then backwards returns the vector, each element multiplied by \<open>2 * half\<close> once per level: the vector itself, since
  the code's \<open>half\<close> stands for the inverse of two.\<close>

theorem fft_backward_forward:
  assumes "length xs = 2 ^ k" "k \<le> 28" "\<forall>x\<in>set xs. x < order"
  shows "Option.bind (fft_field_vector xs False) (\<lambda>ys. fft_field_vector ys True) = Some (map (\<lambda>x. ((2 * half) ^ k * x) mod order) xs)"
proof -
  obtain ys where ys: "fft_field_vector xs False = Some ys" "length ys = 2 ^ k"
    "\<And>j. j < 2 ^ k \<Longrightarrow> sgr (int (ys ! j)) (dft (fwd.root k) (2 ^ k) (\<lambda>i. int (xs ! i)) j)"
    using fwd.fft_values[OF assms(1,2)] by (auto simp: scale_def)
  obtain zs where zs: "fft_field_vector ys True = Some zs" "length zs = 2 ^ k" "0 < k \<longrightarrow> (\<forall>z\<in>set zs. z < order)"
    "\<And>j. j < 2 ^ k \<Longrightarrow> sgr (int (zs ! j)) (int half ^ k * dft (bwd.root k) (2 ^ k) (\<lambda>i. int (ys ! i)) j)"
    using bwd.fft_values[OF ys(2) assms(2)] by (auto simp: scale_def)
  have "zs ! j = ((2 * half) ^ k * xs ! j) mod order" if j: "j < 2 ^ k" for j
  proof -
    have "sgr (dft (bwd.root k) (2 ^ k) (\<lambda>i. int (ys ! i)) j) (dft (bwd.root k) (2 ^ k) (dft (fwd.root k) (2 ^ k) (\<lambda>i. int (xs ! i))) j)"
      unfolding dft_def[of "bwd.root k"] using ys(3) by (intro sgr_sum sgr_mult sgr_refl) auto
    also note dft_inverse[OF assms(2) j]
    finally have "sgr (int (zs ! j)) (int half ^ k * (2 ^ k * int (xs ! j)))"
      using sgr_trans[OF zs(4)[OF j] sgr_mult[OF sgr_refl]] by simp
    then have "sgr (int (zs ! j)) (int ((2 * half) ^ k * xs ! j))" by (simp add: power_mult_distrib ac_simps)
    moreover have "zs ! j < order"
    proof (cases "k = 0")
      case True
      then have "zs = ys" "ys = xs" using ys(1) zs(1) assms(1) ys(2) by (simp_all add: fft_field_vector.simps[of xs] fft_field_vector.simps[of ys])
      then show ?thesis using assms(1,3) j by simp
    qed (use zs(2,3) j in auto)
    ultimately show ?thesis unfolding sgr_nat by simp
  qed
  then have "zs = map (\<lambda>x. ((2 * half) ^ k * x) mod order) xs" using zs(2) assms(1) by (intro nth_equalityI) simp_all
  then show ?thesis using ys(1) zs(1) by simp
qed

section \<open>Vector polynomials\<close>

definition ipv :: "field_vector \<Rightarrow> field_vector \<Rightarrow> int" where
  "ipv v w = (\<Sum>i<length v. int (v ! i) * int (w ! i))"

definition pval :: "int \<Rightarrow> nat list \<Rightarrow> int" where
  "pval x ts = (\<Sum>k<length ts. int (ts ! k) * x ^ k)"

lemma ipv_cong: "length v = n \<Longrightarrow> (\<And>i. i < n \<Longrightarrow> sgr (int (v ! i)) (f i)) \<Longrightarrow> (\<And>i. i < n \<Longrightarrow> sgr (int (w ! i)) (g i))
    \<Longrightarrow> sgr (ipv v w) (\<Sum>i<n. f i * g i)"
  unfolding ipv_def by (auto intro!: sgr_sum sgr_mult)

lemma vec_inner_product_value:
  assumes "length v = length w"
  shows "\<exists>r. vec_inner_product v w = Some r \<and> r < order \<and> sgr (int r) (ipv v w)"
proof -
  have fold: "sgr (int (foldl (\<lambda>acc (a, b). sc_add acc (sc_mul a b)) acc (zip v w))) (int acc + ipv v w)" for acc
    using assms
  proof (induction v w arbitrary: acc rule: list_induct2)
    case (Cons a v b w)
    have e: "ipv (a # v) (b # w) = int a * int b + ipv v w"
      unfolding ipv_def by (simp only: list.size add_0_right add_Suc_right sum.lessThan_Suc_shift) simp
    have "sgr (int (sc_add acc (sc_mul a b))) (int acc + int a * int b)"
      using sgr_trans[OF sgr_sc_add sgr_add[OF sgr_refl sgr_sc_mul]] by simp
    from sgr_trans[OF Cons.IH[of "sc_add acc (sc_mul a b)"] sgr_add[OF this sgr_refl]] show ?case by (simp add: e add.assoc)
  qed (simp add: ipv_def)
  have small: "acc < order \<Longrightarrow> foldl (\<lambda>acc (a, b). sc_add acc (sc_mul a b)) acc ps < order" for acc ps
    by (induction ps arbitrary: acc) auto
  show ?thesis using fold[of 0] small[of 0] assms by (simp add: vec_inner_product_def ensure_def)
qed

lemma pval_update:
  assumes "m < length ts" "sgr (int y) (int (ts ! m) + d)"
  shows "sgr (pval x (ts[m := y])) (pval x ts + d * x ^ m)"
proof -
  have s: "{..<length ts} = insert m ({..<length ts} - {m})" using assms(1) by auto
  define c where "c = (\<Sum>k\<in>{..<length ts} - {m}. int (ts ! k) * x ^ k)"
  have "pval x (ts[m := y]) = int y * x ^ m + c"
    unfolding pval_def c_def by (subst (1) length_list_update, subst s, subst sum.insert) (auto intro!: sum.cong simp: assms(1))
  moreover have "pval x ts = int (ts ! m) * x ^ m + c"
    unfolding pval_def c_def by (subst s, subst sum.insert) auto
  moreover have "sgr (int y * x ^ m + c) ((int (ts ! m) + d) * x ^ m + c)" using assms(2) by (intro sgr_add sgr_mult sgr_refl)
  ultimately show ?thesis by (simp add: algebra_simps)
qed

lemma poly_inner_product_value:
  assumes "p \<noteq> []" "q \<noteq> []" "\<And>v. v \<in> set p \<union> set q \<Longrightarrow> length v = n"
  shows "\<exists>ts. poly_inner_product p q = Some ts \<and> length ts = length p + length q - 1 \<and> (\<forall>t\<in>set ts. t < order)
    \<and> sgr (pval x ts) (\<Sum>i<length p. \<Sum>j<length q. ipv (p ! i) (q ! j) * x ^ (i + j))"
proof -
  define len where "len = length p + length q - 1"
  define ok where "ok ts s \<longleftrightarrow> length ts = len \<and> (\<forall>t\<in>set ts. t < order) \<and> sgr (pval x ts) s" for ts s
  define body where "body i j result = do { ip \<leftarrow> vec_inner_product (p ! i) (q ! j); r \<leftarrow> get result (i + j); Some (result[i + j := sc_add r ip]) }" for i j result
  have step: "\<exists>ts'. body i j ts = Some ts' \<and> ok ts' (s + ipv (p ! i) (q ! j) * x ^ (i + j))"
    if "i < length p" "j < length q" "ok ts s" for i j ts s
  proof -
    have ij: "i + j < length ts" using that by (auto simp: ok_def len_def)
    have "length (p ! i) = length (q ! j)" using that assms(3) by (metis UnI1 UnI2 nth_mem)
    then obtain r where r: "vec_inner_product (p ! i) (q ! j) = Some r" "sgr (int r) (ipv (p ! i) (q ! j))"
      using vec_inner_product_value by blast
    have "sgr (int (sc_add (ts ! (i + j)) r)) (int (ts ! (i + j)) + ipv (p ! i) (q ! j))"
      using sgr_trans[OF sgr_sc_add sgr_add[OF sgr_refl r(2)]] by simp
    then have "sgr (pval x (ts[i + j := sc_add (ts ! (i + j)) r])) (s + ipv (p ! i) (q ! j) * x ^ (i + j))"
      using pval_update[OF ij] that(3) sgr_trans sgr_add[OF _ sgr_refl] unfolding ok_def by blast
    then show ?thesis using ij r(1) that(3) set_update_subset_insert by (fastforce simp: body_def ok_def)
  qed
  have row: "\<exists>ts'. for_each [0..<length q] (body i) ts = Some ts' \<and> ok ts' (s + (\<Sum>j<length q. ipv (p ! i) (q ! j) * x ^ (i + j)))"
    if "i < length p" "ok ts s" for i ts s
    using step[OF that(1)] that(2)
    by (intro for_each_upt_invariant[where Q = "\<lambda>m ts. ok ts (s + (\<Sum>j<m. ipv (p ! i) (q ! j) * x ^ (i + j)))"]) (auto simp flip: add.assoc)
  have "\<exists>ts'. for_each [0..<length p] (\<lambda>i. for_each [0..<length q] (body i)) (replicate len 0) = Some ts'
    \<and> ok ts' (\<Sum>i<length p. \<Sum>j<length q. ipv (p ! i) (q ! j) * x ^ (i + j))"
    using row by (intro for_each_upt_invariant[where Q = "\<lambda>m ts. ok ts (\<Sum>i<m. \<Sum>j<length q. ipv (p ! i) (q ! j) * x ^ (i + j))"])
      (auto simp: ok_def pval_def)
  then show ?thesis using assms(1) unfolding poly_inner_product_def body_def ok_def len_def by (simp add: Let_def ensure_def)
qed

lemma poly_evaluate_value:
  assumes "p \<noteq> []" "\<And>v. v \<in> set p \<Longrightarrow> length v = n"
  shows "\<exists>r. poly_evaluate p x = Some r \<and> length r = n \<and> (\<forall>i<n. sgr (int (r ! i)) (\<Sum>a<length p. int (p ! a ! i) * int x ^ a))"
proof -
  define body where "body i = (\<lambda>(result, accumulator). do { c \<leftarrow> get p i; result \<leftarrow> vec_add result (vec_times c accumulator); Some (result, sc_mul accumulator x) })" for i
  define ok where "ok m = (\<lambda>(r, acc). length r = n \<and> sgr (int acc) (int x ^ Suc m)
    \<and> (\<forall>i<n. sgr (int (r ! i)) (\<Sum>a<Suc m. int (p ! a ! i) * int x ^ a)))" for m
  have step: "\<exists>s'. body ([1..<length p] ! m) s = Some s' \<and> ok (Suc m) s'" if m: "m < length [1..<length p]" "ok m s" for m s
  proof -
    obtain r acc where s: "s = (r, acc)" "length r = n" "sgr (int acc) (int x ^ Suc m)"
      "\<And>i. i < n \<Longrightarrow> sgr (int (r ! i)) (\<Sum>a<Suc m. int (p ! a ! i) * int x ^ a)" using m(2) by (auto simp: ok_def)
    have l: "length (p ! Suc m) = n" using assms(2) m(1) by simp
    have "sgr (int (sc_add (r ! i) (sc_mul (p ! Suc m ! i) acc))) (\<Sum>a<Suc (Suc m). int (p ! a ! i) * int x ^ a)" if "i < n" for i
    proof -
      have "sgr (int (r ! i) + int (sc_mul (p ! Suc m ! i) acc)) ((\<Sum>a<Suc m. int (p ! a ! i) * int x ^ a) + int (p ! Suc m ! i) * int x ^ Suc m)"
        using sgr_trans[OF sgr_sc_mul sgr_mult[OF sgr_refl s(3)]] that by (intro sgr_add s(4))
      then show ?thesis using sgr_trans[OF sgr_sc_add] by simp
    qed
    moreover have "sgr (int (sc_mul acc x)) (int x ^ Suc (Suc m))"
      using sgr_trans[OF sgr_sc_mul sgr_mult[OF s(3) sgr_refl[of "int x"]]] by (simp add: mult.commute)
    ultimately show ?thesis using s(2) l m(1) by (simp add: s(1) body_def ok_def vec_times_def)
  qed
  have "ok 0 (p ! 0, sc_reduce x)" using assms by (cases p) (simp_all add: ok_def sgr_sc_reduce)
  from for_each_invariant[where Q = ok and f = body, OF this step] obtain r acc
    where r: "for_each [1..<length p] body (p ! 0, sc_reduce x) = Some (r, acc)" "ok (length p - 1) (r, acc)" by auto
  then show ?thesis using assms(1) unfolding poly_evaluate_def body_def ok_def by (cases p) auto
qed

text \<open>The inner product of two vector polynomials, as a list of scalars, evaluates to the inner product of their values: what makes the prover's
  \<open>that\<close> the inner product of the vectors it commits to. Neither computation panics on coefficient vectors of one length.\<close>

theorem poly_inner_product_evaluates:
  assumes "p \<noteq> []" "q \<noteq> []" "\<forall>v\<in>set p \<union> set q. length v = n"
  shows "\<exists>ts l r v. poly_inner_product p q = Some ts \<and> poly_evaluate p x = Some l \<and> poly_evaluate q x = Some r \<and> vec_inner_product l r = Some v
    \<and> int v = (\<Sum>k<length p + length q - 1. int (ts ! k) * int x ^ k) mod int order"
proof -
  obtain ts where ts: "poly_inner_product p q = Some ts" "length ts = length p + length q - 1"
    "sgr (pval (int x) ts) (\<Sum>i<length p. \<Sum>j<length q. ipv (p ! i) (q ! j) * int x ^ (i + j))"
    using poly_inner_product_value[of p q n "int x"] assms by auto
  obtain l r where l: "poly_evaluate p x = Some l" "length l = n" "\<And>i. i < n \<Longrightarrow> sgr (int (l ! i)) (\<Sum>a<length p. int (p ! a ! i) * int x ^ a)"
    and r: "poly_evaluate q x = Some r" "length r = n" "\<And>i. i < n \<Longrightarrow> sgr (int (r ! i)) (\<Sum>b<length q. int (q ! b ! i) * int x ^ b)"
    using poly_evaluate_value[of p n x] poly_evaluate_value[of q n x] assms by auto
  obtain v where v: "vec_inner_product l r = Some v" "v < order" "sgr (int v) (ipv l r)"
    using vec_inner_product_value[of l r] l(2) r(2) by auto
  note v(3)
  also have "sgr (ipv l r) (\<Sum>i<n. (\<Sum>a<length p. int (p ! a ! i) * int x ^ a) * (\<Sum>b<length q. int (q ! b ! i) * int x ^ b))"
    using l r by (intro ipv_cong)
  also have "\<dots> = (\<Sum>i<n. \<Sum>a<length p. \<Sum>b<length q. int (p ! a ! i) * int (q ! b ! i) * int x ^ (a + b))"
    by (simp add: sum_product power_add ac_simps)
  also have "\<dots> = (\<Sum>a<length p. \<Sum>b<length q. \<Sum>i<n. int (p ! a ! i) * int (q ! b ! i) * int x ^ (a + b))"
    by (subst sum.swap) (intro sum.cong refl sum.swap)
  also have "\<dots> = (\<Sum>a<length p. \<Sum>b<length q. ipv (p ! a) (q ! b) * int x ^ (a + b))"
    using assms(3) by (intro sum.cong refl) (simp add: ipv_def sum_distrib_right)
  also have "sgr \<dots> (pval (int x) ts)" using ts(3) by (rule sgr_sym)
  finally have "int v = pval (int x) ts mod int order" using v(2) by (simp add: sgr_def)
  then show ?thesis using ts(1,2) l(1) r(1) v(1) unfolding pval_def by metis
qed

theorem poly_inner_product_evaluates_witness:
  "\<exists>ts l r v. poly_inner_product [[1, 2], [3, 4]] [[5, 6], [7, 8]] = Some ts \<and> poly_evaluate [[1, 2], [3, 4]] 9 = Some l
    \<and> poly_evaluate [[5, 6], [7, 8]] 9 = Some r \<and> vec_inner_product l r = Some v
    \<and> int v = (\<Sum>k<length [[1, 2], [3, 4 :: nat]] + length [[5, 6], [7, 8 :: nat]] - 1. int (ts ! k) * int 9 ^ k) mod int order"
  by (rule poly_inner_product_evaluates[where n = 2]) simp_all

end
