(* ===== verification/Polynomial.thy ===== *)
theory Polynomial
  imports FieldVector
begin

text \<open>
  The polynomials of the anonymity set: the prover's expansion (\<open>cryptography/crypto/src/polynomial.rs\<close>) and the verifier's products
  (\<open>recursive_polys\<close> and \<open>assemble_polynomials\<close> of \<open>proof.rs\<close>). A row of the prover is the polynomial of one ring member; the verifier
  multiplies values instead. The lemmas show that the verifier's value is the prover's row at the challenge, and that the only row of full degree is
  the one whose index the bits spell.
\<close>

section \<open>Model\<close>

definition polynomial_mul :: "nat list \<Rightarrow> nat list \<Rightarrow> nat list option" where
  "polynomial_mul p m = do {
     m1 \<leftarrow> get m 1;
     m0 \<leftarrow> get m 0;
     let product = map (\<lambda>pi. sc_mul pi m0) p @ [0];
     if m1 = 1 then Some (foldl (\<lambda>product i. product[i := sc_add (product ! i) (p ! (i - 1))]) product [1..<length product])
     else Some product }"

function recurse :: "nat list \<Rightarrow> nat list \<Rightarrow> nat list \<Rightarrow> nat list list option" where
  "recurse accum a b =
    (if a = [] then Some [accum]
     else if b = [] then None
     else do {
       let atop = last a;
       let btop = last b;
       l \<leftarrow> polynomial_mul accum [sc_neg atop, sc_sub 1 btop];
       r \<leftarrow> polynomial_mul accum [atop, btop];
       left \<leftarrow> recurse l (butlast a) (butlast b);
       right \<leftarrow> recurse r (butlast a) (butlast b);
       Some (left @ right) })"
  by pat_completeness auto

termination
  by (relation "measure (\<lambda>(_, a, _). length a)") auto

declare recurse.simps [simp del]

definition recursive_polynomials :: "nat list \<Rightarrow> nat list \<Rightarrow> nat list list option" where
  "recursive_polynomials a b = recurse [1] a b"

definition transpose_polynomials :: "nat list list \<Rightarrow> nat \<Rightarrow> nat list list option" where
  "transpose_polynomials pi m =
    for_each pi (\<lambda>row p. for_each [0..<m] (\<lambda>i p. do { x \<leftarrow> get row i; Some (p[i := p ! i @ [x]]) }) p) (replicate m [])"

fun recursive_polys :: "nat \<Rightarrow> nat \<Rightarrow> nat \<Rightarrow> (nat \<times> nat) list \<Rightarrow> nat list option" where
  "recursive_polys baseline current accum f =
    (if current = baseline then Some [accum]
     else if current < baseline then None
     else do {
       let cur = current - 1;
       (f0, f1) \<leftarrow> get f cur;
       left \<leftarrow> recursive_polys baseline cur ((accum * f0) mod order) f;
       right \<leftarrow> recursive_polys baseline cur ((accum * f1) mod order) f;
       Some (left @ right) })"

declare recursive_polys.simps [simp del]

definition assemble_polynomials :: "(nat \<times> nat) list \<Rightarrow> (nat \<times> nat) list option" where
  "assemble_polynomials f = do {
     let m = length f div 2;
     half0 \<leftarrow> recursive_polys 0 m 1 f;
     half1 \<leftarrow> recursive_polys m (2 * m) 1 f;
     Some (zip half0 half1) }"

section \<open>Products selected by the bits of an index\<close>

definition pick :: "nat \<Rightarrow> nat \<Rightarrow> (nat \<Rightarrow> int \<times> int) \<Rightarrow> int" where
  "pick d j g = (\<Prod>k<d. if bit j k then snd (g k) else fst (g k))"

lemma bit_nat_less: "bit j k \<Longrightarrow> j < 2 ^ d \<Longrightarrow> k < d" for j :: nat
  by (metis bit_take_bit_iff take_bit_nat_eq_self)

lemma bit_add_pow2: "j < 2 ^ d \<Longrightarrow> bit (2 ^ d + j) k \<longleftrightarrow> (if k < d then bit j k else k = d)" for j :: nat
proof -
  assume j: "j < 2 ^ d"
  have d: "bit j n \<Longrightarrow> n < d" for n using bit_nat_less[OF _ j] .
  then have "\<not> bit j d" by blast
  then have "2 ^ d + j = or (2 ^ d) j" by (subst disjunctive_add) (auto simp: bit_exp_iff)
  then show ?thesis using d[of k] by (auto simp: bit_or_iff bit_exp_iff)
qed

lemma pick_Suc_low: "j < 2 ^ d \<Longrightarrow> pick (Suc d) j g = pick d j g * fst (g d)"
  using bit_nat_less[of j d d] by (auto simp: pick_def)

lemma pick_Suc_high: "j < 2 ^ d \<Longrightarrow> pick (Suc d) (2 ^ d + j) g = pick d j g * snd (g d)"
  by (auto simp: pick_def bit_add_pow2 intro!: prod.cong)

lemma sgr_prod: "(\<And>i. i \<in> A \<Longrightarrow> sgr (f i) (g i)) \<Longrightarrow> sgr (prod f A) (prod g A)"
  by (induction A rule: infinite_finite_induct) (simp_all add: sgr_mult)

lemma pick_cong: "(\<And>k. k < d \<Longrightarrow> sgr (fst (g k)) (fst (h k)) \<and> sgr (snd (g k)) (snd (h k))) \<Longrightarrow> sgr (pick d j g) (pick d j h)"
  unfolding pick_def by (intro sgr_prod) auto

text \<open>A product of bits is one exactly at the index the bits spell.\<close>

lemma bits_equal:
  fixes i j :: nat
  assumes "i < 2 ^ d" "j < 2 ^ d" "\<And>k. k < d \<Longrightarrow> bit i k = bit j k"
  shows "i = j"
proof (rule bit_eqI)
  fix k show "bit i k = bit j k" using assms(3) bit_nat_less[OF _ assms(1)] bit_nat_less[OF _ assms(2)] by blast
qed

lemma pick_bits:
  assumes "i < 2 ^ d" "j < 2 ^ d"
  shows "pick d j (\<lambda>k. (1 - of_bool (bit i k), of_bool (bit i k))) = of_bool (i = j)"
proof (cases "i = j")
  case False
  then obtain k where "k < d" "bit i k \<noteq> bit j k" using bits_equal[OF assms] by blast
  then show ?thesis using False by (auto simp: pick_def intro!: prod_zero)
qed (auto simp: pick_def intro!: prod.neutral)

lemma nth_append_halves:
  assumes "length l = 2 ^ d" "n < 2 ^ Suc d"
    and "\<And>j. j < 2 ^ d \<Longrightarrow> P (l ! j) j" and "\<And>j. j < 2 ^ d \<Longrightarrow> P (r ! j) (2 ^ d + j)"
  shows "P ((l @ r) ! n) n"
proof (cases "n < 2 ^ d")
  case False
  then show ?thesis using assms(1,2) assms(4)[of "n - 2 ^ d"] by (simp add: nth_append)
qed (simp add: assms(1,3) nth_append)

section \<open>The verifier's products\<close>

lemma recursive_polys_value:
  "base + d \<le> length f \<Longrightarrow> \<exists>rs. recursive_polys base (base + d) accum f = Some rs \<and> length rs = 2 ^ d \<and> (accum < order \<longrightarrow> (\<forall>r\<in>set rs. r < order))
    \<and> (\<forall>j<2 ^ d. sgr (int (rs ! j)) (int accum * pick d j (\<lambda>k. (int (fst (f ! (base + k))), int (snd (f ! (base + k)))))))"
proof (induction d arbitrary: accum)
  case 0
  then show ?case by (simp add: recursive_polys.simps[of base] pick_def)
next
  case (Suc d)
  let ?g = "\<lambda>k. (int (fst (f ! (base + k))), int (snd (f ! (base + k))))"
  obtain f0 f1 where f: "f ! (base + d) = (f0, f1)" by fastforce
  define rest where "rest a rs \<longleftrightarrow> recursive_polys base (base + d) a f = Some rs \<and> length rs = 2 ^ d \<and> (\<forall>r\<in>set rs. r < order)
    \<and> (\<forall>j<2 ^ d. sgr (int (rs ! j)) (int a * pick d j ?g))" for a rs
  obtain l r where lr: "rest ((accum * f0) mod order) l" "rest ((accum * f1) mod order) r"
    using Suc.IH[of "(accum * f0) mod order"] Suc.IH[of "(accum * f1) mod order"] Suc.prems unfolding rest_def by auto
  have run: "recursive_polys base (base + Suc d) accum f = Some (l @ r)"
    unfolding recursive_polys.simps[of base "base + Suc d"] using Suc.prems lr f by (simp add: rest_def)
  have v: "sgr (int ((accum * x) mod order) * p) (int accum * (p * int x))" for x p
  proof -
    have "sgr (int ((accum * x) mod order)) (int (accum * x))" unfolding sgr_nat by simp
    from sgr_mult[OF this sgr_refl[of p]] show ?thesis by (simp add: ac_simps)
  qed
  have "sgr (int ((l @ r) ! n)) (int accum * pick (Suc d) n ?g)" if "n < 2 ^ Suc d" for n
    using lr that f v unfolding rest_def
    by (intro nth_append_halves[where P = "\<lambda>y n. sgr (int y) (int accum * pick (Suc d) n ?g)" and d = d])
      (auto simp: pick_Suc_low pick_Suc_high intro: sgr_trans)
  then show ?case using run lr by (auto simp: rest_def)
qed

section \<open>The prover's rows\<close>

lemma polynomial_mul_loop:
  assumes "n \<le> length q" "length q = Suc (length p)"
  shows "foldl (\<lambda>product i. product[i := sc_add (product ! i) (p ! (i - 1))]) q [1..<n]
    = map (\<lambda>i. if 0 < i \<and> i < n then sc_add (q ! i) (p ! (i - 1)) else q ! i) [0..<length q]"
  using assms(1)
proof (induction n)
  case (Suc n)
  show ?case
  proof (cases "n = 0")
    case False
    define q' where "q' = map (\<lambda>i. if 0 < i \<and> i < n then sc_add (q ! i) (p ! (i - 1)) else q ! i) [0..<length q]"
    have u: "[1..<Suc n] = [1..<n] @ [n]" using False by simp
    have "foldl (\<lambda>product i. product[i := sc_add (product ! i) (p ! (i - 1))]) q [1..<Suc n] = q'[n := sc_add (q' ! n) (p ! (n - 1))]"
      unfolding u foldl_append using Suc.IH Suc.prems by (simp only: q'_def[symmetric] Suc_leD foldl.simps)
    moreover have "q'[n := sc_add (q' ! n) (p ! (n - 1))] = map (\<lambda>i. if 0 < i \<and> i < Suc n then sc_add (q ! i) (p ! (i - 1)) else q ! i) [0..<length q]"
      using Suc.prems False by (intro nth_equalityI) (auto simp: q'_def nth_list_update less_Suc_eq)
    ultimately show ?thesis by simp
  next
    case True
    show ?thesis unfolding True by (rule nth_equalityI) simp_all
  qed
next
  case 0
  show ?case by (rule nth_equalityI) simp_all
qed

lemma pval_snoc: "pval x (ts @ [t]) = pval x ts + int t * x ^ length ts"
  by (simp add: pval_def nth_append)

lemma polynomial_mul_value:
  assumes "p \<noteq> []" "c1 = 0 \<or> c1 = 1"
  shows "\<exists>q. polynomial_mul p [c0, c1] = Some q \<and> length q = Suc (length p) \<and> (\<forall>y\<in>set q. y < order)
    \<and> sgr (int (last q)) (int (last p) * int c1) \<and> sgr (pval x q) (pval x p * (int c0 + int c1 * x))"
proof -
  define s where "s = map (\<lambda>pi. sc_mul pi c0) p @ [0]"
  have len: "length s = Suc (length p)" by (simp add: s_def)
  have "sgr (pval x (map (\<lambda>pi. sc_mul pi c0) p)) (\<Sum>k<length p. int (p ! k) * int c0 * x ^ k)"
    unfolding pval_def by (auto intro!: sgr_sum sgr_mult sgr_sc_mul)
  also have "\<dots> = pval x p * int c0" unfolding pval_def sum_distrib_right by (rule sum.cong) simp_all
  finally have s: "sgr (pval x s) (pval x p * int c0)" by (simp add: s_def pval_snoc)
  show ?thesis
  proof (cases "c1 = 1")
    case False
    then have "c1 = 0" using assms(2) by simp
    then show ?thesis using len s by (auto simp: polynomial_mul_def s_def)
  next
    case True
    define q where "q = map (\<lambda>i. if 0 < i \<and> i < length s then sc_add (s ! i) (p ! (i - 1)) else s ! i) [0..<length s]"
    have run: "polynomial_mul p [c0, c1] = Some q"
      using True polynomial_mul_loop[of "length s" s p] len by (simp add: polynomial_mul_def s_def[symmetric] q_def Let_def)
    have el: "sgr (int (q ! i)) (int (s ! i) + (if i = 0 then 0 else int (p ! (i - 1))))" if "i < length s" for i
      using that by (cases i) (simp_all add: q_def sgr_sc_add del: upt_Suc)
    have small: "\<forall>y\<in>set q. y < order" by (auto simp: q_def s_def nth_append)
    have "sgr (pval x q) (\<Sum>i<Suc (length p). (int (s ! i) + (if i = 0 then 0 else int (p ! (i - 1)))) * x ^ i)"
      unfolding pval_def using el len by (auto simp: q_def intro!: sgr_sum sgr_mult simp del: sum.lessThan_Suc)
    also have "\<dots> = pval x s + (\<Sum>i<Suc (length p). (if i = 0 then 0 else int (p ! (i - 1))) * x ^ i)"
      by (simp only: pval_def len distrib_right sum.distrib)
    also have "(\<Sum>i<Suc (length p). (if i = 0 then 0 else int (p ! (i - 1))) * x ^ i) = pval x p * x"
      by (subst sum.lessThan_Suc_shift) (simp add: pval_def sum_distrib_right sum_distrib_left ac_simps)
    also have "sgr (pval x s + pval x p * x) (pval x p * int c0 + pval x p * x)" using s by (intro sgr_add sgr_refl)
    finally have v: "sgr (pval x q) (pval x p * (int c0 + int c1 * x))" using True by (simp add: distrib_left)
    have "length q = Suc (length p)" using len by (simp add: q_def)
    then have "last q = q ! length p" "last p = p ! (length p - 1)" using assms(1) last_conv_nth[of q] last_conv_nth[of p] by force+
    then have "sgr (int (last q)) (int (last p) * int c1)" using el[of "length p"] True len assms(1) by (simp add: s_def nth_append)
    then show ?thesis using run v small len by (simp add: q_def)
  qed
qed

lemma nth_last_butlast: "xs \<noteq> [] \<Longrightarrow> xs ! (length xs - 1) = last xs" "k < length xs - 1 \<Longrightarrow> butlast xs ! k = xs ! k"
  by (simp_all add: last_conv_nth nth_butlast)

definition linear :: "int \<Rightarrow> nat \<Rightarrow> nat \<Rightarrow> int \<times> int" where
  "linear x a b = (- int a + (1 - int b) * x, int a + int b * x)"

lemma recurse_value:
  assumes "length a = d" "length b = d" "\<forall>c\<in>set b. c = 0 \<or> c = 1" "accum \<noteq> []"
  shows "\<exists>rows. recurse accum a b = Some rows \<and> length rows = 2 ^ d
    \<and> (\<forall>j<2 ^ d. length (rows ! j) = length accum + d \<and> (0 < d \<longrightarrow> (\<forall>y\<in>set (rows ! j). y < order))
        \<and> sgr (int (last (rows ! j))) (int (last accum) * pick d j (\<lambda>k. (1 - int (b ! k), int (b ! k))))
        \<and> sgr (pval x (rows ! j)) (pval x accum * pick d j (\<lambda>k. linear x (a ! k) (b ! k))))"
  using assms
proof (induction d arbitrary: a b accum)
  case 0
  then show ?case by (simp add: recurse.simps[of accum] pick_def)
next
  case (Suc d)
  define P where "P accum' l row j \<longleftrightarrow> length row = length accum' + d \<and> (0 < l \<longrightarrow> (\<forall>y\<in>set row. y < order))
    \<and> sgr (int (last row)) (int (last accum') * pick d j (\<lambda>k. (1 - int (b ! k), int (b ! k))))
    \<and> sgr (pval x row) (pval x accum' * pick d j (\<lambda>k. linear x (a ! k) (b ! k)))" for accum' and l :: nat and row j
  have ne: "a \<noteq> []" "b \<noteq> []" using Suc.prems by auto
  have top: "a ! d = last a" "b ! d = last b" using nth_last_butlast(1)[OF ne(1)] nth_last_butlast(1)[OF ne(2)] Suc.prems by simp_all
  have bt: "last b = 0 \<or> last b = 1" using Suc.prems(3) ne by auto
  have rec: "\<exists>rows. recurse ac (butlast a) (butlast b) = Some rows \<and> length rows = 2 ^ d \<and> (\<forall>j<2 ^ d. P ac d (rows ! j) j)" if "ac \<noteq> []" for ac
  proof -
    have "\<forall>c\<in>set (butlast b). c = 0 \<or> c = 1" using Suc.prems(3) in_set_butlastD by fast
    moreover have "pick d j (\<lambda>k. g (butlast a ! k) (butlast b ! k)) = pick d j (\<lambda>k. g (a ! k) (b ! k))" for j and g :: "nat \<Rightarrow> nat \<Rightarrow> int \<times> int"
      using Suc.prems by (auto simp: pick_def nth_butlast intro!: prod.cong)
    note this[of _ "linear x"] this[of _ "\<lambda>_ y. (1 - int y, int y)"]
    ultimately show ?thesis using Suc.IH[of "butlast a" "butlast b" ac] Suc.prems that by (simp add: P_def)
  qed
  have one: "int (sc_sub 1 (last b)) = 1 - int (last b)" using bt by (auto simp: sc_sub_def Let_def order_value)
  obtain l r where l: "polynomial_mul accum [sc_neg (last a), sc_sub 1 (last b)] = Some l" "length l = Suc (length accum)" "\<forall>y\<in>set l. y < order"
      "sgr (int (last l)) (int (last accum) * (1 - int (last b)))" "sgr (pval x l) (pval x accum * (int (sc_neg (last a)) + (1 - int (last b)) * x))"
    and r: "polynomial_mul accum [last a, last b] = Some r" "length r = Suc (length accum)" "\<forall>y\<in>set r. y < order"
      "sgr (int (last r)) (int (last accum) * int (last b))" "sgr (pval x r) (pval x accum * (int (last a) + int (last b) * x))"
    using polynomial_mul_value[OF Suc.prems(4), of "sc_sub 1 (last b)" "sc_neg (last a)" x] polynomial_mul_value[OF Suc.prems(4) bt, of "last a" x]
      one bt by force
  have l5: "sgr (pval x l) (pval x accum * fst (linear x (last a) (last b)))"
    using sgr_trans[OF l(5) sgr_mult[OF sgr_refl sgr_add[OF sgr_sc_neg sgr_refl]]] by (simp add: linear_def)
  obtain ls where ls: "recurse l (butlast a) (butlast b) = Some ls" "length ls = 2 ^ d" "\<And>j. j < 2 ^ d \<Longrightarrow> P l d (ls ! j) j"
    using rec[of l] l(2) by fastforce
  obtain rs where rs: "recurse r (butlast a) (butlast b) = Some rs" "length rs = 2 ^ d" "\<And>j. j < 2 ^ d \<Longrightarrow> P r d (rs ! j) j"
    using rec[of r] r(2) by fastforce
  have run: "recurse accum a b = Some (ls @ rs)"
    unfolding recurse.simps[of accum a b] using ne l(1) r(1) ls(1) rs(1) by (simp add: Let_def)
  define Q where "Q row j \<longleftrightarrow> length row = length accum + Suc d \<and> (\<forall>y\<in>set row. y < order)
    \<and> sgr (int (last row)) (int (last accum) * pick (Suc d) j (\<lambda>k. (1 - int (b ! k), int (b ! k))))
    \<and> sgr (pval x row) (pval x accum * pick (Suc d) j (\<lambda>k. linear x (a ! k) (b ! k)))" for row j
  have small: "\<forall>y\<in>set row. y < order" if "P ac d row j" "d = 0 \<Longrightarrow> row = ac" "\<forall>y\<in>set ac. y < order" for ac row j
    using that by (cases "d = 0") (auto simp: P_def)
  have base: "d = 0 \<Longrightarrow> ls ! 0 = l \<and> rs ! 0 = r" using ls(1) rs(1) Suc.prems by (auto simp: recurse.simps[of l] recurse.simps[of r] butlast_conv_take)
  have chain: "sgr u (v * p) \<Longrightarrow> sgr v (w * y) \<Longrightarrow> sgr u (w * (p * y))" for u v w y p
    using sgr_trans[of u "v * p" "w * y * p"] sgr_mult[OF _ sgr_refl[of p], of v "w * y"] by (simp add: ac_simps)
  have "Q ((ls @ rs) ! n) n" if "n < 2 ^ Suc d" for n
  proof (rule nth_append_halves[OF ls(2) that])
    fix j :: nat assume j: "j < 2 ^ d"
    have "d = 0 \<Longrightarrow> j = 0" using j by simp
    then have s: "\<forall>y\<in>set (ls ! j). y < order" "\<forall>y\<in>set (rs ! j). y < order"
      using small[OF ls(3)[OF j]] small[OF rs(3)[OF j]] base l(3) r(3) by blast+
    show "Q (ls ! j) j" using ls(3)[OF j] l(2,4) l5 s(1) chain by (auto simp: Q_def P_def pick_Suc_low[OF j] top)
    show "Q (rs ! j) (2 ^ d + j)" using rs(3)[OF j] r(2,4,5) s(2) chain
      by (auto simp: Q_def P_def pick_Suc_high[OF j] top linear_def)
  qed
  then show ?case using run ls(2) rs(2) by (auto simp: Q_def)
qed

section \<open>Prover and verifier agree\<close>

text \<open>The pair of factors the verifier derives from the response \<open>f1\<close> at the challenge \<open>w\<close>.\<close>

definition f_pair :: "nat \<Rightarrow> nat \<Rightarrow> nat \<times> nat" where
  "f_pair w f1 = ((order + w - f1 mod order) mod order, f1)"

definition index_bits :: "nat \<Rightarrow> nat \<Rightarrow> nat list" where
  "index_bits m idx = map (\<lambda>k. of_bool (bit idx k)) [0..<m]"

lemma f_pair_value:
  assumes "sgr (int f1) (int a + int b * int w)"
  shows "sgr (int (fst (f_pair w f1))) (fst (linear (int w) a b))" "sgr (int (snd (f_pair w f1))) (snd (linear (int w) a b))"
proof -
  have "f1 mod order \<le> order + w" using mod_less_divisor[of order f1] by (simp add: less_imp_le trans_le_add1)
  then have "int (fst (f_pair w f1)) = (int order + int w - int f1 mod int order) mod int order"
    by (simp add: f_pair_def zmod_int of_nat_diff)
  then have "sgr (int (fst (f_pair w f1))) (int order + int w - int f1 mod int order)" by (simp add: sgr_def)
  also have "sgr \<dots> (0 + int w - int f1)" by (intro sgr_diff sgr_add sgr_mod sgr_refl) (simp add: sgr_def)
  also have "sgr \<dots> (0 + int w - (int a + int b * int w))" by (intro sgr_diff sgr_refl assms)
  finally show "sgr (int (fst (f_pair w f1))) (fst (linear (int w) a b))" by (simp add: linear_def algebra_simps)
  show "sgr (int (snd (f_pair w f1))) (snd (linear (int w) a b))" using assms by (simp add: f_pair_def linear_def)
qed

lemma transpose_value:
  assumes "\<forall>row\<in>set rows. m \<le> length row"
  shows "transpose_polynomials rows m = Some (map (\<lambda>i. map (\<lambda>row. row ! i) rows) [0..<m])"
proof -
  define body where "body row i p = do { x \<leftarrow> get row i; Some (p[i := p ! i @ [x]]) }" for row :: "nat list" and i and p :: "nat list list"
  have row: "for_each [0..<m] (body row) (map g [0..<m]) = Some (map (\<lambda>i. g i @ [row ! i]) [0..<m])" if "m \<le> length row" for row g
  proof -
    have "\<exists>p. for_each [0..<m] (body row) (map g [0..<m]) = Some p \<and> p = map (\<lambda>i. if i < m then g i @ [row ! i] else g i) [0..<m]"
      using that by (intro for_each_upt_invariant[where Q = "\<lambda>n p. p = map (\<lambda>i. if i < n then g i @ [row ! i] else g i) [0..<m]"])
        (auto simp: body_def intro!: nth_equalityI simp: nth_list_update less_Suc_eq)
    then show ?thesis by auto
  qed
  have "for_each rows (\<lambda>row. for_each [0..<m] (body row)) (map g [0..<m]) = Some (map (\<lambda>i. g i @ map (\<lambda>row. row ! i) rows) [0..<m])" for g
    using assms by (induction rows arbitrary: g) (simp_all add: row)
  from this[of "\<lambda>_. []"] show ?thesis
    unfolding transpose_polynomials_def body_def by (simp add: map_replicate_const)
qed

text \<open>One half of the responses: the products of the verifier are the rows of the prover at the challenge, and a row has the leading coefficient one
  exactly when its index is the one spelt by the bits.\<close>

lemma half_agrees:
  assumes "length a = m" "idx < 2 ^ m" "0 < m" "base + m \<le> length f"
    and f: "\<And>k. k < m \<Longrightarrow> f ! (base + k) = f_pair w (sc_add (sc_mul (index_bits m idx ! k) w) (a ! k))"
  shows "\<exists>rows P rs. recursive_polynomials a (index_bits m idx) = Some rows \<and> transpose_polynomials rows m = Some P
    \<and> recursive_polys base (base + m) 1 f = Some rs \<and> length rs = 2 ^ m \<and> length P = m \<and> (\<forall>p\<in>set P. length p = 2 ^ m)
    \<and> (\<forall>j<2 ^ m. int (rs ! j) = ((\<Sum>i<m. int (P ! i ! j) * int w ^ i) + (if j = idx then int w ^ m else 0)) mod int order)"
proof -
  let ?b = "index_bits m idx" and ?x = "int w"
  have b: "length ?b = m" "\<forall>c\<in>set ?b. c = 0 \<or> c = 1" "\<And>k. k < m \<Longrightarrow> int (?b ! k) = of_bool (bit idx k)" by (auto simp: index_bits_def)
  obtain rows where rows: "recursive_polynomials a ?b = Some rows" "length rows = 2 ^ m"
    and row: "\<And>j. j < 2 ^ m \<Longrightarrow> length (rows ! j) = Suc m \<and> sgr (int (last (rows ! j))) (pick m j (\<lambda>k. (1 - int (?b ! k), int (?b ! k))))
        \<and> sgr (pval ?x (rows ! j)) (pick m j (\<lambda>k. linear ?x (a ! k) (?b ! k)))"
    using recurse_value[OF assms(1) b(1,2), of "[1]" ?x] by (auto simp: recursive_polynomials_def pval_def)
  obtain rs where rs: "recursive_polys base (base + m) 1 f = Some rs" "length rs = 2 ^ m" "\<forall>r\<in>set rs. r < order"
    "\<And>j. j < 2 ^ m \<Longrightarrow> sgr (int (rs ! j)) (pick m j (\<lambda>k. (int (fst (f ! (base + k))), int (snd (f ! (base + k))))))"
    using recursive_polys_value[OF assms(4), of 1] by auto
  define P where "P = map (\<lambda>i. map (\<lambda>row. row ! i) rows) [0..<m]"
  have P: "transpose_polynomials rows m = Some P"
    unfolding P_def using row rows(2) by (intro transpose_value) (auto simp: in_set_conv_nth)
  have "int (rs ! j) = ((\<Sum>i<m. int (P ! i ! j) * ?x ^ i) + (if j = idx then ?x ^ m else 0)) mod int order" if j: "j < 2 ^ m" for j
  proof -
    have fk: "sgr (int (sc_add (sc_mul (?b ! k) w) (a ! k))) (int (a ! k) + int (?b ! k) * ?x)" for k
      using sgr_trans[OF sgr_sc_add sgr_add[OF sgr_sc_mul sgr_refl]] by (simp add: add.commute)
    have "sgr (int (rs ! j)) (pick m j (\<lambda>k. linear ?x (a ! k) (?b ! k)))"
      using sgr_trans[OF rs(4)[OF j] pick_cong] f_pair_value[OF fk] f by simp
    also have "sgr \<dots> (pval ?x (rows ! j))" using row[OF j] sgr_sym by blast
    also have "pval ?x (rows ! j) = (\<Sum>i<m. int (rows ! j ! i) * ?x ^ i) + int (last (rows ! j)) * ?x ^ m"
      using row[OF j] by (simp add: pval_def last_conv_nth flip: length_greater_0_conv)
    also have "sgr \<dots> ((\<Sum>i<m. int (rows ! j ! i) * ?x ^ i) + of_bool (idx = j) * ?x ^ m)"
    proof (intro sgr_add sgr_mult sgr_refl)
      have "pick m j (\<lambda>k. (1 - int (?b ! k), int (?b ! k))) = pick m j (\<lambda>k. (1 - of_bool (bit idx k), of_bool (bit idx k)))"
        using b(3) by (auto simp: pick_def intro!: prod.cong)
      then show "sgr (int (last (rows ! j))) (of_bool (idx = j))" using row[OF j] pick_bits[OF assms(2) j] by simp
    qed
    also have "\<dots> = (\<Sum>i<m. int (P ! i ! j) * ?x ^ i) + (if j = idx then ?x ^ m else 0)"
      using j rows(2) by (auto simp: P_def)
    finally have "sgr (int (rs ! j)) \<dots>" .
    moreover have "rs ! j < order" using rs(2,3) j by simp
    ultimately show ?thesis by (simp add: sgr_def)
  qed
  then show ?thesis using rows P rs(1,2) by (auto simp: P_def)
qed

text \<open>C35: The one-out-of-many identity of the ring: with the prover's responses \<open>b * w + a\<close>, where the bits \<open>b\<close> spell the positions \<open>i0\<close> of the sender and
  \<open>i1\<close> of the receiver, the verifier's two vectors are the prover's polynomials summed at the challenge, plus \<open>w\<close> to the \<open>m\<close> at those positions.\<close>

theorem ring_rows_agree:
  assumes "length a = 2 * m" "0 < m" "i0 < 2 ^ m" "i1 < 2 ^ m"
  shows "\<exists>pi qi P Q r. recursive_polynomials (take m a) (index_bits m i0) = Some pi \<and> transpose_polynomials pi m = Some P
    \<and> recursive_polynomials (drop m a) (index_bits m i1) = Some qi \<and> transpose_polynomials qi m = Some Q
    \<and> assemble_polynomials (map (f_pair w) (map2 sc_add (vec_times (index_bits m i0 @ index_bits m i1) w) a)) = Some r
    \<and> (\<forall>j<2 ^ m. int (fst (r ! j)) = ((\<Sum>i<m. int (P ! i ! j) * int w ^ i) + (if j = i0 then int w ^ m else 0)) mod int order
        \<and> int (snd (r ! j)) = ((\<Sum>i<m. int (Q ! i ! j) * int w ^ i) + (if j = i1 then int w ^ m else 0)) mod int order)"
proof -
  define f where "f = map (f_pair w) (map2 sc_add (vec_times (index_bits m i0 @ index_bits m i1) w) a)"
  have l: "length f = 2 * m" "length (index_bits m i) = m" for i using assms(1) by (simp_all add: f_def index_bits_def)
  have f: "f ! k = f_pair w (sc_add (sc_mul ((index_bits m i0 @ index_bits m i1) ! k) w) (a ! k))" if "k < 2 * m" for k
    using that assms(1) l(2) by (simp add: f_def vec_times_def nth_append)
  obtain pi P r0 where p: "recursive_polynomials (take m a) (index_bits m i0) = Some pi" "transpose_polynomials pi m = Some P"
      "recursive_polys 0 m 1 f = Some r0" "length r0 = 2 ^ m"
      "\<And>j. j < 2 ^ m \<Longrightarrow> int (r0 ! j) = ((\<Sum>i<m. int (P ! i ! j) * int w ^ i) + (if j = i0 then int w ^ m else 0)) mod int order"
    using half_agrees[of "take m a" m i0 0 f w] assms l f by (force simp: nth_append)
  obtain qi Q r1 where q: "recursive_polynomials (drop m a) (index_bits m i1) = Some qi" "transpose_polynomials qi m = Some Q"
      "recursive_polys m (2 * m) 1 f = Some r1" "length r1 = 2 ^ m"
      "\<And>j. j < 2 ^ m \<Longrightarrow> int (r1 ! j) = ((\<Sum>i<m. int (Q ! i ! j) * int w ^ i) + (if j = i1 then int w ^ m else 0)) mod int order"
    using half_agrees[of "drop m a" m i1 m f w] assms l f by (force simp: nth_append mult_2)
  have "assemble_polynomials f = Some (zip r0 r1)" using p(3) q(3) l(1) by (simp add: assemble_polynomials_def)
  then show ?thesis using p q unfolding f_def[symmetric] by auto
qed

theorem ring_rows_agree_witness:
  "\<exists>pi qi P Q r. recursive_polynomials (take 2 [0, 5, 0, 7]) (index_bits 2 1) = Some pi \<and> transpose_polynomials pi 2 = Some P
    \<and> recursive_polynomials (drop 2 [0, 5, 0, 7]) (index_bits 2 3) = Some qi \<and> transpose_polynomials qi 2 = Some Q
    \<and> assemble_polynomials (map (f_pair 11) (map2 sc_add (vec_times (index_bits 2 1 @ index_bits 2 3) 11) [0, 5, 0, 7])) = Some r
    \<and> (\<forall>j<2 ^ 2. int (fst (r ! j)) = ((\<Sum>i<2. int (P ! i ! j) * int 11 ^ i) + (if j = 1 then int 11 ^ 2 else 0)) mod int order
        \<and> int (snd (r ! j)) = ((\<Sum>i<2. int (Q ! i ! j) * int 11 ^ i) + (if j = 3 then int 11 ^ 2 else 0)) mod int order)"
  by (rule ring_rows_agree) simp_all

end
