(* ===== verification/PointVector.thy ===== *)
theory PointVector
  imports FieldVector HashToPoint
begin

text \<open>
  Vectors of curve points (\<open>cryptography/crypto/src/point_vector.rs\<close>): element-wise operations, commitments, the transform over points and the convolution
  of a vector of scalars with a vector of points. A failed assertion is \<open>None\<close>. The lemmas show that on vectors of matching lengths nothing panics and
  every result is a point of the curve.
\<close>

section \<open>Model\<close>

type_synonym point_vector = "g1 list"

definition pv_commit :: "point_vector \<Rightarrow> nat list \<Rightarrow> g1 option" where
  "pv_commit v e = do { ensure (length v = length e); Some (foldl (\<lambda>acc (p, e). g1_add acc (g_smul p e)) g1_infinity (zip v e)) }"

definition pv_sum :: "point_vector \<Rightarrow> g1" where
  "pv_sum v = foldl g1_add g1_infinity v"

definition pv_add :: "point_vector \<Rightarrow> point_vector \<Rightarrow> point_vector option" where
  "pv_add v w = do { ensure (length v = length w); Some (map2 g1_add v w) }"

definition pv_hadamard :: "point_vector \<Rightarrow> nat list \<Rightarrow> point_vector option" where
  "pv_hadamard v e = do { ensure (length v = length e); Some (map2 g_smul v e) }"

definition pv_negate :: "point_vector \<Rightarrow> point_vector" where
  "pv_negate v = map g1_neg v"

definition pv_times :: "point_vector \<Rightarrow> nat \<Rightarrow> point_vector" where
  "pv_times v m = map (\<lambda>p. g_smul p m) v"

definition multi_exponentiate :: "point_vector \<Rightarrow> field_vector \<Rightarrow> g1" where
  "multi_exponentiate v e = foldl (\<lambda>acc (p, e). g1_add acc (g_smul p e)) g1_infinity (zip v e)"

function fft_generator_vector :: "point_vector \<Rightarrow> bool \<Rightarrow> point_vector option" where
  "fft_generator_vector input backward =
    (let n = length input in
     if n = 1 then Some input
     else if n mod 2 \<noteq> 0 then None
     else if n = 0 then None
     else do {
       ev \<leftarrow> fft_generator_vector (vec_extract input False) backward;
       od \<leftarrow> fft_generator_vector (vec_extract input True) backward;
       odd_had \<leftarrow> pv_hadamard od (omega_powers (fft_omega n backward) (n div 2));
       upper \<leftarrow> pv_add ev odd_had;
       lower \<leftarrow> pv_add ev (pv_negate odd_had);
       let result = upper @ lower;
       Some (if backward then pv_times result half else result) })"
  by pat_completeness auto

termination
  by (relation "measure (length \<circ> fst)") (auto simp: length_vec_extract elim: evenE)

declare fft_generator_vector.simps [simp del]

definition convolution :: "field_vector \<Rightarrow> point_vector \<Rightarrow> point_vector option" where
  "convolution exponent base = do {
     let size = length base;
     exponent_fft \<leftarrow> fft_field_vector (flip exponent) False;
     base_fft \<leftarrow> fft_generator_vector base False;
     temp \<leftarrow> pv_hadamard base_fft exponent_fft;
     lo \<leftarrow> subslice temp 0 (size div 2);
     hi \<leftarrow> subslice temp (size div 2) size;
     combined \<leftarrow> pv_add lo hi;
     fft_generator_vector (pv_times combined half) True }"

section \<open>Safety\<close>

definition points_ok :: "nat \<Rightarrow> point_vector \<Rightarrow> bool" where
  "points_ok n v \<longleftrightarrow> length v = n \<and> (\<forall>p\<in>set v. curve_inv p)"

lemma points_okD: "points_ok n v \<Longrightarrow> length v = n" "points_ok n v \<Longrightarrow> p \<in> set v \<Longrightarrow> curve_inv p" "points_ok n v \<Longrightarrow> i < n \<Longrightarrow> curve_inv (v ! i)"
  by (auto simp: points_ok_def)

lemma foldl_points: "curve_inv acc \<Longrightarrow> (\<And>p e. (p, e) \<in> set ps \<Longrightarrow> curve_inv p) \<Longrightarrow> curve_inv (foldl (\<lambda>acc (p, e). g1_add acc (g_smul p e)) acc ps)"
proof (induction ps arbitrary: acc)
  case (Cons q ps)
  obtain p e where q: "q = (p, e)" by fastforce
  then have "curve_inv (g1_add acc (g_smul p e))" using Cons.prems by (auto intro: g1_ops_inv)
  from Cons.IH[OF this] Cons.prems(2) show ?case by (auto simp: q)
qed simp

lemma pv_ops_ok:
  "points_ok n v \<Longrightarrow> length e = n \<Longrightarrow> \<exists>p. pv_commit v e = Some p \<and> curve_inv p"
  "points_ok n v \<Longrightarrow> points_ok n w \<Longrightarrow> \<exists>r. pv_add v w = Some r \<and> points_ok n r"
  "points_ok n v \<Longrightarrow> length e = n \<Longrightarrow> \<exists>r. pv_hadamard v e = Some r \<and> points_ok n r"
  "points_ok n v \<Longrightarrow> points_ok n (pv_negate v)"
  "points_ok n v \<Longrightarrow> points_ok n (pv_times v m)"
  "points_ok n v \<Longrightarrow> points_ok k w \<Longrightarrow> points_ok (n + k) (v @ w)"
  by (auto simp: points_ok_def pv_commit_def pv_add_def pv_hadamard_def pv_negate_def pv_times_def ensure_def set_zip
      intro!: g1_ops_inv foldl_points)

lemma set_vec_extract: "set (vec_extract v b) \<subseteq> set v"
  by (auto simp: vec_extract_def enumerate_eq_zip set_zip)

lemma points_ok_slice: "points_ok n v \<Longrightarrow> a \<le> b \<Longrightarrow> b \<le> n \<Longrightarrow> \<exists>r. subslice v a b = Some r \<and> points_ok (b - a) r"
  by (auto simp: points_ok_def slice_def dest!: in_set_dropD in_set_takeD)

lemma fft_generator_vector_ok:
  "points_ok (2 ^ k) v \<Longrightarrow> \<exists>r. fft_generator_vector v b = Some r \<and> points_ok (2 ^ k) r"
proof (induction k arbitrary: v)
  case 0
  then show ?case by (simp add: fft_generator_vector.simps[of v] points_ok_def)
next
  case (Suc k)
  have e: "points_ok (2 ^ k) (vec_extract v c)" for c using Suc.prems set_vec_extract[of v c] by (auto simp: points_ok_def length_vec_extract)
  have l: "length v = 2 ^ Suc k" using Suc.prems by (simp add: points_ok_def)
  obtain ev od where r: "fft_generator_vector (vec_extract v False) b = Some ev" "points_ok (2 ^ k) ev"
    "fft_generator_vector (vec_extract v True) b = Some od" "points_ok (2 ^ k) od" using Suc.IH[OF e] by metis
  have "length (omega_powers (fft_omega (2 ^ Suc k) b) (2 ^ k)) = 2 ^ k" using omega_powers_spec[of "2 ^ k"] by simp
  then obtain h where h: "pv_hadamard od (omega_powers (fft_omega (2 ^ Suc k) b) (2 ^ k)) = Some h" "points_ok (2 ^ k) h"
    using pv_ops_ok(3)[OF r(4)] by blast
  obtain up lo where u: "pv_add ev h = Some up" "points_ok (2 ^ k) up" "pv_add ev (pv_negate h) = Some lo" "points_ok (2 ^ k) lo"
    using pv_ops_ok(2)[OF r(2)] pv_ops_ok(4) h(2) by metis
  have "fft_generator_vector v b = Some (if b then pv_times (up @ lo) half else up @ lo)"
    unfolding fft_generator_vector.simps[of v] using l r(1,3) h(1) u(1,3) by simp
  moreover have "points_ok (2 ^ Suc k) (up @ lo)" using pv_ops_ok(6)[OF u(2,4)] by (simp add: mult_2)
  ultimately show ?case using pv_ops_ok(5) by auto
qed

lemma convolution_ok:
  assumes "length e = 2 ^ Suc k" "points_ok (2 ^ Suc k) v" "k < 28"
  shows "\<exists>r. convolution e v = Some r \<and> points_ok (2 ^ k) r"
proof -
  obtain ef where ef: "fft_field_vector (flip e) False = Some ef" "length ef = 2 ^ Suc k"
    using fwd.fft_values[of "flip e" "Suc k"] assms(1,3) by auto
  obtain bf where bf: "fft_generator_vector v False = Some bf" "points_ok (2 ^ Suc k) bf" using fft_generator_vector_ok[OF assms(2)] by blast
  obtain t where t: "pv_hadamard bf ef = Some t" "points_ok (2 ^ Suc k) t" using pv_ops_ok(3)[OF bf(2) ef(2)] by blast
  obtain lo hi where s: "subslice t 0 (2 ^ k) = Some lo" "points_ok (2 ^ k) lo" "subslice t (2 ^ k) (2 ^ Suc k) = Some hi" "points_ok (2 ^ k) hi"
    using points_ok_slice[OF t(2), of 0 "2 ^ k"] points_ok_slice[OF t(2), of "2 ^ k" "2 ^ Suc k"] by auto
  obtain c where c: "pv_add lo hi = Some c" "points_ok (2 ^ k) c" using pv_ops_ok(2)[OF s(2,4)] by blast
  obtain r where "fft_generator_vector (pv_times c half) True = Some r" "points_ok (2 ^ k) r"
    using fft_generator_vector_ok[OF pv_ops_ok(5)[OF c(2)]] by blast
  then show ?thesis using assms(2) ef(1) bf(1) t(1) s(1,3) c(1) by (simp add: convolution_def Let_def points_ok_def)
qed

end
