(* ===== verification/InnerProduct.thy ===== *)
theory InnerProduct
  imports Polynomial PointVector
begin

text \<open>
  The inner-product argument (\<open>cryptography/crypto/src/inner_product.rs\<close>): the prover's halving recursion and the verifier's recomputation. The digest is a
  parameter and the generators are the table of \<open>HashToPoint\<close>. The lemmas show that the verifier's loop over the exponents computes the
  products of squared challenges it stands for, that the verifier replays the prover's challenges, and that the two final scalars of the prover are the
  inner products of its vectors with the verifier's exponents.
\<close>

section \<open>The prover\<close>

definition transcript :: "digest \<Rightarrow> nat \<Rightarrow> g1 \<Rightarrow> g1 \<Rightarrow> nat" where
  "transcript kec prev l r = reduced_hash kec (to_32_be prev @ g1_marshal l @ g1_marshal r)"

definition round_points :: "g1 \<Rightarrow> nat list \<Rightarrow> nat list \<Rightarrow> nat list \<Rightarrow> nat list \<Rightarrow> g1 list \<Rightarrow> g1 list \<Rightarrow> g1 list \<Rightarrow> g1 list \<Rightarrow> (g1 \<times> g1) option" where
  "round_points u a_l a_r b_l b_r g_l g_r h_l h_r = do {
     cl \<leftarrow> vec_inner_product a_l b_r;
     cr \<leftarrow> vec_inner_product a_r b_l;
     l1 \<leftarrow> pv_commit g_r a_l;
     l2 \<leftarrow> pv_commit h_l b_r;
     r1 \<leftarrow> pv_commit g_l a_r;
     r2 \<leftarrow> pv_commit h_r b_l;
     Some (g1_add (g1_add l1 l2) (g_smul u cl), g1_add (g1_add r1 r2) (g_smul u cr)) }"

lemma vec_add_length: "vec_add v w = Some r \<Longrightarrow> length r = length v \<and> length w = length v"
  by (auto simp: vec_add_def ensure_def split: if_splits)

lemma subslice_length: "subslice v a b = Some r \<Longrightarrow> length r = b - a \<and> a \<le> b \<and> b \<le> length v"
  by (auto simp: subslice_def slice_def split: if_splits)

function ip_recurse :: "digest \<Rightarrow> point_vector \<Rightarrow> point_vector \<Rightarrow> g1 \<Rightarrow> field_vector \<Rightarrow> field_vector \<Rightarrow> nat \<Rightarrow> g1 list \<Rightarrow> g1 list
    \<Rightarrow> (nat \<times> nat \<times> g1 list \<times> g1 list) option" where
  "ip_recurse kec gs hs u a b prev ls rs =
    (let n = length a in
     if n = 1 then do { a0 \<leftarrow> get a 0; b0 \<leftarrow> get b 0; Some (a0, b0, ls, rs) }
     else if n = 0 then None
     else do {
       let np = n div 2;
       a_l \<leftarrow> subslice a 0 np; a_r \<leftarrow> subslice a np n;
       b_l \<leftarrow> subslice b 0 np; b_r \<leftarrow> subslice b np n;
       g_l \<leftarrow> subslice gs 0 np; g_r \<leftarrow> subslice gs np n;
       h_l \<leftarrow> subslice hs 0 np; h_r \<leftarrow> subslice hs np n;
       (l, r) \<leftarrow> round_points u a_l a_r b_l b_r g_l g_r h_l h_r;
       let x = transcript kec prev l r;
       let xinv = sc_inv x;
       g_prime \<leftarrow> pv_add (pv_times g_l xinv) (pv_times g_r x);
       h_prime \<leftarrow> pv_add (pv_times h_l x) (pv_times h_r xinv);
       a_prime \<leftarrow> vec_add (vec_times a_l x) (vec_times a_r xinv);
       b_prime \<leftarrow> vec_add (vec_times b_l xinv) (vec_times b_r x);
       ip_recurse kec g_prime h_prime u a_prime b_prime x (ls @ [l]) (rs @ [r]) })"
  by pat_completeness auto

termination
  by (relation "measure (\<lambda>(_, _, _, _, a, _). length a)") (auto dest!: vec_add_length subslice_length)

declare ip_recurse.simps [simp del]

definition ip_generate :: "digest \<Rightarrow> point_vector \<Rightarrow> point_vector \<Rightarrow> g1 \<Rightarrow> field_vector \<Rightarrow> field_vector \<Rightarrow> nat \<Rightarrow> inner_product option" where
  "ip_generate kec gs hs u a b salt = do {
     (a_fin, b_fin, ls, rs) \<leftarrow> ip_recurse kec gs hs u a b salt [] [];
     Some \<lparr>ip_a = a_fin, ip_b = b_fin, ip_ls = ls, ip_rs = rs\<rparr> }"

section \<open>The verifier\<close>

definition ip_challenges :: "digest \<Rightarrow> g1 list \<Rightarrow> g1 list \<Rightarrow> g1 \<Rightarrow> nat \<Rightarrow> nat \<times> nat list \<times> g1" where
  "ip_challenges kec ls rs p salt = foldl (\<lambda>(o', challenges, p) (l, r).
     let o' = transcript kec o' l r; o_inv = sc_inv o'; osq = (o' * o') mod order; oinvsq = (o_inv * o_inv) mod order;
       pl = scalar_mult l (to_bytes_be osq); pr = scalar_mult r (to_bytes_be oinvsq)
     in (o', challenges @ [o'], g1_add (g1_add pl pr) p)) (salt, [], p) (zip ls rs)"

function exponent_row :: "nat \<Rightarrow> nat list \<Rightarrow> nat \<Rightarrow> nat \<Rightarrow> nat list \<times> bool list \<Rightarrow> (nat list \<times> bool list) option" where
  "exponent_row n challenges i j (exponents, bits) =
    (if 2 ^ j + i < n then do {
       let i1 = 2 ^ j + i;
       seen \<leftarrow> get bits i1;
       s \<leftarrow> (if \<not> seen then do {
           ensure (j < length challenges);
           ch \<leftarrow> get challenges (length challenges - 1 - j);
           let temp = (ch * ch) mod order;
           e \<leftarrow> get exponents i;
           Some (exponents[i1 := (e * temp) mod order], bits[i1 := True]) }
         else Some (exponents, bits));
       exponent_row n challenges i (j + 1) s }
     else Some (exponents, bits))"
  by pat_completeness auto

termination
proof (relation "measure (\<lambda>(n, _, _, j, _). n - j)", goal_cases)
  case (2 n challenges i j exponents bits x xa xb)
  then have "2 ^ j + i < n" by simp
  then have "j < n" using less_exp[of j] by linarith
  then show ?case by simp
qed simp

declare exponent_row.simps [simp del]

definition ip_exponents :: "nat \<Rightarrow> nat list \<Rightarrow> nat list option" where
  "ip_exponents n challenges = do {
     let e = foldl (\<lambda>e c. (e * c) mod order) 1 challenges;
     let exp_inv = sc_inv e;
     (exponents, _) \<leftarrow> for_each [0..<n div 2] (\<lambda>i. exponent_row n challenges i 0) ((replicate n 0)[0 := exp_inv], replicate n False);
     Some exponents }"

definition ip_verify :: "digest \<Rightarrow> generators \<Rightarrow> inner_product \<Rightarrow> g1 list \<Rightarrow> g1 \<Rightarrow> g1 \<Rightarrow> nat \<Rightarrow> bool option" where
  "ip_verify kec gens ip hs u p_in salt =
    (let log_n = length (ip_ls ip) in
     if length (ip_ls ip) \<noteq> length (ip_rs ip) then Some False
     else do {
       let n = 2 ^ (log_n mod 64);
       let (_, challenges, p) = ip_challenges kec (ip_ls ip) (ip_rs ip) p_in salt;
       exponents \<leftarrow> ip_exponents n challenges;
       (gtemp, htemp) \<leftarrow> for_each [0..<n] (\<lambda>i (gtemp, htemp). do {
         g \<leftarrow> get (gen_gs gens) i;
         e \<leftarrow> get exponents i;
         h \<leftarrow> get hs i;
         e' \<leftarrow> get exponents (n - 1 - i);
         Some (g1_add gtemp (scalar_mult g (to_bytes_be e)), g1_add htemp (scalar_mult h (to_bytes_be e'))) }) (g1_infinity, g1_infinity);
       let gtemp = scalar_mult gtemp (to_bytes_be (ip_a ip mod order));
       let htemp = scalar_mult htemp (to_bytes_be (ip_b ip mod order));
       let ab = (ip_a ip * ip_b ip) mod order;
       let utemp = scalar_mult u (to_bytes_be ab);
       let p_calc = g1_add (g1_add gtemp htemp) utemp;
       Some (compress p_calc = compress p) })"

section \<open>The exponents\<close>

text \<open>What the exponent at an index stands for: the inverse of the product of the challenges, times the square of the challenge of every set bit.\<close>

definition exponent_at :: "nat list \<Rightarrow> nat \<Rightarrow> int" where
  "exponent_at cs i = int (sc_inv (foldl (\<lambda>e c. (e * c) mod order) 1 cs))
     * (\<Prod>j<length cs. if bit i j then (int (cs ! (length cs - 1 - j))) ^ 2 else 1)"

lemma top_power: "0 < (n :: nat) \<Longrightarrow> \<exists>t k. n = 2 ^ t + k \<and> k < 2 ^ t"
proof (induction n rule: less_induct)
  case (less n)
  show ?case
  proof (cases "n = 1")
    case False
    then obtain t k where t: "n div 2 = 2 ^ t + k" "k < 2 ^ t" using less.IH[of "n div 2"] less.prems by auto
    then have "n = 2 ^ Suc t + (2 * k + n mod 2)" "2 * k + n mod 2 < 2 ^ Suc t" using div_mult_mod_eq[of n 2] by auto
    then show ?thesis by blast
  qed (auto intro!: exI[of _ 0])
qed

lemma exponent_at_step:
  assumes "k < 2 ^ t" "t < length cs"
  shows "exponent_at cs (2 ^ t + k) = exponent_at cs k * (int (cs ! (length cs - 1 - t))) ^ 2"
proof -
  define f where "f i j = (if bit i j then (int (cs ! (length cs - 1 - j))) ^ 2 else 1)" for i j :: nat
  have s: "{..<length cs} = insert t ({..<length cs} - {t})" using assms(2) by auto
  have "f (2 ^ t + k) j = f k j" if "j \<noteq> t" for j
    using bit_add_pow2[OF assms(1), of j] bit_nat_less[OF _ assms(1), of j] that by (auto simp: f_def split: if_splits)
  then have "(\<Prod>j\<in>{..<length cs} - {t}. f (2 ^ t + k) j) = (\<Prod>j\<in>{..<length cs} - {t}. f k j)" by (intro prod.cong) auto
  moreover have "f k t = 1" "f (2 ^ t + k) t = (int (cs ! (length cs - 1 - t))) ^ 2"
    using bit_add_pow2[OF assms(1), of t] bit_nat_less[OF _ assms(1), of t] by (auto simp: f_def)
  ultimately have "(\<Prod>j<length cs. f (2 ^ t + k) j) = (\<Prod>j<length cs. f k j) * (int (cs ! (length cs - 1 - t))) ^ 2"
    by (subst (1 2) s, subst (1 2) prod.insert) auto
  then show ?thesis by (simp add: exponent_at_def f_def)
qed

text \<open>What the loop has done before step \<open>j\<close> of row \<open>i\<close>.\<close>

definition written :: "nat \<Rightarrow> nat \<Rightarrow> nat \<Rightarrow> bool" where
  "written i j x \<longleftrightarrow> (\<exists>t k. x = 2 ^ t + k \<and> k < 2 ^ t \<and> (k < i \<or> k = i \<and> t < j))"

lemma writtenI: "k < 2 ^ t \<Longrightarrow> k < i \<or> k = i \<and> t < j \<Longrightarrow> written i j (2 ^ t + k)"
  unfolding written_def by blast

definition exps_inv :: "nat list \<Rightarrow> nat \<Rightarrow> nat \<Rightarrow> nat list \<times> bool list \<Rightarrow> bool" where
  "exps_inv cs i j = (\<lambda>(es, bs). length es = 2 ^ length cs \<and> length bs = 2 ^ length cs \<and> (\<forall>e\<in>set es. e < order)
    \<and> sgr (int (es ! 0)) (exponent_at cs 0)
    \<and> (\<forall>x<2 ^ length cs. 0 < x \<longrightarrow> (bs ! x \<longleftrightarrow> written i j x) \<and> (bs ! x \<longrightarrow> sgr (int (es ! x)) (exponent_at cs x))))"

lemma written_value:
  assumes "exps_inv cs i j (es, bs)" "i < 2 ^ length cs"
  shows "sgr (int (es ! i)) (exponent_at cs i)"
proof (cases "i = 0")
  case False
  then obtain t k where t: "i = 2 ^ t + k" "k < 2 ^ t" using top_power[of i] by auto
  have "0 < (2 :: nat) ^ t" by simp
  then have "k < i" using t(1) by linarith
  then have "written i j (2 ^ t + k)" by (intro writtenI[OF t(2)] disjI1)
  then have "written i j i" by (simp only: t(1)[symmetric])
  then show ?thesis using assms False by (auto simp: exps_inv_def)
qed (use assms(1) in \<open>simp add: exps_inv_def\<close>)

lemma written_step: "written i (Suc j) x \<longleftrightarrow> written i j x \<or> i < 2 ^ j \<and> x = 2 ^ j + i"
  by (auto simp: written_def less_Suc_eq)

lemma already_written:
  assumes "2 ^ j \<le> i"
  shows "written i j (2 ^ j + i)"
proof -
  have "0 < 2 ^ j + i" by simp
  then obtain t k where t: "2 ^ j + i = 2 ^ t + k" "k < 2 ^ t" by (elim exE[OF top_power] exE conjE)
  have "k < i"
  proof (rule ccontr)
    assume "\<not> k < i"
    then have "2 ^ t \<le> (2 :: nat) ^ j" using t(1) by linarith
    then show False using assms t(2) \<open>\<not> k < i\<close> by linarith
  qed
  then show ?thesis unfolding t(1) using t(2) by (intro writtenI) simp_all
qed

lemma pow2_less:
  assumes "(2 :: nat) ^ t + k < 2 ^ n"
  shows "t < n"
proof (rule ccontr)
  assume "\<not> t < n"
  then have "(2 :: nat) ^ n \<le> 2 ^ t" by (intro power_increasing) simp_all
  then show False using assms by linarith
qed

lemma exponent_row_value:
  "exps_inv cs i j s \<Longrightarrow> i < 2 ^ length cs \<Longrightarrow> \<exists>s'. exponent_row (2 ^ length cs) cs i j s = Some s' \<and> exps_inv cs (Suc i) 0 s'"
proof (induction "2 ^ length cs :: nat" cs i j s rule: exponent_row.induct)
  case (1 cs i j es bs)
  let ?n = "2 ^ length cs :: nat"
  have i: "exps_inv cs i j (es, bs)" by (rule 1(2))
  show ?case
  proof (cases "2 ^ j + i < ?n")
    case True
    have len: "length es = ?n" "length bs = ?n" "\<forall>e\<in>set es. e < order" using i by (simp_all add: exps_inv_def)
    have j: "j < length cs" using pow2_less[OF True] .
    show ?thesis
    proof (cases "bs ! (2 ^ j + i)")
      case seen: True
      then have "written i j (2 ^ j + i)" using i True by (auto simp: exps_inv_def)
      then have "exps_inv cs i (Suc j) (es, bs)" using i by (auto simp: exps_inv_def written_step)
      then show ?thesis using 1(1)[OF True refl _ _ _ 1(3), of "bs ! (2 ^ j + i)" "(es, bs)"] True seen len
        by (simp add: exponent_row.simps[of ?n cs i j])
    next
      case new: False
      then have nw: "\<not> written i j (2 ^ j + i)" using i True by (auto simp: exps_inv_def)
      then have lt: "i < 2 ^ j" using already_written[of j i] by (meson not_less)
      define ch where "ch = cs ! (length cs - 1 - j)"
      define es' where "es' = es[2 ^ j + i := (es ! i * ((ch * ch) mod order)) mod order]"
      define bs' where "bs' = bs[2 ^ j + i := True]"
      have "sgr (int ((es ! i * ((ch * ch) mod order)) mod order)) (int (es ! i) * (int ch * int ch))"
        by (simp add: sgr_def zmod_int mod_mult_right_eq)
      also have "sgr \<dots> (exponent_at cs i * (int ch * int ch))" using written_value[OF i 1(3)] by (intro sgr_mult sgr_refl)
      also have "\<dots> = exponent_at cs (2 ^ j + i)" using exponent_at_step[OF lt j] by (simp add: ch_def power2_eq_square)
      finally have v: "sgr (int ((es ! i * ((ch * ch) mod order)) mod order)) (exponent_at cs (2 ^ j + i))" .
      have small: "\<forall>e\<in>set es'. e < order" using len(3) set_update_subset_insert[of es "2 ^ j + i"] by (fastforce simp: es'_def)
      have "(bs' ! x \<longleftrightarrow> written i (Suc j) x) \<and> (bs' ! x \<longrightarrow> sgr (int (es' ! x)) (exponent_at cs x))" if x: "x < ?n" "0 < x" for x
      proof (cases "x = 2 ^ j + i")
        case eq: True
        then show ?thesis using True len lt v by (simp add: bs'_def es'_def written_step)
      next
        case ne: False
        then have "bs' ! x = bs ! x" "es' ! x = es ! x" "written i (Suc j) x = written i j x" by (auto simp: bs'_def es'_def written_step)
        then show ?thesis using i x unfolding exps_inv_def by simp
      qed
      moreover have "es' ! 0 = es ! 0" "length es' = ?n" "length bs' = ?n" using len by (simp_all add: es'_def bs'_def)
      ultimately have "exps_inv cs i (Suc j) (es', bs')" using i small unfolding exps_inv_def by simp
      then show ?thesis using 1(1)[OF True refl _ _ _ 1(3), of False "(es', bs')"] True new len j
        by (simp add: exponent_row.simps[of ?n cs i j] Let_def es'_def bs'_def ch_def)
    qed
  next
    case False
    have "written (Suc i) 0 x \<longleftrightarrow> written i j x" if "x < ?n" for x
      using that False by (auto simp: written_def less_Suc_eq) (metis le_less_trans linorder_not_less power_increasing add_le_mono1 one_le_numeral)+
    then have "exps_inv cs (Suc i) 0 (es, bs)" using i by (auto simp: exps_inv_def)
    then show ?thesis using False by (simp add: exponent_row.simps[of ?n cs i j])
  qed
qed

lemma ip_exponents_value:
  "\<exists>es. ip_exponents (2 ^ length cs) cs = Some es \<and> length es = 2 ^ length cs \<and> (\<forall>i<2 ^ length cs. int (es ! i) = exponent_at cs i mod int order)"
proof -
  let ?n = "2 ^ length cs :: nat"
  define e where "e = sc_inv (foldl (\<lambda>e c. (e * c) mod order) 1 cs)"
  have e0: "exponent_at cs 0 = int e" by (simp add: exponent_at_def e_def)
  define start where "start = ((replicate ?n 0)[0 := e], replicate ?n False)"
  have "\<forall>y\<in>set ((replicate ?n 0)[0 := e]). y < order"
    using set_update_subset_insert[of "replicate ?n 0" 0 e] by (auto simp: e_def)
  then have init: "exps_inv cs 0 0 start" unfolding exps_inv_def start_def written_def by (simp add: e0)
  have "\<exists>s. for_each [0..<?n div 2] (\<lambda>i. exponent_row ?n cs i 0) start = Some s \<and> exps_inv cs (?n div 2) 0 s"
    by (rule for_each_upt_invariant[where Q = "\<lambda>i. exps_inv cs i 0", OF init], rule exponent_row_value) auto
  then obtain es bs where s: "for_each [0..<?n div 2] (\<lambda>i. exponent_row ?n cs i 0) start = Some (es, bs)" "exps_inv cs (?n div 2) 0 (es, bs)"
    by auto
  have "sgr (int (es ! x)) (exponent_at cs x)" if x: "x < ?n" for x
  proof (cases "x = 0")
    case False
    then obtain t k where t: "x = 2 ^ t + k" "k < 2 ^ t" using top_power[of x] by blast
    then have "2 ^ t \<le> ?n div 2" using pow2_less[of t k "length cs"] x power_increasing[of "Suc t" "length cs" "2 :: nat"] by (simp add: Suc_le_eq)
    then have "written (?n div 2) 0 x" unfolding t(1) using t(2) by (intro writtenI) simp_all
    then show ?thesis using s(2) x False by (auto simp: exps_inv_def)
  qed (use s(2) in \<open>simp add: exps_inv_def\<close>)
  then have "int (es ! x) = exponent_at cs x mod int order" if "x < ?n" for x
    using that s(2) by (fastforce simp: sgr_def exps_inv_def simp flip: zmod_int)
  then show ?thesis using s unfolding start_def e_def by (auto simp: ip_exponents_def exps_inv_def Let_def)
qed

section \<open>The final scalars\<close>

text \<open>The weight of an index under the challenges: one factor per round, the challenge or its inverse.\<close>

fun weight :: "nat list \<Rightarrow> nat \<Rightarrow> int" where
  "weight [] i = 1"
| "weight (x # cs) i = (if i < 2 ^ length cs then int (sc_inv x) * weight cs i else int x * weight cs (i - 2 ^ length cs))"

fun chals :: "digest \<Rightarrow> nat \<Rightarrow> (g1 \<times> g1) list \<Rightarrow> nat list" where
  "chals kec prev [] = []"
| "chals kec prev ((l, r) # rest) = (let x = transcript kec prev l r in x # chals kec x rest)"

lemma ip_challenges_list: "fst (snd (ip_challenges kec ls rs p salt)) = chals kec salt (zip ls rs)"
proof -
  define f where "f = (\<lambda>(o', challenges, p) (l, r). let o' = transcript kec o' l r; o_inv = sc_inv o'; osq = (o' * o') mod order; oinvsq = (o_inv * o_inv) mod order;
     pl = scalar_mult l (to_bytes_be osq); pr = scalar_mult r (to_bytes_be oinvsq) in (o', challenges @ [o'], g1_add (g1_add pl pr) p))"
  have "fst (snd (foldl f (o', cs, p) ps)) = cs @ chals kec o' ps" for o' cs p ps
    by (induction ps arbitrary: o' cs p) (auto simp: f_def Let_def)
  then show ?thesis by (simp add: ip_challenges_def f_def)
qed

lemma length_chals [simp]: "length (chals kec prev ps) = length ps"
  by (induction kec prev ps rule: chals.induct) (simp_all add: Let_def)

definition unit_challenge :: "nat \<Rightarrow> bool" where
  "unit_challenge x \<longleftrightarrow> (x * sc_inv x) mod order = 1"

lemma unit_challenge_sgr: "unit_challenge x \<Longrightarrow> sgr (int x * int (sc_inv x)) 1"
proof -
  assume "unit_challenge x"
  then have "sgr (int (x * sc_inv x)) (int 1)" unfolding sgr_nat unit_challenge_def by (simp add: order_value)
  then show ?thesis by simp
qed

lemma product_fold: "sgr (int (foldl (\<lambda>e c. (e * c) mod order) e cs)) (int e * (\<Prod>c\<leftarrow>cs. int c))"
proof (induction cs arbitrary: e)
  case (Cons c cs)
  have "sgr (int ((e * c) mod order)) (int e * int c)" by (simp add: sgr_def zmod_int)
  from sgr_mult[OF this sgr_refl[of "\<Prod>c\<leftarrow>cs. int c"]] show ?case using sgr_trans[OF Cons.IH] by (simp add: mult.assoc)
qed simp

lemma inverse_fold: "sgr (int (sc_inv (foldl (\<lambda>e c. (e * c) mod order) 1 cs))) (\<Prod>c\<leftarrow>cs. int (sc_inv c))"
proof -
  have "sgr (int (sc_inv (foldl (\<lambda>e c. (e * c) mod order) 1 cs))) ((\<Prod>c\<leftarrow>cs. int c) ^ (order - 2))"
    using sgr_trans[OF sgr_sc_inv sgr_power[OF product_fold[of 1]]] by simp
  also have "sgr \<dots> (\<Prod>c\<leftarrow>cs. int (sc_inv c))"
    by (induction cs) (auto simp: power_mult_distrib intro!: sgr_mult sgr_sym[OF sgr_sc_inv])
  finally show ?thesis .
qed

text \<open>The verifier's exponents are the weights of the prover's folding.\<close>

lemma exponent_weight:
  assumes "\<forall>c\<in>set cs. unit_challenge c" "i < 2 ^ length cs"
  shows "sgr (exponent_at cs i) (weight cs i)"
proof -
  define g where "g cs i = (\<Prod>c\<leftarrow>cs. int (sc_inv c)) * (\<Prod>j<length cs. if bit i j then (int (cs ! (length cs - 1 - j))) ^ 2 else 1)" for cs and i :: nat
  have g: "sgr (exponent_at cs i) (g cs i)" unfolding exponent_at_def g_def by (intro sgr_mult inverse_fold sgr_refl)
  have "sgr (g cs i) (weight cs i)" using assms
  proof (induction cs arbitrary: i)
    case (Cons x cs)
    define f where "f i j = (if bit i j then (int (cs ! (length cs - 1 - j))) ^ 2 else 1)" for i j :: nat
    have idx: "(x # cs) ! (length cs - j) = cs ! (length cs - 1 - j)" if "j < length cs" for j
      using that by (simp add: nth_Cons')
    have e: "g (x # cs) i = int (sc_inv x) * (\<Prod>c\<leftarrow>cs. int (sc_inv c)) * ((\<Prod>j<length cs. f i j) * (if bit i (length cs) then (int x) ^ 2 else 1))"
    proof -
      have "(\<Prod>j<length cs. if bit i j then (int ((x # cs) ! (length (x # cs) - 1 - j))) ^ 2 else 1) = (\<Prod>j<length cs. f i j)"
        by (intro prod.cong refl) (simp add: f_def idx)
      then show ?thesis unfolding g_def by simp
    qed
    define k where "k = (if i < 2 ^ length cs then i else i - 2 ^ length cs)"
    have k: "k < 2 ^ length cs" "i < 2 ^ length cs \<Longrightarrow> i = k" "\<not> i < 2 ^ length cs \<Longrightarrow> i = 2 ^ length cs + k" using Cons.prems(2) by (auto simp: k_def)
    have "f i j = f k j" if "j < length cs" for j using k that bit_add_pow2[OF k(1), of j] by (cases "i < 2 ^ length cs") (auto simp: f_def)
    then have p: "(\<Prod>c\<leftarrow>cs. int (sc_inv c)) * (\<Prod>j<length cs. f i j) = g cs k" by (simp add: g_def f_def)
    have b: "bit i (length cs) \<longleftrightarrow> \<not> i < 2 ^ length cs"
      using k bit_add_pow2[OF k(1), of "length cs"] bit_nat_less[OF _ k(1), of "length cs"] by (cases "i < 2 ^ length cs") auto
    have ih: "sgr (g cs k) (weight cs k)" using Cons.IH[OF _ k(1)] Cons.prems(1) by simp
    show ?case
    proof (cases "i < 2 ^ length cs")
      case True
      then show ?thesis using e b p sgr_mult[OF sgr_refl[of "int (sc_inv x)"] ih] k(2) by (simp add: mult.assoc)
    next
      case False
      have "g (x # cs) i = (int x * int (sc_inv x)) * int x * g cs k"
        unfolding e p[symmetric] using b False by (simp add: power2_eq_square ac_simps)
      also have "sgr \<dots> (1 * int x * weight cs k)"
        using unit_challenge_sgr Cons.prems(1) ih by (intro sgr_mult sgr_refl) auto
      finally show ?thesis using False by (simp add: k_def)
    qed
  qed (simp add: g_def)
  then show ?thesis using g sgr_trans by blast
qed

lemma sum_halves: "(\<Sum>i<h + h. f i) = (\<Sum>i<h. f i + f (h + i) :: int)" for h :: nat
proof -
  have "(\<Sum>i<h + h. f i) = (\<Sum>i<h. f i) + (\<Sum>i=h..<h + h. f i)"
    using sum.atLeastLessThan_concat[of 0 h "h + h" f] by (simp add: lessThan_atLeast0)
  also have "(\<Sum>i=h..<h + h. f i) = (\<Sum>i<h. f (h + i))"
    using sum.shift_bounds_nat_ivl[of f 0 h h] by (simp add: lessThan_atLeast0 add.commute)
  finally show ?thesis by (simp add: sum.distrib)
qed

lemma fold_sums:
  assumes "length v = 2 ^ Suc d" "length cs = d"
    and "\<And>i. i < 2 ^ d \<Longrightarrow> sgr (int (v' ! i)) (int (v ! i) * int x + int (v ! (2 ^ d + i)) * int (sc_inv x))"
    and "\<And>i. i < 2 ^ d \<Longrightarrow> sgr (int (w' ! i)) (int (w ! i) * int (sc_inv x) + int (w ! (2 ^ d + i)) * int x)"
  shows "sgr (\<Sum>i<2 ^ d. int (v' ! i) * weight cs (2 ^ d - 1 - i)) (\<Sum>i<2 ^ Suc d. int (v ! i) * weight (x # cs) (2 ^ Suc d - 1 - i))"
    and "sgr (\<Sum>i<2 ^ d. int (w' ! i) * weight cs i) (\<Sum>i<2 ^ Suc d. int (w ! i) * weight (x # cs) i)"
proof -
  have two: "(2 :: nat) ^ Suc d = 2 ^ d + 2 ^ d" by simp
  have w: "weight (x # cs) i = int (sc_inv x) * weight cs i" "weight (x # cs) (2 ^ d + i) = int x * weight cs i" if "i < 2 ^ d" for i
    using that assms(2) by simp_all
  have a: "weight (x # cs) (2 ^ d + 2 ^ d - 1 - i) = int x * weight cs (2 ^ d - 1 - i)"
    "weight (x # cs) (2 ^ d + 2 ^ d - 1 - (2 ^ d + i)) = int (sc_inv x) * weight cs (2 ^ d - 1 - i)" if i: "i < 2 ^ d" for i
  proof -
    have "2 ^ d + 2 ^ d - 1 - i = 2 ^ d + (2 ^ d - 1 - i)" "2 ^ d + 2 ^ d - 1 - (2 ^ d + i) = 2 ^ d - 1 - i" "2 ^ d - 1 - i < 2 ^ d"
      using i by linarith+
    then show "weight (x # cs) (2 ^ d + 2 ^ d - 1 - i) = int x * weight cs (2 ^ d - 1 - i)"
      "weight (x # cs) (2 ^ d + 2 ^ d - 1 - (2 ^ d + i)) = int (sc_inv x) * weight cs (2 ^ d - 1 - i)" by (simp_all only: w)
  qed
  have "(\<Sum>i<2 ^ Suc d. int (v ! i) * weight (x # cs) (2 ^ Suc d - 1 - i))
      = (\<Sum>i<2 ^ d. (int (v ! i) * int x + int (v ! (2 ^ d + i)) * int (sc_inv x)) * weight cs (2 ^ d - 1 - i))"
    unfolding two sum_halves by (intro sum.cong refl) (simp only: lessThan_iff a distrib_right mult.assoc mult.left_commute)
  then show "sgr (\<Sum>i<2 ^ d. int (v' ! i) * weight cs (2 ^ d - 1 - i)) (\<Sum>i<2 ^ Suc d. int (v ! i) * weight (x # cs) (2 ^ Suc d - 1 - i))"
    using assms(3) by (auto intro!: sgr_sum sgr_mult)
  have "(\<Sum>i<2 ^ Suc d. int (w ! i) * weight (x # cs) i)
      = (\<Sum>i<2 ^ d. (int (w ! i) * int (sc_inv x) + int (w ! (2 ^ d + i)) * int x) * weight cs i)"
    unfolding two sum_halves by (intro sum.cong refl) (simp only: lessThan_iff w distrib_right mult.assoc mult.left_commute)
  then show "sgr (\<Sum>i<2 ^ d. int (w' ! i) * weight cs i) (\<Sum>i<2 ^ Suc d. int (w ! i) * weight (x # cs) i)"
    using assms(4) by (auto intro!: sgr_sum sgr_mult)
qed

lemma slice_halves:
  assumes "length v = 2 ^ Suc d"
  shows "subslice v 0 (2 ^ d) = Some (take (2 ^ d) v)" "subslice v (2 ^ d) (2 ^ Suc d) = Some (drop (2 ^ d) v)"
  using assms by (simp_all add: slice_def)

lemma vec_mix:
  assumes "length v = 2 ^ Suc d"
  shows "\<exists>r. vec_add (vec_times (take (2 ^ d) v) x) (vec_times (drop (2 ^ d) v) y) = Some r \<and> length r = 2 ^ d
    \<and> (\<forall>i<2 ^ d. sgr (int (r ! i)) (int (v ! i) * int x + int (v ! (2 ^ d + i)) * int y))"
proof -
  have "sgr (int (sc_add (sc_mul a x) (sc_mul b y))) (int a * int x + int b * int y)" for a b
    by (rule sgr_trans[OF sgr_sc_add]) (intro sgr_add sgr_sc_mul)
  then show ?thesis using assms by (simp add: vec_times_def)
qed

lemma pv_mix:
  assumes "points_ok (2 ^ Suc d) v"
  shows "points_ok (2 ^ d) (take (2 ^ d) v)" "points_ok (2 ^ d) (drop (2 ^ d) v)"
    "\<exists>r. pv_add (pv_times (take (2 ^ d) v) x) (pv_times (drop (2 ^ d) v) y) = Some r \<and> points_ok (2 ^ d) r"
proof -
  show t: "points_ok (2 ^ d) (take (2 ^ d) v)" "points_ok (2 ^ d) (drop (2 ^ d) v)"
    using assms by (auto simp: points_ok_def dest: in_set_takeD in_set_dropD)
  show "\<exists>r. pv_add (pv_times (take (2 ^ d) v) x) (pv_times (drop (2 ^ d) v) y) = Some r \<and> points_ok (2 ^ d) r"
    using pv_ops_ok(2)[OF pv_ops_ok(5)[OF t(1)] pv_ops_ok(5)[OF t(2)]] .
qed

lemma round_points_ok:
  assumes "length a = 2 ^ Suc d" "length b = 2 ^ Suc d" "points_ok (2 ^ Suc d) gs" "points_ok (2 ^ Suc d) hs" "curve_inv u"
  shows "\<exists>l r. round_points u (take (2 ^ d) a) (drop (2 ^ d) a) (take (2 ^ d) b) (drop (2 ^ d) b) (take (2 ^ d) gs) (drop (2 ^ d) gs)
      (take (2 ^ d) hs) (drop (2 ^ d) hs) = Some (l, r) \<and> curve_inv l \<and> curve_inv r"
proof -
  have ab: "length (take (2 ^ d) a) = 2 ^ d" "length (drop (2 ^ d) a) = 2 ^ d" "length (take (2 ^ d) b) = 2 ^ d" "length (drop (2 ^ d) b) = 2 ^ d"
    using assms(1,2) by simp_all
  obtain cl cr where c: "vec_inner_product (take (2 ^ d) a) (drop (2 ^ d) b) = Some cl" "vec_inner_product (drop (2 ^ d) a) (take (2 ^ d) b) = Some cr"
    using vec_inner_product_value ab by metis
  note g = pv_mix(1,2)[OF assms(3)] and h = pv_mix(1,2)[OF assms(4)]
  obtain l1 l2 r1 r2 where p: "pv_commit (drop (2 ^ d) gs) (take (2 ^ d) a) = Some l1" "pv_commit (take (2 ^ d) hs) (drop (2 ^ d) b) = Some l2"
      "pv_commit (take (2 ^ d) gs) (drop (2 ^ d) a) = Some r1" "pv_commit (drop (2 ^ d) hs) (take (2 ^ d) b) = Some r2"
      "curve_inv l1" "curve_inv l2" "curve_inv r1" "curve_inv r2"
    using pv_ops_ok(1)[OF g(2) ab(1)] pv_ops_ok(1)[OF h(1) ab(4)] pv_ops_ok(1)[OF g(1) ab(2)] pv_ops_ok(1)[OF h(2) ab(3)] by blast
  then show ?thesis using c assms(5) by (simp add: round_points_def g1_ops_inv)
qed

lemma ip_recurse_value:
  assumes "length a = 2 ^ d" "length b = 2 ^ d" "points_ok (2 ^ d) gs" "points_ok (2 ^ d) hs" "curve_inv u"
  shows "\<exists>af bf ls' rs'. ip_recurse kec gs hs u a b prev ls rs = Some (af, bf, ls @ ls', rs @ rs') \<and> points_ok d ls' \<and> points_ok d rs'
    \<and> sgr (int af) (\<Sum>i<2 ^ d. int (a ! i) * weight (chals kec prev (zip ls' rs')) (2 ^ d - 1 - i))
    \<and> sgr (int bf) (\<Sum>i<2 ^ d. int (b ! i) * weight (chals kec prev (zip ls' rs')) i)"
  using assms
proof (induction d arbitrary: gs hs a b prev ls rs)
  case 0
  then show ?case by (simp add: ip_recurse.simps[of kec gs hs u a] points_ok_def)
next
  case (Suc d)
  obtain l r where lr: "round_points u (take (2 ^ d) a) (drop (2 ^ d) a) (take (2 ^ d) b) (drop (2 ^ d) b) (take (2 ^ d) gs) (drop (2 ^ d) gs)
      (take (2 ^ d) hs) (drop (2 ^ d) hs) = Some (l, r)" "curve_inv l" "curve_inv r" using round_points_ok[OF Suc.prems] by blast
  define x where "x = transcript kec prev l r"
  obtain gp hp where p: "pv_add (pv_times (take (2 ^ d) gs) (sc_inv x)) (pv_times (drop (2 ^ d) gs) x) = Some gp" "points_ok (2 ^ d) gp"
      "pv_add (pv_times (take (2 ^ d) hs) x) (pv_times (drop (2 ^ d) hs) (sc_inv x)) = Some hp" "points_ok (2 ^ d) hp"
    using pv_mix(3)[OF Suc.prems(3)] pv_mix(3)[OF Suc.prems(4)] by metis
  obtain ap where ap: "vec_add (vec_times (take (2 ^ d) a) x) (vec_times (drop (2 ^ d) a) (sc_inv x)) = Some ap" "length ap = 2 ^ d"
      "\<And>i. i < 2 ^ d \<Longrightarrow> sgr (int (ap ! i)) (int (a ! i) * int x + int (a ! (2 ^ d + i)) * int (sc_inv x))"
    using vec_mix[OF Suc.prems(1)] by blast
  obtain bp where bp: "vec_add (vec_times (take (2 ^ d) b) (sc_inv x)) (vec_times (drop (2 ^ d) b) x) = Some bp" "length bp = 2 ^ d"
      "\<And>i. i < 2 ^ d \<Longrightarrow> sgr (int (bp ! i)) (int (b ! i) * int (sc_inv x) + int (b ! (2 ^ d + i)) * int x)"
    using vec_mix[OF Suc.prems(2)] by blast
  obtain af bf ls' rs' where ih: "ip_recurse kec gp hp u ap bp x (ls @ [l]) (rs @ [r]) = Some (af, bf, (ls @ [l]) @ ls', (rs @ [r]) @ rs')"
      "points_ok d ls'" "points_ok d rs'"
      "sgr (int af) (\<Sum>i<2 ^ d. int (ap ! i) * weight (chals kec x (zip ls' rs')) (2 ^ d - 1 - i))"
      "sgr (int bf) (\<Sum>i<2 ^ d. int (bp ! i) * weight (chals kec x (zip ls' rs')) i)"
    using Suc.IH[OF ap(2) bp(2) p(2,4) Suc.prems(5), of x "ls @ [l]" "rs @ [r]"] by blast
  define cs where "cs = chals kec x (zip ls' rs')"
  have cs: "length cs = d" "chals kec prev (zip (l # ls') (r # rs')) = x # cs"
    using ih(2,3) by (simp_all add: cs_def points_ok_def x_def Let_def)
  have lens: "length gs = 2 ^ Suc d" "length hs = 2 ^ Suc d" using Suc.prems(3,4) by (simp_all add: points_ok_def)
  have run: "ip_recurse kec gs hs u a b prev ls rs = Some (af, bf, ls @ l # ls', rs @ r # rs')"
    unfolding ip_recurse.simps[of kec gs hs u a]
    using Suc.prems(1) slice_halves[OF Suc.prems(1)] slice_halves[OF Suc.prems(2)] slice_halves[OF lens(1)] slice_halves[OF lens(2)]
      lr(1) p(1,3) ap(1) bp(1) ih(1) by (simp add: Let_def x_def)
  have v: "sgr (int af) (\<Sum>i<2 ^ Suc d. int (a ! i) * weight (x # cs) (2 ^ Suc d - 1 - i))" "sgr (int bf) (\<Sum>i<2 ^ Suc d. int (b ! i) * weight (x # cs) i)"
    using sgr_trans[OF ih(4)[folded cs_def] fold_sums(1)[OF Suc.prems(1) cs(1) ap(3) bp(3)]]
      sgr_trans[OF ih(5)[folded cs_def] fold_sums(2)[OF Suc.prems(1) cs(1) ap(3) bp(3)]] by blast+
  show ?case using run v ih(2,3) lr(2,3) unfolding cs(2)[symmetric]
    by (intro exI[of _ af] exI[of _ bf] exI[of _ "l # ls'"] exI[of _ "r # rs'"]) (simp add: points_ok_def)
qed

text \<open>C36: The proof of the inner-product argument for vectors of \<open>2\<close> to the \<open>d\<close> scalars: the prover returns, with one pair of points per round; the
  verifier derives its exponents from those points without a panic; and when the challenges are invertible, the two scalars of the proof are the inner
  products of the prover's vectors with the verifier's exponents, reversed for the first vector.\<close>

theorem inner_product_scalars:
  assumes "length a = 2 ^ d" "length b = 2 ^ d" "points_ok (2 ^ d) gs" "points_ok (2 ^ d) hs" "curve_inv u"
  shows "\<exists>ip es. ip_generate kec gs hs u a b salt = Some ip \<and> points_ok d (ip_ls ip) \<and> points_ok d (ip_rs ip)
    \<and> ip_exponents (2 ^ d) (fst (snd (ip_challenges kec (ip_ls ip) (ip_rs ip) p salt))) = Some es
    \<and> ((\<forall>c\<in>set (fst (snd (ip_challenges kec (ip_ls ip) (ip_rs ip) p salt))). unit_challenge c) \<longrightarrow>
        int (ip_a ip) mod int order = (\<Sum>i<2 ^ d. int (a ! i) * int (es ! (2 ^ d - 1 - i))) mod int order
      \<and> int (ip_b ip) mod int order = (\<Sum>i<2 ^ d. int (b ! i) * int (es ! i)) mod int order)"
proof -
  obtain af bf ls rs where r: "ip_recurse kec gs hs u a b salt [] [] = Some (af, bf, ls, rs)" "points_ok d ls" "points_ok d rs"
      "sgr (int af) (\<Sum>i<2 ^ d. int (a ! i) * weight (chals kec salt (zip ls rs)) (2 ^ d - 1 - i))"
      "sgr (int bf) (\<Sum>i<2 ^ d. int (b ! i) * weight (chals kec salt (zip ls rs)) i)"
    using ip_recurse_value[OF assms, of kec salt "[]" "[]"] by auto
  define cs where "cs = chals kec salt (zip ls rs)"
  have len: "length cs = d" using r(2,3) by (simp add: cs_def points_ok_def)
  obtain es where es: "ip_exponents (2 ^ d) cs = Some es" "\<And>i. i < 2 ^ d \<Longrightarrow> int (es ! i) = exponent_at cs i mod int order"
    using ip_exponents_value[of cs] len by auto
  have w: "sgr (weight cs i) (int (es ! i))" if "\<forall>c\<in>set cs. unit_challenge c" "i < 2 ^ d" for i
    using es(2)[OF that(2)] exponent_weight[OF that(1)] that(2) len by (simp add: sgr_def)
  have rev: "2 ^ d - 1 - i < 2 ^ d" for i :: nat using zero_less_power[of "2 :: nat" d] by linarith
  have "sgr (int af) (\<Sum>i<2 ^ d. int (a ! i) * int (es ! (2 ^ d - 1 - i)))" "sgr (int bf) (\<Sum>i<2 ^ d. int (b ! i) * int (es ! i))"
    if "\<forall>c\<in>set cs. unit_challenge c"
    using r(4,5) unfolding cs_def[symmetric] using w[OF that] rev by (auto elim!: sgr_trans intro!: sgr_sum sgr_mult)
  then show ?thesis using r(1,2,3) es(1) by (auto simp: ip_generate_def ip_challenges_list cs_def[symmetric] sgr_def)
qed

text \<open>The concrete instance: two elements over the generator of the curve, and a digest that always writes the number one.\<close>

theorem inner_product_scalars_witness:
  "\<exists>ip es. ip_generate (\<lambda>_. [1]) [generator, generator] [generator, generator] generator [2, 3] [5, 7] 0 = Some ip
    \<and> ip_exponents 2 (fst (snd (ip_challenges (\<lambda>_. [1]) (ip_ls ip) (ip_rs ip) generator 0))) = Some es
    \<and> int (ip_a ip) mod int order = (\<Sum>i<2. int ([2, 3] ! i) * int (es ! (2 - 1 - i))) mod int order"
proof -
  have p: "points_ok (2 ^ 1) [generator, generator]" by (simp add: points_ok_def generator_inv)
  have t: "transcript (\<lambda>_. [1]) prev l r = 1" for prev l r
    by (simp add: transcript_def reduced_hash_def hash_to_number_def keccak256_def be_val_def group_order_def)
  have "\<forall>c\<in>set (chals (\<lambda>_. [1]) prev ps). unit_challenge c" for prev ps
    by (induction ps arbitrary: prev) (auto simp: t unit_challenge_def sc_inv_def Let_def modpow_def order_value)
  then show ?thesis
    using inner_product_scalars[of "[2, 3]" 1 "[5, 7]", OF _ _ p p generator_inv(1), of "\<lambda>_. [1]" 0 generator]
    by (auto simp: ip_challenges_list)
qed

section \<open>Safety of the verifier\<close>

lemma ip_verify_total:
  assumes "length (ip_ls ip) = length (ip_rs ip)" "length (ip_ls ip) \<le> 7" "gens_ok gens" "128 \<le> length hs"
  shows "\<exists>b. ip_verify kec gens ip hs u p salt = Some b"
proof -
  obtain o' cs q where c: "ip_challenges kec (ip_ls ip) (ip_rs ip) p salt = (o', cs, q)" by (cases "ip_challenges kec (ip_ls ip) (ip_rs ip) p salt") auto
  have len: "length cs = length (ip_ls ip)" using ip_challenges_list[of kec "ip_ls ip" "ip_rs ip" p salt] c assms(1) by simp
  obtain es where es: "ip_exponents (2 ^ length cs) cs = Some es" "length es = 2 ^ length cs" using ip_exponents_value by blast
  have n: "(2 :: nat) ^ length cs \<le> 128" using power_increasing[of "length cs" 7 "2 :: nat"] assms(2) len by simp
  have m: "length cs mod 64 = length cs" using assms(2) len by simp
  define body where "body i = (\<lambda>(gtemp, htemp). do { g \<leftarrow> get (gen_gs gens) i; e \<leftarrow> get es i; h \<leftarrow> get hs i; e' \<leftarrow> get es (2 ^ length cs - 1 - i);
    Some (g1_add gtemp (scalar_mult g (to_bytes_be e)), g1_add htemp (scalar_mult h (to_bytes_be e'))) })" for i
  have "\<exists>s. for_each [0..<2 ^ length cs] body (g1_infinity, g1_infinity) = Some s \<and> True"
    by (rule for_each_upt_invariant[where Q = "\<lambda>_ _. True"]) (use assms(3,4) es(2) n in \<open>auto simp: body_def gens_ok_def GENERATOR_COUNT_def\<close>)
  then obtain gt ht where "for_each [0..<2 ^ length cs] body (g1_infinity, g1_infinity) = Some (gt, ht)" by auto
  then show ?thesis using assms(1) c es(1) m len unfolding ip_verify_def body_def by (simp add: Let_def)
qed

end
