(* ===== verification/ProofVerify.thy ===== *)
theory ProofVerify
  imports InnerProduct Transaction
begin

text \<open>
  Verification of a transfer proof (\<open>Proof::verify\<close> of \<open>cryptography/crypto/src/proof.rs\<close>), stage by stage in the order of the code. A panic of an index or
  of an assertion is \<open>None\<close>; the digest and the table of generators are parameters. The properties: on a proof its decoder returned and a complete
  statement the verifier returns a verdict, except on a ring of one member, where it panics unless the fees overflow.
\<close>

section \<open>Model\<close>

definition points_bytes :: "g1 list \<Rightarrow> byte list" where
  "points_bytes ps = concat (map g1_marshal ps)"

definition challenge :: "digest \<Rightarrow> nat \<Rightarrow> g1 list \<Rightarrow> nat" where
  "challenge kec prev ps = reduced_hash kec (to_32_be prev @ points_bytes ps)"

definition sc_minus :: "nat \<Rightarrow> nat" where
  "sc_minus sc = (order - sc mod order) mod order"

text \<open>The challenges \<open>v\<close> and \<open>w\<close>.\<close>

definition challenge_v :: "digest \<Rightarrow> proof_data \<Rightarrow> byte list \<Rightarrow> nat" where
  "challenge_v kec pf txid = challenge kec (reduced_hash kec txid) [pf_ba pf, pf_bs pf, pf_a pf, pf_b pf]"

definition challenge_w :: "digest \<Rightarrow> proof_data \<Rightarrow> nat \<Rightarrow> nat" where
  "challenge_w kec pf v = challenge kec v (cln_g pf @ crn_g pf @ c_0g pf @ dg pf @ y_0g pf @ g_g pf @ c_xg pf @ y_xg pf)"

text \<open>Recovery of the bit commitments.\<close>

definition bits_recovered :: "generators \<Rightarrow> proof_data \<Rightarrow> nat \<Rightarrow> (nat \<times> nat) list \<Rightarrow> nat \<Rightarrow> bool option" where
  "bits_recovered gens pf w f m = do {
     temp \<leftarrow> for_each [0..<2 * m] (\<lambda>k temp. do {
       g \<leftarrow> get (gen_gs gens) k;
       (f0, f1) \<leftarrow> get f k;
       let temp = g1_add temp (g_smul g f1);
       let t = (f1 * f0) mod order;
       h \<leftarrow> get (gen_hs gens) k;
       Some (g1_add temp (g_smul h t)) }) g1_infinity;
     (f00, f01) \<leftarrow> get f 0;
     (fm0, fm1) \<leftarrow> get f m;
     let t0v = (f01 * fm1) mod order;
     let t1v = (f00 * fm0) mod order;
     h0 \<leftarrow> get (gen_hs gens) (2 * m);
     let temp = g1_add temp (g_smul h0 t0v);
     h1 \<leftarrow> get (gen_hs gens) (1 + 2 * m);
     let temp = g1_add temp (g_smul h1 t1v);
     let stored = g1_add (g_smul (pf_b pf) w) (pf_a pf);
     let computed = g1_add temp (g_smul (gen_h gens) (z_a pf));
     Some (compress stored = compress computed) }"

text \<open>The ring: sums over the members, and the convolutions of the two coefficient vectors with the commitments and with the keys.\<close>

definition ring_sums :: "statement \<Rightarrow> (nat \<times> nat) list \<Rightarrow> nat \<Rightarrow> (g1 \<times> g1) option" where
  "ring_sums s r n = for_each [0..<n] (\<lambda>i (cln_r, crn_r). do {
     c \<leftarrow> get (cln s) i;
     (r0, _) \<leftarrow> get r i;
     d \<leftarrow> get (crn s) i;
     Some (g1_add cln_r (g_smul c r0), g1_add crn_r (g_smul d r0)) }) (g1_infinity, g1_infinity)"

definition ring_convolutions :: "statement \<Rightarrow> nat list \<Rightarrow> nat list \<Rightarrow> ((g1 \<times> g1) list \<times> (g1 \<times> g1) list) option" where
  "ring_convolutions s p_vec q_vec = do {
     c_p \<leftarrow> convolution p_vec (st_c s);
     c_q \<leftarrow> convolution q_vec (st_c s);
     y_p \<leftarrow> convolution p_vec (publickeylist s);
     y_q \<leftarrow> convolution q_vec (publickeylist s);
     for_each [0..<length c_p] (\<lambda>i (cr, yr). do {
       b \<leftarrow> get c_q i;
       c \<leftarrow> get y_p i;
       d \<leftarrow> get y_q i;
       Some (cr @ [(c_p ! i, b)], yr @ [(c, d)]) }) ([], []) }"

definition side :: "'a \<times> 'a \<Rightarrow> nat \<Rightarrow> 'a" where
  "side pq k = (if k = 0 then fst pq else snd pq)"

definition power_sums :: "(g1 \<times> g1) list \<Rightarrow> (g1 \<times> g1) list \<Rightarrow> nat \<Rightarrow> nat \<Rightarrow> (g1 \<times> g1 \<times> nat) option" where
  "power_sums cr yr v n = for_each [0..<n] (\<lambda>i (c_xr, y_xr, v_pow). do {
     c \<leftarrow> get cr (i div 2);
     y \<leftarrow> get yr (i div 2);
     Some (g1_add c_xr (g_smul (side c (i mod 2)) v_pow), g1_add y_xr (g_smul (side y (i mod 2)) v_pow),
       if i > 0 then (v_pow * v) mod order else v_pow) }) (g1_infinity, g1_infinity, 1)"

record ring_state =
  rs_cln_r :: g1
  rs_crn_r :: g1
  rs_cr00 :: g1
  rs_d_r :: g1
  rs_yr00 :: g1
  rs_g_r :: g1
  rs_c_xr :: g1
  rs_y_xr :: g1
  rs_w_pow :: nat

definition ring_step :: "proof_data \<Rightarrow> nat \<Rightarrow> nat \<Rightarrow> ring_state \<Rightarrow> ring_state option" where
  "ring_step pf w i st = do {
     let wpn = sc_minus (rs_w_pow st);
     a \<leftarrow> get (cln_g pf) i;
     b \<leftarrow> get (crn_g pf) i;
     c \<leftarrow> get (c_0g pf) i;
     d \<leftarrow> get (dg pf) i;
     e \<leftarrow> get (y_0g pf) i;
     g \<leftarrow> get (g_g pf) i;
     x \<leftarrow> get (c_xg pf) i;
     y \<leftarrow> get (y_xg pf) i;
     Some \<lparr>rs_cln_r = g1_add (rs_cln_r st) (g_smul a wpn), rs_crn_r = g1_add (rs_crn_r st) (g_smul b wpn),
       rs_cr00 = g1_add (rs_cr00 st) (g_smul c wpn), rs_d_r = g1_add (rs_d_r st) (g_smul d wpn),
       rs_yr00 = g1_add (rs_yr00 st) (g_smul e wpn), rs_g_r = g1_add (rs_g_r st) (g_smul g wpn),
       rs_c_xr = g1_add (rs_c_xr st) (g_smul x wpn), rs_y_xr = g1_add (rs_y_xr st) (g_smul y wpn),
       rs_w_pow = (rs_w_pow st * w) mod order\<rparr> }"

text \<open>The challenges of the range proof: the powers of \<open>y\<close>, the two powers of \<open>z\<close>, and the constant the verifier takes off \<open>that\<close>.\<close>

definition y_powers :: "nat \<Rightarrow> nat list" where
  "y_powers y = foldl (\<lambda>ys i. ys @ [(ys ! (i - 1) * y) mod order]) [1] [1..<128]"

definition z_powers :: "nat \<Rightarrow> nat \<times> nat" where
  "z_powers z = (modpow z 2 order, modpow z 3 order)"

definition range_constant :: "nat \<Rightarrow> nat \<Rightarrow> nat" where
  "range_constant y z =
    (let ys = y_powers y; (zs0, zs1) = z_powers z;
       k = foldl (\<lambda>k i. (k + ys ! i) mod order) 1 [1..<128];
       z_sum = (zs0 + zs1) mod order;
       z_sum = (z_sum * z) mod order;
       z_z0 = (order + z - zs0) mod order;
       k = (k * z_z0) mod order;
       zsum_pow = (z_sum * 2 ^ 64) mod order;
       zsum_pow = (order + zsum_pow - z_sum) mod order
     in (order + k - zsum_pow) mod order)"

definition verifier_t :: "nat \<Rightarrow> nat \<Rightarrow> nat \<Rightarrow> nat" where
  "verifier_t that y z = (order + that - range_constant y z mod order) mod order"

definition two_times_z_squared :: "nat \<Rightarrow> nat list" where
  "two_times_z_squared z = (let (zs0, zs1) = z_powers z in map (\<lambda>i. (zs0 * 2 ^ i) mod order) [0..<64] @ map (\<lambda>i. (zs1 * 2 ^ i) mod order) [0..<64])"

text \<open>The points of the sigma protocol, and the challenge recomputed from them.\<close>

definition key_image_point :: "digest \<Rightarrow> byte list \<Rightarrow> byte list \<Rightarrow> nat \<Rightarrow> g1 option" where
  "key_image_point kec root asset asset_index = hash_to_point (hash_to_number kec (PROTOCOL_CONSTANT @ root @ asset @ dec_str asset_index))"

definition sigma_points :: "generators \<Rightarrow> proof_data \<Rightarrow> statement \<Rightarrow> ring_state \<Rightarrow> nat \<Rightarrow> nat \<Rightarrow> nat \<Rightarrow> g1 \<Rightarrow> g1 \<Rightarrow> g1 list" where
  "sigma_points gens pf s st total_open_value z t t_eval point =
    (let g = gen_g gens; h = gen_h gens; (zs0, zs1) = z_powers z; w_pow = rs_w_pow st;
       c_neg = sc_minus (pf_c pf);
       a_y = g1_add (g_smul (rs_g_r st) (s_sk pf)) (g_smul (rs_yr00 st) c_neg);
       a_d = g1_add (g_smul g (s_r pf)) (g_smul (st_d s) c_neg);
       zs0_neg = sc_minus zs0;
       left = g_smul (rs_d_r st) zs0_neg;
       left = g1_add left (g_smul (rs_crn_r st) zs1);
       left = g_smul left (s_sk pf);
       mid_scalar = (total_open_value * w_pow) mod order;
       mid = g1_add (g_smul g mid_scalar) (rs_cr00 st);
       right = g_smul mid zs0_neg;
       right = g1_add right (g_smul (rs_cln_r st) zs1);
       right = g_smul right c_neg;
       a_b = g1_add (g_smul g (s_b pf)) (g1_add left right);
       a_x = g1_add (g_smul (rs_y_xr st) (s_r pf)) (g_smul (rs_c_xr st) c_neg);
       s_b_neg = sc_minus (s_b pf);
       cw = (pf_c pf * w_pow) mod order;
       a_t = g_smul g t;
       a_t = g1_add a_t (g1_neg t_eval);
       a_t = g_smul a_t cw;
       a_t = g1_add a_t (g_smul h (s_tau pf));
       a_t = g1_add a_t (g_smul g s_b_neg);
       a_u = g1_add (g_smul point (s_sk pf)) (g_smul (pf_u pf) c_neg)
     in [a_y, a_d, a_b, a_x, a_t, a_u])"

text \<open>The rescaled generators and the point the inner-product argument commits to.\<close>

definition h_primes :: "generators \<Rightarrow> nat list \<Rightarrow> nat \<Rightarrow> (g1 list \<times> g1) option" where
  "h_primes gens ys z = for_each [0..<128] (\<lambda>i (hps, h_prime_sum). do {
     h \<leftarrow> get (gen_hs gens) i;
     y \<leftarrow> get ys i;
     let hp = scalar_mult h (to_bytes_be (sc_inv y));
     d \<leftarrow> get (two_times_z_squared z) i;
     let tmp = ((y * z) mod order + d) mod order;
     Some (hps @ [hp], g1_add h_prime_sum (g_smul hp tmp)) }) ([], g1_infinity)"

definition check_inner_product :: "digest \<Rightarrow> generators \<Rightarrow> proof_data \<Rightarrow> nat \<Rightarrow> nat \<Rightarrow> nat \<Rightarrow> bool option" where
  "check_inner_product kec gens pf y z x = do {
     let o' = reduced_hash kec (to_32_be (pf_c pf));
     let u_x = g_smul (gen_h gens) o';
     (hps, h_prime_sum) \<leftarrow> h_primes gens (y_powers y) z;
     let p_pt = g1_add (pf_ba pf) (g_smul (pf_bs pf) x);
     let p_pt = g1_add p_pt (g_smul (gen_gsum gens) (sc_minus z));
     let p_pt = g1_add p_pt h_prime_sum;
     let p_pt = g1_add p_pt (g_smul (gen_h gens) (sc_minus (pf_mu pf)));
     let p_pt = g1_add p_pt (g_smul u_x (pf_that pf mod order));
     ip_verify kec gens (pf_ip pf) hps u_x p_pt o' }"

definition check_ring :: "digest \<Rightarrow> generators \<Rightarrow> proof_data \<Rightarrow> byte list \<Rightarrow> nat \<Rightarrow> statement \<Rightarrow> nat \<Rightarrow> nat \<Rightarrow> nat \<Rightarrow> (nat \<times> nat) list \<Rightarrow> nat \<Rightarrow> bool option" where
  "check_ring kec gens pf asset asset_index s total_open_value v w f m = do {
     let n = 2 ^ (m mod 64);
     r \<leftarrow> assemble_polynomials f;
     let p_vec = map fst r;
     let q_vec = map snd r;
     (cln_r, crn_r) \<leftarrow> ring_sums s r n;
     (cr, yr) \<leftarrow> ring_convolutions s p_vec q_vec;
     (c_xr, y_xr, _) \<leftarrow> power_sums cr yr v n;
     cr0 \<leftarrow> get cr 0;
     yr0 \<leftarrow> get yr 0;
     st \<leftarrow> for_each [0..<m] (ring_step pf w) \<lparr>rs_cln_r = cln_r, rs_crn_r = crn_r, rs_cr00 = fst cr0, rs_d_r = g1_infinity, rs_yr00 = fst yr0,
       rs_g_r = g1_infinity, rs_c_xr = c_xr, rs_y_xr = y_xr, rs_w_pow = 1\<rparr>;
     let w_pow = rs_w_pow st;
     let st = st\<lparr>rs_d_r := g1_add (rs_d_r st) (g_smul (st_d s) w_pow)\<rparr>;
     let st = st\<lparr>rs_g_r := g1_add (rs_g_r st) (g_smul (gen_g gens) w_pow)\<rparr>;
     let tov_wpow = (total_open_value * w_pow) mod order;
     let st = st\<lparr>rs_c_xr := g1_add (rs_c_xr st) (g_smul (gen_g gens) tov_wpow)\<rparr>;
     let y = reduced_hash kec (to_32_be w);
     let z = reduced_hash kec (to_32_be y);
     let t = verifier_t (pf_that pf) y z;
     let x = challenge kec z [t_1 pf, t_2 pf];
     let xsq = (x * x) mod order;
     let t_eval = g1_add (g_smul (t_1 pf) x) (g_smul (t_2 pf) xsq);
     point \<leftarrow> key_image_point kec (roothash s) asset asset_index;
     let c_check = challenge kec x (sigma_points gens pf s st total_open_value z t t_eval point);
     if c_check \<noteq> pf_c pf then Some False else check_inner_product kec gens pf y z x }"

definition proof_verify :: "digest \<Rightarrow> generators \<Rightarrow> proof_data \<Rightarrow> byte list \<Rightarrow> nat \<Rightarrow> statement \<Rightarrow> byte list \<Rightarrow> u64 \<Rightarrow> bool option" where
  "proof_verify kec gens pf asset asset_index s txid extra_value =
    (if length (st_c s) \<noteq> length (publickeylist s) then Some False
     else let total_open_value = st_fees s + extra_value in
     if total_open_value < st_fees s \<or> total_open_value < extra_value then Some False
     else do {
       let v = challenge_v kec pf txid;
       let w = challenge_w kec pf v;
       let m = length (pf_f pf) div 2;
       let f = map (f_pair w) (take (2 * m) (pf_f pf));
       f0 \<leftarrow> get (pf_f pf) 0;
       parity \<leftarrow> (if w = f0 then Some True else do { fm \<leftarrow> get (pf_f pf) m; Some (w = fm) });
       if \<not> parity then Some False
       else do {
         ok \<leftarrow> bits_recovered gens pf w f m;
         if \<not> ok then Some False
         else check_ring kec gens pf asset asset_index s (unat total_open_value) v w f m } })"

section \<open>The verifier returns\<close>

text \<open>The shape of a proof for a ring of \<open>2\<close> to the \<open>m\<close> members, as its decoder produces it, and a statement with its keys and balances filled in.\<close>

definition proof_shape :: "nat \<Rightarrow> proof_data \<Rightarrow> bool" where
  "proof_shape m pf \<longleftrightarrow> (\<forall>v\<in>{cln_g pf, crn_g pf, c_0g pf, dg pf, y_0g pf, g_g pf, c_xg pf, y_xg pf}. length v = m) \<and> length (pf_f pf) = 2 * m
    \<and> length (ip_ls (pf_ip pf)) = ROUNDS \<and> length (ip_rs (pf_ip pf)) = ROUNDS"

definition ring_complete :: "nat \<Rightarrow> statement \<Rightarrow> bool" where
  "ring_complete m s \<longleftrightarrow> length (cln s) = 2 ^ m \<and> length (crn s) = 2 ^ m \<and> points_ok (2 ^ m) (st_c s) \<and> points_ok (2 ^ m) (publickeylist s)"

lemma for_each_total:
  assumes "\<And>k a. k < n \<Longrightarrow> \<exists>a'. f k a = Some a'"
  shows "\<exists>a'. for_each [0..<n] f a = Some a'"
  using for_each_upt_invariant[of "\<lambda>_ _. True" a n f] assms by auto

lemma bits_recovered_total:
  assumes "gens_ok gens" "0 < m" "m \<le> 28" "length f = 2 * m"
  shows "\<exists>b. bits_recovered gens pf w f m = Some b"
proof -
  have g: "length (gen_gs gens) = 128" "length (gen_hs gens) = 128" using assms(1) by (simp_all add: gens_ok_def GENERATOR_COUNT_def)
  define body where "body k temp = do { g \<leftarrow> get (gen_gs gens) k; (f0, f1) \<leftarrow> get f k; let temp = g1_add temp (g_smul g f1); let t = (f1 * f0) mod order;
       h \<leftarrow> get (gen_hs gens) k; Some (g1_add temp (g_smul h t)) }" for k temp
  have "\<exists>t. for_each [0..<2 * m] body g1_infinity = Some t"
    by (rule for_each_total) (use g assms in \<open>auto simp: body_def Let_def split: prod.split\<close>)
  then obtain t where "for_each [0..<2 * m] body g1_infinity = Some t" by blast
  then show ?thesis using g assms unfolding bits_recovered_def body_def by (simp add: Let_def split: prod.split)
qed

lemma ring_sums_total: "ring_complete m s \<Longrightarrow> length r = 2 ^ m \<Longrightarrow> \<exists>c. ring_sums s r (2 ^ m) = Some c"
  unfolding ring_sums_def by (rule for_each_total) (auto simp: ring_complete_def split: prod.split)

lemma ring_convolutions_ok:
  assumes "ring_complete (Suc k) s" "k < 28" "length p = 2 ^ Suc k" "length q = 2 ^ Suc k"
  shows "\<exists>cr yr. ring_convolutions s p q = Some (cr, yr) \<and> length cr = 2 ^ k \<and> length yr = 2 ^ k"
proof -
  have s: "points_ok (2 ^ Suc k) (st_c s)" "points_ok (2 ^ Suc k) (publickeylist s)" using assms(1) by (simp_all add: ring_complete_def)
  obtain cp cq yp yq where c: "convolution p (st_c s) = Some cp" "length cp = 2 ^ k" "convolution q (st_c s) = Some cq" "length cq = 2 ^ k"
      "convolution p (publickeylist s) = Some yp" "length yp = 2 ^ k" "convolution q (publickeylist s) = Some yq" "length yq = 2 ^ k"
    using convolution_ok[OF assms(3) s(1) assms(2)] convolution_ok[OF assms(4) s(1) assms(2)]
      convolution_ok[OF assms(3) s(2) assms(2)] convolution_ok[OF assms(4) s(2) assms(2)] by (auto simp: points_ok_def)
  define body where "body i = (\<lambda>(cr, yr). do { b \<leftarrow> get cq i; c \<leftarrow> get yp i; d \<leftarrow> get yq i; Some (cr @ [(cp ! i, b)], yr @ [(c, d)]) })" for i
  have "\<exists>s. for_each [0..<2 ^ k] body ([], []) = Some s \<and> length (fst s) = 2 ^ k \<and> length (snd s) = 2 ^ k"
    by (rule for_each_upt_invariant[where Q = "\<lambda>n s. length (fst s) = n \<and> length (snd s) = n"]) (use c in \<open>auto simp: body_def split: prod.split\<close>)
  then show ?thesis using c unfolding ring_convolutions_def body_def by auto
qed

lemma power_sums_total: "n \<le> 2 * length cr \<Longrightarrow> length yr = length cr \<Longrightarrow> \<exists>s. power_sums cr yr v n = Some s"
  unfolding power_sums_def by (rule for_each_total) (auto split: prod.split)

lemma ring_steps_total: "proof_shape m pf \<Longrightarrow> \<exists>st'. for_each [0..<m] (ring_step pf w) st = Some st'"
  by (rule for_each_total) (auto simp: ring_step_def proof_shape_def Let_def)

lemma y_powers_spec: "length (y_powers y) = 128" "i < 128 \<Longrightarrow> sgr (int (y_powers y ! i)) (int y ^ i)" "i < 128 \<Longrightarrow> y_powers y ! i < order"
proof -
  have e: "y_powers y = omega_powers y 128" by (simp add: y_powers_def omega_powers_def sc_mul_def)
  have s: "length (omega_powers y 128) = 128 \<and> (\<forall>i<128. sgr (int (omega_powers y 128 ! i)) (int y ^ i))" by (rule omega_powers_spec) simp
  show "length (y_powers y) = 128" "i < 128 \<Longrightarrow> sgr (int (y_powers y ! i)) (int y ^ i)" using s e by auto
  have "0 < n \<Longrightarrow> x \<in> set (omega_powers y n) \<Longrightarrow> x < order" for n x
  proof (induction n)
    case (Suc n)
    show ?case
    proof (cases "n = 0")
      case False
      then have "omega_powers y (Suc n) = omega_powers y n @ [sc_mul (omega_powers y n ! (n - 1)) y]" by (simp add: omega_powers_def)
      then show ?thesis using Suc False by auto
    qed (use Suc in \<open>simp add: omega_powers_def\<close>)
  qed simp
  then show "i < 128 \<Longrightarrow> y_powers y ! i < order" using s e by (metis nth_mem zero_less_numeral)
qed

lemma check_inner_product_total:
  assumes "gens_ok gens" "proof_shape m pf"
  shows "\<exists>b. check_inner_product kec gens pf y z x = Some b"
proof -
  define body where "body i = (\<lambda>(hps, h_prime_sum). do { h \<leftarrow> get (gen_hs gens) i; y \<leftarrow> get (y_powers y) i;
     let hp = scalar_mult h (to_bytes_be (sc_inv y)); d \<leftarrow> get (two_times_z_squared z) i; let tmp = ((y * z) mod order + d) mod order;
     Some (hps @ [hp], g1_add h_prime_sum (g_smul hp tmp)) })" for i
  have l: "length (two_times_z_squared z) = 128" by (simp add: two_times_z_squared_def z_powers_def)
  have g: "length (gen_hs gens) = 128" using assms(1) by (simp add: gens_ok_def GENERATOR_COUNT_def)
  have "\<exists>s. for_each [0..<128] body ([], g1_infinity) = Some s \<and> length (fst s) = 128"
    by (rule for_each_upt_invariant[where Q = "\<lambda>n s. length (fst s) = n"]) (use l g y_powers_spec(1) in \<open>auto simp: body_def Let_def split: prod.split\<close>)
  then obtain hps hsum where h: "h_primes gens (y_powers y) z = Some (hps, hsum)" "length hps = 128" unfolding h_primes_def body_def by auto
  have "\<exists>b. ip_verify kec gens (pf_ip pf) hps u p o' = Some b" for u p o'
    using ip_verify_total[OF _ _ assms(1)] assms(2) h(2) by (simp add: proof_shape_def ROUNDS_def)
  then show ?thesis unfolding check_inner_product_def Let_def using h(1) by simp
qed

lemma key_image_total: "\<exists>p. key_image_point kec root asset i = Some p"
  unfolding key_image_point_def using hash_to_point_value by blast

lemma check_ring_total:
  assumes "gens_ok gens" "0 < m" "m \<le> 28" "proof_shape m pf" "ring_complete m s" "length f = 2 * m"
  shows "\<exists>b. check_ring kec gens pf asset asset_index s tov v w f m = Some b"
proof -
  obtain k where k: "m = Suc k" using assms(2) by (cases m) auto
  obtain r0 r1 where "recursive_polys 0 m 1 f = Some r0" "length r0 = 2 ^ m" "recursive_polys m (2 * m) 1 f = Some r1" "length r1 = 2 ^ m"
    using recursive_polys_value[of 0 m f 1] recursive_polys_value[of m m f 1] assms(6) by (auto simp: mult_2)
  then obtain r where r: "assemble_polynomials f = Some r" "length r = 2 ^ m" using assms(6) by (simp add: assemble_polynomials_def)
  obtain a b where ab: "ring_sums s r (2 ^ m) = Some (a, b)" using ring_sums_total[OF assms(5) r(2)] by auto
  obtain cr yr where c: "ring_convolutions s (map fst r) (map snd r) = Some (cr, yr)" "length cr = 2 ^ k" "length yr = 2 ^ k"
    using ring_convolutions_ok[of k s "map fst r" "map snd r"] assms(3,5) r(2) k by auto
  obtain cx yx vp where p: "power_sums cr yr v (2 ^ m) = Some (cx, yx, vp)" using power_sums_total[of "2 ^ m" cr yr v] c(2,3) k by auto
  obtain st where st: "for_each [0..<m] (ring_step pf w) \<lparr>rs_cln_r = a, rs_crn_r = b, rs_cr00 = fst (cr ! 0), rs_d_r = g1_infinity, rs_yr00 = fst (yr ! 0),
       rs_g_r = g1_infinity, rs_c_xr = cx, rs_y_xr = yx, rs_w_pow = 1\<rparr> = Some st" using ring_steps_total[OF assms(4)] by blast
  obtain q where q: "key_image_point kec (roothash s) asset asset_index = Some q" using key_image_total by blast
  have m: "m mod 64 = m" using assms(3) by simp
  have i: "\<exists>b. (if c \<noteq> c' then Some False else check_inner_product kec gens pf y z x) = Some b" for c c' y z x
    using check_inner_product_total[OF assms(1,4)] by (cases "c = c'") auto
  have g: "get cr 0 = Some (cr ! 0)" "get yr 0 = Some (yr ! 0)" using c(2,3) by simp_all
  show ?thesis unfolding check_ring_def m Let_def by (simp only: r(1) ab c(1) p st q g bind.bind_lunit prod.case i)
qed

lemma verify_total_of_shape:
  assumes "compute_generators kec = Some gens" "0 < m" "m \<le> 28" "proof_shape m pf" "ring_complete m s"
  shows "\<exists>b. proof_verify kec gens pf asset asset_index s txid extra_value = Some b"
proof -
  have g: "gens_ok gens" using compute_generators_ok[of kec] assms(1) by auto
  have l: "length (pf_f pf) = 2 * m" using assms(4) by (simp add: proof_shape_def)
  define w where "w = challenge_w kec pf (challenge_v kec pf txid)"
  obtain b where b: "bits_recovered gens pf w (map (f_pair w) (take (2 * m) (pf_f pf))) m = Some b"
    using bits_recovered_total[OF g assms(2,3)] l by fastforce
  obtain b' where b': "check_ring kec gens pf asset asset_index s (unat (st_fees s + extra_value)) (challenge_v kec pf txid) w
      (map (f_pair w) (take (2 * m) (pf_f pf))) m = Some b'"
    using check_ring_total[OF g assms(2-5)] l by fastforce
  show ?thesis unfolding proof_verify_def Let_def w_def[symmetric] using l b b' assms(2) by (auto simp: ring_complete_def)
qed

text \<open>What the proof decoder returns has that shape.\<close>

lemma read_n_length: "read_n d n r = Inr (xs, r') \<Longrightarrow> length xs = n"
  by (induction d n r arbitrary: xs r' rule: read_n.induct) auto

lemma proof_deserialize_shape:
  assumes "proof_deserialize r m = Inr (pf, r')"
  shows "proof_shape m pf"
proof -
  have ip: "length (ip_ls v) = ROUNDS \<and> length (ip_rs v) = ROUNDS" if "ip_deserialize q = Inr (v, q')" for v q q'
    using that by (auto simp: ip_deserialize_def column_def dest: read_n_length)
  show ?thesis using assms by (auto simp: proof_deserialize_def proof_shape_def column_def dest!: read_n_length ip)
qed

text \<open>A proof for a ring of a single member has no responses, and the parity check indexes the first of them: the verifier panics,
  unless it refuses before, because the fees overflow.\<close>

lemma add_no_overflow: "(a :: u64) \<le> a + b \<and> b \<le> a + b \<longleftrightarrow> unat a + unat b < 2 ^ 64"
proof -
  have "unat a < 2 ^ 64" "unat b < 2 ^ 64" using unsigned_less[of a] unsigned_less[of b] by simp_all
  then show ?thesis by (auto simp: word_le_nat_alt unat_word_ariths mod_if)
qed

lemma ring_of_one_panics:
  assumes "proof_shape 0 pf" "ring_complete 0 s"
  shows "proof_verify kec gens pf asset asset_index s txid extra_value = None \<longleftrightarrow> unat (st_fees s) + unat extra_value < 2 ^ 64"
  unfolding add_no_overflow[symmetric]
  using assms by (auto simp: proof_verify_def proof_shape_def ring_complete_def points_ok_def get_def Let_def not_less)

text \<open>C33: Exactly when the verifier of a transfer proof panics. For a proof that was decoded for a ring of 2 to the \<open>m\<close> members (\<open>m\<close> up to 28;
  the wire allows 7) and a statement with the ring's keys and balances filled in, it panics if and only if the ring has one member and fees and extra value
  do not overflow; on every larger ring it returns a verdict for every transaction id, asset and extra value: no index, slice or assertion panics and the
  search for the key image point ends.\<close>

theorem proof_verify_total:
  assumes "compute_generators kec = Some gens" "proof_deserialize r m = Inr (pf, r')" "m \<le> 28" "ring_complete m s"
  shows "proof_verify kec gens pf asset asset_index s txid extra_value = None \<longleftrightarrow> m = 0 \<and> unat (st_fees s) + unat extra_value < 2 ^ 64"
proof (cases "m = 0")
  case True
  then show ?thesis using ring_of_one_panics[of pf s] proof_deserialize_shape[OF assms(2)] assms(4) by simp
next
  case False
  then show ?thesis using verify_total_of_shape[OF assms(1) _ assms(3) proof_deserialize_shape[OF assms(2)] assms(4), of asset asset_index txid extra_value] by auto
qed

definition filled_statement :: statement where
  "filled_statement = sample_statement\<lparr>cln := replicate 2 unit_y_point, crn := replicate 2 unit_y_point, publickeylist := replicate 2 unit_y_point\<rparr>"

lemma filled_statement_complete: "ring_complete 1 filled_statement"
proof -
  have "curve_inv unit_y_point" using unit_y_point_facts(1) by (rule decoded_inv)
  then show ?thesis by (simp add: ring_complete_def filled_statement_def sample_statement_def points_ok_def numeral_2_eq_2)
qed

theorem proof_verify_total_witness:
  "\<exists>gens r r' b. compute_generators (\<lambda>_. replicate 32 1) = Some gens \<and> proof_deserialize r 1 = Inr (sample_proof, r')
    \<and> proof_verify (\<lambda>_. replicate 32 1) gens sample_proof (replicate 32 0) 0 filled_statement (replicate 32 2) 5 = Some b"
proof -
  obtain gens where g: "compute_generators (\<lambda>_. replicate 32 1) = Some gens" using compute_generators_ok by blast
  have "proof_ok 1 sample_proof"
    by (simp add: proof_ok_def sample_proof_def proof_vectors_def proof_points_def proof_scalars_def vector_ok_def unit_y_point_ok scalar_ok_def ip_ok_def ROUNDS_def)
  note d = proof_roundtrip[OF this, of "[]"]
  from proof_verify_total[OF g d _ filled_statement_complete, of "replicate 32 0" 0 "replicate 32 2" 5] g d show ?thesis by auto
qed

end
