(* ===== verification/ProofGenerate.thy ===== *)
theory ProofGenerate
  imports ProofVerify "HOL-Library.Log_Nat"
begin

text \<open>
  Generation of a transfer proof (\<open>generate_proof\<close> of \<open>cryptography/crypto/src/proof.rs\<close> with its helpers), stage by stage in the order of the code. The source
  of nonces (\<open>ScalarRng\<close>) is a parameter: a function that draws a scalar from a state and returns the next state, threaded through the stages in the order
  of the calls. A panic of an index or an assertion is \<open>None\<close>. The lemmas
  show that no stage panics on a complete statement, and what each hands to the next; \<open>ProofRange\<close> draws the properties from them.
\<close>

section \<open>Model\<close>

type_synonym 'r source = "'r \<Rightarrow> nat \<times> 'r"

record det_rng =
  counter :: u64

definition det_new :: det_rng where "det_new = \<lparr>counter = 0\<rparr>"

definition det_next :: "digest \<Rightarrow> det_rng source" where
  "det_next kec rng = (let rng = rng\<lparr>counter := counter rng + 1\<rparr> in (reduced_hash kec (to_32_be (unat (counter rng))), rng))"

text \<open>ElGamal ciphertexts with an optional left side.\<close>

record cipher =
  left :: "g1 option"
  right :: g1

definition ct_add :: "cipher \<Rightarrow> cipher \<Rightarrow> cipher" where
  "ct_add c d = (let r = g1_add (right c) (right d) in
     case (left c, left d) of
       (Some a, Some b) \<Rightarrow> \<lparr>left = Some (g1_add a b), right = r\<rparr>
     | (None, Some b) \<Rightarrow> \<lparr>left = Some b, right = r\<rparr>
     | (Some a, None) \<Rightarrow> \<lparr>left = Some a, right = r\<rparr>
     | (None, None) \<Rightarrow> \<lparr>left = None, right = r\<rparr>)"

definition ct_mul :: "cipher \<Rightarrow> nat \<Rightarrow> cipher" where
  "ct_mul c s = (let sb = sc_reduce s in
     \<lparr>left = map_option (\<lambda>l. scalar_mult l (to_bytes_be sb)) (left c), right = scalar_mult (right c) (to_bytes_be sb)\<rparr>)"

definition ct_plus :: "generators \<Rightarrow> cipher \<Rightarrow> nat \<Rightarrow> cipher" where
  "ct_plus gens c v = (let gv = scalar_mult (gen_g gens) (to_bytes_be (sc_reduce v));
     l = (case left c of Some l \<Rightarrow> g1_add l gv | None \<Rightarrow> gv) in \<lparr>left = Some l, right = right c\<rparr>)"

definition ct_neg :: "cipher \<Rightarrow> cipher" where
  "ct_neg c = \<lparr>left = map_option g1_neg (left c), right = g1_neg (right c)\<rparr>"

text \<open>Commitments, each with a fresh nonce.\<close>

definition commit_elgamal :: "generators \<Rightarrow> 'r source \<Rightarrow> g1 \<Rightarrow> nat \<Rightarrow> 'r \<Rightarrow> (cipher \<times> nat) \<times> 'r" where
  "commit_elgamal gens next key v rng = (let (r, rng) = next rng; l = g1_add (g_smul (gen_g gens) v) (g_smul key r);
     rt = g_smul (gen_g gens) r in ((\<lparr>left = Some l, right = rt\<rparr>, r), rng))"

definition pvc_commit :: "generators \<Rightarrow> 'r source \<Rightarrow> field_vector \<Rightarrow> field_vector \<Rightarrow> 'r \<Rightarrow> ((g1 \<times> nat) \<times> 'r) option" where
  "pvc_commit gens next gexps hexps rng = do {
     let (r, rng) = next rng;
     let result = g_smul (gen_h gens) r;
     result \<leftarrow> add_multiples (gen_gs gens) gexps result;
     result \<leftarrow> add_multiples (gen_hs gens) hexps result;
     Some ((result, r), rng) }"

definition pc_commit :: "generators \<Rightarrow> 'r source \<Rightarrow> nat \<Rightarrow> 'r \<Rightarrow> (g1 \<times> nat) \<times> 'r" where
  "pc_commit gens next v rng =
    (let (r, rng) = next rng; result = g1_add (g_smul (gen_g gens) v) (g_smul (gen_h gens) r) in ((result, r), rng))"

definition fill_random :: "nat \<Rightarrow> 'r source \<Rightarrow> 'r \<Rightarrow> field_vector \<times> 'r" where
  "fill_random n next rng = foldl (\<lambda>(v, rng) _. let (x, rng) = next rng in (v @ [x], rng)) ([], rng) [0..<n]"

text \<open>Binary numerals, zero-padded to a width, as \<open>format!\<close> writes them.\<close>

fun bin_digits :: "nat \<Rightarrow> string" where
  "bin_digits n = (if n < 2 then [if n = 1 then CHR ''1'' else CHR ''0''] else bin_digits (n div 2) @ [if n mod 2 = 1 then CHR ''1'' else CHR ''0''])"

declare bin_digits.simps [simp del]

definition bin_padded :: "nat \<Rightarrow> nat \<Rightarrow> string" where
  "bin_padded m n = (let s = bin_digits n in replicate (m - length s) (CHR ''0'') @ s)"

definition witness_index_bits :: "nat \<Rightarrow> nat \<Rightarrow> nat \<Rightarrow> string" where
  "witness_index_bits idx1 idx0 m = rev (bin_padded m idx1 @ bin_padded m idx0)"

record transfer_witness =
  secret_key :: nat
  w_r :: nat
  transfer_amount :: u64
  w_balance :: u64
  w_index :: "nat list"

text \<open>The bits of the two amounts, and the mask and bit vectors of the ring positions.\<close>

definition range_bits :: "u64 \<Rightarrow> u64 \<Rightarrow> field_vector \<times> field_vector" where
  "range_bits amount bal = (let number = unat amount + unat bal * 2 ^ 64 in
     (map (\<lambda>i. if (number div 2 ^ i) mod 2 = 1 then 1 else 0) [0..<128], map (\<lambda>i. if (number div 2 ^ i) mod 2 = 1 then 0 else order - 1) [0..<128]))"

text \<open>The logarithm of the ring size, as the floating-point logarithm cut to an integer gives it.\<close>

definition ring_log :: "nat \<Rightarrow> nat" where
  "ring_log n = floorlog 2 n - 1"

definition mask_vector :: "nat \<Rightarrow> 'r source \<Rightarrow> 'r \<Rightarrow> field_vector \<times> 'r" where
  "mask_vector m next rng = foldl (\<lambda>(v, rng) i. if i = 0 \<or> i = m then (v @ [0], rng) else let (x, rng) = next rng in (v @ [x], rng)) ([], rng) [0..<2 * m]"

definition bit_vectors :: "string \<Rightarrow> field_vector \<times> field_vector" where
  "bit_vectors wi = (map (\<lambda>ch. if ch = CHR ''1'' then 1 else 0) wi, map (\<lambda>ch. if ch = CHR ''1'' then order - 1 else 1) wi)"

definition one_bit :: "nat \<Rightarrow> nat" where
  "one_bit x = (if x = 1 then 1 else 0)"

definition bit_exponents :: "field_vector \<Rightarrow> field_vector \<Rightarrow> field_vector \<Rightarrow> nat \<Rightarrow> (field_vector \<times> field_vector) option" where
  "bit_exponents a b bspecial m = do {
     c_vec \<leftarrow> hadamard a bspecial;
     aa \<leftarrow> hadamard a a;
     let d_vec = negate aa;
     a0 \<leftarrow> get a 0;
     am \<leftarrow> get a m;
     let e_vec = [sc_mul a0 am, sc_mul a0 am];
     bm \<leftarrow> get b m;
     s \<leftarrow> get a (one_bit bm * m);
     let second = sc_neg s;
     b0 \<leftarrow> get b 0;
     f \<leftarrow> get a (one_bit b0 * m);
     let f_vec = [f, second];
     Some (d_vec @ e_vec, c_vec @ f_vec) }"

definition ring_matrices :: "field_vector \<Rightarrow> field_vector \<Rightarrow> nat \<Rightarrow> (nat list list \<times> nat list list) option" where
  "ring_matrices a b m = do {
     a0 \<leftarrow> subslice a 0 m;
     b0 \<leftarrow> subslice b 0 m;
     pi \<leftarrow> recursive_polynomials a0 b0;
     a1 \<leftarrow> subslice a m (2 * m);
     b1 \<leftarrow> subslice b m (2 * m);
     qi \<leftarrow> recursive_polynomials a1 b1;
     p_mat \<leftarrow> transpose_polynomials pi m;
     q_mat \<leftarrow> transpose_polynomials qi m;
     Some (p_mat, q_mat) }"

text \<open>The ciphertexts of the ring, the blinding ciphertexts under the sender's key, and the rows that hide the positions.\<close>

definition ring_ciphers :: "statement \<Rightarrow> (cipher list \<times> cipher list) option" where
  "ring_ciphers s = for_each [0..<length (st_c s)] (\<lambda>i (c_eg, cn). do {
     l \<leftarrow> get (cln s) i;
     r \<leftarrow> get (crn s) i;
     Some (c_eg @ [\<lparr>left = Some (st_c s ! i), right = st_d s\<rparr>], cn @ [\<lparr>left = Some l, right = r\<rparr>]) }) ([], [])"

record masks =
  phi :: "cipher list"
  chi :: "cipher list"
  psi :: "cipher list"
  chi_r :: "nat list"
  psi_r :: "nat list"

definition mask_step :: "generators \<Rightarrow> 'r source \<Rightarrow> g1 \<Rightarrow> masks \<times> 'r \<Rightarrow> masks \<times> 'r" where
  "mask_step gens next sender_pk = (\<lambda>(ms, rng).
     let ((e1, _), rng) = commit_elgamal gens next sender_pk 0 rng;
       ((e2, r2), rng) = commit_elgamal gens next sender_pk 0 rng;
       ((e3, r3), rng) = commit_elgamal gens next sender_pk 0 rng
     in (\<lparr>phi = phi ms @ [e1], chi = chi ms @ [e2], psi = psi ms @ [e3], chi_r = chi_r ms @ [r2], psi_r = psi_r ms @ [r3]\<rparr>, rng))"

definition ring_masks :: "generators \<Rightarrow> 'r source \<Rightarrow> g1 \<Rightarrow> nat \<Rightarrow> 'r \<Rightarrow> masks \<times> 'r" where
  "ring_masks gens next sender_pk m rng = ((mask_step gens next sender_pk) ^^ m) (\<lparr>phi = [], chi = [], psi = [], chi_r = [], psi_r = []\<rparr>, rng)"

definition points_row :: "g1 list \<Rightarrow> nat list \<Rightarrow> g1 option" where
  "points_row ps row = for_each [0..<length ps] (\<lambda>j l. do { e \<leftarrow> get row j; Some (g1_add l (g_smul (ps ! j) e)) }) g1_infinity"

definition ciphers_row :: "cipher list \<Rightarrow> nat list \<Rightarrow> cipher option" where
  "ciphers_row cs row = for_each [0..<length cs] (\<lambda>j acc. do { e \<leftarrow> get row j; Some (ct_add acc (ct_mul (cs ! j) e)) })
     \<lparr>left = Some g1_infinity, right = g1_infinity\<rparr>"

definition ring_row :: "statement \<Rightarrow> cipher list \<Rightarrow> cipher list \<Rightarrow> nat list list \<Rightarrow> masks \<Rightarrow> nat \<Rightarrow> (cipher \<times> cipher \<times> cipher) option" where
  "ring_row s c_eg cn p_mat ms i = do {
     row \<leftarrow> get p_mat i;
     acc \<leftarrow> ciphers_row cn row;
     ph \<leftarrow> get (phi ms) i;
     lefts \<leftarrow> those (map left c_eg);
     l \<leftarrow> points_row lefts row;
     ch \<leftarrow> get (chi ms) i;
     chl \<leftarrow> left ch;
     k \<leftarrow> points_row (publickeylist s) row;
     ps \<leftarrow> get (psi ms) i;
     psl \<leftarrow> left ps;
     Some (ct_add acc ph, \<lparr>left = Some (g1_add l chl), right = right ch\<rparr>, \<lparr>left = Some (g1_add k psl), right = right ps\<rparr>) }"

definition ring_rows :: "statement \<Rightarrow> cipher list \<Rightarrow> cipher list \<Rightarrow> nat list list \<Rightarrow> masks \<Rightarrow> nat \<Rightarrow> (cipher \<times> cipher \<times> cipher) list option" where
  "ring_rows s c_eg cn p_mat ms m = for_each [0..<m] (\<lambda>i rows. do { r \<leftarrow> ring_row s c_eg cn p_mat ms i; Some (rows @ [r]) }) []"

text \<open>The amounts spread over the ring at the powers of \<open>v\<close>.\<close>

definition spread_masks :: "generators \<Rightarrow> 'r source \<Rightarrow> cipher list \<Rightarrow> nat \<Rightarrow> 'r \<Rightarrow> (cipher list \<times> 'r) option" where
  "spread_masks gens next c_eg m rng = for_each [0..<m] (\<lambda>_ (cxs, rng). do {
     c0 \<leftarrow> get c_eg 0;
     let ((e, _), rng) = commit_elgamal gens next (right c0) 0 rng;
     Some (cxs @ [e], rng) }) ([], rng)"

definition spread_entry :: "generators \<Rightarrow> statement \<Rightarrow> transfer_witness \<Rightarrow> u64 \<Rightarrow> nat list list \<Rightarrow> nat \<Rightarrow> nat \<Rightarrow> nat \<Rightarrow> nat \<Rightarrow> cipher list \<Rightarrow> cipher list option" where
  "spread_entry gens s wit burn poly n i v_pow j cxs = do {
     let amount = unat (transfer_amount wit);
     let amount_neg = sc_neg amount;
     let amount_fees = unat (st_fees s + burn);
     let left_s = sc_sub amount_neg amount_fees;
     i0 \<leftarrow> get (w_index wit) 0;
     i1 \<leftarrow> get (w_index wit) 1;
     let idx_s = (i0 + n - (i - i mod 2)) mod n;
     let idx_r = (i1 + n - (i - i mod 2)) mod n;
     row \<leftarrow> get poly j;
     ps \<leftarrow> get row idx_s;
     let l = sc_mul left_s ps;
     pr \<leftarrow> get row idx_r;
     let r = sc_mul amount pr;
     let joined = sc_add l r;
     let mul = sc_mul v_pow joined;
     Some (cxs[j := ct_plus gens (cxs ! j) mul]) }"

definition spread_amounts :: "generators \<Rightarrow> statement \<Rightarrow> transfer_witness \<Rightarrow> u64 \<Rightarrow> nat list list \<Rightarrow> nat list list \<Rightarrow> nat \<Rightarrow> nat \<Rightarrow> cipher list \<Rightarrow> cipher list option" where
  "spread_amounts gens s wit burn p_mat q_mat n v cxs = do {
     (cxs, _) \<leftarrow> for_each [0..<n] (\<lambda>i (cxs, v_pow). do {
       let poly = (if i mod 2 = 0 then p_mat else q_mat);
       cxs \<leftarrow> for_each [0..<length cxs] (spread_entry gens s wit burn poly n i v_pow) cxs;
       Some (cxs, if i \<noteq> 0 then sc_mul v_pow v else v_pow) }) (cxs, 1);
     Some cxs }"

text \<open>The columns of the proof: the eight points of each bit position.\<close>

definition proof_row :: "cipher \<times> cipher \<times> cipher \<Rightarrow> cipher \<Rightarrow> g1 list option" where
  "proof_row = (\<lambda>(cn_g, c_0g, y_0g) cxs. do {
     cx \<leftarrow> left cxs;
     cl \<leftarrow> left cn_g;
     c0 \<leftarrow> left c_0g;
     y0 \<leftarrow> left y_0g;
     Some [cl, right cn_g, c0, right c_0g, y0, right y_0g, cx, right cxs] })"

definition proof_rows :: "(cipher \<times> cipher \<times> cipher) list \<Rightarrow> cipher list \<Rightarrow> nat \<Rightarrow> g1 list list option" where
  "proof_rows rows cxs m = for_each [0..<m] (\<lambda>i acc. do {
     c \<leftarrow> get cxs i;
     r \<leftarrow> get rows i;
     pr \<leftarrow> proof_row r c;
     Some (acc @ [pr]) }) []"

text \<open>First stage: the commitments to the bits of the amounts and of the positions, and the challenge \<open>v\<close>.\<close>

record commit_part =
  cp_al :: field_vector
  cp_ar :: field_vector
  cp_sl :: field_vector
  cp_sr :: field_vector
  cp_ba :: g1
  cp_r_ba :: nat
  cp_bs :: g1
  cp_r_bs :: nat
  cp_a :: field_vector
  cp_b :: field_vector
  cp_a_pt :: g1
  cp_r_a :: nat
  cp_b_pt :: g1
  cp_r_b :: nat
  cp_v :: nat

definition commit_stage :: "digest \<Rightarrow> generators \<Rightarrow> 'r source \<Rightarrow> transfer_witness \<Rightarrow> byte list \<Rightarrow> nat \<Rightarrow> 'r \<Rightarrow> (commit_part \<times> 'r) option" where
  "commit_stage kec gens next wit txid m rng = do {
     let statementhash = reduced_hash kec txid;
     let (al, ar) = range_bits (transfer_amount wit) (w_balance wit);
     ((ba, r_ba), rng) \<leftarrow> pvc_commit gens next al ar rng;
     let (sl, rng) = fill_random 128 next rng;
     let (sr, rng) = fill_random 128 next rng;
     ((bs, r_bs), rng) \<leftarrow> pvc_commit gens next sl sr rng;
     let (a, rng) = mask_vector m next rng;
     i1 \<leftarrow> get (w_index wit) 1;
     i0 \<leftarrow> get (w_index wit) 0;
     let (b, bspecial) = bit_vectors (witness_index_bits i1 i0 m);
     (hexp_a, hexp_b) \<leftarrow> bit_exponents a b bspecial m;
     ((a_pt, r_a), rng) \<leftarrow> pvc_commit gens next a hexp_a rng;
     ((b_pt, r_b), rng) \<leftarrow> pvc_commit gens next b hexp_b rng;
     let v = challenge kec statementhash [ba, bs, a_pt, b_pt];
     Some (\<lparr>cp_al = al, cp_ar = ar, cp_sl = sl, cp_sr = sr, cp_ba = ba, cp_r_ba = r_ba, cp_bs = bs, cp_r_bs = r_bs, cp_a = a, cp_b = b,
       cp_a_pt = a_pt, cp_r_a = r_a, cp_b_pt = b_pt, cp_r_b = r_b, cp_v = v\<rparr>, rng) }"

text \<open>Second stage: the hidden rows of the ring and the challenge \<open>w\<close>.\<close>

record ring_part =
  rp_p_mat :: "nat list list"
  rp_q_mat :: "nat list list"
  rp_masks :: masks
  rp_c_xg :: "cipher list"
  rp_rows :: "g1 list list"
  rp_w :: nat

definition ring_stage :: "digest \<Rightarrow> generators \<Rightarrow> 'r source \<Rightarrow> statement \<Rightarrow> transfer_witness \<Rightarrow> u64 \<Rightarrow> cipher list \<Rightarrow> cipher list \<Rightarrow> commit_part \<Rightarrow> nat \<Rightarrow> 'r \<Rightarrow> (ring_part \<times> 'r) option" where
  "ring_stage kec gens next s wit burn c_eg cn cp m rng = do {
     let n = length (publickeylist s);
     (p_mat, q_mat) \<leftarrow> ring_matrices (cp_a cp) (cp_b cp) m;
     i0 \<leftarrow> get (w_index wit) 0;
     sender_pk \<leftarrow> get (publickeylist s) i0;
     let (ms, rng) = ring_masks gens next sender_pk m rng;
     rows \<leftarrow> ring_rows s c_eg cn p_mat ms m;
     (cxs, rng) \<leftarrow> spread_masks gens next c_eg m rng;
     cxs \<leftarrow> spread_amounts gens s wit burn p_mat q_mat n (cp_v cp) cxs;
     prows \<leftarrow> proof_rows rows cxs m;
     let w = challenge kec (cp_v cp) (concat (map (column prows) [0..<8]));
     Some (\<lparr>rp_p_mat = p_mat, rp_q_mat = q_mat, rp_masks = ms, rp_c_xg = cxs, rp_rows = prows, rp_w = w\<rparr>, rng) }"

text \<open>Third stage: the two vector polynomials of the range argument, their inner product, and the challenge \<open>x\<close>.\<close>

definition twos :: field_vector where
  "twos = foldl (\<lambda>ts i. ts @ [sc_mul (ts ! (i - 1)) 2]) [1] [1..<64]"

definition two_times_zs :: "nat \<Rightarrow> field_vector" where
  "two_times_zs z = (let (zs0, zs1) = z_powers z in concat (map (\<lambda>zi. map (sc_mul zi) twos) [zs0, zs1]))"

definition range_polys :: "field_vector \<Rightarrow> field_vector \<Rightarrow> field_vector \<Rightarrow> field_vector \<Rightarrow> nat \<Rightarrow> nat \<Rightarrow> (field_vector list \<times> field_vector list) option" where
  "range_polys al ar sl sr y z = do {
     let ys = y_powers y;
     let l_tmp = add_constant al (sc_neg z);
     h \<leftarrow> hadamard ys (add_constant ar z);
     r0 \<leftarrow> vec_add h (two_times_zs z);
     r1 \<leftarrow> hadamard sr ys;
     Some ([l_tmp, sl], [r0, r1]) }"

record range_part =
  gp_y :: nat
  gp_z :: nat
  gp_l_poly :: "field_vector list"
  gp_r_poly :: "field_vector list"
  gp_t_1 :: g1
  gp_t_2 :: g1
  gp_x :: nat
  gp_that :: nat
  gp_tau_x :: nat
  gp_mu :: nat

definition range_stage :: "digest \<Rightarrow> generators \<Rightarrow> 'r source \<Rightarrow> commit_part \<Rightarrow> nat \<Rightarrow> 'r \<Rightarrow> (range_part \<times> 'r) option" where
  "range_stage kec gens next cp w rng = do {
     let y = reduced_hash kec (to_32_be w);
     let z = reduced_hash kec (to_32_be y);
     (l_poly, r_poly) \<leftarrow> range_polys (cp_al cp) (cp_ar cp) (cp_sl cp) (cp_sr cp) y z;
     t_poly \<leftarrow> poly_inner_product l_poly r_poly;
     t1 \<leftarrow> get t_poly 1;
     let ((t_1, r_t1), rng) = pc_commit gens next t1 rng;
     t2 \<leftarrow> get t_poly 2;
     let ((t_2, r_t2), rng) = pc_commit gens next t2 rng;
     let x = challenge kec z [t_1, t_2];
     let xsquare = sc_mul x x;
     t0 \<leftarrow> get t_poly 0;
     let that = sc_add (sc_add t0 (sc_mul t1 x)) (sc_mul t2 xsquare);
     let tau_x = sc_add (sc_mul r_t1 x) (sc_mul r_t2 xsquare);
     let mu = sc_add (sc_mul (cp_r_bs cp) x) (cp_r_ba cp);
     Some (\<lparr>gp_y = y, gp_z = z, gp_l_poly = l_poly, gp_r_poly = r_poly, gp_t_1 = t_1, gp_t_2 = t_2, gp_x = x, gp_that = that,
       gp_tau_x = tau_x, gp_mu = mu\<rparr>, rng) }"

text \<open>Fourth stage: the aggregation over the ring at the powers of \<open>w\<close>.\<close>

record aggregate =
  ag_cn_r :: cipher
  ag_chi :: nat
  ag_psi :: nat
  ag_c_xr :: cipher
  ag_p_vec :: field_vector
  ag_q_vec :: field_vector
  ag_w_pow :: nat

definition aggregate_step :: "ring_part \<Rightarrow> nat \<Rightarrow> aggregate \<Rightarrow> aggregate option" where
  "aggregate_step rp i st = do {
     let w_pow = ag_w_pow st;
     ph \<leftarrow> get (phi (rp_masks rp)) i;
     cr \<leftarrow> get (chi_r (rp_masks rp)) i;
     pr \<leftarrow> get (psi_r (rp_masks rp)) i;
     cx \<leftarrow> get (rp_c_xg rp) i;
     pi \<leftarrow> get (rp_p_mat rp) i;
     p_vec \<leftarrow> vec_add (ag_p_vec st) (vec_times pi w_pow);
     qi \<leftarrow> get (rp_q_mat rp) i;
     q_vec \<leftarrow> vec_add (ag_q_vec st) (vec_times qi w_pow);
     Some \<lparr>ag_cn_r = ct_add (ag_cn_r st) (ct_mul (ct_neg ph) w_pow), ag_chi = sc_add (ag_chi st) (sc_mul cr w_pow),
       ag_psi = sc_add (ag_psi st) (sc_mul pr w_pow), ag_c_xr = ct_add (ag_c_xr st) (ct_mul (ct_neg cx) w_pow),
       ag_p_vec = p_vec, ag_q_vec = q_vec, ag_w_pow = sc_mul w_pow (rp_w rp)\<rparr> }"

definition key_sums :: "point_vector \<Rightarrow> point_vector \<Rightarrow> nat \<Rightarrow> nat \<Rightarrow> cipher \<Rightarrow> (g1 \<times> cipher \<times> nat) option" where
  "key_sums y_p y_q v n c_xr = for_each [0..<n] (\<lambda>i (y_xr, c_xr, v_pow2). do {
     let ypoly = (if i mod 2 = 1 then y_q else y_p);
     e \<leftarrow> get ypoly (i div 2);
     Some (g1_add y_xr (g_smul e v_pow2), ct_add c_xr \<lparr>left = None, right = g_smul e v_pow2\<rparr>, if i > 0 then sc_mul v_pow2 v else v_pow2) })
     (g1_infinity, c_xr, 1)"

definition aggregate_stage :: "generators \<Rightarrow> statement \<Rightarrow> transfer_witness \<Rightarrow> cipher list \<Rightarrow> cipher list \<Rightarrow> commit_part \<Rightarrow> ring_part \<Rightarrow> nat \<Rightarrow> (cipher \<times> g1 \<times> g1 \<times> cipher \<times> nat) option" where
  "aggregate_stage gens s wit c_eg cn cp rp m = do {
     let n = length (publickeylist s);
     st \<leftarrow> for_each [0..<m] (aggregate_step rp) \<lparr>ag_cn_r = \<lparr>left = None, right = g1_infinity\<rparr>, ag_chi = 0, ag_psi = 0,
       ag_c_xr = \<lparr>left = None, right = g1_infinity\<rparr>, ag_p_vec = replicate n 0, ag_q_vec = replicate n 0, ag_w_pow = 1\<rparr>;
     let w_pow = ag_w_pow st;
     i0 \<leftarrow> get (w_index wit) 0;
     i1 \<leftarrow> get (w_index wit) 1;
     cn0 \<leftarrow> get cn i0;
     let cn_r = ct_add (ag_cn_r st) (ct_mul cn0 w_pow);
     c0 \<leftarrow> get c_eg 0;
     let dr = g1_add (g_smul (right c0) w_pow) (g_smul (gen_g gens) (sc_neg (ag_chi st)));
     let g_r = g_smul (gen_g gens) (sc_sub w_pow (ag_psi st));
     ensure (i0 < n);
     let p2 = (replicate n 0)[i0 := w_pow];
     ensure (i1 < n);
     let q2 = (replicate n 0)[i1 := w_pow];
     p_vec \<leftarrow> vec_add (ag_p_vec st) p2;
     q_vec \<leftarrow> vec_add (ag_q_vec st) q2;
     y_p \<leftarrow> convolution p_vec (publickeylist s);
     y_q \<leftarrow> convolution q_vec (publickeylist s);
     (_, c_xr, _) \<leftarrow> key_sums y_p y_q (cp_v cp) n (ag_c_xr st);
     Some (cn_r, dr, g_r, c_xr, w_pow) }"

text \<open>Last stage: the sigma protocol, its challenge and responses, and the inner-product argument.\<close>

definition sigma_nonces :: "'r source \<Rightarrow> 'r \<Rightarrow> (nat \<times> nat \<times> nat \<times> nat) \<times> 'r" where
  "sigma_nonces next rng = (let (k_sk, rng) = next rng; (k_r, rng) = next rng; (k_b, rng) = next rng; (k_tau, rng) = next rng
     in ((k_sk, k_r, k_b, k_tau), rng))"

definition sigma_commitments :: "generators \<Rightarrow> g1 \<Rightarrow> cipher \<Rightarrow> g1 \<Rightarrow> g1 \<Rightarrow> cipher \<Rightarrow> nat \<Rightarrow> nat \<times> nat \<times> nat \<times> nat \<Rightarrow> g1 list" where
  "sigma_commitments gens point cn_r dr g_r c_xr z = (\<lambda>(k_sk, k_r, k_b, k_tau).
     let g = gen_g gens; (zs0, zs1) = z_powers z;
       a_y = g_smul g_r k_sk;
       a_d = g_smul g k_r;
       a_b = g_smul g k_b;
       t1p = g_smul (right cn_r) zs1;
       d1 = g_smul dr (sc_neg zs0);
       d1 = g1_add d1 t1p;
       d1 = g_smul d1 k_sk;
       a_b = g1_add a_b d1;
       a_x = g_smul (right c_xr) k_r;
       a_t = g_smul g (sc_neg k_b);
       a_t = g1_add a_t (g_smul (gen_h gens) k_tau);
       a_u = g_smul point k_sk
     in [a_y, a_d, a_b, a_x, a_t, a_u])"

definition prover_inner_product :: "digest \<Rightarrow> generators \<Rightarrow> range_part \<Rightarrow> nat \<Rightarrow> inner_product option" where
  "prover_inner_product kec gens gp c = do {
     let o' = reduced_hash kec (to_32_be c);
     let u_h = g_smul (gen_h gens) o';
     let ys = y_powers (gp_y gp);
     let ys_inv = vec_invert ys;
     hs_prime \<leftarrow> for_each [0..<length ys] (\<lambda>i acc. do { h \<leftarrow> get (gen_hs gens) i; e \<leftarrow> get ys_inv i; Some (acc @ [g_smul h e]) }) [];
     gs_full \<leftarrow> for_each [0..<length ys] (\<lambda>i acc. do { g \<leftarrow> get (gen_gs gens) i; Some (acc @ [g]) }) [];
     gvalues \<leftarrow> poly_evaluate (gp_l_poly gp) (gp_x gp);
     hvalues \<leftarrow> poly_evaluate (gp_r_poly gp) (gp_x gp);
     ip_generate kec gs_full hs_prime u_h gvalues hvalues o' }"

definition generate_proof :: "digest \<Rightarrow> generators \<Rightarrow> 'r source \<Rightarrow> byte list \<Rightarrow> nat \<Rightarrow> statement \<Rightarrow> transfer_witness \<Rightarrow> g1 \<Rightarrow> byte list \<Rightarrow> u64 \<Rightarrow> 'r \<Rightarrow> (proof_data \<times> 'r) option" where
  "generate_proof kec gens next asset asset_index s wit u txid burn rng = do {
     (c_eg, cn) \<leftarrow> ring_ciphers s;
     let m = ring_log (length (publickeylist s));
     (cp, rng) \<leftarrow> commit_stage kec gens next wit txid m rng;
     (rp, rng) \<leftarrow> ring_stage kec gens next s wit burn c_eg cn cp m rng;
     let w = rp_w rp;
     f_proof \<leftarrow> vec_add (vec_times (cp_b cp) w) (cp_a cp);
     let za = sc_add (sc_mul (cp_r_b cp) w) (cp_r_a cp);
     (gp, rng) \<leftarrow> range_stage kec gens next cp w rng;
     (cn_r, dr, g_r, c_xr, w_pow) \<leftarrow> aggregate_stage gens s wit c_eg cn cp rp m;
     let ((k_sk, k_r, k_b, k_tau), rng) = sigma_nonces next rng;
     point \<leftarrow> key_image_point kec (roothash s) asset asset_index;
     let c = challenge kec (gp_x gp) (sigma_commitments gens point cn_r dr g_r c_xr (gp_z gp) (k_sk, k_r, k_b, k_tau));
     let (zs0, zs1) = z_powers (gp_z gp);
     let ssk = sc_add (sc_mul c (secret_key wit)) k_sk;
     let sr = sc_add (sc_mul c (w_r wit)) k_r;
     let w_transfer = sc_mul (unat (transfer_amount wit)) zs0;
     let w_bal = sc_mul (unat (w_balance wit)) zs1;
     let w_tmp = sc_add w_transfer w_bal;
     let w_tmp = sc_mul w_tmp w_pow;
     let w_tmp = sc_mul w_tmp c;
     let sb = sc_add w_tmp k_b;
     let stau = sc_mul (gp_tau_x gp) w_pow;
     let stau = sc_mul stau c;
     let stau = sc_add stau k_tau;
     ip \<leftarrow> prover_inner_product kec gens gp c;
     let cols = column (rp_rows rp);
     Some (\<lparr>pf_ba = cp_ba cp, pf_bs = cp_bs cp, pf_a = cp_a_pt cp, pf_b = cp_b_pt cp, cln_g = cols 0, crn_g = cols 1, c_0g = cols 2, dg = cols 3,
       y_0g = cols 4, g_g = cols 5, c_xg = cols 6, y_xg = cols 7, pf_u = u, pf_f = f_proof, z_a = za, t_1 = gp_t_1 gp, t_2 = gp_t_2 gp,
       pf_that = gp_that gp, pf_mu = gp_mu gp, pf_c = c, s_sk = ssk, s_r = sr, s_b = sb, s_tau = stau, pf_ip = ip\<rparr>, rng) }"

section \<open>Vectors of the first stage\<close>

lemma fill_random_length: "length (fst (fill_random n next rng)) = n"
  unfolding fill_random_def by (induction n) (auto simp: Let_def split: prod.split)

lemma mask_vector_shape:
  "length (fst (mask_vector m next rng)) = 2 * m \<and> (\<forall>i\<in>{0, m}. i < 2 * m \<longrightarrow> fst (mask_vector m next rng) ! i = 0)"
proof -
  define body where "body = (\<lambda>(v, rng) i. if i = 0 \<or> i = m then (v @ [0 :: nat], rng) else let (x, rng) = next rng in (v @ [x], rng))"
  have "length (fst (foldl body ([], rng) [0..<k])) = k \<and> (\<forall>i\<in>{0, m}. i < k \<longrightarrow> fst (foldl body ([], rng) [0..<k]) ! i = 0)" for k
  proof (induction k)
    case (Suc k)
    obtain v r where v: "foldl body ([], rng) [0..<k] = (v, r)" by fastforce
    have "fst (body (v, r) k) = v @ [if k = 0 \<or> k = m then 0 else fst (next r)]" by (simp add: body_def Let_def split: prod.split)
    then have e: "fst (foldl body ([], rng) [0..<Suc k]) = v @ [if k = 0 \<or> k = m then 0 else fst (next r)]" using v by simp
    have l: "length v = k" "\<And>i. i \<in> {0, m} \<Longrightarrow> i < k \<Longrightarrow> v ! i = 0" using Suc v by auto
    have "(v @ [if k = 0 \<or> k = m then 0 else x]) ! i = 0" if i: "i \<in> {0, m}" "i < Suc k" for i x
    proof (cases "i < k")
      case True
      then show ?thesis using l(2)[OF i(1)] l(1) by (simp add: nth_append)
    next
      case False
      then show ?thesis using i l(1) by (simp add: nth_append less_Suc_eq)
    qed
    then show ?case unfolding e using l(1) by simp
  qed simp
  from this[of "2 * m"] show ?thesis unfolding mask_vector_def body_def .
qed

definition bit_char :: "nat \<Rightarrow> nat \<Rightarrow> char" where
  "bit_char n k = (if bit n k then CHR ''1'' else CHR ''0'')"

lemma bit_char_div: "bit_char (n div 2) k = bit_char n (Suc k)"
  by (simp add: bit_char_def bit_Suc)

lemma bin_digits_small: "n < 2 \<Longrightarrow> bin_digits n = [bit_char n 0]" and bin_digits_step: "2 \<le> n \<Longrightarrow> bin_digits n = bin_digits (n div 2) @ [bit_char n 0]"
  by (auto simp: bin_digits.simps[of n] bit_char_def bit_0 odd_iff_mod_2_eq_one less_2_cases_iff)

lemma bin_padded_Suc: "0 < m \<Longrightarrow> bin_padded (Suc m) n = bin_padded m (n div 2) @ [bit_char n 0]"
proof (cases "n < 2")
  case True
  assume m: "0 < m"
  have "n div 2 = 0" using True by simp
  moreover have "replicate m x = replicate (m - 1) x @ [x]" for x :: char using m by (cases m) (simp_all add: replicate_append_same)
  ultimately show ?thesis using True by (simp add: bin_padded_def bin_digits_small bit_char_def)
next
  case False
  then show ?thesis by (simp add: bin_padded_def bin_digits_step Let_def)
qed

lemma rev_bin_padded: "0 < m \<Longrightarrow> n < 2 ^ m \<Longrightarrow> rev (bin_padded m n) = map (bit_char n) [0..<m]"
proof (induction m arbitrary: n)
  case (Suc m)
  show ?case
  proof (cases "m = 0")
    case False
    then have "rev (bin_padded m (n div 2)) = map (bit_char n \<circ> Suc) [0..<m]" using Suc by (simp add: bit_char_div)
    then show ?thesis using False by (simp add: bin_padded_Suc upt_conv_Cons map_Suc_upt flip: map_map del: upt_Suc)
  qed (use Suc in \<open>simp add: bin_padded_def bin_digits_small\<close>)
qed simp

lemma position_bits:
  assumes "0 < m" "i0 < 2 ^ m" "i1 < 2 ^ m"
  shows "fst (bit_vectors (witness_index_bits i1 i0 m)) = index_bits m i0 @ index_bits m i1" "length (snd (bit_vectors (witness_index_bits i1 i0 m))) = 2 * m"
  using assms by (auto simp: bit_vectors_def witness_index_bits_def rev_bin_padded index_bits_def bit_char_def)

lemma bit_exponents_total:
  assumes "length a = 2 * m" "length b = 2 * m" "length c = 2 * m" "0 < m"
  shows "\<exists>ha hb. bit_exponents a b c m = Some (ha, hb) \<and> length ha = 2 * m + 2 \<and> length hb = 2 * m + 2"
proof -
  have "one_bit x * m < 2 * m" for x using assms(4) by (simp add: one_bit_def)
  then show ?thesis using assms by (simp add: bit_exponents_def Let_def)
qed

lemma pvc_commit_total:
  assumes "gens_ok gens" "length ge \<le> 128" "length he \<le> 128"
  shows "\<exists>p. pvc_commit gens next ge he rng = Some ((p, fst (next rng)), snd (next rng))"
proof -
  obtain r where r: "add_multiples (gen_gs gens) ge (g_smul (gen_h gens) (fst (next rng))) = Some r" "curve_inv r"
    using add_multiples_value[of ge "gen_gs gens" "g_smul (gen_h gens) (fst (next rng))"] assms by (auto simp: gens_ok_def GENERATOR_COUNT_def g1_ops_inv)
  obtain q where "add_multiples (gen_hs gens) he r = Some q"
    using add_multiples_value[of he "gen_hs gens" r] r(2) assms by (auto simp: gens_ok_def GENERATOR_COUNT_def)
  then show ?thesis using r by (cases "next rng") (simp add: pvc_commit_def)
qed

definition commit_ok :: "digest \<Rightarrow> transfer_witness \<Rightarrow> byte list \<Rightarrow> nat \<Rightarrow> nat \<Rightarrow> nat \<Rightarrow> commit_part \<Rightarrow> bool" where
  "commit_ok kec wit txid m i0 i1 cp \<longleftrightarrow> (cp_al cp, cp_ar cp) = range_bits (transfer_amount wit) (w_balance wit) \<and> length (cp_sl cp) = 128 \<and> length (cp_sr cp) = 128
    \<and> length (cp_a cp) = 2 * m \<and> cp_a cp ! 0 = 0 \<and> cp_a cp ! m = 0 \<and> cp_b cp = index_bits m i0 @ index_bits m i1
    \<and> cp_v cp = challenge kec (reduced_hash kec txid) [cp_ba cp, cp_bs cp, cp_a_pt cp, cp_b_pt cp]"

lemma range_bits_length: "range_bits t b = (al, ar) \<Longrightarrow> length al = 128 \<and> length ar = 128"
  by (auto simp: range_bits_def Let_def)

lemma commit_stage_ok:
  assumes "gens_ok gens" "0 < m" "m \<le> 28" "w_index wit = [i0, i1]" "i0 < 2 ^ m" "i1 < 2 ^ m"
  shows "\<exists>cp rng'. commit_stage kec gens next wit txid m rng = Some (cp, rng') \<and> commit_ok kec wit txid m i0 i1 cp"
proof -
  obtain al ar where ab: "range_bits (transfer_amount wit) (w_balance wit) = (al, ar)" by fastforce
  obtain b c where bc: "bit_vectors (witness_index_bits i1 i0 m) = (b, c)" by fastforce
  have b: "b = index_bits m i0 @ index_bits m i1" "length c = 2 * m" using position_bits[OF assms(2,5,6)] bc by simp_all
  note p = pvc_commit_total[OF assms(1)]
  obtain ba r1 where r1: "pvc_commit gens next al ar rng = Some ((ba, fst (next rng)), r1)" using p range_bits_length[OF ab] by (metis order_refl)
  obtain sl r2 where r2: "fill_random 128 next r1 = (sl, r2)" "length sl = 128" using fill_random_length[of 128 "next" r1] by (cases "fill_random 128 next r1") simp
  obtain sr r3 where r3: "fill_random 128 next r2 = (sr, r3)" "length sr = 128" using fill_random_length[of 128 "next" r2] by (cases "fill_random 128 next r2") simp
  obtain bs r4 where r4: "pvc_commit gens next sl sr r3 = Some ((bs, fst (next r3)), r4)" using p r2(2) r3(2) by (metis order_refl)
  obtain a r5 where r5: "mask_vector m next r4 = (a, r5)" "length a = 2 * m" "a ! 0 = 0" "a ! m = 0"
    using mask_vector_shape[of m "next" r4] assms(2) by (cases "mask_vector m next r4") simp
  have lb: "length b = 2 * m" using b(1) by (simp add: index_bits_def)
  obtain ha hb where h: "bit_exponents a b c m = Some (ha, hb)" "length ha = 2 * m + 2" "length hb = 2 * m + 2"
    using bit_exponents_total[OF r5(2) lb b(2) assms(2)] by blast
  have le: "2 * m + 2 \<le> 128" "2 * m \<le> 128" using assms(3) by simp_all
  obtain ap r6 where r6: "pvc_commit gens next a ha r5 = Some ((ap, fst (next r5)), r6)" using p r5(2) h(2) le by metis
  obtain bp r7 where r7: "pvc_commit gens next b hb r6 = Some ((bp, fst (next r6)), r7)" using p lb h(3) le by metis
  show ?thesis using ab bc r1 r2 r3 r4 r5 h r6 r7 b assms(4) by (simp add: commit_stage_def commit_ok_def Let_def)
qed

section \<open>The rows of the ring\<close>

definition mat_ok :: "nat \<Rightarrow> nat list list \<Rightarrow> bool" where
  "mat_ok m P \<longleftrightarrow> length P = m \<and> (\<forall>p\<in>set P. length p = 2 ^ m)"

definition cts_ok :: "nat \<Rightarrow> cipher list \<Rightarrow> bool" where
  "cts_ok n cs \<longleftrightarrow> length cs = n \<and> (\<forall>c\<in>set cs. left c \<noteq> None)"

definition masks_ok :: "nat \<Rightarrow> masks \<Rightarrow> bool" where
  "masks_ok m ms \<longleftrightarrow> cts_ok m (phi ms) \<and> cts_ok m (chi ms) \<and> cts_ok m (psi ms) \<and> length (chi_r ms) = m \<and> length (psi_r ms) = m"

lemma mat_okD: "mat_ok m P \<Longrightarrow> i < m \<Longrightarrow> length (P ! i) = 2 ^ m" "mat_ok m P \<Longrightarrow> length P = m"
  by (auto simp: mat_ok_def)

lemma cts_okD: "cts_ok n cs \<Longrightarrow> length cs = n" "cts_ok n cs \<Longrightarrow> i < n \<Longrightarrow> \<exists>l. left (cs ! i) = Some l"
  by (auto simp: cts_ok_def)

lemma cts_ok_snoc: "cts_ok n cs \<Longrightarrow> left c \<noteq> None \<Longrightarrow> cts_ok (Suc n) (cs @ [c])" "cts_ok 0 []"
  by (auto simp: cts_ok_def)

lemma ct_left: "left (ct_add c d) = None \<longleftrightarrow> left c = None \<and> left d = None" "left (ct_mul c x) = None \<longleftrightarrow> left c = None"
    "left (ct_plus gens c x) \<noteq> None" "left (ct_neg c) = None \<longleftrightarrow> left c = None"
  by (auto simp: ct_add_def ct_mul_def ct_plus_def ct_neg_def Let_def split: option.splits)

lemma commit_elgamal_left: "commit_elgamal gens next k v rng = ((e, r), rng') \<Longrightarrow> left e \<noteq> None"
  by (auto simp: commit_elgamal_def Let_def split: prod.splits)

lemma ring_matrices_ok:
  assumes "length a = 2 * m" "0 < m" "i0 < 2 ^ m" "i1 < 2 ^ m"
  shows "\<exists>P Q. ring_matrices a (index_bits m i0 @ index_bits m i1) m = Some (P, Q) \<and> mat_ok m P \<and> mat_ok m Q"
proof -
  have one: "\<exists>rows P. recursive_polynomials c (index_bits m i) = Some rows \<and> transpose_polynomials rows m = Some P \<and> mat_ok m P"
    if "length c = m" "i < 2 ^ m" for c i
    using half_agrees[OF that assms(2), where base = 0 and w = 0 and f = "map (\<lambda>k. f_pair 0 (sc_add (sc_mul (index_bits m i ! k) 0) (c ! k))) [0..<m]"]
    by (auto simp: mat_ok_def)
  have l: "length (index_bits m i) = m" for i by (simp add: index_bits_def)
  have "subslice a 0 m = Some (take m a)" "subslice a m (2 * m) = Some (drop m a)"
    "subslice (index_bits m i0 @ index_bits m i1) 0 m = Some (index_bits m i0)" "subslice (index_bits m i0 @ index_bits m i1) m (2 * m) = Some (index_bits m i1)"
    using assms(1) l by (simp_all add: slice_def)
  moreover obtain p P where "recursive_polynomials (take m a) (index_bits m i0) = Some p" "transpose_polynomials p m = Some P" "mat_ok m P"
    using one[of "take m a" i0] assms by auto
  moreover obtain q Q where "recursive_polynomials (drop m a) (index_bits m i1) = Some q" "transpose_polynomials q m = Some Q" "mat_ok m Q"
    using one[of "drop m a" i1] assms by auto
  ultimately show ?thesis by (simp add: ring_matrices_def)
qed

lemma ring_masks_ok: "masks_ok m (fst (ring_masks gens next k m rng))"
proof (induction m)
  case (Suc m)
  obtain ms r where ms: "ring_masks gens next k m rng = (ms, r)" by fastforce
  obtain e1 x1 r1 where 1: "commit_elgamal gens next k 0 r = ((e1, x1), r1)" by (metis prod.exhaust)
  obtain e2 x2 r2 where 2: "commit_elgamal gens next k 0 r1 = ((e2, x2), r2)" by (metis prod.exhaust)
  obtain e3 x3 r3 where 3: "commit_elgamal gens next k 0 r2 = ((e3, x3), r3)" by (metis prod.exhaust)
  have "fst (ring_masks gens next k (Suc m) rng)
    = \<lparr>phi = phi ms @ [e1], chi = chi ms @ [e2], psi = psi ms @ [e3], chi_r = chi_r ms @ [x2], psi_r = psi_r ms @ [x3]\<rparr>"
    using ms 1 2 3 unfolding ring_masks_def by (simp add: mask_step_def Let_def)
  then show ?case using Suc ms commit_elgamal_left[OF 1] commit_elgamal_left[OF 2] commit_elgamal_left[OF 3] by (simp add: masks_ok_def cts_ok_snoc)
qed (simp add: ring_masks_def masks_ok_def cts_ok_snoc)

lemma ring_ciphers_ok:
  assumes "ring_complete m s"
  shows "\<exists>ce cn. ring_ciphers s = Some (ce, cn) \<and> cts_ok (2 ^ m) ce \<and> cts_ok (2 ^ m) cn"
proof -
  have l: "length (st_c s) = 2 ^ m" "length (cln s) = 2 ^ m" "length (crn s) = 2 ^ m" using assms by (simp_all add: ring_complete_def points_ok_def)
  have "\<exists>r. ring_ciphers s = Some r \<and> cts_ok (2 ^ m) (fst r) \<and> cts_ok (2 ^ m) (snd r)"
    unfolding ring_ciphers_def l(1)
    by (rule for_each_upt_invariant[where Q = "\<lambda>n r. cts_ok n (fst r) \<and> cts_ok n (snd r)"]) (use l in \<open>auto simp: cts_ok_snoc split: prod.split\<close>)
  then show ?thesis by auto
qed

lemma points_row_total: "length ps \<le> length row \<Longrightarrow> \<exists>p. points_row ps row = Some p"
  unfolding points_row_def by (rule for_each_total) auto

lemma ciphers_row_total:
  assumes "length cs \<le> length row"
  shows "\<exists>c. ciphers_row cs row = Some c \<and> left c \<noteq> None"
  unfolding ciphers_row_def by (rule for_each_upt_invariant[where Q = "\<lambda>_ c. left c \<noteq> None"]) (use assms in \<open>auto simp: ct_left simp del: not_None_eq\<close>)

lemma those_total: "\<forall>x\<in>set xs. x \<noteq> None \<Longrightarrow> \<exists>ys. those xs = Some ys \<and> length ys = length xs"
  by (induction xs) auto

definition triple_ok :: "cipher \<times> cipher \<times> cipher \<Rightarrow> bool" where
  "triple_ok = (\<lambda>(a, b, c). left a \<noteq> None \<and> left b \<noteq> None \<and> left c \<noteq> None)"

lemma ring_row_total:
  assumes "cts_ok (2 ^ m) ce" "cts_ok (2 ^ m) cn" "mat_ok m P" "masks_ok m ms" "length (publickeylist s) = 2 ^ m" "i < m"
  shows "\<exists>r. ring_row s ce cn P ms i = Some r \<and> triple_ok r"
proof -
  have row: "get P i = Some (P ! i)" "length (P ! i) = 2 ^ m" using assms(3,6) by (simp_all add: mat_okD)
  obtain acc where acc: "ciphers_row cn (P ! i) = Some acc" "left acc \<noteq> None" using ciphers_row_total[of cn "P ! i"] row assms(2) by (auto simp: cts_okD)
  obtain ls where ls: "those (map left ce) = Some ls" "length ls = 2 ^ m" using those_total[of "map left ce"] assms(1) by (auto simp: cts_ok_def)
  obtain l where l: "points_row ls (P ! i) = Some l" using points_row_total[of ls "P ! i"] ls row by auto
  obtain k where k: "points_row (publickeylist s) (P ! i) = Some k" using points_row_total[of "publickeylist s" "P ! i"] assms(5) row by auto
  have ms: "get (phi ms) i = Some (phi ms ! i)" "get (chi ms) i = Some (chi ms ! i)" "get (psi ms) i = Some (psi ms ! i)"
    using assms(4,6) by (auto simp: masks_ok_def cts_ok_def)
  obtain a b where "left (chi ms ! i) = Some a" "left (psi ms ! i) = Some b" using assms(4,6) by (metis masks_ok_def cts_okD(2))
  then show ?thesis unfolding ring_row_def using row acc ls l k ms by (simp add: triple_ok_def ct_left del: not_None_eq)
qed

lemma ring_rows_total:
  assumes "cts_ok (2 ^ m) ce" "cts_ok (2 ^ m) cn" "mat_ok m P" "masks_ok m ms" "length (publickeylist s) = 2 ^ m"
  shows "\<exists>rows. ring_rows s ce cn P ms m = Some rows \<and> length rows = m \<and> (\<forall>r\<in>set rows. triple_ok r)"
  unfolding ring_rows_def
  by (rule for_each_upt_invariant[where Q = "\<lambda>n rows. length rows = n \<and> (\<forall>r\<in>set rows. triple_ok r)"]) (use ring_row_total[OF assms] in fastforce)+

lemma spread_masks_ok:
  assumes "0 < length ce"
  shows "\<exists>cxs rng'. spread_masks gens next ce m rng = Some (cxs, rng') \<and> cts_ok m cxs"
proof -
  define body where "body = (\<lambda>(_ :: nat) (cxs, rng). do { c0 \<leftarrow> get ce 0; let ((e, _), rng) = commit_elgamal gens next (right c0) 0 rng; Some (cxs @ [e], rng) })"
  have "\<exists>r. for_each [0..<m] body ([], rng) = Some r \<and> cts_ok m (fst r)"
  proof (rule for_each_upt_invariant[where Q = "\<lambda>n r. cts_ok n (fst r)"])
    fix k and r :: "cipher list \<times> 'a" assume "k < m" and r: "cts_ok k (fst r)"
    obtain e x r' where e: "commit_elgamal gens next (right (ce ! 0)) 0 (snd r) = ((e, x), r')" by (metis prod.exhaust)
    have "body k r = Some (fst r @ [e], r')" using e assms by (cases r) (simp add: body_def)
    then show "\<exists>r'. body k r = Some r' \<and> cts_ok (Suc k) (fst r')" using cts_ok_snoc(1)[OF r commit_elgamal_left[OF e]] by simp
  qed (simp add: cts_ok_snoc)
  then show ?thesis unfolding spread_masks_def body_def by auto
qed

lemma spread_entry_ok:
  assumes "mat_ok m P" "w_index wit = [i0, i1]" "cts_ok m cxs" "j < m"
  shows "\<exists>cxs'. spread_entry gens s wit burn P (2 ^ m) i vp j cxs = Some cxs' \<and> cts_ok m cxs'"
proof -
  have i: "i mod 2 ^ m < length (P ! j)" for i using mat_okD(1)[OF assms(1,4)] by simp
  have "cts_ok m (cxs[j := ct_plus gens (cxs ! j) x])" for x using assms(3) set_update_subset_insert[of cxs j] ct_left(3)
    by (fastforce simp: cts_ok_def simp del: not_None_eq)
  then show ?thesis using assms i mat_okD(2)[OF assms(1)] unfolding spread_entry_def by (simp add: Let_def)
qed

lemma spread_amounts_ok:
  assumes "mat_ok m P" "mat_ok m Q" "w_index wit = [i0, i1]" "cts_ok m cxs"
  shows "\<exists>cxs'. spread_amounts gens s wit burn P Q (2 ^ m) v cxs = Some cxs' \<and> cts_ok m cxs'"
proof -
  define row where "row i cxs vp = for_each [0..<length cxs] (spread_entry gens s wit burn (if i mod 2 = 0 then P else Q) (2 ^ m) i vp) cxs" for i cxs vp
  have row: "\<exists>c. row i cxs vp = Some c \<and> cts_ok m c" if "cts_ok m cxs" for i cxs vp
  proof -
    have "mat_ok m (if i mod 2 = 0 then P else Q)" using assms(1,2) by simp
    from spread_entry_ok[OF this assms(3)] show ?thesis unfolding row_def cts_okD(1)[OF that]
      by (intro for_each_upt_invariant[where Q = "\<lambda>_. cts_ok m"]) (use that in auto)
  qed
  have "\<exists>r. for_each [0..<2 ^ m] (\<lambda>i (cxs, vp). do { cxs \<leftarrow> row i cxs vp; Some (cxs, if i \<noteq> 0 then sc_mul vp v else vp) }) (cxs, 1) = Some r \<and> cts_ok m (fst r)"
  proof (rule for_each_upt_invariant[where Q = "\<lambda>_ r. cts_ok m (fst r)"])
    fix k :: nat and r :: "cipher list \<times> nat" assume "cts_ok m (fst r)"
    with row[of "fst r" k "snd r"] show "\<exists>a'. (case r of (cxs, vp) \<Rightarrow> do { cxs \<leftarrow> row k cxs vp; Some (cxs, if k \<noteq> 0 then sc_mul vp v else vp) }) = Some a' \<and> cts_ok m (fst a')"
      by (cases r) auto
  qed (use assms(4) in simp)
  then show ?thesis unfolding spread_amounts_def row_def Let_def by auto
qed

lemma proof_rows_ok:
  assumes "length rows = m" "\<forall>r\<in>set rows. triple_ok r" "cts_ok m cxs"
  shows "\<exists>prs. proof_rows rows cxs m = Some prs \<and> length prs = m \<and> (\<forall>r\<in>set prs. length r = 8)"
  unfolding proof_rows_def
proof (rule for_each_upt_invariant[where Q = "\<lambda>n prs. length prs = n \<and> (\<forall>r\<in>set prs. length r = 8)"])
  fix i and acc :: "g1 list list" assume i: "i < m" "length acc = i \<and> (\<forall>r\<in>set acc. length r = 8)"
  have "triple_ok (rows ! i)" using assms(1,2) i(1) by simp
  then obtain a b c where r: "rows ! i = (a, b, c)" "left a \<noteq> None" "left b \<noteq> None" "left c \<noteq> None" by (auto simp: triple_ok_def)
  obtain x where x: "left (cxs ! i) = Some x" using cts_okD(2)[OF assms(3) i(1)] by blast
  have "\<exists>pr. proof_row (rows ! i) (cxs ! i) = Some pr \<and> length pr = 8" using r x by (auto simp: proof_row_def)
  then show "\<exists>a'. (do { c \<leftarrow> get cxs i; r \<leftarrow> get rows i; pr \<leftarrow> proof_row r c; Some (acc @ [pr]) }) = Some a'
      \<and> length a' = Suc i \<and> (\<forall>r\<in>set a'. length r = 8)" using i assms(1) cts_okD(1)[OF assms(3)] by auto
qed simp

definition ring_ok :: "digest \<Rightarrow> nat \<Rightarrow> commit_part \<Rightarrow> ring_part \<Rightarrow> bool" where
  "ring_ok kec m cp rp \<longleftrightarrow> mat_ok m (rp_p_mat rp) \<and> mat_ok m (rp_q_mat rp) \<and> masks_ok m (rp_masks rp) \<and> cts_ok m (rp_c_xg rp)
    \<and> length (rp_rows rp) = m \<and> rp_w rp = challenge kec (cp_v cp) (concat (map (column (rp_rows rp)) [0..<8]))"

lemma ring_stage_ok:
  assumes "ring_complete m s" "0 < m" "commit_ok kec wit txid m i0 i1 cp" "w_index wit = [i0, i1]" "i0 < 2 ^ m" "i1 < 2 ^ m"
    "cts_ok (2 ^ m) ce" "cts_ok (2 ^ m) cn"
  shows "\<exists>rp rng'. ring_stage kec gens next s wit burn ce cn cp m rng = Some (rp, rng') \<and> ring_ok kec m cp rp"
proof -
  have n: "length (publickeylist s) = 2 ^ m" using assms(1) by (simp add: ring_complete_def points_ok_def)
  obtain P Q where P: "ring_matrices (cp_a cp) (cp_b cp) m = Some (P, Q)" "mat_ok m P" "mat_ok m Q"
    using ring_matrices_ok[of "cp_a cp" m i0 i1] assms(2,3,5,6) by (auto simp: commit_ok_def)
  obtain ms r1 where ms: "ring_masks gens next (publickeylist s ! i0) m rng = (ms, r1)" "masks_ok m ms"
    using ring_masks_ok[of m gens "next" "publickeylist s ! i0" rng] by (cases "ring_masks gens next (publickeylist s ! i0) m rng") simp
  obtain rows where rows: "ring_rows s ce cn P ms m = Some rows" "length rows = m" "\<forall>r\<in>set rows. triple_ok r"
    using ring_rows_total[OF assms(7,8) P(2) ms(2) n] by blast
  obtain cx r2 where cx: "spread_masks gens next ce m r1 = Some (cx, r2)" "cts_ok m cx" using spread_masks_ok[of ce gens "next" m r1] cts_okD(1)[OF assms(7)] by auto
  obtain cx' where cx': "spread_amounts gens s wit burn P Q (2 ^ m) (cp_v cp) cx = Some cx'" "cts_ok m cx'"
    using spread_amounts_ok[OF P(2,3) assms(4) cx(2)] by blast
  obtain prs where prs: "proof_rows rows cx' m = Some prs" "length prs = m" using proof_rows_ok[OF rows(2,3) cx'(2)] by blast
  show ?thesis using P ms rows cx cx' prs assms(4,5) n by (simp add: ring_stage_def ring_ok_def Let_def)
qed

section \<open>The aggregation and the inner product\<close>

lemma aggregate_step_ok:
  assumes "ring_ok kec m cp rp" "i < m" "length (ag_p_vec st) = 2 ^ m" "length (ag_q_vec st) = 2 ^ m"
  shows "\<exists>st'. aggregate_step rp i st = Some st' \<and> length (ag_p_vec st') = 2 ^ m \<and> length (ag_q_vec st') = 2 ^ m"
proof -
  have "get (phi (rp_masks rp)) i = Some (phi (rp_masks rp) ! i)" "get (chi_r (rp_masks rp)) i = Some (chi_r (rp_masks rp) ! i)"
    "get (psi_r (rp_masks rp)) i = Some (psi_r (rp_masks rp) ! i)" "get (rp_c_xg rp) i = Some (rp_c_xg rp ! i)"
    "get (rp_p_mat rp) i = Some (rp_p_mat rp ! i)" "get (rp_q_mat rp) i = Some (rp_q_mat rp ! i)"
    using assms(1,2) by (auto simp: ring_ok_def masks_ok_def cts_ok_def mat_ok_def)
  moreover have "length (rp_p_mat rp ! i) = 2 ^ m" "length (rp_q_mat rp ! i) = 2 ^ m" using assms(1,2) by (auto simp: ring_ok_def mat_okD)
  ultimately show ?thesis using assms(3,4) by (simp add: aggregate_step_def Let_def vec_times_def)
qed

lemma key_sums_total: "n \<le> 2 * length yp \<Longrightarrow> length yq = length yp \<Longrightarrow> \<exists>r. key_sums yp yq v n c = Some r"
  unfolding key_sums_def by (rule for_each_total) (auto simp: Let_def split: prod.split)

lemma aggregate_stage_total:
  assumes "ring_complete m s" "0 < m" "m \<le> 28" "ring_ok kec m cp rp" "w_index wit = [i0, i1]" "i0 < 2 ^ m" "i1 < 2 ^ m"
    "cts_ok (2 ^ m) ce" "cts_ok (2 ^ m) cn"
  shows "\<exists>r. aggregate_stage gens s wit ce cn cp rp m = Some r"
proof -
  obtain k where k: "m = Suc k" using assms(2) by (cases m) auto
  have pk: "points_ok (2 ^ Suc k) (publickeylist s)" using assms(1) by (simp add: ring_complete_def k)
  then have n: "length (publickeylist s) = 2 ^ m" by (simp add: points_ok_def k)
  define st0 where "st0 = \<lparr>ag_cn_r = \<lparr>left = None, right = g1_infinity\<rparr>, ag_chi = 0, ag_psi = 0,
       ag_c_xr = \<lparr>left = None, right = g1_infinity\<rparr>, ag_p_vec = replicate (2 ^ m) 0, ag_q_vec = replicate (2 ^ m) 0, ag_w_pow = 1\<rparr>"
  obtain st where st: "for_each [0..<m] (aggregate_step rp) st0 = Some st" "length (ag_p_vec st) = 2 ^ m" "length (ag_q_vec st) = 2 ^ m"
    using for_each_upt_invariant[where Q = "\<lambda>_ st. length (ag_p_vec st) = 2 ^ m \<and> length (ag_q_vec st) = 2 ^ m" and f = "aggregate_step rp" and a = st0 and n = m]
      aggregate_step_ok[OF assms(4)] by (auto simp: st0_def)
  define p q where "p = map2 sc_add (ag_p_vec st) ((replicate (2 ^ m) 0)[i0 := ag_w_pow st])" and "q = map2 sc_add (ag_q_vec st) ((replicate (2 ^ m) 0)[i1 := ag_w_pow st])"
  have l: "length p = 2 ^ Suc k" "length q = 2 ^ Suc k" using st by (simp_all add: p_def q_def k)
  obtain yp yq where y: "convolution p (publickeylist s) = Some yp" "length yp = 2 ^ k" "convolution q (publickeylist s) = Some yq" "length yq = 2 ^ k"
    using convolution_ok[OF l(1) pk] convolution_ok[OF l(2) pk] assms(3) by (auto simp: k points_ok_def)
  obtain a b c where "key_sums yp yq (cp_v cp) (2 ^ m) (ag_c_xr st) = Some (a, b, c)" using key_sums_total[of "2 ^ m" yp yq "cp_v cp" "ag_c_xr st"] y k by auto
  moreover have "get cn i0 = Some (cn ! i0)" "get ce 0 = Some (ce ! 0)" using assms(6,8,9) by (simp_all add: cts_okD)
  ultimately show ?thesis using st[unfolded st0_def] y assms(5-7) unfolding aggregate_stage_def n by (simp add: Let_def p_def q_def)
qed

lemma prover_inner_product_ok:
  assumes "gens_ok gens" "gp_l_poly gp = [l0, l1]" "gp_r_poly gp = [r0, r1]" "\<forall>v\<in>{l0, l1, r0, r1}. length v = 128"
  shows "\<exists>ip. prover_inner_product kec gens gp c = Some ip \<and> length (ip_ls ip) = 7 \<and> length (ip_rs ip) = 7"
proof -
  let ?ys = "y_powers (gp_y gp)"
  have g: "length (gen_gs gens) = 128" "length (gen_hs gens) = 128" "\<And>p. p \<in> set (gen_gs gens) \<union> set (gen_hs gens) \<Longrightarrow> curve_inv p" "curve_inv (gen_h gens)"
    using assms(1) by (auto simp: gens_ok_def GENERATOR_COUNT_def)
  have l: "length ?ys = 128" "length (vec_invert ?ys) = 128" by (simp_all add: y_powers_spec(1) vec_invert_def)
  obtain hs where hs: "for_each [0..<128] (\<lambda>i acc. do { h \<leftarrow> get (gen_hs gens) i; e \<leftarrow> get (vec_invert ?ys) i; Some (acc @ [g_smul h e]) }) [] = Some hs" "points_ok 128 hs"
    using for_each_upt_invariant[where Q = points_ok and f = "\<lambda>i acc. do { h \<leftarrow> get (gen_hs gens) i; e \<leftarrow> get (vec_invert ?ys) i; Some (acc @ [g_smul h e]) }" and a = "[]" and n = 128]
      g l by (auto simp: points_ok_def g1_ops_inv)
  obtain gs where gs: "for_each [0..<128] (\<lambda>i acc. do { g \<leftarrow> get (gen_gs gens) i; Some (acc @ [g]) }) [] = Some gs" "points_ok 128 gs"
    using for_each_upt_invariant[where Q = points_ok and f = "\<lambda>i acc. do { g \<leftarrow> get (gen_gs gens) i; Some (acc @ [g]) }" and a = "[]" and n = 128]
      g by (auto simp: points_ok_def)
  obtain gv hv where v: "poly_evaluate [l0, l1] (gp_x gp) = Some gv" "length gv = 128" "poly_evaluate [r0, r1] (gp_x gp) = Some hv" "length hv = 128"
    using poly_evaluate_value[of "[l0, l1]" 128 "gp_x gp"] poly_evaluate_value[of "[r0, r1]" 128 "gp_x gp"] assms(4) by auto
  have "(2 :: nat) ^ 7 = 128" by simp
  then have "\<exists>ip. ip_generate kec gs hs (g_smul (gen_h gens) o') gv hv o' = Some ip \<and> length (ip_ls ip) = 7 \<and> length (ip_rs ip) = 7" for o'
    using ip_recurse_value[of gv 7 hv gs hs "g_smul (gen_h gens) o'" kec o' "[]" "[]"] v gs hs g(4) by (auto simp: ip_generate_def points_ok_def g1_ops_inv)
  then show ?thesis unfolding prover_inner_product_def Let_def using hs(1) gs(1) v(1,3) l assms(2,3) by simp
qed

end
