(* ===== verification/ProofRange.thy ===== *)
theory ProofRange
  imports ProofGenerate
begin

text \<open>
  What the generated proofs satisfy. The range argument of \<open>generate_proof\<close> and \<open>Proof::verify\<close> (\<open>cryptography/crypto/src/proof.rs\<close>): the constant the verifier
  takes off \<open>that\<close> is the part of the inner product that does not depend on the amounts. Two properties close the development of the prover: it returns a proof
  on which the verifier returns, with the exact condition of the parity check, and the verifier's value for \<open>t\<close> is the one the amounts determine.
\<close>

section \<open>The range identity\<close>

lemma bits_sum: "(\<Sum>i<k. n div 2 ^ i mod 2 * 2 ^ i) = n mod 2 ^ k" for n :: nat
proof (induction k)
  case (Suc k)
  have "n mod 2 ^ Suc k = n mod 2 ^ k + 2 ^ k * (n div 2 ^ k mod 2)" using mod_mult2_eq[of n "2 ^ k" 2] by (simp add: mult.commute)
  then show ?case using Suc by (simp add: mult.commute)
qed simp

lemma sgr_order_sub: "b \<le> order \<Longrightarrow> sgr (int ((order + a - b) mod order)) (int a - int b)"
proof -
  assume "b \<le> order"
  then have "int (order + a - b) = int order + (int a - int b)" by simp
  then show ?thesis by (simp only: sgr_def zmod_int mod_mod_trivial mod_add_self1)
qed

lemma z_powers_value: "z_powers z = (zs0, zs1) \<Longrightarrow> sgr (int zs0) (int z ^ 2) \<and> sgr (int zs1) (int z ^ 3) \<and> zs0 < order \<and> zs1 < order"
  by (auto simp: z_powers_def modpow_def sgr_def zmod_int order_pos)

lemma sum_fold:
  assumes "0 < n" "ys ! 0 = 1"
  shows "sgr (int (foldl (\<lambda>k i. (k + ys ! i) mod order) 1 [1..<n])) (\<Sum>i<n. int (ys ! i))"
  using assms(1)
proof (induction n)
  case (Suc n)
  show ?case
  proof (cases "n = 0")
    case False
    then have "sgr (int (foldl (\<lambda>k i. (k + ys ! i) mod order) 1 [1..<n])) (\<Sum>i<n. int (ys ! i))" using Suc by simp
    from sgr_add[OF this sgr_refl[of "int (ys ! n)"]] show ?thesis using False by (simp add: sgr_def zmod_int)
  qed (simp add: assms(2))
qed simp

lemma range_constant_value:
  "sgr (int (range_constant y z)) ((\<Sum>i<128. int y ^ i) * (int z - int z ^ 2) - (int z ^ 2 + int z ^ 3) * int z * (2 ^ 64 - 1))"
proof -
  obtain zs0 zs1 where z: "z_powers z = (zs0, zs1)" by fastforce
  note zs = z_powers_value[OF z]
  define k where "k = foldl (\<lambda>k i. (k + y_powers y ! i) mod order) 1 [1..<128]"
  define s where "s = ((zs0 + zs1) mod order * z) mod order"
  have "y_powers y ! 0 = 1" using sgr_nat_eq[of "y_powers y ! 0" 1] y_powers_spec(2,3)[of 0 y] by (simp add: order_value)
  then have "sgr (int k) (\<Sum>i<128. int (y_powers y ! i))" unfolding k_def by (intro sum_fold) simp_all
  also have "sgr \<dots> (\<Sum>i<128. int y ^ i)" by (intro sgr_sum) (simp add: y_powers_spec(2))
  finally have k: "sgr (int k) (\<Sum>i<128. int y ^ i)" .
  have "sgr (int s) ((int zs0 + int zs1) * int z)" by (simp add: s_def sgr_def zmod_int mod_mult_left_eq)
  also have "sgr \<dots> ((int z ^ 2 + int z ^ 3) * int z)" using zs by (intro sgr_mult sgr_add sgr_refl) simp_all
  finally have s: "sgr (int s) ((int z ^ 2 + int z ^ 3) * int z)" .
  have sl: "s < order" by (simp add: s_def order_pos)
  define d where "d = (order + s * 2 ^ 64 mod order - s) mod order"
  have "sgr (int (s * 2 ^ 64 mod order)) (int s * 2 ^ 64)" by (simp add: sgr_def zmod_int)
  then have "sgr (int d) (int s * 2 ^ 64 - int s)" unfolding d_def using sl by (intro sgr_trans[OF sgr_order_sub] sgr_diff sgr_refl) simp_all
  also have "sgr (int s * 2 ^ 64 - int s) ((int z ^ 2 + int z ^ 3) * int z * 2 ^ 64 - (int z ^ 2 + int z ^ 3) * int z)"
    using s by (intro sgr_diff sgr_mult sgr_refl)
  finally have d: "sgr (int d) ((int z ^ 2 + int z ^ 3) * int z * (2 ^ 64 - 1))" by (simp add: algebra_simps)
  define e where "e = (k * ((order + z - zs0) mod order)) mod order"
  have "sgr (int e) (int k * int ((order + z - zs0) mod order))" by (simp add: e_def sgr_def zmod_int)
  also have "sgr \<dots> ((\<Sum>i<128. int y ^ i) * (int z - int z ^ 2))"
    using zs by (intro sgr_mult k sgr_trans[OF sgr_order_sub] sgr_diff sgr_refl) simp_all
  finally have e: "sgr (int e) ((\<Sum>i<128. int y ^ i) * (int z - int z ^ 2))" .
  have "range_constant y z = (order + e - d) mod order" unfolding range_constant_def Let_def z prod.case e_def d_def s_def k_def by simp
  then show ?thesis using sgr_trans[OF sgr_order_sub sgr_diff[OF e d]] order_pos by (simp add: d_def less_imp_le)
qed

lemma verifier_t_value: "sgr (int (verifier_t t y z)) (int t - int (range_constant y z))"
proof -
  have "sgr (int (verifier_t t y z)) (int t - int (range_constant y z mod order))"
    unfolding verifier_t_def using order_pos by (intro sgr_order_sub) (simp add: less_imp_le)
  also have "sgr \<dots> (int t - int (range_constant y z))" by (intro sgr_diff sgr_refl) (simp add: sgr_nat)
  finally show ?thesis .
qed

lemma two_times_zs_value:
  "length (two_times_zs z) = 128" "i < 64 \<Longrightarrow> sgr (int (two_times_zs z ! i)) (int z ^ 2 * 2 ^ i)" "i < 64 \<Longrightarrow> sgr (int (two_times_zs z ! (64 + i))) (int z ^ 3 * 2 ^ i)"
proof -
  obtain zs0 zs1 where z: "z_powers z = (zs0, zs1)" by fastforce
  note zs = z_powers_value[OF z]
  have t: "twos = omega_powers 2 64" by (simp add: twos_def omega_powers_def)
  have tw: "length twos = 64" "\<And>i. i < 64 \<Longrightarrow> sgr (int (twos ! i)) (2 ^ i)" using omega_powers_spec[of 64 2] by (simp_all add: t)
  have e: "two_times_zs z = map (sc_mul zs0) twos @ map (sc_mul zs1) twos" by (simp add: two_times_zs_def z)
  show "length (two_times_zs z) = 128" by (simp add: e tw)
  have m: "sgr (int (map (sc_mul c) twos ! i)) (x * 2 ^ i)" if "sgr (int c) x" "i < 64" for c x i
    using sgr_trans[OF sgr_sc_mul sgr_mult[OF that(1) tw(2)[OF that(2)]]] that(2) tw(1) by simp
  show "i < 64 \<Longrightarrow> sgr (int (two_times_zs z ! i)) (int z ^ 2 * 2 ^ i)" using m[of zs0 "int z ^ 2" i] zs tw(1) by (simp add: e nth_append)
  show "i < 64 \<Longrightarrow> sgr (int (two_times_zs z ! (64 + i))) (int z ^ 3 * 2 ^ i)" using m[of zs1 "int z ^ 3" i] zs tw(1) by (simp add: e nth_append)
qed

text \<open>The constant term of the inner product of the two polynomials: the amounts, weighted by the powers of \<open>z\<close>, and the constant the verifier takes off.\<close>

lemma weighted_bits:
  fixes z y :: int and B :: "nat \<Rightarrow> nat"
  assumes "\<And>i. B i < 2"
  shows "(\<Sum>i<128. (int (B i) - z) * (y ^ i * (int (B i) - 1 + z) + (if i < 64 then z ^ 2 * 2 ^ i else z ^ 3 * 2 ^ (i - 64))))
    = (\<Sum>i<128. y ^ i) * (z - z ^ 2) - (z ^ 2 + z ^ 3) * z * (2 ^ 64 - 1) + z ^ 2 * int (\<Sum>i<64. B i * 2 ^ i) + z ^ 3 * int (\<Sum>i<64. B (64 + i) * 2 ^ i)"
proof -
  define d where "d i = (if i < 64 then z ^ 2 * 2 ^ i else z ^ 3 * 2 ^ (i - 64))" for i :: nat
  have d: "d i = z ^ 2 * 2 ^ i" "d (64 + i) = z ^ 3 * 2 ^ i" if "i < 64" for i using that by (simp_all add: d_def)
  have t: "(int (B i) - z) * (y ^ i * (int (B i) - 1 + z) + d i) = y ^ i * (z - z ^ 2) + int (B i) * d i - z * d i" for i
  proof -
    have "int (B i) * int (B i) = int (B i)" using assms[of i] by (auto simp: less_2_cases_iff)
    then have "(int (B i) - z) * (int (B i) - 1 + z) = z - z ^ 2" by (simp add: algebra_simps power2_eq_square)
    moreover have "(int (B i) - z) * (y ^ i * (int (B i) - 1 + z) + d i) = y ^ i * ((int (B i) - z) * (int (B i) - 1 + z)) + int (B i) * d i - z * d i"
      by (simp add: algebra_simps)
    ultimately show ?thesis by simp
  qed
  have h: "(\<Sum>i<128. f i) = (\<Sum>i<64. f i) + (\<Sum>i<64. f (64 + i))" for f :: "nat \<Rightarrow> int"
    using sum_halves[of f 64] by (simp add: sum.distrib)
  have g: "(\<Sum>i<n. (2 :: int) ^ i) = 2 ^ n - 1" for n by (induction n) simp_all
  have "(\<Sum>i<128. d i) = (\<Sum>i<64. z ^ 2 * 2 ^ i) + (\<Sum>i<64. z ^ 3 * 2 ^ i)"
    unfolding h by (intro arg_cong2[where f = "(+)"] sum.cong) (simp_all add: d)
  then have ds: "(\<Sum>i<128. d i) = (z ^ 2 + z ^ 3) * (2 ^ 64 - 1)" by (simp only: g distrib_right flip: sum_distrib_left)
  have "(\<Sum>i<128. int (B i) * d i) = (\<Sum>i<64. z ^ 2 * int (B i * 2 ^ i)) + (\<Sum>i<64. z ^ 3 * int (B (64 + i) * 2 ^ i))"
    unfolding h by (intro arg_cong2[where f = "(+)"] sum.cong) (simp_all only: d lessThan_iff of_nat_mult of_nat_power of_nat_numeral mult_ac)
  then have bs: "(\<Sum>i<128. int (B i) * d i) = z ^ 2 * int (\<Sum>i<64. B i * 2 ^ i) + z ^ 3 * int (\<Sum>i<64. B (64 + i) * 2 ^ i)"
    by (simp add: sum_distrib_left)
  show ?thesis unfolding d_def[symmetric] t sum_subtractf sum.distrib
    by (simp only: bs ds flip: sum_distrib_left sum_distrib_right) (simp only: algebra_simps)
qed

lemma amount_bits:
  fixes t b :: u64
  defines "N \<equiv> unat t + unat b * 2 ^ 64"
  shows "(\<Sum>i<64. N div 2 ^ i mod 2 * 2 ^ i) = unat t" "(\<Sum>i<64. N div 2 ^ (64 + i) mod 2 * 2 ^ i) = unat b"
proof -
  have t: "unat t < 2 ^ 64" "unat b < 2 ^ 64" by (simp_all only: unat_u64_less)
  then show "(\<Sum>i<64. N div 2 ^ i mod 2 * 2 ^ i) = unat t" by (simp only: bits_sum N_def mod_mult_self1 mod_less)
  have "N div 2 ^ 64 = unat b" using t(1) unfolding N_def by simp
  then show "(\<Sum>i<64. N div 2 ^ (64 + i) mod 2 * 2 ^ i) = unat b" using t(2) by (simp only: power_add div_mult2_eq bits_sum mod_less)
qed

lemma range_inner_product:
  assumes "range_bits t b = (al, ar)" "length sl = 128" "length sr = 128"
  shows "\<exists>l0 r0 r1. range_polys al ar sl sr y z = Some ([l0, sl], [r0, r1]) \<and> length l0 = 128 \<and> length r0 = 128 \<and> length r1 = 128
    \<and> sgr (ipv l0 r0) (int (range_constant y z) + int z ^ 2 * int (unat t) + int z ^ 3 * int (unat b))"
proof -
  define N where "N = unat t + unat b * 2 ^ 64"
  define B where "B i = N div 2 ^ i mod 2" for i
  have al: "al = map (\<lambda>i. if B i = 1 then 1 else 0) [0..<128]" "ar = map (\<lambda>i. if B i = 1 then 0 else order - 1) [0..<128]"
    using assms(1) by (simp_all add: range_bits_def Let_def N_def B_def)
  have B: "B i < 2" for i by (simp add: B_def)
  have bits: "int (al ! i) = int (B i)" "sgr (int (ar ! i)) (int (B i) - 1)" if "i < 128" for i
  proof -
    have "sgr (int (order - 1)) (- 1)" unfolding sgr_iff_dvd
    proof -
      have "int (order - 1) - - 1 = int order" using order_pos by linarith
      then show "int order dvd int (order - 1) - - 1" by simp
    qed
    then show "int (al ! i) = int (B i)" "sgr (int (ar ! i)) (int (B i) - 1)" using B[of i] that by (auto simp: al less_2_cases_iff)
  qed
  define l0 where "l0 = add_constant al (sc_neg z)"
  define r0 where "r0 = map2 sc_add (map2 sc_mul (y_powers y) (add_constant ar z)) (two_times_zs z)"
  have len: "length al = 128" "length ar = 128" by (simp_all add: al)
  have l: "length l0 = 128" "length r0 = 128" using len by (simp_all add: l0_def r0_def add_constant_def y_powers_spec(1) two_times_zs_value(1))
  have p: "range_polys al ar sl sr y z = Some ([l0, sl], [r0, map2 sc_mul sr (y_powers y)])"
    using len assms by (simp add: range_polys_def l0_def r0_def add_constant_def y_powers_spec(1) two_times_zs_value(1) Let_def)
  have d: "sgr (int (two_times_zs z ! i)) (if i < 64 then int z ^ 2 * 2 ^ i else int z ^ 3 * 2 ^ (i - 64))" if "i < 128" for i
    using two_times_zs_value(2)[of i z] two_times_zs_value(3)[of "i - 64" z] that by (cases "i < 64") auto
  have "sgr (ipv l0 r0) (\<Sum>i<128. (int (B i) - int z) * (int y ^ i * (int (B i) - 1 + int z) + (if i < 64 then int z ^ 2 * 2 ^ i else int z ^ 3 * 2 ^ (i - 64))))"
  proof (rule ipv_cong[OF l(1)])
    fix i :: nat assume i: "i < 128"
    have "sgr (int (l0 ! i)) (int (al ! i) + int (sc_neg z))" using i len by (simp add: l0_def add_constant_def sgr_sc_add)
    also have "sgr \<dots> (int (B i) - int z)" using sgr_add[OF sgr_refl sgr_sc_neg[of z]] bits(1)[OF i] by simp
    finally show "sgr (int (l0 ! i)) (int (B i) - int z)" .
    have "sgr (int (sc_add (ar ! i) z)) (int (B i) - 1 + int z)" using sgr_trans[OF sgr_sc_add sgr_add[OF bits(2)[OF i] sgr_refl]] .
    from sgr_trans[OF sgr_sc_mul sgr_mult[OF y_powers_spec(2)[OF i] this]]
    have m: "sgr (int (sc_mul (y_powers y ! i) (sc_add (ar ! i) z))) (int y ^ i * (int (B i) - 1 + int z))" .
    have "r0 ! i = sc_add (sc_mul (y_powers y ! i) (sc_add (ar ! i) z)) (two_times_zs z ! i)"
      using i len by (simp add: r0_def add_constant_def y_powers_spec(1) two_times_zs_value(1))
    then show "sgr (int (r0 ! i)) (int y ^ i * (int (B i) - 1 + int z) + (if i < 64 then int z ^ 2 * 2 ^ i else int z ^ 3 * 2 ^ (i - 64)))"
      using sgr_trans[OF sgr_sc_add sgr_add[OF m d[OF i]]] by simp
  qed
  also note weighted_bits[OF B]
  also have "(\<Sum>i<64. B i * 2 ^ i) = unat t" using amount_bits(1)[of t b] by (simp only: B_def N_def)
  also have "(\<Sum>i<64. B (64 + i) * 2 ^ i) = unat b" using amount_bits(2)[of t b] by (simp only: B_def N_def)
  finally have "sgr (ipv l0 r0) (((\<Sum>i<128. int y ^ i) * (int z - int z ^ 2) - (int z ^ 2 + int z ^ 3) * int z * (2 ^ 64 - 1)) + int z ^ 2 * int (unat t) + int z ^ 3 * int (unat b))" .
  also have "sgr \<dots> (int (range_constant y z) + int z ^ 2 * int (unat t) + int z ^ 3 * int (unat b))"
    by (intro sgr_add sgr_refl sgr_sym[OF range_constant_value])
  finally show ?thesis using p l assms(3) by (simp add: y_powers_spec(1))
qed

lemma range_stage_ok:
  assumes "commit_ok kec wit txid m i0 i1 cp"
  shows "\<exists>gp rng' l0 l1 r0 r1 t1 b1 t2 b2. range_stage kec gens next cp w rng = Some (gp, rng')
    \<and> gp_l_poly gp = [l0, l1] \<and> gp_r_poly gp = [r0, r1] \<and> (\<forall>v\<in>{l0, l1, r0, r1}. length v = 128)
    \<and> gp_y gp = reduced_hash kec (to_32_be w) \<and> gp_z gp = reduced_hash kec (to_32_be (gp_y gp)) \<and> gp_x gp = challenge kec (gp_z gp) [gp_t_1 gp, gp_t_2 gp]
    \<and> gp_t_1 gp = g1_add (g_smul (gen_g gens) t1) (g_smul (gen_h gens) b1) \<and> gp_t_2 gp = g1_add (g_smul (gen_g gens) t2) (g_smul (gen_h gens) b2)
    \<and> sgr (int (verifier_t (gp_that gp) (gp_y gp) (gp_z gp)))
        (int (gp_z gp) ^ 2 * int (unat (transfer_amount wit)) + int (gp_z gp) ^ 3 * int (unat (w_balance wit)) + int t1 * int (gp_x gp) + int t2 * int (gp_x gp) ^ 2)"
proof -
  define y where "y = reduced_hash kec (to_32_be w)"
  define z where "z = reduced_hash kec (to_32_be y)"
  have c: "range_bits (transfer_amount wit) (w_balance wit) = (cp_al cp, cp_ar cp)" "length (cp_sl cp) = 128" "length (cp_sr cp) = 128"
    using assms by (simp_all add: commit_ok_def)
  obtain l0 r0 r1 where p: "range_polys (cp_al cp) (cp_ar cp) (cp_sl cp) (cp_sr cp) y z = Some ([l0, cp_sl cp], [r0, r1])" "length l0 = 128" "length r0 = 128" "length r1 = 128"
    "sgr (ipv l0 r0) (int (range_constant y z) + int z ^ 2 * int (unat (transfer_amount wit)) + int z ^ 3 * int (unat (w_balance wit)))"
    using range_inner_product[OF c] by blast
  obtain ts where ts: "poly_inner_product [l0, cp_sl cp] [r0, r1] = Some ts" "length ts = 3" "sgr (pval 0 ts) (ipv l0 r0)"
  proof -
    have "length v = 128" if "v \<in> set [l0, cp_sl cp] \<union> set [r0, r1]" for v using that p(2-4) c(2) by auto
    from poly_inner_product_value[OF _ _ this, of "[l0, cp_sl cp]" "[r0, r1]" 0]
    show thesis by (auto simp: lessThan_Suc eval_nat_numeral intro: that)
  qed
  have "pval 0 ts = int (ts ! 0)" using ts(2) by (simp add: pval_def lessThan_Suc eval_nat_numeral)
  then have t0: "sgr (int (ts ! 0)) (int (range_constant y z) + int z ^ 2 * int (unat (transfer_amount wit)) + int z ^ 3 * int (unat (w_balance wit)))"
    using sgr_trans[OF ts(3) p(5)] by simp
  obtain T1 b1 q1 where 1: "pc_commit gens next (ts ! 1) rng = ((T1, b1), q1)" "T1 = g1_add (g_smul (gen_g gens) (ts ! 1)) (g_smul (gen_h gens) b1)"
    by (cases "next rng") (simp add: pc_commit_def)
  obtain T2 b2 q2 where 2: "pc_commit gens next (ts ! 2) q1 = ((T2, b2), q2)" "T2 = g1_add (g_smul (gen_g gens) (ts ! 2)) (g_smul (gen_h gens) b2)"
    by (cases "next q1") (simp add: pc_commit_def)
  define x where "x = challenge kec z [T1, T2]"
  define that where "that = sc_add (sc_add (ts ! 0) (sc_mul (ts ! 1) x)) (sc_mul (ts ! 2) (sc_mul x x))"
  have xx: "sgr (int (sc_mul x x)) (int x ^ 2)" using sgr_sc_mul[of x x] by (simp add: power2_eq_square)
  have "sgr (int that) (int (ts ! 0) + int (ts ! 1) * int x + int (ts ! 2) * int x ^ 2)"
    unfolding that_def by (intro sgr_trans[OF sgr_sc_add] sgr_add sgr_sc_mul sgr_refl sgr_trans[OF sgr_sc_mul sgr_mult[OF sgr_refl xx]])
  from sgr_diff[OF this sgr_refl[of "int (range_constant y z)"]] have "sgr (int (verifier_t that y z)) (int (ts ! 0) + int (ts ! 1) * int x + int (ts ! 2) * int x ^ 2 - int (range_constant y z))"
    by (rule sgr_trans[OF verifier_t_value])
  also have "sgr \<dots> ((int (range_constant y z) + int z ^ 2 * int (unat (transfer_amount wit)) + int z ^ 3 * int (unat (w_balance wit))) + int (ts ! 1) * int x + int (ts ! 2) * int x ^ 2 - int (range_constant y z))"
    by (intro sgr_diff sgr_add sgr_refl t0)
  finally have v: "sgr (int (verifier_t that y z)) (int z ^ 2 * int (unat (transfer_amount wit)) + int z ^ 3 * int (unat (w_balance wit)) + int (ts ! 1) * int x + int (ts ! 2) * int x ^ 2)"
    by (simp add: algebra_simps)
  have r: "range_stage kec gens next cp w rng = Some (\<lparr>gp_y = y, gp_z = z, gp_l_poly = [l0, cp_sl cp], gp_r_poly = [r0, r1], gp_t_1 = T1, gp_t_2 = T2, gp_x = x, gp_that = that,
       gp_tau_x = sc_add (sc_mul b1 x) (sc_mul b2 (sc_mul x x)), gp_mu = sc_add (sc_mul (cp_r_bs cp) x) (cp_r_ba cp)\<rparr>, q2)"
    unfolding range_stage_def Let_def y_def[symmetric] unfolding z_def[symmetric] x_def that_def using p(1) ts(1,2) 1(1) 2(1) by simp
  obtain gp where gp: "range_stage kec gens next cp w rng = Some (gp, q2)" "gp_l_poly gp = [l0, cp_sl cp]" "gp_r_poly gp = [r0, r1]" "gp_y gp = y" "gp_z gp = z"
    "gp_x gp = x" "gp_t_1 gp = T1" "gp_t_2 gp = T2" "gp_that gp = that" using r by simp
  have len: "\<forall>v\<in>{l0, cp_sl cp, r0, r1}. length v = 128" using p c by simp
  have ch: "gp_z gp = reduced_hash kec (to_32_be (gp_y gp))" "gp_x gp = challenge kec (gp_z gp) [gp_t_1 gp, gp_t_2 gp]" unfolding gp by (simp_all only: z_def x_def)
  show ?thesis by (intro exI conjI, rule gp(1), rule gp(2), rule gp(3), rule len, rule trans[OF gp(4) y_def], rule ch, rule ch,
      rule trans[OF gp(7) 1(2)], rule trans[OF gp(8) 2(2)], unfold gp, rule v)
qed

section \<open>The prover returns\<close>

lemma ring_log_pow: "ring_log (2 ^ m) = m"
  using floorlog_power[of 1 2 m] compute_floorlog[of 2 1] by (simp add: ring_log_def floorlog_eq_zero_iff)

lemma generate_proof_parts:
  assumes "gens_ok gens" "0 < m" "m \<le> 28" "ring_complete m s" "w_index wit = [i0, i1]" "i0 < 2 ^ m" "i1 < 2 ^ m"
  shows "\<exists>pf rng' cp gp rng1 rng2. generate_proof kec gens next asset asset_index s wit u txid burn rng = Some (pf, rng') \<and> proof_shape m pf
    \<and> commit_ok kec wit txid m i0 i1 cp \<and> range_stage kec gens next cp (challenge_w kec pf (challenge_v kec pf txid)) rng1 = Some (gp, rng2)
    \<and> pf_f pf = map2 sc_add (vec_times (cp_b cp) (challenge_w kec pf (challenge_v kec pf txid))) (cp_a cp)
    \<and> pf_that pf = gp_that gp \<and> t_1 pf = gp_t_1 gp \<and> t_2 pf = gp_t_2 gp"
proof -
  have n: "length (publickeylist s) = 2 ^ m" using assms(4) by (simp add: ring_complete_def points_ok_def)
  obtain ce cn where c: "ring_ciphers s = Some (ce, cn)" "cts_ok (2 ^ m) ce" "cts_ok (2 ^ m) cn" using ring_ciphers_ok[OF assms(4)] by blast
  obtain cp r1 where cp: "commit_stage kec gens next wit txid m rng = Some (cp, r1)" "commit_ok kec wit txid m i0 i1 cp"
    using commit_stage_ok[OF assms(1-3,5-7), of kec "next" txid rng] by blast
  obtain rp r2 where rp: "ring_stage kec gens next s wit burn ce cn cp m r1 = Some (rp, r2)" "ring_ok kec m cp rp"
    using ring_stage_ok[OF assms(4,2) cp(2) assms(5-7) c(2,3), of gens "next" burn r1] by blast
  obtain gp r3 l0 l1 ra rb where gp: "range_stage kec gens next cp (rp_w rp) r2 = Some (gp, r3)" "gp_l_poly gp = [l0, l1]" "gp_r_poly gp = [ra, rb]"
    "\<forall>v\<in>{l0, l1, ra, rb}. length v = 128" using range_stage_ok[OF cp(2), of gens "next" "rp_w rp" r2] by blast
  obtain a1 a2 a3 a4 a5 where ag: "aggregate_stage gens s wit ce cn cp rp m = Some (a1, a2, a3, a4, a5)"
    using aggregate_stage_total[OF assms(4,2,3) rp(2) assms(5-7) c(2,3), of gens] by auto
  obtain k1 k2 k3 k4 r4 where k: "sigma_nonces next r3 = ((k1, k2, k3, k4), r4)" by (metis prod.exhaust)
  obtain pt where pt: "key_image_point kec (roothash s) asset asset_index = Some pt" using key_image_total by blast
  define c' where "c' = challenge kec (gp_x gp) (sigma_commitments gens pt a1 a2 a3 a4 (gp_z gp) (k1, k2, k3, k4))"
  obtain ip where ip: "prover_inner_product kec gens gp c' = Some ip" "length (ip_ls ip) = 7" "length (ip_rs ip) = 7"
    using prover_inner_product_ok[OF assms(1) gp(2-4)] by blast
  have l: "length (vec_times (cp_b cp) (rp_w rp)) = 2 * m" "length (cp_a cp) = 2 * m" using cp(2) by (simp_all add: commit_ok_def index_bits_def vec_times_def)
  obtain zs0 zs1 where z: "z_powers (gp_z gp) = (zs0, zs1)" by fastforce
  define f where "f = map2 sc_add (vec_times (cp_b cp) (rp_w rp)) (cp_a cp)"
  obtain pf where pf: "generate_proof kec gens next asset asset_index s wit u txid burn rng = Some (pf, r4)"
    "pf_ba pf = cp_ba cp" "pf_bs pf = cp_bs cp" "pf_a pf = cp_a_pt cp" "pf_b pf = cp_b_pt cp" "pf_f pf = f" "pf_that pf = gp_that gp" "t_1 pf = gp_t_1 gp" "t_2 pf = gp_t_2 gp" "pf_ip pf = ip"
    "[cln_g pf, crn_g pf, c_0g pf, dg pf, y_0g pf, g_g pf, c_xg pf, y_xg pf] = map (column (rp_rows rp)) [0..<8]"
    unfolding generate_proof_def n ring_log_pow using c(1) cp(1) rp(1) gp(1) ag k pt ip(1) l z
    by (simp add: Let_def c'_def f_def upt_rec numeral_eq_Suc)
  have w: "challenge_w kec pf (challenge_v kec pf txid) = rp_w rp"
    using rp(2) cp(2) pf(2-5) unfolding challenge_w_def challenge_v_def ring_ok_def commit_ok_def pf(11)[symmetric] by simp
  have "proof_shape m pf" using pf(6,10,11) ip(2,3) l rp(2) by (auto simp: proof_shape_def ROUNDS_def f_def ring_ok_def column_def upt_rec numeral_eq_Suc)
  then show ?thesis using pf(1) cp(2) gp(1)[folded w] pf(6)[unfolded f_def, folded w] pf(7-9) by blast
qed

text \<open>C39: The prover returns a proof for every digest and source of nonces, and every complete statement of a ring of 2 to the \<open>m\<close> members (\<open>m\<close> from 1 to
  28), whatever amounts and keys the witness holds, as long as it names two positions of the ring. The proof has the shape the decoder gives, so that the verifier
  returns a verdict on it. Its responses pass the verifier's parity check (one of the two first responses is the challenge \<open>w\<close>) exactly when the position of
  the sender or of the receiver is odd, or \<open>w\<close> is zero; with two even positions the check fails for every other \<open>w\<close>.\<close>

theorem generate_proof_total:
  assumes "compute_generators kec = Some gens" "0 < m" "m \<le> 28" "ring_complete m s" "w_index wit = [i0, i1]" "i0 < 2 ^ m" "i1 < 2 ^ m"
  shows "\<exists>pf rng' b. generate_proof kec gens next asset asset_index s wit u txid burn rng = Some (pf, rng') \<and> proof_shape m pf
    \<and> (let w = challenge_w kec pf (challenge_v kec pf txid) in (w = pf_f pf ! 0 \<or> w = pf_f pf ! m) \<longleftrightarrow> odd i0 \<or> odd i1 \<or> w = 0)
    \<and> proof_verify kec gens pf asset asset_index s txid burn = Some b"
proof -
  have g: "gens_ok gens" using compute_generators_ok[of kec] assms(1) by auto
  obtain pf rng' cp where p: "generate_proof kec gens next asset asset_index s wit u txid burn rng = Some (pf, rng')" "proof_shape m pf"
    "commit_ok kec wit txid m i0 i1 cp" "pf_f pf = map2 sc_add (vec_times (cp_b cp) (challenge_w kec pf (challenge_v kec pf txid))) (cp_a cp)"
    using generate_proof_parts[OF g assms(2-7), of kec "next" asset asset_index u txid burn rng] by blast
  define w where "w = challenge_w kec pf (challenge_v kec pf txid)"
  have w: "sc_add (sc_mul 1 w) 0 = w" "sc_add (sc_mul 0 w) 0 = 0"
    by (simp_all add: sc_add_def sc_mul_def w_def challenge_w_def challenge_def reduced_hash_less)
  have a: "length (cp_a cp) = 2 * m" "cp_a cp ! 0 = 0" "cp_a cp ! m = 0" "cp_b cp = index_bits m i0 @ index_bits m i1" using p(3) by (simp_all add: commit_ok_def)
  have b: "cp_b cp ! 0 = of_bool (odd i0)" "cp_b cp ! m = of_bool (odd i1)" "length (cp_b cp) = 2 * m"
    using assms(2) by (simp_all add: a(4) nth_append index_bits_def bit_0)
  have "pf_f pf ! 0 = sc_add (sc_mul (of_bool (odd i0)) w) 0" "pf_f pf ! m = sc_add (sc_mul (of_bool (odd i1)) w) 0"
    unfolding p(4) w_def[symmetric] using assms(2) a(1-3) b by (simp_all add: vec_times_def)
  then have "(w = pf_f pf ! 0 \<or> w = pf_f pf ! m) \<longleftrightarrow> odd i0 \<or> odd i1 \<or> w = 0"
    using w by (cases "odd i0"; cases "odd i1") simp_all
  moreover obtain b where "proof_verify kec gens pf asset asset_index s txid burn = Some b"
    using verify_total_of_shape[OF assms(1-3) p(2) assms(4), of asset asset_index txid burn] by blast
  ultimately show ?thesis using p(1,2) unfolding w_def Let_def by (intro exI[of _ pf] exI[of _ rng'] exI[of _ b] conjI)
qed

definition sample_witness :: transfer_witness where
  "sample_witness = \<lparr>secret_key = 11, w_r = 12, transfer_amount = 300, w_balance = 4000, w_index = [0, 1]\<rparr>"

theorem generate_proof_total_witness:
  "\<exists>gens pf rng' b. compute_generators (\<lambda>_. replicate 32 1) = Some gens
    \<and> generate_proof (\<lambda>_. replicate 32 1) gens (det_next (\<lambda>_. replicate 32 1)) (replicate 32 0) 0 filled_statement sample_witness unit_y_point (replicate 32 2) 5 det_new = Some (pf, rng')
    \<and> proof_shape 1 pf \<and> proof_verify (\<lambda>_. replicate 32 1) gens pf (replicate 32 0) 0 filled_statement (replicate 32 2) 5 = Some b"
proof -
  obtain gens where g: "compute_generators (\<lambda>_. replicate 32 1) = Some gens" using compute_generators_ok by blast
  from generate_proof_total[OF g _ _ filled_statement_complete, of sample_witness 0 1 "det_next (\<lambda>_. replicate 32 1)" "replicate 32 0" 0 unit_y_point "replicate 32 2" 5 det_new] g
  show ?thesis by (simp add: sample_witness_def) blast
qed

text \<open>C40: The range identity. The two commitments \<open>t_1\<close> and \<open>t_2\<close> of a generated proof open to coefficients for which the value the verifier derives from
  \<open>that\<close>, at the challenges it recomputes from the proof, is the transferred amount times the square of \<open>z\<close> plus the remaining balance times its cube plus the
  two coefficients at \<open>x\<close> and its square: both amounts are in the 64-bit range.\<close>

theorem generate_proof_range:
  assumes "compute_generators kec = Some gens" "0 < m" "m \<le> 28" "ring_complete m s" "w_index wit = [i0, i1]" "i0 < 2 ^ m" "i1 < 2 ^ m"
    "generate_proof kec gens next asset asset_index s wit u txid burn rng = Some (pf, rng')"
  shows "\<exists>t1 b1 t2 b2. let w = challenge_w kec pf (challenge_v kec pf txid); y = reduced_hash kec (to_32_be w); z = reduced_hash kec (to_32_be y);
      x = challenge kec z [t_1 pf, t_2 pf] in
    t_1 pf = g1_add (g_smul (gen_g gens) t1) (g_smul (gen_h gens) b1) \<and> t_2 pf = g1_add (g_smul (gen_g gens) t2) (g_smul (gen_h gens) b2)
    \<and> verifier_t (pf_that pf) y z = (z ^ 2 * unat (transfer_amount wit) + z ^ 3 * unat (w_balance wit) + t1 * x + t2 * x ^ 2) mod order"
proof -
  have g: "gens_ok gens" using compute_generators_ok[of kec] assms(1) by auto
  define w where "w = challenge_w kec pf (challenge_v kec pf txid)"
  obtain cp gp r1 r2 where p: "commit_ok kec wit txid m i0 i1 cp" "range_stage kec gens next cp w r1 = Some (gp, r2)"
    "pf_that pf = gp_that gp" "t_1 pf = gp_t_1 gp" "t_2 pf = gp_t_2 gp"
    using generate_proof_parts[OF g assms(2-7), of kec "next" asset asset_index u txid burn rng] assms(8) unfolding w_def by auto
  obtain t1 b1 t2 b2 where t: "gp_y gp = reduced_hash kec (to_32_be w)" "gp_z gp = reduced_hash kec (to_32_be (gp_y gp))" "gp_x gp = challenge kec (gp_z gp) [gp_t_1 gp, gp_t_2 gp]"
    "gp_t_1 gp = g1_add (g_smul (gen_g gens) t1) (g_smul (gen_h gens) b1)" "gp_t_2 gp = g1_add (g_smul (gen_g gens) t2) (g_smul (gen_h gens) b2)"
    "sgr (int (verifier_t (gp_that gp) (gp_y gp) (gp_z gp)))
        (int (gp_z gp) ^ 2 * int (unat (transfer_amount wit)) + int (gp_z gp) ^ 3 * int (unat (w_balance wit)) + int t1 * int (gp_x gp) + int t2 * int (gp_x gp) ^ 2)"
    using range_stage_ok[OF p(1), of gens "next" w r1] p(2) by auto
  have "sgr (int (verifier_t (gp_that gp) (gp_y gp) (gp_z gp)))
      (int (gp_z gp ^ 2 * unat (transfer_amount wit) + gp_z gp ^ 3 * unat (w_balance wit) + t1 * gp_x gp + t2 * gp_x gp ^ 2))"
    using t(6) by (simp only: of_nat_add of_nat_mult of_nat_power)
  then have "verifier_t (gp_that gp) (gp_y gp) (gp_z gp)
      = (gp_z gp ^ 2 * unat (transfer_amount wit) + gp_z gp ^ 3 * unat (w_balance wit) + t1 * gp_x gp + t2 * gp_x gp ^ 2) mod order"
    unfolding sgr_nat by (simp add: verifier_t_def)
  moreover have e: "reduced_hash kec (to_32_be w) = gp_y gp" "reduced_hash kec (to_32_be (gp_y gp)) = gp_z gp" "challenge kec (gp_z gp) [gp_t_1 gp, gp_t_2 gp] = gp_x gp"
    using t(1-3) by simp_all
  ultimately show ?thesis unfolding Let_def w_def[symmetric] p(3-5) e using t(4,5) by blast
qed

theorem generate_proof_range_witness:
  "\<exists>gens pf rng'. compute_generators (\<lambda>_. replicate 32 1) = Some gens
    \<and> generate_proof (\<lambda>_. replicate 32 1) gens (det_next (\<lambda>_. replicate 32 1)) (replicate 32 0) 0 filled_statement sample_witness unit_y_point (replicate 32 2) 5 det_new = Some (pf, rng')
    \<and> (\<exists>t1 b1 t2 b2. let w = challenge_w (\<lambda>_. replicate 32 1) pf (challenge_v (\<lambda>_. replicate 32 1) pf (replicate 32 2));
        y = reduced_hash (\<lambda>_. replicate 32 1) (to_32_be w); z = reduced_hash (\<lambda>_. replicate 32 1) (to_32_be y); x = challenge (\<lambda>_. replicate 32 1) z [t_1 pf, t_2 pf] in
      t_1 pf = g1_add (g_smul (gen_g gens) t1) (g_smul (gen_h gens) b1) \<and> t_2 pf = g1_add (g_smul (gen_g gens) t2) (g_smul (gen_h gens) b2)
      \<and> verifier_t (pf_that pf) y z = (z ^ 2 * unat (transfer_amount sample_witness) + z ^ 3 * unat (w_balance sample_witness) + t1 * x + t2 * x ^ 2) mod order)"
proof -
  obtain gens where g: "compute_generators (\<lambda>_. replicate 32 1) = Some gens" "gens_ok gens" using compute_generators_ok by blast
  have i: "w_index sample_witness = [0, 1]" by (simp add: sample_witness_def)
  obtain pf rng' where p: "generate_proof (\<lambda>_. replicate 32 1) gens (det_next (\<lambda>_. replicate 32 1)) (replicate 32 0) 0 filled_statement sample_witness unit_y_point (replicate 32 2) 5 det_new = Some (pf, rng')"
    using generate_proof_parts[OF g(2) _ _ filled_statement_complete i, of "\<lambda>_. replicate 32 1" "det_next (\<lambda>_. replicate 32 1)" "replicate 32 0" 0 unit_y_point "replicate 32 2" 5 det_new] by auto
  show ?thesis by (intro exI[of _ gens] exI[of _ pf] exI[of _ rng'] conjI g(1) p, rule generate_proof_range[OF g(1) _ _ filled_statement_complete i _ _ p]) simp_all
qed

end
