(* ===== verification/Registration.thy ===== *)
theory Registration
  imports HashToPoint Transaction
begin

text \<open>
  The Schnorr check of a registration (\<open>is_registration_valid\<close> of \<open>block/src/transaction.rs\<close>): the challenge is recomputed from the key and from the point
  \<open>G * s - u * c\<close>, both written as text. The hexadecimal printer and the digest are parameters. What it accepts has a key on the curve and a reduced challenge.
\<close>

definition is_registration_valid :: "digest \<Rightarrow> (byte list \<Rightarrow> rstr) \<Rightarrow> generators \<Rightarrow> transaction \<Rightarrow> bool" where
  "is_registration_valid kec hex gens tx =
    (if tx_type tx \<noteq> Registration then False
     else case decompress (miner_address tx) of
       Inl _ \<Rightarrow> False
     | Inr u \<Rightarrow>
        let s = be_val (tx_s tx); c = be_val (tx_c tx);
          gs = scalar_mult (gen_g gens) (to_bytes_be s);
          uc = scalar_mult u (to_bytes_be c);
          neg_uc = g1_neg uc;
          tmppoint = g1_add gs neg_uc;
          serialize = point_to_string hex u @ point_to_string hex tmppoint;
          c_calculated = reduced_hash kec serialize
        in c = c_calculated)"

lemma valid_registration_key:
  assumes "is_registration_valid kec hex gens tx"
  shows "\<exists>u. decompress (miner_address tx) = Inr u \<and> decoded u \<and> is_registration tx \<and> be_val (tx_c tx) < order"
proof -
  obtain u where u: "tx_type tx = Registration" "decompress (miner_address tx) = Inr u" using assms
    by (auto simp: is_registration_valid_def split: if_splits sum.splits)
  then have "\<exists>bs. be_val (tx_c tx) = reduced_hash kec bs" using assms by (auto simp: is_registration_valid_def Let_def)
  then have "be_val (tx_c tx) < order" using reduced_hash_less by auto
  then show ?thesis using u decompress_safe by (auto simp: is_registration_def)
qed

lemma registration_read_back:
  assumes "tx_ok tx" "is_registration tx"
  shows "deserialize_registration (tx_bytes tx) = Inr tx"
  using tx_roundtrip_bytes[OF assms(1), of "[]"] assms(2) by (simp add: deserialize_registration_def is_registration_def)

end
