(* ===== verification/Spec2Isabelle.thy ===== *)
theory Spec2Isabelle
  imports Mining SuffixArray LpBuf Ws Address Block ElGamal ProofRange Registration
begin

text \<open>
  A verification library for the Dirtybird Rust miner of the DERO network.

  \<^bold>\<open>The program.\<close> The binary (\<open>src/src/\<close>) connects to a DERO node over a websocket, receives block templates, lets one worker thread
  per core grind nonces with the proof-of-work hash AstroBWTv3, and sends back the shares that clear the target. The hash is the crate
  \<open>src/astrobwt/\<close>; the network structures (varints, miniblocks, transactions, blocks, addresses) are the crate \<open>src/block/\<close>; the
  curve and the proof structures they carry are \<open>src/cryptography/bn256/\<close> and \<open>src/cryptography/crypto/\<close>.

  \<^bold>\<open>Conventions.\<close> A Rust integer is a word of its width, so arithmetic wraps as in the release build; a fixed array or a vector is a
  list; a \<open>Result\<close> is a sum with the error on the left (\<open>Inl\<close>); an operation that panics or may not end has that outcome as a value
  (\<open>Panic\<close>, \<open>None\<close>). Big integers are natural numbers. Code outside the repository (SHA-256, Salsa20, SHA3, Keccak, BLAKE2s, the
  libsais library, the vendored C++ engine, the operating system's allocator) is a parameter of the definitions, and a property that relies on it names the contract as
  a hypothesis. Loops are recursive functions, with a termination proof where the recursion is not structural; a loop whose end is not
  evident is an option, and a property states when it returns, or says that it does not.

  \<^bold>\<open>Theories and the code they model.\<close>

  \<^item> \<open>Prelude\<close>: bytes, big- and little-endian integers, results, counted readers, and the interface \<open>prefix_codec\<close> of every
    serializer: a decoder that reads a value off the front of a buffer and inverts the encoder, whatever follows. The codecs below are
    interpretations of it.
  \<^item> \<open>Varint\<close> (\<open>block/src/varint.rs\<close>), \<open>MiniBlock\<close> (\<open>block/src/miniblock.rs\<close>): round trips with exact error conditions, and the
    collection of miniblocks with its invariant.
  \<^item> \<open>Rc4\<close> (\<open>astrobwt/src/rc4.rs\<close>): the box stays a permutation; the stream is an involution.
  \<^item> \<open>Ops\<close> (\<open>ops_generated.rs\<close>) and \<open>OpsAvx2\<close> (\<open>ops_avx2.rs\<close>): the 256 operations of the hash loop as rows of primitive steps, the
    packed table of the vector code, and the equality of the two on every window.
  \<^item> \<open>AstroBwt\<close> (\<open>lib.rs\<close>, the dispatch in \<open>sais32.rs\<close>): the verifier's pipeline and the miner's, with its reused scratch
    buffers, its two-lane variant and all its engines (plain, \<open>libsais\<close>, \<open>v114\<close> in Rust or C++); both return, and return the same hash
    when the engines the build calls keep their contract.
  \<^item> \<open>Difficulty\<close> (\<open>difficulty.rs\<close>, \<open>pow16.rs\<close>): selection by height, the byte-wise target check against the big-integer one.
  \<^item> \<open>SuffixArray\<close> (\<open>suffixarray.rs\<close>): prefix doubling in \<open>i32\<close> positions and \<open>i64\<close> ranks ends and sorts all suffixes of a text below
    \<open>2 ^ 31\<close> bytes, and panics on a longer one. \<open>LpBuf\<close> (\<open>lpbuf.rs\<close>): the buffer over raw
    cells refines a vector.
  \<^item> \<open>Worker\<close> (\<open>src/worker.rs\<close>, \<open>job.rs\<close>): the grinding call in its one-lane and two-lane variants; a locale states once what one pass
    over a batch does, and both variants are interpretations. \<open>Mining\<close> (\<open>worker.rs\<close>, \<open>main.rs\<close>): the interleavings of the
    connection thread and the workers as a step relation, with invariants by rule induction.
  \<^item> \<open>Ws\<close> (\<open>src/ws.rs\<close>): frames, fragments, control frames, base64.
  \<^item> \<open>Bech32\<close> (\<open>bech32.rs\<close>) and \<open>Address\<close> (\<open>address.rs\<close>): the checksum as a linear map that notices every single substitution,
    regrouping of bits, and the address text in both directions; the Unicode case tables of the standard library are a parameter.
  \<^item> \<open>Gfp\<close> (\<open>gfp.rs\<close>): the four-word Montgomery arithmetic is arithmetic modulo the prime; the locale \<open>residue_ops\<close> holds what the
    clients use of it. \<open>Curve\<close> (\<open>curve.rs\<close>): the group operations keep the curve equation and are the chord and tangent
    constructions. \<open>G1\<close> (\<open>g1.rs\<close>): decoders accept only points of the curve, and invert the encoders.
  \<^item> \<open>Statement\<close> (\<open>statement.rs\<close>, \<open>read.rs\<close>, codecs of \<open>proof.rs\<close> and \<open>inner_product.rs\<close>), \<open>Transaction\<close> (\<open>transaction.rs\<close>), \<open>Block\<close>
    (\<open>block.rs\<close>): wire formats in both directions, exactly which bytes make the transaction decoder panic, the structural checks on the miniblocks of
    a block and the binding of the final miniblock.

  \<^item> \<open>GoTime\<close>, \<open>Floats\<close>, \<open>Cbor\<close>, \<open>CborSafe\<close>, \<open>Arguments\<close> (all of \<open>block/src/arguments.rs\<close>): the RFC 3339 parser and its calendar (before
    and after 1970), the
    binary16 conversions on bit patterns, the CBOR validator and parser with the error texts of the Go library, the proof that they
    neither panic nor run out of recursion, and the typed arguments with their canonical encoding, which decodes to the same arguments.
  \<^item> \<open>Scalar\<close>, \<open>FieldVector\<close>, \<open>Polynomial\<close> (\<open>scalar.rs\<close>, \<open>field_vector.rs\<close>, \<open>polynomial.rs\<close>, the matrix of \<open>proof.rs\<close>): arithmetic modulo the group
    order; the recursive transform is the Fourier sum at the code's root of unity, proved once in the locale \<open>fft_direction\<close> and
    interpreted for both directions; the ring polynomials of the prover agree with the coefficient vectors of the verifier.
  \<^item> \<open>HashToPoint\<close> (\<open>hashtopoint.rs\<close>, \<open>generators.rs\<close>, \<open>keys.rs\<close>, \<open>keccak.rs\<close>) and \<open>PointVector\<close> (\<open>point_vector.rs\<close>): the search for a point ends,
    and generators, commitments, transforms and convolutions stay on the curve. \<open>InnerProduct\<close> (\<open>inner_product.rs\<close>): prover and verifier,
    and the agreement of the folded scalars with the exponents the verifier computes in one pass.
  \<^item> \<open>ProofVerify\<close> (\<open>Proof::verify\<close>): the whole verification; on a decoded proof it returns a verdict for every ring of two or more members, and panics on a ring of one.
    \<open>ProofGenerate\<close> and \<open>ProofRange\<close> (\<open>generate_proof\<close>): the prover in five stages over a source of nonces; it returns, passes the parity check when one of the two positions is odd, and its
    range argument gives the verifier the value the amounts determine. \<open>Registration\<close>: the Schnorr check. \<open>ElGamal\<close> (\<open>elgamal.rs\<close>,
    \<open>cipher.rs\<close>, \<open>balance_decoder.rs\<close>): balances, their stored form, the payload cipher, and the decoder that searches for a balance, which
    returns only right ones.

  \<^bold>\<open>Interaction.\<close> \<open>Mining\<close> steps call \<open>Worker\<close>, which calls \<open>Difficulty\<close> and \<open>AstroBwt\<close>, which runs \<open>Ops\<close> or \<open>OpsAvx2\<close> and \<open>Rc4\<close>.
  \<open>Block\<close> reads its miner transaction with \<open>Transaction\<close> and its miniblocks with \<open>MiniBlock\<close>; \<open>Transaction\<close> reads statements and
  proofs with \<open>Statement\<close>, whose points are read with \<open>G1\<close>; \<open>Address\<close> combines \<open>Bech32\<close>, \<open>G1\<close> and \<open>Arguments\<close>. A proof read by
  \<open>Statement\<close> is checked by \<open>ProofVerify\<close>, which uses \<open>Polynomial\<close>, \<open>PointVector\<close>, \<open>HashToPoint\<close> and \<open>InnerProduct\<close>.

  \<^bold>\<open>Bounds.\<close> The hash loop ends after at most 277 rounds, because its exit condition is tested from round 261 on and forced later;
  the doubling of the suffix array ends because the width doubles each round. The CBOR
  functions recurse on a counter that starts at the length of the input plus one, and its loops over items of indefinite length on the bytes left plus
  one; every call consumes a byte, and \<open>CborSafe\<close> proves that the counter is never exhausted. The search for a point ends at a fixed abscissa at the latest,
  which is the measure of its recursion. The search for a balance need not end in the code; it is a partial function, and the property about it is
  soundness: what it returns is right. Inversion in the field and square
  roots are right for elements that satisfy Fermat's and Euler's congruences; those congruences are hypotheses about the one element, since
  the primality of the modulus is not proved here.

  \<^bold>\<open>Not modelled.\<close> The suffix-array engines behind the hash (SA-IS in 16 and 32 bits, the descriptor engine, libsais) are
  parameters; where a build uses one, the properties of the hash assume and do not prove that it returns the array of the portable engine; the two-lane SHA-256 is inline assembly and intrinsics. The opening
  handshake of the websocket, the command line, terminal, benchmarks, affinity, TLS and the statistics server are input and output for the most part. The
  group law of the curve (associativity) and the primality of the two moduli are not proved, so what follows from them (that a proof the prover makes passes the
  checks on points, that every field element has its inverse) is stated only for the scalars, or with the congruence as
  a hypothesis.
\<close>

end
